(* ===== verification/Redis_Prelude.thy ===== *)
theory Redis_Prelude
  imports Main "HOL-Library.Word"
begin

text \<open>
  Names and lemmas that every component of the development shares.

  Bytes are 8-bit words; a C buffer is a list of bytes. C integers are \<open>int\<close> (signed) or
  \<open>nat\<close> (unsigned), with the conversion to a narrower or unsigned type written out where the
  code relies on it: \<open>u64 x\<close>, \<open>s64 x\<close> and \<open>u32 x\<close> are the C casts to
  \<open>uint64_t\<close>, \<open>int64_t\<close> and \<open>uint32_t\<close> (two's complement, as on every platform
  the code builds on). The second part is the byte order library: integers laid out in little and
  big endian order, with the round trips that every encoded format of the program rests on. The
  third part is the contract of a self-delimiting encoder and its consequences.
\<close>

type_synonym byte = "8 word"

named_theorems codec_simps \<open>lengths and round trips of byte encodings\<close>
named_theorems range_defs \<open>the value ranges of the C integer types\<close>

subsection \<open>The C integer types\<close>

definition INT16_MIN :: int where "INT16_MIN = - (2 ^ 15)"
definition INT16_MAX :: int where "INT16_MAX = 2 ^ 15 - 1"
definition INT32_MIN :: int where "INT32_MIN = - (2 ^ 31)"
definition INT32_MAX :: int where "INT32_MAX = 2 ^ 31 - 1"
definition LLONG_MIN :: int where "LLONG_MIN = - (2 ^ 63)"
definition LLONG_MAX :: int where "LLONG_MAX = 2 ^ 63 - 1"
definition ULLONG_MAX :: nat where "ULLONG_MAX = 2 ^ 64 - 1"

lemmas int_type_limits [range_defs] =
  INT16_MIN_def INT16_MAX_def INT32_MIN_def INT32_MAX_def LLONG_MIN_def LLONG_MAX_def
  ULLONG_MAX_def

definition u32 :: "int \<Rightarrow> nat" where "u32 x = nat (x mod 2 ^ 32)"
definition u64 :: "int \<Rightarrow> nat" where "u64 x = nat (x mod 2 ^ 64)"
definition s64 :: "int \<Rightarrow> int" where "s64 x = (x + 2 ^ 63) mod 2 ^ 64 - 2 ^ 63"
definition s32 :: "int \<Rightarrow> int" where "s32 x = (x + 2 ^ 31) mod 2 ^ 32 - 2 ^ 31"

definition is_int64 :: "int \<Rightarrow> bool" where
  "is_int64 v \<longleftrightarrow> LLONG_MIN \<le> v \<and> v \<le> LLONG_MAX"

lemma s64_id [simp]: "is_int64 v \<Longrightarrow> s64 v = v"
  by (simp add: s64_def is_int64_def range_defs)

lemma is_int64_s64 [simp]: "is_int64 (s64 v)"
proof -
  have "0 \<le> (v + 2 ^ 63) mod 2 ^ 64" and "(v + 2 ^ 63) mod 2 ^ 64 < (2 ^ 64 :: int)"
    by simp_all
  then show ?thesis by (simp add: s64_def is_int64_def range_defs)
qed

lemma u64_less: "u64 x < 2 ^ 64"
  by (simp add: u64_def nat_less_iff)

lemma u64_id [simp]: "0 \<le> x \<Longrightarrow> x < 2 ^ 64 \<Longrightarrow> u64 x = nat x"
  by (simp add: u64_def)

subsection \<open>Integers as bytes\<close>

text \<open>\<open>le_bytes n v\<close>: the \<open>n\<close> low bytes of \<open>v\<close>, least significant first.\<close>

fun le_bytes :: "nat \<Rightarrow> int \<Rightarrow> byte list" where
  "le_bytes 0 v = []"
| "le_bytes (Suc n) v = word_of_int v # le_bytes n (v div 256)"

fun le_uint :: "byte list \<Rightarrow> int" where
  "le_uint [] = 0"
| "le_uint (b # bs) = uint b + 256 * le_uint bs"

definition le_sint :: "byte list \<Rightarrow> int" where
  "le_sint bs = (let u = le_uint bs; m = 256 ^ length bs in if 2 * u < m then u else u - m)"

definition be_bytes :: "nat \<Rightarrow> int \<Rightarrow> byte list" where
  "be_bytes n v = rev (le_bytes n v)"

definition be_uint :: "byte list \<Rightarrow> int" where
  "be_uint bs = le_uint (rev bs)"

lemma length_le_bytes [simp, codec_simps]: "length (le_bytes n v) = n"
  by (induction n arbitrary: v) auto

lemma length_be_bytes [simp, codec_simps]: "length (be_bytes n v) = n"
  by (simp add: be_bytes_def)

lemma word_of_int_mod_byte [simp]: "(word_of_int (x mod 256) :: byte) = word_of_int x"
proof -
  have "(word_of_int (take_bit 8 x) :: byte) = word_of_int x"
    by (rule bit_word_eqI) (simp add: bit_word_of_int_iff bit_take_bit_iff)
  then show ?thesis by (simp add: take_bit_eq_mod)
qed

lemma le_uint_nonneg: "0 \<le> le_uint bs"
  by (induction bs) auto

lemma le_uint_less: "le_uint bs < 256 ^ length bs"
proof (induction bs)
  case Nil
  show ?case by simp
next
  case (Cons b bs)
  have "uint b < 256" using uint_lt2p [of b] by simp
  moreover have "le_uint bs + 1 \<le> 256 ^ length bs" using Cons.IH by simp
  ultimately show ?case by simp
qed

lemma le_uint_le_bytes [codec_simps]: "le_uint (le_bytes n v) = v mod 256 ^ n"
proof (induction n arbitrary: v)
  case 0
  show ?case by simp
next
  case (Suc n)
  have "v mod (256 * 256 ^ n) = 256 * (v div 256 mod 256 ^ n) + v mod 256"
    by (rule zmod_zmult2_eq) simp
  with Suc.IH show ?case by (simp add: unsigned_of_int take_bit_eq_mod)
qed

lemma le_bytes_le_uint [codec_simps]: "le_bytes (length bs) (le_uint bs) = bs"
proof (induction bs)
  case Nil
  show ?case by simp
next
  case (Cons b bs)
  have b: "0 \<le> uint b" "uint b < 256" using uint_lt2p [of b] by simp_all
  have "(256 * le_uint bs + uint b) div 256 = le_uint bs"
    using b by simp
  moreover have "word_of_int (uint b + 256 * le_uint bs) = b"
    using b word_of_int_mod_byte [of "uint b + 256 * le_uint bs"]
    by (simp del: word_of_int_mod_byte of_int_add)
  ultimately show ?case using Cons.IH by (simp add: add.commute)
qed

lemma be_uint_be_bytes [codec_simps]: "be_uint (be_bytes n v) = v mod 256 ^ n"
  by (simp add: be_uint_def be_bytes_def le_uint_le_bytes)

lemma be_bytes_be_uint [codec_simps]: "be_bytes (length bs) (be_uint bs) = bs"
  using le_bytes_le_uint [of "rev bs"] by (simp add: be_uint_def be_bytes_def)

lemma be_uint_nonneg [simp]: "0 \<le> be_uint bs"
  by (simp add: be_uint_def le_uint_nonneg)

lemma be_uint_less: "be_uint bs < 256 ^ length bs"
  using le_uint_less [of "rev bs"] by (simp add: be_uint_def)

lemma le_bytes_mod [simp]: "le_bytes n (v mod 256 ^ n) = le_bytes n v"
  using le_bytes_le_uint [of "le_bytes n v"] by (simp add: le_uint_le_bytes)

lemma le_sint_le_bytes:
  assumes "0 < n" and "- (256 ^ n div 2) \<le> v" and "v < 256 ^ n div 2"
  shows "le_sint (le_bytes n v) = v"
proof -
  have ev: "2 * (256 ^ n div 2) = (256 ^ n :: int)"
    using assms(1) by (cases n) auto
  let ?h = "256 ^ n div 2 :: int"
  show ?thesis
  proof (cases "0 \<le> v")
    case True
    with assms(3) ev have "v mod 256 ^ n = v" by (intro mod_pos_pos_trivial) linarith+
    with assms(3) ev show ?thesis
      by (simp add: le_sint_def Let_def le_uint_le_bytes)
  next
    case False
    have "v mod 256 ^ n = (v + 256 ^ n) mod 256 ^ n" by simp
    also have "\<dots> = v + 256 ^ n"
      using False assms(2) ev by (intro mod_pos_pos_trivial) linarith+
    finally show ?thesis
      using assms(2) ev by (simp add: le_sint_def Let_def le_uint_le_bytes)
  qed
qed

lemma le_sint_bounds:
  assumes "bs \<noteq> []"
  shows "- (256 ^ length bs div 2) \<le> le_sint bs \<and> le_sint bs < 256 ^ length bs div 2"
proof -
  obtain h :: int where h: "256 ^ length bs = 2 * h"
    using assms by (cases bs) (auto intro: that [of "128 * 256 ^ (length bs - 1)"])
  have b: "le_uint bs < 2 * h" "0 \<le> le_uint bs"
    using le_uint_less [of bs] by (simp_all add: h le_uint_nonneg)
  then have "0 \<le> h" by linarith
  with b show ?thesis by (auto simp: le_sint_def Let_def h)
qed

text \<open>Checking all 64 values of six bits, or all positions of a 64-bit word.\<close>

lemma upt_64: "[0..<64] = [0, 1, 2, 3, 4, 5, 6, 7, 8, 9, 10, 11, 12, 13, 14, 15, 16, 17, 18, 19, 20, 21,
    22, 23, 24, 25, 26, 27, 28, 29, 30, 31, 32, 33, 34, 35, 36, 37, 38, 39, 40, 41, 42, 43, 44, 45, 46,
    47, 48, 49, 50, 51, 52, 53, 54, 55, 56, 57, 58, 59, 60, 61, 62, 63]"
  by (simp add: upt_rec numeral_eq_Suc)

lemma all_less_64: "(\<forall>n < 64. P n) \<longleftrightarrow> list_all P [0..<64]"
  by (auto simp: list_all_iff)

subsection \<open>Self-delimiting encodings\<close>

text \<open>
  The contract of the variable length headers of the program (ziplist lengths, dump file lengths,
  compact lists): an encoder for the values \<open>ok\<close> admits, and a decoder that reads a value off
  the front of a buffer and returns it with the number of bytes it used, whatever follows.
\<close>

locale prefix_codec =
  fixes enc :: "'a \<Rightarrow> byte list"
    and dec :: "byte list \<Rightarrow> ('a \<times> nat) option"
    and ok :: "'a \<Rightarrow> bool"
  assumes dec_enc: "ok x \<Longrightarrow> dec (enc x @ rest) = Some (x, length (enc x))"
begin

lemma enc_append_inject:
  assumes "ok x" and "ok y" and "enc x @ r = enc y @ s"
  shows "x = y \<and> r = s"
proof -
  have "dec (enc x @ r) = Some (x, length (enc x))" using assms(1) by (rule dec_enc)
  moreover have "dec (enc x @ r) = Some (y, length (enc y))"
    using assms(2,3) dec_enc [of y s] by simp
  ultimately have "x = y" by simp
  with assms(3) show ?thesis by simp
qed

lemma enc_inject: "ok x \<Longrightarrow> ok y \<Longrightarrow> enc x = enc y \<Longrightarrow> x = y"
  using enc_append_inject [of x y "[]" "[]"] by simp

text \<open>Reading a known number of values back out of a buffer.\<close>

fun dec_many :: "nat \<Rightarrow> byte list \<Rightarrow> ('a list \<times> byte list) option" where
  "dec_many 0 bs = Some ([], bs)"
| "dec_many (Suc n) bs =
     (case dec bs of
        None \<Rightarrow> None
      | Some (x, k) \<Rightarrow>
          (case dec_many n (drop k bs) of None \<Rightarrow> None | Some (xs, r) \<Rightarrow> Some (x # xs, r)))"

lemma dec_many_enc:
  "list_all ok xs \<Longrightarrow> dec_many (length xs) (concat (map enc xs) @ rest) = Some (xs, rest)"
  by (induction xs) (simp_all add: dec_enc)

end

end
