(* ===== verification/Redis_Util.thy ===== *)
theory Redis_Util
  imports Redis_Prelude
begin

text \<open>
  The conversions and the glob matcher of \<open>src/util.c\<close>: \<open>ll2string\<close>, \<open>string2ll\<close>,
  \<open>string2l\<close> and \<open>stringmatchlen\<close>. A function that fills a caller's buffer returns the
  bytes it stores; a function that reports failure with 0 and stores through a pointer otherwise
  returns an option. \<open>stringmatchlen\<close> reads its arguments through pointers that it moves
  itself, so its model carries the two positions and returns \<open>None\<close> where the code would read
  outside the two buffers (each as long as its string and the terminating NUL byte).
\<close>

subsection \<open>Integers to strings\<close>

definition digit_char :: "nat \<Rightarrow> byte" where
  "digit_char d = of_nat (48 + d)"

fun ll2string_digits :: "nat \<Rightarrow> byte list \<Rightarrow> byte list" where
  "ll2string_digits v p =
     (let p' = digit_char (v mod 10) # p
      in if v div 10 = 0 then p' else ll2string_digits (v div 10) p')"

declare ll2string_digits.simps [simp del]

definition ll2string :: "nat \<Rightarrow> int \<Rightarrow> nat \<times> byte list" where
  "ll2string len value =
     (if len = 0 then (0, [])
      else let v = u64 (if value < 0 then - value else value);
               p = ll2string_digits v [];
               p = (if value < 0 then 45 # p else p);
               l = length p;
               l = (if l + 1 > len then len - 1 else l)
           in (l, take l p @ [0]))"

subsection \<open>Strings to integers\<close>

definition isdigit :: "byte \<Rightarrow> bool" where
  "isdigit c \<longleftrightarrow> 48 \<le> c \<and> c \<le> 57"

fun string2ll_loop :: "byte list \<Rightarrow> nat \<Rightarrow> (nat \<times> byte list) option" where
  "string2ll_loop [] v = Some (v, [])"
| "string2ll_loop (c # p) v =
     (if isdigit c then
        if v > ULLONG_MAX div 10 then None
        else let v = v * 10 mod 2 ^ 64
             in if v > ULLONG_MAX - (unat c - 48) then None
                else string2ll_loop p ((v + (unat c - 48)) mod 2 ^ 64)
      else Some (v, c # p))"

definition string2ll :: "byte list \<Rightarrow> int option" where
  "string2ll s =
     (if s = [] then None
      else if length s = 1 \<and> hd s = 48 then Some 0
      else let negative = (hd s = 45); p = (if negative then tl s else s)
           in if negative \<and> p = [] then None
              else if 49 \<le> hd p \<and> hd p \<le> 57 then
                (case string2ll_loop (tl p) (unat (hd p) - 48) of
                   None \<Rightarrow> None
                 | Some (v, rest) \<Rightarrow>
                     if rest \<noteq> [] then None
                     else if negative then
                       if int v > - (LLONG_MIN + 1) + 1 then None else Some (s64 (- int v))
                     else if int v > LLONG_MAX then None
                     else Some (s64 (int v)))
              else if hd p = 48 \<and> length s = 1 then Some 0
              else None)"

text \<open>\<open>long\<close> is as wide as \<open>long long\<close> on the 64-bit platforms modelled here.\<close>

definition string2l :: "byte list \<Rightarrow> int option" where
  "string2l s =
     (case string2ll s of
        None \<Rightarrow> None
      | Some llval \<Rightarrow>
          if llval < LLONG_MIN \<or> llval > LLONG_MAX then None else Some llval)"

subsection \<open>The decimal notation they implement\<close>

fun decimal :: "nat \<Rightarrow> byte list" where
  "decimal v = (if v < 10 then [digit_char v] else decimal (v div 10) @ [digit_char (v mod 10)])"

declare decimal.simps [simp del]

definition dec_step :: "nat \<Rightarrow> byte \<Rightarrow> nat" where
  "dec_step a c = 10 * a + (unat c - 48)"

lemma unat_digit: "d < 10 \<Longrightarrow> unat (digit_char d) = 48 + d"
  by (simp add: digit_char_def unat_of_nat unat_word_ariths)

lemma isdigit_unat: "isdigit c \<longleftrightarrow> 48 \<le> unat c \<and> unat c \<le> 57"
  by (simp add: isdigit_def word_le_nat_alt)

lemma isdigit_digit [simp]: "d < 10 \<Longrightarrow> isdigit (digit_char d)"
  by (simp add: isdigit_unat unat_digit)

lemma digit_of_unat: "isdigit c \<Longrightarrow> digit_char (unat c - 48) = c"
  by (simp add: isdigit_unat digit_char_def flip: of_nat_add)

lemma digit_char_0: "d < 10 \<Longrightarrow> digit_char d = 48 \<longleftrightarrow> d = 0"
  using unat_digit [of d] by (auto simp: digit_char_def)

lemma ll2string_digits_decimal: "ll2string_digits v p = decimal v @ p"
proof (induction v p rule: ll2string_digits.induct)
  case (1 v p)
  show ?case
  proof (cases "v div 10 = 0")
    case True
    then have "v < 10" by presburger
    with True show ?thesis
      by (simp add: ll2string_digits.simps [of v] decimal.simps [of v])
  next
    case False
    then have "\<not> v < 10" by presburger
    with False "1.IH" [OF refl False] show ?thesis
      by (simp add: ll2string_digits.simps [of v p] decimal.simps [of v])
  qed
qed

lemma decimal_digits: "list_all isdigit (decimal v)"
  by (induction v rule: decimal.induct) (subst decimal.simps, auto)

lemma decimal_nonempty [simp]: "decimal v \<noteq> []"
  by (subst decimal.simps) simp

lemma decimal_value: "foldl dec_step 0 (decimal v) = v"
proof (induction v rule: decimal.induct)
  case (1 v)
  then show ?case
    by (cases "v < 10") (simp_all add: decimal.simps [of v] dec_step_def unat_digit)
qed

lemma decimal_hd: "0 < v \<Longrightarrow> hd (decimal v) \<noteq> 48"
proof (induction v rule: decimal.induct)
  case (1 v)
  then show ?case
    by (cases "v < 10") (simp_all add: decimal.simps [of v] digit_char_0 hd_append)
qed

text \<open>Digit strings without a leading zero are the decimal notation of their value.\<close>

lemma decimal_snoc: "0 < w \<Longrightarrow> d < 10 \<Longrightarrow> decimal (10 * w + d) = decimal w @ [digit_char d]"
  by (subst decimal.simps) simp

lemma decimal_of_digits:
  assumes "isdigit c" and "c \<noteq> 48" and "list_all isdigit cs"
  shows "decimal (foldl dec_step (unat c - 48) cs) = c # cs \<and> 0 < foldl dec_step (unat c - 48) cs"
  using assms(3)
proof (induction cs rule: rev_induct)
  case Nil
  have "unat c \<noteq> unat (48 :: byte)" using assms(2) by (simp only: word_unat_eq_iff simp_thms)
  with assms(1) have "48 < unat c" "unat c \<le> 57" by (auto simp: isdigit_unat)
  then show ?case using digit_of_unat [OF assms(1)]
    by (simp add: decimal.simps)
next
  case (snoc x xs)
  let ?w = "foldl dec_step (unat c - 48) xs"
  from snoc have IH: "decimal ?w = c # xs" "0 < ?w" and x: "isdigit x" by auto
  then have d: "unat x - 48 < 10" by (auto simp: isdigit_unat)
  then have "decimal (dec_step ?w x) = decimal ?w @ [x]" "0 < dec_step ?w x"
    using decimal_snoc [OF IH(2) d] digit_of_unat [OF x] IH(2) by (simp_all add: dec_step_def)
  then show ?case using IH by simp
qed

lemma foldl_dec_step_mono: "a \<le> foldl dec_step a cs"
proof (induction cs arbitrary: a)
  case (Cons c cs)
  have "a \<le> dec_step a c" by (simp add: dec_step_def)
  also have "\<dots> \<le> foldl dec_step (dec_step a c) cs" by (rule Cons.IH)
  finally show ?case by simp
qed simp

text \<open>The overflow tests of the loop are exact: it computes the value, or the value does not fit.\<close>

lemma string2ll_loop_step:
  assumes "isdigit c"
  shows "string2ll_loop (c # cs) v =
    (if dec_step v c \<le> ULLONG_MAX then string2ll_loop cs (dec_step v c) else None)"
proof -
  have d: "unat c - 48 < 10" using assms by (auto simp: isdigit_unat)
  show ?thesis
  proof (cases "v > ULLONG_MAX div 10")
    case True
    then show ?thesis using assms by (simp add: dec_step_def ULLONG_MAX_def)
  next
    case False
    then have m: "v * 10 mod 2 ^ 64 = v * 10" by (simp add: ULLONG_MAX_def)
    have "v * 10 > ULLONG_MAX - (unat c - 48) \<longleftrightarrow> \<not> dec_step v c \<le> ULLONG_MAX"
      using d by (auto simp: dec_step_def ULLONG_MAX_def)
    moreover have "dec_step v c \<le> ULLONG_MAX \<Longrightarrow> (v * 10 + (unat c - 48)) mod 2 ^ 64 = dec_step v c"
      by (simp add: dec_step_def ULLONG_MAX_def)
    ultimately show ?thesis using False assms by (simp only: string2ll_loop.simps m Let_def if_True if_False) simp
  qed
qed

lemma string2ll_loop_exact:
  "list_all isdigit cs \<Longrightarrow> v \<le> ULLONG_MAX \<Longrightarrow>
   string2ll_loop cs v =
     (if foldl dec_step v cs \<le> ULLONG_MAX then Some (foldl dec_step v cs, []) else None)"
proof (induction cs arbitrary: v)
  case Nil
  then show ?case by simp
next
  case (Cons c cs)
  note mono = foldl_dec_step_mono [of "dec_step v c" cs]
  show ?case
  proof (cases "dec_step v c \<le> ULLONG_MAX")
    case True
    then show ?thesis using Cons by (simp add: string2ll_loop_step del: string2ll_loop.simps)
  next
    case False
    then have "\<not> foldl dec_step (dec_step v c) cs \<le> ULLONG_MAX" using mono by linarith
    with False show ?thesis
      using Cons.prems by (simp add: string2ll_loop_step del: string2ll_loop.simps)
  qed
qed

lemma string2ll_loop_all_digits:
  "string2ll_loop cs v = Some (w, []) \<Longrightarrow> list_all isdigit cs"
  by (induction cs v rule: string2ll_loop.induct) (auto simp: Let_def split: if_splits)

declare string2ll_loop.simps(2) [simp del]

subsection \<open>The two conversions are inverse\<close>

definition int_text :: "int \<Rightarrow> byte list" where
  "int_text v = (if v < 0 then 45 # decimal (nat (- v)) else decimal (nat v))"

lemma length_decimal: "0 < n \<Longrightarrow> v < 10 ^ n \<Longrightarrow> length (decimal v) \<le> n"
proof (induction n arbitrary: v)
  case (Suc n)
  show ?case
  proof (cases "v < 10")
    case False
    then have "v div 10 < 10 ^ n" using Suc.prems by auto
    moreover have "0 < n" using False Suc.prems by (cases n) auto
    ultimately have "length (decimal (v div 10)) \<le> n" using Suc.IH by blast
    then show ?thesis using False by (subst decimal.simps) simp
  qed (subst decimal.simps, simp)
qed simp

lemma length_int_text: "is_int64 v \<Longrightarrow> length (int_text v) \<le> 20"
proof -
  assume v: "is_int64 v"
  then have "nat \<bar>v\<bar> < 10 ^ 19" by (auto simp: is_int64_def range_defs)
  then have "length (decimal (nat \<bar>v\<bar>)) \<le> 19" by (intro length_decimal) simp_all
  then show ?thesis by (cases "v < 0") (simp_all add: int_text_def)
qed

lemma ll2string_text:
  assumes "is_int64 v" and "21 \<le> len"
  shows "ll2string len v = (length (int_text v), int_text v @ [0])"
proof -
  have u: "u64 (if v < 0 then - v else v) = nat (if v < 0 then - v else v)"
    using assms(1) by (auto simp: is_int64_def range_defs)
  have "(if v < 0 then 45 # ll2string_digits (u64 (if v < 0 then - v else v)) []
         else ll2string_digits (u64 (if v < 0 then - v else v)) []) = int_text v"
    unfolding u by (simp add: int_text_def ll2string_digits_decimal)
  moreover have "\<not> length (int_text v) + 1 > len" "len \<noteq> 0"
    using length_int_text [OF assms(1)] assms(2) by auto
  ultimately show ?thesis by (simp add: ll2string_def Let_def)
qed

lemma string2ll_neg:
  assumes "isdigit c" and "c \<noteq> 48" and "list_all isdigit cs"
  shows "string2ll (45 # c # cs) =
    (let w = foldl dec_step (unat c - 48) cs in if w \<le> 2 ^ 63 then Some (- int w) else None)"
proof -
  have c: "49 \<le> c \<and> c \<le> 57" "unat c - 48 \<le> ULLONG_MAX"
    using assms(1,2) by (auto simp: isdigit_unat ULLONG_MAX_def word_le_nat_alt word_unat_eq_iff)
  show ?thesis
    by (auto simp: string2ll_def c string2ll_loop_exact [OF assms(3) c(2)] Let_def range_defs s64_def)
qed

lemma string2ll_pos:
  assumes "isdigit c" and "c \<noteq> 48" and "list_all isdigit cs"
  shows "string2ll (c # cs) =
    (let w = foldl dec_step (unat c - 48) cs in if w < 2 ^ 63 then Some (int w) else None)"
proof -
  have c: "49 \<le> c \<and> c \<le> 57" "unat c - 48 \<le> ULLONG_MAX" "c \<noteq> 45"
    using assms(1,2) by (auto simp: isdigit_unat ULLONG_MAX_def word_le_nat_alt word_unat_eq_iff)
  show ?thesis
    using assms(2)
    by (auto simp: string2ll_def c string2ll_loop_exact [OF assms(3) c(2)] Let_def range_defs s64_def)
qed

lemma decimal_Cons:
  assumes "0 < v"
  obtains c cs where "decimal v = c # cs" and "isdigit c" and "c \<noteq> 48" and "list_all isdigit cs"
    and "foldl dec_step (unat c - 48) cs = v"
proof (cases "decimal v")
  case (Cons c cs)
  with decimal_digits [of v] decimal_hd [OF assms] decimal_value [of v] that [of c cs]
  show ?thesis by (simp add: dec_step_def)
qed simp

lemma string2ll_int_text: "is_int64 v \<Longrightarrow> string2ll (int_text v) = Some v"
proof -
  assume v: "is_int64 v"
  consider "v < 0" | "v = 0" | "0 < v" by linarith
  then show ?thesis
  proof cases
    case 1
    obtain c cs where d: "decimal (nat (- v)) = c # cs" "isdigit c" "c \<noteq> 48" "list_all isdigit cs"
      "foldl dec_step (unat c - 48) cs = nat (- v)"
      using decimal_Cons [of "nat (- v)"] 1 by auto
    with 1 v show ?thesis
      by (auto simp: int_text_def string2ll_neg Let_def is_int64_def range_defs)
  next
    case 2
    then show ?thesis by (simp add: int_text_def decimal.simps string2ll_def digit_char_def)
  next
    case 3
    obtain c cs where d: "decimal (nat v) = c # cs" "isdigit c" "c \<noteq> 48" "list_all isdigit cs"
      "foldl dec_step (unat c - 48) cs = nat v"
      using decimal_Cons [of "nat v"] 3 by auto
    with 3 v show ?thesis
      by (auto simp: int_text_def string2ll_pos Let_def is_int64_def range_defs)
  qed
qed

text \<open>Only the canonical text of a number is accepted.\<close>

lemma string2ll_SomeE:
  assumes "string2ll s = Some v"
  obtains (zero) "s = [48]" and "v = 0"
  | (neg) c cs where "s = 45 # c # cs" and "isdigit c" and "c \<noteq> 48" and "list_all isdigit cs"
  | (pos) c cs where "s = c # cs" and "isdigit c" and "c \<noteq> 48" and "list_all isdigit cs"
proof -
  have range: "isdigit c \<and> c \<noteq> 48" if "49 \<le> c" "c \<le> 57" for c
    using that by (auto simp: isdigit_unat word_le_nat_alt)
  show ?thesis
    using assms that range unfolding string2ll_def Let_def
    by (cases s; cases "tl s")
       (auto split: if_splits option.splits dest!: string2ll_loop_all_digits)
qed

lemma string2ll_int_text_inv:
  assumes "string2ll s = Some v"
  shows "is_int64 v \<and> int_text v = s"
  using assms
proof (cases rule: string2ll_SomeE)
  case zero
  then show ?thesis
    by (simp add: int_text_def decimal.simps digit_char_def is_int64_def range_defs)
next
  case (neg c cs)
  note D = decimal_of_digits [OF neg(2-4)]
  from assms neg D show ?thesis
    by (auto simp: string2ll_neg Let_def int_text_def is_int64_def range_defs split: if_splits)
next
  case (pos c cs)
  note D = decimal_of_digits [OF pos(2-4)]
  from assms pos D show ?thesis
    by (auto simp: string2ll_pos Let_def int_text_def is_int64_def range_defs split: if_splits)
qed

text \<open>
  Printing a 64-bit integer with \<open>ll2string\<close> into a buffer of at least 21 bytes and reading
  the text back with \<open>string2ll\<close> gives the integer, and the text always fits.
\<close>

theorem ll2string_string2ll:
  assumes "is_int64 v" and "21 \<le> len"
  shows "fst (ll2string len v) < len
    \<and> string2ll (take (fst (ll2string len v)) (snd (ll2string len v))) = Some v"
  using assms length_int_text [OF assms(1)] by (simp add: ll2string_text string2ll_int_text)

theorem ll2string_string2ll_witness:
  "string2ll (take (fst (ll2string 21 (- 9223372036854775808))) (snd (ll2string 21 (- 9223372036854775808))))
     = Some (- 9223372036854775808)"
  using ll2string_string2ll [of "- 9223372036854775808" 21] by (simp add: is_int64_def range_defs)

text \<open>
  C31. \<open>string2ll\<close> accepts exactly the canonical texts of 64-bit integers, the texts that \<open>ll2string\<close>
  prints, and returns their values. This is what lets the server store a string as an integer and
  later print it unchanged.
\<close>

theorem string2ll_canonical:
  "string2ll s = Some v \<longleftrightarrow> is_int64 v \<and> ll2string 32 v = (length s, s @ [0])"
proof
  assume "string2ll s = Some v"
  from string2ll_int_text_inv [OF this] show "is_int64 v \<and> ll2string 32 v = (length s, s @ [0])" by (auto simp: ll2string_text)
next
  assume v: "is_int64 v \<and> ll2string 32 v = (length s, s @ [0])"
  then have "int_text v = s" by (auto simp: ll2string_text)
  with string2ll_int_text [of v] v show "string2ll s = Some v" by simp
qed

theorem string2ll_canonical_witness:
  "string2ll [45, 52, 50] = Some (- 42) \<and> string2ll [48, 52] \<noteq> Some 4"
proof -
  have "ll2string 32 (- 42) = (3, [45, 52, 50, 0])" "ll2string 32 4 = (1, [52, 0])"
    by (simp_all add: ll2string_text is_int64_def range_defs int_text_def decimal.simps digit_char_def)
  then show ?thesis using string2ll_canonical [of "[45, 52, 50]" "- 42"] string2ll_canonical [of "[48, 52]" 4]
    by (simp add: is_int64_def range_defs)
qed

end
