(* ===== verification/Redis_Glob.thy ===== *)
theory Redis_Glob
  imports Redis_Prelude "HOL-Library.Monad_Syntax"
begin

text \<open>
  The glob matcher \<open>stringmatchlen\<close> of \<open>src/util.c\<close> (KEYS, PSUBSCRIBE, SCAN MATCH).

  The code moves two pointers and two lengths in step; the model keeps the positions \<open>p\<close> and
  \<open>s\<close> in the pattern \<open>P\<close> and the string \<open>S\<close>, so that \<open>patternLen = length P - p\<close>
  and \<open>stringLen = length S - s\<close> (which the code lets become negative). Both buffers end with a
  NUL byte after their contents, as sds strings do. A read beyond that byte, or a step of the string
  pointer beyond one past it, has no defined result: the model returns \<open>None\<close>.
\<close>

definition rd :: "byte list \<Rightarrow> nat \<Rightarrow> byte option" where
  "rd buf i = (if i < length buf then Some (buf ! i) else if i = length buf then Some 0 else None)"

definition sinc :: "byte list \<Rightarrow> nat \<Rightarrow> nat option" where
  "sinc buf i = (if i \<le> length buf then Some (i + 1) else None)"

text \<open>\<open>tolower\<close> of the C locale, on a \<open>char\<close> (signed) converted to \<open>int\<close>.\<close>

definition tolower :: "int \<Rightarrow> int" where
  "tolower c = (if 65 \<le> c \<and> c \<le> 90 then c + 32 else c)"

definition char_eq :: "bool \<Rightarrow> byte \<Rightarrow> byte \<Rightarrow> bool" where
  "char_eq nocase a b = (if \<not> nocase then a = b else tolower (sint a) = tolower (sint b))"

text \<open>\<open>while (pattern[1] == '*')\<close>, and the loop over trailing stars when the string is used up.\<close>

function skip_stars :: "byte list \<Rightarrow> nat \<Rightarrow> nat option" where
  "skip_stars P p =
     (case rd P p of None \<Rightarrow> None | Some c \<Rightarrow> if c = 42 then skip_stars P (p + 1) else Some p)"
  by pat_completeness auto
termination
  by (relation "measure (\<lambda>(P, p). length P + 1 - p)") (auto simp: rd_def split: if_splits)

text \<open>One character range \<open>a-b\<close> of a class.\<close>

definition in_range :: "bool \<Rightarrow> byte \<Rightarrow> byte \<Rightarrow> byte \<Rightarrow> bool" where
  "in_range nocase a b x =
     (let start = sint a; end' = sint b; c = sint x;
          (start, end') = (if start > end' then (end', start) else (start, end'));
          (start, end', c) =
            (if nocase then (tolower start, tolower end', tolower c) else (start, end', c))
      in c \<ge> start \<and> c \<le> end')"

text \<open>
  The \<open>while(1)\<close> loop over a character class: the position of the closing bracket (or of the last
  pattern character when there is none) and whether the string's character matched.
\<close>

function bracket_loop ::
  "bool \<Rightarrow> byte list \<Rightarrow> byte list \<Rightarrow> nat \<Rightarrow> nat \<Rightarrow> bool \<Rightarrow> (nat \<times> bool) option" where
  "bracket_loop nocase P S p s match =
     (case rd P p of
        None \<Rightarrow> None
      | Some c \<Rightarrow>
          if c = 92 then
            (case (rd P (p + 1), rd S s) of
               (Some a, Some x) \<Rightarrow> bracket_loop nocase P S (p + 2) s (match \<or> a = x)
             | _ \<Rightarrow> None)
          else if c = 93 then Some (p, match)
          else if p = length P then Some (p - 1, match)
          else
            (case (rd P (p + 1), rd S s) of
               (Some d, Some x) \<Rightarrow>
                 if d = 45 \<and> length P - p \<ge> 3 then
                   bracket_loop nocase P S (p + 3) s (match \<or> in_range nocase c (P ! (p + 2)) x)
                 else bracket_loop nocase P S (p + 1) s (match \<or> char_eq nocase c x)
             | _ \<Rightarrow> None))"
  by pat_completeness auto
termination
  by (relation "measure (\<lambda>(nocase, P, S, p, s, match). length P + 1 - p)")
     (auto simp: rd_def split: if_splits)

declare skip_stars.simps [simp del] bracket_loop.simps [simp del]

lemma rd_SomeD: "rd P p = Some c \<Longrightarrow> p \<le> length P \<and> (c \<noteq> 0 \<longrightarrow> p < length P)"
  by (auto simp: rd_def split: if_splits)

lemma skip_stars_ge: "skip_stars P p = Some q \<Longrightarrow> p \<le> q \<and> q \<le> length P"
proof (induction P p rule: skip_stars.induct)
  case (1 P p)
  from "1.prems" show ?case
    by (subst (asm) skip_stars.simps)
       (auto split: if_splits option.splits dest: rd_SomeD dest!: "1.IH")
qed

lemma bracket_loop_ge:
  "bracket_loop nocase P S p s m = Some (q, m') \<Longrightarrow> 1 \<le> p \<Longrightarrow> p \<le> q + 1 \<and> q < length P"
proof (induction nocase P S p s m rule: bracket_loop.induct)
  case (1 nocase P S p s m)
  note rec = bracket_loop.simps [of nocase P S p s m]
  from "1.prems"(1) obtain c where c: "rd P p = Some c"
    by (subst (asm) rec) (auto split: option.splits)
  note IH = "1.IH" [OF c]
  consider "c = 92" | "c = 93" | "c \<noteq> 92" "c \<noteq> 93" "p = length P"
    | "c \<noteq> 92" "c \<noteq> 93" "p \<noteq> length P" by blast
  then show ?case
  proof cases
    case 1
    with "1.prems" c IH(1) [OF 1 refl] show ?thesis
      by (subst (asm) rec) (fastforce split: option.splits)
  next
    case 4
    with "1.prems" c IH(2,3) [OF 4(1,2) _ refl] show ?thesis
      by (subst (asm) rec) (fastforce split: option.splits if_splits)
  qed (use "1.prems" c rec rd_SomeD [OF c] in auto)
qed

text \<open>
  One pass of the \<open>switch\<close> on a pattern character other than a star: \<open>Some None\<close> when the
  match fails here, otherwise the position of the last pattern character used and the new string
  position.
\<close>

definition match_one ::
  "bool \<Rightarrow> byte list \<Rightarrow> byte list \<Rightarrow> nat \<Rightarrow> nat \<Rightarrow> (nat \<times> nat) option option" where
  "match_one nocase P S p s =
     (if P ! p = 63 then
        if s = length S then Some None else map_option (\<lambda>s'. Some (p, s')) (sinc S s)
      else if P ! p = 91 then
        (case rd P (p + 1) of
           None \<Rightarrow> None
         | Some c \<Rightarrow>
             (case bracket_loop nocase P S (if c = 94 then p + 2 else p + 1) s False of
                None \<Rightarrow> None
              | Some (q, match) \<Rightarrow>
                  let match = (if c = 94 then \<not> match else match)
                  in if \<not> match then Some None
                     else map_option (\<lambda>s'. Some (q, s')) (sinc S s)))
      else
        let q = (if P ! p = 92 \<and> length P - p \<ge> 2 then p + 1 else p)
        in case rd S s of
             None \<Rightarrow> None
           | Some x \<Rightarrow>
               if \<not> char_eq nocase (P ! q) x then Some None
               else map_option (\<lambda>s'. Some (q, s')) (sinc S s))"

lemma match_one_ge:
  assumes "match_one nocase P S p s = Some (Some (q, s'))" and "p < length P"
  shows "p \<le> q \<and> q < length P"
  using assms
  by (auto simp: match_one_def Let_def split: if_splits option.splits dest!: bracket_loop_ge)

text \<open>
  The function, with its loop over the positions where the rest of the pattern may start after a
  star. After a character the pattern moves on, and when the string is used up only trailing stars
  are skipped and the loop is left.
\<close>

function (sequential) stringmatch_pos ::
    "bool \<Rightarrow> byte list \<Rightarrow> byte list \<Rightarrow> nat \<Rightarrow> nat \<Rightarrow> bool option"
  and star_loop :: "bool \<Rightarrow> byte list \<Rightarrow> byte list \<Rightarrow> nat \<Rightarrow> nat \<Rightarrow> bool option"
where
  "stringmatch_pos nocase P S p s =
     (if p = length P then Some (s = length S)
      else if p > length P then None
      else if P ! p = 42 then
        (case skip_stars P (p + 1) of
           None \<Rightarrow> None
         | Some q \<Rightarrow> if q = length P then Some True else star_loop nocase P S q s)
      else
        (case match_one nocase P S p s of
           None \<Rightarrow> None
         | Some None \<Rightarrow> Some False
         | Some (Some (q, s')) \<Rightarrow>
             if s' = length S then
               (case skip_stars P (q + 1) of
                  None \<Rightarrow> None
                | Some r \<Rightarrow> Some (r = length P))
             else stringmatch_pos nocase P S (q + 1) s'))"
| "star_loop nocase P S q s =
     (if s = length S then Some False
      else if s > length S then None
      else case stringmatch_pos nocase P S q s of
             None \<Rightarrow> None
           | Some True \<Rightarrow> Some True
           | Some False \<Rightarrow> star_loop nocase P S q (s + 1))"
  by pat_completeness auto
termination
  by (relation "measures [\<lambda>x. case x of Inl (n, P, S, p, s) \<Rightarrow> length P + 1 - p
                                      | Inr (n, P, S, p, s) \<Rightarrow> length P + 1 - p,
                          \<lambda>x. case x of Inl _ \<Rightarrow> 0 | Inr (n, P, S, p, s) \<Rightarrow> 1 + length S + 1 - s]")
     (auto dest: skip_stars_ge match_one_ge)

declare stringmatch_pos.simps [simp del] star_loop.simps [simp del]

definition stringmatchlen :: "byte list \<Rightarrow> byte list \<Rightarrow> bool \<Rightarrow> bool option" where
  "stringmatchlen pattern str nocase = stringmatch_pos nocase pattern str 0 0"

text \<open>\<open>stringmatch\<close> takes C strings: their lengths are the distances to the first NUL.\<close>

definition c_str :: "byte list \<Rightarrow> byte list" where
  "c_str buf = takeWhile (\<lambda>c. c \<noteq> 0) buf"

definition stringmatch :: "byte list \<Rightarrow> byte list \<Rightarrow> bool \<Rightarrow> bool option" where
  "stringmatch pattern str nocase = stringmatchlen (c_str pattern) (c_str str) nocase"

subsection \<open>The pattern language\<close>

text \<open>
  What a glob pattern without character classes means: a star stands for any string, a question
  mark for any character, a backslash takes the next character literally.
\<close>

fun glob :: "bool \<Rightarrow> byte list \<Rightarrow> byte list \<Rightarrow> bool" where
  "glob nocase [] str = (str = [])"
| "glob nocase (c # pat) [] = (c = 42 \<and> glob nocase pat [])"
| "glob nocase (c # pat) (x # str) =
     (if c = 42 then glob nocase pat (x # str) \<or> glob nocase (c # pat) str
      else if c = 63 then glob nocase pat str
      else if c = 92 \<and> pat \<noteq> [] then char_eq nocase (hd pat) x \<and> glob nocase (tl pat) str
      else char_eq nocase c x \<and> glob nocase pat str)"

definition plain_pattern :: "byte list \<Rightarrow> bool" where
  "plain_pattern P \<longleftrightarrow> 0 \<notin> set P \<and> 91 \<notin> set P"

subsection \<open>The matcher decides the pattern language\<close>

lemma glob_star: "glob n (42 # pat) str \<longleftrightarrow> (\<exists>k \<le> length str. glob n pat (drop k str))"
proof (induction str)
  case (Cons x str)
  have "(\<exists>k \<le> length (x # str). glob n pat (drop k (x # str)))
    \<longleftrightarrow> glob n pat (x # str) \<or> (\<exists>k \<le> length str. glob n pat (drop k str))"
    (is "?L \<longleftrightarrow> ?R")
  proof
    assume ?L
    then obtain k where "k \<le> length (x # str)" "glob n pat (drop k (x # str))" by blast
    then show ?R by (cases k) auto
  next
    assume ?R
    then show ?L by (auto intro: exI [of _ 0] exI [of _ "Suc k" for k])
  qed
  with Cons show ?case by simp
qed simp

lemma glob_stars_nil: "glob n (replicate k 42 @ pat) [] = glob n pat []"
  by (induction k) simp_all

lemma glob_star_star: "glob n (42 # 42 # pat) str = glob n (42 # pat) str"
proof (induction str)
  case (Cons x str)
  then show ?case by (simp add: glob.simps(3) [of n 42 "42 # pat"] glob.simps(3) [of n 42 pat])
qed simp

lemma glob_star_stars: "glob n (42 # replicate k 42 @ pat) str = glob n (42 # pat) str"
  by (induction k) (simp_all add: glob_star_star)

lemma glob_nil_str: "pat \<noteq> [] \<Longrightarrow> hd pat \<noteq> 42 \<Longrightarrow> \<not> glob n pat []"
  by (cases pat) auto

lemma skip_stars_spec:
  "p \<le> length P \<Longrightarrow> \<exists>q. skip_stars P p = Some q \<and> p \<le> q \<and> q \<le> length P
     \<and> (q < length P \<longrightarrow> P ! q \<noteq> 42) \<and> drop p P = replicate (q - p) 42 @ drop q P"
proof (induction P p rule: skip_stars.induct)
  case (1 P p)
  note rec = skip_stars.simps [of P p]
  show ?case
  proof (cases "p < length P \<and> P ! p = 42")
    case True
    then have rd: "rd P p = Some 42" by (simp add: rd_def)
    have "p + 1 \<le> length P" using True by simp
    from "1.IH" [OF rd refl this] obtain q where
      q: "skip_stars P (p + 1) = Some q" "p + 1 \<le> q" "q \<le> length P"
        "q < length P \<longrightarrow> P ! q \<noteq> 42" "drop (p + 1) P = replicate (q - (p + 1)) 42 @ drop q P"
      by blast
    have "drop p P = 42 # drop (p + 1) P" using True Cons_nth_drop_Suc [of p P] by simp
    also have "\<dots> = replicate (q - p) 42 @ drop q P"
      using q(2,5) by (simp add: replicate_Suc [symmetric] Suc_diff_Suc del: replicate_Suc)
    finally show ?thesis using q rd rec by auto
  next
    case False
    then have "skip_stars P p = Some p" using "1.prems" by (subst rec) (auto simp: rd_def)
    with False "1.prems" show ?thesis by auto
  qed
qed

lemma char_eq_0: "c \<noteq> 0 \<Longrightarrow> \<not> char_eq n c 0"
  using word_eq_iff_signed [of c 0] by (auto simp: char_eq_def tolower_def split: if_splits)

lemma match_one_plain:
  assumes "plain_pattern P" and p: "p < length P" and "P ! p \<noteq> 42"
  shows "(s < length S \<longrightarrow> (\<exists>q. (match_one n P S p s = Some (Some (q, s + 1)) \<and> p \<le> q \<and> q < length P
            \<and> glob n (drop p P) (drop s S) = glob n (drop (q + 1) P) (drop (s + 1) S))
          \<or> (match_one n P S p s = Some None \<and> \<not> glob n (drop p P) (drop s S))))
    \<and> (s = length S \<longrightarrow> match_one n P S p s = Some None)"
proof -
  have nz: "\<And>i. i < length P \<Longrightarrow> P ! i \<noteq> 0 \<and> P ! i \<noteq> 91"
    using assms(1) by (metis nth_mem plain_pattern_def)
  have dp: "drop p P = P ! p # drop (p + 1) P" using p by (simp add: Cons_nth_drop_Suc)
  have more: "length P - p \<ge> 2 \<longleftrightarrow> drop (p + 1) P \<noteq> []" by auto
  have dq: "length P - p \<ge> 2 \<Longrightarrow>
      hd (drop (p + 1) P) = P ! (p + 1) \<and> tl (drop (p + 1) P) = drop (p + 2) P"
    using Cons_nth_drop_Suc [of "p + 1" P] by (auto simp flip: Cons_nth_drop_Suc)
  have ds: "s < length S \<Longrightarrow> drop s S = S ! s # drop (s + 1) S"
    by (simp add: Cons_nth_drop_Suc)
  show ?thesis
    using nz [OF p] nz [of "p + 1"] assms(3) p dq more unfolding dp
    by (auto simp: match_one_def Let_def rd_def sinc_def ds char_eq_0)
qed

lemma stringmatch_pos_glob:
  "p \<le> length P \<Longrightarrow> s \<le> length S \<Longrightarrow> plain_pattern P \<Longrightarrow>
     stringmatch_pos n P S p s = Some (glob n (drop p P) (drop s S))"
  "q < length P \<Longrightarrow> P ! q \<noteq> 42 \<Longrightarrow> s \<le> length S \<Longrightarrow> plain_pattern P \<Longrightarrow>
     star_loop n P S q s = Some (glob n (42 # drop q P) (drop s S))"
proof (induction n P S p s and n P S q s rule: stringmatch_pos_star_loop.induct)
  case (1 n P S p s)
  note rec = stringmatch_pos.simps [of n P S p s]
  show ?case
  proof (cases "p = length P")
    case True
    then show ?thesis using "1.prems" by (subst rec) auto
  next
    case False
    with "1.prems" have p: "p < length P" "\<not> p > length P" by simp_all
    have dp: "drop p P = P ! p # drop (p + 1) P" using p by (simp add: Cons_nth_drop_Suc)
    show ?thesis
    proof (cases "P ! p = 42")
      case True
      obtain q where q: "skip_stars P (p + 1) = Some q" "p + 1 \<le> q" "q \<le> length P"
        "q < length P \<longrightarrow> P ! q \<noteq> 42" "drop (p + 1) P = replicate (q - (p + 1)) 42 @ drop q P"
        using skip_stars_spec [of "p + 1" P] p by auto
      have g: "glob n (drop p P) (drop s S) = glob n (42 # drop q P) (drop s S)"
        using True unfolding dp q(5) by (simp add: glob_star_stars)
      show ?thesis
      proof (cases "q = length P")
        case True
        then have "glob n (42 # drop q P) (drop s S)"
          unfolding glob_star by (intro exI [of _ "length (drop s S)"]) simp
        with g q True p \<open>P ! p = 42\<close> False show ?thesis by (simp add: rec)
      next
        case qF: False
        with "1.IH"(1) [OF False p(2) True q(1) qF] "1.prems" q
        show ?thesis using p True False by (simp add: rec g)
      qed
    next
      case star: False
      note M = match_one_plain [OF "1.prems"(3) p(1) star, of s S n]
      show ?thesis
      proof (cases "s = length S")
        case True
        then have "\<not> glob n (drop p P) (drop s S)" using star p by (simp add: dp glob_nil_str)
        with M True p star show ?thesis by (subst rec) auto
      next
        case sF: False
        with "1.prems" have sl: "s < length S" by simp
        with M consider
          (hit) q where "match_one n P S p s = Some (Some (q, s + 1))" "p \<le> q" "q < length P"
            "glob n (drop p P) (drop s S) = glob n (drop (q + 1) P) (drop (s + 1) S)"
          | (miss) "match_one n P S p s = Some None" "\<not> glob n (drop p P) (drop s S)" by blast
        then show ?thesis
        proof cases
          case hit
          show ?thesis
          proof (cases "s + 1 = length S")
            case True
            obtain r where r: "skip_stars P (q + 1) = Some r" "r \<le> length P"
              "r < length P \<longrightarrow> P ! r \<noteq> 42" "drop (q + 1) P = replicate (r - (q + 1)) 42 @ drop r P"
              using skip_stars_spec [of "q + 1" P] hit(3) by auto
            have "glob n (drop (q + 1) P) [] = (r = length P)"
              using r(2,3) glob_nil_str [of "drop r P" n] unfolding r(4) glob_stars_nil
              by (cases "r = length P") (auto simp: hd_drop_conv_nth)
            with hit r True p star False show ?thesis by (simp add: rec)
          next
            case sF': False
            have "stringmatch_pos n P S (q + 1) (s + 1)
                = Some (glob n (drop (q + 1) P) (drop (s + 1) S))"
              using "1.IH"(2) [OF False p(2) star hit(1) refl refl sF'] hit(3) sl "1.prems"(3) by simp
            with hit sF' p star False show ?thesis by (simp add: rec)
          qed
        next
          case miss
          with p star False show ?thesis by (simp add: rec)
        qed
      qed
    qed
  qed
next
  case (2 n P S q s)
  note rec = star_loop.simps [of n P S q s]
  show ?case
  proof (cases "s = length S")
    case True
    then show ?thesis using "2.prems" glob_nil_str [of "drop q P" n]
      by (subst rec) (auto simp: hd_drop_conv_nth)
  next
    case False
    with "2.prems" have s: "s < length S" "\<not> s > length S" by simp_all
    have ds: "drop s S = S ! s # drop (s + 1) S" using s by (simp add: Cons_nth_drop_Suc)
    have m: "stringmatch_pos n P S q s = Some (glob n (drop q P) (drop s S))"
      using "2.IH"(1) [OF False s(2)] "2.prems" s by simp
    show ?thesis
    proof (cases "glob n (drop q P) (drop s S)")
      case True
      with m False s ds show ?thesis by (simp add: rec)
    next
      case gF: False
      with "2.IH"(2) [OF False s(2) m] "2.prems" s
      have "star_loop n P S q (s + 1) = Some (glob n (42 # drop q P) (drop (s + 1) S))" by simp
      with m gF False s ds show ?thesis by (simp add: rec)
    qed
  qed
qed

text \<open>
  C30. On patterns without the character \<open>[\<close> and without NUL bytes, escapes included,
  \<open>stringmatchlen\<close> stays inside its buffers, terminates, and decides exactly the pattern language
  \<open>glob\<close>, for any string and either case mode. A NUL byte of the pattern would match the terminator
  of an exhausted string.
\<close>

theorem stringmatchlen_glob:
  assumes "plain_pattern P"
  shows "stringmatchlen P S nocase = Some (glob nocase P S)"
  using stringmatch_pos_glob(1) [of 0 P 0 S nocase] assms by (simp add: stringmatchlen_def)

theorem stringmatchlen_glob_witness:
  "stringmatchlen [42, 97, 63] [98, 97, 98] False = Some True"
  using stringmatchlen_glob [of "[42, 97, 63]" "[98, 97, 98]" False]
  by (simp add: plain_pattern_def char_eq_def)

text \<open>A class of single characters, none of them special.\<close>

definition plain_class :: "byte list \<Rightarrow> bool" where
  "plain_class cls \<longleftrightarrow> set cls \<inter> {0, 45, 92, 93} = {}"

lemma bracket_loop_backslash:
  assumes "plain_class cls" and "s \<le> length S"
  shows "bracket_loop nocase (pre @ cls @ [92]) S (length pre) s m = None"
  using assms(1)
proof (induction cls arbitrary: pre m)
  case Nil
  have "bracket_loop nocase (pre @ [92]) S (length pre + 2) s m' = None" for m'
    by (subst bracket_loop.simps) (simp add: rd_def)
  moreover have "\<exists>x. rd S s = Some x" using assms(2) by (simp add: rd_def)
  moreover have "rd (pre @ [92]) (length pre) = Some 92" "rd (pre @ [92]) (Suc (length pre)) = Some 0" by (simp_all add: rd_def)
  ultimately show ?case by (subst bracket_loop.simps) auto
next
  case (Cons c cls)
  have c: "c \<noteq> 92" "c \<noteq> 93" "plain_class cls" using Cons.prems by (auto simp: plain_class_def)
  have "bracket_loop nocase ((pre @ [c]) @ cls @ [92]) S (length (pre @ [c])) s m' = None" for m' using Cons.IH [OF c(3)] .
  then have ih: "bracket_loop nocase (pre @ c # cls @ [92]) S (Suc (length pre)) s m' = None" for m' by simp
  have "(cls @ [92]) ! 0 \<noteq> 45" using Cons.prems by (cases cls) (auto simp: plain_class_def)
  then have nxt: "\<exists>d. rd (pre @ c # cls @ [92]) (Suc (length pre)) = Some d \<and> d \<noteq> 45" by (simp add: rd_def nth_append)
  have "rd (pre @ c # cls @ [92]) (length pre) = Some c" by (simp add: rd_def)
  then show ?case using ih nxt c by (auto simp: bracket_loop.simps [of _ _ _ "length pre"] split: option.splits)
qed

lemma bracket_loop_empty:
  assumes "plain_class cls"
  shows "bracket_loop nocase (pre @ cls @ 93 # post) [] (length pre) 0 False = Some (length pre + length cls, False)"
  using assms
proof (induction cls arbitrary: pre)
  case Nil
  then show ?case by (simp add: bracket_loop.simps [of _ _ _ "length pre"] rd_def)
next
  case (Cons c cls)
  have c: "c \<noteq> 92" "c \<noteq> 93" "c \<noteq> 0" "plain_class cls" using Cons.prems by (auto simp: plain_class_def)
  have "bracket_loop nocase ((pre @ [c]) @ cls @ 93 # post) [] (length (pre @ [c])) 0 False = Some (length (pre @ [c]) + length cls, False)"
    using Cons.IH [OF c(4)] .
  then have ih: "bracket_loop nocase (pre @ c # cls @ 93 # post) [] (Suc (length pre)) 0 False = Some (Suc (length pre + length cls), False)"
    by simp
  have "(cls @ 93 # post) ! 0 \<noteq> 45" using Cons.prems by (cases cls) (auto simp: plain_class_def)
  then have nxt: "\<exists>d. rd (pre @ c # cls @ 93 # post) (Suc (length pre)) = Some d \<and> d \<noteq> 45" by (simp add: rd_def nth_append)
  have "sint c \<noteq> 0" using c(3) by (metis sint_0 signed_word_eqI)
  then have "\<not> char_eq nocase c 0" using c(3) by (auto simp: char_eq_def tolower_def)
  moreover have "rd (pre @ c # cls @ 93 # post) (length pre) = Some c" "rd [] 0 = Some 0" by (simp_all add: rd_def)
  ultimately show ?case using ih nxt c by (auto simp: bracket_loop.simps [of _ _ _ "length pre"])
qed

text \<open>
  Two kinds of patterns with character classes on which the code leaves its contract, whatever the
  characters of the class. A class that the pattern ends with a backslash, and no bracket: the escape
  takes the terminator of the pattern for the escaped character, and the loop reads behind it, on
  every string. And an empty string is not tested before a negated class takes a character of it, so
  such a class and a star match the empty string.
\<close>

theorem stringmatchlen_class_faults:
  assumes "plain_class cls"
  shows "stringmatchlen (91 # cls @ [92]) S nocase = None
    \<and> stringmatchlen (91 # 94 # cls @ [93, 42]) [] nocase = Some True"
proof
  have head: "bracket_loop nocase (91 # cls @ [92]) S (if c = 94 then 2 else 1) 0 False = None"
    if x: "rd (91 # cls @ [92]) 1 = Some c" for c
  proof (cases "c = 94")
    case True
    then obtain cs where "cls = 94 # cs" using x by (cases cls) (auto simp: rd_def)
    then show ?thesis using bracket_loop_backslash [of cs 0 S nocase "[91, 94]"] assms True by (simp add: plain_class_def numeral_2_eq_2)
  next
    case False
    then show ?thesis using bracket_loop_backslash [OF assms, of 0 S nocase "[91]"] by simp
  qed
  obtain c where c: "rd (91 # cls @ [92]) 1 = Some c" by (simp add: rd_def)
  have "match_one nocase (91 # cls @ [92]) S 0 0 = None"
    using head [OF c, unfolded numeral_2_eq_2] c by (cases "c = 94") (simp_all add: match_one_def)
  then show "stringmatchlen (91 # cls @ [92]) S nocase = None"
    by (simp add: stringmatchlen_def stringmatch_pos.simps)
next
  define P where "P = 91 # 94 # cls @ [93, 42 :: byte]"
  have b: "bracket_loop nocase P [] 2 0 False = Some (2 + length cls, False)"
    using bracket_loop_empty [OF assms, of nocase "[91, 94]" "[42]"] by (simp add: P_def numeral_2_eq_2)
  have "match_one nocase P [] 0 0 = Some (Some (2 + length cls, 1))"
    using b [unfolded numeral_2_eq_2] by (simp add: match_one_def P_def rd_def sinc_def)
  then have "stringmatchlen P [] nocase = stringmatch_pos nocase P [] (Suc (Suc (Suc (length cls)))) 1"
    by (simp add: stringmatchlen_def stringmatch_pos.simps [of _ _ _ 0] P_def)
  moreover have "P ! (Suc (Suc (Suc (length cls)))) = 42" "length P = Suc (Suc (Suc (Suc (length cls))))" by (simp_all add: P_def nth_append)
  moreover have "skip_stars P (Suc (Suc (Suc (Suc (length cls))))) = Some (Suc (Suc (Suc (Suc (length cls)))))"
    by (subst skip_stars.simps) (simp add: rd_def \<open>length P = Suc (Suc (Suc (Suc (length cls))))\<close>)
  ultimately show "stringmatchlen (91 # 94 # cls @ [93, 42]) [] nocase = Some True"
    unfolding P_def [symmetric] by (simp add: stringmatch_pos.simps [of _ _ _ "Suc (Suc (Suc (length cls)))"])
qed

theorem stringmatchlen_class_faults_witness:
  "stringmatchlen [91, 97, 92] [120] False = None \<and> stringmatchlen [91, 94, 97, 93, 42] [] False = Some True"
  using stringmatchlen_class_faults [of "[97]" "[120]" False] by (simp add: plain_class_def)

end
