(* ===== verification/Redis_Crc.thy ===== *)
theory Redis_Crc
  imports Redis_Prelude
begin

unbundle bit_operations_syntax

text \<open>
  The checksums: \<open>crc16\<close> (\<open>src/crc16.c\<close>, the cluster's hash of keys), \<open>crc64\<close>
  (\<open>src/crc64.c\<close>, the dump file's checksum) and \<open>keyHashSlot\<close> (\<open>src/cluster.c\<close>).
  Both checksums are table driven; the tables are those of the code, and the theorems say that the
  routines compute the bitwise polynomial division the tables were made from.
\<close>

definition crc16tab :: "16 word list" where
  "crc16tab = [
     0x0000, 0x1021, 0x2042, 0x3063, 0x4084, 0x50a5, 0x60c6, 0x70e7,
     0x8108, 0x9129, 0xa14a, 0xb16b, 0xc18c, 0xd1ad, 0xe1ce, 0xf1ef,
     0x1231, 0x0210, 0x3273, 0x2252, 0x52b5, 0x4294, 0x72f7, 0x62d6,
     0x9339, 0x8318, 0xb37b, 0xa35a, 0xd3bd, 0xc39c, 0xf3ff, 0xe3de,
     0x2462, 0x3443, 0x0420, 0x1401, 0x64e6, 0x74c7, 0x44a4, 0x5485,
     0xa56a, 0xb54b, 0x8528, 0x9509, 0xe5ee, 0xf5cf, 0xc5ac, 0xd58d,
     0x3653, 0x2672, 0x1611, 0x0630, 0x76d7, 0x66f6, 0x5695, 0x46b4,
     0xb75b, 0xa77a, 0x9719, 0x8738, 0xf7df, 0xe7fe, 0xd79d, 0xc7bc,
     0x48c4, 0x58e5, 0x6886, 0x78a7, 0x0840, 0x1861, 0x2802, 0x3823,
     0xc9cc, 0xd9ed, 0xe98e, 0xf9af, 0x8948, 0x9969, 0xa90a, 0xb92b,
     0x5af5, 0x4ad4, 0x7ab7, 0x6a96, 0x1a71, 0x0a50, 0x3a33, 0x2a12,
     0xdbfd, 0xcbdc, 0xfbbf, 0xeb9e, 0x9b79, 0x8b58, 0xbb3b, 0xab1a,
     0x6ca6, 0x7c87, 0x4ce4, 0x5cc5, 0x2c22, 0x3c03, 0x0c60, 0x1c41,
     0xedae, 0xfd8f, 0xcdec, 0xddcd, 0xad2a, 0xbd0b, 0x8d68, 0x9d49,
     0x7e97, 0x6eb6, 0x5ed5, 0x4ef4, 0x3e13, 0x2e32, 0x1e51, 0x0e70,
     0xff9f, 0xefbe, 0xdfdd, 0xcffc, 0xbf1b, 0xaf3a, 0x9f59, 0x8f78,
     0x9188, 0x81a9, 0xb1ca, 0xa1eb, 0xd10c, 0xc12d, 0xf14e, 0xe16f,
     0x1080, 0x00a1, 0x30c2, 0x20e3, 0x5004, 0x4025, 0x7046, 0x6067,
     0x83b9, 0x9398, 0xa3fb, 0xb3da, 0xc33d, 0xd31c, 0xe37f, 0xf35e,
     0x02b1, 0x1290, 0x22f3, 0x32d2, 0x4235, 0x5214, 0x6277, 0x7256,
     0xb5ea, 0xa5cb, 0x95a8, 0x8589, 0xf56e, 0xe54f, 0xd52c, 0xc50d,
     0x34e2, 0x24c3, 0x14a0, 0x0481, 0x7466, 0x6447, 0x5424, 0x4405,
     0xa7db, 0xb7fa, 0x8799, 0x97b8, 0xe75f, 0xf77e, 0xc71d, 0xd73c,
     0x26d3, 0x36f2, 0x0691, 0x16b0, 0x6657, 0x7676, 0x4615, 0x5634,
     0xd94c, 0xc96d, 0xf90e, 0xe92f, 0x99c8, 0x89e9, 0xb98a, 0xa9ab,
     0x5844, 0x4865, 0x7806, 0x6827, 0x18c0, 0x08e1, 0x3882, 0x28a3,
     0xcb7d, 0xdb5c, 0xeb3f, 0xfb1e, 0x8bf9, 0x9bd8, 0xabbb, 0xbb9a,
     0x4a75, 0x5a54, 0x6a37, 0x7a16, 0x0af1, 0x1ad0, 0x2ab3, 0x3a92,
     0xfd2e, 0xed0f, 0xdd6c, 0xcd4d, 0xbdaa, 0xad8b, 0x9de8, 0x8dc9,
     0x7c26, 0x6c07, 0x5c64, 0x4c45, 0x3ca2, 0x2c83, 0x1ce0, 0x0cc1,
     0xef1f, 0xff3e, 0xcf5d, 0xdf7c, 0xaf9b, 0xbfba, 0x8fd9, 0x9ff8,
     0x6e17, 0x7e36, 0x4e55, 0x5e74, 0x2e93, 0x3eb2, 0x0ed1, 0x1ef0]"

definition crc16_step :: "16 word \<Rightarrow> byte \<Rightarrow> 16 word" where
  "crc16_step crc b =
     push_bit 8 crc XOR crc16tab ! unat ((drop_bit 8 crc XOR ucast b) AND 0x00FF)"

definition crc16 :: "byte list \<Rightarrow> 16 word" where
  "crc16 buf = foldl crc16_step 0 buf"

definition crc64_tab :: "64 word list" where
  "crc64_tab = [
     0x0000000000000000, 0x7ad870c830358979, 0xf5b0e190606b12f2, 0x8f689158505e9b8b,
     0xc038e5739841b68f, 0xbae095bba8743ff6, 0x358804e3f82aa47d, 0x4f50742bc81f2d04,
     0xab28ecb46814fe75, 0xd1f09c7c5821770c, 0x5e980d24087fec87, 0x24407dec384a65fe,
     0x6b1009c7f05548fa, 0x11c8790fc060c183, 0x9ea0e857903e5a08, 0xe478989fa00bd371,
     0x7d08ff3b88be6f81, 0x07d08ff3b88be6f8, 0x88b81eabe8d57d73, 0xf2606e63d8e0f40a,
     0xbd301a4810ffd90e, 0xc7e86a8020ca5077, 0x4880fbd87094cbfc, 0x32588b1040a14285,
     0xd620138fe0aa91f4, 0xacf86347d09f188d, 0x2390f21f80c18306, 0x594882d7b0f40a7f,
     0x1618f6fc78eb277b, 0x6cc0863448deae02, 0xe3a8176c18803589, 0x997067a428b5bcf0,
     0xfa11fe77117cdf02, 0x80c98ebf2149567b, 0x0fa11fe77117cdf0, 0x75796f2f41224489,
     0x3a291b04893d698d, 0x40f16bccb908e0f4, 0xcf99fa94e9567b7f, 0xb5418a5cd963f206,
     0x513912c379682177, 0x2be1620b495da80e, 0xa489f35319033385, 0xde51839b2936bafc,
     0x9101f7b0e12997f8, 0xebd98778d11c1e81, 0x64b116208142850a, 0x1e6966e8b1770c73,
     0x8719014c99c2b083, 0xfdc17184a9f739fa, 0x72a9e0dcf9a9a271, 0x08719014c99c2b08,
     0x4721e43f0183060c, 0x3df994f731b68f75, 0xb29105af61e814fe, 0xc849756751dd9d87,
     0x2c31edf8f1d64ef6, 0x56e99d30c1e3c78f, 0xd9810c6891bd5c04, 0xa3597ca0a188d57d,
     0xec09088b6997f879, 0x96d1784359a27100, 0x19b9e91b09fcea8b, 0x636199d339c963f2,
     0xdf7adabd7a6e2d6f, 0xa5a2aa754a5ba416, 0x2aca3b2d1a053f9d, 0x50124be52a30b6e4,
     0x1f423fcee22f9be0, 0x659a4f06d21a1299, 0xeaf2de5e82448912, 0x902aae96b271006b,
     0x74523609127ad31a, 0x0e8a46c1224f5a63, 0x81e2d7997211c1e8, 0xfb3aa75142244891,
     0xb46ad37a8a3b6595, 0xceb2a3b2ba0eecec, 0x41da32eaea507767, 0x3b024222da65fe1e,
     0xa2722586f2d042ee, 0xd8aa554ec2e5cb97, 0x57c2c41692bb501c, 0x2d1ab4dea28ed965,
     0x624ac0f56a91f461, 0x1892b03d5aa47d18, 0x97fa21650afae693, 0xed2251ad3acf6fea,
     0x095ac9329ac4bc9b, 0x7382b9faaaf135e2, 0xfcea28a2faafae69, 0x8632586aca9a2710,
     0xc9622c4102850a14, 0xb3ba5c8932b0836d, 0x3cd2cdd162ee18e6, 0x460abd1952db919f,
     0x256b24ca6b12f26d, 0x5fb354025b277b14, 0xd0dbc55a0b79e09f, 0xaa03b5923b4c69e6,
     0xe553c1b9f35344e2, 0x9f8bb171c366cd9b, 0x10e3202993385610, 0x6a3b50e1a30ddf69,
     0x8e43c87e03060c18, 0xf49bb8b633338561, 0x7bf329ee636d1eea, 0x012b592653589793,
     0x4e7b2d0d9b47ba97, 0x34a35dc5ab7233ee, 0xbbcbcc9dfb2ca865, 0xc113bc55cb19211c,
     0x5863dbf1e3ac9dec, 0x22bbab39d3991495, 0xadd33a6183c78f1e, 0xd70b4aa9b3f20667,
     0x985b3e827bed2b63, 0xe2834e4a4bd8a21a, 0x6debdf121b863991, 0x1733afda2bb3b0e8,
     0xf34b37458bb86399, 0x8993478dbb8deae0, 0x06fbd6d5ebd3716b, 0x7c23a61ddbe6f812,
     0x3373d23613f9d516, 0x49aba2fe23cc5c6f, 0xc6c333a67392c7e4, 0xbc1b436e43a74e9d,
     0x95ac9329ac4bc9b5, 0xef74e3e19c7e40cc, 0x601c72b9cc20db47, 0x1ac40271fc15523e,
     0x5594765a340a7f3a, 0x2f4c0692043ff643, 0xa02497ca54616dc8, 0xdafce7026454e4b1,
     0x3e847f9dc45f37c0, 0x445c0f55f46abeb9, 0xcb349e0da4342532, 0xb1eceec59401ac4b,
     0xfebc9aee5c1e814f, 0x8464ea266c2b0836, 0x0b0c7b7e3c7593bd, 0x71d40bb60c401ac4,
     0xe8a46c1224f5a634, 0x927c1cda14c02f4d, 0x1d148d82449eb4c6, 0x67ccfd4a74ab3dbf,
     0x289c8961bcb410bb, 0x5244f9a98c8199c2, 0xdd2c68f1dcdf0249, 0xa7f41839ecea8b30,
     0x438c80a64ce15841, 0x3954f06e7cd4d138, 0xb63c61362c8a4ab3, 0xcce411fe1cbfc3ca,
     0x83b465d5d4a0eece, 0xf96c151de49567b7, 0x76048445b4cbfc3c, 0x0cdcf48d84fe7545,
     0x6fbd6d5ebd3716b7, 0x15651d968d029fce, 0x9a0d8ccedd5c0445, 0xe0d5fc06ed698d3c,
     0xaf85882d2576a038, 0xd55df8e515432941, 0x5a3569bd451db2ca, 0x20ed197575283bb3,
     0xc49581ead523e8c2, 0xbe4df122e51661bb, 0x3125607ab548fa30, 0x4bfd10b2857d7349,
     0x04ad64994d625e4d, 0x7e7514517d57d734, 0xf11d85092d094cbf, 0x8bc5f5c11d3cc5c6,
     0x12b5926535897936, 0x686de2ad05bcf04f, 0xe70573f555e26bc4, 0x9ddd033d65d7e2bd,
     0xd28d7716adc8cfb9, 0xa85507de9dfd46c0, 0x273d9686cda3dd4b, 0x5de5e64efd965432,
     0xb99d7ed15d9d8743, 0xc3450e196da80e3a, 0x4c2d9f413df695b1, 0x36f5ef890dc31cc8,
     0x79a59ba2c5dc31cc, 0x037deb6af5e9b8b5, 0x8c157a32a5b7233e, 0xf6cd0afa9582aa47,
     0x4ad64994d625e4da, 0x300e395ce6106da3, 0xbf66a804b64ef628, 0xc5bed8cc867b7f51,
     0x8aeeace74e645255, 0xf036dc2f7e51db2c, 0x7f5e4d772e0f40a7, 0x05863dbf1e3ac9de,
     0xe1fea520be311aaf, 0x9b26d5e88e0493d6, 0x144e44b0de5a085d, 0x6e963478ee6f8124,
     0x21c640532670ac20, 0x5b1e309b16452559, 0xd476a1c3461bbed2, 0xaeaed10b762e37ab,
     0x37deb6af5e9b8b5b, 0x4d06c6676eae0222, 0xc26e573f3ef099a9, 0xb8b627f70ec510d0,
     0xf7e653dcc6da3dd4, 0x8d3e2314f6efb4ad, 0x0256b24ca6b12f26, 0x788ec2849684a65f,
     0x9cf65a1b368f752e, 0xe62e2ad306bafc57, 0x6946bb8b56e467dc, 0x139ecb4366d1eea5,
     0x5ccebf68aecec3a1, 0x2616cfa09efb4ad8, 0xa97e5ef8cea5d153, 0xd3a62e30fe90582a,
     0xb0c7b7e3c7593bd8, 0xca1fc72bf76cb2a1, 0x45775673a732292a, 0x3faf26bb9707a053,
     0x70ff52905f188d57, 0x0a2722586f2d042e, 0x854fb3003f739fa5, 0xff97c3c80f4616dc,
     0x1bef5b57af4dc5ad, 0x61372b9f9f784cd4, 0xee5fbac7cf26d75f, 0x9487ca0fff135e26,
     0xdbd7be24370c7322, 0xa10fceec0739fa5b, 0x2e675fb4576761d0, 0x54bf2f7c6752e8a9,
     0xcdcf48d84fe75459, 0xb71738107fd2dd20, 0x387fa9482f8c46ab, 0x42a7d9801fb9cfd2,
     0x0df7adabd7a6e2d6, 0x772fdd63e7936baf, 0xf8474c3bb7cdf024, 0x829f3cf387f8795d,
     0x66e7a46c27f3aa2c, 0x1c3fd4a417c62355, 0x935745fc4798b8de, 0xe98f353477ad31a7,
     0xa6df411fbfb21ca3, 0xdc0731d78f8795da, 0x536fa08fdfd90e51, 0x29b7d047efec8728]"

definition crc64_step :: "64 word \<Rightarrow> byte \<Rightarrow> 64 word" where
  "crc64_step crc b = crc64_tab ! unat ((ucast crc :: byte) XOR b) XOR drop_bit 8 crc"

definition crc64 :: "64 word \<Rightarrow> byte list \<Rightarrow> 64 word" where
  "crc64 crc s = foldl crc64_step crc s"

text \<open>The index of the first byte \<open>c\<close> at or after \<open>i\<close>, or the end of the buffer.\<close>

definition scan_for :: "byte \<Rightarrow> byte list \<Rightarrow> nat \<Rightarrow> nat" where
  "scan_for c buf i = i + length (takeWhile (\<lambda>x. x \<noteq> c) (drop i buf))"

definition keyHashSlot :: "byte list \<Rightarrow> nat" where
  "keyHashSlot key =
     (let keylen = length key;
          s = scan_for 123 key 0
      in if s = keylen then unat (crc16 key AND 0x3FFF)
         else let e = scan_for 125 key (s + 1)
              in if e = keylen \<or> e = s + 1 then unat (crc16 key AND 0x3FFF)
                 else unat (crc16 (take (e - s - 1) (drop (s + 1) key)) AND 0x3FFF))"

subsection \<open>The bitwise division\<close>

text \<open>One bit of the CRC-16 division (polynomial 0x1021, most significant bit first).\<close>

definition poly16_bit :: "16 word \<Rightarrow> 16 word" where
  "poly16_bit c = (if bit c 15 then push_bit 1 c XOR 0x1021 else push_bit 1 c)"

definition crc16_bitwise :: "byte list \<Rightarrow> 16 word" where
  "crc16_bitwise buf = foldl (\<lambda>c b. (poly16_bit ^^ 8) (c XOR push_bit 8 (ucast b))) 0 buf"

text \<open>One bit of the CRC-64 division (Jones' polynomial, reflected).\<close>

definition poly64_bit :: "64 word \<Rightarrow> 64 word" where
  "poly64_bit c = (if bit c 0 then drop_bit 1 c XOR 0x95ac9329ac4bc9b5 else drop_bit 1 c)"

definition crc64_bitwise :: "64 word \<Rightarrow> byte list \<Rightarrow> 64 word" where
  "crc64_bitwise crc s = foldl (\<lambda>c b. (poly64_bit ^^ 8) (c XOR ucast b)) crc s"

text \<open>Division is linear over exclusive or, so a table is determined by its entries at powers of two.\<close>

lemma poly16_bit_xor: "poly16_bit (a XOR b) = poly16_bit a XOR poly16_bit b"
  by (simp add: poly16_bit_def bit_xor_iff push_bit_xor xor.left_commute xor.assoc xor.commute)

lemma poly64_bit_xor: "poly64_bit (a XOR b) = poly64_bit a XOR poly64_bit b"
  by (simp add: poly64_bit_def bit_xor_iff drop_bit_xor xor.left_commute xor.assoc xor.commute)

lemma poly16_xor: "(poly16_bit ^^ n) (a XOR b) = (poly16_bit ^^ n) a XOR (poly16_bit ^^ n) b"
  by (induction n) (simp_all add: poly16_bit_xor)

lemma poly64_xor: "(poly64_bit ^^ n) (a XOR b) = (poly64_bit ^^ n) a XOR (poly64_bit ^^ n) b"
  by (induction n) (simp_all add: poly64_bit_xor)

definition doubled :: "('a::semiring_bit_operations) \<Rightarrow> 'a list \<Rightarrow> 'a list" where
  "doubled t T = T @ map (\<lambda>x. x XOR t) T"

lemma xor_add_exp: "i < 2 ^ k \<Longrightarrow> (2 :: nat) ^ k + i = i XOR 2 ^ k"
proof -
  assume "i < 2 ^ k"
  then have "i AND 2 ^ k = 0" by (simp add: and_exp_eq_0_iff_not_bit bit_iff_odd)
  then show ?thesis by (simp add: disjunctive_add_eq_xor [symmetric] add.commute)
qed

lemma doubled_table:
  fixes f :: "nat \<Rightarrow> 'a::semiring_bit_operations"
  assumes "\<And>i j. f (i XOR j) = f i XOR f j"
  shows "map f [0..<2 ^ Suc k] = doubled (f (2 ^ k)) (map f [0..<2 ^ k])"
proof (rule nth_equalityI)
  fix i assume "i < length (map f [0..<2 ^ Suc k])"
  then have i: "i < 2 ^ Suc k" by simp
  show "map f [0..<2 ^ Suc k] ! i = doubled (f (2 ^ k)) (map f [0..<2 ^ k]) ! i"
  proof (cases "i < 2 ^ k")
    case True
    with i show ?thesis by (simp add: doubled_def nth_append del: upt_Suc)
  next
    case False
    then obtain j where j: "i = 2 ^ k + j" "j < 2 ^ k" using i by (auto dest: le_Suc_ex simp: not_less)
    then have "f i = f j XOR f (2 ^ k)" using xor_add_exp [of j k] assms by simp
    with i False j show ?thesis by (simp add: doubled_def nth_append)
  qed
qed (simp add: doubled_def)

definition poly16_byte :: "nat \<Rightarrow> 16 word" where
  "poly16_byte i = (poly16_bit ^^ 8) (push_bit 8 (of_nat i))"

definition poly64_byte :: "nat \<Rightarrow> 64 word" where
  "poly64_byte i = (poly64_bit ^^ 8) (of_nat i)"

lemma poly16_byte_xor: "poly16_byte (i XOR j) = poly16_byte i XOR poly16_byte j"
  by (simp add: poly16_byte_def of_nat_xor_eq push_bit_xor poly16_xor)

lemma poly64_byte_xor: "poly64_byte (i XOR j) = poly64_byte i XOR poly64_byte j"
  by (simp add: poly64_byte_def of_nat_xor_eq poly64_xor)

lemma table_256:
  fixes f :: "nat \<Rightarrow> 'a::semiring_bit_operations"
  assumes "\<And>i j. f (i XOR j) = f i XOR f j"
  shows "map f [0..<256] =
    doubled (f 128) (doubled (f 64) (doubled (f 32) (doubled (f 16)
      (doubled (f 8) (doubled (f 4) (doubled (f 2) (doubled (f 1) [f 0])))))))"
proof -
  note D = doubled_table [of f, OF assms]
  have "map f [0..<2 ^ Suc 0] = doubled (f 1) [f 0]" using D [of 0] by simp
  with D [of 1] have "map f [0..<2 ^ 2] = doubled (f 2) (doubled (f 1) [f 0])" by simp
  with D [of 2] D [of 3] D [of 4] D [of 5] D [of 6] D [of 7] show ?thesis
    by (simp del: upt_Suc upt.simps)
qed

lemma funpow_8: "(f ^^ 8) x = f (f (f (f (f (f (f (f x)))))))"
  by (simp add: numeral_eq_Suc)

lemma poly16_powers:
  "poly16_byte 0 = 0" "poly16_byte 1 = 0x1021" "poly16_byte 2 = 0x2042" "poly16_byte 4 = 0x4084"
  "poly16_byte 8 = 0x8108" "poly16_byte 16 = 0x1231" "poly16_byte 32 = 0x2462"
  "poly16_byte 64 = 0x48c4" "poly16_byte 128 = 0x9188"
  by (simp_all add: poly16_byte_def poly16_bit_def funpow_8)

lemma poly64_powers:
  "poly64_byte 0 = 0" "poly64_byte 1 = 0x7ad870c830358979" "poly64_byte 2 = 0xf5b0e190606b12f2"
  "poly64_byte 4 = 0xc038e5739841b68f" "poly64_byte 8 = 0xab28ecb46814fe75"
  "poly64_byte 16 = 0x7d08ff3b88be6f81" "poly64_byte 32 = 0xfa11fe77117cdf02"
  "poly64_byte 64 = 0xdf7adabd7a6e2d6f" "poly64_byte 128 = 0x95ac9329ac4bc9b5"
  by (simp_all add: poly64_byte_def poly64_bit_def funpow_8)

lemma crc16tab_correct: "crc16tab = map poly16_byte [0..<256]"
  unfolding table_256 [of poly16_byte, OF poly16_byte_xor] poly16_powers
  by (simp add: doubled_def crc16tab_def)

lemma crc64_tab_correct: "crc64_tab = map poly64_byte [0..<256]"
  unfolding table_256 [of poly64_byte, OF poly64_byte_xor] poly64_powers
  by (simp add: doubled_def crc64_tab_def)

subsection \<open>Tables against division\<close>

lemma poly16_bit_clear: "\<not> bit c 15 \<Longrightarrow> poly16_bit c = push_bit 1 c"
  by (simp add: poly16_bit_def)

lemma poly64_bit_clear: "\<not> bit c 0 \<Longrightarrow> poly64_bit c = drop_bit 1 c"
  by (simp add: poly64_bit_def)

lemma poly16_shift: "(\<And>j. 16 - n \<le> j \<Longrightarrow> \<not> bit x j) \<Longrightarrow> n \<le> 16 \<Longrightarrow> (poly16_bit ^^ n) x = push_bit n x"
proof (induction n)
  case (Suc n)
  have "\<not> bit x (15 - n)" using Suc.prems by simp
  then have "\<not> bit (push_bit n x) 15" by (simp add: bit_push_bit_iff)
  moreover have "(poly16_bit ^^ n) x = push_bit n x" using Suc by simp
  ultimately show ?case by (simp add: poly16_bit_clear push_bit_push_bit del: push_bit_eq_mult push_bit_Suc)
qed simp

lemma poly64_shift: "(\<And>j. j < n \<Longrightarrow> \<not> bit x j) \<Longrightarrow> (poly64_bit ^^ n) x = drop_bit n x"
proof (induction n)
  case (Suc n)
  have "\<not> bit (drop_bit n x) 0" using Suc.prems [of n] by (simp add: bit_drop_bit_eq)
  moreover have "(poly64_bit ^^ n) x = drop_bit n x" using Suc by simp
  ultimately show ?case by (simp add: poly64_bit_clear drop_bit_drop_bit)
qed simp

lemma mask_byte: "(0xFF :: 16 word) = mask 8" "(0xFF :: 64 word) = mask 8"
  by (simp_all add: mask_eq_exp_minus_1)

lemma crc16_step_bitwise: "crc16_step c b = (poly16_bit ^^ 8) (c XOR push_bit 8 (ucast b))"
proof -
  let ?i = "(drop_bit 8 c XOR ucast b) AND 0x00FF :: 16 word"
  have "?i \<le> 0xFF" by (rule word_and_le1)
  then have "unat ?i < 256" by (simp add: word_le_nat_alt)
  then have tab: "crc16tab ! unat ?i = (poly16_bit ^^ 8) (push_bit 8 ?i)"
    by (simp add: crc16tab_correct poly16_byte_def)
  have low: "(poly16_bit ^^ 8) (c AND 0xFF) = push_bit 8 c"
  proof -
    have "(poly16_bit ^^ 8) (c AND 0xFF) = push_bit 8 (c AND 0xFF)"
      by (rule poly16_shift) (simp_all add: mask_byte bit_simps)
    also have "\<dots> = push_bit 8 c"
      by (rule bit_word_eqI) (auto simp: mask_byte bit_simps)
    finally show ?thesis .
  qed
  have "c XOR push_bit 8 (ucast b) = (c AND 0xFF) XOR push_bit 8 ?i"
    by (rule bit_word_eqI) (auto simp: mask_byte bit_simps)
  then show ?thesis by (simp only: crc16_step_def tab poly16_xor low)
qed

lemma crc64_step_bitwise: "crc64_step c b = (poly64_bit ^^ 8) (c XOR ucast b)"
proof -
  let ?i = "(ucast c :: byte) XOR b"
  have "unat ?i < 256" using unsigned_less [of ?i] by simp
  then have tab: "crc64_tab ! unat ?i = (poly64_bit ^^ 8) (ucast ?i)"
    by (simp add: crc64_tab_correct poly64_byte_def)
  have high: "(poly64_bit ^^ 8) (c AND NOT 0xFF) = drop_bit 8 c"
  proof -
    have "(poly64_bit ^^ 8) (c AND NOT 0xFF) = drop_bit 8 (c AND NOT 0xFF)"
      by (rule poly64_shift) (simp add: mask_byte bit_simps)
    also have "\<dots> = drop_bit 8 c"
      by (rule bit_word_eqI) (auto simp: mask_byte bit_simps dest: bit_imp_le_length)
    finally show ?thesis .
  qed
  have "c XOR ucast b = ucast ?i XOR (c AND NOT 0xFF)"
    by (rule bit_word_eqI) (auto simp: mask_byte bit_simps)
  then show ?thesis by (simp only: crc64_step_def tab poly64_xor high)
qed

text \<open>The division can be undone, so no two bytes lead from one remainder to the same remainder.\<close>

lemma poly64_bit_inject: "poly64_bit a = poly64_bit b \<Longrightarrow> a = b"
proof -
  have top: "bit (poly64_bit c) 63 = bit c 0" for c
    by (auto simp: poly64_bit_def bit_simps dest: bit_imp_le_length)
  have shift: "drop_bit 1 c = poly64_bit c XOR (if bit c 0 then 0x95ac9329ac4bc9b5 else 0)" for c
    by (simp add: poly64_bit_def xor.assoc)
  assume eq: "poly64_bit a = poly64_bit b"
  then have "bit a 0 = bit b 0" using top [of a] top [of b] by simp
  moreover from this eq have "drop_bit 1 a = drop_bit 1 b" by (simp only: shift)
  moreover have "bit c (Suc n) = bit (drop_bit 1 c) n" for c :: "64 word" and n
    by (simp add: bit_drop_bit_eq)
  ultimately have "bit a n = bit b n" for n by (cases n) simp_all
  then show ?thesis by (rule bit_eqI)
qed

lemma poly64_inject: "(poly64_bit ^^ n) a = (poly64_bit ^^ n) b \<Longrightarrow> a = b"
  by (induction n) (auto dest: poly64_bit_inject)

lemma crc64_step_inject:
  "crc64_step c b = crc64_step c' b' \<Longrightarrow> c XOR ucast b = c' XOR ucast b'"
  unfolding crc64_step_bitwise by (rule poly64_inject)

lemma xor_cancel: "a XOR u = b XOR u \<Longrightarrow> a = (b :: 'a::len word)"
proof -
  assume "a XOR u = b XOR u"
  then have "(a XOR u) XOR u = (b XOR u) XOR u" by simp
  then show "a = b" by (simp add: xor.assoc)
qed

lemma crc64_state_inject: "crc64 c s = crc64 c' s \<Longrightarrow> c = c'"
proof (induction s arbitrary: c c')
  case (Cons b s)
  from Cons.prems have "crc64 (crc64_step c b) s = crc64 (crc64_step c' b) s"
    by (simp add: crc64_def)
  then have "crc64_step c b = crc64_step c' b" by (rule Cons.IH)
  from crc64_step_inject [OF this] show ?case by (rule xor_cancel)
qed (simp add: crc64_def)

text \<open>
  \<open>crc16\<close> computes the remainder of the bitwise division by the CCITT polynomial 0x1021
  for every buffer, although it takes eight bits at a time from a table.
\<close>

theorem crc16_is_division: "crc16 buf = crc16_bitwise buf"
proof -
  have "crc16_step = (\<lambda>c b. (poly16_bit ^^ 8) (c XOR push_bit 8 (ucast b)))"
    by (intro ext) (rule crc16_step_bitwise)
  then show ?thesis by (simp only: crc16_def crc16_bitwise_def)
qed

text \<open>
  C35. \<open>crc64\<close> computes the remainder of the reflected bitwise division by Jones' polynomial,
  from any initial value and for every buffer; on the standard test vector it gives the documented
  check value when it starts from 0, the value the dump file code passes.
\<close>

theorem crc64_is_division:
  "crc64 crc s = crc64_bitwise crc s
   \<and> crc64 0 [49, 50, 51, 52, 53, 54, 55, 56, 57] = 0xe9c6d914c4b8d9ca"
proof
  have "crc64_step = (\<lambda>c b. (poly64_bit ^^ 8) (c XOR ucast b))"
    by (intro ext) (rule crc64_step_bitwise)
  then show "crc64 crc s = crc64_bitwise crc s" by (simp only: crc64_def crc64_bitwise_def)
  show "crc64 0 [49, 50, 51, 52, 53, 54, 55, 56, 57] = 0xe9c6d914c4b8d9ca"
    by (simp add: crc64_def crc64_step_bitwise poly64_bit_def funpow_8)
qed

text \<open>
  The dump file checksum detects the corruption of any single byte: two buffers of the same
  shape that differ in one byte never have the same \<open>crc64\<close>.
\<close>

theorem crc64_detects_byte:
  assumes "crc64 crc (xs @ [a] @ ys) = crc64 crc (xs @ [b] @ ys)"
  shows "a = b"
proof -
  let ?c = "crc64 crc xs"
  have "crc64 (crc64_step ?c a) ys = crc64 (crc64_step ?c b) ys"
    using assms by (simp add: crc64_def)
  then have "crc64_step ?c a = crc64_step ?c b" by (rule crc64_state_inject)
  then have "?c XOR ucast a = ?c XOR ucast b" by (rule crc64_step_inject)
  then have "(ucast a :: 64 word) = ucast b" by (simp add: xor.commute [of ?c] xor_cancel)
  then show ?thesis by (simp add: bit_eq_iff bit_ucast_iff)
qed

theorem crc64_detects_byte_witness:
  "crc64 0 ([1] @ [2] @ [3]) \<noteq> crc64 0 ([1] @ [5] @ [3])"
  using crc64_detects_byte [of 0 "[1]" 2 "[3]" 5] by fastforce

subsection \<open>Hash slots\<close>

lemma crc16_slot_less: "unat (crc16 key AND 0x3FFF) < 16384"
proof -
  have "crc16 key AND 0x3FFF \<le> 0x3FFF" by (rule word_and_le1)
  then show ?thesis by (simp add: word_le_nat_alt)
qed

lemma scan_for_found:
  "c \<notin> set t \<Longrightarrow> scan_for c (p @ t @ c # r) (length p) = length p + length t"
  by (simp add: scan_for_def takeWhile_append)

text \<open>
  Every key is assigned one of the 16384 slots, and a key with a non-empty hash tag (the text
  between the first brace and the next closing brace) has the slot of the tag alone, so all keys
  that share a tag are stored together.
\<close>

theorem keyHashSlot_tag:
  "keyHashSlot key < 16384
   \<and> (123 \<notin> set p \<and> 125 \<notin> set t \<and> 123 \<notin> set t \<and> t \<noteq> []
      \<longrightarrow> keyHashSlot (p @ [123] @ t @ [125] @ r) = keyHashSlot t)"
proof -
  have "keyHashSlot key < 16384"
    by (simp add: keyHashSlot_def Let_def crc16_slot_less)
  moreover have "keyHashSlot (p @ [123] @ t @ [125] @ r) = keyHashSlot t"
    if h: "123 \<notin> set p \<and> 125 \<notin> set t \<and> 123 \<notin> set t \<and> t \<noteq> []"
  proof -
    have s: "scan_for 123 (p @ [123] @ t @ [125] @ r) 0 = length p"
      using scan_for_found [of 123 p "[]"] h by simp
    have e: "scan_for 125 (p @ [123] @ t @ [125] @ r) (length p + 1) = length p + 1 + length t"
      using scan_for_found [of 125 t "p @ [123]"] h by simp
    have "takeWhile (\<lambda>x. x \<noteq> 123) t = t" unfolding takeWhile_eq_all_conv using h by blast
    then have n: "scan_for 123 t 0 = length t"
      by (simp add: scan_for_def del: takeWhile_eq_all_conv)
    show ?thesis
      using h s e n by (simp add: keyHashSlot_def Let_def)
  qed
  ultimately show ?thesis by blast
qed

theorem keyHashSlot_tag_witness:
  "keyHashSlot ([97, 98] @ [123] @ [120] @ [125] @ [99]) = keyHashSlot [120]"
  using keyHashSlot_tag [of "[]" "[97, 98]" "[120]" "[99]"] by simp

end
