(* ===== verification/Log_Interface.thy ===== *)
theory Log_Interface
  imports Redis_Prelude
begin

text \<open>
  The contract between a bounded log (the slow log) and the container that holds it: entries go in
  at the front, the oldest goes out at the back, and the size is known. \<open>trim_log\<close> is the loop
  \<open>while (size > max) delete the last\<close>, which has no bound of its own; under the contract it
  ends and keeps the newest \<open>lim\<close> entries.
\<close>

partial_function (option) trim_log ::
  "('s \<Rightarrow> 's option) \<Rightarrow> ('s \<Rightarrow> nat) \<Rightarrow> nat \<Rightarrow> 's \<Rightarrow> 's option" where
  "trim_log drop_last size_of lim s =
     (if size_of s > lim
      then (case drop_last s of None \<Rightarrow> None | Some s' \<Rightarrow> trim_log drop_last size_of lim s')
      else Some s)"

locale front_log =
  fixes push :: "'v \<Rightarrow> 's \<Rightarrow> 's option"
    and drop_last :: "'s \<Rightarrow> 's option"
    and size_of :: "'s \<Rightarrow> nat"
    and entries :: "'s \<Rightarrow> 'v list"
    and inv :: "'s \<Rightarrow> bool"
  assumes push_spec: "inv s \<Longrightarrow> \<exists>s'. push v s = Some s' \<and> inv s' \<and> entries s' = v # entries s"
    and drop_last_spec:
      "inv s \<Longrightarrow> entries s \<noteq> [] \<Longrightarrow>
       \<exists>s'. drop_last s = Some s' \<and> inv s' \<and> entries s' = butlast (entries s)"
    and size_spec: "inv s \<Longrightarrow> size_of s = length (entries s)"
begin

lemma trim_log_spec:
  "inv s \<Longrightarrow> \<exists>s'. trim_log drop_last size_of lim s = Some s' \<and> inv s' \<and> entries s' = take lim (entries s)"
proof (induction "length (entries s)" arbitrary: s)
  case 0
  then show ?case by (simp add: trim_log.simps [of _ _ _ s] size_spec)
next
  case (Suc n)
  show ?case
  proof (cases "size_of s > lim")
    case True
    then have gt: "length (entries s) > lim" "entries s \<noteq> []"
      using Suc.prems Suc.hyps(2) by (auto simp: size_spec)
    obtain s' where s': "drop_last s = Some s'" "inv s'" "entries s' = butlast (entries s)"
      using drop_last_spec [OF Suc.prems gt(2)] by blast
    have "n = length (entries s')" using Suc.hyps(2) s'(3) by simp
    from Suc.hyps(1) [OF this s'(2)] s' True gt show ?thesis
      by (simp add: trim_log.simps [of _ _ _ s] take_butlast)
  next
    case False
    then show ?thesis
      using Suc.prems by (simp add: trim_log.simps [of _ _ _ s] size_spec)
  qed
qed

lemma push_trim_spec:
  assumes "inv s"
  shows "\<exists>s' s''. push v s = Some s' \<and> trim_log drop_last size_of lim s' = Some s''
    \<and> inv s'' \<and> entries s'' = take lim (v # entries s)"
  using push_spec [OF assms, of v] trim_log_spec by metis

end

end
