(* ===== verification/Adlist.thy ===== *)
theory Adlist
  imports Log_Interface "HOL-Library.Monad_Syntax"
begin

text \<open>
  The doubly linked list of \<open>src/adlist.c\<close> on an explicit heap of nodes. \<open>None\<close> is a
  fault: the code would dereference NULL or a freed node. Allocation always succeeds, because
  \<open>zmalloc\<close> (\<open>src/zmalloc.c\<close>) ends the process when memory is exhausted, so the NULL tests
  after it never fire. The struct \<open>list\<close> and iterators are passed by value. The three methods of a
  list are optional functions; what the \<open>free\<close> method does to a value is the caller's business,
  and the heap only records the values it was called on, in order.

  The abstraction of a list is the list of its nodes, address and value, in order (\<open>repr\<close>); every
  operation is specified by what it does to that list. The theory ends with the list as a queue that
  grows at the head, the interface the slow log uses.
\<close>

type_synonym addr = nat

record 'v listNode =
  n_prev :: "addr option"
  n_next :: "addr option"
  n_value :: 'v

record 'v heap =
  cells :: "addr \<rightharpoonup> 'v listNode"
  brk :: addr
  freed :: "'v list"

record 'v adlist =
  l_head :: "addr option"
  l_tail :: "addr option"
  l_dup :: "('v \<Rightarrow> 'v option) option"
  l_free :: bool
  l_match :: "('v \<Rightarrow> 'v \<Rightarrow> bool) option"
  l_len :: nat

record listIter =
  it_next :: "addr option"
  it_direction :: nat

definition AL_START_HEAD :: nat where "AL_START_HEAD = 0"
definition AL_START_TAIL :: nat where "AL_START_TAIL = 1"

subsection \<open>Heap access\<close>

definition zmalloc :: "'v heap \<Rightarrow> 'v \<Rightarrow> addr \<times> 'v heap" where
  "zmalloc h v =
     (brk h, h\<lparr>cells := (cells h)(brk h \<mapsto> \<lparr>n_prev = None, n_next = None, n_value = v\<rparr>),
              brk := brk h + 1\<rparr>)"

definition zfree :: "addr \<Rightarrow> 'v heap \<Rightarrow> 'v heap" where
  "zfree a h = h\<lparr>cells := (cells h)(a := None)\<rparr>"

definition deref :: "'v heap \<Rightarrow> addr option \<Rightarrow> 'v listNode option" where
  "deref h p = (case p of None \<Rightarrow> None | Some a \<Rightarrow> cells h a)"

definition store :: "addr option \<Rightarrow> ('v listNode \<Rightarrow> 'v listNode) \<Rightarrow> 'v heap \<Rightarrow> 'v heap option" where
  "store p f h =
     (case p of
        None \<Rightarrow> None
      | Some a \<Rightarrow>
          (case cells h a of
             None \<Rightarrow> None
           | Some nd \<Rightarrow> Some (h\<lparr>cells := (cells h)(a \<mapsto> f nd)\<rparr>)))"

definition call_free :: "'v adlist \<Rightarrow> 'v \<Rightarrow> 'v heap \<Rightarrow> 'v heap" where
  "call_free l v h = (if l_free l then h\<lparr>freed := freed h @ [v]\<rparr> else h)"

subsection \<open>The operations\<close>

definition listCreate :: "'v adlist" where
  "listCreate = \<lparr>l_head = None, l_tail = None, l_dup = None, l_free = False, l_match = None, l_len = 0\<rparr>"

fun release_nodes :: "'v adlist \<Rightarrow> nat \<Rightarrow> addr option \<Rightarrow> 'v heap \<Rightarrow> 'v heap option" where
  "release_nodes l 0 current h = Some h"
| "release_nodes l (Suc n) current h =
     (case (current, deref h current) of
        (Some a, Some nd) \<Rightarrow> release_nodes l n (n_next nd) (zfree a (call_free l (n_value nd) h))
      | _ \<Rightarrow> None)"

definition listRelease :: "'v heap \<Rightarrow> 'v adlist \<Rightarrow> 'v heap option" where
  "listRelease h l = release_nodes l (l_len l) (l_head l) h"

definition listAddNodeHead :: "'v heap \<Rightarrow> 'v adlist \<Rightarrow> 'v \<Rightarrow> ('v heap \<times> 'v adlist) option" where
  "listAddNodeHead h l v =
     (let (node, h) = zmalloc h v
      in if l_len l = 0 then do {
           h \<leftarrow> store (Some node) (\<lambda>n. n\<lparr>n_prev := None, n_next := None\<rparr>) h;
           Some (h, l\<lparr>l_head := Some node, l_tail := Some node, l_len := l_len l + 1\<rparr>)
         } else do {
           h \<leftarrow> store (Some node) (\<lambda>n. n\<lparr>n_prev := None, n_next := l_head l\<rparr>) h;
           h \<leftarrow> store (l_head l) (\<lambda>n. n\<lparr>n_prev := Some node\<rparr>) h;
           Some (h, l\<lparr>l_head := Some node, l_len := l_len l + 1\<rparr>)
         })"

definition listAddNodeTail :: "'v heap \<Rightarrow> 'v adlist \<Rightarrow> 'v \<Rightarrow> ('v heap \<times> 'v adlist) option" where
  "listAddNodeTail h l v =
     (let (node, h) = zmalloc h v
      in if l_len l = 0 then do {
           h \<leftarrow> store (Some node) (\<lambda>n. n\<lparr>n_prev := None, n_next := None\<rparr>) h;
           Some (h, l\<lparr>l_head := Some node, l_tail := Some node, l_len := l_len l + 1\<rparr>)
         } else do {
           h \<leftarrow> store (Some node) (\<lambda>n. n\<lparr>n_prev := l_tail l, n_next := None\<rparr>) h;
           h \<leftarrow> store (l_tail l) (\<lambda>n. n\<lparr>n_next := Some node\<rparr>) h;
           Some (h, l\<lparr>l_tail := Some node, l_len := l_len l + 1\<rparr>)
         })"

definition listInsertNode ::
  "'v heap \<Rightarrow> 'v adlist \<Rightarrow> addr \<Rightarrow> 'v \<Rightarrow> bool \<Rightarrow> ('v heap \<times> 'v adlist) option" where
  "listInsertNode h l old_node v after =
     (let (node, h) = zmalloc h v
      in do {
        old \<leftarrow> deref h (Some old_node);
        (h, l) \<leftarrow>
          (if after then do {
             h \<leftarrow> store (Some node) (\<lambda>n. n\<lparr>n_prev := Some old_node, n_next := n_next old\<rparr>) h;
             Some (h, if l_tail l = Some old_node then l\<lparr>l_tail := Some node\<rparr> else l)
           } else do {
             h \<leftarrow> store (Some node) (\<lambda>n. n\<lparr>n_next := Some old_node, n_prev := n_prev old\<rparr>) h;
             Some (h, if l_head l = Some old_node then l\<lparr>l_head := Some node\<rparr> else l)
           });
        nd \<leftarrow> deref h (Some node);
        h \<leftarrow> (if n_prev nd \<noteq> None then store (n_prev nd) (\<lambda>n. n\<lparr>n_next := Some node\<rparr>) h else Some h);
        h \<leftarrow> (if n_next nd \<noteq> None then store (n_next nd) (\<lambda>n. n\<lparr>n_prev := Some node\<rparr>) h else Some h);
        Some (h, l\<lparr>l_len := l_len l + 1\<rparr>)
      })"

definition listDelNode :: "'v heap \<Rightarrow> 'v adlist \<Rightarrow> addr \<Rightarrow> ('v heap \<times> 'v adlist) option" where
  "listDelNode h l node = do {
     nd \<leftarrow> deref h (Some node);
     (h, l) \<leftarrow>
       (if n_prev nd \<noteq> None
        then do { h \<leftarrow> store (n_prev nd) (\<lambda>n. n\<lparr>n_next := n_next nd\<rparr>) h; Some (h, l) }
        else Some (h, l\<lparr>l_head := n_next nd\<rparr>));
     (h, l) \<leftarrow>
       (if n_next nd \<noteq> None
        then do { h \<leftarrow> store (n_next nd) (\<lambda>n. n\<lparr>n_prev := n_prev nd\<rparr>) h; Some (h, l) }
        else Some (h, l\<lparr>l_tail := n_prev nd\<rparr>));
     Some (zfree node (call_free l (n_value nd) h), l\<lparr>l_len := l_len l - 1\<rparr>)
   }"

subsubsection \<open>Iteration\<close>

definition listGetIterator :: "'v adlist \<Rightarrow> nat \<Rightarrow> listIter" where
  "listGetIterator l direction =
     \<lparr>it_next = (if direction = AL_START_HEAD then l_head l else l_tail l), it_direction = direction\<rparr>"

definition listRewind :: "'v adlist \<Rightarrow> listIter" where
  "listRewind l = \<lparr>it_next = l_head l, it_direction = AL_START_HEAD\<rparr>"

definition listRewindTail :: "'v adlist \<Rightarrow> listIter" where
  "listRewindTail l = \<lparr>it_next = l_tail l, it_direction = AL_START_TAIL\<rparr>"

definition listNext :: "'v heap \<Rightarrow> listIter \<Rightarrow> (addr option \<times> listIter) option" where
  "listNext h it =
     (let current = it_next it
      in if current \<noteq> None then do {
           nd \<leftarrow> deref h current;
           Some (current, it\<lparr>it_next := (if it_direction it = AL_START_HEAD then n_next nd else n_prev nd)\<rparr>)
         } else Some (current, it))"

text \<open>
  The loops over an iterator have no bound of their own: they are partial, and \<open>None\<close> covers a
  fault as well as a loop that never ends (on a list with a cycle).
\<close>

partial_function (option) search_loop ::
  "'v heap \<Rightarrow> 'v adlist \<Rightarrow> 'v \<Rightarrow> listIter \<Rightarrow> addr option option" where
  "search_loop h l key it =
     (case listNext h it of
        None \<Rightarrow> None
      | Some (None, it') \<Rightarrow> Some None
      | Some (Some a, it') \<Rightarrow>
          (case deref h (Some a) of
             None \<Rightarrow> None
           | Some nd \<Rightarrow>
               if (case l_match l of Some m \<Rightarrow> m (n_value nd) key | None \<Rightarrow> key = n_value nd)
               then Some (Some a)
               else search_loop h l key it'))"

definition listSearchKey :: "'v heap \<Rightarrow> 'v adlist \<Rightarrow> 'v \<Rightarrow> addr option option" where
  "listSearchKey h l key = search_loop h l key (listGetIterator l AL_START_HEAD)"

text \<open>The result of \<open>listDup\<close>: the new list, or NULL when the \<open>dup\<close> method failed.\<close>

partial_function (option) dup_loop ::
  "'v heap \<Rightarrow> 'v adlist \<Rightarrow> listIter \<Rightarrow> ('v heap \<times> 'v adlist option) option" where
  "dup_loop h copy it =
     (case listNext h it of
        None \<Rightarrow> None
      | Some (None, it') \<Rightarrow> Some (h, Some copy)
      | Some (Some a, it') \<Rightarrow>
          (case deref h (Some a) of
             None \<Rightarrow> None
           | Some nd \<Rightarrow>
               (case (case l_dup copy of Some d \<Rightarrow> d (n_value nd) | None \<Rightarrow> Some (n_value nd)) of
                  None \<Rightarrow>
                    (case listRelease h copy of None \<Rightarrow> None | Some h' \<Rightarrow> Some (h', None))
                | Some v \<Rightarrow>
                    (case listAddNodeTail h copy v of
                       None \<Rightarrow> None
                     | Some (h', copy') \<Rightarrow> dup_loop h' copy' it'))))"

definition listDup :: "'v heap \<Rightarrow> 'v adlist \<Rightarrow> ('v heap \<times> 'v adlist option) option" where
  "listDup h orig =
     dup_loop h (listCreate\<lparr>l_dup := l_dup orig, l_free := l_free orig, l_match := l_match orig\<rparr>)
       (listGetIterator orig AL_START_HEAD)"

fun walk :: "('v listNode \<Rightarrow> addr option) \<Rightarrow> 'v heap \<Rightarrow> nat \<Rightarrow> addr option \<Rightarrow> addr option option" where
  "walk link h 0 n = Some n"
| "walk link h (Suc i) n =
     (if n = None then Some None
      else case deref h n of None \<Rightarrow> None | Some nd \<Rightarrow> walk link h i (link nd))"

definition listIndex :: "'v heap \<Rightarrow> 'v adlist \<Rightarrow> int \<Rightarrow> addr option option" where
  "listIndex h l index =
     (if index < 0 then walk n_prev h (nat (- index - 1)) (l_tail l)
      else walk n_next h (nat index) (l_head l))"

definition listRotate :: "'v heap \<Rightarrow> 'v adlist \<Rightarrow> ('v heap \<times> 'v adlist) option" where
  "listRotate h l =
     (if l_len l \<le> 1 then Some (h, l)
      else do {
        let tail = l_tail l;
        t \<leftarrow> deref h tail;
        let l = l\<lparr>l_tail := n_prev t\<rparr>;
        h \<leftarrow> store (l_tail l) (\<lambda>n. n\<lparr>n_next := None\<rparr>) h;
        h \<leftarrow> store (l_head l) (\<lambda>n. n\<lparr>n_prev := tail\<rparr>) h;
        h \<leftarrow> store tail (\<lambda>n. n\<lparr>n_prev := None\<rparr>) h;
        h \<leftarrow> store tail (\<lambda>n. n\<lparr>n_next := l_head l\<rparr>) h;
        Some (h, l\<lparr>l_head := tail\<rparr>)
      })"

subsection \<open>The abstraction: the nodes in order\<close>

definition first_or :: "(addr \<times> 'v) list \<Rightarrow> addr option \<Rightarrow> addr option" where
  "first_or xs n = (case xs of [] \<Rightarrow> n | x # _ \<Rightarrow> Some (fst x))"

definition last_or :: "addr option \<Rightarrow> (addr \<times> 'v) list \<Rightarrow> addr option" where
  "last_or p xs = (if xs = [] then p else Some (fst (last xs)))"

text \<open>
  \<open>dlseg C p xs n\<close>: the cells of \<open>C\<close> at the addresses of \<open>xs\<close> are linked both ways in
  this order, with \<open>p\<close> before the first and \<open>n\<close> after the last.
\<close>

fun dlseg ::
  "(addr \<rightharpoonup> 'v listNode) \<Rightarrow> addr option \<Rightarrow> (addr \<times> 'v) list \<Rightarrow> addr option \<Rightarrow> bool" where
  "dlseg C p [] n = True"
| "dlseg C p ((a, v) # xs) n =
     (C a = Some \<lparr>n_prev = p, n_next = first_or xs n, n_value = v\<rparr> \<and> dlseg C (Some a) xs n)"

definition repr :: "'v heap \<Rightarrow> 'v adlist \<Rightarrow> (addr \<times> 'v) list \<Rightarrow> bool" where
  "repr h l xs \<longleftrightarrow>
     dlseg (cells h) None xs None \<and> distinct (map fst xs)
     \<and> l_head l = first_or xs None \<and> l_tail l = last_or None xs \<and> l_len l = length xs
     \<and> (\<forall>a \<in> fst ` set xs. a < brk h)"

named_theorems seg_simps \<open>segments of linked nodes\<close>

lemma first_or_simps [simp, seg_simps]:
  "first_or [] n = n" "first_or (x # xs) n = Some (fst x)"
  "first_or (xs @ ys) n = first_or xs (first_or ys n)"
  by (simp_all add: first_or_def split: list.split)

lemma last_or_simps [simp, seg_simps]:
  "last_or p [] = p" "last_or p (x # xs) = last_or (Some (fst x)) xs"
  "last_or p (xs @ ys) = last_or (last_or p xs) ys"
  by (simp_all add: last_or_def)

lemma dlseg_append [simp, seg_simps]:
  "dlseg C p (xs @ ys) n \<longleftrightarrow> dlseg C p xs (first_or ys n) \<and> dlseg C (last_or p xs) ys n"
  by (induction C p xs n rule: dlseg.induct) auto

lemma dlseg_frame [simp, seg_simps]:
  "a \<notin> fst ` set xs \<Longrightarrow> dlseg (C(a := x)) p xs n = dlseg C p xs n"
  by (induction C p xs n rule: dlseg.induct) auto

text \<open>Redirecting the link into a segment, and the link out of it.\<close>

lemma dlseg_set_prev:
  "dlseg C p ((a, v) # xs) n \<Longrightarrow> a \<notin> fst ` set xs \<Longrightarrow>
   C' = C(a \<mapsto> \<lparr>n_prev = q, n_next = first_or xs n, n_value = v\<rparr>) \<Longrightarrow> dlseg C' q ((a, v) # xs) n"
  by simp

lemma store_Some [simp]:
  "cells h a = Some nd \<Longrightarrow> store (Some a) f h = Some (h\<lparr>cells := (cells h)(a \<mapsto> f nd)\<rparr>)"
  by (simp add: store_def)

lemma deref_Some [simp]: "deref h (Some a) = cells h a"
  by (simp add: deref_def)

lemma deref_None [simp]: "deref h None = None"
  by (simp add: deref_def)

lemma reprD:
  assumes "repr h l xs"
  shows "dlseg (cells h) None xs None" "distinct (map fst xs)" "l_head l = first_or xs None"
    "l_tail l = last_or None xs" "l_len l = length xs" "\<And>a v. (a, v) \<in> set xs \<Longrightarrow> a < brk h"
  using assms by (force simp: repr_def)+

lemma repr_fresh: "repr h l xs \<Longrightarrow> brk h \<notin> fst ` set xs"
  by (force simp: repr_def)

lemma repr_empty: "repr h listCreate []"
  by (simp add: repr_def listCreate_def)

lemma last_cases: "xs = [] \<or> (\<exists>ys a v. xs = ys @ [(a, v)])"
  by (cases xs rule: rev_cases) auto

subsubsection \<open>What each operation does to the list of nodes\<close>

lemma listAddNodeHead_repr:
  assumes "repr h l xs"
  shows "\<exists>h' l'. listAddNodeHead h l v = Some (h', l') \<and> repr h' l' ((brk h, v) # xs)
    \<and> freed h' = freed h"
proof (cases xs)
  case Nil
  then show ?thesis using assms
    by (simp add: repr_def listAddNodeHead_def zmalloc_def)
next
  case (Cons x ys)
  obtain a w where x: "x = (a, w)" by (cases x)
  have "a \<noteq> brk h" "brk h \<notin> fst ` set ys" "a \<notin> fst ` set ys"
    using assms by (auto simp: repr_def Cons x)
  then show ?thesis using assms
    by (auto simp: repr_def listAddNodeHead_def zmalloc_def Cons x less_SucI)
qed

lemma listAddNodeTail_repr:
  assumes "repr h l xs"
  shows "\<exists>h' l'. listAddNodeTail h l v = Some (h', l') \<and> repr h' l' (xs @ [(brk h, v)])
    \<and> freed h' = freed h \<and> brk h' = brk h + 1
    \<and> l_dup l' = l_dup l \<and> l_free l' = l_free l \<and> l_match l' = l_match l
    \<and> (\<forall>a. a < brk h \<longrightarrow> a \<notin> fst ` set xs \<longrightarrow> cells h' a = cells h a)"
proof (cases xs rule: rev_cases)
  case Nil
  then show ?thesis using assms
    by (simp add: repr_def listAddNodeTail_def zmalloc_def)
next
  case (snoc ys x)
  obtain a w where x: "x = (a, w)" by (cases x)
  have "a \<noteq> brk h" "brk h \<notin> fst ` set ys" "a \<notin> fst ` set ys"
    using assms by (auto simp: repr_def snoc x)
  moreover have "ys \<noteq> [] \<or> ys = []" by simp
  ultimately show ?thesis using assms
    by (auto simp: repr_def listAddNodeTail_def zmalloc_def snoc x less_SucI)
qed

lemma listInsertNode_after:
  assumes "repr h l (ys @ (a, w) # zs)"
  shows "\<exists>h' l'. listInsertNode h l a v True = Some (h', l')
    \<and> repr h' l' (ys @ (a, w) # (brk h, v) # zs)"
proof -
  have f: "a \<noteq> brk h" "brk h \<notin> fst ` set ys" "brk h \<notin> fst ` set zs" "a \<notin> fst ` set ys"
    "a \<notin> fst ` set zs"
    using repr_fresh [OF assms] assms unfolding repr_def by auto
  show ?thesis
  proof (cases zs)
    case Nil
    then show ?thesis using assms f
      by (auto simp: repr_def listInsertNode_def zmalloc_def less_SucI)
  next
    case (Cons z us)
    then obtain b u where z: "z = (b, u)" by (cases z)
    have "b \<noteq> brk h" "b \<noteq> a" "b \<notin> fst ` set us" "b \<notin> fst ` set ys" "l_tail l \<noteq> Some a"
      using assms f by (auto simp: repr_def Cons z last_or_def)
    then show ?thesis using assms f
      by (auto simp: repr_def listInsertNode_def zmalloc_def Cons z less_SucI)
  qed
qed

lemma listInsertNode_before:
  assumes "repr h l (ys @ (a, w) # zs)"
  shows "\<exists>h' l'. listInsertNode h l a v False = Some (h', l')
    \<and> repr h' l' (ys @ (brk h, v) # (a, w) # zs)"
proof -
  have f: "a \<noteq> brk h" "brk h \<notin> fst ` set ys" "brk h \<notin> fst ` set zs" "a \<notin> fst ` set ys"
    "a \<notin> fst ` set zs"
    using repr_fresh [OF assms] assms unfolding repr_def by auto
  show ?thesis
  proof (cases ys rule: rev_cases)
    case Nil
    then show ?thesis using assms f
      by (auto simp: repr_def listInsertNode_def zmalloc_def less_SucI)
  next
    case (snoc us z)
    then obtain b u where z: "z = (b, u)" by (cases z)
    have "b \<noteq> brk h" "b \<noteq> a" "b \<notin> fst ` set us" "b \<notin> fst ` set zs" "l_head l \<noteq> Some a"
      using assms f by (cases us; auto simp: repr_def snoc z)+
    then show ?thesis using assms f
      by (auto simp: repr_def listInsertNode_def zmalloc_def snoc z less_SucI)
  qed
qed

lemma listDelNode_repr:
  assumes "repr h l (ys @ (a, w) # zs)"
  shows "\<exists>h' l'. listDelNode h l a = Some (h', l') \<and> repr h' l' (ys @ zs)
    \<and> freed h' = freed h @ (if l_free l then [w] else []) \<and> cells h' a = None
    \<and> brk h' = brk h \<and> l_free l' = l_free l"
proof -
  have f: "a \<notin> fst ` set ys" "a \<notin> fst ` set zs"
    using assms by (auto simp: repr_def)
  show ?thesis
  proof (cases ys rule: rev_cases)
    case Nil
    show ?thesis
    proof (cases zs)
      case Nil
      then show ?thesis using assms f \<open>ys = []\<close>
        by (auto simp: repr_def listDelNode_def zfree_def call_free_def)
    next
      case (Cons z us)
      then obtain b u where z: "z = (b, u)" by (cases z)
      show ?thesis using assms f \<open>ys = []\<close>
        by (auto simp: repr_def listDelNode_def zfree_def call_free_def Cons z)
    qed
  next
    case (snoc vs y)
    then obtain c t where y: "y = (c, t)" by (cases y)
    show ?thesis
    proof (cases zs)
      case Nil
      then show ?thesis using assms f
        by (auto simp: repr_def listDelNode_def zfree_def call_free_def snoc y)
    next
      case (Cons z us)
      then obtain b u where z: "z = (b, u)" by (cases z)
      show ?thesis using assms f
        by (auto simp: repr_def listDelNode_def zfree_def call_free_def snoc y Cons z)
    qed
  qed
qed

lemma listRotate_repr:
  assumes "repr h l (xs @ [x])"
  shows "\<exists>h' l'. listRotate h l = Some (h', l') \<and> repr h' l' (x # xs)"
proof (cases xs rule: rev_cases)
  case Nil
  then show ?thesis using assms by (auto simp: listRotate_def repr_def)
next
  case (snoc ys y)
  obtain a v b w where xy: "x = (a, v)" "y = (b, w)" by (cases x; cases y)
  show ?thesis
  proof (cases ys)
    case Nil
    then show ?thesis using assms
      by (auto simp: repr_def listRotate_def snoc xy Let_def)
  next
    case (Cons z zs)
    obtain c u where z: "z = (c, u)" by (cases z)
    show ?thesis using assms
      by (auto simp: repr_def listRotate_def snoc xy Cons z Let_def)
  qed
qed

subsubsection \<open>Walking the list\<close>

lemma repr_cell:
  assumes "dlseg C p (ys @ (a, w) # zs) n"
  shows "C a = Some \<lparr>n_prev = last_or p ys, n_next = first_or zs n, n_value = w\<rparr>"
  using assms by simp

lemma listNext_forward:
  assumes "dlseg (cells h) p ((a, v) # xs) n" and "it_direction it = AL_START_HEAD" and "it_next it = Some a"
  shows "listNext h it = Some (Some a, it\<lparr>it_next := first_or xs n\<rparr>)"
  using assms by (simp add: listNext_def)

text \<open>Up to \<open>n\<close> calls of \<open>listNext\<close>, until one returns NULL: the nodes they return.\<close>

fun iterate :: "'v heap \<Rightarrow> nat \<Rightarrow> listIter \<Rightarrow> addr list option" where
  "iterate h 0 it = Some []"
| "iterate h (Suc n) it =
     do { (a, it) \<leftarrow> listNext h it;
          case a of None \<Rightarrow> Some [] | Some a \<Rightarrow> map_option ((#) a) (iterate h n it) }"

lemma iterate_forward:
  "dlseg (cells h) p xs None \<Longrightarrow>
    iterate h n \<lparr>it_next = first_or xs None, it_direction = AL_START_HEAD\<rparr> = Some (take n (map fst xs))"
proof (induction n arbitrary: p xs)
  case (Suc n)
  then show ?case by (cases xs) (auto simp: listNext_def)
qed simp

lemma iterate_backward:
  "dlseg (cells h) None xs q \<Longrightarrow>
    iterate h n \<lparr>it_next = last_or None xs, it_direction = AL_START_TAIL\<rparr> = Some (take n (rev (map fst xs)))"
proof (induction n arbitrary: q xs)
  case (Suc n)
  then show ?case by (cases xs rule: rev_cases) (auto simp: listNext_def AL_START_HEAD_def AL_START_TAIL_def)
qed simp

lemma iterate_repr:
  assumes "repr h l xs"
  shows "iterate h n (listRewind l) = Some (take n (map fst xs))"
    and "iterate h n (listRewindTail l) = Some (take n (rev (map fst xs)))"
  using iterate_forward [OF reprD(1) [OF assms], of n] iterate_backward [OF reprD(1) [OF assms], of n] reprD(3,4) [OF assms]
  by (simp_all add: listRewind_def listRewindTail_def)

lemma search_loop_spec:
  assumes "dlseg (cells h) p xs None"
  shows "search_loop h l key \<lparr>it_next = first_or xs None, it_direction = AL_START_HEAD\<rparr>
    = Some (map_option fst (find (\<lambda>(a, v). case l_match l of Some m \<Rightarrow> m v key | None \<Rightarrow> key = v) xs))"
  using assms
proof (induction xs arbitrary: p)
  case Nil
  then show ?case by (simp add: search_loop.simps listNext_def)
next
  case (Cons x xs)
  obtain a v where x: "x = (a, v)" by (cases x)
  from Cons have "listNext h \<lparr>it_next = Some a, it_direction = AL_START_HEAD\<rparr>
      = Some (Some a, \<lparr>it_next = first_or xs None, it_direction = AL_START_HEAD\<rparr>)"
    by (simp add: x listNext_def)
  with Cons show ?case
    by (subst search_loop.simps) (auto simp: x split: option.split)
qed

lemma listSearchKey_repr:
  assumes "repr h l xs"
  shows "listSearchKey h l key
    = Some (map_option fst (find (\<lambda>(a, v). case l_match l of Some m \<Rightarrow> m v key | None \<Rightarrow> key = v) xs))"
  using search_loop_spec [of h None xs l key] reprD [OF assms]
  by (simp add: listSearchKey_def listGetIterator_def)

lemma walk_next:
  assumes "dlseg (cells h) p xs None"
  shows "walk n_next h i (first_or xs None) = Some (if i < length xs then Some (fst (xs ! i)) else None)"
  using assms
proof (induction i arbitrary: p xs)
  case 0
  then show ?case by (cases xs) auto
next
  case (Suc i)
  then show ?case
  proof (cases xs)
    case (Cons x ys)
    then show ?thesis using Suc by (cases x) fastforce
  qed simp
qed

lemma walk_prev:
  assumes "dlseg (cells h) None xs n"
  shows "walk n_prev h i (last_or None xs)
    = Some (if i < length xs then Some (fst (rev xs ! i)) else None)"
  using assms
proof (induction i arbitrary: n xs)
  case 0
  then show ?case by (cases xs rule: rev_cases) auto
next
  case (Suc i)
  then show ?case
  proof (cases xs rule: rev_cases)
    case (snoc ys x)
    then show ?thesis using Suc by (cases x) fastforce
  qed simp
qed

lemma listIndex_repr:
  assumes "repr h l xs"
  shows "listIndex h l i =
    Some (let k = (if i < 0 then int (length xs) + i else i)
          in if 0 \<le> k \<and> k < int (length xs) then Some (fst (xs ! nat k)) else None)"
proof (cases "i < 0")
  case True
  have "nat (- i - 1) < length xs \<longleftrightarrow> 0 \<le> int (length xs) + i" using True by auto
  moreover have "length xs - Suc (nat (- i - 1)) = nat (int (length xs) + i)" using True by auto
  ultimately show ?thesis
    using walk_prev [of h xs None "nat (- i - 1)"] reprD [OF assms] True
    by (auto simp: listIndex_def Let_def rev_nth)
next
  case False
  then show ?thesis
    using walk_next [of h None xs "nat i"] reprD [OF assms]
    by (auto simp: listIndex_def Let_def)
qed

subsubsection \<open>Release and duplication\<close>

lemma release_nodes_spec:
  assumes "dlseg (cells h) p xs n" and "distinct (map fst xs)"
  shows "\<exists>h'. release_nodes l (length xs) (first_or xs n) h = Some h'
    \<and> freed h' = freed h @ (if l_free l then map snd xs else [])
    \<and> cells h' = (cells h) |` (- fst ` set xs)"
  using assms
proof (induction xs arbitrary: p h)
  case Nil
  then show ?case by (simp add: restrict_map_def)
next
  case (Cons x xs)
  obtain a v where x: "x = (a, v)" by (cases x)
  let ?h = "zfree a (call_free l v h)"
  have cells: "cells ?h = (cells h)(a := None)" and freed: "freed ?h = freed h @ (if l_free l then [v] else [])"
    by (auto simp: zfree_def call_free_def)
  have "dlseg (cells ?h) (Some a) xs n" "distinct (map fst xs)"
    using Cons.prems by (auto simp: x cells)
  from Cons.IH [OF this] obtain h' where h': "release_nodes l (length xs) (first_or xs n) ?h = Some h'"
    "freed h' = freed ?h @ (if l_free l then map snd xs else [])"
    "cells h' = (cells ?h) |` (- fst ` set xs)" by blast
  then show ?case using Cons.prems freed
    by (auto simp: x cells restrict_map_def fun_eq_iff)
qed

lemma dup_loop_spec:
  assumes "dlseg (cells h) p xs None" and "distinct (map fst (xs @ ys))"
    and "repr h copy ys" and "\<forall>a \<in> fst ` set xs. a < brk h"
    and "list_all (\<lambda>x. dup (snd x) \<noteq> None) xs"
    and "dup = (case l_dup copy of Some d \<Rightarrow> d | None \<Rightarrow> Some)"
  shows "\<exists>h' copy' zs.
    dup_loop h copy \<lparr>it_next = first_or xs None, it_direction = AL_START_HEAD\<rparr> = Some (h', Some copy')
    \<and> repr h' copy' (ys @ zs) \<and> map snd zs = map (\<lambda>x. the (dup (snd x))) xs
    \<and> l_dup copy' = l_dup copy \<and> l_free copy' = l_free copy \<and> l_match copy' = l_match copy
    \<and> brk h \<le> brk h' \<and> (\<forall>a. a < brk h \<longrightarrow> a \<notin> fst ` set ys \<longrightarrow> cells h' a = cells h a)"
  using assms
proof (induction xs arbitrary: p h copy ys)
  case Nil
  then show ?case
    by (subst dup_loop.simps) (auto simp: listNext_def)
next
  case (Cons x xs)
  obtain a v where x: "x = (a, v)" by (cases x)
  from Cons.prems(5) obtain u where u: "dup v = Some u" by (auto simp: x)
  obtain h' copy' where add: "listAddNodeTail h copy u = Some (h', copy')"
    "repr h' copy' (ys @ [(brk h, u)])" "brk h' = brk h + 1"
    and fields: "l_dup copy' = l_dup copy" "l_free copy' = l_free copy" "l_match copy' = l_match copy"
    and same: "\<forall>a. a < brk h \<longrightarrow> a \<notin> fst ` set ys \<longrightarrow> cells h' a = cells h a"
    using listAddNodeTail_repr [OF Cons.prems(3), of u] by blast
  have frame: "dlseg C' q zs n = dlseg C q zs n"
    if "\<forall>a \<in> fst ` set zs. C' a = C a" for C C' :: "addr \<rightharpoonup> 'a listNode" and q zs n
    using that by (induction C q zs n rule: dlseg.induct) auto
  have "\<forall>a \<in> fst ` set xs. cells h' a = cells h a"
  proof
    fix b assume "b \<in> fst ` set xs"
    then have "b < brk h" "b \<notin> fst ` set ys" using Cons.prems(2,4) by auto
    with same show "cells h' b = cells h b" by blast
  qed
  then have seg: "dlseg (cells h') (Some a) xs None"
    using Cons.prems(1) frame [of xs "cells h'" "cells h"] by (simp add: x)
  have dist: "distinct (map fst (xs @ (ys @ [(brk h, u)])))"
    using Cons.prems(2,4) repr_fresh [OF Cons.prems(3)] by auto
  have bound: "\<forall>a \<in> fst ` set xs. a < brk h'" using Cons.prems(4) add(3) by auto
  have "list_all (\<lambda>x. dup (snd x) \<noteq> None) xs" using Cons.prems(5) by simp
  from Cons.IH [OF seg dist add(2) bound this] obtain h'' copy'' zs where IH:
    "dup_loop h' copy' \<lparr>it_next = first_or xs None, it_direction = AL_START_HEAD\<rparr> = Some (h'', Some copy'')"
    "repr h'' copy'' ((ys @ [(brk h, u)]) @ zs)" "map snd zs = map (\<lambda>x. the (dup (snd x))) xs"
    "l_dup copy'' = l_dup copy'" "l_free copy'' = l_free copy'" "l_match copy'' = l_match copy'"
    and far: "brk h' \<le> brk h''"
      "\<forall>a. a < brk h' \<longrightarrow> a \<notin> fst ` set (ys @ [(brk h, u)]) \<longrightarrow> cells h'' a = cells h' a"
    using Cons.prems(6) fields by auto
  have nxt: "listNext h \<lparr>it_next = Some a, it_direction = AL_START_HEAD\<rparr>
      = Some (Some a, \<lparr>it_next = first_or xs None, it_direction = AL_START_HEAD\<rparr>)"
    using Cons.prems(1) by (simp add: x listNext_def)
  have cell: "cells h a = Some \<lparr>n_prev = p, n_next = first_or xs None, n_value = v\<rparr>"
    using Cons.prems(1) by (simp add: x)
  have val: "(case l_dup copy of Some d \<Rightarrow> d v | None \<Rightarrow> Some v) = Some u"
    using u Cons.prems(6) by (auto split: option.splits)
  have "dup_loop h copy \<lparr>it_next = first_or (x # xs) None, it_direction = AL_START_HEAD\<rparr>
      = Some (h'', Some copy'')"
    using val by (subst dup_loop.simps, cases "l_dup copy") (simp_all add: x nxt cell add(1) IH(1))
  moreover have "brk h \<le> brk h''" using far(1) add(3) by simp
  moreover have "\<forall>a. a < brk h \<longrightarrow> a \<notin> fst ` set ys \<longrightarrow> cells h'' a = cells h a"
    using far(2) same add(3) by auto
  ultimately show ?case using IH fields u by (intro exI [of _ h''] exI [of _ copy''] exI [of _ "(brk h, u) # zs"]) (simp add: x)
qed

lemma dlseg_cong:
  "\<forall>a \<in> fst ` set xs. C' a = C a \<Longrightarrow> dlseg C' p xs n = dlseg C p xs n"
  by (induction C p xs n rule: dlseg.induct) auto

lemma listDup_repr:
  assumes "repr h l xs" and "dup = (case l_dup l of Some d \<Rightarrow> d | None \<Rightarrow> Some)"
    and "list_all (\<lambda>x. dup (snd x) \<noteq> None) xs"
  shows "\<exists>h' copy zs. listDup h l = Some (h', Some copy) \<and> repr h' copy zs
    \<and> map snd zs = map (\<lambda>x. the (dup (snd x))) xs \<and> repr h' l xs"
proof -
  let ?c = "listCreate\<lparr>l_dup := l_dup l, l_free := l_free l, l_match := l_match l\<rparr>"
  have c: "repr h ?c []" by (simp add: repr_def listCreate_def)
  have b: "\<forall>a \<in> fst ` set xs. a < brk h" using assms(1) by (simp add: repr_def)
  obtain h' copy zs where D:
    "dup_loop h ?c \<lparr>it_next = first_or xs None, it_direction = AL_START_HEAD\<rparr> = Some (h', Some copy)"
    "repr h' copy zs" "map snd zs = map (\<lambda>x. the (dup (snd x))) xs" "brk h \<le> brk h'"
    "\<forall>a. a < brk h \<longrightarrow> cells h' a = cells h a"
    using dup_loop_spec [OF reprD(1) [OF assms(1)] _ c b assms(3)] assms(2) reprD(2) [OF assms(1)]
    by (auto simp: listCreate_def)
  have "repr h' l xs"
    using assms(1) b D(4,5) dlseg_cong [of xs "cells h'" "cells h" None None]
    by (auto simp: repr_def intro: less_le_trans)
  with D reprD(3) [OF assms(1)] show ?thesis
    by (auto simp: listDup_def listGetIterator_def)
qed

subsection \<open>The list as a log\<close>

text \<open>The abstraction as a function: the nodes met from the head, as many as the length says.\<close>

fun chain :: "'v heap \<Rightarrow> nat \<Rightarrow> addr option \<Rightarrow> (addr \<times> 'v) list" where
  "chain h 0 p = []"
| "chain h (Suc n) p =
     (case (p, deref h p) of (Some a, Some nd) \<Rightarrow> (a, n_value nd) # chain h n (n_next nd) | _ \<Rightarrow> [])"

definition list_nodes :: "'v heap \<times> 'v adlist \<Rightarrow> (addr \<times> 'v) list" where
  "list_nodes s = (case s of (h, l) \<Rightarrow> chain h (l_len l) (l_head l))"

definition list_values :: "'v heap \<times> 'v adlist \<Rightarrow> 'v list" where
  "list_values s = map snd (list_nodes s)"

definition list_inv :: "'v heap \<times> 'v adlist \<Rightarrow> bool" where
  "list_inv s = (case s of (h, l) \<Rightarrow> repr h l (list_nodes s))"

definition list_push :: "'v \<Rightarrow> 'v heap \<times> 'v adlist \<Rightarrow> ('v heap \<times> 'v adlist) option" where
  "list_push v s = (case s of (h, l) \<Rightarrow> listAddNodeHead h l v)"

text \<open>\<open>listDelNode(list, listLast(list))\<close>\<close>

definition list_drop_last :: "'v heap \<times> 'v adlist \<Rightarrow> ('v heap \<times> 'v adlist) option" where
  "list_drop_last s =
     (case s of (h, l) \<Rightarrow> (case l_tail l of None \<Rightarrow> None | Some a \<Rightarrow> listDelNode h l a))"

definition list_length :: "'v heap \<times> 'v adlist \<Rightarrow> nat" where
  "list_length s = l_len (snd s)"

lemma chain_dlseg:
  "dlseg (cells h) p xs None \<Longrightarrow> chain h (length xs) (first_or xs None) = xs"
proof (induction xs arbitrary: p)
  case (Cons x xs)
  then show ?case by (cases x) auto
qed simp

lemma list_nodes_repr: "repr h l xs \<Longrightarrow> list_nodes (h, l) = xs"
  using chain_dlseg [of h None xs] by (simp add: list_nodes_def repr_def)

lemma list_inv_repr: "repr h l xs \<Longrightarrow> list_inv (h, l) \<and> list_values (h, l) = map snd xs"
  using list_nodes_repr [of h l xs] by (simp add: list_inv_def list_values_def)

lemma list_drop_last_spec:
  assumes "list_inv s" and "list_values s \<noteq> []"
  shows "\<exists>s'. list_drop_last s = Some s' \<and> list_inv s' \<and> list_values s' = butlast (list_values s)"
proof -
  obtain h l where s: "s = (h, l)" by (cases s)
  from assms obtain ys a w where nodes: "list_nodes (h, l) = ys @ [(a, w)]"
    using last_cases [of "list_nodes (h, l)"] by (auto simp: s list_values_def)
  with assms(1) have r: "repr h l (ys @ [(a, w)])" by (simp add: s list_inv_def)
  then obtain h' l' where d: "listDelNode h l a = Some (h', l')" "repr h' l' (ys @ [])"
    using listDelNode_repr [of h l ys a w "[]"] by blast
  from r have "l_tail l = Some a" by (simp add: repr_def)
  with d nodes show ?thesis
    using list_inv_repr [OF d(2)] by (simp add: s list_drop_last_def list_values_def)
qed

interpretation adlist_log: front_log list_push list_drop_last list_length list_values list_inv
proof unfold_locales
  fix s :: "'a heap \<times> 'a adlist" and v
  assume inv: "list_inv s"
  obtain h l where s: "s = (h, l)" by (cases s)
  from inv have r: "repr h l (list_nodes (h, l))" by (simp add: s list_inv_def)
  show "\<exists>s'. list_push v s = Some s' \<and> list_inv s' \<and> list_values s' = v # list_values s"
  proof -
    obtain h' l' where add: "listAddNodeHead h l v = Some (h', l')"
      "repr h' l' ((brk h, v) # list_nodes (h, l))"
      using listAddNodeHead_repr [OF r, of v] by blast
    with list_inv_repr [OF add(2)] show ?thesis by (simp add: s list_push_def list_values_def)
  qed
  show "list_length s = length (list_values s)"
    using r by (simp add: s list_length_def list_values_def repr_def)
qed (rule list_drop_last_spec)

subsection \<open>Properties\<close>

text \<open>
  C16. On a well-formed list \<open>listAddNodeHead\<close> and \<open>listAddNodeTail\<close> never fault and add
  the value in front of, respectively behind, all others; links, length and both end pointers stay
  consistent.
\<close>

theorem listAddNode_sequence:
  assumes "repr h l xs"
  shows "(\<exists>h' l'. listAddNodeHead h l v = Some (h', l') \<and> repr h' l' ((brk h, v) # xs))
    \<and> (\<exists>h' l'. listAddNodeTail h l v = Some (h', l') \<and> repr h' l' (xs @ [(brk h, v)]))"
  using listAddNodeHead_repr [OF assms, of v] listAddNodeTail_repr [OF assms, of v] by blast

theorem listAddNode_sequence_witness:
  "\<exists>h' l'. listAddNodeHead \<lparr>cells = Map.empty, brk = 0, freed = []\<rparr> listCreate (7 :: nat)
     = Some (h', l') \<and> repr h' l' [(0, 7)]"
  using listAddNode_sequence [OF repr_empty, of "\<lparr>cells = Map.empty, brk = 0, freed = []\<rparr>" "7 :: nat"]
  by simp

text \<open>
  C32. Inserting next to a node and deleting a node change the sequence at that place only, whatever
  stands before and after (the ends of the list included); deletion calls the \<open>free\<close> method on
  the node's value exactly when the list has one.
\<close>

theorem listInsert_listDel_sequence:
  assumes "repr h l (ys @ (a, w) # zs)"
  shows "(\<exists>h' l'. listInsertNode h l a v True = Some (h', l')
            \<and> repr h' l' (ys @ (a, w) # (brk h, v) # zs))
    \<and> (\<exists>h' l'. listInsertNode h l a v False = Some (h', l')
            \<and> repr h' l' (ys @ (brk h, v) # (a, w) # zs))
    \<and> (\<exists>h' l'. listDelNode h l a = Some (h', l') \<and> repr h' l' (ys @ zs)
            \<and> freed h' = freed h @ (if l_free l then [w] else []))"
  using listInsertNode_after [OF assms, of v] listInsertNode_before [OF assms, of v]
    listDelNode_repr [OF assms] by blast

definition one_node_heap :: "nat heap" where
  "one_node_heap =
     \<lparr>cells = [0 \<mapsto> \<lparr>n_prev = None, n_next = None, n_value = 5\<rparr>], brk = 1, freed = []\<rparr>"

definition one_node_list :: "nat adlist" where
  "one_node_list = listCreate\<lparr>l_head := Some 0, l_tail := Some 0, l_free := True, l_len := 1\<rparr>"

lemma one_node_repr: "repr one_node_heap one_node_list [(0, 5)]"
  by (simp add: repr_def one_node_heap_def one_node_list_def listCreate_def)

theorem listInsert_listDel_sequence_witness:
  "\<exists>h' l'. listDelNode one_node_heap one_node_list 0 = Some (h', l') \<and> repr h' l' []
     \<and> freed h' = [5]"
  using listInsert_listDel_sequence [of one_node_heap one_node_list "[]" 0 5 "[]" 6] one_node_repr
  by (simp add: one_node_heap_def one_node_list_def)

text \<open>
  \<open>listRotate\<close> moves the last node to the front; \<open>listIndex\<close> returns the node at a
  position counted from the head (from 0) or from the tail (from -1), NULL out of range;
  \<open>listSearchKey\<close> returns the first node, in order, that the \<open>match\<close> method (pointer
  equality when there is none) accepts; and calls of \<open>listNext\<close> return the nodes in order after
  \<open>listRewind\<close>, in reverse order after \<open>listRewindTail\<close>, and NULL behind the last one.
\<close>

theorem listAccess_sequence:
  assumes "repr h l (xs @ [x])"
  shows "(\<exists>h' l'. listRotate h l = Some (h', l') \<and> repr h' l' (x # xs))
    \<and> listIndex h l i =
        Some (let k = (if i < 0 then int (length xs + 1) + i else i)
              in if 0 \<le> k \<and> k < int (length xs + 1) then Some (fst ((xs @ [x]) ! nat k)) else None)
    \<and> listSearchKey h l key =
        Some (map_option fst
          (find (\<lambda>(a, v). case l_match l of Some m \<Rightarrow> m v key | None \<Rightarrow> key = v) (xs @ [x])))
    \<and> iterate h n (listRewind l) = Some (take n (map fst (xs @ [x])))
    \<and> iterate h n (listRewindTail l) = Some (take n (rev (map fst (xs @ [x]))))"
  using iterate_repr [OF assms, of n] listRotate_repr [OF assms] listIndex_repr [OF assms, of i] listSearchKey_repr [OF assms, of key]
  by simp

theorem listAccess_sequence_witness:
  "listIndex one_node_heap one_node_list (- 1) = Some (Some 0)
   \<and> listSearchKey one_node_heap one_node_list 5 = Some (Some 0)
   \<and> iterate one_node_heap 3 (listRewindTail one_node_list) = Some [0]"
  using listAccess_sequence [of one_node_heap one_node_list "[]" "(0, 5)" "- 1" 5 3] one_node_repr
  by (simp add: one_node_list_def listCreate_def)

text \<open>
  When the \<open>dup\<close> method succeeds on every value, \<open>listDup\<close> ends and returns a list of
  the duplicated values in the same order, built on fresh nodes: the original list is still
  represented, unchanged, in the new heap.
\<close>

theorem listDup_copies:
  assumes "repr h l xs" and "\<forall>x \<in> set xs. (case l_dup l of Some d \<Rightarrow> d | None \<Rightarrow> Some) (snd x) \<noteq> None"
  shows "\<exists>h' copy zs. listDup h l = Some (h', Some copy) \<and> repr h' copy zs \<and> repr h' l xs
    \<and> map snd zs = map (\<lambda>x. the ((case l_dup l of Some d \<Rightarrow> d | None \<Rightarrow> Some) (snd x))) xs"
  using listDup_repr [OF assms(1) refl] assms(2) by (auto simp: list_all_iff)

theorem listDup_copies_witness:
  "\<exists>h' copy zs. listDup one_node_heap one_node_list = Some (h', Some copy) \<and> repr h' copy zs
     \<and> map snd zs = [5]"
proof -
  have d: "l_dup one_node_list = None" by (simp add: one_node_list_def listCreate_def)
  obtain h' copy zs where "listDup one_node_heap one_node_list = Some (h', Some copy)"
    "repr h' copy zs" "map snd zs = [5]"
    using listDup_copies [OF one_node_repr] by (auto simp: d)
  then show ?thesis by (intro exI conjI)
qed

end
