(* ===== verification/Slowlog.thy ===== *)
theory Slowlog
  imports Adlist Redis_Util
begin

text \<open>
  The slow log of \<open>src/slowlog.c\<close>: a list of entries, newest first, on an \<open>adlist\<close>, with the
  configuration fields of the server it reads (\<open>slowlog_log_slower_than\<close>,
  \<open>slowlog_max_len\<close>). The clock is an argument. Arguments of a command are string objects with an
  sds (\<open>SdsObject\<close>) or objects of another type or encoding, which are shared as they are; their
  reference counts are not modelled. The list operations are used through the interface
  \<open>front_log\<close> that \<open>Adlist\<close> interprets.
\<close>

datatype robj = SdsObject "byte list" | OtherObject nat

record slowlogEntry =
  se_argv :: "robj list"
  se_argc :: nat
  se_id :: int
  se_duration :: int
  se_time :: int

record slowlog_server =
  slowlog :: "slowlogEntry heap \<times> slowlogEntry adlist"
  slowlog_entry_id :: int
  slowlog_log_slower_than :: int
  slowlog_max_len :: nat

definition SLOWLOG_ENTRY_MAX_ARGC :: nat where "SLOWLOG_ENTRY_MAX_ARGC = 32"
definition SLOWLOG_ENTRY_MAX_STRING :: nat where "SLOWLOG_ENTRY_MAX_STRING = 128"

definition bytes_of :: "string \<Rightarrow> byte list" where
  "bytes_of s = map of_char s"

text \<open>One argument of an entry: the argument \<open>j\<close> of the \<open>argc\<close> the command had.\<close>

definition slowlog_arg :: "robj list \<Rightarrow> nat \<Rightarrow> nat \<Rightarrow> nat \<Rightarrow> robj" where
  "slowlog_arg argv argc slargc j =
     (if slargc \<noteq> argc \<and> j = slargc - 1 then
        SdsObject (bytes_of ''... ('' @ decimal (argc - slargc + 1) @ bytes_of '' more arguments)'')
      else
        (case argv ! j of
           SdsObject s \<Rightarrow>
             if length s > SLOWLOG_ENTRY_MAX_STRING then
               SdsObject (take SLOWLOG_ENTRY_MAX_STRING s @ bytes_of ''... (''
                 @ decimal (length s - SLOWLOG_ENTRY_MAX_STRING) @ bytes_of '' more bytes)'')
             else argv ! j
         | OtherObject _ \<Rightarrow> argv ! j))"

definition slowlogCreateEntry ::
  "slowlog_server \<Rightarrow> robj list \<Rightarrow> int \<Rightarrow> int \<Rightarrow> slowlogEntry \<times> slowlog_server" where
  "slowlogCreateEntry srv argv duration now =
     (let argc = length argv;
          slargc = (if argc > SLOWLOG_ENTRY_MAX_ARGC then SLOWLOG_ENTRY_MAX_ARGC else argc)
      in (\<lparr>se_argv = map (slowlog_arg argv argc slargc) [0..<slargc], se_argc = slargc,
            se_id = slowlog_entry_id srv, se_duration = duration, se_time = now\<rparr>,
          srv\<lparr>slowlog_entry_id := s64 (slowlog_entry_id srv + 1)\<rparr>))"

definition slowlogInit :: "slowlogEntry heap \<Rightarrow> slowlog_server \<Rightarrow> slowlog_server" where
  "slowlogInit h srv = srv\<lparr>slowlog := (h, listCreate\<lparr>l_free := True\<rparr>), slowlog_entry_id := 0\<rparr>"

definition slowlogPushEntryIfNeeded ::
  "slowlog_server \<Rightarrow> robj list \<Rightarrow> int \<Rightarrow> int \<Rightarrow> slowlog_server option" where
  "slowlogPushEntryIfNeeded srv argv duration now =
     (if slowlog_log_slower_than srv < 0 then Some srv
      else do {
        srv \<leftarrow>
          (if duration \<ge> slowlog_log_slower_than srv then
             (let (se, srv) = slowlogCreateEntry srv argv duration now
              in do { s \<leftarrow> list_push se (slowlog srv); Some (srv\<lparr>slowlog := s\<rparr>) })
           else Some srv);
        s \<leftarrow> trim_log list_drop_last list_length (slowlog_max_len srv) (slowlog srv);
        Some (srv\<lparr>slowlog := s\<rparr>)
      })"

definition slowlogReset :: "slowlog_server \<Rightarrow> slowlog_server option" where
  "slowlogReset srv = do {
     s \<leftarrow> trim_log list_drop_last list_length 0 (slowlog srv);
     Some (srv\<lparr>slowlog := s\<rparr>)
   }"

text \<open>Commands executed one after another: their arguments, durations and the clock.\<close>

fun slowlog_run :: "slowlog_server \<Rightarrow> (robj list \<times> int \<times> int) list \<Rightarrow> slowlog_server option" where
  "slowlog_run srv [] = Some srv"
| "slowlog_run srv ((argv, duration, now) # es) =
     (case slowlogPushEntryIfNeeded srv argv duration now of
        None \<Rightarrow> None
      | Some srv' \<Rightarrow> slowlog_run srv' es)"

definition slowlog_entries :: "slowlog_server \<Rightarrow> slowlogEntry list" where
  "slowlog_entries srv = list_values (slowlog srv)"

definition slowlog_ok :: "slowlog_server \<Rightarrow> bool" where
  "slowlog_ok srv \<longleftrightarrow> list_inv (slowlog srv)"

subsection \<open>The log as a bounded history\<close>

lemma slowlogCreateEntry_fields:
  assumes "slowlogCreateEntry srv argv duration now = (se, srv')"
  shows "se_id se = slowlog_entry_id srv" "se_duration se = duration"
    "srv' = srv\<lparr>slowlog_entry_id := s64 (slowlog_entry_id srv + 1)\<rparr>"
  using assms by (auto simp: slowlogCreateEntry_def Let_def)

lemma slowlogPush_spec:
  assumes "slowlog_ok srv"
  shows "\<exists>srv'. slowlogPushEntryIfNeeded srv argv duration now = Some srv' \<and> slowlog_ok srv'
    \<and> slowlog_log_slower_than srv' = slowlog_log_slower_than srv
    \<and> slowlog_max_len srv' = slowlog_max_len srv
    \<and> (let lim = slowlog_log_slower_than srv;
           (se, s1) = slowlogCreateEntry srv argv duration now
       in if lim < 0 then srv' = srv
          else if duration \<ge> lim
          then slowlog_entries srv' = take (slowlog_max_len srv) (se # slowlog_entries srv)
             \<and> slowlog_entry_id srv' = s64 (slowlog_entry_id srv + 1)
          else slowlog_entries srv' = take (slowlog_max_len srv) (slowlog_entries srv)
             \<and> slowlog_entry_id srv' = slowlog_entry_id srv)"
proof -
  obtain se s1 where ce: "slowlogCreateEntry srv argv duration now = (se, s1)" by fastforce
  note f = slowlogCreateEntry_fields [OF ce]
  have inv: "list_inv (slowlog srv)" using assms by (simp add: slowlog_ok_def)
  obtain p t where P: "list_push se (slowlog srv) = Some p"
    "trim_log list_drop_last list_length (slowlog_max_len srv) p = Some t" "list_inv t"
    "list_values t = take (slowlog_max_len srv) (se # list_values (slowlog srv))"
    using adlist_log.push_trim_spec [OF inv] by blast
  obtain u where U:
    "trim_log list_drop_last list_length (slowlog_max_len srv) (slowlog srv) = Some u" "list_inv u"
    "list_values u = take (slowlog_max_len srv) (list_values (slowlog srv))"
    using adlist_log.trim_log_spec [OF inv] by blast
  show ?thesis
    using P U assms
    by (simp add: slowlogPushEntryIfNeeded_def ce f(3) slowlog_ok_def slowlog_entries_def Let_def)
qed

text \<open>Identifiers: newest first, strictly decreasing, all below the next one.\<close>

definition slowlog_ids_ok :: "slowlog_server \<Rightarrow> bool" where
  "slowlog_ids_ok srv \<longleftrightarrow>
     sorted_wrt (>) (map se_id (slowlog_entries srv))
     \<and> (\<forall>e \<in> set (slowlog_entries srv). se_id e < slowlog_entry_id srv)"

lemma sorted_wrt_take_map: "sorted_wrt P (map f xs) \<Longrightarrow> sorted_wrt P (map f (take n xs))"
  by (metis sorted_wrt_take take_map)

lemma slowlogPush_ids:
  assumes "slowlog_ok srv" and "slowlog_ids_ok srv" and "is_int64 (slowlog_entry_id srv + 1)"
    and "slowlogPushEntryIfNeeded srv argv duration now = Some srv'"
  shows "slowlog_ids_ok srv' \<and> slowlog_entry_id srv' \<le> slowlog_entry_id srv + 1"
proof -
  obtain se s1 where ce: "slowlogCreateEntry srv argv duration now = (se, s1)" by fastforce
  note f = slowlogCreateEntry_fields [OF ce]
  note S = slowlogPush_spec [OF assms(1), of argv duration now]
  consider "slowlog_log_slower_than srv < 0"
    | "\<not> slowlog_log_slower_than srv < 0" "duration \<ge> slowlog_log_slower_than srv"
    | "\<not> slowlog_log_slower_than srv < 0" "\<not> duration \<ge> slowlog_log_slower_than srv" by blast
  then show ?thesis
  proof cases
    case 1
    with S assms(2,4) show ?thesis by (simp add: Let_def ce)
  next
    case 2
    with S assms(4) have e: "slowlog_entries srv' = take (slowlog_max_len srv) (se # slowlog_entries srv)"
      and i: "slowlog_entry_id srv' = slowlog_entry_id srv + 1"
      using assms(3) by (auto simp: Let_def ce)
    have "sorted_wrt (>) (map se_id (se # slowlog_entries srv))"
      using assms(2) f(1) by (auto simp: slowlog_ids_ok_def)
    then have "sorted_wrt (>) (map se_id (slowlog_entries srv'))"
      unfolding e by (rule sorted_wrt_take_map)
    moreover have "\<forall>x \<in> set (slowlog_entries srv'). se_id x < slowlog_entry_id srv'"
      using assms(2) f(1) unfolding e i by (fastforce simp: slowlog_ids_ok_def dest: in_set_takeD)
    ultimately show ?thesis using i by (simp add: slowlog_ids_ok_def)
  next
    case 3
    with S assms(4) have e: "slowlog_entries srv' = take (slowlog_max_len srv) (slowlog_entries srv)"
      and i: "slowlog_entry_id srv' = slowlog_entry_id srv"
      by (auto simp: Let_def ce)
    have "sorted_wrt (>) (map se_id (slowlog_entries srv'))"
      unfolding e using assms(2) sorted_wrt_take_map by (auto simp: slowlog_ids_ok_def)
    then show ?thesis
      using assms(2) i e by (auto simp: slowlog_ids_ok_def dest: in_set_takeD)
  qed
qed

lemma slowlogPush_id_mono:
  assumes "slowlog_ok srv" and "is_int64 (slowlog_entry_id srv + 1)"
    and "slowlogPushEntryIfNeeded srv argv duration now = Some srv'"
  shows "slowlog_entry_id srv \<le> slowlog_entry_id srv'"
  using slowlogPush_spec [OF assms(1), of argv duration now] assms(2,3)
  by (auto simp: Let_def split: prod.splits if_splits)

lemma slowlogPush_length:
  assumes "slowlog_ok srv" and "length (slowlog_entries srv) \<le> slowlog_max_len srv"
    and "slowlogPushEntryIfNeeded srv argv duration now = Some srv'"
  shows "length (slowlog_entries srv') \<le> slowlog_max_len srv'"
  using slowlogPush_spec [OF assms(1), of argv duration now] assms(2,3)
  by (auto simp: Let_def split: prod.splits if_splits)

lemma slowlog_run_spec:
  assumes "slowlog_ok srv" and "slowlog_ids_ok srv"
    and "length (slowlog_entries srv) \<le> slowlog_max_len srv"
    and "0 \<le> slowlog_entry_id srv" and "slowlog_entry_id srv + int (length es) \<le> LLONG_MAX"
  shows "\<exists>srv'. slowlog_run srv es = Some srv' \<and> slowlog_ok srv' \<and> slowlog_ids_ok srv'
    \<and> length (slowlog_entries srv') \<le> slowlog_max_len srv"
  using assms
proof (induction es arbitrary: srv)
  case (Cons e es)
  obtain argv duration now where e: "e = (argv, duration, now)" by (cases e)
  obtain srv1 where P: "slowlogPushEntryIfNeeded srv argv duration now = Some srv1"
    "slowlog_ok srv1" "slowlog_max_len srv1 = slowlog_max_len srv"
    using slowlogPush_spec [OF Cons.prems(1), of argv duration now] by blast
  have i: "is_int64 (slowlog_entry_id srv + 1)"
    using Cons.prems(4,5) by (simp add: is_int64_def range_defs)
  note I = slowlogPush_ids [OF Cons.prems(1,2) i P(1)]
  note M = slowlogPush_id_mono [OF Cons.prems(1) i P(1)]
  note L = slowlogPush_length [OF Cons.prems(1,3) P(1)]
  have "\<exists>srv'. slowlog_run srv1 es = Some srv' \<and> slowlog_ok srv' \<and> slowlog_ids_ok srv'
      \<and> length (slowlog_entries srv') \<le> slowlog_max_len srv1"
    using I M L P(2) Cons.prems(4,5) by (intro Cons.IH) auto
  with P show ?case by (simp add: e)
qed simp

lemma slowlogInit_ok:
  "slowlog_ok (slowlogInit h srv) \<and> slowlog_entries (slowlogInit h srv) = []"
proof -
  have "repr h (listCreate\<lparr>l_free := True\<rparr>) []" by (simp add: repr_def listCreate_def)
  from list_inv_repr [OF this] show ?thesis
    by (simp add: slowlog_ok_def slowlog_entries_def slowlogInit_def)
qed

subsection \<open>Properties\<close>

text \<open>
  Logging a command never faults. It changes nothing when the threshold is negative; otherwise
  a command at least as slow as the threshold is put in front of the log, and in either case the
  log keeps its newest \<open>slowlog_max_len\<close> entries.
\<close>

theorem slowlogPush_history:
  assumes "slowlog_ok srv"
  shows "\<exists>srv'. slowlogPushEntryIfNeeded srv argv duration now = Some srv' \<and> slowlog_ok srv'
    \<and> (slowlog_log_slower_than srv < 0 \<longrightarrow> srv' = srv)
    \<and> (0 \<le> slowlog_log_slower_than srv \<longrightarrow>
         slowlog_entries srv' = take (slowlog_max_len srv)
           (if duration \<ge> slowlog_log_slower_than srv
            then fst (slowlogCreateEntry srv argv duration now) # slowlog_entries srv
            else slowlog_entries srv))"
  using slowlogPush_spec [OF assms, of argv duration now]
  by (fastforce simp: Let_def split: prod.splits if_splits)

definition empty_slowlog :: slowlog_server where
  "empty_slowlog = slowlogInit \<lparr>cells = Map.empty, brk = 0, freed = []\<rparr>
     \<lparr>slowlog = (\<lparr>cells = Map.empty, brk = 0, freed = []\<rparr>, listCreate), slowlog_entry_id = 0,
      slowlog_log_slower_than = 100, slowlog_max_len = 2\<rparr>"

theorem slowlogPush_history_witness:
  "\<exists>srv'. slowlogPushEntryIfNeeded empty_slowlog [SdsObject [65]] 150 0 = Some srv'
     \<and> slowlog_entries srv' = [\<lparr>se_argv = [SdsObject [65]], se_argc = 1, se_id = 0, se_duration = 150, se_time = 0\<rparr>]"
proof -
  have f: "slowlog_ok empty_slowlog" "slowlog_entries empty_slowlog = []"
    by (simp_all add: empty_slowlog_def slowlogInit_ok)
  have g: "slowlog_log_slower_than empty_slowlog = 100" "slowlog_max_len empty_slowlog = 2"
    "slowlog_entry_id empty_slowlog = 0"
    by (simp_all add: empty_slowlog_def slowlogInit_def)
  show ?thesis
    using slowlogPush_history [OF f(1), of "[SdsObject [65]]" 150 0]
    by (auto simp: f g slowlogCreateEntry_def slowlog_arg_def SLOWLOG_ENTRY_MAX_ARGC_def
        SLOWLOG_ENTRY_MAX_STRING_def)
qed

text \<open>
  C18. From an initialised log, any run of commands (fewer than 2 to the 63) never faults, the log
  never holds more than \<open>slowlog_max_len\<close> entries, and its identifiers are strictly decreasing
  from newest to oldest, so they are unique.
\<close>

theorem slowlog_run_bounded:
  assumes "int (length es) \<le> LLONG_MAX"
  shows "\<exists>srv'. slowlog_run (slowlogInit h srv) es = Some srv'
    \<and> length (slowlog_entries srv') \<le> slowlog_max_len srv
    \<and> sorted_wrt (>) (map se_id (slowlog_entries srv'))"
proof -
  have f: "slowlog_ok (slowlogInit h srv)" "slowlog_entries (slowlogInit h srv) = []"
    using slowlogInit_ok by blast+
  have i: "slowlog_entry_id (slowlogInit h srv) = 0"
    "slowlog_max_len (slowlogInit h srv) = slowlog_max_len srv"
    by (simp_all add: slowlogInit_def)
  have "slowlog_ids_ok (slowlogInit h srv)" by (simp add: slowlog_ids_ok_def f(2))
  from slowlog_run_spec [OF f(1) this, of es] show ?thesis
    using assms f i by (auto simp: slowlog_ids_ok_def)
qed

theorem slowlog_run_bounded_witness:
  "\<exists>srv'. slowlog_run (slowlogInit \<lparr>cells = Map.empty, brk = 0, freed = []\<rparr> empty_slowlog)
       [([], 150, 0), ([], 50, 1), ([], 300, 2), ([], 200, 3)] = Some srv'
     \<and> length (slowlog_entries srv') \<le> 2"
  using slowlog_run_bounded [of "[([], 150, 0), ([], 50, 1), ([], 300, 2), ([], 200, 3)]"
      "\<lparr>cells = Map.empty, brk = 0, freed = []\<rparr>" empty_slowlog]
  by (auto simp: LLONG_MAX_def empty_slowlog_def slowlogInit_def)

end
