(* ===== verification/Keyed_Store.thy ===== *)
theory Keyed_Store
  imports Redis_Prelude
begin

text \<open>
  The contract of a key-value container: what a lookup returns after each update. The containers of
  the program change their shape in every operation, lookups included (a lookup in a hash table that
  is being resized moves a bucket), so every operation returns the new container. \<open>view\<close> is the
  map a container stands for, \<open>room\<close> says that it can still take a key.
\<close>

locale keyed_store =
  fixes view :: "'s \<Rightarrow> 'k \<Rightarrow> 'v option"
    and inv :: "'s \<Rightarrow> bool"
    and room :: "'s \<Rightarrow> bool"
    and find :: "'s \<Rightarrow> 'k \<Rightarrow> ('s \<times> 'v option) option"
    and add :: "'s \<Rightarrow> 'k \<Rightarrow> 'v \<Rightarrow> ('s \<times> bool) option"
    and replace :: "'s \<Rightarrow> 'k \<Rightarrow> 'v \<Rightarrow> ('s \<times> bool) option"
    and delete :: "'s \<Rightarrow> 'k \<Rightarrow> ('s \<times> bool) option"
  assumes find_spec: "inv s \<Longrightarrow> \<exists>s'. find s k = Some (s', view s k) \<and> inv s' \<and> view s' = view s"
    and add_spec:
      "inv s \<Longrightarrow> room s \<Longrightarrow> \<exists>s'. add s k v = Some (s', view s k = None) \<and> inv s'
         \<and> view s' = (if view s k = None then (view s)(k \<mapsto> v) else view s)"
    and replace_spec:
      "inv s \<Longrightarrow> room s \<Longrightarrow> \<exists>s'. replace s k v = Some (s', view s k = None) \<and> inv s'
         \<and> view s' = (view s)(k \<mapsto> v)"
    and delete_spec:
      "inv s \<Longrightarrow> \<exists>s'. delete s k = Some (s', view s k \<noteq> None) \<and> inv s'
         \<and> view s' = (view s)(k := None)"
begin

lemma delete_find:
  assumes "inv s"
  shows "\<exists>s' s''. delete s k = Some (s', view s k \<noteq> None) \<and> find s' k = Some (s'', None)
    \<and> inv s'' \<and> view s'' = (view s)(k := None)"
proof -
  obtain s' where d: "delete s k = Some (s', view s k \<noteq> None)" "inv s'" "view s' = (view s)(k := None)"
    using delete_spec [OF assms, of k] by blast
  obtain s'' where "find s' k = Some (s'', view s' k)" "inv s''" "view s'' = view s'"
    using find_spec [OF d(2), of k] by blast
  with d show ?thesis by simp
qed

end

end
