(* ===== verification/Dict.thy ===== *)
theory Dict
  imports Keyed_Store "HOL-Library.Multiset"
begin

unbundle bit_operations_syntax

text \<open>
  The hash table of \<open>src/dict.c\<close> with incremental rehashing. A table is a list of chains, each
  chain the entries in the order of their \<open>next\<close> links; a table pointer is NULL exactly when the
  list is empty. A pointer to an entry is its place: table number, bucket, position in the chain.
  The dictionary's \<open>dictType\<close> gives the hash function (a 32-bit value) and the key comparison; its
  dup and destructor methods manage memory and have no effect on the contents. \<open>None\<close> is a fault:
  a failed assertion, an access outside a table, or an \<open>int\<close> that overflows in an increment or a
  decrement, which C leaves undefined.

  The static variable \<open>dict_can_resize\<close> is the argument \<open>can_resize\<close>. The \<open>int\<close> variables of
  the code are \<open>rehashidx\<close>, the argument of \<open>dictRehash\<close>, the result of \<open>_dictKeyIndex\<close> and
  \<open>minimal\<close> in \<open>dictResize\<close>; a table index or a counter assigned to one is cut to 32 bits.
  The counters \<open>used\<close> are \<open>unsigned long\<close>s that count entries in memory.
\<close>

type_synonym ('k, 'v) chain = "('k \<times> 'v) list"

record ('k, 'v) dictht =
  table :: "('k, 'v) chain list"
  ht_size :: nat
  sizemask :: nat
  used :: nat

record 'k dictType =
  hashFunction :: "'k \<Rightarrow> nat"
  keyCompare :: "'k \<Rightarrow> 'k \<Rightarrow> bool"

record ('k, 'v) dict =
  d_type :: "'k dictType"
  ht0 :: "('k, 'v) dictht"
  ht1 :: "('k, 'v) dictht"
  rehashidx :: int
  iterators :: int

type_synonym entry_ref = "nat \<times> nat \<times> nat"

definition DICT_HT_INITIAL_SIZE :: nat where "DICT_HT_INITIAL_SIZE = 4"
definition LONG_MAX :: nat where "LONG_MAX = 2 ^ 63 - 1"
definition dict_force_resize_ratio :: nat where "dict_force_resize_ratio = 5"

definition dictIsRehashing :: "('k, 'v) dict \<Rightarrow> bool" where
  "dictIsRehashing d \<longleftrightarrow> rehashidx d \<noteq> - 1"

definition dictSize :: "('k, 'v) dict \<Rightarrow> nat" where
  "dictSize d = used (ht0 d) + used (ht1 d)"

definition dictSlots :: "('k, 'v) dict \<Rightarrow> nat" where
  "dictSlots d = ht_size (ht0 d) + ht_size (ht1 d)"

definition get_ht :: "('k, 'v) dict \<Rightarrow> nat \<Rightarrow> ('k, 'v) dictht" where
  "get_ht d t = (if t = 0 then ht0 d else ht1 d)"

definition set_ht :: "('k, 'v) dict \<Rightarrow> nat \<Rightarrow> ('k, 'v) dictht \<Rightarrow> ('k, 'v) dict" where
  "set_ht d t ht = (if t = 0 then d\<lparr>ht0 := ht\<rparr> else d\<lparr>ht1 := ht\<rparr>)"

definition bucket :: "('k, 'v) dictht \<Rightarrow> nat \<Rightarrow> ('k, 'v) chain option" where
  "bucket ht i = (if i < length (table ht) then Some (table ht ! i) else None)"

text \<open>\<open>used--\<close> on an \<open>unsigned long\<close>.\<close>

definition decr :: "nat \<Rightarrow> nat" where
  "decr n = (if n = 0 then ULLONG_MAX else n - 1)"

text \<open>\<open>i++\<close> on an \<open>int\<close>.\<close>

definition int_incr :: "int \<Rightarrow> int option" where
  "int_incr i = (if i < 2 ^ 31 - 1 then Some (i + 1) else None)"

subsection \<open>Creation and resizing\<close>

definition dictReset :: "('k, 'v) dictht" where
  "dictReset = \<lparr>table = [], ht_size = 0, sizemask = 0, used = 0\<rparr>"

definition dictInit :: "'k dictType \<Rightarrow> ('k, 'v) dict" where
  "dictInit type =
     \<lparr>d_type = type, ht0 = dictReset, ht1 = dictReset, rehashidx = - 1, iterators = 0\<rparr>"

definition dictCreate :: "'k dictType \<Rightarrow> ('k, 'v) dict" where
  "dictCreate type = dictInit type"

function next_power_loop :: "nat \<Rightarrow> nat \<Rightarrow> nat" where
  "next_power_loop i sz = (if i \<ge> sz \<or> i = 0 then i else next_power_loop (i * 2) sz)"
  by pat_completeness auto
termination
  by (relation "measure (\<lambda>(i, sz). sz - i)") auto

declare next_power_loop.simps [simp del]

definition dictNextPower :: "nat \<Rightarrow> nat" where
  "dictNextPower sz =
     (if sz \<ge> LONG_MAX then LONG_MAX else next_power_loop DICT_HT_INITIAL_SIZE sz)"

text \<open>The result of \<open>dictExpand\<close> is whether it returned \<open>DICT_OK\<close>.\<close>

definition dictExpand :: "('k, 'v) dict \<Rightarrow> nat \<Rightarrow> ('k, 'v) dict \<times> bool" where
  "dictExpand d sz =
     (let realsize = dictNextPower sz
      in if dictIsRehashing d \<or> used (ht0 d) > sz then (d, False)
         else let n = \<lparr>table = replicate realsize [], ht_size = realsize, sizemask = realsize - 1,
                       used = 0\<rparr>
              in if table (ht0 d) = [] then (d\<lparr>ht0 := n\<rparr>, True)
                 else (d\<lparr>ht1 := n, rehashidx := 0\<rparr>, True))"

definition dictResize :: "bool \<Rightarrow> ('k, 'v) dict \<Rightarrow> ('k, 'v) dict \<times> bool" where
  "dictResize can_resize d =
     (if \<not> can_resize \<or> dictIsRehashing d then (d, False)
      else let minimal = s32 (int (used (ht0 d)));
               minimal = (if minimal < int DICT_HT_INITIAL_SIZE then int DICT_HT_INITIAL_SIZE else minimal)
           in dictExpand d (u64 minimal))"

definition dictExpandIfNeeded :: "bool \<Rightarrow> ('k, 'v) dict \<Rightarrow> ('k, 'v) dict \<times> bool" where
  "dictExpandIfNeeded can_resize d =
     (if dictIsRehashing d then (d, True)
      else if ht_size (ht0 d) = 0 then dictExpand d DICT_HT_INITIAL_SIZE
      else if used (ht0 d) \<ge> ht_size (ht0 d)
              \<and> (can_resize \<or> used (ht0 d) div ht_size (ht0 d) > dict_force_resize_ratio)
      then dictExpand d (u64 (int (used (ht0 d)) * 2))
      else (d, True))"

subsection \<open>Incremental rehashing\<close>

text \<open>\<open>while (table[rehashidx] == NULL) rehashidx++\<close>\<close>

function skip_empty :: "('k, 'v) chain list \<Rightarrow> int \<Rightarrow> int option" where
  "skip_empty tab i =
     (if i < 0 \<or> i \<ge> int (length tab) then None
      else if tab ! nat i \<noteq> [] then Some i
      else if i < 2 ^ 31 - 1 then skip_empty tab (i + 1) else None)"
  by pat_completeness auto
termination
  by (relation "measure (\<lambda>(tab, i). nat (int (length tab) - i))") auto

declare skip_empty.simps [simp del]

text \<open>The loop over one chain: every entry goes in front of its new chain.\<close>

fun move_chain :: "'k dictType \<Rightarrow> ('k, 'v) chain \<Rightarrow> ('k, 'v) dictht \<Rightarrow> ('k, 'v) dictht \<Rightarrow>
    (('k, 'v) dictht \<times> ('k, 'v) dictht) option" where
  "move_chain T [] t0 t1 = Some (t0, t1)"
| "move_chain T (de # nextde) t0 t1 =
     (let h = hashFunction T (fst de) AND sizemask t1
      in case bucket t1 h of
           None \<Rightarrow> None
         | Some ch \<Rightarrow>
             move_chain T nextde (t0\<lparr>used := decr (used t0)\<rparr>)
               (t1\<lparr>table := (table t1)[h := de # ch], used := used t1 + 1\<rparr>))"

text \<open>\<open>dictRehash\<close> returns \<open>True\<close> for 1: there is more to move.\<close>

fun rehash_loop :: "nat \<Rightarrow> ('k, 'v) dict \<Rightarrow> (('k, 'v) dict \<times> bool) option" where
  "rehash_loop 0 d = Some (d, True)"
| "rehash_loop (Suc n) d =
     (if used (ht0 d) = 0 then
        Some (d\<lparr>ht0 := ht1 d, ht1 := dictReset, rehashidx := - 1\<rparr>, False)
      else if \<not> ht_size (ht0 d) > u32 (rehashidx d) then None
      else case skip_empty (table (ht0 d)) (rehashidx d) of
             None \<Rightarrow> None
           | Some i \<Rightarrow>
               (case (move_chain (d_type d) (table (ht0 d) ! nat i) (ht0 d) (ht1 d), int_incr i) of
                  (Some (t0, t1), Some i') \<Rightarrow>
                    rehash_loop n (d\<lparr>ht0 := t0\<lparr>table := (table t0)[nat i := []]\<rparr>, ht1 := t1,
                                    rehashidx := i'\<rparr>)
                | _ \<Rightarrow> None))"

text \<open>
  \<open>while (n--)\<close>: a negative \<open>n\<close> goes down to the least \<open>int\<close>, whose decrement overflows
  unless the rehash has ended before.
\<close>

definition dictRehash :: "('k, 'v) dict \<Rightarrow> int \<Rightarrow> (('k, 'v) dict \<times> bool) option" where
  "dictRehash d n =
     (if \<not> dictIsRehashing d then Some (d, False)
      else if 0 \<le> n then rehash_loop (nat n) d
      else case rehash_loop (nat (n + 2 ^ 31)) d of
             Some (d, False) \<Rightarrow> Some (d, False)
           | _ \<Rightarrow> None)"

definition dictRehashStep :: "('k, 'v) dict \<Rightarrow> ('k, 'v) dict option" where
  "dictRehashStep d = (if iterators d = 0 then map_option fst (dictRehash d 1) else Some d)"

text \<open>\<open>if (dictIsRehashing(d)) _dictRehashStep(d)\<close>, the first step of most operations.\<close>

definition step_if_rehashing :: "('k, 'v) dict \<Rightarrow> ('k, 'v) dict option" where
  "step_if_rehashing d = (if dictIsRehashing d then dictRehashStep d else Some d)"

subsection \<open>Search, insertion, deletion\<close>

text \<open>The position of the first entry of a chain whose key compares equal.\<close>

fun chain_find :: "'k dictType \<Rightarrow> 'k \<Rightarrow> ('k, 'v) chain \<Rightarrow> nat option" where
  "chain_find T key [] = None"
| "chain_find T key (he # ch) =
     (if keyCompare T key (fst he) then Some 0 else map_option Suc (chain_find T key ch))"

text \<open>
  The loop over the tables 0 and 1 that searching, adding and deleting share: the place of the key,
  or the last bucket index looked at.
\<close>

definition search_tables :: "('k, 'v) dict \<Rightarrow> 'k \<Rightarrow> (nat + entry_ref) option" where
  "search_tables d key =
     (let h = hashFunction (d_type d) key; i0 = h AND sizemask (ht0 d); i1 = h AND sizemask (ht1 d)
      in case bucket (ht0 d) i0 of
           None \<Rightarrow> None
         | Some ch \<Rightarrow>
             (case chain_find (d_type d) key ch of
                Some p \<Rightarrow> Some (Inr (0, i0, p))
              | None \<Rightarrow>
                  if \<not> dictIsRehashing d then Some (Inl i0)
                  else case bucket (ht1 d) i1 of
                         None \<Rightarrow> None
                       | Some ch \<Rightarrow>
                           (case chain_find (d_type d) key ch of
                              Some p \<Rightarrow> Some (Inr (1, i1, p))
                            | None \<Rightarrow> Some (Inl i1))))"

definition dictFind :: "('k, 'v) dict \<Rightarrow> 'k \<Rightarrow> (('k, 'v) dict \<times> entry_ref option) option" where
  "dictFind d key =
     (if ht_size (ht0 d) = 0 then Some (d, None)
      else case step_if_rehashing d of
             None \<Rightarrow> None
           | Some d \<Rightarrow>
               (case search_tables d key of
                  None \<Rightarrow> None
                | Some (Inl _) \<Rightarrow> Some (d, None)
                | Some (Inr e) \<Rightarrow> Some (d, Some e)))"

definition get_entry :: "('k, 'v) dict \<Rightarrow> entry_ref \<Rightarrow> ('k \<times> 'v) option" where
  "get_entry d e =
     (case e of (t, i, p) \<Rightarrow>
        (case bucket (get_ht d t) i of
           None \<Rightarrow> None
         | Some ch \<Rightarrow> if p < length ch then Some (ch ! p) else None))"

definition dictSetVal :: "('k, 'v) dict \<Rightarrow> entry_ref \<Rightarrow> 'v \<Rightarrow> ('k, 'v) dict option" where
  "dictSetVal d e v =
     (case e of (t, i, p) \<Rightarrow>
        (case bucket (get_ht d t) i of
           None \<Rightarrow> None
         | Some ch \<Rightarrow>
             if p < length ch then
               Some (set_ht d t ((get_ht d t)
                 \<lparr>table := (table (get_ht d t))[i := ch[p := (fst (ch ! p), v)]]\<rparr>))
             else None))"

definition dictFetchValue :: "('k, 'v) dict \<Rightarrow> 'k \<Rightarrow> (('k, 'v) dict \<times> 'v option) option" where
  "dictFetchValue d key =
     (case dictFind d key of
        None \<Rightarrow> None
      | Some (d, None) \<Rightarrow> Some (d, None)
      | Some (d, Some e) \<Rightarrow>
          (case get_entry d e of None \<Rightarrow> None | Some he \<Rightarrow> Some (d, Some (snd he))))"

text \<open>The result -1: the table could not be expanded, or the key exists. \<open>idx\<close> is returned as an \<open>int\<close>.\<close>

definition dictKeyIndex ::
  "bool \<Rightarrow> ('k, 'v) dict \<Rightarrow> 'k \<Rightarrow> (('k, 'v) dict \<times> int) option" where
  "dictKeyIndex can_resize d key =
     (case dictExpandIfNeeded can_resize d of
        (d, False) \<Rightarrow> Some (d, - 1)
      | (d, True) \<Rightarrow>
          (case search_tables d key of
             None \<Rightarrow> None
           | Some (Inl idx) \<Rightarrow> Some (d, s32 (int idx))
           | Some (Inr _) \<Rightarrow> Some (d, - 1)))"

text \<open>The value of the new entry is what its memory holds until \<open>dictSetVal\<close>: \<open>garbage\<close>.\<close>

definition dictAddRaw ::
  "bool \<Rightarrow> ('k, 'v) dict \<Rightarrow> 'k \<Rightarrow> 'v \<Rightarrow> (('k, 'v) dict \<times> entry_ref option) option" where
  "dictAddRaw can_resize d key garbage =
     (case step_if_rehashing d of
        None \<Rightarrow> None
      | Some d \<Rightarrow>
          (case dictKeyIndex can_resize d key of
             None \<Rightarrow> None
           | Some (d, index) \<Rightarrow>
               if index = - 1 then Some (d, None)
               else if index < 0 then None
               else let t = (if dictIsRehashing d then 1 else 0); ht = get_ht d t
                    in case bucket ht (nat index) of
                         None \<Rightarrow> None
                       | Some ch \<Rightarrow>
                           Some (set_ht d t (ht\<lparr>table := (table ht)[nat index := (key, garbage) # ch],
                                                used := used ht + 1\<rparr>),
                                 Some (t, nat index, 0))))"

definition dictAdd :: "bool \<Rightarrow> 'v \<Rightarrow> ('k, 'v) dict \<Rightarrow> 'k \<Rightarrow> 'v \<Rightarrow> (('k, 'v) dict \<times> bool) option" where
  "dictAdd can_resize garbage d key val =
     (case dictAddRaw can_resize d key garbage of
        None \<Rightarrow> None
      | Some (d, None) \<Rightarrow> Some (d, False)
      | Some (d, Some entry) \<Rightarrow>
          (case dictSetVal d entry val of None \<Rightarrow> None | Some d \<Rightarrow> Some (d, True)))"

text \<open>\<open>True\<close> is the result 1: the key was added.\<close>

definition dictReplace ::
  "bool \<Rightarrow> 'v \<Rightarrow> ('k, 'v) dict \<Rightarrow> 'k \<Rightarrow> 'v \<Rightarrow> (('k, 'v) dict \<times> bool) option" where
  "dictReplace can_resize garbage d key val =
     (case dictAdd can_resize garbage d key val of
        None \<Rightarrow> None
      | Some (d, True) \<Rightarrow> Some (d, True)
      | Some (d, False) \<Rightarrow>
          (case dictFind d key of
             Some (d, Some entry) \<Rightarrow>
               (case dictSetVal d entry val of None \<Rightarrow> None | Some d \<Rightarrow> Some (d, False))
           | _ \<Rightarrow> None))"

definition dictReplaceRaw ::
  "bool \<Rightarrow> 'v \<Rightarrow> ('k, 'v) dict \<Rightarrow> 'k \<Rightarrow> (('k, 'v) dict \<times> entry_ref option) option" where
  "dictReplaceRaw can_resize garbage d key =
     (case dictFind d key of
        None \<Rightarrow> None
      | Some (d, Some entry) \<Rightarrow> Some (d, Some entry)
      | Some (d, None) \<Rightarrow> dictAddRaw can_resize d key garbage)"

text \<open>\<open>True\<close> is \<open>DICT_OK\<close>: the key was found and its entry unlinked.\<close>

definition dictGenericDelete :: "('k, 'v) dict \<Rightarrow> 'k \<Rightarrow> (('k, 'v) dict \<times> bool) option" where
  "dictGenericDelete d key =
     (if ht_size (ht0 d) = 0 then Some (d, False)
      else case step_if_rehashing d of
             None \<Rightarrow> None
           | Some d \<Rightarrow>
               (case search_tables d key of
                  None \<Rightarrow> None
                | Some (Inl _) \<Rightarrow> Some (d, False)
                | Some (Inr (t, i, p)) \<Rightarrow>
                    let ht = get_ht d t; ch = table ht ! i
                    in Some (set_ht d t (ht\<lparr>table := (table ht)[i := take p ch @ drop (p + 1) ch],
                                            used := decr (used ht)\<rparr>), True)))"

definition dictDelete :: "('k, 'v) dict \<Rightarrow> 'k \<Rightarrow> (('k, 'v) dict \<times> bool) option" where
  "dictDelete d key = dictGenericDelete d key"

definition dictDeleteNoFree :: "('k, 'v) dict \<Rightarrow> 'k \<Rightarrow> (('k, 'v) dict \<times> bool) option" where
  "dictDeleteNoFree d key = dictGenericDelete d key"

text \<open>
  \<open>_dictClear\<close>: the entries handed to the destructors, in order, until the count is used up. The
  callback only yields to the caller's event loop.
\<close>

fun clear_chain :: "('k, 'v) chain \<Rightarrow> nat \<Rightarrow> nat" where
  "clear_chain [] u = u"
| "clear_chain (he # ch) u = clear_chain ch (decr u)"

fun clear_loop :: "('k, 'v) chain list \<Rightarrow> nat \<Rightarrow> ('k \<times> 'v) list" where
  "clear_loop [] u = []"
| "clear_loop (ch # tab) u = (if u > 0 then ch @ clear_loop tab (clear_chain ch u) else [])"

definition dictClear :: "('k, 'v) dictht \<Rightarrow> ('k \<times> 'v) list \<times> ('k, 'v) dictht" where
  "dictClear ht = (clear_loop (table ht) (used ht), dictReset)"

definition dictRelease :: "('k, 'v) dict \<Rightarrow> ('k \<times> 'v) list" where
  "dictRelease d = fst (dictClear (ht0 d)) @ fst (dictClear (ht1 d))"

definition dictEmpty :: "('k, 'v) dict \<Rightarrow> ('k, 'v) dict" where
  "dictEmpty d =
     d\<lparr>ht0 := snd (dictClear (ht0 d)), ht1 := snd (dictClear (ht1 d)), rehashidx := - 1,
       iterators := 0\<rparr>"

end
