(* ===== verification/Dict_Map.thy ===== *)
theory Dict_Map
  imports Dict
begin

unbundle bit_operations_syntax

text \<open>
  The hash table as a map. \<open>dict_ok\<close> is the invariant: both tables have a power of two buckets
  (or none), every entry is in the bucket of its hash, the counters count, no key occurs twice in the
  two tables together, and while a rehash is in progress the buckets of the old table before
  \<open>rehashidx\<close> are empty. Every operation keeps it, and does to the map \<open>dict_map\<close> what its name
  says, at any stage of a rehash.
\<close>

subsection \<open>The invariant\<close>

definition dict_type_ok :: "'k dictType \<Rightarrow> bool" where
  "dict_type_ok T \<longleftrightarrow> (\<forall>a b. keyCompare T a b = (a = b))"

text \<open>The bucket of a key.\<close>

definition home :: "'k dictType \<Rightarrow> ('k, 'v) dictht \<Rightarrow> 'k \<Rightarrow> nat" where
  "home T ht k = hashFunction T k AND sizemask ht"

definition ht_ok :: "'k dictType \<Rightarrow> ('k, 'v) dictht \<Rightarrow> bool" where
  "ht_ok T ht \<longleftrightarrow>
     ht_size ht = length (table ht) \<and> used ht = length (concat (table ht))
     \<and> (table ht = [] \<or> (\<exists>k. length (table ht) = 2 ^ k)) \<and> sizemask ht = length (table ht) - 1
     \<and> (\<forall>i < length (table ht). \<forall>k v. (k, v) \<in> set (table ht ! i) \<longrightarrow> home T ht k = i)"

definition dict_entries :: "('k, 'v) dict \<Rightarrow> ('k \<times> 'v) list" where
  "dict_entries d = concat (table (ht0 d)) @ concat (table (ht1 d))"

definition dict_ok :: "('k, 'v) dict \<Rightarrow> bool" where
  "dict_ok d \<longleftrightarrow>
     dict_type_ok (d_type d) \<and> ht_ok (d_type d) (ht0 d) \<and> ht_ok (d_type d) (ht1 d)
     \<and> distinct (map fst (dict_entries d))
     \<and> (if rehashidx d = - 1 then table (ht1 d) = []
        else 0 \<le> rehashidx d \<and> table (ht0 d) \<noteq> [] \<and> table (ht1 d) \<noteq> []
           \<and> (\<forall>i < length (table (ht0 d)). int i < rehashidx d \<longrightarrow> table (ht0 d) ! i = []))"

definition dict_map :: "('k, 'v) dict \<Rightarrow> 'k \<Rightarrow> 'v option" where
  "dict_map d = map_of (dict_entries d)"

definition dict_room :: "('k, 'v) dict \<Rightarrow> bool" where
  "dict_room d \<longleftrightarrow> dictSize d < 2 ^ 29"

text \<open>Tables whose indices are \<open>int\<close>s, which the operations that rehash or add keys need.\<close>

definition dict_small :: "('k, 'v) dict \<Rightarrow> bool" where
  "dict_small d \<longleftrightarrow> ht_size (ht0 d) \<le> 2 ^ 30 \<and> ht_size (ht1 d) \<le> 2 ^ 30"

definition dict_inv :: "('k, 'v) dict \<Rightarrow> bool" where
  "dict_inv d \<longleftrightarrow> dict_ok d \<and> dict_small d"

named_theorems ht_intros \<open>well-formed tables\<close>

lemma and_mask: "(h :: nat) AND (2 ^ k - 1) = h mod 2 ^ k"
  using take_bit_eq_mask [of k h] by (simp add: take_bit_eq_mod mask_eq_exp_minus_1)

lemma ht_index_less:
  assumes "ht_ok T ht" and "table ht \<noteq> []"
  shows "home T ht k < length (table ht)"
proof -
  obtain n where "length (table ht) = 2 ^ n" "sizemask ht = 2 ^ n - 1"
    using assms by (auto simp: ht_ok_def)
  then show ?thesis by (simp only: home_def and_mask) simp
qed

lemma home_update [simp]: "home T (ht\<lparr>table := t, used := u\<rparr>) k = home T ht k"
  by (simp add: home_def)

lemma ht_ok_reset [simp]: "ht_ok T dictReset"
  by (simp add: ht_ok_def dictReset_def)

lemma table_reset [simp]: "table dictReset = []" "ht_size dictReset = 0" "used dictReset = 0"
  by (simp_all add: dictReset_def)

lemma mset_concat_update:
  "i < length xss \<Longrightarrow> mset (concat (xss[i := c])) + mset (xss ! i) = mset (concat xss) + mset c"
proof (induction xss arbitrary: i)
  case (Cons xs xss)
  then show ?case by (cases i) (auto simp: ac_simps)
qed simp

lemma mset_concat_update':
  "i < length xss \<Longrightarrow> mset (xss ! i) \<subseteq># mset (concat xss)"
  using mset_concat_update [of i xss "[]"] by (metis add_0_right mset.simps(1) mset_subset_eq_add_right)

lemma length_concat_update:
  assumes "i < length xss"
  shows "length (concat (xss[i := c])) + length (xss ! i) = length (concat xss) + length c"
  using arg_cong [OF mset_concat_update [OF assms, of c], of size] by simp

text \<open>Replacing one chain by another of the same bucket.\<close>

lemma ht_ok_update [ht_intros]:
  assumes "ht_ok T ht" and "i < length (table ht)"
    and "\<forall>k v. (k, v) \<in> set c \<longrightarrow> home T ht k = i"
    and "u + length (table ht ! i) = used ht + length c"
  shows "ht_ok T (ht\<lparr>table := (table ht)[i := c], used := u\<rparr>)"
  using assms length_concat_update [OF assms(2), of c]
  by (auto simp: ht_ok_def nth_list_update)

lemma ht_ok_entry:
  assumes "ht_ok T ht" and "table ht \<noteq> []"
  shows "(k, v) \<in> set (concat (table ht)) \<longleftrightarrow> (k, v) \<in> set (table ht ! home T ht k)"
proof
  assume "(k, v) \<in> set (concat (table ht))"
  then obtain i where "i < length (table ht)" "(k, v) \<in> set (table ht ! i)"
    by (auto simp: in_set_conv_nth [of _ "table ht"])
  with assms(1) show "(k, v) \<in> set (table ht ! home T ht k)" by (auto simp: ht_ok_def)
next
  assume "(k, v) \<in> set (table ht ! home T ht k)"
  then show "(k, v) \<in> set (concat (table ht))"
    using ht_index_less [OF assms, of k] by (auto intro!: bexI nth_mem)
qed

subsection \<open>Distinct keys\<close>

lemma map_of_eq_mset:
  assumes "mset xs = mset ys" and "distinct (map fst xs)"
  shows "map_of xs = map_of ys"
proof
  fix k
  have d: "distinct (map fst ys)" using assms by (metis mset_eq_imp_distinct_iff mset_map)
  have "\<And>v. map_of xs k = Some v \<longleftrightarrow> map_of ys k = Some v"
    using assms(1) map_of_eq_Some_iff [OF assms(2)] map_of_eq_Some_iff [OF d] mset_eq_setD by metis
  then show "map_of xs k = map_of ys k" by (metis not_Some_eq)
qed

lemma distinct_fst_mset:
  "mset xs = mset ys \<Longrightarrow> distinct (map fst xs) = distinct (map fst ys)"
  by (metis mset_eq_imp_distinct_iff mset_map)

lemma dict_map_mset:
  assumes "mset (dict_entries d) = mset (dict_entries d')" and "distinct (map fst (dict_entries d))"
  shows "dict_map d' = dict_map d"
  using map_of_eq_mset [OF assms] by (simp add: dict_map_def)

lemma dict_map_Some: "dict_ok d \<Longrightarrow> dict_map d k = Some v \<longleftrightarrow> (k, v) \<in> set (dict_entries d)"
  by (simp add: dict_map_def dict_ok_def)

lemma dict_map_None: "dict_map d k = None \<longleftrightarrow> k \<notin> fst ` set (dict_entries d)"
  by (simp add: dict_map_def map_of_eq_None_iff)

lemma dict_size_entries: "dict_ok d \<Longrightarrow> dictSize d = length (dict_entries d)"
  by (simp add: dict_ok_def ht_ok_def dictSize_def dict_entries_def)

subsection \<open>Rehashing\<close>

lemma decr_pos [simp]: "0 < n \<Longrightarrow> decr n = n - 1"
  by (simp add: decr_def)

lemma bucket_Some [simp]: "i < length (table ht) \<Longrightarrow> bucket ht i = Some (table ht ! i)"
  by (simp add: bucket_def)

lemma skip_empty_spec:
  "0 \<le> i \<Longrightarrow> i \<le> int j \<Longrightarrow> j < length tab \<Longrightarrow> length tab \<le> 2 ^ 30 \<Longrightarrow> tab ! j \<noteq> [] \<Longrightarrow>
   \<exists>r. skip_empty tab i = Some (int r) \<and> nat i \<le> r \<and> r \<le> j \<and> tab ! r \<noteq> [] \<and> (\<forall>m. nat i \<le> m \<longrightarrow> m < r \<longrightarrow> tab ! m = [])"
proof (induction tab i rule: skip_empty.induct)
  case (1 tab i)
  note rec = skip_empty.simps [of tab i]
  have i: "\<not> (i < 0 \<or> i \<ge> int (length tab))" "i < 2 ^ 31 - 1" using "1.prems" by auto
  show ?case
  proof (cases "tab ! nat i = []")
    case True
    then have "i + 1 \<le> int j" using "1.prems" by (cases "i = int j") auto
    with "1.IH" [OF i(1) _ i(2)] "1.prems" True obtain r where
      r: "skip_empty tab (i + 1) = Some (int r)" "nat (i + 1) \<le> r" "r \<le> j" "tab ! r \<noteq> []"
      "\<forall>m. nat (i + 1) \<le> m \<longrightarrow> m < r \<longrightarrow> tab ! m = []" by auto
    have "tab ! m = []" if "nat i \<le> m" "m < r" for m
      using True r(5) that "1.prems"(1) by (cases "m = nat i") auto
    moreover have "skip_empty tab i = skip_empty tab (i + 1)" using rec True i by simp
    ultimately show ?thesis using r by (intro exI [of _ r]) auto
  next
    case False
    then have "skip_empty tab i = Some (int (nat i))" using rec i by simp
    then show ?thesis using False "1.prems" by (intro exI [of _ "nat i"]) auto
  qed
qed

lemma move_chain_spec:
  assumes "ht_ok T t1" and "table t1 \<noteq> []" and "length ch \<le> used t0"
  shows "\<exists>t1'. move_chain T ch t0 t1 = Some (t0\<lparr>used := used t0 - length ch\<rparr>, t1') \<and> ht_ok T t1'
    \<and> length (table t1') = length (table t1)
    \<and> mset (concat (table t1')) = mset ch + mset (concat (table t1))"
  using assms
proof (induction ch arbitrary: t0 t1)
  case (Cons de ch)
  let ?h = "home T t1 (fst de)"
  have h: "?h < length (table t1)" using Cons.prems by (intro ht_index_less)
  let ?t1 = "t1\<lparr>table := (table t1)[?h := de # table t1 ! ?h], used := used t1 + 1\<rparr>"
  let ?t0 = "t0\<lparr>used := used t0 - 1\<rparr>"
  have ok: "ht_ok T ?t1"
    using Cons.prems(1) h
    by (intro ht_ok_update) (cases de; auto simp: ht_ok_def)+
  have ne: "table ?t1 \<noteq> []" "length ch \<le> used ?t0" using Cons.prems by auto
  from Cons.IH [OF ok ne] obtain t1' where t1':
    "move_chain T ch ?t0 ?t1 = Some (?t0\<lparr>used := used ?t0 - length ch\<rparr>, t1')" "ht_ok T t1'"
    "length (table t1') = length (table ?t1)"
    "mset (concat (table t1')) = mset ch + mset (concat (table ?t1))" by blast
  have "mset (concat (table ?t1)) = add_mset de (mset (concat (table t1)))"
    using mset_concat_update [OF h, of "de # table t1 ! ?h"] by simp
  with t1' h Cons.prems(3) show ?case by (simp add: Let_def home_def)
qed simp

lemma dict_okI_rehash:
  assumes "dict_ok d" and "mset (dict_entries d') = mset (dict_entries d)"
    and "d_type d' = d_type d" and "ht_ok (d_type d) (ht0 d')" and "ht_ok (d_type d) (ht1 d')"
    and "if rehashidx d' = - 1 then table (ht1 d') = []
        else 0 \<le> rehashidx d' \<and> table (ht0 d') \<noteq> [] \<and> table (ht1 d') \<noteq> []
           \<and> (\<forall>i < length (table (ht0 d')). int i < rehashidx d' \<longrightarrow> table (ht0 d') ! i = [])"
  shows "dict_ok d' \<and> dict_map d' = dict_map d"
proof -
  have "distinct (map fst (dict_entries d'))"
    using assms(1,2) distinct_fst_mset unfolding dict_ok_def by blast
  moreover from this have "dict_map d' = dict_map d"
    using assms(2) dict_map_mset by metis
  ultimately show ?thesis using assms unfolding dict_ok_def by auto
qed

lemma u32_le: "0 \<le> x \<Longrightarrow> u32 x \<le> nat x"
  by (simp add: u32_def nat_le_iff zmod_le_nonneg_dividend nat_mono)

lemma rehash_loop_spec:
  assumes "dict_ok d" and "rehashidx d \<noteq> - 1" and "dict_small d"
  shows "\<exists>d' more. rehash_loop n d = Some (d', more) \<and> dict_ok d' \<and> dict_map d' = dict_map d
    \<and> mset (dict_entries d') = mset (dict_entries d) \<and> d_type d' = d_type d
    \<and> iterators d' = iterators d \<and> more = dictIsRehashing d'
    \<and> (dictIsRehashing d' \<longrightarrow> used (ht0 d') + n \<le> used (ht0 d) \<and> ht_size (ht0 d') = ht_size (ht0 d)
         \<and> ht_size (ht1 d') = ht_size (ht1 d))
    \<and> (\<not> dictIsRehashing d' \<longrightarrow> ht_size (ht0 d') = ht_size (ht1 d))"
  using assms
proof (induction n arbitrary: d)
  case 0
  then show ?case by (simp add: dictIsRehashing_def)
next
  case (Suc n)
  have inv: "dict_type_ok (d_type d)" "ht_ok (d_type d) (ht0 d)" "ht_ok (d_type d) (ht1 d)"
    "distinct (map fst (dict_entries d))"
    "0 \<le> rehashidx d" "table (ht0 d) \<noteq> []" "table (ht1 d) \<noteq> []"
    "\<forall>i < length (table (ht0 d)). int i < rehashidx d \<longrightarrow> table (ht0 d) ! i = []"
    using Suc.prems by (auto simp: dict_ok_def)
  show ?case
  proof (cases "used (ht0 d) = 0")
    case True
    let ?d = "d\<lparr>ht0 := ht1 d, ht1 := dictReset, rehashidx := - 1\<rparr>"
    have e: "concat (table (ht0 d)) = []" using True inv(2) by (simp add: ht_ok_def)
    then have m: "mset (dict_entries ?d) = mset (dict_entries d)"
      unfolding dict_entries_def e by simp
    have "dict_ok ?d \<and> dict_map ?d = dict_map d"
      by (rule dict_okI_rehash [OF Suc.prems(1) m]) (use inv in simp_all)
    with m True show ?thesis by (simp add: dictIsRehashing_def)
  next
    case False
    then obtain j where j: "j < length (table (ht0 d))" "table (ht0 d) ! j \<noteq> []"
      using inv(2) by (auto simp: ht_ok_def in_set_conv_nth)
    have rj: "nat (rehashidx d) \<le> j"
    proof (rule ccontr)
      assume "\<not> nat (rehashidx d) \<le> j"
      then have "int j < rehashidx d" by linarith
      with inv(8) j show False by blast
    qed
    have small: "length (table (ht0 d)) \<le> 2 ^ 30" using Suc.prems(3) inv(2) by (simp add: dict_small_def ht_ok_def)
    have rj': "rehashidx d \<le> int j" using rj by linarith
    obtain i where i: "skip_empty (table (ht0 d)) (rehashidx d) = Some (int i)"
      "nat (rehashidx d) \<le> i" "i \<le> j" "table (ht0 d) ! i \<noteq> []"
      "\<forall>m. nat (rehashidx d) \<le> m \<longrightarrow> m < i \<longrightarrow> table (ht0 d) ! m = []"
      using skip_empty_spec [OF inv(5) rj' j(1) small j(2)] by blast
    then have il: "i < length (table (ht0 d))" using j(1) by simp
    have assertion: "ht_size (ht0 d) > u32 (rehashidx d)"
      using u32_le [OF inv(5)] rj j(1) inv(2) by (simp add: ht_ok_def)
    let ?ch = "table (ht0 d) ! i"
    have cu: "length ?ch \<le> used (ht0 d)"
      using length_concat_update [OF il, of "[]"] inv(2) by (simp add: ht_ok_def)
    obtain t1 where mv: "move_chain (d_type d) ?ch (ht0 d) (ht1 d)
        = Some ((ht0 d)\<lparr>used := used (ht0 d) - length ?ch\<rparr>, t1)" "ht_ok (d_type d) t1"
      "length (table t1) = length (table (ht1 d))"
      "mset (concat (table t1)) = mset ?ch + mset (concat (table (ht1 d)))"
      using move_chain_spec [OF inv(3,7) cu] by blast
    let ?t0 = "(ht0 d)\<lparr>table := (table (ht0 d))[i := []], used := used (ht0 d) - length ?ch\<rparr>"
    let ?d = "d\<lparr>ht0 := ?t0, ht1 := t1, rehashidx := int i + 1\<rparr>"
    have t0: "ht_ok (d_type d) ?t0"
      using ht_ok_update [OF inv(2) il, of "[]" "used (ht0 d) - length ?ch"] cu by simp
    have m: "mset (dict_entries ?d) = mset (dict_entries d)"
      using mset_concat_update [OF il, of "[]"] mv(4) by (simp add: dict_entries_def)
    have "\<forall>k < length (table ?t0). int k < int i + 1 \<longrightarrow> table ?t0 ! k = []"
    proof (intro allI impI)
      fix k assume k: "k < length (table ?t0)" "int k < int i + 1"
      then consider "k = i" | "k < i" "nat (rehashidx d) \<le> k" | "int k < rehashidx d" "k \<noteq> i"
        by linarith
      then show "table ?t0 ! k = []"
        using k(1) i(5) inv(8) by cases auto
    qed
    then have ok: "dict_ok ?d \<and> dict_map ?d = dict_map d"
      by (intro dict_okI_rehash [OF Suc.prems(1) m]) (use inv mv t0 in auto)
    have swap: "(ht0 d)\<lparr>used := u, table := t\<rparr> = (ht0 d)\<lparr>table := t, used := u\<rparr>" for u t
      by simp
    have "int_incr (int i) = Some (int i + 1)" using il small by (simp add: int_incr_def)
    then have step: "rehash_loop (Suc n) d = rehash_loop n ?d"
      using False assertion i(1) mv(1) by (simp add: swap)
    have "rehashidx ?d \<noteq> - 1" by simp
    moreover have "dict_small ?d" using Suc.prems(3) t0 mv(2,3) inv(2,3) by (simp add: dict_small_def ht_ok_def)
    ultimately obtain d' more where IH:
      "rehash_loop n ?d = Some (d', more)" "dict_ok d'" "dict_map d' = dict_map ?d"
      "mset (dict_entries d') = mset (dict_entries ?d)" "d_type d' = d_type ?d"
      "iterators d' = iterators ?d" "more = dictIsRehashing d'"
      "dictIsRehashing d' \<longrightarrow> used (ht0 d') + n \<le> used (ht0 ?d) \<and> ht_size (ht0 d') = ht_size (ht0 ?d)
         \<and> ht_size (ht1 d') = ht_size (ht1 ?d)"
      "\<not> dictIsRehashing d' \<longrightarrow> ht_size (ht0 d') = ht_size (ht1 ?d)"
      using Suc.IH [OF conjunct1 [OF ok]] by blast
    have "1 \<le> length ?ch" using i(4) by (simp add: Suc_leI)
    moreover have "ht_size t1 = ht_size (ht1 d)" using mv(2,3) inv(3) by (simp add: ht_ok_def)
    ultimately show ?thesis using IH ok m cu unfolding step by auto
  qed
qed

lemma dict_ok_not_rehashing:
  "dict_ok d \<Longrightarrow> table (ht0 d) = [] \<Longrightarrow> \<not> dictIsRehashing d \<and> dict_entries d = [] \<and> table (ht1 d) = []"
  by (auto simp: dict_ok_def dictIsRehashing_def dict_entries_def split: if_splits)

lemma dict_ok_ht1_empty: "dict_ok d \<Longrightarrow> \<not> dictIsRehashing d \<Longrightarrow> table (ht1 d) = []"
  by (simp add: dict_ok_def dictIsRehashing_def)

lemma dict_okD:
  assumes "dict_ok d"
  shows "dict_type_ok (d_type d)" "ht_ok (d_type d) (ht0 d)" "ht_ok (d_type d) (ht1 d)"
    "distinct (map fst (dict_entries d))"
    "dictIsRehashing d \<Longrightarrow> table (ht0 d) \<noteq> [] \<and> table (ht1 d) \<noteq> []"
  using assms by (auto simp: dict_ok_def dictIsRehashing_def split: if_splits)

lemma dict_invD: "dict_inv d \<Longrightarrow> dict_ok d" "dict_inv d \<Longrightarrow> dict_small d"
  by (simp_all add: dict_inv_def)

lemma rehash_small:
  assumes "dict_ok d'" and "dict_small d"
    and "dictIsRehashing d' \<longrightarrow> ht_size (ht0 d') = ht_size (ht0 d) \<and> ht_size (ht1 d') = ht_size (ht1 d)"
    and "\<not> dictIsRehashing d' \<longrightarrow> ht_size (ht0 d') = ht_size (ht1 d)"
  shows "dict_small d'"
proof (cases "dictIsRehashing d'")
  case False
  then have "ht_size (ht1 d') = 0" using dict_ok_ht1_empty [OF assms(1)] dict_okD(3) [OF assms(1)] by (simp add: ht_ok_def)
  then show ?thesis using False assms(2,4) by (simp add: dict_small_def)
qed (use assms in \<open>simp add: dict_small_def\<close>)

lemma step_if_rehashing_spec:
  assumes "dict_inv d"
  shows "\<exists>d'. step_if_rehashing d = Some d' \<and> dict_inv d' \<and> dict_map d' = dict_map d
    \<and> mset (dict_entries d') = mset (dict_entries d) \<and> d_type d' = d_type d
    \<and> (table (ht0 d') = [] \<longleftrightarrow> table (ht0 d) = [])"
proof (cases "dictIsRehashing d \<and> iterators d = 0")
  case True
  then have r: "rehashidx d \<noteq> - 1" by (simp add: dictIsRehashing_def)
  obtain d' more where R: "rehash_loop 1 d = Some (d', more)" "dict_ok d'" "dict_map d' = dict_map d"
    "mset (dict_entries d') = mset (dict_entries d)" "d_type d' = d_type d"
    "dictIsRehashing d' \<longrightarrow> ht_size (ht0 d') = ht_size (ht0 d) \<and> ht_size (ht1 d') = ht_size (ht1 d)"
    "\<not> dictIsRehashing d' \<longrightarrow> ht_size (ht0 d') = ht_size (ht1 d)"
    using rehash_loop_spec [OF dict_invD(1) [OF assms] r dict_invD(2) [OF assms], of 1] by blast
  have "table (ht0 d') \<noteq> [] \<and> table (ht0 d) \<noteq> []"
    using dict_okD [OF dict_invD(1) [OF assms]] dict_okD(2) [OF R(2)] R(6,7) True
    by (cases "dictIsRehashing d'") (auto simp: ht_ok_def)
  moreover have "dict_inv d'" using rehash_small [OF R(2) dict_invD(2) [OF assms] R(6,7)] R(2) by (simp add: dict_inv_def)
  ultimately show ?thesis using R True by (simp add: step_if_rehashing_def dictRehashStep_def dictRehash_def)
next
  case False
  with assms show ?thesis by (auto simp: step_if_rehashing_def dictRehashStep_def)
qed

subsection \<open>Searching\<close>

lemma chain_find_Some:
  "dict_type_ok T \<Longrightarrow> chain_find T key ch = Some p \<Longrightarrow> p < length ch \<and> fst (ch ! p) = key"
  by (induction ch arbitrary: p) (auto simp: dict_type_ok_def split: if_splits)

lemma chain_find_None:
  "dict_type_ok T \<Longrightarrow> chain_find T key ch = None \<Longrightarrow> key \<notin> fst ` set ch"
  by (induction ch) (auto simp: dict_type_ok_def split: if_splits)

lemma not_in_table:
  assumes "ht_ok T ht" and "table ht \<noteq> []" and "key \<notin> fst ` set (table ht ! home T ht key)"
  shows "key \<notin> fst ` set (concat (table ht))"
proof
  assume "key \<in> fst ` set (concat (table ht))"
  then obtain he where "he \<in> set (concat (table ht))" "key = fst he" by blast
  then have "(key, snd he) \<in> set (concat (table ht))" by simp
  then have "(key, snd he) \<in> set (table ht ! home T ht key)"
    using ht_ok_entry [OF assms(1,2)] by blast
  with assms(3) show False by force
qed

text \<open>A place of the dictionary: a table in use, a bucket of it, a position in the chain.\<close>

definition valid_ref :: "('k, 'v) dict \<Rightarrow> entry_ref \<Rightarrow> 'k \<Rightarrow> bool" where
  "valid_ref d e key =
     (case e of (t, i, p) \<Rightarrow>
        (t = 0 \<or> (t = 1 \<and> dictIsRehashing d)) \<and> i < length (table (get_ht d t))
        \<and> p < length (table (get_ht d t) ! i) \<and> fst (table (get_ht d t) ! i ! p) = key)"

lemma search_tables_spec:
  assumes "dict_ok d" and "table (ht0 d) \<noteq> []"
  shows "(\<exists>e. search_tables d key = Some (Inr e) \<and> valid_ref d e key)
    \<or> (\<exists>i. search_tables d key = Some (Inl i) \<and> dict_map d key = None
         \<and> i = home (d_type d) (if dictIsRehashing d then ht1 d else ht0 d) key
         \<and> i < length (table (if dictIsRehashing d then ht1 d else ht0 d)))"
proof -
  let ?T = "d_type d"
  note D = dict_okD [OF assms(1)]
  let ?i0 = "home ?T (ht0 d) key" and ?i1 = "home ?T (ht1 d) key"
  have i0: "?i0 < length (table (ht0 d))" using D(2) assms(2) by (rule ht_index_less)
  have b0: "bucket (ht0 d) (hashFunction ?T key AND sizemask (ht0 d)) = Some (table (ht0 d) ! ?i0)"
    using i0 by (simp add: home_def)
  show ?thesis
  proof (cases "chain_find ?T key (table (ht0 d) ! ?i0)")
    case (Some p)
    with chain_find_Some [OF D(1) Some] i0 b0 show ?thesis
      by (simp add: search_tables_def Let_def valid_ref_def get_ht_def home_def)
  next
    case None
    have n0: "key \<notin> fst ` set (concat (table (ht0 d)))"
      using not_in_table [OF D(2) assms(2)] chain_find_None [OF D(1) None] by blast
    show ?thesis
    proof (cases "dictIsRehashing d")
      case False
      then have "dict_map d key = None"
        using n0 dict_ok_ht1_empty [OF assms(1)] by (simp add: dict_map_None dict_entries_def)
      with None False b0 i0 show ?thesis by (simp add: search_tables_def Let_def home_def)
    next
      case True
      have i1: "?i1 < length (table (ht1 d))" using D(3) D(5) [OF True] by (intro ht_index_less) auto
      have b1: "bucket (ht1 d) (hashFunction ?T key AND sizemask (ht1 d)) = Some (table (ht1 d) ! ?i1)"
        using i1 by (simp add: home_def)
      show ?thesis
      proof (cases "chain_find ?T key (table (ht1 d) ! ?i1)")
        case (Some p)
        with chain_find_Some [OF D(1) Some] i1 b0 b1 None True show ?thesis
          by (simp add: search_tables_def Let_def valid_ref_def get_ht_def home_def)
      next
        case None1: None
        have "key \<notin> fst ` set (concat (table (ht1 d)))"
          using not_in_table [OF D(3)] D(5) [OF True] chain_find_None [OF D(1) None1] by blast
        with n0 have "dict_map d key = None" by (simp add: dict_map_None dict_entries_def image_Un)
        with None None1 True b0 b1 i1 show ?thesis by (simp add: search_tables_def Let_def home_def)
      qed
    qed
  qed
qed

lemma valid_ref_entry:
  assumes "dict_ok d" and "valid_ref d e key"
  shows "\<exists>v. get_entry d e = Some (key, v) \<and> dict_map d key = Some v"
proof -
  obtain t i p where e: "e = (t, i, p)" by (cases e)
  let ?he = "table (get_ht d t) ! i ! p"
  have v: "i < length (table (get_ht d t))" "p < length (table (get_ht d t) ! i)" "fst ?he = key"
    using assms(2) by (auto simp: e valid_ref_def)
  then have "?he \<in> set (table (get_ht d t) ! i)" "table (get_ht d t) ! i \<in> set (table (get_ht d t))"
    by simp_all
  then have "?he \<in> set (dict_entries d)"
    by (auto simp: dict_entries_def get_ht_def split: if_splits)
  then have "(key, snd ?he) \<in> set (dict_entries d)" using v(3) by (metis prod.collapse)
  then have "dict_map d key = Some (snd ?he)" using dict_map_Some [OF assms(1)] by blast
  moreover have "get_entry d e = Some (key, snd ?he)"
    using v by (simp add: e get_entry_def prod_eq_iff)
  ultimately show ?thesis by blast
qed

lemma dictFind_spec:
  assumes "dict_inv d"
  shows "\<exists>d' r. dictFind d key = Some (d', r) \<and> dict_inv d' \<and> dict_map d' = dict_map d
    \<and> mset (dict_entries d') = mset (dict_entries d)
    \<and> (case r of None \<Rightarrow> dict_map d key = None | Some e \<Rightarrow> valid_ref d' e key)"
proof (cases "table (ht0 d) = []")
  case True
  then have "ht_size (ht0 d) = 0" using dict_okD(2) [OF dict_invD(1) [OF assms]] by (simp add: ht_ok_def)
  with True assms dict_ok_not_rehashing [OF dict_invD(1) [OF assms]] show ?thesis
    by (simp add: dictFind_def dict_map_def)
next
  case False
  then have n: "ht_size (ht0 d) \<noteq> 0" using dict_okD(2) [OF dict_invD(1) [OF assms]] by (simp add: ht_ok_def)
  obtain d' where S: "step_if_rehashing d = Some d'" "dict_inv d'" "dict_map d' = dict_map d"
    "mset (dict_entries d') = mset (dict_entries d)" "table (ht0 d') \<noteq> []"
    using step_if_rehashing_spec [OF assms] False by blast
  from search_tables_spec [OF dict_invD(1) [OF S(2)] S(5), of key] S n show ?thesis
    by (auto simp: dictFind_def)
qed

lemma dictFetchValue_spec:
  assumes "dict_inv d"
  shows "\<exists>d'. dictFetchValue d key = Some (d', dict_map d key) \<and> dict_inv d' \<and> dict_map d' = dict_map d"
proof -
  obtain d' r where F: "dictFind d key = Some (d', r)" "dict_inv d'" "dict_map d' = dict_map d"
    "case r of None \<Rightarrow> dict_map d key = None | Some e \<Rightarrow> valid_ref d' e key"
    using dictFind_spec [OF assms] by blast
  show ?thesis
  proof (cases r)
    case None
    with F show ?thesis by (simp add: dictFetchValue_def)
  next
    case (Some e)
    with F valid_ref_entry [OF dict_invD(1) [OF F(2)], of e key] show ?thesis by (auto simp: dictFetchValue_def)
  qed
qed

subsection \<open>Replacing a chain\<close>

lemma entries_add:
  assumes "mset ys = add_mset (k, v) (mset xs)" and "k \<notin> fst ` set xs" and "distinct (map fst xs)"
  shows "distinct (map fst ys) \<and> map_of ys = (map_of xs)(k \<mapsto> v)"
proof -
  have m: "mset ((k, v) # xs) = mset ys" using assms(1) by simp
  have "distinct (map fst ((k, v) # xs))" using assms(2,3) by simp
  from map_of_eq_mset [OF m this] distinct_fst_mset [OF m] this show ?thesis by simp
qed

lemma entries_remove:
  assumes "mset xs = add_mset (k, v) (mset ys)" and "distinct (map fst xs)"
  shows "distinct (map fst ys) \<and> k \<notin> fst ` set ys \<and> map_of ys = (map_of xs)(k := None)"
proof -
  have m: "mset xs = mset ((k, v) # ys)" using assms(1) by simp
  have d: "distinct (map fst ((k, v) # ys))" using distinct_fst_mset [OF m] assms(2) by simp
  then have "map_of ys k = None" by (simp add: map_of_eq_None_iff)
  with d map_of_eq_mset [OF m assms(2)] show ?thesis by (auto simp: fun_eq_iff)
qed

lemma entries_replace:
  assumes "mset xs = add_mset (k, u) M" and "mset ys = add_mset (k, v) M" and "distinct (map fst xs)"
  shows "distinct (map fst ys) \<and> map_of ys = (map_of xs)(k \<mapsto> v)"
proof -
  obtain zs where "mset zs = M" by (metis ex_mset)
  then have x: "mset xs = add_mset (k, u) (mset zs)" and y: "mset ys = add_mset (k, v) (mset zs)"
    using assms(1,2) by simp_all
  from entries_remove [OF x assms(3)]
  have z: "distinct (map fst zs)" "k \<notin> fst ` set zs" "map_of zs = (map_of xs)(k := None)" by auto
  from entries_add [OF y z(2,1)] z(3) show ?thesis by simp
qed

definition in_use :: "('k, 'v) dict \<Rightarrow> nat \<Rightarrow> bool" where
  "in_use d t \<longleftrightarrow> t = 0 \<or> (t = 1 \<and> dictIsRehashing d)"

definition put_chain :: "('k, 'v) dict \<Rightarrow> nat \<Rightarrow> nat \<Rightarrow> ('k, 'v) chain \<Rightarrow> nat \<Rightarrow> ('k, 'v) dict" where
  "put_chain d t i c u =
     set_ht d t ((get_ht d t)\<lparr>table := (table (get_ht d t))[i := c], used := u\<rparr>)"

lemma put_chain_get [simp]:
  "in_use d t \<Longrightarrow> get_ht (put_chain d t i c u) t
     = (get_ht d t)\<lparr>table := (table (get_ht d t))[i := c], used := u\<rparr>"
  "d_type (put_chain d t i c u) = d_type d"
  "rehashidx (put_chain d t i c u) = rehashidx d"
  "dictIsRehashing (put_chain d t i c u) = dictIsRehashing d"
  "in_use (put_chain d t i c u) s = in_use d s"
  by (auto simp: put_chain_def set_ht_def get_ht_def in_use_def dictIsRehashing_def)

lemma put_chain_small: "dict_small (put_chain d t i c u) = dict_small d"
  by (simp add: dict_small_def put_chain_def set_ht_def get_ht_def)

lemma put_chain_entries:
  assumes "in_use d t" and "i < length (table (get_ht d t))"
  shows "mset (dict_entries (put_chain d t i c u)) + mset (table (get_ht d t) ! i)
    = mset (dict_entries d) + mset c"
  using assms mset_concat_update [OF assms(2), of c]
  by (auto simp: put_chain_def set_ht_def get_ht_def in_use_def dict_entries_def split: if_splits)

lemma put_chain_ok:
  assumes "dict_ok d" and "in_use d t" and "i < length (table (get_ht d t))"
    and "\<forall>k v. (k, v) \<in> set c \<longrightarrow> home (d_type d) (get_ht d t) k = i"
    and "u + length (table (get_ht d t) ! i) = used (get_ht d t) + length c"
    and "dictIsRehashing d \<Longrightarrow> t = 0 \<Longrightarrow> table (get_ht d t) ! i \<noteq> []"
    and "distinct (map fst (dict_entries (put_chain d t i c u)))"
  shows "dict_ok (put_chain d t i c u)"
proof -
  have ht: "ht_ok (d_type d) (get_ht d t)" using dict_okD [OF assms(1)] by (simp add: get_ht_def)
  note new = ht_ok_update [OF ht assms(3-5)]
  show ?thesis
  proof (cases "t = 0")
    case True
    have "\<And>m. m < length (table (ht0 d)) \<Longrightarrow> dictIsRehashing d \<Longrightarrow> int m < rehashidx d
        \<Longrightarrow> (table (ht0 d))[i := c] ! m = []"
      using assms(1,6) True
      by (case_tac "m = i") (auto simp: dict_ok_def get_ht_def dictIsRehashing_def nth_list_update)
    then show ?thesis
      using assms(1,7) new True unfolding dict_ok_def
      by (auto simp: put_chain_def set_ht_def get_ht_def dictIsRehashing_def split: if_splits)
  next
    case False
    then have t1: "t = 1" "dictIsRehashing d" using assms(2) by (auto simp: in_use_def)
    then show ?thesis
      using assms(1,7) new unfolding dict_ok_def
      by (auto simp: put_chain_def set_ht_def get_ht_def dictIsRehashing_def)
  qed
qed

lemma valid_refD:
  "valid_ref d (t, i, p) key \<Longrightarrow> in_use d t \<and> i < length (table (get_ht d t))
     \<and> p < length (table (get_ht d t) ! i) \<and> fst (table (get_ht d t) ! i ! p) = key"
  by (simp add: valid_ref_def in_use_def)

lemma get_ht_ok: "dict_ok d \<Longrightarrow> ht_ok (d_type d) (get_ht d t)"
  by (simp add: get_ht_def dict_okD)

lemma dict_home:
  "dict_ok d \<Longrightarrow> i < length (table (get_ht d t)) \<Longrightarrow> (k, v) \<in> set (table (get_ht d t) ! i)
     \<Longrightarrow> home (d_type d) (get_ht d t) k = i"
  using get_ht_ok [of d t] unfolding ht_ok_def by blast

lemma dict_used_chain:
  "dict_ok d \<Longrightarrow> i < length (table (get_ht d t))
     \<Longrightarrow> length (table (get_ht d t) ! i) \<le> used (get_ht d t)"
  using length_concat_update [of i "table (get_ht d t)" "[]"]
  using get_ht_ok [of d t] by (simp add: ht_ok_def)

lemma put_chain_swap:
  "in_use d t \<Longrightarrow> i < length (table (get_ht d t)) \<Longrightarrow> valid_ref (put_chain d t i c u) (t, i, p) key
     \<longleftrightarrow> p < length c \<and> fst (c ! p) = key"
  by (simp add: valid_ref_def) (simp add: in_use_def)

lemma dictSetVal_put:
  assumes "valid_ref d (t, i, p) key"
  shows "dictSetVal d (t, i, p) v = Some (put_chain d t i
     ((table (get_ht d t) ! i)[p := (key, v)]) (used (get_ht d t)))"
proof -
  have "ht\<lparr>table := x, used := used ht\<rparr> = ht\<lparr>table := x\<rparr>" for x and ht :: "('a, 'b) dictht"
    by simp
  then show ?thesis
    using valid_refD [OF assms] by (simp add: dictSetVal_def put_chain_def)
qed

lemma mset_nth_split: "p < length xs \<Longrightarrow> mset xs = add_mset (xs ! p) (mset (take p xs @ drop (p + 1) xs))"
proof -
  assume "p < length xs"
  then have "mset xs = mset (take p xs @ xs ! p # drop (p + 1) xs)"
    using id_take_nth_drop [of p xs] by simp
  then show ?thesis by simp
qed

lemma set_update_keys:
  assumes "\<forall>k v. (k, v) \<in> set ch \<longrightarrow> P k" and "p < length ch" and "fst (ch ! p) = key"
  shows "\<forall>k v. (k, v) \<in> set (ch[p := (key, w)]) \<longrightarrow> P k"
proof (intro allI impI)
  fix k v assume "(k, v) \<in> set (ch[p := (key, w)])"
  then consider "k = key" | "(k, v) \<in> set ch" using set_update_subset_insert [of ch p] by fastforce
  then show "P k"
  proof cases
    case 1
    have "(key, snd (ch ! p)) \<in> set ch" using assms(2,3) by (metis nth_mem prod.collapse)
    with assms(1) 1 show ?thesis by blast
  qed (use assms(1) in blast)
qed

lemma dictSetVal_spec:
  assumes "dict_inv d" and "valid_ref d e key"
  shows "\<exists>d'. dictSetVal d e v = Some d' \<and> dict_inv d' \<and> dict_map d' = (dict_map d)(key \<mapsto> v)"
proof -
  obtain t i p where e: "e = (t, i, p)" by (cases e)
  note ok = dict_invD [OF assms(1)]
  let ?ch = "table (get_ht d t) ! i"
  let ?d = "put_chain d t i (?ch[p := (key, v)]) (used (get_ht d t))"
  have V: "in_use d t" "i < length (table (get_ht d t))" "p < length ?ch" "fst (?ch ! p) = key"
    using valid_refD [of d t i p key] assms(2) by (simp_all add: e)
  let ?rest = "mset (take p ?ch @ drop (p + 1) ?ch)"
  obtain u where u: "?ch ! p = (key, u)" using V(4) by (cases "?ch ! p") auto
  have old: "mset ?ch = add_mset (key, u) ?rest" using mset_nth_split [OF V(3)] u by simp
  have new: "mset (?ch[p := (key, v)]) = add_mset (key, v) ?rest"
    using mset_nth_split [of p "?ch[p := (key, v)]"] V(3) by simp
  let ?M = "mset (dict_entries (put_chain d t i [] 0))"
  have M: "mset (dict_entries d) = add_mset (key, u) (?rest + ?M)"
    using put_chain_entries [OF V(1,2), of "[]" 0] old by (simp add: ac_simps)
  then have "mset (dict_entries ?d) = add_mset (key, v) (?rest + ?M)"
    using put_chain_entries [OF V(1,2), of "?ch[p := (key, v)]" "used (get_ht d t)"] old new by simp
  from entries_replace [OF M this dict_okD(4) [OF ok(1)]]
  have R: "distinct (map fst (dict_entries ?d))" "dict_map ?d = (dict_map d)(key \<mapsto> v)"
    by (simp_all add: dict_map_def)
  have H: "\<forall>k w. (k, w) \<in> set ?ch \<longrightarrow> home (d_type d) (get_ht d t) k = i"
    using dict_home [OF ok(1) V(2)] by blast
  have ne: "?ch \<noteq> []" using V(3) by auto
  have "dict_ok ?d"
    by (rule put_chain_ok [OF ok(1) V(1,2) set_update_keys [OF H V(3,4)] _ _ R(1)]) (use ne in auto)
  then have "dict_inv ?d" using ok(2) by (simp add: dict_inv_def put_chain_small)
  then show ?thesis using R(2) dictSetVal_put [OF assms(2) [unfolded e]] by (simp add: e)
qed

subsection \<open>Resizing\<close>

lemma next_power_loop_least:
  "i > 0 \<Longrightarrow> i * 2 ^ a \<ge> sz \<Longrightarrow> next_power_loop i sz \<le> i * 2 ^ a"
proof (induction i sz arbitrary: a rule: next_power_loop.induct)
  case (1 i sz)
  show ?case
  proof (cases "i \<ge> sz")
    case False
    then obtain b where "a = Suc b" using "1.prems"(2) by (cases a) auto
    then show ?thesis using "1.IH" [of b] "1.prems" False by (simp add: next_power_loop.simps [of i sz])
  qed (use 1 in \<open>simp add: next_power_loop.simps [of i sz]\<close>)
qed

lemma next_power_loop_spec:
  "i > 0 \<Longrightarrow> \<exists>m. next_power_loop i sz = i * 2 ^ m \<and> sz \<le> i * 2 ^ m"
proof (induction i sz rule: next_power_loop.induct)
  case (1 i sz)
  show ?case
  proof (cases "i \<ge> sz")
    case True
    then show ?thesis
      using 1(2) by (intro exI [of _ 0]) (simp add: next_power_loop.simps [of i sz])
  next
    case False
    then obtain m where "next_power_loop (i * 2) sz = i * 2 * 2 ^ m" "sz \<le> i * 2 * 2 ^ m"
      using 1 by auto
    then show ?thesis
      using 1(2) False by (intro exI [of _ "Suc m"]) (simp add: next_power_loop.simps [of i sz])
  qed
qed

lemma dictNextPower_spec:
  assumes "sz < 2 ^ 63 - 1"
  shows "\<exists>m. dictNextPower sz = 2 ^ m \<and> sz \<le> 2 ^ m"
proof -
  obtain m where "next_power_loop 4 sz = 4 * 2 ^ m" "sz \<le> 4 * 2 ^ m"
    using next_power_loop_spec [of 4 sz] by auto
  then have "next_power_loop 4 sz = 2 ^ (m + 2)" "sz \<le> 2 ^ (m + 2)" by simp_all
  then show ?thesis
    using assms by (intro exI [of _ "m + 2"]) (simp add: dictNextPower_def LONG_MAX_def DICT_HT_INITIAL_SIZE_def)
qed

lemma dictNextPower_small: "sz \<le> 2 ^ 30 \<Longrightarrow> dictNextPower sz \<le> 2 ^ 30"
  using next_power_loop_least [of 4 sz 28] by (simp add: dictNextPower_def LONG_MAX_def DICT_HT_INITIAL_SIZE_def)

lemma fresh_table_ok:
  assumes "sz < 2 ^ 63 - 1"
  shows "ht_ok T \<lparr>table = replicate (dictNextPower sz) [], ht_size = dictNextPower sz,
    sizemask = dictNextPower sz - 1, used = 0\<rparr> \<and> dictNextPower sz > 0"
proof -
  have e: "concat (replicate n []) = []" for n by (induction n) auto
  from dictNextPower_spec [OF assms] e show ?thesis by (auto simp: ht_ok_def)
qed

text \<open>What a resize must not change, and what it must reach.\<close>

lemma dictExpand_spec:
  assumes "dict_ok d" and "sz < 2 ^ 63 - 1"
  shows "\<exists>d' b. dictExpand d sz = (d', b) \<and> dict_ok d' \<and> dict_entries d' = dict_entries d
    \<and> dict_map d' = dict_map d \<and> b = (\<not> dictIsRehashing d \<and> used (ht0 d) \<le> sz)
    \<and> (b \<longrightarrow> ht_size (if dictIsRehashing d' then ht1 d' else ht0 d') = dictNextPower sz
        \<and> table (ht0 d') \<noteq> [])"
proof (cases "dictIsRehashing d \<or> used (ht0 d) > sz")
  case True
  with assms show ?thesis by (auto simp: dictExpand_def)
next
  case False
  let ?n = "\<lparr>table = replicate (dictNextPower sz) [], ht_size = dictNextPower sz,
    sizemask = dictNextPower sz - 1, used = 0\<rparr> :: ('a, 'b) dictht"
  note n = fresh_table_ok [OF assms(2), of "d_type d"]
  have e: "concat (replicate m []) = []" for m by (induction m) auto
  have t1: "table (ht1 d) = []" using False dict_ok_ht1_empty [OF assms(1)] by blast
  show ?thesis
  proof (cases "table (ht0 d) = []")
    case True
    let ?d = "d\<lparr>ht0 := ?n\<rparr>"
    have "dict_entries ?d = dict_entries d" using True e t1 by (simp add: dict_entries_def)
    moreover from this have "dict_ok ?d"
      using assms(1) n t1 False by (auto simp: dict_ok_def dictIsRehashing_def)
    ultimately show ?thesis
      using True False n by (auto simp: dictExpand_def Let_def dict_map_def dictIsRehashing_def)
  next
    case F: False
    let ?d = "d\<lparr>ht1 := ?n, rehashidx := 0\<rparr>"
    have "dict_entries ?d = dict_entries d" using e t1 by (simp add: dict_entries_def)
    moreover from this have "dict_ok ?d"
      using assms(1) n F by (auto simp: dict_ok_def)
    ultimately show ?thesis
      using F False n by (auto simp: dictExpand_def Let_def dict_map_def dictIsRehashing_def)
  qed
qed

lemma dictExpand_small:
  assumes "dict_small d" and "sz \<le> 2 ^ 30"
  shows "dict_small (fst (dictExpand d sz))"
  using dictNextPower_small [OF assms(2)] assms(1) by (simp add: dictExpand_def Let_def dict_small_def)

lemma u64_small: "n < 2 ^ 64 \<Longrightarrow> u64 (int n) = n"
  by (simp add: u64_def)

lemma s32_int: "n < 2 ^ 31 \<Longrightarrow> s32 (int n) = int n"
  by (simp add: s32_def)

lemma dict_room_used: "dict_room d \<Longrightarrow> used (ht0 d) < 2 ^ 29"
  by (simp add: dict_room_def dictSize_def)

lemma dictExpandIfNeeded_spec:
  assumes "dict_inv d" and "dict_room d"
  shows "\<exists>d'. dictExpandIfNeeded cr d = (d', True) \<and> dict_inv d' \<and> dict_map d' = dict_map d
    \<and> dict_entries d' = dict_entries d \<and> table (ht0 d') \<noteq> []"
proof -
  have ok: "dict_ok d" and small: "dict_small d" using dict_invD [OF assms(1)] by blast+
  have w: "u64 (int (used (ht0 d)) * 2) = used (ht0 d) * 2" using u64_small [of "used (ht0 d) * 2"] dict_room_used [OF assms(2)] by simp
  have u30: "used (ht0 d) * 2 \<le> 2 ^ 30" "DICT_HT_INITIAL_SIZE \<le> 2 ^ 30" using dict_room_used [OF assms(2)] by (simp_all add: DICT_HT_INITIAL_SIZE_def)
  have u: "used (ht0 d) * 2 < 2 ^ 63 - 1" "DICT_HT_INITIAL_SIZE < 2 ^ 63 - 1"
    using dict_room_used [OF assms(2)] by (simp_all add: DICT_HT_INITIAL_SIZE_def)
  note E = dictExpand_spec [OF ok u(1)] and E4 = dictExpand_spec [OF ok u(2)]
  have s: "ht_size (ht0 d) = length (table (ht0 d))" "used (ht0 d) = length (concat (table (ht0 d)))"
    using dict_okD(2) [OF ok] by (simp_all add: ht_ok_def)
  consider "dictIsRehashing d" | "\<not> dictIsRehashing d" "ht_size (ht0 d) = 0"
    | "\<not> dictIsRehashing d" "ht_size (ht0 d) \<noteq> 0" by blast
  then show ?thesis
  proof cases
    case 1
    with assms(1) dict_okD(5) [OF ok] show ?thesis by (simp add: dictExpandIfNeeded_def)
  next
    case 2
    then have "used (ht0 d) = 0" using s by simp
    with E4 2 dictExpand_small [OF small u30(2)] show ?thesis by (auto simp: dictExpandIfNeeded_def dict_inv_def)
  next
    case 3
    then have "table (ht0 d) \<noteq> []" using s by auto
    with E 3 assms(1) dictExpand_small [OF small u30(1)] show ?thesis by (auto simp: dictExpandIfNeeded_def dict_inv_def w)
  qed
qed

lemma dictResize_spec:
  assumes "dict_inv d" and "dict_room d"
  shows "\<exists>d'. dictResize cr d = (d', cr \<and> \<not> dictIsRehashing d) \<and> dict_inv d'
    \<and> dict_entries d' = dict_entries d \<and> dict_map d' = dict_map d"
proof -
  have ok: "dict_ok d" and small: "dict_small d" using dict_invD [OF assms(1)] by blast+
  define n where "n = (if used (ht0 d) < DICT_HT_INITIAL_SIZE then DICT_HT_INITIAL_SIZE else used (ht0 d))"
  have n: "n < 2 ^ 63 - 1" "used (ht0 d) \<le> n" "n \<le> 2 ^ 30" "n < 2 ^ 64"
    using dict_room_used [OF assms(2)] by (simp_all add: DICT_HT_INITIAL_SIZE_def n_def)
  have "s32 (int (used (ht0 d))) = int (used (ht0 d))" using dict_room_used [OF assms(2)] by (intro s32_int) simp
  then have "(if s32 (int (used (ht0 d))) < int DICT_HT_INITIAL_SIZE then int DICT_HT_INITIAL_SIZE else s32 (int (used (ht0 d)))) = int n"
    by (simp add: n_def)
  then have "dictResize cr d = (if \<not> cr \<or> dictIsRehashing d then (d, False) else dictExpand d n)"
    using u64_small [OF n(4)] unfolding dictResize_def Let_def by simp
  with dictExpand_spec [OF ok n(1)] n assms(1) dictExpand_small [OF small n(3)] show ?thesis by (auto simp: dict_inv_def)
qed

lemma dictCreate_ok:
  assumes "dict_type_ok T"
  shows "dict_inv (dictCreate T)" "dict_map (dictCreate T) = Map.empty" "dict_room (dictCreate T)"
  using assms
  by (simp_all add: dictCreate_def dictInit_def dict_ok_def dict_entries_def dict_map_def dict_room_def
      dictSize_def dict_inv_def dict_small_def)

subsection \<open>Adding, replacing, deleting\<close>

lemma dict_room_mset:
  "dict_inv d \<Longrightarrow> dict_inv d' \<Longrightarrow> mset (dict_entries d') = mset (dict_entries d) \<Longrightarrow> dict_room d' = dict_room d"
  using mset_eq_length [of "dict_entries d'" "dict_entries d"]
  by (simp add: dict_room_def dict_size_entries dict_inv_def)

lemma dictAddRaw_spec:
  assumes "dict_inv d" and "dict_room d"
  shows "\<exists>d' r. dictAddRaw cr d key g = Some (d', r) \<and> dict_inv d'
    \<and> (case r of None \<Rightarrow> dict_map d key \<noteq> None \<and> dict_map d' = dict_map d
        | Some e \<Rightarrow> dict_map d key = None \<and> dict_map d' = (dict_map d)(key \<mapsto> g) \<and> valid_ref d' e key)"
proof -
  obtain d1 where S: "step_if_rehashing d = Some d1" "dict_inv d1" "dict_map d1 = dict_map d"
    "mset (dict_entries d1) = mset (dict_entries d)" using step_if_rehashing_spec [OF assms(1)] by blast
  have "dict_room d1" using dict_room_mset [OF assms(1) S(2,4)] assms(2) by simp
  from dictExpandIfNeeded_spec [OF S(2) this, of cr] obtain d2 where E:
    "dictExpandIfNeeded cr d1 = (d2, True)" "dict_inv d2" "dict_map d2 = dict_map d1"
    "table (ht0 d2) \<noteq> []" by blast
  from search_tables_spec [OF dict_invD(1) [OF E(2)] E(4), of key] show ?thesis
  proof (elim disjE exE conjE)
    fix e assume e: "search_tables d2 key = Some (Inr e)" "valid_ref d2 e key"
    then have "dict_map d2 key \<noteq> None" using valid_ref_entry [OF dict_invD(1) [OF E(2)] e(2)] by auto
    with S E e show ?thesis by (simp add: dictAddRaw_def dictKeyIndex_def)
  next
    fix i
    define t :: nat where "t = (if dictIsRehashing d2 then 1 else 0)"
    let ?ht = "get_ht d2 t"
    assume i: "search_tables d2 key = Some (Inl i)" "dict_map d2 key = None"
      "i = home (d_type d2) (if dictIsRehashing d2 then ht1 d2 else ht0 d2) key"
      "i < length (table (if dictIsRehashing d2 then ht1 d2 else ht0 d2))"
    then have il: "i < length (table ?ht)" "i = home (d_type d2) ?ht key" "in_use d2 t"
      by (auto simp: get_ht_def in_use_def t_def)
    let ?c = "(key, g) # table ?ht ! i"
    let ?d = "put_chain d2 t i ?c (used ?ht + 1)"
    have "mset (dict_entries ?d) = add_mset (key, g) (mset (dict_entries d2))"
      using put_chain_entries [OF il(3,1), of ?c "used ?ht + 1"] by simp
    from entries_add [OF this _ dict_okD(4) [OF dict_invD(1) [OF E(2)]]] i(2)
    have R: "distinct (map fst (dict_entries ?d))" "dict_map ?d = (dict_map d2)(key \<mapsto> g)"
      by (simp_all add: dict_map_None) (simp_all add: dict_map_def)
    have H: "\<forall>k v. (k, v) \<in> set ?c \<longrightarrow> home (d_type d2) ?ht k = i"
      using dict_home [OF dict_invD(1) [OF E(2)] il(1)] il(2) by auto
    have "dict_ok ?d"
      by (rule put_chain_ok [OF dict_invD(1) [OF E(2)] il(3,1) H _ _ R(1)]) (auto simp: t_def)
    then have ok: "dict_inv ?d" using dict_invD(2) [OF E(2)] by (simp add: dict_inv_def put_chain_small)
    have "length (table ?ht) \<le> 2 ^ 30"
      using dict_invD [OF E(2)] dict_okD(2,3) [of d2] by (simp add: dict_small_def get_ht_def ht_ok_def)
    then have "s32 (int i) = int i" using il(1) by (intro s32_int) simp
    moreover have ref: "valid_ref ?d (t, i, 0) key"
      by (rule iffD2 [OF put_chain_swap [OF il(3,1)]]) simp
    ultimately have "dictAddRaw cr d key g = Some (?d, Some (t, i, 0))"
      using S(1) E(1) i(1) il(1) by (simp add: dictAddRaw_def dictKeyIndex_def put_chain_def Let_def
        t_def [symmetric])
    with ok ref R S E i show ?thesis by auto
  qed
qed

lemma dictAdd_spec:
  assumes "dict_inv d" and "dict_room d"
  shows "\<exists>d'. dictAdd cr g d key v = Some (d', dict_map d key = None) \<and> dict_inv d'
    \<and> dict_map d' = (if dict_map d key = None then (dict_map d)(key \<mapsto> v) else dict_map d)"
proof -
  obtain d1 r where A: "dictAddRaw cr d key g = Some (d1, r)" "dict_inv d1"
    "case r of None \<Rightarrow> dict_map d key \<noteq> None \<and> dict_map d1 = dict_map d
      | Some e \<Rightarrow> dict_map d key = None \<and> dict_map d1 = (dict_map d)(key \<mapsto> g) \<and> valid_ref d1 e key"
    using dictAddRaw_spec [OF assms] by blast
  show ?thesis
  proof (cases r)
    case None
    with A show ?thesis by (auto simp: dictAdd_def)
  next
    case (Some e)
    with A have e: "dict_map d key = None" "dict_map d1 = (dict_map d)(key \<mapsto> g)" "valid_ref d1 e key"
      by simp_all
    obtain d2 where "dictSetVal d1 e v = Some d2" "dict_inv d2" "dict_map d2 = (dict_map d1)(key \<mapsto> v)"
      using dictSetVal_spec [OF A(2) e(3)] by blast
    with A(1) e Some show ?thesis by (simp add: dictAdd_def)
  qed
qed

lemma dictReplace_spec:
  assumes "dict_inv d" and "dict_room d"
  shows "\<exists>d'. dictReplace cr g d key v = Some (d', dict_map d key = None) \<and> dict_inv d'
    \<and> dict_map d' = (dict_map d)(key \<mapsto> v)"
proof -
  obtain d1 where A: "dictAdd cr g d key v = Some (d1, dict_map d key = None)" "dict_inv d1"
    "dict_map d1 = (if dict_map d key = None then (dict_map d)(key \<mapsto> v) else dict_map d)"
    using dictAdd_spec [OF assms] by blast
  show ?thesis
  proof (cases "dict_map d key = None")
    case True
    with A show ?thesis by (simp add: dictReplace_def)
  next
    case False
    obtain d2 r where F: "dictFind d1 key = Some (d2, r)" "dict_inv d2" "dict_map d2 = dict_map d1"
      "case r of None \<Rightarrow> dict_map d1 key = None | Some e \<Rightarrow> valid_ref d2 e key"
      using dictFind_spec [OF A(2)] by blast
    then obtain e where e: "r = Some e" "valid_ref d2 e key" using False A(3) by (cases r) auto
    obtain d3 where "dictSetVal d2 e v = Some d3" "dict_inv d3" "dict_map d3 = (dict_map d2)(key \<mapsto> v)"
      using dictSetVal_spec [OF F(2) e(2)] by blast
    with A F e False show ?thesis by (simp add: dictReplace_def)
  qed
qed

lemma dictReplaceRaw_spec:
  assumes "dict_inv d" and "dict_room d"
  shows "\<exists>d' e. dictReplaceRaw cr g d key = Some (d', Some e) \<and> dict_inv d' \<and> valid_ref d' e key
    \<and> dict_map d' = (if dict_map d key = None then (dict_map d)(key \<mapsto> g) else dict_map d)"
proof -
  obtain d1 r where F: "dictFind d key = Some (d1, r)" "dict_inv d1" "dict_map d1 = dict_map d"
    "mset (dict_entries d1) = mset (dict_entries d)"
    "case r of None \<Rightarrow> dict_map d key = None | Some e \<Rightarrow> valid_ref d1 e key"
    using dictFind_spec [OF assms(1)] by blast
  show ?thesis
  proof (cases r)
    case None
    have "dict_room d1" using dict_room_mset [OF assms(1) F(2,4)] assms(2) by simp
    from dictAddRaw_spec [OF F(2) this, of cr key g] None F show ?thesis
      by (auto simp: dictReplaceRaw_def split: option.splits)
  next
    case (Some e)
    with F have "dict_map d key \<noteq> None" using valid_ref_entry [OF dict_invD(1) [OF F(2)], of e key] by auto
    with Some F show ?thesis by (auto simp: dictReplaceRaw_def)
  qed
qed

lemma dictGenericDelete_spec:
  assumes "dict_inv d"
  shows "\<exists>d'. dictGenericDelete d key = Some (d', dict_map d key \<noteq> None) \<and> dict_inv d'
    \<and> dict_map d' = (dict_map d)(key := None)"
proof (cases "table (ht0 d) = []")
  case True
  then have "ht_size (ht0 d) = 0" using dict_okD(2) [OF dict_invD(1) [OF assms]] by (simp add: ht_ok_def)
  with True assms dict_ok_not_rehashing [OF dict_invD(1) [OF assms]] show ?thesis
    by (simp add: dictGenericDelete_def dict_map_def)
next
  case False
  then have n: "ht_size (ht0 d) \<noteq> 0" using dict_okD(2) [OF dict_invD(1) [OF assms]] by (simp add: ht_ok_def)
  obtain d1 where S: "step_if_rehashing d = Some d1" "dict_inv d1" "dict_map d1 = dict_map d"
    "table (ht0 d1) \<noteq> []" using step_if_rehashing_spec [OF assms] False by blast
  note ok1 = dict_invD [OF S(2)]
  from search_tables_spec [OF ok1(1) S(4), of key] show ?thesis
  proof (elim disjE exE conjE)
    fix i assume "search_tables d1 key = Some (Inl i)" "dict_map d1 key = None"
    with S n show ?thesis by (auto simp: dictGenericDelete_def fun_upd_idem)
  next
    fix e assume e: "search_tables d1 key = Some (Inr e)" "valid_ref d1 e key"
    obtain t i p where t: "e = (t, i, p)" by (cases e)
    let ?ht = "get_ht d1 t"
    let ?ch = "table ?ht ! i"
    let ?c = "take p ?ch @ drop (p + 1) ?ch"
    let ?d = "put_chain d1 t i ?c (decr (used ?ht))"
    have V: "in_use d1 t" "i < length (table ?ht)" "p < length ?ch" "fst (?ch ! p) = key"
      using valid_refD [of d1 t i p key] e(2) t by simp_all
    obtain v where v: "?ch ! p = (key, v)" using V(4) by (cases "?ch ! p") auto
    have "mset ?ch = add_mset (key, v) (mset ?c)" using mset_nth_split [OF V(3)] v by simp
    then have "mset (dict_entries d1) = add_mset (key, v) (mset (dict_entries ?d))"
      using put_chain_entries [OF V(1,2), of ?c "decr (used ?ht)"] by simp
    from entries_remove [OF this dict_okD(4) [OF ok1(1)]]
    have R: "distinct (map fst (dict_entries ?d))" "dict_map ?d = (dict_map d1)(key := None)"
      by (simp_all add: dict_map_def)
    have H: "\<forall>k w. (k, w) \<in> set ?c \<longrightarrow> home (d_type d1) ?ht k = i"
      using dict_home [OF ok1(1) V(2)] by (auto dest: in_set_takeD in_set_dropD)
    have u: "decr (used ?ht) + length ?ch = used ?ht + length ?c"
      using dict_used_chain [OF ok1(1) V(2)] V(3) by simp
    have ne: "?ch \<noteq> []" using V(3) by auto
    have "dict_ok ?d" by (rule put_chain_ok [OF ok1(1) V(1,2) H u _ R(1)]) (use ne in auto)
    then have ok: "dict_inv ?d" using ok1(2) by (simp add: dict_inv_def put_chain_small)
    have "dict_map d1 key \<noteq> None" using valid_ref_entry [OF ok1(1) e(2)] by auto
    moreover have "dictGenericDelete d key = Some (?d, True)"
      using n S(1) e(1) t by (simp add: dictGenericDelete_def put_chain_def Let_def)
    ultimately show ?thesis using ok R S by simp
  qed
qed

interpretation dict_store: keyed_store dict_map dict_inv dict_room dictFetchValue
    "dictAdd can_resize garbage" "dictReplace can_resize garbage" dictDelete
  for can_resize garbage
proof (unfold_locales, goal_cases)
  case (1 d k)
  then show ?case by (rule dictFetchValue_spec)
next
  case (2 d k v)
  then show ?case by (rule dictAdd_spec)
next
  case (3 d k v)
  then show ?case by (rule dictReplace_spec)
next
  case (4 d k)
  then show ?case unfolding dictDelete_def by (rule dictGenericDelete_spec)
qed

end
