(* ===== verification/Dict_Scan.thy ===== *)
theory Dict_Scan
  imports Dict_Map "HOL-Library.Word"
begin

unbundle bit_operations_syntax

text \<open>
  \<open>dictScan\<close> of \<open>src/dict.c\<close>: one step of a stateless iteration with a reverse binary
  cursor. Its result is the next cursor and the entries handed to the callback, in order. The cursor
  is an \<open>unsigned long\<close> of 64 bits. The theory shows which entries an iteration cannot miss while
  the table grows, shrinks and is rehashed between the calls, and the case in which it misses one.
\<close>

type_synonym cursor = "64 word"

subsection \<open>The code\<close>

function rev_loop :: "cursor \<Rightarrow> cursor \<Rightarrow> nat \<Rightarrow> cursor" where
  "rev_loop v m s =
     (let s' = s div 2
      in if s' > 0 then
           let m' = m XOR push_bit s' m
           in rev_loop ((drop_bit s' v AND m') OR (push_bit s' v AND NOT m')) m' s'
         else v)"
  by pat_completeness auto
termination
  by (relation "measure (\<lambda>(v, m, s). s)") auto

declare rev_loop.simps [simp del]

definition rev_bits :: "cursor \<Rightarrow> cursor" where
  "rev_bits v = rev_loop v (NOT 0) 64"

text \<open>The loop over the expansions of the cursor into the larger table.\<close>

partial_function (option) scan_expansions ::
  "('k, 'v) dictht \<Rightarrow> cursor \<Rightarrow> cursor \<Rightarrow> cursor \<Rightarrow> ('k \<times> 'v) list \<Rightarrow> (cursor \<times> ('k \<times> 'v) list) option"
where
  "scan_expansions t1 m0 m1 v emitted =
     (case bucket t1 (unat (v AND m1)) of
        None \<Rightarrow> None
      | Some ch \<Rightarrow>
          let v' = (((v OR m0) + 1) AND NOT m0) OR (v AND m0)
          in if v' AND (m0 XOR m1) \<noteq> 0 then scan_expansions t1 m0 m1 v' (emitted @ ch)
             else Some (v', emitted @ ch))"

text \<open>The reverse increment of the bits of the cursor that the mask covers.\<close>

definition scan_next :: "cursor \<Rightarrow> cursor \<Rightarrow> cursor" where
  "scan_next v m0 = rev_bits (rev_bits (v OR NOT m0) + 1)"

definition dictScan :: "('k, 'v) dict \<Rightarrow> cursor \<Rightarrow> (cursor \<times> ('k \<times> 'v) list) option" where
  "dictScan d v =
     (if dictSize d = 0 then Some (0, [])
      else if \<not> dictIsRehashing d then
        let m0 = word_of_nat (sizemask (ht0 d))
        in case bucket (ht0 d) (unat (v AND m0)) of
             None \<Rightarrow> None
           | Some ch \<Rightarrow> Some (scan_next v m0, ch)
      else
        let (t0, t1) = (if ht_size (ht0 d) > ht_size (ht1 d) then (ht1 d, ht0 d) else (ht0 d, ht1 d));
            m0 = word_of_nat (sizemask t0); m1 = word_of_nat (sizemask t1)
        in case bucket t0 (unat (v AND m0)) of
             None \<Rightarrow> None
           | Some ch \<Rightarrow>
               (case scan_expansions t1 m0 m1 v ch of
                  None \<Rightarrow> None
                | Some (v', emitted) \<Rightarrow> Some (scan_next v' m0, emitted)))"

subsection \<open>The reversal\<close>

definition swap_step :: "nat \<Rightarrow> cursor \<Rightarrow> cursor \<Rightarrow> cursor" where
  "swap_step s m v = (drop_bit s v AND m) OR (push_bit s v AND NOT m)"

lemma rev_bits_steps:
  "rev_bits v = swap_step 1 0x5555555555555555 (swap_step 2 0x3333333333333333
     (swap_step 4 0x0F0F0F0F0F0F0F0F (swap_step 8 0x00FF00FF00FF00FF
       (swap_step 16 0x0000FFFF0000FFFF (swap_step 32 0x00000000FFFFFFFF v)))))"
proof -
  have r: "rev_loop v m (2 * s) = rev_loop (swap_step s (m XOR push_bit s m) v) (m XOR push_bit s m) s"
    if "s > 0" for v m s
    using that rev_loop.simps [of v m "2 * s"] by (simp add: swap_step_def Let_def)
  have e: "rev_loop v m 1 = v" for v m using rev_loop.simps [of v m 1] by simp
  have m: "NOT 0 XOR push_bit 32 (NOT 0) = (0x00000000FFFFFFFF :: cursor)"
    "0x00000000FFFFFFFF XOR push_bit 16 0x00000000FFFFFFFF = (0x0000FFFF0000FFFF :: cursor)"
    "0x0000FFFF0000FFFF XOR push_bit 8 0x0000FFFF0000FFFF = (0x00FF00FF00FF00FF :: cursor)"
    "0x00FF00FF00FF00FF XOR push_bit 4 0x00FF00FF00FF00FF = (0x0F0F0F0F0F0F0F0F :: cursor)"
    "0x0F0F0F0F0F0F0F0F XOR push_bit 2 0x0F0F0F0F0F0F0F0F = (0x3333333333333333 :: cursor)"
    "0x3333333333333333 XOR push_bit 1 0x3333333333333333 = (0x5555555555555555 :: cursor)"
    by (simp_all add: mask_eq_exp_minus_1)
  show ?thesis
    using r [of 32 v "NOT 0", unfolded m] r [of 16 _ "0x00000000FFFFFFFF", unfolded m]
      r [of 8 _ "0x0000FFFF0000FFFF", unfolded m] r [of 4 _ "0x00FF00FF00FF00FF", unfolded m]
      r [of 2 _ "0x0F0F0F0F0F0F0F0F", unfolded m] r [of 1 _ "0x3333333333333333", unfolded m] e
    by (simp add: rev_bits_def)
qed

text \<open>The masks have the bits whose index has a zero where the step swaps.\<close>

lemma swap_masks:
  "\<forall>n < 64. bit (0x00000000FFFFFFFF :: cursor) n = (n div 32 mod 2 = 0)"
  "\<forall>n < 64. bit (0x0000FFFF0000FFFF :: cursor) n = (n div 16 mod 2 = 0)"
  "\<forall>n < 64. bit (0x00FF00FF00FF00FF :: cursor) n = (n div 8 mod 2 = 0)"
  "\<forall>n < 64. bit (0x0F0F0F0F0F0F0F0F :: cursor) n = (n div 4 mod 2 = 0)"
  "\<forall>n < 64. bit (0x3333333333333333 :: cursor) n = (n div 2 mod 2 = 0)"
  "\<forall>n < 64. bit (0x5555555555555555 :: cursor) n = (n div 1 mod 2 = 0)"
  unfolding all_less_64 upt_64 by simp_all

definition swap_index :: "nat \<Rightarrow> nat \<Rightarrow> nat" where
  "swap_index s n = (if n div s mod 2 = 0 then n + s else n - s)"

lemma swap_index_numeral:
  "swap_index s 0 = s"
  "swap_index s 1 = (if 1 div s mod 2 = 0 then 1 + s else 1 - s)"
  "swap_index s (Suc 0) = (if 1 div s mod 2 = 0 then 1 + s else 1 - s)"
  "swap_index s (numeral n) = (if numeral n div s mod 2 = 0 then numeral n + s else numeral n - s)"
  by (simp_all add: swap_index_def)

lemma bit_swap_step:
  assumes "\<forall>n < 64. bit m n = (n div s mod 2 = 0)" and "n < 64"
  shows "bit (swap_step s m v) n = bit v (swap_index s n)"
proof (cases "n div s mod 2 = 0")
  case True
  with assms show ?thesis
    by (auto simp: swap_step_def swap_index_def bit_simps add.commute dest: bit_imp_le_length)
next
  case False
  then have "s \<le> n" by (cases "n < s") auto
  with False assms show ?thesis by (simp add: swap_step_def swap_index_def bit_simps)
qed

lemma swap_indices:
  "\<forall>n < 64. swap_index 1 n < 64 \<and> swap_index 2 n < 64 \<and> swap_index 4 n < 64 \<and> swap_index 8 n < 64
     \<and> swap_index 16 n < 64"
  "\<forall>n < 64. swap_index 32 (swap_index 16 (swap_index 8 (swap_index 4 (swap_index 2 (swap_index 1 n)))))
     = 63 - n"
  unfolding all_less_64 upt_64 by (simp_all add: swap_index_numeral del: One_nat_def)

lemma bit_rev_bits: "n < 64 \<Longrightarrow> bit (rev_bits v) n = bit v (63 - n)"
  unfolding rev_bits_steps
  using swap_indices
  by (simp only: bit_swap_step [OF swap_masks(1)] bit_swap_step [OF swap_masks(2)]
    bit_swap_step [OF swap_masks(3)] bit_swap_step [OF swap_masks(4)] bit_swap_step [OF swap_masks(5)]
    bit_swap_step [OF swap_masks(6)])

lemma rev_rev [simp]: "rev_bits (rev_bits v) = v"
  by (rule bit_word_eqI) (simp add: bit_rev_bits)

lemma rev_or: "rev_bits (v OR w) = rev_bits v OR rev_bits w"
  by (rule bit_word_eqI) (simp add: bit_rev_bits bit_simps)

lemma rev_not_mask:
  "n \<le> 64 \<Longrightarrow> rev_bits (NOT (mask n)) = mask (64 - n)"
  by (rule bit_word_eqI) (auto simp: bit_rev_bits bit_simps)

lemma rev_zero [simp]: "rev_bits 0 = 0"
  by (rule bit_word_eqI) (simp add: bit_rev_bits)

lemma rev_inject: "rev_bits v = rev_bits w \<longleftrightarrow> v = w"
  by (metis rev_rev)

subsection \<open>The order of the iteration\<close>

text \<open>The position of a hash or a cursor in the iteration.\<close>

definition place :: "cursor \<Rightarrow> nat" where
  "place v = unat (rev_bits v)"

lemma same_bucket:
  assumes "n \<le> 64" and "place h div 2 ^ (64 - n) = place v div 2 ^ (64 - n)"
  shows "h AND mask n = v AND mask n"
proof (rule bit_word_eqI)
  fix i assume i: "i < LENGTH(64)"
  have "drop_bit (64 - n) (rev_bits h) = drop_bit (64 - n) (rev_bits v)"
    by (rule word_unat_eq_iff [THEN iffD2]) (use assms(2) in \<open>simp add: place_def unat_drop_bit_eq drop_bit_eq_div [where 'a = nat]\<close>)
  then have "bit (drop_bit (64 - n) (rev_bits h)) (n - 1 - i) = bit (drop_bit (64 - n) (rev_bits v)) (n - 1 - i)"
    by simp
  then have "i < n \<Longrightarrow> bit (rev_bits h) (63 - i) = bit (rev_bits v) (63 - i)"
    using assms(1) by (simp add: bit_drop_bit_eq)
  then have "i < n \<Longrightarrow> bit h i = bit v i" using i by (simp add: bit_rev_bits)
  then show "bit (h AND mask n) i = bit (v AND mask n) i" by (auto simp: bit_simps)
qed

lemma unat_mask:
  assumes "k \<le> 64"
  shows "unat (mask k :: cursor) = 2 ^ k - 1"
proof -
  have "unat (mask k :: cursor) = nat (mask (min 64 k))"
    using uint_mask_eq [where 'a = 64, of k] nat_uint_eq [of "mask k :: cursor"] by simp
  then have "unat (mask k :: cursor) = mask k" using assms by (simp add: nat_mask_eq min_def)
  then show ?thesis by (simp only: mask_eq_exp_minus_1)
qed

lemma place_next:
  assumes "n \<le> 64"
  shows "place (scan_next v (mask n)) = ((place v div 2 ^ (64 - n) + 1) * 2 ^ (64 - n)) mod 2 ^ 64"
proof -
  let ?k = "64 - n"
  let ?x = "rev_bits v OR mask ?k"
  have r: "rev_bits (scan_next v (mask n)) = ?x + 1"
    using assms by (simp add: scan_next_def rev_or rev_not_mask)
  have "drop_bit ?k ?x = drop_bit ?k (rev_bits v)" by (rule bit_word_eqI) (auto simp: bit_simps)
  then have d: "unat ?x div 2 ^ ?k = place v div 2 ^ ?k"
    by (metis place_def unat_drop_bit_eq drop_bit_eq_div)
  have "take_bit ?k ?x = mask ?k" by (rule bit_word_eqI) (auto simp: bit_simps)
  then have "take_bit ?k (unat ?x) = 2 ^ ?k - 1"
    by (metis unsigned_take_bit_eq unat_mask diff_le_self)
  then have "unat ?x mod 2 ^ ?k = 2 ^ ?k - 1" by (simp only: take_bit_eq_mod)
  then have "unat ?x = place v div 2 ^ ?k * 2 ^ ?k + (2 ^ ?k - 1)"
    using d div_mult_mod_eq [of "unat ?x" "2 ^ ?k"] by simp
  then have "unat ?x + 1 = (place v div 2 ^ ?k + 1) * 2 ^ ?k" by simp
  then show ?thesis by (simp only: place_def [of "scan_next v (mask n)"] r unat_word_ariths) simp
qed

subsection \<open>One step\<close>

definition scan_ok :: "('k, 'v) dict \<Rightarrow> bool" where
  "scan_ok d \<longleftrightarrow> dict_ok d \<and> ht_size (ht0 d) \<le> 2 ^ 32 \<and> ht_size (ht1 d) \<le> 2 ^ 32
     \<and> (\<forall>k. hashFunction (d_type d) k < 2 ^ 32)"

text \<open>The tables in the order the scan takes them: the smaller one first.\<close>

definition small_ht :: "('k, 'v) dict \<Rightarrow> ('k, 'v) dictht" where
  "small_ht d = (if \<not> dictIsRehashing d \<or> ht_size (ht0 d) \<le> ht_size (ht1 d) then ht0 d else ht1 d)"

definition hash_place :: "('k, 'v) dict \<Rightarrow> 'k \<Rightarrow> nat" where
  "hash_place d k = place (word_of_nat (hashFunction (d_type d) k))"

lemma table_mask:
  assumes "ht_ok T ht" and "table ht \<noteq> []" and "ht_size ht \<le> 2 ^ 32"
  obtains n where "n \<le> 32" "length (table ht) = 2 ^ n" "sizemask ht = 2 ^ n - 1"
    "word_of_nat (sizemask ht) = (mask n :: cursor)"
proof -
  obtain n where n: "length (table ht) = 2 ^ n" "sizemask ht = 2 ^ n - 1" "ht_size ht = 2 ^ n"
    using assms(1,2) by (auto simp: ht_ok_def)
  then have "n \<le> 32" using assms(3) power_le_imp_le_exp [of 2 n 32] by simp
  moreover from this have "word_of_nat (sizemask ht) = (mask n :: cursor)"
    using arg_cong [OF unat_mask [of n], of "word_of_nat :: nat \<Rightarrow> cursor"] by (simp add: n(2))
  ultimately show thesis using n that by blast
qed

lemma unat_and_mask: "n \<le> 64 \<Longrightarrow> unat (v AND mask n :: cursor) = unat v mod 2 ^ n"
  by (simp only: take_bit_eq_mask [symmetric] unsigned_take_bit_eq) (simp only: take_bit_eq_mod)

text \<open>A bucket the scan visits: every entry whose hash agrees with the cursor on the mask.\<close>

lemma home_mod:
  assumes "sizemask ht = 2 ^ n - 1" shows "home T ht k = hashFunction T k mod 2 ^ n"
  using assms by (simp only: home_def and_mask)

lemma place_window:
  assumes "n \<le> 64" and "place v \<le> place h"
    and "place h < place (scan_next v (mask n)) \<or> scan_next v (mask n) = 0"
  shows "h AND mask n = v AND mask n"
proof (rule same_bucket [OF assms(1)])
  let ?q = "2 ^ (64 - n) :: nat"
  have pow: "(2 :: nat) ^ 64 = 2 ^ n * ?q" using assms(1) by (simp flip: power_add)
  have lt: "place v < 2 ^ 64" "place h < 2 ^ 64" 
    using unsigned_less [of "rev_bits v"] unsigned_less [of "rev_bits h"] by (simp_all add: place_def)
  then have dv: "place v div ?q < 2 ^ n" "place h div ?q < 2 ^ n"
    using pow by (simp_all add: less_mult_imp_div_less)
  have "place h < (place v div ?q + 1) * ?q"
  proof (cases "place v div ?q + 1 = 2 ^ n")
    case True
    then show ?thesis using lt(2) pow by simp
  next
    case False
    then have "place v div ?q + 1 < 2 ^ n" using dv by simp
    then have "(place v div ?q + 1) * ?q < 2 ^ 64" unfolding pow by (rule mult_strict_right_mono) simp
    then have n: "place (scan_next v (mask n)) = (place v div ?q + 1) * ?q"
      using place_next [OF assms(1), of v] by simp
    moreover have "place 0 = 0" by (simp add: place_def)
    ultimately show ?thesis using assms(3) by auto
  qed
  then have "place h div ?q < place v div ?q + 1" by (rule less_mult_imp_div_less)
  moreover have "place v div ?q \<le> place h div ?q" using assms(2) by (rule div_le_mono)
  ultimately show "place h div ?q = place v div ?q" by simp
qed

subsection \<open>The expansions into the larger table\<close>

definition expand_next :: "cursor \<Rightarrow> cursor \<Rightarrow> cursor" where
  "expand_next m0 v = (((v OR m0) + 1) AND NOT m0) OR (v AND m0)"

lemma unat_pow:
  assumes "a < 64"
  shows "unat (2 ^ a :: cursor) = 2 ^ a"
proof -
  have "unat (word_of_nat (2 ^ a) :: cursor) = 2 ^ a mod 2 ^ 64"
    by (simp only: unat_of_nat) simp
  also have "\<dots> = 2 ^ a" using power_strict_increasing [OF assms, of "2 :: nat"] by simp
  finally show ?thesis by simp
qed

lemma expand_next_add:
  assumes "a < 64"
  shows "expand_next (mask a) v = v + 2 ^ a"
proof -
  let ?H = "v AND NOT (mask a)" and ?L = "v AND mask a"
  have hl: "?H + ?L = v"
    by (subst disjunctive_add_eq_or) (auto intro!: bit_word_eqI simp: bit_simps)
  have "v OR mask a = ?H OR mask a" by (rule bit_word_eqI) (auto simp: bit_simps)
  also have "\<dots> = ?H + mask a"
    by (subst disjunctive_add_eq_or) (auto intro!: bit_word_eqI simp: bit_simps)
  finally have s: "(v OR mask a) + 1 = ?H + 2 ^ a" by (simp add: mask_eq_exp_minus_1)
  have "?H AND mask a = 0" by (rule bit_word_eqI) (auto simp: bit_simps)
  then have h: "unat ?H mod 2 ^ a = 0" using unat_and_mask [of a ?H] assms by simp
  have "unat (?H + 2 ^ a) = (unat ?H + 2 ^ a) mod 2 ^ 64"
    using assms by (simp add: unat_word_ariths unat_pow)
  then have "unat (?H + 2 ^ a) mod 2 ^ a = 0"
    using h assms mod_mod_cancel [OF le_imp_power_dvd [of a 64], of "unat ?H + 2 ^ a" "2 :: nat"]
    by (simp add: mod_simps)
  then have z: "(?H + 2 ^ a) AND mask a = 0"
    using unat_and_mask [of a "?H + 2 ^ a"] assms by (simp add: word_unat_eq_iff)
  have "(?H + 2 ^ a) AND NOT (mask a) = ?H + 2 ^ a"
  proof (rule bit_word_eqI)
    fix i assume "i < LENGTH(64)"
    have "\<not> bit ((?H + 2 ^ a) AND mask a) i" using z by simp
    then show "bit ((?H + 2 ^ a) AND NOT (mask a)) i = bit (?H + 2 ^ a) i"
      using \<open>i < LENGTH(64)\<close> by (auto simp: bit_simps)
  qed
  moreover have "(?H + 2 ^ a) AND ?L = 0"
    using z by (metis and.commute and.left_commute and_zero_eq)
  ultimately have "expand_next (mask a) v = ?H + 2 ^ a + ?L"
    unfolding expand_next_def s by (simp add: disjunctive_add_eq_or)
  with hl show ?thesis by (simp add: ac_simps)
qed

lemma expand_next_mod:
  assumes "a \<le> b" and "b \<le> 64" and "a < 64"
  shows "unat (expand_next (mask a) v) mod 2 ^ b = (unat v mod 2 ^ b + 2 ^ a) mod 2 ^ b"
proof -
  have "unat (expand_next (mask a) v) = (unat v + 2 ^ a) mod 2 ^ 64"
    using assms(3) by (simp add: expand_next_add unat_word_ariths unat_pow)
  then have "unat (expand_next (mask a) v) mod 2 ^ b = (unat v + 2 ^ a) mod 2 ^ b"
    using assms(2) mod_mod_cancel [OF le_imp_power_dvd [OF assms(2)], of "unat v + 2 ^ a" "2 :: nat"]
    by simp
  then show ?thesis by (simp add: mod_add_left_eq)
qed

lemma expand_continue:
  assumes "a \<le> b" and "b \<le> 64"
  shows "(v :: cursor) AND (mask a XOR mask b) = 0 \<longleftrightarrow> unat v mod 2 ^ b < 2 ^ a"
proof -
  have "v AND (mask a XOR mask b) = 0 \<longleftrightarrow> drop_bit a (take_bit b v) = 0"
  proof
    assume z: "v AND (mask a XOR mask b) = 0"
    show "drop_bit a (take_bit b v) = 0"
    proof (rule bit_word_eqI)
      fix i assume "i < LENGTH(64)"
      have "\<not> bit (v AND (mask a XOR mask b)) (a + i)" using z by simp
      then show "bit (drop_bit a (take_bit b v)) i = bit (0 :: cursor) i"
        by (auto simp: bit_simps dest: bit_imp_le_length)
    qed
  next
    assume z: "drop_bit a (take_bit b v) = 0"
    show "v AND (mask a XOR mask b) = 0"
    proof (rule bit_word_eqI)
      fix i assume "i < LENGTH(64)"
      have "\<not> bit (drop_bit a (take_bit b v)) (i - a)" using z by simp
      then show "bit (v AND (mask a XOR mask b)) i = bit (0 :: cursor) i"
        using assms(1) by (cases "a \<le> i") (auto simp: bit_simps)
    qed
  qed
  moreover have "drop_bit a (take_bit b v) = 0 \<longleftrightarrow> unat v mod 2 ^ b < 2 ^ a"
  proof -
    have "unat (drop_bit a (take_bit b v)) = unat v mod 2 ^ b div 2 ^ a"
      by (simp only: unat_drop_bit_eq unsigned_take_bit_eq) (simp only: drop_bit_eq_div take_bit_eq_mod)
    then have "drop_bit a (take_bit b v) = 0 \<longleftrightarrow> unat v mod 2 ^ b div 2 ^ a = 0"
      by (simp only: word_unat_eq_iff unsigned_0)
    then show ?thesis by (simp add: div_eq_0_iff)
  qed
  ultimately show ?thesis by simp
qed

lemma mod_step:
  fixes i w q :: nat
  assumes "w \<le> i" and "i mod q = w mod q"
  shows "i = w \<or> w + q \<le> i"
proof -
  have "q dvd i - w" using assms mod_eq_dvd_iff_nat by blast
  then show ?thesis using assms(1) dvd_imp_le [of q "i - w"] by (cases "i = w") auto
qed

lemma mod_wrap:
  fixes w p m :: nat
  assumes "w < m" and "p \<le> m" and "m \<le> w + p"
  shows "(w + p) mod m < p"
proof -
  have "(w + p) mod m = (w + p - m) mod m" using assms(3) by (rule le_mod_geq)
  also have "\<dots> = w + p - m" using assms by (intro mod_less) simp
  finally show ?thesis using assms by linarith
qed

lemma scan_expansions_spec:
  assumes "length (table t1) = 2 ^ b" and "a \<le> b" and "b \<le> 32"
  shows "\<exists>v' E. scan_expansions t1 (mask a) (mask b) v acc = Some (v', acc @ E)
    \<and> v' AND mask a = v AND mask a \<and> set E \<subseteq> set (concat (table t1))
    \<and> (\<forall>i < 2 ^ b. unat v mod 2 ^ b \<le> i \<longrightarrow> i mod 2 ^ a = unat v mod 2 ^ a \<longrightarrow> set (table t1 ! i) \<subseteq> set E)"
proof (induction "2 ^ b - unat v mod 2 ^ b" arbitrary: v acc rule: less_induct)
  case less
  let ?w = "unat v mod 2 ^ b"
  let ?v = "expand_next (mask a) v"
  have w: "?w < 2 ^ b" by simp
  then have b: "bucket t1 (unat (v AND mask b)) = Some (table t1 ! ?w)"
    using assms by (simp add: unat_and_mask bucket_def)
  have sub: "set (table t1 ! ?w) \<subseteq> set (concat (table t1))" 
    using w assms(1) nth_mem [of ?w "table t1"] by (auto simp del: nth_mem)
  have wm: "?w mod 2 ^ a = unat v mod 2 ^ a" using assms(2) by (simp add: mod_mod_cancel le_imp_power_dvd)
  have low: "?v AND mask a = v AND mask a" by (rule bit_word_eqI) (auto simp: expand_next_def bit_simps)
  have nx: "unat ?v mod 2 ^ b = (?w + 2 ^ a) mod 2 ^ b" using expand_next_mod assms by simp
  have far: "i = ?w \<or> ?w + 2 ^ a \<le> i" if "?w \<le> i" "i mod 2 ^ a = unat v mod 2 ^ a" for i
    using mod_step [of ?w i "2 ^ a"] that wm by simp
  note step = scan_expansions.simps [of t1 "mask a" "mask b" v acc, folded expand_next_def]
  show ?case
  proof (cases "?v AND (mask a XOR mask b) = 0")
    case True
    have "2 ^ b \<le> ?w + 2 ^ a"
    proof (rule ccontr)
      assume n: "\<not> 2 ^ b \<le> ?w + 2 ^ a"
      have "unat ?v mod 2 ^ b < 2 ^ a" using expand_continue [of a b ?v] True assms by simp
      then show False using nx n by simp
    qed
    have "\<forall>i < 2 ^ b. ?w \<le> i \<longrightarrow> i mod 2 ^ a = unat v mod 2 ^ a
        \<longrightarrow> set (table t1 ! i) \<subseteq> set (table t1 ! ?w)"
    proof (intro allI impI)
      fix i assume i: "i < 2 ^ b" "?w \<le> i" "i mod 2 ^ a = unat v mod 2 ^ a"
      from far [OF i(2,3)] i(1) \<open>2 ^ b \<le> ?w + 2 ^ a\<close> have "i = ?w" by linarith
      then show "set (table t1 ! i) \<subseteq> set (table t1 ! ?w)" by simp
    qed
    moreover have "scan_expansions t1 (mask a) (mask b) v acc = Some (?v, acc @ table t1 ! ?w)"
      using step b True by (simp add: Let_def)
    ultimately show ?thesis using low sub by blast
  next
    case False
    have lt: "?w + 2 ^ a < 2 ^ b"
    proof (rule ccontr)
      assume n: "\<not> ?w + 2 ^ a < 2 ^ b"
      have "(2 :: nat) ^ a \<le> 2 ^ b" using assms(2) by simp
      then have "unat ?v mod 2 ^ b < 2 ^ a" using n w unfolding nx by (intro mod_wrap) auto
      then show False using expand_continue [of a b ?v] False assms by simp
    qed
    then have w': "unat ?v mod 2 ^ b = ?w + 2 ^ a" using nx by simp
    then have dec: "2 ^ b - unat ?v mod 2 ^ b < 2 ^ b - ?w" using lt by (simp add: diff_less_mono2)
    have low': "unat ?v mod 2 ^ a = unat v mod 2 ^ a"
      using low assms unat_and_mask [of a ?v] unat_and_mask [of a v] by simp
    obtain v' E where IH: "scan_expansions t1 (mask a) (mask b) ?v (acc @ table t1 ! ?w)
        = Some (v', (acc @ table t1 ! ?w) @ E)"
      "v' AND mask a = ?v AND mask a" "set E \<subseteq> set (concat (table t1))"
      "\<forall>i < 2 ^ b. unat ?v mod 2 ^ b \<le> i \<longrightarrow> i mod 2 ^ a = unat ?v mod 2 ^ a \<longrightarrow> set (table t1 ! i) \<subseteq> set E"
      using less [OF dec, of "acc @ table t1 ! ?w"] by blast
    have all: "\<forall>i < 2 ^ b. ?w \<le> i \<longrightarrow> i mod 2 ^ a = unat v mod 2 ^ a
        \<longrightarrow> set (table t1 ! i) \<subseteq> set (table t1 ! ?w @ E)"
    proof (intro allI impI)
      fix i assume i: "i < 2 ^ b" "?w \<le> i" "i mod 2 ^ a = unat v mod 2 ^ a"
      from far [OF i(2,3)] show "set (table t1 ! i) \<subseteq> set (table t1 ! ?w @ E)"
      proof
        assume "?w + 2 ^ a \<le> i"
        then have "set (table t1 ! i) \<subseteq> set E" using IH(4) i(1,3) low' w' by simp
        then show ?thesis by auto
      qed simp
    qed
    have "scan_expansions t1 (mask a) (mask b) v acc = scan_expansions t1 (mask a) (mask b) ?v (acc @ table t1 ! ?w)"
      using step b False by (simp add: Let_def)
    with IH(1) have "scan_expansions t1 (mask a) (mask b) v acc = Some (v', acc @ (table t1 ! ?w @ E))"
      by simp
    moreover have "v' AND mask a = v AND mask a" using IH(2) low by simp
    moreover have "set (table t1 ! ?w @ E) \<subseteq> set (concat (table t1))" using IH(3) sub by simp
    ultimately show ?thesis using all by blast
  qed
qed

subsection \<open>What a step emits\<close>

lemma scan_next_cong: "v' AND m = v AND m \<Longrightarrow> scan_next v' m = scan_next v m"
proof -
  assume "v' AND m = v AND m"
  then have "(v' AND m) OR NOT m = (v AND m) OR NOT m" by simp
  moreover have "(w AND m) OR NOT m = w OR NOT m" for w :: cursor
    by (rule bit_word_eqI) (auto simp: bit_simps)
  ultimately show ?thesis by (simp add: scan_next_def)
qed

definition hash_word :: "('k, 'v) dict \<Rightarrow> 'k \<Rightarrow> cursor" where
  "hash_word d k = word_of_nat (hashFunction (d_type d) k)"

text \<open>
  A call is safe when no rehash is in progress, or when the cursor fits the smaller table: the case
  of a table that grows, and of a table that shrinks while no iteration is under way.
\<close>

definition scan_safe :: "('k, 'v) dict \<Rightarrow> cursor \<Rightarrow> bool" where
  "scan_safe d v \<longleftrightarrow> dictIsRehashing d \<longrightarrow> unat v \<le> sizemask (small_ht d)"

lemma unat_hash_word:
  assumes "scan_ok d" shows "unat (hash_word d k) = hashFunction (d_type d) k"
proof -
  have "hashFunction (d_type d) k < 2 ^ 32" using assms by (simp add: scan_ok_def)
  then have "hashFunction (d_type d) k mod 2 ^ 64 = hashFunction (d_type d) k" by simp
  then show ?thesis by (simp only: hash_word_def unat_of_nat) simp
qed

lemma entry_bucket:
  assumes "scan_ok d" and "ht_ok (d_type d) ht" and "table ht \<noteq> []" and "sizemask ht = 2 ^ n - 1"
    and "(k, x) \<in> set (concat (table ht))"
  shows "(k, x) \<in> set (table ht ! (unat (hash_word d k) mod 2 ^ n))"
  using assms(5) ht_ok_entry [OF assms(2,3), of k x] home_mod [OF assms(4), of "d_type d" k]
  by (simp add: unat_hash_word [OF assms(1)])

lemma bucket_entries:
  "i < length (table ht) \<Longrightarrow> set (table ht ! i) \<subseteq> set (concat (table ht))"
  using nth_mem [of i "table ht"] by (auto simp del: nth_mem)

lemma dictScan_rehashing:
  assumes "scan_ok d" and "dictIsRehashing d" and "dictSize d \<noteq> 0"
  shows "\<exists>v' E n. dictScan d v = Some (v', E) \<and> set E \<subseteq> set (dict_entries d)
    \<and> n \<le> 32 \<and> ht_size (small_ht d) = 2 ^ n \<and> v' = scan_next v (mask n)
    \<and> (scan_safe d v \<longrightarrow> (\<forall>(k, x) \<in> set (dict_entries d).
         hash_word d k AND mask n = v AND mask n \<longrightarrow> (k, x) \<in> set E))"
proof -
  have ok: "dict_ok d" and small: "ht_size (ht0 d) \<le> 2 ^ 32" "ht_size (ht1 d) \<le> 2 ^ 32"
    using assms(1) by (simp_all add: scan_ok_def)
  note D = dict_okD [OF ok]
  define t0 where "t0 = small_ht d"
  define t1 where "t1 = (if ht_size (ht0 d) > ht_size (ht1 d) then ht0 d else ht1 d)"
  have pair: "(if ht_size (ht0 d) > ht_size (ht1 d) then (ht1 d, ht0 d) else (ht0 d, ht1 d)) = (t0, t1)"
    using assms(2) by (auto simp: t0_def t1_def small_ht_def)
  have T0: "ht_ok (d_type d) t0" "table t0 \<noteq> []" "ht_size t0 \<le> 2 ^ 32"
    using D D(5) [OF assms(2)] small by (auto simp: t0_def small_ht_def)
  have T1: "ht_ok (d_type d) t1" "table t1 \<noteq> []" "ht_size t1 \<le> 2 ^ 32" "ht_size t0 \<le> ht_size t1"
    using D D(5) [OF assms(2)] small by (auto simp: t0_def t1_def small_ht_def)
  have entries: "set (dict_entries d) = set (concat (table t0)) \<union> set (concat (table t1))"
    using assms(2) by (auto simp: dict_entries_def t0_def t1_def small_ht_def)
  obtain a where a: "a \<le> 32" "length (table t0) = 2 ^ a" "sizemask t0 = 2 ^ a - 1"
    "word_of_nat (sizemask t0) = (mask a :: cursor)" using table_mask [OF T0] .
  obtain b where b: "b \<le> 32" "length (table t1) = 2 ^ b" "sizemask t1 = 2 ^ b - 1"
    "word_of_nat (sizemask t1) = (mask b :: cursor)" using table_mask [OF T1(1-3)] .
  have "(2 :: nat) ^ a \<le> 2 ^ b" using T1(1,4) T0(1) a(2) b(2) by (simp add: ht_ok_def)
  then have ab: "a \<le> b" by simp
  let ?ch = "table t0 ! (unat v mod 2 ^ a)"
  have bk: "bucket t0 (unat (v AND mask a)) = Some ?ch"
    using a by (simp add: unat_and_mask bucket_def)
  obtain v' E where S: "scan_expansions t1 (mask a) (mask b) v ?ch = Some (v', ?ch @ E)"
    "v' AND mask a = v AND mask a" "set E \<subseteq> set (concat (table t1))"
    "\<forall>i < 2 ^ b. unat v mod 2 ^ b \<le> i \<longrightarrow> i mod 2 ^ a = unat v mod 2 ^ a \<longrightarrow> set (table t1 ! i) \<subseteq> set E"
    using scan_expansions_spec [OF b(2) ab b(1), of v ?ch] by blast
  have res: "dictScan d v = Some (scan_next v (mask a), ?ch @ E)"
    using assms(2,3) bk S(1) a(4) b(4) scan_next_cong [OF S(2)] by (simp add: dictScan_def pair Let_def)
  have sub: "set (?ch @ E) \<subseteq> set (dict_entries d)"
    using bucket_entries [of "unat v mod 2 ^ a" t0] S(3) a(2) entries by auto
  have "(k, x) \<in> set (?ch @ E)"
    if safe: "scan_safe d v" and kx: "(k, x) \<in> set (dict_entries d)"
      and h: "hash_word d k AND mask a = v AND mask a" for k x
  proof -
    let ?h = "unat (hash_word d k)"
    have ha: "?h mod 2 ^ a = unat v mod 2 ^ a"
      using h unat_and_mask [of a "hash_word d k"] unat_and_mask [of a v] a(1) by simp
    have "unat v \<le> 2 ^ a - 1" using safe assms(2) a(3) by (simp add: scan_safe_def t0_def)
    moreover have "(0 :: nat) < 2 ^ a" by simp
    ultimately have va: "unat v < 2 ^ a" by linarith
    have hb: "?h mod 2 ^ b mod 2 ^ a = unat v mod 2 ^ a"
      using ha mod_mod_cancel [OF le_imp_power_dvd [OF ab], of ?h "2 :: nat"] by simp
    have "unat v < 2 ^ b" using va \<open>2 ^ a \<le> 2 ^ b\<close> by linarith
    then have "unat v mod 2 ^ b = ?h mod 2 ^ b mod 2 ^ a" using va hb by simp
    then have vb: "unat v mod 2 ^ b \<le> ?h mod 2 ^ b" by (metis mod_less_eq_dividend)
    from kx entries consider "(k, x) \<in> set (concat (table t0))" | "(k, x) \<in> set (concat (table t1))"
      by blast
    then show ?thesis
    proof cases
      case 1
      then have "(k, x) \<in> set (table t0 ! (?h mod 2 ^ a))"
        by (rule entry_bucket [OF assms(1) T0(1,2) a(3)])
      then show ?thesis using ha by simp
    next
      case 2
      then have "(k, x) \<in> set (table t1 ! (?h mod 2 ^ b))"
        by (rule entry_bucket [OF assms(1) T1(1,2) b(3)])
      moreover have "set (table t1 ! (?h mod 2 ^ b)) \<subseteq> set E"
        using S(4) vb hb by (meson mod_less_divisor zero_less_numeral zero_less_power)
      ultimately show ?thesis by auto
    qed
  qed
  moreover have "ht_size (small_ht d) = 2 ^ a" using T0(1) a(2) by (simp add: ht_ok_def t0_def)
  ultimately show ?thesis using res sub a(1) by blast
qed

lemma dictScan_step:
  assumes "scan_ok d" and "dict_entries d \<noteq> []"
  shows "\<exists>v' E n. dictScan d v = Some (v', E) \<and> set E \<subseteq> set (dict_entries d)
    \<and> n \<le> 32 \<and> ht_size (small_ht d) = 2 ^ n \<and> v' = scan_next v (mask n)
    \<and> (scan_safe d v \<longrightarrow> (\<forall>(k, x) \<in> set (dict_entries d).
         hash_word d k AND mask n = v AND mask n \<longrightarrow> (k, x) \<in> set E))"
proof -
  have ok: "dict_ok d" and small: "ht_size (ht0 d) \<le> 2 ^ 32" "ht_size (ht1 d) \<le> 2 ^ 32"
    using assms(1) by (simp_all add: scan_ok_def)
  have ne: "dictSize d \<noteq> 0" "table (ht0 d) \<noteq> []"
    using assms(2) dict_size_entries [OF ok] dict_ok_not_rehashing [OF ok] by auto
  note D = dict_okD [OF ok]
  show ?thesis
  proof (cases "dictIsRehashing d")
    case False
    obtain n where n: "n \<le> 32" "length (table (ht0 d)) = 2 ^ n" "sizemask (ht0 d) = 2 ^ n - 1"
      "word_of_nat (sizemask (ht0 d)) = (mask n :: cursor)"
      using table_mask [OF D(2) ne(2) small(1)] .
    let ?i = "unat v mod 2 ^ n"
    have b: "bucket (ht0 d) (unat (v AND mask n)) = Some (table (ht0 d) ! ?i)"
      using n by (simp add: unat_and_mask bucket_def)
    have e: "dict_entries d = concat (table (ht0 d))"
      using dict_ok_ht1_empty [OF ok False] by (simp add: dict_entries_def)
    have "set (table (ht0 d) ! ?i) \<subseteq> set (dict_entries d)"
      using nth_mem [of ?i "table (ht0 d)"] n(2) by (auto simp: e simp del: nth_mem)
    moreover have "\<forall>(k, x) \<in> set (dict_entries d). hash_word d k AND mask n = v AND mask n
        \<longrightarrow> (k, x) \<in> set (table (ht0 d) ! ?i)"
    proof clarify
      fix k x assume kx: "(k, x) \<in> set (dict_entries d)" and h: "hash_word d k AND mask n = v AND mask n"
      from h have "unat (hash_word d k) mod 2 ^ n = ?i" 
        using unat_and_mask [of n "hash_word d k"] unat_and_mask [of n v] n(1) by simp
      with entry_bucket [OF assms(1) D(2) ne(2) n(3), of k x] kx show "(k, x) \<in> set (table (ht0 d) ! ?i)"
        by (simp only: e)
    qed
    moreover have "dictScan d v = Some (scan_next v (mask n), table (ht0 d) ! ?i)"
      using ne(1) False b n(4) by (simp add: dictScan_def Let_def)
    moreover have "ht_size (small_ht d) = 2 ^ n" using False n(2) D(2) by (simp add: small_ht_def ht_ok_def)
    ultimately show ?thesis using n(1) by blast
  next
    case True
    show ?thesis by (rule dictScan_rehashing [OF assms(1) True ne(1)])
  qed
qed

subsection \<open>A whole iteration\<close>

text \<open>Calls on successive states of a dictionary, each with the cursor the previous one returned.\<close>

fun scan_calls :: "('k, 'v) dict list \<Rightarrow> cursor \<Rightarrow> (cursor \<times> ('k \<times> 'v) list) option" where
  "scan_calls [] v = Some (v, [])"
| "scan_calls (d # ds) v =
     (case dictScan d v of
        None \<Rightarrow> None
      | Some (v', E) \<Rightarrow> map_option (\<lambda>(w, F). (w, E @ F)) (scan_calls ds v'))"

fun all_safe :: "('k, 'v) dict list \<Rightarrow> cursor \<Rightarrow> bool" where
  "all_safe [] v \<longleftrightarrow> True"
| "all_safe (d # ds) v \<longleftrightarrow>
     scan_safe d v \<and> (case dictScan d v of None \<Rightarrow> False | Some (v', E) \<Rightarrow> all_safe ds v')"

lemma place_zero [simp]: "place 0 = 0"
  by (simp add: place_def)

lemma scan_calls_cover:
  assumes "\<forall>d \<in> set ds. scan_ok d \<and> d_type d = T \<and> dict_map d k \<noteq> None"
    and "all_safe ds v" and "ds \<noteq> []" and "scan_calls ds v = Some (0, E)"
    and "place v \<le> place (word_of_nat (hashFunction T k))"
  shows "k \<in> fst ` set E"
  using assms
proof (induction ds arbitrary: v E)
  case (Cons d ds)
  let ?h = "word_of_nat (hashFunction T k) :: cursor"
  have d: "scan_ok d" "hash_word d k = ?h" "dict_map d k \<noteq> None"
    using Cons.prems(1) by (simp_all add: hash_word_def)
  obtain x where kx: "(k, x) \<in> set (dict_entries d)"
    using d(1,3) dict_map_Some [of d k] by (auto simp: scan_ok_def)
  then have ne: "dict_entries d \<noteq> []" by auto
  obtain v' F n where S: "dictScan d v = Some (v', F)" "n \<le> 32" "v' = scan_next v (mask n)"
    "scan_safe d v \<longrightarrow> (\<forall>(k, x) \<in> set (dict_entries d).
         hash_word d k AND mask n = v AND mask n \<longrightarrow> (k, x) \<in> set F)"
    using dictScan_step [OF d(1) ne, of v] by blast
  obtain G where G: "scan_calls ds v' = Some (0, G)" "E = F @ G" using Cons.prems(4) S(1) by auto
  show ?case
  proof (cases "place ?h < place v' \<or> v' = 0")
    case True
    then have "?h AND mask n = v AND mask n"
      using place_window [of n v ?h] S(2,3) Cons.prems(5) by simp
    then have "(k, x) \<in> set F" using S(1,4) kx d(2) Cons.prems(2) by auto
    then have "k \<in> fst ` set F" by force
    then show ?thesis using G(2) by auto
  next
    case False
    then have "ds \<noteq> []" using G(1) by auto
    then have "k \<in> fst ` set G"
      using Cons.IH [OF _ _ _ G(1)] Cons.prems S(1) False by simp
    then show ?thesis using G(2) by auto
  qed
qed simp

lemma place_advance:
  assumes "n \<le> m" and "m \<le> 64" and "scan_next v (mask n) \<noteq> 0"
  shows "place v div 2 ^ (64 - m) < place (scan_next v (mask n)) div 2 ^ (64 - m)"
proof -
  let ?q = "2 ^ (64 - n) :: nat" and ?r = "2 ^ (64 - m) :: nat"
  have n: "n \<le> 64" using assms by simp
  have pow: "(2 :: nat) ^ 64 = 2 ^ n * ?q" using n by (simp flip: power_add)
  have "place v < 2 ^ 64" using unsigned_less [of "rev_bits v"] by (simp add: place_def)
  then have dv: "place v div ?q < 2 ^ n" using pow by (simp add: less_mult_imp_div_less)
  have "place v div ?q + 1 \<noteq> 2 ^ n"
  proof
    assume "place v div ?q + 1 = 2 ^ n"
    then have "place (scan_next v (mask n)) = 0" using place_next [OF n, of v] pow by simp
    then have "rev_bits (scan_next v (mask n)) = rev_bits 0" by (simp add: place_def unat_eq_zero)
    then show False using assms(3) by (simp only: rev_inject)
  qed
  then have "place v div ?q + 1 < 2 ^ n" using dv by simp
  then have "(place v div ?q + 1) * ?q < 2 ^ 64" unfolding pow by (rule mult_strict_right_mono) simp
  then have new: "place (scan_next v (mask n)) = (place v div ?q + 1) * ?q"
    using place_next [OF n, of v] by simp
  have qr: "?q = 2 ^ (m - n) * ?r" using assms(1,2) by (simp flip: power_add)
  have "place v div ?r < (place v div ?q + 1) * 2 ^ (m - n)"
  proof -
    have "place v div ?q = place v div ?r div 2 ^ (m - n)" 
      unfolding qr mult.commute [of _ ?r] div_mult2_eq ..
    then show ?thesis using dividend_less_div_times [of "2 ^ (m - n)" "place v div ?r"] by simp
  qed
  also have "\<dots> = place (scan_next v (mask n)) div ?r" by (simp add: new qr)
  finally show ?thesis .
qed

lemma dictScan_empty: "scan_ok d \<Longrightarrow> dict_entries d = [] \<Longrightarrow> dictScan d v = Some (0, [])"
  by (simp add: dictScan_def scan_ok_def dict_size_entries)

lemma scan_calls_return:
  assumes "\<forall>d \<in> set ds. scan_ok d \<and> ht_size (small_ht d) \<le> 2 ^ m" and "m \<le> 64"
    and "2 ^ m \<le> length ds + place v div 2 ^ (64 - m)"
  shows "\<exists>n E. 0 < n \<and> n \<le> 2 ^ m - place v div 2 ^ (64 - m) \<and> scan_calls (take n ds) v = Some (0, E)"
  using assms
proof (induction ds arbitrary: v)
  case Nil
  have "place v < 2 ^ 64" using unsigned_less [of "rev_bits v"] by (simp add: place_def)
  moreover have "(2 :: nat) ^ 64 = 2 ^ m * 2 ^ (64 - m)" using Nil(2) by (simp flip: power_add)
  ultimately have "place v div 2 ^ (64 - m) < 2 ^ m" by (simp add: less_mult_imp_div_less)
  then show ?case using Nil by simp
next
  case (Cons d ds)
  have "place v < 2 ^ 64" using unsigned_less [of "rev_bits v"] by (simp add: place_def)
  moreover have "(2 :: nat) ^ 64 = 2 ^ m * 2 ^ (64 - m)" using Cons.prems(2) by (simp flip: power_add)
  ultimately have lt: "place v div 2 ^ (64 - m) < 2 ^ m" by (simp add: less_mult_imp_div_less)
  obtain v' F where S: "dictScan d v = Some (v', F)"
    "v' \<noteq> 0 \<Longrightarrow> place v div 2 ^ (64 - m) < place v' div 2 ^ (64 - m)"
  proof (cases "dict_entries d = []")
    case True
    with that [of 0] dictScan_empty [of d v] Cons.prems(1) show ?thesis by simp
  next
    case False
    then obtain v' F n where "dictScan d v = Some (v', F)" "ht_size (small_ht d) = 2 ^ n"
      "v' = scan_next v (mask n)" using dictScan_step [of d v] Cons.prems(1) by auto
    moreover from this have "n \<le> m" using Cons.prems(1) by simp
    ultimately show ?thesis using that place_advance [of n m v] Cons.prems(2) by simp
  qed
  show ?case
  proof (cases "v' = 0")
    case True
    with S(1) lt show ?thesis by (intro exI [of _ 1]) simp
  next
    case False
    with Cons.prems S(2) have "2 ^ m \<le> length ds + place v' div 2 ^ (64 - m)" by simp
    from Cons.IH [OF _ Cons.prems(2) this] Cons.prems(1) obtain n E where
      "0 < n" "n \<le> 2 ^ m - place v' div 2 ^ (64 - m)" "scan_calls (take n ds) v' = Some (0, E)"
      by auto
    with S False show ?thesis by (intro exI [of _ "Suc n"] exI [of _ "F @ E"]) auto
  qed
qed

subsection \<open>The guarantee of the iteration and its limit\<close>

definition int_type :: "nat dictType" where
  "int_type = \<lparr>hashFunction = (\<lambda>k. k mod 2 ^ 32), keyCompare = (=)\<rparr>"

text \<open>Dictionaries of one element for the examples.\<close>

definition sample_dict :: "nat \<Rightarrow> nat \<Rightarrow> (nat, nat) dict" where
  "sample_dict sz key = (case dictAdd True 0 (fst (dictExpand (dictCreate int_type) sz)) key 7 of
     Some (d, _) \<Rightarrow> d | None \<Rightarrow> dictCreate int_type)"

definition wide_dict :: "(nat, nat) dict" where
  "wide_dict = sample_dict 16 4"

definition shrinking_dict :: "(nat, nat) dict" where
  "shrinking_dict = fst (dictResize True wide_dict)"

definition growing_dict :: "(nat, nat) dict" where
  "growing_dict = fst (dictExpand (sample_dict 4 2) 8)"

lemma next_power_values: "dictNextPower 16 = 16" "dictNextPower 8 = 8" "dictNextPower 4 = 4"
  by (simp_all add: dictNextPower_def LONG_MAX_def DICT_HT_INITIAL_SIZE_def next_power_loop.simps)

lemma int_values: "s32 4 = 4" "s32 2 = 2" "s32 1 = 1" "u64 4 = 4"
  by (simp_all add: s32_def u64_def)

lemmas sample_defs = int_values sample_dict_def dictCreate_def dictInit_def dictExpand_def next_power_values
  dictIsRehashing_def dictReset_def dictAdd_def dictAddRaw_def step_if_rehashing_def dictKeyIndex_def
  dictExpandIfNeeded_def search_tables_def bucket_def int_type_def dictSetVal_def set_ht_def get_ht_def
  Let_def dictResize_def DICT_HT_INITIAL_SIZE_def

lemma wide_dict_value:
  "wide_dict = \<lparr>d_type = int_type,
     ht0 = \<lparr>table = (replicate 16 [])[4 := [(4, 7)]], ht_size = 16, sizemask = 15, used = 1\<rparr>,
     ht1 = dictReset, rehashidx = - 1, iterators = 0\<rparr>"
  by (simp add: wide_dict_def sample_defs)

lemma shrinking_dict_value:
  "shrinking_dict = wide_dict\<lparr>ht1 := \<lparr>table = replicate 4 [], ht_size = 4, sizemask = 3, used = 0\<rparr>,
     rehashidx := 0\<rparr>"
  by (simp add: shrinking_dict_def wide_dict_value sample_defs)

lemma growing_dict_value:
  "growing_dict = \<lparr>d_type = int_type,
     ht0 = \<lparr>table = (replicate 4 [])[2 := [(2, 7)]], ht_size = 4, sizemask = 3, used = 1\<rparr>,
     ht1 = \<lparr>table = replicate 8 [], ht_size = 8, sizemask = 7, used = 0\<rparr>, rehashidx = 0, iterators = 0\<rparr>"
  by (simp add: growing_dict_def sample_defs)

lemma scan_next_values:
  "scan_next 0 15 = 8" "scan_next 16 3 = 2" "scan_next 18 3 = 1" "scan_next 17 3 = 3"
  "scan_next 19 3 = 0" "scan_next 8 3 = 2" "scan_next 10 3 = 1" "scan_next 9 3 = 3" "scan_next 11 3 = 0"
  by (simp_all add: scan_next_def rev_bits_steps swap_step_def mask_eq_exp_minus_1)

lemma wide_dict_scan:
  "dictScan wide_dict 0 = Some (8, [])"
  "dictScan shrinking_dict 8 = Some (2, [])"
  "dictScan shrinking_dict 2 = Some (1, [])"
  "dictScan shrinking_dict 1 = Some (3, [])"
  "dictScan shrinking_dict 3 = Some (0, [])"
  unfolding shrinking_dict_value wide_dict_value
  by (simp_all add: dictScan_def dictSize_def dictIsRehashing_def Let_def bucket_def scan_next_values
      scan_expansions.simps dictReset_def)

lemma growing_dict_scan:
  "dictScan growing_dict 0 = Some (2, [])"
  "dictScan growing_dict 2 = Some (1, [(2, 7)])"
  "dictScan growing_dict 1 = Some (3, [])"
  "dictScan growing_dict 3 = Some (0, [])"
  unfolding growing_dict_value
  by (simp_all add: dictScan_def dictSize_def dictIsRehashing_def Let_def bucket_def scan_next_values
      scan_expansions.simps)

lemma sample_dict_ok:
  assumes "sz \<le> 16"
  shows "dict_inv (sample_dict sz key) \<and> dict_map (sample_dict sz key) = [key \<mapsto> 7]"
proof -
  have T: "dict_type_ok int_type" by (simp add: dict_type_ok_def int_type_def)
  let ?c = "dictCreate int_type :: (nat, nat) dict"
  have C: "dict_inv ?c" "dict_map ?c = Map.empty" "dict_room ?c" by (rule dictCreate_ok [OF T])+
  obtain d b where E: "dictExpand ?c sz = (d, b)" "dict_ok d" "dict_entries d = dict_entries ?c"
    "dict_map d = dict_map ?c"
    using dictExpand_spec [OF dict_invD(1) [OF C(1)], of sz] assms by auto
  have r: "dict_room d"
    using dict_invD(1) [OF C(1)] C(3) E(2,3) by (simp add: dict_room_def dict_size_entries)
  have "dict_inv d" using dictExpand_small [OF dict_invD(2) [OF C(1)], of sz] E(1,2) assms by (simp add: dict_inv_def)
  from dictAdd_spec [OF this r, of True 0 key 7] E(1,4) C(2) show ?thesis
    by (auto simp: sample_dict_def)
qed

lemma scan_ok_examples:
  "scan_ok wide_dict \<and> dict_map wide_dict = [4 \<mapsto> 7]"
  "scan_ok shrinking_dict \<and> dict_map shrinking_dict = [4 \<mapsto> 7]"
  "scan_ok growing_dict \<and> dict_map growing_dict = [2 \<mapsto> 7]"
proof -
  note wide = sample_dict_ok [of 16 4, folded wide_dict_def, simplified]
  have "dict_room wide_dict" by (simp add: wide_dict_value dict_room_def dictSize_def)
  from dictResize_spec [OF conjunct1 [OF wide] this, of True] wide
  have shr: "dict_ok shrinking_dict" "dict_map shrinking_dict = [4 \<mapsto> 7]"
    by (auto simp: shrinking_dict_def dict_inv_def)
  from dictExpand_spec [of "sample_dict 4 2" 8] dict_invD(1) [OF conjunct1 [OF sample_dict_ok [of 4 2]]] sample_dict_ok [of 4 2]
  have grow: "dict_ok growing_dict" "dict_map growing_dict = [2 \<mapsto> 7]"
    by (auto simp: growing_dict_def)
  show "scan_ok wide_dict \<and> dict_map wide_dict = [4 \<mapsto> 7]"
    using wide by (simp add: scan_ok_def dict_inv_def) (simp add: wide_dict_value int_type_def)
  show "scan_ok shrinking_dict \<and> dict_map shrinking_dict = [4 \<mapsto> 7]"
    using shr by (simp add: scan_ok_def) (simp add: shrinking_dict_value wide_dict_value int_type_def)
  show "scan_ok growing_dict \<and> dict_map growing_dict = [2 \<mapsto> 7]"
    using grow by (simp add: scan_ok_def) (simp add: growing_dict_value int_type_def)
qed

lemma growing_iteration:
  "all_safe (replicate 4 growing_dict) 0"
  "scan_calls (replicate 4 growing_dict) 0 = Some (0, [(2, 7)])"
proof -
  have r: "replicate 4 growing_dict = [growing_dict, growing_dict, growing_dict, growing_dict]"
    by (simp add: numeral_eq_Suc)
  have "sizemask (small_ht growing_dict) = 3" by (simp add: growing_dict_value small_ht_def)
  then show "all_safe (replicate 4 growing_dict) 0"
    unfolding r by (simp add: growing_dict_scan scan_safe_def)
  show "scan_calls (replicate 4 growing_dict) 0 = Some (0, [(2, 7)])"
    unfolding r by (simp add: growing_dict_scan)
qed

text \<open>
  C5. An iteration returns every element that is there throughout. The calls may see the dictionary
  in any states (resized, rehashed in part, with other elements coming and going between the calls);
  when every call is safe (no rehash in progress, or the cursor fits the smaller table) and the last
  one returns the cursor 0, then every key that is present in all these states was emitted.
\<close>

theorem dictScan_covers:
  assumes "\<forall>d \<in> set ds. scan_ok d \<and> d_type d = T \<and> dict_map d k \<noteq> None"
    and "ds \<noteq> []" and "all_safe ds 0" and "scan_calls ds 0 = Some (0, E)"
  shows "k \<in> fst ` set E"
  using scan_calls_cover [OF assms(1,3,2,4)] by simp

theorem dictScan_covers_witness:
  "2 \<in> fst ` set [(2 :: nat, 7 :: nat)] \<and> dictIsRehashing growing_dict"
proof
  show "2 \<in> fst ` set [(2 :: nat, 7 :: nat)]"
    by (rule dictScan_covers [where ds = "replicate 4 growing_dict" and T = int_type])
      (use scan_ok_examples(3) growing_iteration in \<open>auto simp: growing_dict_value\<close>)
qed (simp add: growing_dict_value dictIsRehashing_def)

text \<open>
  C22. An iteration ends: when the smaller table of each state has at most 2 to the m buckets, a call
  among the first 2 to the m ones returns the cursor 0, whatever happens to the dictionary between
  the calls.
\<close>

theorem dictScan_returns:
  assumes "\<forall>d \<in> set ds. scan_ok d \<and> ht_size (small_ht d) \<le> 2 ^ m" and "m \<le> 64"
    and "length ds = 2 ^ m"
  shows "\<exists>n E. 0 < n \<and> n \<le> 2 ^ m \<and> scan_calls (take n ds) 0 = Some (0, E)"
  using scan_calls_return [OF assms(1,2), of 0] assms(3) by simp

theorem dictScan_returns_witness:
  "\<exists>n E. 0 < n \<and> n \<le> 4 \<and> scan_calls (take n (replicate 4 growing_dict)) 0 = Some (0, E)"
  using dictScan_returns [of "replicate 4 growing_dict" 2] scan_ok_examples(3)
  by (simp add: growing_dict_value small_ht_def)

text \<open>
  C37. The limit of the guarantee: a table of 16 buckets is resized to 4 after the first call of an
  iteration. The cursor 8 does not fit the smaller table, the loop over the expansions starts in the
  middle, and the iteration ends without the element 4, which was there all along.
\<close>

theorem dictScan_shrink_misses:
  "shrinking_dict = fst (dictResize True wide_dict)
   \<and> scan_ok wide_dict \<and> scan_ok shrinking_dict
   \<and> dict_map wide_dict 4 = Some 7 \<and> dict_map shrinking_dict 4 = Some 7
   \<and> scan_calls (wide_dict # replicate 4 shrinking_dict) 0 = Some (0, [])"
proof (intro conjI)
  show "shrinking_dict = fst (dictResize True wide_dict)" by (simp add: shrinking_dict_def)
  show "scan_calls (wide_dict # replicate 4 shrinking_dict) 0 = Some (0, [])"
    by (simp add: wide_dict_scan numeral_eq_Suc)
qed (simp_all add: scan_ok_examples)

end
