(* ===== verification/Dict_Run.thy ===== *)
theory Dict_Run
  imports Dict_Scan
begin

text \<open>
  The hash table of \<open>src/dict.c\<close> used through its interface: any sequence of operations, with
  resizes and rehash steps of the server's timer anywhere between them, answers as a finite map does.
\<close>

datatype ('k, 'v) dict_op =
    FetchValue 'k | Add 'k 'v | Replace 'k 'v | Delete 'k | Resize | Rehash nat | Empty
  | EnableResize | DisableResize

datatype 'v dict_answer = Found "'v option" | Status bool | Done

text \<open>The state: the dictionary and the variable \<open>dict_can_resize\<close>.\<close>

type_synonym ('k, 'v) dict_state = "('k, 'v) dict \<times> bool"

fun dict_step ::
  "'v \<Rightarrow> ('k, 'v) dict_op \<Rightarrow> ('k, 'v) dict_state \<Rightarrow> (('k, 'v) dict_state \<times> 'v dict_answer) option"
where
  "dict_step g (FetchValue k) (d, cr) = map_option (\<lambda>(d', r). ((d', cr), Found r)) (dictFetchValue d k)"
| "dict_step g (Add k v) (d, cr) = map_option (\<lambda>(d', r). ((d', cr), Status r)) (dictAdd cr g d k v)"
| "dict_step g (Replace k v) (d, cr) =
     map_option (\<lambda>(d', r). ((d', cr), Status r)) (dictReplace cr g d k v)"
| "dict_step g (Delete k) (d, cr) = map_option (\<lambda>(d', r). ((d', cr), Status r)) (dictDelete d k)"
| "dict_step g Resize (d, cr) = Some ((fst (dictResize cr d), cr), Done)"
| "dict_step g (Rehash n) (d, cr) = map_option (\<lambda>(d', r). ((d', cr), Done)) (dictRehash d (int n))"
| "dict_step g Empty (d, cr) = Some ((dictEmpty d, cr), Done)"
| "dict_step g EnableResize (d, cr) = Some ((d, True), Done)"
| "dict_step g DisableResize (d, cr) = Some ((d, False), Done)"

fun map_step :: "('k, 'v) dict_op \<Rightarrow> ('k \<Rightarrow> 'v option) \<Rightarrow> ('k \<Rightarrow> 'v option) \<times> 'v dict_answer" where
  "map_step (FetchValue k) m = (m, Found (m k))"
| "map_step (Add k v) m = (if m k = None then (m(k \<mapsto> v), Status True) else (m, Status False))"
| "map_step (Replace k v) m = (m(k \<mapsto> v), Status (m k = None))"
| "map_step (Delete k) m = (m(k := None), Status (m k \<noteq> None))"
| "map_step Resize m = (m, Done)"
| "map_step (Rehash n) m = (m, Done)"
| "map_step Empty m = (Map.empty, Done)"
| "map_step EnableResize m = (m, Done)"
| "map_step DisableResize m = (m, Done)"

fun dict_run :: "'v \<Rightarrow> ('k, 'v) dict_op list \<Rightarrow> ('k, 'v) dict_state \<Rightarrow>
    (('k, 'v) dict_state \<times> 'v dict_answer list) option" where
  "dict_run g [] s = Some (s, [])"
| "dict_run g (x # xs) s =
     (case dict_step g x s of
        None \<Rightarrow> None
      | Some (s, r) \<Rightarrow> map_option (\<lambda>(s, rs). (s, r # rs)) (dict_run g xs s))"

fun map_run :: "('k, 'v) dict_op list \<Rightarrow> ('k \<Rightarrow> 'v option) \<Rightarrow> ('k \<Rightarrow> 'v option) \<times> 'v dict_answer list" where
  "map_run [] m = (m, [])"
| "map_run (x # xs) m =
     (let (m, r) = map_step x m; (m, rs) = map_run xs m in (m, r # rs))"

subsection \<open>The number of elements\<close>

lemma dictSize_card: "dict_ok d \<Longrightarrow> dictSize d = card (dom (dict_map d))"
proof -
  assume ok: "dict_ok d"
  then have "distinct (map fst (dict_entries d))" by (rule dict_okD)
  then have "card (fst ` set (dict_entries d)) = length (dict_entries d)"
    using distinct_card by fastforce
  then show ?thesis using ok by (simp add: dict_size_entries dict_map_def dom_map_of_conv_image_fst)
qed

lemma dom_dict_map: "finite (dom (dict_map d))"
  by (simp add: dict_map_def finite_dom_map_of)

lemma map_step_dom:
  assumes "finite (dom m)"
  shows "finite (dom (fst (map_step x m))) \<and> card (dom (fst (map_step x m))) \<le> card (dom m) + 1"
  using assms
  by (cases x) (auto simp: card_insert_if fun_upd_def [symmetric] intro: le_SucI card_Diff1_le)

subsection \<open>Rehashing and clearing\<close>

lemma dictRehash_spec:
  assumes "dict_inv d" and "0 \<le> n"
  shows "\<exists>d'. dictRehash d n = Some (d', dictIsRehashing d') \<and> dict_inv d' \<and> dict_map d' = dict_map d
    \<and> mset (dict_entries d') = mset (dict_entries d)
    \<and> (int (used (ht0 d)) < n \<longrightarrow> \<not> dictIsRehashing d')"
proof (cases "dictIsRehashing d")
  case False
  with assms show ?thesis by (simp add: dictRehash_def)
next
  case True
  note ok = dict_invD [OF assms(1)]
  have r: "rehashidx d \<noteq> - 1" using True by (simp add: dictIsRehashing_def)
  obtain d' more where R: "rehash_loop (nat n) d = Some (d', more)" "dict_ok d'" "dict_map d' = dict_map d"
    "mset (dict_entries d') = mset (dict_entries d)" "more = dictIsRehashing d'"
    "dictIsRehashing d' \<longrightarrow> used (ht0 d') + nat n \<le> used (ht0 d) \<and> ht_size (ht0 d') = ht_size (ht0 d) \<and> ht_size (ht1 d') = ht_size (ht1 d)"
    "\<not> dictIsRehashing d' \<longrightarrow> ht_size (ht0 d') = ht_size (ht1 d)"
    using rehash_loop_spec [OF ok(1) r ok(2), of "nat n"] by blast
  have "dict_small d'" by (rule rehash_small [OF R(2) ok(2) _ R(7)]) (use R(6) in blast)
  moreover have "int (used (ht0 d)) < n \<longrightarrow> \<not> dictIsRehashing d'" using R(6) by linarith
  ultimately show ?thesis using R True assms(2) by (simp add: dictRehash_def dict_inv_def)
qed

lemma clear_chain_decr: "length ch \<le> u \<Longrightarrow> clear_chain ch u = u - length ch"
  by (induction ch arbitrary: u) auto

lemma clear_loop_all: "length (concat tab) = u \<Longrightarrow> clear_loop tab u = concat tab"
  by (induction tab arbitrary: u) (auto simp: clear_chain_decr)

lemma dictClear_all: "ht_ok T ht \<Longrightarrow> dictClear ht = (concat (table ht), dictReset)"
  by (simp add: dictClear_def clear_loop_all ht_ok_def)

lemma dictEmpty_ok:
  assumes "dict_inv d"
  shows "dict_inv (dictEmpty d) \<and> dict_map (dictEmpty d) = Map.empty"
  using dict_okD [OF dict_invD(1) [OF assms]]
  by (simp add: dictEmpty_def dictClear_all dict_ok_def dict_entries_def dict_map_def dict_inv_def dict_small_def)

subsection \<open>One operation\<close>

lemma dict_step_spec:
  assumes "dict_inv d" and "card (dom (dict_map d)) < 2 ^ 29"
  shows "\<exists>d' cr'. dict_step g x (d, cr) = Some ((d', cr'), snd (map_step x (dict_map d)))
    \<and> dict_inv d' \<and> dict_map d' = fst (map_step x (dict_map d))"
proof -
  have room: "dict_room d" using assms by (simp add: dict_room_def dictSize_card dict_inv_def)
  show ?thesis
  proof (cases x)
    case (FetchValue k)
    then show ?thesis using dict_store.find_spec [OF assms(1), of k] by auto
  next
    case (Add k v)
    then show ?thesis using dict_store.add_spec [OF assms(1) room, of cr g k v] by auto
  next
    case (Replace k v)
    then show ?thesis using dict_store.replace_spec [OF assms(1) room, of cr g k v] by auto
  next
    case (Delete k)
    then show ?thesis using dict_store.delete_spec [OF assms(1), of k] by auto
  next
    case Resize
    then show ?thesis using dictResize_spec [OF assms(1) room, of cr] by auto
  next
    case (Rehash n)
    then show ?thesis using dictRehash_spec [OF assms(1), of "int n"] by auto
  next
    case Empty
    then show ?thesis using dictEmpty_ok [OF assms(1)] by simp
  qed (use assms(1) in auto)
qed

lemma dict_run_spec:
  assumes "dict_inv d" and "card (dom (dict_map d)) + length xs \<le> 2 ^ 29"
  shows "\<exists>d' cr'. dict_run g xs (d, cr) = Some ((d', cr'), snd (map_run xs (dict_map d)))
    \<and> dict_inv d' \<and> dict_map d' = fst (map_run xs (dict_map d))"
  using assms
proof (induction xs arbitrary: d cr)
  case (Cons x xs)
  obtain d1 cr1 where S: "dict_step g x (d, cr) = Some ((d1, cr1), snd (map_step x (dict_map d)))"
    "dict_inv d1" "dict_map d1 = fst (map_step x (dict_map d))"
    using dict_step_spec [OF Cons.prems(1), of g x cr] Cons.prems(2) by auto
  have "card (dom (dict_map d1)) + length xs \<le> 2 ^ 29"
    using map_step_dom [OF dom_dict_map, of x d] S(3) Cons.prems(2) by simp
  from Cons.IH [OF S(2) this, of cr1] S show ?case by (auto simp: split_beta Let_def)
qed simp

subsection \<open>Properties\<close>

text \<open>
  C1. From a new dictionary, every sequence of up to 2 to the 29 lookups, additions, replacements and
  deletions, with resizes, rehash steps, clearing and changes of \<open>dict_can_resize\<close> between them, runs
  without a fault (no failed assertion, no access outside a table, no overflow of an \<open>int\<close> index)
  and answers exactly as a finite map does. The bound keeps every table within 2 to the 30 buckets,
  which \<open>int\<close> indices can count.
\<close>

theorem dict_refines_map:
  assumes "dict_type_ok T" and "length xs \<le> 2 ^ 29"
  shows "\<exists>d cr'. dict_run g xs (dictCreate T, cr) = Some ((d, cr'), snd (map_run xs Map.empty))
    \<and> dict_inv d \<and> dict_map d = fst (map_run xs Map.empty)"
proof -
  have C: "dict_inv (dictCreate T)" "dict_map (dictCreate T) = Map.empty" by (rule dictCreate_ok [OF assms(1)])+
  from dict_run_spec [OF C(1), of xs g cr] assms(2) show ?thesis by (simp add: C(2))
qed

theorem dict_refines_map_witness:
  "\<exists>d cr. dict_run (0 :: nat) [Add 1 10, Add 5 50, Add 1 11, Delete 1, Resize, FetchValue 5, FetchValue 1]
      (dictCreate \<lparr>hashFunction = (\<lambda>k :: nat. k), keyCompare = (=)\<rparr>, True)
    = Some ((d, cr), [Status True, Status True, Status False, Status True, Done, Found (Some 50), Found None])
    \<and> dict_inv d \<and> dict_map d = [5 \<mapsto> 50]"
  using dict_refines_map [of "\<lparr>hashFunction = (\<lambda>k :: nat. k), keyCompare = (=)\<rparr>"
      "[Add 1 10, Add 5 50, Add 1 11, Delete 1, Resize, FetchValue 5, FetchValue 1]" "0 :: nat" True]
  by (simp add: dict_type_ok_def fun_upd_twist)

text \<open>
  C21. A rehash ends and loses nothing: in tables of at most 2 to the 30 buckets, \<open>dictRehash\<close> with
  more steps than the old table has elements leaves no rehash in progress and never overflows
  \<open>rehashidx\<close>, and the entries are the same, only their order may differ.
\<close>

theorem dictRehash_completes:
  assumes "dict_ok d" and "ht_size (ht0 d) \<le> 2 ^ 30" and "ht_size (ht1 d) \<le> 2 ^ 30" and "int (used (ht0 d)) < n"
  shows "\<exists>d'. dictRehash d n = Some (d', False) \<and> \<not> dictIsRehashing d' \<and> dict_ok d'
    \<and> mset (dict_entries d') = mset (dict_entries d) \<and> dict_map d' = dict_map d"
proof -
  have "dict_inv d" using assms(1-3) by (simp add: dict_inv_def dict_small_def)
  from dictRehash_spec [OF this, of n] assms(4) show ?thesis by (auto simp: dict_inv_def)
qed

theorem dictRehash_completes_witness:
  "\<exists>d'. dictRehash growing_dict 2 = Some (d', False) \<and> dict_map d' = [2 \<mapsto> 7]"
  using dictRehash_completes [of growing_dict 2] scan_ok_examples(3)
  by (auto simp: scan_ok_def growing_dict_value)

text \<open>
  C20. \<open>dictRelease\<close> hands every entry to the destructors exactly once, old and new table of a
  rehash in progress included.
\<close>

theorem dictRelease_frees_all:
  assumes "dict_ok d"
  shows "dictRelease d = dict_entries d \<and> distinct (map fst (dictRelease d))
    \<and> length (dictRelease d) = dictSize d"
  using dict_okD [OF assms] assms
  by (simp add: dictRelease_def dictClear_all dict_entries_def dict_size_entries)

lemma growing_size: "dictSize growing_dict = 1"
  by (simp add: growing_dict_value dictSize_def)

theorem dictRelease_frees_all_witness:
  "length (dictRelease growing_dict) = 1"
proof -
  have "dict_ok growing_dict" using scan_ok_examples(3) by (simp add: scan_ok_def)
  from dictRelease_frees_all [OF this] show ?thesis unfolding growing_size by (elim conjE)
qed

end
