(* ===== verification/Byte_Buffer.thy ===== *)
theory Byte_Buffer
  imports Redis_Prelude
begin

text \<open>
  Buffers of bytes with checked access: the reads, writes, moves and resizes that the packed
  encodings (integer sets, ziplists, zipmaps) are made of. An access outside the buffer is
  \<open>None\<close>. The lemmas treat a buffer as a row of cells.
\<close>

named_theorems buffer_simps \<open>accesses to a buffer made of cells\<close>

definition read_bytes :: "byte list \<Rightarrow> nat \<Rightarrow> nat \<Rightarrow> byte list option" where
  "read_bytes b off n = (if off + n \<le> length b then Some (take n (drop off b)) else None)"

definition write_bytes :: "byte list \<Rightarrow> nat \<Rightarrow> byte list \<Rightarrow> byte list option" where
  "write_bytes b off x =
     (if off + length x \<le> length b then Some (take off b @ x @ drop (off + length x) b) else None)"

text \<open>\<open>memmove (dst, src, n)\<close> inside one buffer.\<close>

definition move_bytes :: "byte list \<Rightarrow> nat \<Rightarrow> nat \<Rightarrow> nat \<Rightarrow> byte list option" where
  "move_bytes b dst src n =
     (case read_bytes b src n of None \<Rightarrow> None | Some x \<Rightarrow> write_bytes b dst x)"

text \<open>\<open>zrealloc\<close>: what a grown buffer holds behind the old contents is up to the allocator.\<close>

definition resize_bytes :: "(nat \<Rightarrow> byte) \<Rightarrow> byte list \<Rightarrow> nat \<Rightarrow> byte list" where
  "resize_bytes fresh b n = take n b @ map fresh [length b..<n]"

lemma length_resize_bytes [simp]: "length (resize_bytes fresh b n) = n"
  by (simp add: resize_bytes_def)

lemma take_resize_bytes: "k \<le> length b \<Longrightarrow> k \<le> n \<Longrightarrow> take k (resize_bytes fresh b n) = take k b"
  by (simp add: resize_bytes_def)

lemma resize_grow: "length b \<le> n \<Longrightarrow> resize_bytes fresh b n = b @ map fresh [length b..<n]"
  by (simp add: resize_bytes_def)

lemma resize_shrink: "n \<le> length b \<Longrightarrow> resize_bytes fresh b n = take n b"
  by (simp add: resize_bytes_def)

lemma write_bytes_length: "write_bytes b off x = Some b' \<Longrightarrow> length b' = length b"
  by (auto simp: write_bytes_def split: if_splits)

subsection \<open>Three parts\<close>

lemma read_bytes_mid [buffer_simps]: "off = length a \<Longrightarrow> n = length x \<Longrightarrow> read_bytes (a @ x @ c) off n = Some x"
  by (simp add: read_bytes_def)

lemma write_bytes_mid [buffer_simps]:
  "off = length a \<Longrightarrow> length x = length y \<Longrightarrow> write_bytes (a @ y @ c) off x = Some (a @ x @ c)"
  by (simp add: write_bytes_def)

subsection \<open>Cells of equal size\<close>

definition cells :: "nat \<Rightarrow> byte list list \<Rightarrow> bool" where
  "cells n cs \<longleftrightarrow> (\<forall>c \<in> set cs. length c = n)"

lemma cells_simps [simp]:
  "cells n []" "cells n (c # cs) = (length c = n \<and> cells n cs)"
  "cells n (cs @ ds) = (cells n cs \<and> cells n ds)"
  by (auto simp: cells_def)

lemma cells_map_le_bytes [simp]: "cells n (map (le_bytes n) vs)"
  by (auto simp: cells_def)

lemma cells_take [simp]: "cells n cs \<Longrightarrow> cells n (take i cs)" "cells n cs \<Longrightarrow> cells n (drop i cs)"
  by (auto simp: cells_def dest: in_set_takeD in_set_dropD)

lemma cells_length: "cells n cs \<Longrightarrow> length (concat cs) = length cs * n"
  by (induction cs) auto

lemma cells_take_concat: "cells n cs \<Longrightarrow> take (i * n) (concat cs) = concat (take i cs)"
proof (induction cs arbitrary: i)
  case (Cons c cs)
  then show ?case by (cases i) auto
qed simp

lemma cells_drop_concat: "cells n cs \<Longrightarrow> drop (i * n) (concat cs) = concat (drop i cs)"
proof (induction cs arbitrary: i)
  case (Cons c cs)
  then show ?case by (cases i) auto
qed simp

lemma read_cell [buffer_simps]:
  assumes "cells n cs" and "i < length cs"
  shows "read_bytes (concat cs @ r) (i * n) n = Some (cs ! i)"
proof -
  have "concat cs @ r = concat (take i cs) @ cs ! i @ concat (drop (Suc i) cs) @ r"
    using id_take_nth_drop [OF assms(2)] by (metis append.assoc concat.simps(2) concat_append)
  moreover have "length (cs ! i) = n" using assms by (simp add: cells_def)
  moreover have "length (concat (take i cs)) = i * n"
    using cells_length [OF cells_take(1) [OF assms(1)], of i] assms(2) by simp
  ultimately show ?thesis by (simp add: read_bytes_mid)
qed

lemma write_cell [buffer_simps]:
  assumes "cells n cs" and "i < length cs" and "length x = n"
  shows "write_bytes (concat cs) (i * n) x = Some (concat (cs[i := x]))"
proof -
  have "concat cs = concat (take i cs) @ cs ! i @ concat (drop (Suc i) cs)"
    using id_take_nth_drop [OF assms(2)] by (metis concat.simps(2) concat_append)
  moreover have "length (cs ! i) = n" using assms by (simp add: cells_def)
  moreover have "length (concat (take i cs)) = i * n"
    using cells_length [OF cells_take(1) [OF assms(1)], of i] assms(2) by simp
  ultimately show ?thesis using assms by (simp add: write_bytes_mid upd_conv_take_nth_drop)
qed

lemma move_cells [buffer_simps]:
  assumes "cells n cs" and "src + k \<le> length cs" and "dst + k \<le> length cs"
  shows "move_bytes (concat cs) (dst * n) (src * n) (k * n)
    = Some (concat (take dst cs @ take k (drop src cs) @ drop (dst + k) cs))"
proof -
  let ?x = "concat (take k (drop src cs))"
  have len: "length ?x = k * n" "length (concat cs) = length cs * n"
    using assms cells_length [of n "take k (drop src cs)"] cells_length [OF assms(1)] by simp_all
  have "src * n + k * n \<le> length cs * n" "dst * n + k * n \<le> length cs * n"
    using assms(2,3) by (simp_all flip: add_mult_distrib)
  moreover have "take (k * n) (drop (src * n) (concat cs)) = ?x"
    using assms(1) by (simp add: cells_drop_concat cells_take_concat)
  moreover have "drop (dst * n + k * n) (concat cs) = concat (drop (dst + k) cs)"
    using cells_drop_concat [OF assms(1), of "dst + k"] by (simp add: add_mult_distrib)
  ultimately show ?thesis
    using assms(1) len
    by (simp add: move_bytes_def read_bytes_def write_bytes_def cells_take_concat)
qed

end
