(* ===== verification/Intset.thy ===== *)
theory Intset
  imports Byte_Buffer
begin

text \<open>
  Integer sets (\<open>src/intset.c\<close>): a sorted array of integers of 2, 4 or 8 bytes each, in little
  endian order, that is widened when a value does not fit. The record is the struct, with the array
  as the bytes behind it. \<open>None\<close> is an access outside the allocation. \<open>fresh\<close> gives the
  bytes that \<open>zrealloc\<close> leaves behind the old contents.
\<close>

record intset =
  encoding :: nat
  is_length :: nat
  contents :: "byte list"

definition INTSET_ENC_INT16 :: nat where "INTSET_ENC_INT16 = 2"
definition INTSET_ENC_INT32 :: nat where "INTSET_ENC_INT32 = 4"
definition INTSET_ENC_INT64 :: nat where "INTSET_ENC_INT64 = 8"

lemmas intset_encs = INTSET_ENC_INT16_def INTSET_ENC_INT32_def INTSET_ENC_INT64_def

subsection \<open>The code\<close>

definition intsetValueEncoding :: "int \<Rightarrow> nat" where
  "intsetValueEncoding v =
     (if v < INT32_MIN \<or> v > INT32_MAX then INTSET_ENC_INT64
      else if v < INT16_MIN \<or> v > INT16_MAX then INTSET_ENC_INT32
      else INTSET_ENC_INT16)"

text \<open>The width of an access: the code's three cases, the last for every other encoding.\<close>

definition enc_width :: "nat \<Rightarrow> nat" where
  "enc_width enc =
     (if enc = INTSET_ENC_INT64 then 8 else if enc = INTSET_ENC_INT32 then 4 else 2)"

definition intsetGetEncoded :: "intset \<Rightarrow> int \<Rightarrow> nat \<Rightarrow> int option" where
  "intsetGetEncoded is pos enc =
     (if pos < 0 then None
      else map_option le_sint (read_bytes (contents is) (nat pos * enc_width enc) (enc_width enc)))"

definition intsetGet0 :: "intset \<Rightarrow> int \<Rightarrow> int option" where
  "intsetGet0 is pos = intsetGetEncoded is pos (encoding is)"

definition intsetSet :: "intset \<Rightarrow> int \<Rightarrow> int \<Rightarrow> intset option" where
  "intsetSet is pos value =
     (let w = enc_width (encoding is)
      in if pos < 0 then None
         else map_option (\<lambda>b. is\<lparr>contents := b\<rparr>)
           (write_bytes (contents is) (nat pos * w) (le_bytes w value)))"

definition intsetNew :: intset where
  "intsetNew = \<lparr>encoding = INTSET_ENC_INT16, is_length = 0, contents = []\<rparr>"

definition intsetResize :: "(nat \<Rightarrow> byte) \<Rightarrow> intset \<Rightarrow> nat \<Rightarrow> intset" where
  "intsetResize fresh is len =
     (let sz = u32 (int (len * encoding is))
      in is\<lparr>contents := resize_bytes fresh (contents is) sz\<rparr>)"

text \<open>The loop of the binary search: \<open>min\<close>, \<open>mid\<close> and \<open>cur\<close> when it is left.\<close>

function search_loop :: "intset \<Rightarrow> int \<Rightarrow> int \<Rightarrow> int \<Rightarrow> int \<Rightarrow> int \<Rightarrow> (int \<times> int \<times> int) option" where
  "search_loop is value lo hi mid cur =
     (if hi \<ge> lo then
        let mid = (lo + hi) div 2
        in case intsetGet0 is mid of
             None \<Rightarrow> None
           | Some cur \<Rightarrow>
               if value > cur then search_loop is value (mid + 1) hi mid cur
               else if value < cur then search_loop is value lo (mid - 1) mid cur
               else Some (lo, mid, cur)
      else Some (lo, mid, cur))"
  by pat_completeness auto
termination
  by (relation "measure (\<lambda>(is, value, lo, hi, mid, cur). nat (hi - lo + 1))") auto

declare search_loop.simps [simp del]

definition intsetSearch :: "intset \<Rightarrow> int \<Rightarrow> (bool \<times> nat) option" where
  "intsetSearch is value =
     (let hi = s32 (int (is_length is) - 1);
          go = (case search_loop is value 0 hi (- 1) (- 1) of
                  None \<Rightarrow> None
                | Some (lo, mid, cur) \<Rightarrow>
                    if value = cur then Some (True, nat mid) else Some (False, nat lo))
      in if is_length is = 0 then Some (False, 0)
         else case intsetGet0 is (s32 (int (is_length is) - 1)) of
                None \<Rightarrow> None
              | Some l \<Rightarrow>
                  if value > l then Some (False, is_length is)
                  else case intsetGet0 is 0 of
                         None \<Rightarrow> None
                       | Some f \<Rightarrow> if value < f then Some (False, 0) else go)"

text \<open>\<open>while (length--)\<close>: from the last element to the first.\<close>

fun upgrade_loop :: "nat \<Rightarrow> int \<Rightarrow> nat \<Rightarrow> intset \<Rightarrow> intset option" where
  "upgrade_loop 0 prepend curenc is = Some is"
| "upgrade_loop (Suc i) prepend curenc is =
     (case intsetGetEncoded is (int i) curenc of
        None \<Rightarrow> None
      | Some v \<Rightarrow>
          (case intsetSet is (int i + prepend) v of
             None \<Rightarrow> None
           | Some is \<Rightarrow> upgrade_loop i prepend curenc is))"

definition intsetUpgradeAndAdd :: "(nat \<Rightarrow> byte) \<Rightarrow> intset \<Rightarrow> int \<Rightarrow> intset option" where
  "intsetUpgradeAndAdd fresh is value =
     (let curenc = encoding is; newenc = intsetValueEncoding value; prepend = (if value < 0 then 1 else 0);
          is = is\<lparr>encoding := newenc\<rparr>;
          is = intsetResize fresh is (u32 (int (is_length is) + 1))
      in case upgrade_loop (is_length is) prepend curenc is of
           None \<Rightarrow> None
         | Some is \<Rightarrow>
             (case intsetSet is (if prepend \<noteq> 0 then 0 else int (is_length is)) value of
                None \<Rightarrow> None
              | Some is \<Rightarrow> Some (is\<lparr>is_length := u32 (int (is_length is) + 1)\<rparr>)))"

definition intsetMoveTail :: "intset \<Rightarrow> nat \<Rightarrow> nat \<Rightarrow> intset option" where
  "intsetMoveTail is src dst =
     (let w = enc_width (encoding is); n = u32 (int (u32 (int (is_length is) - int src)) * int w)
      in map_option (\<lambda>b. is\<lparr>contents := b\<rparr>) (move_bytes (contents is) (dst * w) (src * w) n))"

definition intsetAdd :: "(nat \<Rightarrow> byte) \<Rightarrow> intset \<Rightarrow> int \<Rightarrow> (intset \<times> bool) option" where
  "intsetAdd fresh is value =
     (if intsetValueEncoding value > encoding is then
        map_option (\<lambda>is. (is, True)) (intsetUpgradeAndAdd fresh is value)
      else case intsetSearch is value of
             None \<Rightarrow> None
           | Some (True, pos) \<Rightarrow> Some (is, False)
           | Some (False, pos) \<Rightarrow>
               let is = intsetResize fresh is (u32 (int (is_length is) + 1))
               in case (if pos < is_length is then intsetMoveTail is pos (u32 (int pos + 1)) else Some is) of
                    None \<Rightarrow> None
                  | Some is \<Rightarrow>
                      (case intsetSet is (int pos) value of
                         None \<Rightarrow> None
                       | Some is \<Rightarrow> Some (is\<lparr>is_length := u32 (int (is_length is) + 1)\<rparr>, True)))"

definition intsetRemove :: "(nat \<Rightarrow> byte) \<Rightarrow> intset \<Rightarrow> int \<Rightarrow> (intset \<times> bool) option" where
  "intsetRemove fresh is value =
     (if intsetValueEncoding value \<le> encoding is then
        case intsetSearch is value of
          None \<Rightarrow> None
        | Some (False, pos) \<Rightarrow> Some (is, False)
        | Some (True, pos) \<Rightarrow>
            let len = is_length is
            in case (if pos < u32 (int len - 1) then intsetMoveTail is (u32 (int pos + 1)) pos else Some is) of
                 None \<Rightarrow> None
               | Some is \<Rightarrow>
                   Some ((intsetResize fresh is (u32 (int len - 1)))\<lparr>is_length := u32 (int len - 1)\<rparr>, True)
      else Some (is, False))"

definition intsetFind :: "intset \<Rightarrow> int \<Rightarrow> bool option" where
  "intsetFind is value =
     (if intsetValueEncoding value \<le> encoding is then map_option fst (intsetSearch is value)
      else Some False)"

text \<open>\<open>rand ()\<close> is the argument \<open>r\<close>. An empty set divides by zero.\<close>

definition intsetRandom :: "nat \<Rightarrow> intset \<Rightarrow> int option" where
  "intsetRandom r is =
     (if is_length is = 0 then None else intsetGet0 is (int (r mod is_length is)))"

text \<open>\<open>Some None\<close> is the result 0: the position is out of range.\<close>

definition intsetGet :: "intset \<Rightarrow> nat \<Rightarrow> int option option" where
  "intsetGet is pos =
     (if pos < is_length is then map_option Some (intsetGet0 is (int pos)) else Some None)"

definition intsetLen :: "intset \<Rightarrow> nat" where
  "intsetLen is = is_length is"

text \<open>\<open>sizeof (intset)\<close> is 8; the product is one of \<open>uint32_t\<close> values.\<close>

definition intsetBlobLen :: "intset \<Rightarrow> nat" where
  "intsetBlobLen is = 8 + u32 (int (is_length is * encoding is))"

subsection \<open>The invariant\<close>

text \<open>A set of fewer than 2 to the 28 elements: no product or index of the code wraps.\<close>

definition fits :: "nat \<Rightarrow> int \<Rightarrow> bool" where
  "fits enc v \<longleftrightarrow> - (256 ^ enc div 2) \<le> v \<and> v < 256 ^ enc div 2"

definition intset_repr :: "intset \<Rightarrow> int list \<Rightarrow> bool" where
  "intset_repr is vs \<longleftrightarrow>
     encoding is \<in> {2, 4, 8} \<and> is_length is = length vs
     \<and> contents is = concat (map (le_bytes (encoding is)) vs)
     \<and> (\<forall>v \<in> set vs. fits (encoding is) v) \<and> sorted_wrt (<) vs \<and> length vs < 2 ^ 28"

lemma enc_width_id [simp]: "enc \<in> {2, 4, 8} \<Longrightarrow> enc_width enc = enc"
  by (auto simp: enc_width_def intset_encs)

lemma fits_sint [simp]: "fits enc v \<Longrightarrow> 0 < enc \<Longrightarrow> le_sint (le_bytes enc v) = v"
  by (simp add: fits_def le_sint_le_bytes)

lemma value_encoding:
  "intsetValueEncoding v \<in> {2, 4, 8}" "is_int64 v \<Longrightarrow> fits (intsetValueEncoding v) v"
  by (auto simp: intsetValueEncoding_def intset_encs fits_def is_int64_def range_defs)

lemma fits_encoding:
  "enc \<in> {2, 4, 8} \<Longrightarrow> fits enc v \<Longrightarrow> intsetValueEncoding v \<le> enc"
  by (auto simp: intsetValueEncoding_def intset_encs fits_def range_defs)

lemma fits_mono: "is_int64 v \<Longrightarrow> enc \<in> {2, 4, 8} \<Longrightarrow> intsetValueEncoding v \<le> enc \<Longrightarrow> fits enc v"
  by (auto simp: intsetValueEncoding_def intset_encs fits_def is_int64_def range_defs split: if_splits)

lemma fits_wider: "fits e v \<Longrightarrow> e \<in> {2, 4, 8} \<Longrightarrow> e' \<in> {2, 4, 8} \<Longrightarrow> e \<le> e' \<Longrightarrow> fits e' v"
  by (auto simp: fits_def)

subsection \<open>Searching\<close>

lemma s32_small [simp]: "0 \<le> x + 2 ^ 31 \<Longrightarrow> x < 2 ^ 31 \<Longrightarrow> s32 x = x"
  by (simp add: s32_def)

lemma u32_small [simp]: "0 \<le> x \<Longrightarrow> x < 2 ^ 32 \<Longrightarrow> u32 x = nat x"
  by (simp add: u32_def)

lemma repr_pos: "intset_repr is vs \<Longrightarrow> 0 < encoding is \<and> encoding is \<le> 8 \<and> encoding is \<in> {2, 4, 8}"
  by (auto simp: intset_repr_def)

lemma get_encoded_cell:
  assumes "enc \<in> {2, 4, 8}" and "contents is = concat (map (le_bytes enc) vs) @ r"
    and "i < length vs" and "fits enc (vs ! i)"
  shows "intsetGetEncoded is (int i) enc = Some (vs ! i)"
proof -
  have "read_bytes (contents is) (i * enc) enc = Some (le_bytes enc (vs ! i))"
    unfolding assms(2) using read_cell [of enc "map (le_bytes enc) vs" i r] assms(3) by simp
  then show ?thesis using assms(1,4) by (auto simp: intsetGetEncoded_def)
qed

lemma intsetGet0_spec:
  assumes "intset_repr is vs" and "i < length vs"
  shows "intsetGet0 is (int i) = Some (vs ! i)"
  unfolding intsetGet0_def
  by (rule get_encoded_cell [where r = "[]"]) (use assms in \<open>auto simp: intset_repr_def\<close>)

definition split_at :: "int list \<Rightarrow> int \<Rightarrow> nat \<Rightarrow> bool" where
  "split_at vs v p \<longleftrightarrow> p \<le> length vs \<and> (\<forall>x \<in> set (take p vs). x < v) \<and> (\<forall>x \<in> set (drop p vs). v < x)"

lemma split_at_nth:
  assumes "p \<le> length vs" and "\<forall>i < p. vs ! i < v" and "\<forall>i < length vs. p \<le> i \<longrightarrow> v < vs ! i"
  shows "split_at vs v p"
  using assms by (auto simp: split_at_def in_set_conv_nth)

lemma split_at_not_in: "split_at vs v p \<Longrightarrow> v \<notin> set vs"
  by (metis Un_iff append_take_drop_id less_irrefl set_append split_at_def)

lemma split_at_sorted: "split_at vs v p \<Longrightarrow> sorted_wrt (<) vs \<Longrightarrow> sorted_wrt (<) (take p vs @ v # drop p vs)"
  by (simp add: sorted_wrt_append split_at_def sorted_wrt_take sorted_wrt_drop)
    (meson in_set_dropD in_set_takeD less_trans)

lemma sorted_wrt_less: "sorted_wrt (<) (vs :: int list) \<longleftrightarrow> sorted vs \<and> distinct vs"
  by (simp add: strict_sorted_iff)

lemma split_at_insort:
  assumes "split_at vs v p" and "sorted_wrt (<) vs"
  shows "take p vs @ v # drop p vs = insort v vs"
proof (rule sorted_distinct_set_unique)
  have "sorted_wrt (<) (take p vs @ v # drop p vs)" using split_at_sorted assms by blast
  then show "sorted (take p vs @ v # drop p vs)" "distinct (take p vs @ v # drop p vs)"
    unfolding sorted_wrt_less by simp_all
  show "sorted (insort v vs)" "distinct (insort v vs)"
    using assms split_at_not_in by (auto simp: sorted_wrt_less sorted_insort distinct_insort)
  have "set vs = set (take p vs) \<union> set (drop p vs)" by (metis append_take_drop_id set_append)
  then show "set (take p vs @ v # drop p vs) = set (insort v vs)" by (auto simp: set_insort_key)
qed

lemma intset_search_loop_spec:
  assumes "intset_repr is vs" and "0 \<le> lo" and "hi < int (length vs)" and "lo \<le> hi + 1"
    and "\<forall>i < length vs. int i < lo \<longrightarrow> vs ! i < value"
    and "\<forall>i < length vs. hi < int i \<longrightarrow> value < vs ! i"
    and "lo \<le> hi \<or> cur \<noteq> value"
  shows "\<exists>lo' mid' cur'. search_loop is value lo hi mid cur = Some (lo', mid', cur')
    \<and> (if value = cur' then 0 \<le> mid' \<and> nat mid' < length vs \<and> vs ! nat mid' = value
       else 0 \<le> lo' \<and> split_at vs value (nat lo'))"
  using assms
proof (induction "is" "value" lo hi mid cur rule: search_loop.induct)
  case (1 "is" "value" lo hi mid cur)
  note rec = search_loop.simps [of "is" "value" lo hi mid cur]
  have sorted: "sorted_wrt (<) vs" using "1.prems"(1) by (simp add: intset_repr_def)
  show ?case
  proof (cases "lo \<le> hi")
    case False
    then have "lo = hi + 1" using "1.prems"(4) by simp
    then have "split_at vs value (nat lo)" using "1.prems"
      by (intro split_at_nth) auto
    then show ?thesis using False "1.prems"(2,7) rec by simp
  next
    case True
    define m where "m = (lo + hi) div 2"
    have m: "lo \<le> m" "m \<le> hi" using True by (auto simp: m_def)
    then have ml: "nat m < length vs" "m = int (nat m)" using "1.prems"(2,3) by auto
    have get: "intsetGet0 is m = Some (vs ! nat m)"
      using intsetGet0_spec [OF "1.prems"(1) ml(1)] ml(2) by simp
    have below: "vs ! i < vs ! nat m" if "i < nat m" for i
      using sorted_wrt_nth_less [OF sorted that ml(1)] .
    have above: "vs ! nat m < vs ! i" if "nat m < i" "i < length vs" for i
      using sorted_wrt_nth_less [OF sorted that] .
    consider "value > vs ! nat m" | "value < vs ! nat m" | "value = vs ! nat m" by linarith
    then show ?thesis
    proof cases
      case 1
      have "vs ! i < value" if "i < length vs" "int i < m + 1" for i
      proof -
        have "i = nat m \<or> i < nat m" using that(2) ml(2) by linarith
        then show ?thesis using 1 below [of i] by auto
      qed
      then have "\<exists>lo' mid' cur'. search_loop is value (m + 1) hi m (vs ! nat m) = Some (lo', mid', cur')
        \<and> (if value = cur' then 0 \<le> mid' \<and> nat mid' < length vs \<and> vs ! nat mid' = value
           else 0 \<le> lo' \<and> split_at vs value (nat lo'))"
        using "1.IH"(1) [OF True m_def get] "1.prems" 1 m by simp
      moreover have "search_loop is value lo hi mid cur = search_loop is value (m + 1) hi m (vs ! nat m)"
        using rec True get 1 by (simp add: Let_def m_def)
      ultimately show ?thesis by simp
    next
      case 2
      have "value < vs ! i" if "i < length vs" "m - 1 < int i" for i
      proof -
        have "i = nat m \<or> nat m < i" using that(2) ml(2) by linarith
        then show ?thesis using 2 above [of i] that(1) by auto
      qed
      then have "\<exists>lo' mid' cur'. search_loop is value lo (m - 1) m (vs ! nat m) = Some (lo', mid', cur')
        \<and> (if value = cur' then 0 \<le> mid' \<and> nat mid' < length vs \<and> vs ! nat mid' = value
           else 0 \<le> lo' \<and> split_at vs value (nat lo'))"
        using "1.IH"(2) [OF True m_def get] "1.prems" 2 m by simp
      moreover have "search_loop is value lo hi mid cur = search_loop is value lo (m - 1) m (vs ! nat m)"
        using rec True get 2 by (simp add: Let_def m_def)
      ultimately show ?thesis by simp
    next
      case 3
      have "search_loop is value lo hi mid cur = Some (lo, m, vs ! nat m)"
        using rec True get 3 by (simp add: Let_def m_def)
      then show ?thesis using 3 ml m "1.prems"(2) by simp
    qed
  qed
qed

lemma intsetSearch_spec:
  assumes "intset_repr is vs"
  shows "\<exists>p. intsetSearch is v = Some (v \<in> set vs, p)
    \<and> (if v \<in> set vs then p < length vs \<and> vs ! p = v else split_at vs v p)"
proof (cases "vs = []")
  case True
  then show ?thesis using assms by (simp add: intsetSearch_def intset_repr_def split_at_def)
next
  case False
  let ?n = "length vs"
  have len: "is_length is = ?n" "0 < ?n" "?n < 2 ^ 28" "sorted_wrt (<) vs"
    using assms False by (simp_all add: intset_repr_def)
  define l where "l = ?n - 1"
  have suc: "?n = Suc l" using len(2) l_def by linarith
  then have l: "l < ?n" "int (is_length is) - 1 = int l" "?n = Suc l" using len(1) by simp_all
  have hi: "s32 (int (is_length is) - 1) = int l" using l len by simp
  have last: "intsetGet0 is (int l) = Some (vs ! l)"
    by (rule intsetGet0_spec [OF assms l(1)])
  have first: "intsetGet0 is 0 = Some (vs ! 0)" using intsetGet0_spec [OF assms, of 0] len(2) by simp
  have mono: "vs ! i \<le> vs ! j" if "i \<le> j" "j < ?n" for i j
    using sorted_wrt_nth_less [OF len(4), of i j] that by (cases "i = j") auto
  consider "v > vs ! l" | "v < vs ! 0" "v \<le> vs ! l" | "vs ! 0 \<le> v" "v \<le> vs ! l"
    by linarith
  then show ?thesis
  proof cases
    case 1
    have "split_at vs v ?n"
    proof (intro split_at_nth allI impI)
      fix i assume "i < ?n"
      then show "vs ! i < v" using mono [of i l] 1 l by simp
    qed simp_all
    then show ?thesis using 1 last len(1,2) hi split_at_not_in by (auto simp: intsetSearch_def Let_def)
  next
    case 2
    have "split_at vs v 0" using mono [of 0] 2 by (intro split_at_nth) force+
    then show ?thesis
      using 2 last first len(1,2) hi split_at_not_in by (auto simp: intsetSearch_def Let_def)
  next
    case 3
    obtain lo mid cur where L: "search_loop is v 0 (int l) (- 1) (- 1) = Some (lo, mid, cur)"
      "if v = cur then 0 \<le> mid \<and> nat mid < ?n \<and> vs ! nat mid = v else 0 \<le> lo \<and> split_at vs v (nat lo)"
    proof -
      have "\<forall>i < ?n. int l < int i \<longrightarrow> v < vs ! i" using l(3) by simp
      then show thesis using intset_search_loop_spec [OF assms, of 0 "int l" v "- 1" "- 1"] l(1) that by auto
    qed
    have S: "intsetSearch is v = (if v = cur then Some (True, nat mid) else Some (False, nat lo))"
      using L(1) 3 last first len(1,2) hi by (simp add: intsetSearch_def Let_def)
    show ?thesis
    proof (cases "v = cur")
      case True
      with L(2) have "v \<in> set vs" by (metis nth_mem)
      with True L(2) S show ?thesis by simp
    next
      case F: False
      with L(2) have "v \<notin> set vs" using split_at_not_in by auto
      with F L(2) S show ?thesis by simp
    qed
  qed
qed

subsection \<open>Updates\<close>

lemma intsetSet_cell:
  assumes "encoding is \<in> {2, 4, 8}" and "contents is = concat cs" and "cells (encoding is) cs"
    and "i < length cs"
  shows "intsetSet is (int i) v = Some (is\<lparr>contents := concat (cs[i := le_bytes (encoding is) v])\<rparr>)"
  using assms write_cell [OF assms(3,4), of "le_bytes (encoding is) v"] by (simp add: intsetSet_def Let_def)

lemma intsetMoveTail_cells:
  assumes "encoding is \<in> {2, 4, 8}" and "contents is = concat cs" and "cells (encoding is) cs"
    and "length cs < 2 ^ 28" and "is_length is \<le> length cs" and "src \<le> is_length is"
    and "dst + (is_length is - src) \<le> length cs"
  shows "intsetMoveTail is src dst = Some (is\<lparr>contents := concat (take dst cs
    @ take (is_length is - src) (drop src cs) @ drop (dst + (is_length is - src)) cs)\<rparr>)"
proof -
  let ?k = "is_length is - src" and ?e = "encoding is"
  have e: "?e \<le> 8" using assms(1) by auto
  have k: "u32 (int (is_length is) - int src) = ?k"
    using assms(4-6) by (simp add: nat_diff_distrib of_nat_diff)
  have "?k * ?e \<le> 2 ^ 28 * 8" using assms(4,5) e by (intro mult_le_mono) simp_all
  then have "u32 (int ?k * int ?e) = ?k * ?e"
    by (subst u32_small) (simp_all flip: of_nat_mult)
  then show ?thesis
    using move_cells [OF assms(3), of src ?k dst] assms by (simp add: intsetMoveTail_def Let_def k)
qed

lemma intsetResize_size:
  assumes "encoding is \<in> {2, 4, 8}" and "n \<le> 2 ^ 28"
  shows "intsetResize fresh is n = is\<lparr>contents := resize_bytes fresh (contents is) (n * encoding is)\<rparr>"
proof -
  have "n * encoding is \<le> 2 ^ 28 * 8" using assms by (intro mult_le_mono) auto
  then show ?thesis by (simp add: intsetResize_def Let_def flip: of_nat_mult)
qed

text \<open>A buffer one cell larger: the old cells and one more with unknown contents.\<close>

lemma resize_one_cell:
  assumes "cells n cs"
  shows "\<exists>c. length c = n \<and> resize_bytes fresh (concat cs) ((length cs + 1) * n) = concat (cs @ [c])"
proof -
  let ?c = "map fresh [length (concat cs)..<(length cs + 1) * n]"
  have "length ?c = n" using cells_length [OF assms] by simp
  then show ?thesis
    using cells_length [OF assms] by (intro exI [of _ ?c]) (simp add: resize_grow)
qed

lemma insert_cell_lists:
  assumes "p \<le> length cs"
  shows "(if p < length cs
      then take (p + 1) (cs @ [c]) @ take (length cs - p) (drop p (cs @ [c])) @ drop (p + 1 + (length cs - p)) (cs @ [c])
      else cs @ [c])[p := x]
    = take p cs @ x # drop p cs"
  using assms by (auto simp: list_update_append upd_conv_take_nth_drop take_Suc_conv_app_nth)

lemma intsetAdd_same:
  assumes "intset_repr is vs" and "fits (encoding is) v" and "length vs + 1 < 2 ^ 28"
  shows "\<exists>is'. intsetAdd fresh is v = Some (is', v \<notin> set vs)
    \<and> intset_repr is' (if v \<in> set vs then vs else insort v vs) \<and> encoding is' = encoding is"
proof -
  let ?e = "encoding is"
  have R: "?e \<in> {2, 4, 8}" "is_length is = length vs" "contents is = concat (map (le_bytes ?e) vs)"
    "\<forall>v \<in> set vs. fits ?e v" "sorted_wrt (<) vs"
    using assms(1) by (simp_all add: intset_repr_def)
  have ve: "intsetValueEncoding v \<le> ?e" using fits_encoding [OF R(1) assms(2)] .
  obtain p where S: "intsetSearch is v = Some (v \<in> set vs, p)"
    "if v \<in> set vs then p < length vs \<and> vs ! p = v else split_at vs v p"
    using intsetSearch_spec [OF assms(1)] by blast
  show ?thesis
  proof (cases "v \<in> set vs")
    case True
    then show ?thesis using S(1) ve assms(1) by (simp add: intsetAdd_def)
  next
    case False
    let ?cs = "map (le_bytes ?e) vs"
    have p: "split_at vs v p" "p \<le> length vs" using S(2) False by (simp_all add: split_at_def)
    obtain c where c: "length c = ?e"
      "resize_bytes fresh (contents is) ((length vs + 1) * ?e) = concat (?cs @ [c])"
      using resize_one_cell [OF cells_map_le_bytes [of ?e vs], where fresh = fresh] R(3) by auto
    have u: "u32 (int (is_length is) + 1) = length vs + 1" "u32 (int p + 1) = p + 1"
      using assms(3) R(2) p(2) by (simp_all add: nat_add_distrib)
    define is1 where "is1 = is\<lparr>contents := concat (?cs @ [c])\<rparr>"
    have is1: "intsetResize fresh is (length vs + 1) = is1"
      using intsetResize_size [OF R(1)] assms(3) c(2) by (simp add: is1_def)
    have cl: "cells ?e (?cs @ [c])" using c(1) by simp
    define ds where "ds = (if p < length vs
      then take (p + 1) (?cs @ [c]) @ take (length vs - p) (drop p (?cs @ [c])) @ drop (p + 1 + (length vs - p)) (?cs @ [c])
      else ?cs @ [c])"
    have mv: "(if p < is_length is1 then intsetMoveTail is1 p (p + 1) else Some is1)
        = Some (is1\<lparr>contents := concat ds\<rparr>)"
    proof (cases "p < length vs")
      case True
      have "intsetMoveTail is1 p (p + 1) = Some (is1\<lparr>contents := concat (take (p + 1) (?cs @ [c])
          @ take (is_length is1 - p) (drop p (?cs @ [c])) @ drop (p + 1 + (is_length is1 - p)) (?cs @ [c]))\<rparr>)"
        by (rule intsetMoveTail_cells) (use True R cl assms(3) in \<open>auto simp: is1_def\<close>)
      then show ?thesis using True R(2) by (simp add: ds_def is1_def)
    next
      case False
      then show ?thesis using R(2) by (simp add: ds_def is1_def)
    qed
    have dl: "cells ?e ds" "length ds = length vs + 1"
      using cl p(2) unfolding ds_def by (auto simp: min_def)
    have st: "intsetSet (is1\<lparr>contents := concat ds\<rparr>) (int p) v
        = Some (is1\<lparr>contents := concat (ds[p := le_bytes ?e v])\<rparr>)"
      using intsetSet_cell [of "is1\<lparr>contents := concat ds\<rparr>" ds p v] R(1) dl p(2) by (simp add: is1_def)
    have upd: "ds[p := le_bytes ?e v] = map (le_bytes ?e) (insort v vs)"
    proof -
      have "ds[p := le_bytes ?e v] = take p ?cs @ le_bytes ?e v # drop p ?cs"
        unfolding ds_def using insert_cell_lists [of p ?cs c "le_bytes ?e v"] p(2)
        by (simp only: length_map)
      also have "\<dots> = map (le_bytes ?e) (take p vs @ v # drop p vs)" by (simp add: take_map drop_map)
      finally show ?thesis using split_at_insort [OF p(1) R(5)] by simp
    qed
    have is1l: "is_length is1 = length vs" using R(2) by (simp add: is1_def)
    let ?is = "is1\<lparr>contents := concat (map (le_bytes ?e) (insort v vs)), is_length := length vs + 1\<rparr>"
    have "intsetAdd fresh is v = Some (?is, True)"
      using ve S(1) False mv st upd u is1 R(2) is1l
      by (simp add: intsetAdd_def Let_def split del: if_split cong: if_cong)
    moreover have "sorted_wrt (<) (insort v vs)"
      using split_at_sorted [OF p(1) R(5)] split_at_insort [OF p(1) R(5)] by simp
    then have "intset_repr ?is (insort v vs)"
      using R assms(2,3) by (auto simp: intset_repr_def is1_def set_insort_key)
    ultimately show ?thesis using False by (auto simp: is1_def)
  qed
qed

text \<open>Widening in place, from the last element to the first, never overwrites an unread one.\<close>

lemma upgrade_loop_spec:
  assumes "n \<in> {2, 4, 8}" and "encoding is \<in> {2, 4, 8}" and "n \<le> encoding is" and "k \<le> length vs"
    and "\<forall>v \<in> set vs. fits n v" and "pre \<le> 1"
    and "length (contents is) = (length vs + 1) * encoding is"
    and "take (k * n) (contents is) = concat (map (le_bytes n) (take k vs))"
    and "take ((length vs - k) * encoding is) (drop ((k + pre) * encoding is) (contents is))
      = concat (map (le_bytes (encoding is)) (drop k vs))"
  shows "\<exists>b. upgrade_loop k (int pre) n is = Some (is\<lparr>contents := b\<rparr>)
    \<and> length b = (length vs + 1) * encoding is
    \<and> take (length vs * encoding is) (drop (pre * encoding is) b) = concat (map (le_bytes (encoding is)) vs)"
  using assms
proof (induction k arbitrary: "is")
  case 0
  then show ?case by (intro exI [of _ "contents is"]) simp
next
  case (Suc i)
  let ?m = "encoding is" and ?L = "length vs" and ?b = "contents is"
  have i: "i < ?L" using Suc.prems(4) by simp
  have fit: "fits n (vs ! i)" using Suc.prems(5) i by simp
  have "?b = concat (map (le_bytes n) (take (Suc i) vs)) @ drop (Suc i * n) ?b"
    using Suc.prems(8) append_take_drop_id [of "Suc i * n" ?b] by simp
  then have get: "intsetGetEncoded is (int i) n = Some (vs ! i)"
    using get_encoded_cell [OF Suc.prems(1), of "is" "take (Suc i) vs" _ i] i fit by simp
  let ?x = "le_bytes ?m (vs ! i)" and ?o = "(i + pre) * ?m"
  have "(i + pre + 1) * ?m \<le> (?L + 1) * ?m" using i Suc.prems(6) by (intro mult_le_mono1) simp
  then have bound: "?o + ?m \<le> length ?b" using Suc.prems(7) by (simp add: add_mult_distrib)
  define b where "b = take ?o ?b @ ?x @ drop (?o + ?m) ?b"
  have set: "intsetSet is (int i + int pre) (vs ! i) = Some (is\<lparr>contents := b\<rparr>)"
    using Suc.prems(2) bound by (simp add: intsetSet_def Let_def write_bytes_def b_def flip: of_nat_add)
  have len: "length b = (?L + 1) * ?m" using bound Suc.prems(7) by (simp add: b_def)
  have "i * n \<le> ?o" using Suc.prems(3) by (intro mult_le_mono) simp_all
  then have "take (i * n) b = take (i * n) (take (Suc i * n) ?b)"
    using bound by (simp add: b_def min_def)
  also have "\<dots> = concat (take i (map (le_bytes n) (take (Suc i) vs)))"
    unfolding Suc.prems(8) by (rule cells_take_concat) simp
  finally have low: "take (i * n) b = concat (map (le_bytes n) (take i vs))"
    by (simp add: take_map min_def)
  have "drop ?o b = ?x @ drop ((Suc i + pre) * ?m) ?b"
    using bound by (simp add: b_def add.commute)
  moreover have "(?L - i) * ?m = ?m + (?L - Suc i) * ?m" using i by (simp add: Suc_diff_Suc flip: mult_Suc)
  ultimately have "take ((?L - i) * ?m) (drop ?o b) = ?x @ concat (map (le_bytes ?m) (drop (Suc i) vs))"
    using Suc.prems(9) by simp
  also have "\<dots> = concat (map (le_bytes ?m) (drop i vs))"
    using Cons_nth_drop_Suc [OF i] by (metis concat.simps(2) list.simps(9))
  finally have high: "take ((?L - i) * ?m) (drop ?o b) = concat (map (le_bytes ?m) (drop i vs))" .
  from Suc.IH [of "is\<lparr>contents := b\<rparr>"] Suc.prems i len low high
  show ?case using get set by simp
qed

lemma intsetAdd_upgrade:
  assumes "intset_repr is vs" and "is_int64 v" and "encoding is < intsetValueEncoding v"
    and "length vs + 1 < 2 ^ 28"
  shows "v \<notin> set vs \<and> (\<exists>is'. intsetAdd fresh is v = Some (is', True) \<and> intset_repr is' (insort v vs)
    \<and> encoding is' = intsetValueEncoding v)"
proof -
  let ?n = "encoding is" and ?m = "intsetValueEncoding v" and ?L = "length vs"
  have R: "?n \<in> {2, 4, 8}" "is_length is = ?L" "contents is = concat (map (le_bytes ?n) vs)"
    "\<forall>v \<in> set vs. fits ?n v" "sorted_wrt (<) vs"
    using assms(1) by (simp_all add: intset_repr_def)
  have m: "?m \<in> {2, 4, 8}" "fits ?m v" using value_encoding assms(2) by blast+
  have nf: "\<not> fits ?n v" using fits_encoding [OF R(1), of v] assms(3) by auto
  define pre :: nat where "pre = (if v < 0 then 1 else 0)"
  define p where "p = (if v < 0 then 0 else ?L)"
  have "x < v \<longleftrightarrow> \<not> v < 0" "v < x \<longleftrightarrow> v < 0" if "x \<in> set vs" for x
    using nf R(4) that by (force simp: fits_def)+
  then have p: "split_at vs v p" by (auto simp: split_at_def p_def)
  have u: "u32 (int (is_length is) + 1) = ?L + 1" using assms(4) R(2) by (simp add: nat_add_distrib)
  let ?b = "resize_bytes fresh (contents is) ((?L + 1) * ?m)"
  let ?is = "is\<lparr>encoding := ?m, contents := ?b\<rparr>"
  have rs: "intsetResize fresh (is\<lparr>encoding := ?m\<rparr>) (?L + 1) = ?is"
    using intsetResize_size [of "is\<lparr>encoding := ?m\<rparr>" "?L + 1" fresh] m(1) assms(4) by simp
  have cl: "length (contents is) = ?L * ?n"
    using cells_length [OF cells_map_le_bytes [of ?n vs]] R(3) by simp
  moreover have "?L * ?n \<le> (?L + 1) * ?m" using assms(3) by (intro mult_le_mono) simp_all
  ultimately have tk: "take (?L * ?n) ?b = concat (map (le_bytes ?n) (take ?L vs))"
    using R(3) by (simp add: take_resize_bytes)
  have "pre \<le> 1" by (simp add: pre_def)
  then have "\<exists>b. upgrade_loop ?L (int pre) ?n ?is = Some (?is\<lparr>contents := b\<rparr>)
    \<and> length b = (?L + 1) * encoding ?is
    \<and> take (?L * encoding ?is) (drop (pre * encoding ?is) b) = concat (map (le_bytes (encoding ?is)) vs)"
    by (intro upgrade_loop_spec) (use R(1,4) m(1) assms(3) tk in simp_all)
  then obtain b where b: "upgrade_loop ?L (int pre) ?n ?is = Some (?is\<lparr>contents := b\<rparr>)"
    "length b = (?L + 1) * ?m" "take (?L * ?m) (drop (pre * ?m) b) = concat (map (le_bytes ?m) vs)"
    by auto
  let ?x = "le_bytes ?m v"
  have wr: "write_bytes b (p * ?m) ?x = Some (concat (map (le_bytes ?m) (take p vs @ v # drop p vs)))"
  proof (cases "v < 0")
    case True
    have "drop ?m b = concat (map (le_bytes ?m) vs)" using b(2,3) True by (simp add: pre_def)
    then show ?thesis using True b(2) by (simp add: write_bytes_def p_def)
  next
    case False
    then show ?thesis using b(2,3) by (simp add: write_bytes_def p_def pre_def)
  qed
  let ?is' = "?is\<lparr>contents := concat (map (le_bytes ?m) (insort v vs)), is_length := ?L + 1\<rparr>"
  have pn: "(if (if v < 0 then 1 else 0 :: int) \<noteq> 0 then 0 else int (is_length is)) = int p"
    using R(2) by (simp add: p_def)
  have st: "intsetSet (?is\<lparr>contents := b\<rparr>) (int p) v
      = Some (?is\<lparr>contents := concat (map (le_bytes ?m) (insort v vs))\<rparr>)"
    using wr m(1) split_at_insort [OF p R(5)] by (simp add: intsetSet_def Let_def)
  have "intsetUpgradeAndAdd fresh is v = Some ?is'"
    using rs b(1) st u R(2) pn by (auto simp: intsetUpgradeAndAdd_def Let_def pre_def p_def)
  then have "intsetAdd fresh is v = Some (?is', True)" using assms(3) by (simp add: intsetAdd_def)
  moreover have "sorted_wrt (<) (insort v vs)"
    using split_at_sorted [OF p R(5)] split_at_insort [OF p R(5)] by simp
  then have "intset_repr ?is' (insort v vs)"
    using m R assms(3,4) fits_wider [OF _ R(1) m(1)] by (auto simp: intset_repr_def set_insort_key)
  ultimately show ?thesis using split_at_not_in [OF p] by auto
qed

lemma remove1_take_drop:
  assumes "distinct vs" and "p < length vs"
  shows "remove1 (vs ! p) vs = take p vs @ drop (Suc p) vs"
  using assms
proof (induction vs arbitrary: p)
  case (Cons a vs)
  then show ?case by (cases p) (auto simp: nth_Cons split: nat.splits)
qed simp

lemma intsetRemove_spec:
  assumes "intset_repr is vs" and "is_int64 v"
  shows "\<exists>is'. intsetRemove fresh is v = Some (is', v \<in> set vs) \<and> intset_repr is' (remove1 v vs)
    \<and> encoding is' = encoding is"
proof -
  let ?e = "encoding is" and ?cs = "map (le_bytes (encoding is)) vs"
  have R: "?e \<in> {2, 4, 8}" "is_length is = length vs" "contents is = concat ?cs"
    "\<forall>v \<in> set vs. fits ?e v" "sorted_wrt (<) vs" "length vs < 2 ^ 28"
    using assms(1) by (simp_all add: intset_repr_def)
  show ?thesis
  proof (cases "v \<in> set vs")
    case False
    then have "remove1 v vs = vs" by (simp add: remove1_idem)
    then show ?thesis
      using intsetSearch_spec [OF assms(1), of v] False assms(1) by (auto simp: intsetRemove_def)
  next
    case True
    then have ve: "intsetValueEncoding v \<le> ?e" using R(1,4) fits_encoding by blast
    obtain p where p: "intsetSearch is v = Some (True, p)" "p < length vs" "vs ! p = v"
      using intsetSearch_spec [OF assms(1), of v] True by auto
    have rm: "remove1 v vs = take p vs @ drop (Suc p) vs"
      using remove1_take_drop [of vs p] p(2,3) R(5) by (simp add: sorted_wrt_less)
    have il: "int (length vs) - 1 = int (length vs - 1)" using p(2) by linarith
    have u1: "u32 (int (length vs) - 1) = length vs - 1" unfolding il using R(6) by simp
    have u2: "u32 (int p + 1) = p + 1" using p(2) R(6) by (simp add: nat_add_distrib)
    note u = u1 u2
    let ?k = "length vs - (p + 1)"
    define ds where "ds = (if p < length vs - 1 then take p ?cs @ take ?k (drop (p + 1) ?cs) @ drop (p + ?k) ?cs
      else ?cs)"
    have mv: "(if p < length vs - 1 then intsetMoveTail is (p + 1) p else Some is)
        = Some (is\<lparr>contents := concat ds\<rparr>)"
    proof (cases "p < length vs - 1")
      case True
      have "intsetMoveTail is (p + 1) p = Some (is\<lparr>contents := concat (take p ?cs
          @ take (is_length is - (p + 1)) (drop (p + 1) ?cs) @ drop (p + (is_length is - (p + 1))) ?cs)\<rparr>)"
        by (rule intsetMoveTail_cells) (use True R in auto)
      then show ?thesis using True R(2) by (simp add: ds_def)
    next
      case F: False
      then show ?thesis using R(3) by (simp add: ds_def)
    qed
    have dl: "cells ?e ds" "length ds = length vs" using p(2) by (auto simp: ds_def)
    have tk: "take (length vs - 1) ds = map (le_bytes ?e) (remove1 v vs)"
    proof (cases "p < length vs - 1")
      case True
      then show ?thesis using rm by (simp add: ds_def take_map drop_map)
    next
      case F: False
      then have "length vs - 1 = p" using p(2) by linarith
      then show ?thesis using F rm p(2) by (simp add: ds_def take_map)
    qed
    let ?is = "is\<lparr>contents := concat (map (le_bytes ?e) (remove1 v vs)), is_length := length vs - 1\<rparr>"
    have "resize_bytes fresh (concat ds) ((length vs - 1) * ?e) = concat (take (length vs - 1) ds)"
      using cells_length [OF dl(1)] dl(2)
      by (simp add: resize_shrink cells_take_concat [OF dl(1)] flip: length_concat)
    then have rs: "intsetResize fresh (is\<lparr>contents := concat ds\<rparr>) (length vs - 1)
        = is\<lparr>contents := concat (map (le_bytes ?e) (remove1 v vs))\<rparr>"
      using intsetResize_size [of "is\<lparr>contents := concat ds\<rparr>" "length vs - 1" fresh] R(1,6) tk by simp
    have "intsetRemove fresh is v = Some (?is, True)"
      using ve p(1) mv u rs R(2)
      by (simp add: intsetRemove_def Let_def split del: if_split cong: if_cong)
    moreover have "sorted_wrt (<) (remove1 v vs)"
      using R(5) by (simp add: sorted_wrt_less sorted_remove1 distinct_remove1)
    then have "intset_repr ?is (remove1 v vs)"
      using R p(2) True set_remove1_subset [of v vs] by (auto simp: intset_repr_def length_remove1)
    ultimately show ?thesis using True by auto
  qed
qed

subsection \<open>Properties\<close>

definition intset_ok :: "intset \<Rightarrow> bool" where
  "intset_ok is \<longleftrightarrow> (\<exists>vs. intset_repr is vs)"

text \<open>The elements, read out of the bytes.\<close>

definition intset_elems :: "intset \<Rightarrow> int list" where
  "intset_elems is =
     map (\<lambda>i. le_sint (take (encoding is) (drop (i * encoding is) (contents is)))) [0..<is_length is]"

lemma repr_elems: "intset_repr is vs \<Longrightarrow> intset_elems is = vs"
proof -
  assume R: "intset_repr is vs"
  let ?e = "encoding is"
  have "le_sint (take ?e (drop (i * ?e) (contents is))) = vs ! i" if "i < length vs" for i
    using intsetGet0_spec [OF R that] repr_pos [OF R]
    by (auto simp: intsetGet0_def intsetGetEncoded_def read_bytes_def split: if_splits)
  moreover have "is_length is = length vs" using R by (simp add: intset_repr_def)
  ultimately show ?thesis by (auto simp: intset_elems_def intro: nth_equalityI)
qed

lemma intset_ok_repr: "intset_ok is \<longleftrightarrow> intset_repr is (intset_elems is)"
  using repr_elems by (auto simp: intset_ok_def)

lemma intset_new_repr: "intset_repr intsetNew []"
  by (simp add: intset_repr_def intsetNew_def intset_encs)

lemma intsetAdd_spec:
  assumes "intset_repr is vs" and "is_int64 v" and "length vs + 1 < 2 ^ 28"
  shows "\<exists>is'. intsetAdd fresh is v = Some (is', v \<notin> set vs)
    \<and> intset_repr is' (if v \<in> set vs then vs else insort v vs)
    \<and> encoding is' = max (encoding is) (intsetValueEncoding v)"
proof (cases "encoding is < intsetValueEncoding v")
  case True
  from intsetAdd_upgrade [OF assms(1,2) True assms(3), of fresh] True show ?thesis by auto
next
  case False
  then have "fits (encoding is) v" using fits_mono [OF assms(2)] repr_pos [OF assms(1)] by simp
  from intsetAdd_same [OF assms(1) this assms(3), of fresh] False show ?thesis by auto
qed

text \<open>
  C8. \<open>intsetAdd\<close> stays inside the allocation and inserts a 64-bit integer into the sorted array
  when it is not there, widening every element in place when it does not fit; the encoding becomes
  the smallest one that held the old elements and holds the new one. Only what \<open>zrealloc\<close> leaves in
  the new bytes is unknown, and nothing depends on it.
\<close>

theorem intsetAdd_sorted:
  assumes "intset_ok is" and "is_int64 v" and "intsetLen is + 1 < 2 ^ 28"
  shows "\<exists>is'. intsetAdd fresh is v = Some (is', v \<notin> set (intset_elems is)) \<and> intset_ok is'
    \<and> intset_elems is'
        = (if v \<in> set (intset_elems is) then intset_elems is else insort v (intset_elems is))
    \<and> encoding is' = max (encoding is) (intsetValueEncoding v)"
proof -
  have R: "intset_repr is (intset_elems is)" using assms(1) by (simp add: intset_ok_repr)
  then have "length (intset_elems is) + 1 < 2 ^ 28"
    using assms(3) by (simp add: intset_repr_def intsetLen_def)
  from intsetAdd_spec [OF R assms(2) this, of fresh] show ?thesis
    using repr_elems by (metis intset_ok_def)
qed

theorem intsetAdd_sorted_witness:
  "\<exists>is'. intsetAdd (\<lambda>_. 0xAA) intsetNew (- 70000) = Some (is', True) \<and> intset_elems is' = [- 70000]
     \<and> encoding is' = 4"
proof -
  have "intset_ok intsetNew" "intset_elems intsetNew = []"
    using intset_new_repr repr_elems by (auto simp: intset_ok_def)
  with intsetAdd_sorted [of intsetNew "- 70000" "\<lambda>_. 0xAA"] show ?thesis
    by (auto simp: is_int64_def range_defs intsetLen_def intsetNew_def intsetValueEncoding_def intset_encs)
qed

text \<open>
  C19. \<open>intsetRemove\<close> removes exactly the given element, keeps the array sorted and the encoding
  as it was, and shrinks the allocation to the elements that are left.
\<close>

theorem intsetRemove_sorted:
  assumes "intset_ok is" and "is_int64 v"
  shows "\<exists>is'. intsetRemove fresh is v = Some (is', v \<in> set (intset_elems is)) \<and> intset_ok is'
    \<and> intset_elems is' = remove1 v (intset_elems is) \<and> encoding is' = encoding is
    \<and> length (contents is') = intsetLen is' * encoding is'"
proof -
  have R: "intset_repr is (intset_elems is)" using assms(1) by (simp add: intset_ok_repr)
  from intsetRemove_spec [OF R assms(2), of fresh] obtain is' where is':
    "intsetRemove fresh is v = Some (is', v \<in> set (intset_elems is))"
    "intset_repr is' (remove1 v (intset_elems is))" "encoding is' = encoding is" by blast
  moreover have "length (contents is') = intsetLen is' * encoding is'"
    using is'(2) cells_length [OF cells_map_le_bytes [of "encoding is'" "remove1 v (intset_elems is)"]]
    by (simp add: intset_repr_def intsetLen_def)
  ultimately show ?thesis using repr_elems by (metis intset_ok_def)
qed

definition intset_3 :: intset where
  "intset_3 = \<lparr>encoding = 2, is_length = 3, contents = concat (map (le_bytes 2) [- 5, 7, 300])\<rparr>"

lemma intset_3_repr: "intset_repr intset_3 [- 5, 7, 300]"
  by (simp add: intset_repr_def intset_3_def fits_def)

theorem intsetRemove_sorted_witness:
  "\<exists>is'. intsetRemove (\<lambda>_. 0) intset_3 7 = Some (is', True) \<and> intset_elems is' = [- 5, 300]"
proof -
  have "intset_ok intset_3" "intset_elems intset_3 = [- 5, 7, 300]"
    using intset_3_repr repr_elems by (auto simp: intset_ok_def)
  with intsetRemove_sorted [of intset_3 7 "\<lambda>_. 0"] show ?thesis
    by (auto simp: is_int64_def range_defs)
qed

text \<open>
  C26. The binary search decides membership for every 64-bit integer, \<open>intsetGet\<close> returns the
  element at a position in range and refuses every other position, and \<open>intsetRandom\<close> on a set
  that is not empty returns an element.
\<close>

theorem intset_lookup:
  assumes "intset_ok is" and "is_int64 v"
  shows "intsetFind is v = Some (v \<in> set (intset_elems is))
    \<and> intsetGet is pos
      = Some (if pos < intsetLen is then Some (intset_elems is ! pos) else None)
    \<and> (0 < intsetLen is \<longrightarrow> (\<exists>x \<in> set (intset_elems is). intsetRandom r is = Some x))"
proof (intro conjI impI)
  have R: "intset_repr is (intset_elems is)" using assms(1) by (simp add: intset_ok_repr)
  then have len: "is_length is = length (intset_elems is)" "encoding is \<in> {2, 4, 8}"
    "\<forall>x \<in> set (intset_elems is). fits (encoding is) x"
    by (simp_all add: intset_repr_def)
  show "intsetFind is v = Some (v \<in> set (intset_elems is))"
    using intsetSearch_spec [OF R, of v] fits_encoding [OF len(2), of v] len(3)
    by (auto simp: intsetFind_def)
  show "intsetGet is pos = Some (if pos < intsetLen is then Some (intset_elems is ! pos) else None)"
    using intsetGet0_spec [OF R] len(1) by (simp add: intsetGet_def intsetLen_def)
  assume "0 < intsetLen is"
  then have r: "r mod is_length is < length (intset_elems is)" using len(1) by (simp add: intsetLen_def)
  then show "\<exists>x \<in> set (intset_elems is). intsetRandom r is = Some x"
    using intsetGet0_spec [OF R r] \<open>0 < intsetLen is\<close>
    by (intro bexI [of _ "intset_elems is ! (r mod is_length is)"]) (simp_all add: intsetRandom_def intsetLen_def)
qed

theorem intset_lookup_witness:
  "intsetFind intset_3 300 = Some True \<and> intsetFind intset_3 4 = Some False
   \<and> intsetGet intset_3 0 = Some (Some (- 5)) \<and> intsetGet intset_3 3 = Some None"
proof -
  have "intset_ok intset_3" "intset_elems intset_3 = [- 5, 7, 300]"
    using intset_3_repr repr_elems by (auto simp: intset_ok_def)
  with intset_lookup [of intset_3 300 0] intset_lookup [of intset_3 4 3] show ?thesis
    by (simp add: is_int64_def range_defs intsetLen_def intset_3_def)
qed

end
