(* ===== verification/C_Strings.thy ===== *)
theory C_Strings
  imports Redis_Util Byte_Buffer
begin

text \<open>
  The functions of the C library that the string code calls, on buffers of bytes: a C string is a
  buffer that holds a 0 byte, its text is what comes before the first one, and a search that leaves
  the buffer is \<open>None\<close>. The classification functions are those of the "C" locale.
\<close>

definition isspace :: "byte \<Rightarrow> bool" where "isspace c \<longleftrightarrow> c = 32 \<or> (9 \<le> c \<and> c \<le> 13)"
definition isprint :: "byte \<Rightarrow> bool" where "isprint c \<longleftrightarrow> 32 \<le> c \<and> c \<le> 126"

definition tolower :: "byte \<Rightarrow> byte" where "tolower c = (if 65 \<le> c \<and> c \<le> 90 then c + 32 else c)"
definition toupper :: "byte \<Rightarrow> byte" where "toupper c = (if 97 \<le> c \<and> c \<le> 122 then c - 32 else c)"

fun strlen :: "byte list \<Rightarrow> nat option" where
  "strlen [] = None"
| "strlen (c # s) = (if c = 0 then Some 0 else map_option Suc (strlen s))"

text \<open>\<open>strchr (s, c) != NULL\<close>; the terminator of \<open>s\<close> counts as one of its characters.\<close>

fun strchr :: "byte list \<Rightarrow> byte \<Rightarrow> bool option" where
  "strchr [] c = None"
| "strchr (x # s) c = (if x = c then Some True else if x = 0 then Some False else strchr s c)"

text \<open>\<open>memcmp\<close> on two blocks of the same length: the difference of the first bytes that differ.\<close>

fun memcmp :: "byte list \<Rightarrow> byte list \<Rightarrow> int" where
  "memcmp (a # x) (b # y) = (if a = b then memcmp x y else int (unat a) - int (unat b))"
| "memcmp _ _ = 0"

text \<open>\<open>strtoll (s, &end, 10)\<close>: the value, the offset of \<open>end\<close>, and whether \<open>errno\<close> is ERANGE.\<close>

definition strtoll_at :: "byte list \<Rightarrow> nat \<Rightarrow> int \<times> nat \<times> bool" where
  "strtoll_at t k =
     (let negative = (t \<noteq> [] \<and> hd t = 45);
          signed = (t \<noteq> [] \<and> (hd t = 45 \<or> hd t = 43));
          body = (if signed then tl t else t);
          ds = takeWhile isdigit body;
          v = int (foldl dec_step 0 ds);
          v = (if negative then - v else v)
      in if ds = [] then (0, 0, False)
         else (if v < LLONG_MIN then LLONG_MIN else if v > LLONG_MAX then LLONG_MAX else v,
               k + (if signed then 1 else 0) + length ds, \<not> is_int64 v))"

definition strtoll :: "byte list \<Rightarrow> (int \<times> nat \<times> bool) option" where
  "strtoll s =
     (if 0 \<in> set s then
        let t = takeWhile (\<lambda>c. c \<noteq> 0) s; k = length (takeWhile isspace t)
        in Some (strtoll_at (drop k t) k)
      else None)"

subsection \<open>Their texts\<close>

lemma strlen_text [simp]: "0 \<notin> set t \<Longrightarrow> strlen (t @ 0 # r) = Some (length t)"
  by (induction t) auto

lemma strlen_nul [simp]: "0 \<notin> set t \<Longrightarrow> strlen (t @ [0]) = Some (length t)"
  by (rule strlen_text)

lemma strchr_text: "0 \<notin> set t \<Longrightarrow> strchr (t @ 0 # r) c = Some (c \<in> set t \<or> c = 0)"
  by (induction t) auto

lemma memcmp_self [simp]: "memcmp x x = 0"
  by (induction x) auto

lemma memcmp_eq_0: "length x = length y \<Longrightarrow> memcmp x y = 0 \<longleftrightarrow> x = y"
  by (induction x y rule: list_induct2) (auto simp: word_uint_eq_iff)

lemma memcmp_minus: "length x = length y \<Longrightarrow> memcmp y x = - memcmp x y"
  by (induction x y rule: list_induct2) auto

lemma tolower_idem [simp]: "tolower (tolower c) = tolower c"
proof -
  have "65 \<le> c \<Longrightarrow> c \<le> 90 \<Longrightarrow> unat (c + 32) = unat c + 32"
    by (simp add: word_le_nat_alt unat_word_ariths)
  then show ?thesis by (auto simp: tolower_def word_le_nat_alt)
qed

lemma digit_not_nul [simp]: "isdigit c \<Longrightarrow> c \<noteq> 0"
  by (auto simp: isdigit_def)

lemma digit_not_space: "isdigit c \<Longrightarrow> \<not> isspace c"
  by (auto simp: isdigit_unat isspace_def word_le_nat_alt)

lemma nul_not_decimal: "0 \<notin> set (decimal v)"
  using decimal_digits [of v] digit_not_nul [of 0] by (auto simp: list_all_iff)

lemma nul_not_int_text: "0 \<notin> set (int_text v)"
  by (simp add: int_text_def nul_not_decimal)

text \<open>The canonical text of a 64-bit integer is read back, up to its end.\<close>

lemma strtoll_int_text:
  assumes "is_int64 v"
  shows "strtoll (int_text v @ 0 # r) = Some (v, length (int_text v), False)"
proof -
  define t where "t = int_text v"
  have d: "list_all isdigit (decimal n)" for n by (rule decimal_digits)
  have hd: "isdigit (hd (decimal n))" for n
    using d [of n] decimal_nonempty [of n] by (cases "decimal n") auto
  have upto: "takeWhile (\<lambda>c. c \<noteq> 0) (t @ 0 # r) = t"
    using nul_not_int_text [of v] by (simp add: t_def takeWhile_append takeWhile_eq_all_conv)
  have "t \<noteq> [] \<and> \<not> isspace (hd t)"
    using hd digit_not_space by (auto simp: t_def int_text_def isspace_def)
  then have k: "takeWhile isspace t = []" by (cases t) auto
  have digits: "takeWhile isdigit (decimal n) = decimal n" for n
    using d [of n] by (simp add: takeWhile_eq_all_conv list_all_iff)
  have sign: "hd (decimal n) \<noteq> 45 \<and> hd (decimal n) \<noteq> 43" for n
    using hd [of n] by (auto simp: isdigit_def)
  have "strtoll_at t 0 = (v, length t, False)"
    using assms sign by (auto simp: strtoll_at_def t_def int_text_def Let_def digits decimal_value
      is_int64_def)
  then show ?thesis using upto k by (simp add: strtoll_def t_def Let_def)
qed

end
