(* ===== verification/Sds.thy ===== *)
theory Sds
  imports C_Strings "HOL-Library.Monad_Syntax"
begin

text \<open>
  Simple dynamic strings (\<open>src/sds.c\<close>, \<open>src/sds.h\<close>): a header with two \<open>int\<close> fields and the bytes
  behind it, of which \<open>len\<close> are the text, one is a terminator and \<open>free\<close> are spare. The sds pointer
  of the code is the header here, and a function that may move the string returns the new one.
  \<open>None\<close> is an access outside a buffer or a failed \<open>assert\<close>. What \<open>zrealloc\<close> adds to a buffer is the
  function \<open>fresh\<close>; running out of memory ends the process in the allocator and has no branch.
\<close>

definition SDS_MAX_PREALLOC :: nat where "SDS_MAX_PREALLOC = 1024 * 1024"

record sdshdr =
  s_len :: int
  s_free :: int
  s_buf :: "byte list"

definition sdslen :: "sdshdr \<Rightarrow> nat" where "sdslen s = u64 (s_len s)"
definition sdsavail :: "sdshdr \<Rightarrow> nat" where "sdsavail s = u64 (s_free s)"

text \<open>A one byte store \<open>s[i] = c\<close> and an assertion.\<close>

abbreviation poke :: "byte list \<Rightarrow> nat \<Rightarrow> byte \<Rightarrow> byte list option" where
  "poke b i c \<equiv> write_bytes b i [c]"

definition check :: "bool \<Rightarrow> unit option" where "check b = (if b then Some () else None)"

subsection \<open>Creation\<close>

definition sdsnewlen :: "byte list option \<Rightarrow> nat \<Rightarrow> (nat \<Rightarrow> byte) \<Rightarrow> sdshdr option" where
  "sdsnewlen init initlen fresh =
     do { let mem = (case init of Some _ \<Rightarrow> map fresh [0..<initlen + 1] | None \<Rightarrow> replicate (initlen + 1) 0);
          buf \<leftarrow> (case init of
             Some t \<Rightarrow> if initlen \<noteq> 0 then do { x \<leftarrow> read_bytes t 0 initlen; write_bytes mem 0 x } else Some mem
           | None \<Rightarrow> Some mem);
          buf \<leftarrow> poke buf initlen 0;
          Some \<lparr>s_len = s32 (int initlen), s_free = 0, s_buf = buf\<rparr> }"

definition sdsempty :: "(nat \<Rightarrow> byte) \<Rightarrow> sdshdr option" where
  "sdsempty fresh = sdsnewlen (Some [0]) 0 fresh"

definition sdsnew :: "byte list option \<Rightarrow> (nat \<Rightarrow> byte) \<Rightarrow> sdshdr option" where
  "sdsnew init fresh =
     (case init of
        None \<Rightarrow> sdsnewlen None 0 fresh
      | Some t \<Rightarrow> do { n \<leftarrow> strlen t; sdsnewlen init n fresh })"

definition sdsdup :: "sdshdr \<Rightarrow> (nat \<Rightarrow> byte) \<Rightarrow> sdshdr option" where
  "sdsdup s fresh = sdsnewlen (Some (s_buf s)) (sdslen s) fresh"

subsection \<open>Lengths and space\<close>

definition sdsupdatelen :: "sdshdr \<Rightarrow> sdshdr option" where
  "sdsupdatelen s =
     do { n \<leftarrow> strlen (s_buf s);
          let reallen = s32 (int n);
          Some (s\<lparr>s_free := s_free s + (s_len s - reallen), s_len := reallen\<rparr>) }"

definition sdsclear :: "sdshdr \<Rightarrow> sdshdr option" where
  "sdsclear s =
     do { buf \<leftarrow> poke (s_buf s) 0 0;
          Some (s\<lparr>s_free := s_free s + s_len s, s_len := 0, s_buf := buf\<rparr>) }"

definition sdsMakeRoomFor :: "(nat \<Rightarrow> byte) \<Rightarrow> sdshdr \<Rightarrow> nat \<Rightarrow> sdshdr" where
  "sdsMakeRoomFor fresh s addlen =
     (if sdsavail s \<ge> addlen then s
      else let len = sdslen s; newlen = len + addlen;
               newlen = (if newlen < SDS_MAX_PREALLOC then newlen * 2 else newlen + SDS_MAX_PREALLOC)
           in s\<lparr>s_buf := resize_bytes fresh (s_buf s) (newlen + 1), s_free := s32 (int newlen - int len)\<rparr>)"

definition sdsRemoveFreeSpace :: "(nat \<Rightarrow> byte) \<Rightarrow> sdshdr \<Rightarrow> sdshdr" where
  "sdsRemoveFreeSpace fresh s =
     s\<lparr>s_buf := resize_bytes fresh (s_buf s) (nat (s_len s + 1)), s_free := 0\<rparr>"

text \<open>The header takes two \<open>int\<close>s.\<close>

definition sdsAllocSize :: "sdshdr \<Rightarrow> int" where
  "sdsAllocSize s = 8 + s_len s + s_free s + 1"

definition sdsIncrLen :: "sdshdr \<Rightarrow> int \<Rightarrow> sdshdr option" where
  "sdsIncrLen s incr =
     do { check (s_free s \<ge> incr);
          let s = s\<lparr>s_len := s_len s + incr, s_free := s_free s - incr\<rparr>;
          check (s_free s \<ge> 0 \<and> s_len s \<ge> 0);
          buf \<leftarrow> poke (s_buf s) (nat (s_len s)) 0;
          Some (s\<lparr>s_buf := buf\<rparr>) }"

definition sdsgrowzero :: "(nat \<Rightarrow> byte) \<Rightarrow> sdshdr \<Rightarrow> nat \<Rightarrow> sdshdr option" where
  "sdsgrowzero fresh s len =
     (let curlen = sdslen s
      in if len \<le> curlen then Some s
         else do { let s = sdsMakeRoomFor fresh s (len - curlen);
                   buf \<leftarrow> write_bytes (s_buf s) curlen (replicate (len - curlen + 1) 0);
                   let totlen = s_len s + s_free s;
                   Some (s\<lparr>s_buf := buf, s_len := s32 (int len), s_free := s32 (totlen - int len)\<rparr>) })"

subsection \<open>Copy and concatenation\<close>

definition sdscatlen :: "(nat \<Rightarrow> byte) \<Rightarrow> sdshdr \<Rightarrow> byte list \<Rightarrow> nat \<Rightarrow> sdshdr option" where
  "sdscatlen fresh s t len =
     do { let curlen = sdslen s;
          let s = sdsMakeRoomFor fresh s len;
          x \<leftarrow> read_bytes t 0 len;
          buf \<leftarrow> write_bytes (s_buf s) curlen x;
          buf \<leftarrow> poke buf (curlen + len) 0;
          Some (s\<lparr>s_len := s32 (int (curlen + len)), s_free := s32 (s_free s - int len), s_buf := buf\<rparr>) }"

definition sdscat :: "(nat \<Rightarrow> byte) \<Rightarrow> sdshdr \<Rightarrow> byte list \<Rightarrow> sdshdr option" where
  "sdscat fresh s t = do { n \<leftarrow> strlen t; sdscatlen fresh s t n }"

definition sdscatsds :: "(nat \<Rightarrow> byte) \<Rightarrow> sdshdr \<Rightarrow> sdshdr \<Rightarrow> sdshdr option" where
  "sdscatsds fresh s t = sdscatlen fresh s (s_buf t) (sdslen t)"

definition sdscpylen :: "(nat \<Rightarrow> byte) \<Rightarrow> sdshdr \<Rightarrow> byte list \<Rightarrow> nat \<Rightarrow> sdshdr option" where
  "sdscpylen fresh s t len =
     do { let totlen = u64 (s_free s + s_len s);
          let s = (if totlen < len then sdsMakeRoomFor fresh s (len - nat (s_len s)) else s);
          let totlen = (if totlen < len then u64 (s_free s + s_len s) else totlen);
          x \<leftarrow> read_bytes t 0 len;
          buf \<leftarrow> write_bytes (s_buf s) 0 x;
          buf \<leftarrow> poke buf len 0;
          Some \<lparr>s_len = s32 (int len), s_free = s32 (int totlen - int len), s_buf = buf\<rparr> }"

definition sdscpy :: "(nat \<Rightarrow> byte) \<Rightarrow> sdshdr \<Rightarrow> byte list \<Rightarrow> sdshdr option" where
  "sdscpy fresh s t = do { n \<leftarrow> strlen t; sdscpylen fresh s t n }"

subsection \<open>Integers\<close>

definition SDS_LLSTR_SIZE :: nat where "SDS_LLSTR_SIZE = 21"

text \<open>\<open>do *p++ = '0'+(v % 10) while ((v /= 10) != 0)\<close>\<close>

fun digit_loop :: "nat \<Rightarrow> byte list" where
  "digit_loop v = digit_char (v mod 10) # (if v div 10 = 0 then [] else digit_loop (v div 10))"

declare digit_loop.simps [simp del]

text \<open>The reversal of the bytes \<open>i\<close> to \<open>j\<close> in place, from both ends.\<close>

function reverse_loop :: "byte list \<Rightarrow> nat \<Rightarrow> nat \<Rightarrow> byte list" where
  "reverse_loop s i j =
     (if i < j then reverse_loop (s[i := s ! j, j := s ! i]) (i + 1) (j - 1) else s)"
  by pat_completeness auto
termination by (relation "measure (\<lambda>(s, i, j). j - i)") auto

declare reverse_loop.simps [simp del]

text \<open>
  The text that the two functions write to a buffer of \<open>SDS_LLSTR_SIZE\<close> bytes, without its
  terminator; \<open>None\<close> if it does not fit.
\<close>

definition sdsll2str :: "int \<Rightarrow> byte list option" where
  "sdsll2str value =
     do { let v = u64 (if value < 0 then - value else value);
          let s = digit_loop v @ (if value < 0 then [45] else []);
          check (length s < SDS_LLSTR_SIZE);
          Some (reverse_loop s 0 (length s - 1)) }"

definition sdsull2str :: "nat \<Rightarrow> byte list option" where
  "sdsull2str v =
     do { let s = digit_loop v;
          check (length s < SDS_LLSTR_SIZE);
          Some (reverse_loop s 0 (length s - 1)) }"

definition sdsfromlonglong :: "int \<Rightarrow> (nat \<Rightarrow> byte) \<Rightarrow> sdshdr option" where
  "sdsfromlonglong value fresh = do { t \<leftarrow> sdsll2str value; sdsnewlen (Some t) (length t) fresh }"

subsection \<open>Cutting, mapping and comparing\<close>

text \<open>\<open>while (sp <= end && strchr (cset, *sp)) sp++\<close>, then the same from the right, on offsets.\<close>

function trim_left :: "byte list \<Rightarrow> byte list \<Rightarrow> int \<Rightarrow> int \<Rightarrow> int option" where
  "trim_left buf cset sp end =
     (if sp \<le> end
      then do { c \<leftarrow> read_bytes buf (nat sp) 1; m \<leftarrow> strchr cset (hd c);
                if m then trim_left buf cset (sp + 1) end else Some sp }
      else Some sp)"
  by pat_completeness auto
termination by (relation "measure (\<lambda>(buf, cset, sp, end). nat (end + 1 - sp))") auto

function trim_right :: "byte list \<Rightarrow> byte list \<Rightarrow> int \<Rightarrow> int \<Rightarrow> int option" where
  "trim_right buf cset start ep =
     (if ep > start
      then do { c \<leftarrow> read_bytes buf (nat ep) 1; m \<leftarrow> strchr cset (hd c);
                if m then trim_right buf cset start (ep - 1) else Some ep }
      else Some ep)"
  by pat_completeness auto
termination by (relation "measure (\<lambda>(buf, cset, start, ep). nat (ep - start))") auto

declare trim_left.simps [simp del] trim_right.simps [simp del]

definition sdstrim :: "sdshdr \<Rightarrow> byte list \<Rightarrow> sdshdr option" where
  "sdstrim s cset =
     do { let last = int (sdslen s) - 1;
          sp \<leftarrow> trim_left (s_buf s) cset 0 last;
          ep \<leftarrow> trim_right (s_buf s) cset 0 last;
          let len = (if sp > ep then 0 else nat (ep - sp + 1));
          buf \<leftarrow> (if sp \<noteq> 0 then move_bytes (s_buf s) 0 (nat sp) len else Some (s_buf s));
          buf \<leftarrow> poke buf len 0;
          Some (s\<lparr>s_free := s_free s + (s_len s - int len), s_len := int len, s_buf := buf\<rparr>) }"

definition sdsrange :: "sdshdr \<Rightarrow> int \<Rightarrow> int \<Rightarrow> sdshdr option" where
  "sdsrange s start end =
     (let len = int (sdslen s)
      in if len = 0 then Some s
         else let start = (if start < 0 then max 0 (s32 (len + start)) else start);
                  end = (if end < 0 then max 0 (s32 (len + end)) else end);
                  newlen = (if start > end then 0 else end - start + 1);
                  (start, newlen) =
                    (if newlen \<noteq> 0 then
                       if start \<ge> len then (start, 0)
                       else if end \<ge> len then
                         (start, if start > len - 1 then 0 else len - 1 - start + 1)
                       else (start, newlen)
                     else (0, newlen))
              in do { buf \<leftarrow> (if start \<noteq> 0 \<and> newlen \<noteq> 0
                              then move_bytes (s_buf s) 0 (nat start) (nat newlen) else Some (s_buf s));
                      buf \<leftarrow> poke buf (nat newlen) 0;
                      Some (s\<lparr>s_free := s_free s + (s_len s - newlen), s_len := newlen, s_buf := buf\<rparr>) })"

text \<open>\<open>for (j = 0; j < len; j++) s[j] = f (s[j])\<close>\<close>

definition map_text :: "(byte \<Rightarrow> byte) \<Rightarrow> sdshdr \<Rightarrow> sdshdr option" where
  "map_text f s =
     do { t \<leftarrow> read_bytes (s_buf s) 0 (sdslen s);
          buf \<leftarrow> write_bytes (s_buf s) 0 (map f t);
          Some (s\<lparr>s_buf := buf\<rparr>) }"

definition sdstolower :: "sdshdr \<Rightarrow> sdshdr option" where "sdstolower s = map_text tolower s"
definition sdstoupper :: "sdshdr \<Rightarrow> sdshdr option" where "sdstoupper s = map_text toupper s"

text \<open>The replacement of one character: the first match in \<open>from\<close>.\<close>

fun map_char :: "byte list \<Rightarrow> byte list \<Rightarrow> byte \<Rightarrow> byte" where
  "map_char (f # from) (t # to) c = (if c = f then t else map_char from to c)"
| "map_char _ _ c = c"

definition sdsmapchars :: "sdshdr \<Rightarrow> byte list \<Rightarrow> byte list \<Rightarrow> nat \<Rightarrow> sdshdr option" where
  "sdsmapchars s from to setlen =
     do { f \<leftarrow> read_bytes from 0 setlen; t \<leftarrow> read_bytes to 0 setlen;
          map_text (map_char f t) s }"

definition sdscmp :: "sdshdr \<Rightarrow> sdshdr \<Rightarrow> int option" where
  "sdscmp s1 s2 =
     do { let l1 = sdslen s1; let l2 = sdslen s2; let minlen = (if l1 < l2 then l1 else l2);
          x \<leftarrow> read_bytes (s_buf s1) 0 minlen; y \<leftarrow> read_bytes (s_buf s2) 0 minlen;
          let c = memcmp x y;
          Some (if c = 0 then s32 (int l1 - int l2) else c) }"

end
