(* ===== verification/Sds_Text.thy ===== *)
theory Sds_Text
  imports Sds
begin

text \<open>
  What the operations on dynamic strings do to the text they hold. \<open>sds_repr s t\<close> says that \<open>s\<close> is
  a well formed string with the text \<open>t\<close>: the two lengths add up to the allocation, the byte behind
  the text is 0, and the lengths fit their \<open>int\<close>s. Every operation has one lemma that takes it to
  an operation on the text; the last part runs sequences of operations.
\<close>

named_theorems sds_texts \<open>what the operations do to the text of a string\<close>

definition sds_repr :: "sdshdr \<Rightarrow> byte list \<Rightarrow> bool" where
  "sds_repr s t \<longleftrightarrow>
     s_len s = int (length t) \<and> s_free s = int (length (s_buf s)) - int (length t) - 1
     \<and> length t < length (s_buf s) \<and> length (s_buf s) < 2 ^ 31
     \<and> take (length t + 1) (s_buf s) = t @ [0]"

definition sds_text :: "sdshdr \<Rightarrow> byte list" where "sds_text s = take (nat (s_len s)) (s_buf s)"

lemma sds_reprI:
  "length t + length spare + 1 < 2 ^ 31 \<Longrightarrow>
    sds_repr \<lparr>s_len = int (length t), s_free = int (length spare), s_buf = t @ 0 # spare\<rparr> t"
  by (simp add: sds_repr_def)

lemma sds_reprE:
  assumes "sds_repr s t"
  obtains spare where
    "s = \<lparr>s_len = int (length t), s_free = int (length spare), s_buf = t @ 0 # spare\<rparr>"
    "length t + length spare + 1 < 2 ^ 31"
proof -
  define spare where "spare = drop (length t + 1) (s_buf s)"
  have "s_buf s = take (length t + 1) (s_buf s) @ spare" by (simp add: spare_def)
  then have b: "s_buf s = t @ 0 # spare" using assms by (simp add: sds_repr_def)
  then have "s_len s = int (length t)" "s_free s = int (length spare)" "length t + length spare + 1 < 2 ^ 31"
    using assms by (auto simp: sds_repr_def)
  with b show ?thesis by (intro that [of spare]) simp_all
qed

lemma sds_repr_text: "sds_repr s t \<Longrightarrow> sds_text s = t"
  by (elim sds_reprE) (simp add: sds_text_def)

lemma sds_repr_less: "sds_repr s t \<Longrightarrow> length t < 2 ^ 31"
  by (elim sds_reprE) simp

lemma s32_nat [simp]: "n < 2 ^ 31 \<Longrightarrow> s32 (int n) = int n"
  by (simp add: s32_def)

lemma s32_diff: "m < 2 ^ 31 \<Longrightarrow> n \<le> m \<Longrightarrow> s32 (int m - int n) = int (m - n)"
  using s32_nat [of "m - n"] by (simp add: of_nat_diff)

lemma s32_0 [simp]: "s32 0 = 0"
  by (simp add: s32_def)

lemma u64_nat [simp]: "n < 2 ^ 31 \<Longrightarrow> u64 (int n) = n"
  by (simp add: u64_def)

lemma sdslen_text [sds_texts]: "sds_repr s t \<Longrightarrow> sdslen s = length t"
  by (elim sds_reprE) (simp add: sdslen_def)

lemma read_bytes_text: "n \<le> length t \<Longrightarrow> read_bytes (t @ r) 0 n = Some (take n t)"
  by (simp add: read_bytes_def)

lemma read_bytes_all [simp]: "read_bytes t 0 (length t) = Some t"
  by (simp add: read_bytes_def)

lemma read_text [sds_texts]: "sds_repr s t \<Longrightarrow> n \<le> length t \<Longrightarrow> read_bytes (s_buf s) 0 n = Some (take n t)"
  by (elim sds_reprE) (simp add: read_bytes_text)

subsection \<open>Creation\<close>

lemma sdsnewlen_text:
  assumes "read_bytes b 0 n = Some t" and "n + 1 < 2 ^ 31"
  shows "\<exists>s. sdsnewlen (Some b) n fresh = Some s \<and> sds_repr s t \<and> s_free s = 0"
proof -
  have n: "length t = n" using assms(1) by (auto simp: read_bytes_def split: if_splits)
  have "n = 0 \<Longrightarrow> t = []" using n by simp
  have mem: "map fresh [0..<n + 1] = [] @ map fresh [0..<n] @ [fresh n]" by simp
  have w: "write_bytes (map fresh [0..<n + 1]) 0 t = Some (t @ [fresh n])"
    unfolding mem by (subst write_bytes_mid) (simp_all add: n)
  have p: "poke (t @ [fresh n]) n 0 = Some (t @ [0])"
    using n write_bytes_mid [of n t "[0]" "[fresh n]" "[]"] by simp
  have "sdsnewlen (Some b) n fresh = Some \<lparr>s_len = int n, s_free = 0, s_buf = t @ [0]\<rparr>"
  proof (cases "n = 0")
    case True
    then show ?thesis using p n by (simp add: sdsnewlen_def Let_def)
  next
    case False
    then show ?thesis using p w assms by (simp add: sdsnewlen_def Let_def del: upt_Suc)
  qed
  moreover have "sds_repr \<lparr>s_len = int n, s_free = 0, s_buf = t @ [0]\<rparr> t"
    using sds_reprI [of t "[]"] assms(2) n by simp
  ultimately show ?thesis by simp
qed

lemma sdsnewlen_zero:
  assumes "n + 1 < 2 ^ 31"
  shows "\<exists>s. sdsnewlen None n fresh = Some s \<and> sds_repr s (replicate n 0)"
proof -
  have "poke (replicate (n + 1) 0) n 0 = Some (replicate n 0 @ [0])"
    using write_bytes_mid [of n "replicate n 0" "[0]" "[0]" "[]"]
    by (simp add: replicate_append_same flip: replicate_Suc)
  then have "sdsnewlen None n fresh = Some \<lparr>s_len = int n, s_free = 0, s_buf = replicate n 0 @ [0]\<rparr>"
    using assms by (simp add: sdsnewlen_def)
  then show ?thesis using sds_reprI [of "replicate n 0" "[]"] assms by auto
qed

lemma sdsempty_text: "\<exists>s. sdsempty fresh = Some s \<and> sds_repr s []"
  using sdsnewlen_text [of "[0]" 0 "[]" fresh] by (auto simp: sdsempty_def read_bytes_def)

lemma sdsnew_text:
  assumes "0 \<notin> set t" and "length t + 1 < 2 ^ 31"
  shows "\<exists>s. sdsnew (Some (t @ 0 # r)) fresh = Some s \<and> sds_repr s t"
  using sdsnewlen_text [of "t @ 0 # r" "length t" t fresh] assms
  by (auto simp: sdsnew_def read_bytes_text)

lemma sdsdup_text:
  assumes "sds_repr s t" and "length t + 1 < 2 ^ 31"
  shows "\<exists>s'. sdsdup s fresh = Some s' \<and> sds_repr s' t"
  using sdsnewlen_text [of "s_buf s" "length t" t fresh] assms by (auto simp: sdsdup_def sds_texts)

subsection \<open>Space\<close>

lemma sdsMakeRoomFor_text:
  assumes "sds_repr s t" and "length t + n < 2 ^ 30"
  shows "sds_repr (sdsMakeRoomFor fresh s n) t"
    and "n \<le> sdsavail (sdsMakeRoomFor fresh s n)"
    and "length t + n < length (s_buf (sdsMakeRoomFor fresh s n))"
    and "s_free (sdsMakeRoomFor fresh s n) = int (length (s_buf (sdsMakeRoomFor fresh s n))) - int (length t) - 1"
proof -
  obtain spare where s: "s = \<lparr>s_len = int (length t), s_free = int (length spare), s_buf = t @ 0 # spare\<rparr>"
    "length t + length spare + 1 < 2 ^ 31" using assms(1) by (rule sds_reprE)
  have av: "sdsavail s = length spare" using s by (simp add: sdsavail_def)
  let ?s = "sdsMakeRoomFor fresh s n"
  have "\<exists>sp. ?s = \<lparr>s_len = int (length t), s_free = int (length sp), s_buf = t @ 0 # sp\<rparr>
    \<and> length t + length sp + 1 < 2 ^ 31 \<and> n \<le> length sp"
  proof (cases "length spare \<ge> n")
    case True
    then show ?thesis using s av by (auto simp: sdsMakeRoomFor_def)
  next
    case False
    define m where "m = length t + n"
    define new where "new = (if m < SDS_MAX_PREALLOC then m * 2 else m + SDS_MAX_PREALLOC)"
    define sp where "sp = spare @ map fresh [length (t @ 0 # spare)..<new + 1]"
    have new: "m \<le> new" "new + 1 < 2 ^ 31" "length t + length spare < m" "length t \<le> new" "new < 2 ^ 31"
      using assms(2) False by (auto simp: new_def m_def SDS_MAX_PREALLOC_def)
    have sp: "length sp = new - length t" using new by (simp add: sp_def)
    have "sdslen s = length t" using s by (simp add: sdslen_def)
    then have "?s = s\<lparr>s_buf := resize_bytes fresh (s_buf s) (new + 1), s_free := s32 (int new - int (length t))\<rparr>"
      using False by (simp only: sdsMakeRoomFor_def av Let_def if_False m_def [symmetric] new_def [symmetric])
    moreover have "resize_bytes fresh (s_buf s) (new + 1) = t @ 0 # sp"
      using new s by (simp add: sp_def resize_grow)
    ultimately have "?s = \<lparr>s_len = int (length t), s_free = int (length sp), s_buf = t @ 0 # sp\<rparr>"
      using s new by (simp add: sp s32_diff)
    moreover have "length t + length sp + 1 < 2 ^ 31" "n \<le> length sp" using sp new by (simp_all add: m_def)
    ultimately show ?thesis by blast
  qed
  then show "sds_repr ?s t" "n \<le> sdsavail ?s" "length t + n < length (s_buf ?s)"
    "s_free ?s = int (length (s_buf ?s)) - int (length t) - 1"
    by (auto simp: sds_reprI sdsavail_def)
qed

text \<open>The state behind a text of a known capacity, after \<open>k\<close> bytes of it were overwritten.\<close>

lemma sds_rewrite:
  assumes "length t < length b" and "length b < 2 ^ 31" and "k \<le> length t" and "take k b = take k t"
  shows "\<exists>b'. write_bytes b k (drop k t) = Some b' \<and> length b' = length b
    \<and> (\<exists>b''. poke b' (length t) 0 = Some b''
       \<and> sds_repr \<lparr>s_len = int (length t), s_free = int (length b) - int (length t) - 1, s_buf = b''\<rparr> t)"
proof -
  define b' where "b' = t @ drop (length t) b"
  have w: "write_bytes b k (drop k t) = Some b'"
    using assms by (simp add: write_bytes_def b'_def flip: append_assoc)
  have l: "length b' = length b" using assms(1) by (simp add: b'_def)
  obtain x xs where x: "drop (length t) b = x # xs" using assms(1) by (cases "drop (length t) b") auto
  have "length (drop (length t) b) = Suc (length xs)" by (simp only: x list.size)
  then have xs: "length b = length t + Suc (length xs)" using assms(1) by simp
  have "poke b' (length t) 0 = Some (t @ 0 # xs)"
    using write_bytes_mid [of "length t" t "[0]" "[x]" xs] by (simp add: b'_def x)
  moreover have "sds_repr \<lparr>s_len = int (length t), s_free = int (length xs), s_buf = t @ 0 # xs\<rparr> t"
    using sds_reprI [of t xs] assms(2) xs by simp
  ultimately show ?thesis using w l xs by simp
qed

lemma sdscatlen_text:
  assumes "sds_repr s t" and "read_bytes b 0 n = Some x" and "length t + n < 2 ^ 30"
  shows "\<exists>s'. sdscatlen fresh s b n = Some s' \<and> sds_repr s' (t @ x)"
proof -
  have n: "length x = n" using assms(2) by (auto simp: read_bytes_def split: if_splits)
  define r where "r = sdsMakeRoomFor fresh s n"
  note room = sdsMakeRoomFor_text [OF assms(1,3), of fresh, folded r_def]
  obtain sp where sp: "r = \<lparr>s_len = int (length t), s_free = int (length sp), s_buf = t @ 0 # sp\<rparr>"
    "length t + length sp + 1 < 2 ^ 31" using room(1) by (rule sds_reprE)
  have "length (t @ x) < length (s_buf r)" "length (s_buf r) < 2 ^ 31" "length t \<le> length (t @ x)"
    using room(3) sp n by simp_all
  moreover have "take (length t) (s_buf r) = take (length t) (t @ x)" using sp by simp
  ultimately obtain b' b'' where B: "write_bytes (s_buf r) (length t) (drop (length t) (t @ x)) = Some b'"
    "poke b' (length (t @ x)) 0 = Some b''"
    "sds_repr \<lparr>s_len = int (length (t @ x)),
      s_free = int (length (s_buf r)) - int (length (t @ x)) - 1, s_buf = b''\<rparr> (t @ x)"
    using sds_rewrite [of "t @ x" "s_buf r" "length t"] by blast
  have free: "s32 (s_free r - int n) = int (length (s_buf r)) - int (length (t @ x)) - 1"
    using room(3) sp n s32_diff [of "length sp" n] by simp
  have "s32 (int (length t + n)) = int (length (t @ x))" using assms(3) n s32_nat [of "length t + n"] by simp
  then have "sdscatlen fresh s b n = Some \<lparr>s_len = int (length (t @ x)),
      s_free = int (length (s_buf r)) - int (length (t @ x)) - 1, s_buf = b''\<rparr>"
    using B(1,2) assms(1,2) n free sp(1)
    by (simp add: sdscatlen_def Let_def sds_texts flip: r_def)
  with B(3) show ?thesis by simp
qed

lemma sdscat_text:
  "sds_repr s t \<Longrightarrow> 0 \<notin> set x \<Longrightarrow> length t + length x < 2 ^ 30 \<Longrightarrow>
    \<exists>s'. sdscat fresh s (x @ 0 # r) = Some s' \<and> sds_repr s' (t @ x)"
  using sdscatlen_text [of s t "x @ 0 # r" "length x" x fresh] by (simp add: sdscat_def read_bytes_text)

lemma sdscatsds_text:
  "sds_repr s t \<Longrightarrow> sds_repr u x \<Longrightarrow> length t + length x < 2 ^ 30 \<Longrightarrow>
    \<exists>s'. sdscatsds fresh s u = Some s' \<and> sds_repr s' (t @ x)"
  using sdscatlen_text [of s t "s_buf u" "length x" x fresh] by (simp add: sdscatsds_def sds_texts)

lemma sdscpylen_text:
  assumes "sds_repr s t" and "read_bytes b 0 n = Some x" and "length t + n < 2 ^ 30"
  shows "\<exists>s'. sdscpylen fresh s b n = Some s' \<and> sds_repr s' x"
proof -
  have n: "length x = n" using assms(2) by (auto simp: read_bytes_def split: if_splits)
  obtain spare where s: "s = \<lparr>s_len = int (length t), s_free = int (length spare), s_buf = t @ 0 # spare\<rparr>"
    "length t + length spare + 1 < 2 ^ 31" using assms(1) by (rule sds_reprE)
  define tot where "tot = length t + length spare"
  have tot: "u64 (s_free s + s_len s) = tot"
    using s u64_nat [of tot] by (simp add: tot_def algebra_simps)
  define r where "r = (if tot < n then sdsMakeRoomFor fresh s (n - nat (s_len s)) else s)"
  have room: "sds_repr r t \<and> n < length (s_buf r)"
  proof (cases "tot < n")
    case True
    then have less: "length t + (n - length t) < 2 ^ 30" "length t \<le> n"
      using assms(3) by (simp_all add: tot_def)
    show ?thesis
      using True s less(2) sdsMakeRoomFor_text(1,3) [OF assms(1) less(1), of fresh] by (simp add: r_def)
  next
    case False
    then show ?thesis using s assms(1) by (simp add: r_def tot_def)
  qed
  then obtain sp where sp: "r = \<lparr>s_len = int (length t), s_free = int (length sp), s_buf = t @ 0 # sp\<rparr>"
    "length t + length sp + 1 < 2 ^ 31" by (blast elim: sds_reprE)
  have tot2: "(if tot < n then u64 (s_free r + s_len r) else tot) = length (s_buf r) - 1"
    using sp s u64_nat [of "length t + length sp"]
    by (auto simp: r_def tot_def algebra_simps split: if_splits)
  have len: "length x < length (s_buf r)" "length (s_buf r) < 2 ^ 31" using room sp n by simp_all
  obtain b' b'' where B: "write_bytes (s_buf r) 0 x = Some b'" "poke b' (length x) 0 = Some b''"
    "sds_repr \<lparr>s_len = int (length x), s_free = int (length (s_buf r)) - int (length x) - 1, s_buf = b''\<rparr> x"
    using sds_rewrite [OF len, of 0] by auto
  have free: "s32 (int (length (s_buf r) - 1) - int n) = int (length (s_buf r)) - int (length x) - 1"
    using len n s32_diff [of "length (s_buf r) - 1" n] by simp
  have "sdscpylen fresh s b n = Some \<lparr>s_len = int (length x),
      s_free = int (length (s_buf r)) - int (length x) - 1, s_buf = b''\<rparr>"
    unfolding sdscpylen_def Let_def tot r_def [symmetric] tot2
    using B(1,2) assms(2,3) n free by simp
  with B(3) show ?thesis by simp
qed

lemma sdscpy_text:
  "sds_repr s t \<Longrightarrow> 0 \<notin> set x \<Longrightarrow> length t + length x < 2 ^ 30 \<Longrightarrow>
    \<exists>s'. sdscpy fresh s (x @ 0 # r) = Some s' \<and> sds_repr s' x"
  using sdscpylen_text [of s t "x @ 0 # r" "length x" x fresh] by (simp add: sdscpy_def read_bytes_text)

lemma sdsgrowzero_text:
  assumes "sds_repr s t" and "n < 2 ^ 30" and "length t < 2 ^ 30"
  shows "\<exists>s'. sdsgrowzero fresh s n = Some s' \<and> sds_repr s' (t @ replicate (n - length t) 0)"
proof (cases "n \<le> length t")
  case True
  then show ?thesis using assms(1) by (simp add: sdsgrowzero_def sds_texts)
next
  case False
  define d where "d = n - length t"
  have d: "length t + d = n" "length t + d < 2 ^ 30" using False assms(2) by (simp_all add: d_def)
  define r where "r = sdsMakeRoomFor fresh s d"
  note room = sdsMakeRoomFor_text [OF assms(1) d(2), of fresh, folded r_def]
  obtain sp where sp: "r = \<lparr>s_len = int (length t), s_free = int (length sp), s_buf = t @ 0 # sp\<rparr>"
    "length t + length sp + 1 < 2 ^ 31" using room(1) by (rule sds_reprE)
  have "d \<le> length sp" using room(3) sp by simp
  then have parts: "t @ 0 # sp = t @ (0 # take d sp) @ drop d sp" "length (0 # take d sp) = d + 1" by simp_all
  have w: "write_bytes (s_buf r) (length t) (replicate (d + 1) 0) = Some (t @ replicate (d + 1) 0 @ drop d sp)"
    unfolding sp sdshdr.simps parts(1) by (rule write_bytes_mid) (simp_all add: parts(2) \<open>d \<le> length sp\<close>)
  let ?u = "t @ replicate d 0"
  have u: "t @ replicate (d + 1) 0 @ drop d sp = ?u @ 0 # drop d sp"
    by (simp add: replicate_append_same [symmetric])
  have free: "s32 (s_len r + s_free r - int n) = int (length (drop d sp))"
    using s32_diff [of "length t + length sp" n] sp d \<open>d \<le> length sp\<close> by simp
  have "sdsgrowzero fresh s n = Some \<lparr>s_len = int (length ?u), s_free = int (length (drop d sp)),
      s_buf = ?u @ 0 # drop d sp\<rparr>"
    using False w free assms d sp(1)
    by (simp add: sdsgrowzero_def Let_def sds_texts replicate_append_same flip: d_def r_def)
  moreover have "sds_repr \<lparr>s_len = int (length ?u), s_free = int (length (drop d sp)),
      s_buf = ?u @ 0 # drop d sp\<rparr> ?u"
    by (rule sds_reprI) (use sp \<open>d \<le> length sp\<close> in simp)
  ultimately show ?thesis by (simp add: d_def)
qed

lemma sdsRemoveFreeSpace_text:
  "sds_repr s t \<Longrightarrow> sds_repr (sdsRemoveFreeSpace fresh s) t \<and> s_free (sdsRemoveFreeSpace fresh s) = 0"
  using sds_reprI [of t "[]"]
  by (elim sds_reprE) (simp add: sdsRemoveFreeSpace_def resize_shrink nat_add_distrib)

lemma sdsIncrLen_text:
  assumes "s = \<lparr>s_len = int (length t), s_free = int (length x + length r), s_buf = t @ c # x @ r\<rparr>"
    and "length t + length x + length r + 1 < 2 ^ 31" and "- int (length t) \<le> n" and "n \<le> int (length x)"
  shows "\<exists>s'. sdsIncrLen s n = Some s' \<and> sds_repr s' (take (nat (int (length t) + n)) (t @ c # x))"
proof -
  define k where "k = nat (int (length t) + n)"
  have k: "int k = int (length t) + n" "k \<le> length (t @ x)" using assms(3,4) by (simp_all add: k_def)
  have same: "take k (t @ c # x) = take k (t @ c # x @ r)"
    using k(2) take_append [of k "t @ c # x" r] by simp
  define a y z where "a = take k (t @ c # x)" and "y = (t @ c # x @ r) ! k" and "z = drop (k + 1) (t @ c # x @ r)"
  have a: "length a = k" "t @ c # x @ r = a @ [y] @ z" "length a + length z + 1 < 2 ^ 31"
    "length z = length t + length x + length r - k"
    using k(2) assms(2) id_take_nth_drop [of k "t @ c # x @ r"] same by (simp_all add: a_def y_def z_def)
  have "poke (t @ c # x @ r) k 0 = Some (a @ 0 # z)"
    using write_bytes_mid [of k a "[0]" "[y]" z] a(1) by (simp add: a(2))
  then have "sdsIncrLen s n = Some \<lparr>s_len = int k, s_free = int (length z), s_buf = a @ 0 # z\<rparr>"
    using assms(1,4) k a(4) by (simp add: sdsIncrLen_def check_def Let_def flip: k_def)
  moreover have "sds_repr \<lparr>s_len = int (length a), s_free = int (length z), s_buf = a @ 0 # z\<rparr> a"
    using a(3) by (rule sds_reprI)
  ultimately have "\<exists>s'. sdsIncrLen s n = Some s' \<and> sds_repr s' a" using a(1) by auto
  then show ?thesis unfolding a_def k_def .
qed

subsection \<open>Cutting\<close>

lemma move_nop: "n \<le> length b \<Longrightarrow> move_bytes b 0 0 n = Some b"
  by (simp add: move_bytes_def read_bytes_def write_bytes_def)

lemma move_none: "a \<le> length b \<Longrightarrow> move_bytes b 0 a 0 = Some b"
  by (simp add: move_bytes_def read_bytes_def write_bytes_def)

lemma sds_cut:
  assumes "sds_repr s t" and "a + n \<le> length t"
  shows "\<exists>b b'. move_bytes (s_buf s) 0 a n = Some b \<and> poke b n 0 = Some b'
    \<and> sds_repr (s\<lparr>s_free := s_free s + (s_len s - int n), s_len := int n, s_buf := b'\<rparr>) (take n (drop a t))"
proof -
  obtain sp where s: "s = \<lparr>s_len = int (length t), s_free = int (length sp), s_buf = t @ 0 # sp\<rparr>"
    "length t + length sp + 1 < 2 ^ 31" using assms(1) by (rule sds_reprE)
  define x where "x = take n (drop a t)"
  have x: "length x = n" using assms(2) by (simp add: x_def)
  have "read_bytes (s_buf s) a n = Some x" using s assms(2) by (simp add: read_bytes_def x_def)
  then have m: "move_bytes (s_buf s) 0 a n = Some (x @ drop n (s_buf s))"
    using s assms(2) x by (simp add: move_bytes_def write_bytes_def)
  have "length (drop n (s_buf s)) = Suc (length t - n + length sp)" using s assms(2) by simp
  then obtain c z where cz: "drop n (s_buf s) = c # z" "length z = length t - n + length sp"
    by (cases "drop n (s_buf s)") auto
  have "poke (x @ c # z) n 0 = Some (x @ 0 # z)"
    using write_bytes_mid [of n x "[0]" "[c]" z] x by simp
  moreover have "sds_repr \<lparr>s_len = int (length x), s_free = int (length z), s_buf = x @ 0 # z\<rparr> x"
    by (rule sds_reprI) (use x cz(2) s(2) assms(2) in simp)
  ultimately show ?thesis using m cz s(1) assms(2) x by (simp add: of_nat_diff algebra_simps flip: x_def)
qed

text \<open>What \<open>sdstrim\<close> removes: the characters of the set, and also every 0 byte.\<close>

definition trim_text :: "byte list \<Rightarrow> byte list \<Rightarrow> byte list" where
  "trim_text cset t =
     (let P = (\<lambda>c. c \<in> set cset \<or> c = 0) in rev (dropWhile P (rev (dropWhile P t))))"

lemma trim_left_spec:
  assumes "sds_repr s t" and "0 \<notin> set cset"
  shows "a \<le> length t \<Longrightarrow> trim_left (s_buf s) (cset @ 0 # r) (int a) (int (length t) - 1)
    = Some (int (a + length (takeWhile (\<lambda>c. c \<in> set cset \<or> c = 0) (drop a t))))"
proof (induction "length t - a" arbitrary: a)
  case 0
  then show ?case by (subst trim_left.simps) simp
next
  case (Suc k)
  then have a: "a < length t" by simp
  have "read_bytes (s_buf s) a 1 = Some [t ! a]"
    using a assms(1) by (elim sds_reprE) (simp add: read_bytes_def take_Suc hd_drop_conv_nth nth_append)
  moreover have "drop a t = t ! a # drop (a + 1) t" using a by (simp add: Cons_nth_drop_Suc)
  moreover have "trim_left (s_buf s) (cset @ 0 # r) (int (a + 1)) (int (length t) - 1)
    = Some (int (a + 1 + length (takeWhile (\<lambda>c. c \<in> set cset \<or> c = 0) (drop (a + 1) t))))"
    using Suc.hyps(2) a by (intro Suc.hyps(1)) simp_all
  ultimately show ?case using a assms(2)
    by (subst trim_left.simps) (auto simp: strchr_text algebra_simps)
qed

lemma trim_right_spec:
  assumes "sds_repr s t" and "0 \<notin> set cset"
  shows "e < length t \<Longrightarrow> \<exists>k \<le> e. trim_right (s_buf s) (cset @ 0 # r) 0 (int e) = Some (int k)
    \<and> (\<forall>j. k < j \<and> j \<le> e \<longrightarrow> t ! j \<in> set cset \<or> t ! j = 0)
    \<and> (0 < k \<longrightarrow> t ! k \<notin> set cset \<and> t ! k \<noteq> 0)"
proof (induction e)
  case 0
  then show ?case by (subst trim_right.simps) simp
next
  case (Suc e)
  have rd: "read_bytes (s_buf s) (Suc e) 1 = Some [t ! Suc e]"
    using Suc.prems assms(1) by (elim sds_reprE) (simp add: read_bytes_def take_Suc hd_drop_conv_nth nth_append)
  show ?case
  proof (cases "t ! Suc e \<in> set cset \<or> t ! Suc e = 0")
    case True
    obtain k where "k \<le> e" "trim_right (s_buf s) (cset @ 0 # r) 0 (int e) = Some (int k)"
      "\<forall>j. k < j \<and> j \<le> e \<longrightarrow> t ! j \<in> set cset \<or> t ! j = 0" "0 < k \<longrightarrow> t ! k \<notin> set cset \<and> t ! k \<noteq> 0"
      using Suc by auto
    moreover from this(2) have "trim_right (s_buf s) (cset @ 0 # r) 0 (int (Suc e)) = Some (int k)"
      using True rd assms(2) by (subst trim_right.simps) (simp add: strchr_text nat_add_distrib)
    ultimately show ?thesis using True by (intro exI [of _ k]) (auto simp: le_Suc_eq)
  next
    case False
    then have "trim_right (s_buf s) (cset @ 0 # r) 0 (int (Suc e)) = Some (int (Suc e))"
      using rd assms(2) by (subst trim_right.simps) (simp add: strchr_text nat_add_distrib)
    then show ?thesis using False by (intro exI [of _ "Suc e"]) auto
  qed
qed

lemma rev_dropWhile_rev:
  assumes "k < length u" and "\<not> P (u ! k)" and "\<forall>j. k < j \<and> j < length u \<longrightarrow> P (u ! j)"
  shows "rev (dropWhile P (rev u)) = take (k + 1) u"
proof -
  have "\<forall>c \<in> set (rev (drop (k + 1) u)). P c" using assms(3) by (auto simp: in_set_conv_nth)
  then have "dropWhile P (rev (drop (k + 1) u) @ rev (take (k + 1) u)) = dropWhile P (rev (take (k + 1) u))"
    by (intro dropWhile_append2) auto
  moreover have "rev u = rev (drop (k + 1) u) @ rev (take (k + 1) u)" by (simp flip: rev_append)
  moreover have "rev (take (k + 1) u) = u ! k # rev (take k u)" using assms(1) by (simp add: take_Suc_conv_app_nth)
  ultimately show ?thesis using assms(1,2) by (simp add: take_Suc_conv_app_nth)
qed

lemma trim_window:
  assumes "sds_repr s t" and "0 \<notin> set cset"
    and a: "a = length (takeWhile (\<lambda>c. c \<in> set cset \<or> c = 0) t)"
  shows "\<exists>ep n. trim_right (s_buf s) (cset @ 0 # r) 0 (int (length t) - 1) = Some ep
    \<and> n = (if int a > ep then 0 else nat (ep - int a + 1))
    \<and> a + n \<le> length t \<and> take n (drop a t) = trim_text cset t"
proof -
  define P where "P c \<longleftrightarrow> c \<in> set cset \<or> c = 0" for c
  have a: "a = length (takeWhile P t)" by (simp add: a P_def [abs_def])
  then have al: "a \<le> length t" "dropWhile P t = drop a t"
    by (simp_all add: length_takeWhile_le dropWhile_eq_drop)
  have trim: "trim_text cset t = rev (dropWhile P (rev (drop a t)))"
    using al(2) by (simp add: trim_text_def P_def [abs_def])
  consider "t = []" | "t \<noteq> []" "a = length t" | "a < length t" using al by fastforce
  then show ?thesis
  proof cases
    case 1
    have "trim_right (s_buf s) (cset @ 0 # r) 0 (- 1) = Some (- 1)" by (subst trim_right.simps) simp
    then show ?thesis using 1 trim by (intro exI [of _ "- 1"] exI [of _ 0]) (simp add: a)
  next
    case 2
    then have e: "length t - 1 < length t" "int (length t) - 1 = int (length t - 1)" by (cases t; simp)+
    obtain k where k: "k \<le> length t - 1"
      "trim_right (s_buf s) (cset @ 0 # r) 0 (int (length t) - 1) = Some (int k)"
      using trim_right_spec [OF assms(1,2) e(1), of r] unfolding e(2) by blast
    have "k < a" using k(1) e(1) 2(2) by linarith
    then show ?thesis using k(2) 2 trim by (intro exI [of _ "int k"] exI [of _ 0]) simp
  next
    case 3
    then have e: "length t - 1 < length t" "int (length t) - 1 = int (length t - 1)" by simp_all
    obtain k where k: "k \<le> length t - 1"
      "trim_right (s_buf s) (cset @ 0 # r) 0 (int (length t) - 1) = Some (int k)"
      "\<forall>j. k < j \<and> j \<le> length t - 1 \<longrightarrow> P (t ! j)" "0 < k \<longrightarrow> \<not> P (t ! k)"
      using trim_right_spec [OF assms(1,2) e(1), of r] unfolding e(2) P_def by blast
    have nP: "\<not> P (t ! a)" using 3 unfolding a by (rule nth_length_takeWhile)
    have "k < a \<Longrightarrow> P (t ! a)" using k(3) 3 by simp
    then have ak: "a \<le> k" using nP by (meson not_le)
    have "rev (dropWhile P (rev (drop a t))) = take (k - a + 1) (drop a t)"
    proof (rule rev_dropWhile_rev)
      show "\<not> P (drop a t ! (k - a))" using k(4) nP ak 3 by (cases "k = 0") simp_all
      show "\<forall>j. k - a < j \<and> j < length (drop a t) \<longrightarrow> P (drop a t ! j)"
      proof (intro allI impI)
        fix j assume j: "k - a < j \<and> j < length (drop a t)"
        then have "k < a + j \<and> a + j \<le> length t - 1" using ak by auto
        then show "P (drop a t ! j)" using k(3) 3 by simp
      qed
    qed (use k(1) ak 3 in simp)
    moreover have "\<not> int a > int k" "nat (int k - int a + 1) = k - a + 1" "a + (k - a + 1) \<le> length t"
      using ak k(1) 3 by simp_all
    ultimately show ?thesis using k(2) trim
      by (intro exI [of _ "int k"] exI [of _ "k - a + 1"]) (simp only: if_False simp_thms)
  qed
qed

lemma sdstrim_text:
  assumes "sds_repr s t" and "0 \<notin> set cset"
  shows "\<exists>s'. sdstrim s (cset @ 0 # r) = Some s' \<and> sds_repr s' (trim_text cset t)"
proof -
  define a where "a = length (takeWhile (\<lambda>c. c \<in> set cset \<or> c = 0) t)"
  have L: "trim_left (s_buf s) (cset @ 0 # r) 0 (int (length t) - 1) = Some (int a)"
    using trim_left_spec [OF assms, of 0 r] by (simp add: a_def)
  have buf: "length t \<le> length (s_buf s)" using assms(1) by (auto elim: sds_reprE)
  obtain ep n where R: "trim_right (s_buf s) (cset @ 0 # r) 0 (int (length t) - 1) = Some ep"
    "n = (if int a > ep then 0 else nat (ep - int a + 1))" "a + n \<le> length t"
    "take n (drop a t) = trim_text cset t" using trim_window [OF assms a_def, of r] by blast
  obtain b b' where B: "move_bytes (s_buf s) 0 a n = Some b" "poke b n 0 = Some b'"
    "sds_repr (s\<lparr>s_free := s_free s + (s_len s - int n), s_len := int n, s_buf := b'\<rparr>) (trim_text cset t)"
    using sds_cut [OF assms(1) R(3)] R(4) by auto
  have mv: "(if int a \<noteq> 0 then move_bytes (s_buf s) 0 (nat (int a)) n else Some (s_buf s)) = Some b"
    using B(1) move_nop [of n "s_buf s"] R(3) buf by (cases "a = 0") simp_all
  have "sdstrim s (cset @ 0 # r)
    = Some (s\<lparr>s_free := s_free s + (s_len s - int n), s_len := int n, s_buf := b'\<rparr>)"
    unfolding sdstrim_def sdslen_text [OF assms(1)] Let_def L R(1) Option.bind.bind_lunit R(2) [symmetric] mv B(2)
    by (rule refl)
  with B(3) show ?thesis by blast
qed

text \<open>The range of a text, with negative positions counted from its end.\<close>

definition range_text :: "int \<Rightarrow> int \<Rightarrow> byte list \<Rightarrow> byte list" where
  "range_text i j t =
     (let n = int (length t); i = (if i < 0 then max 0 (n + i) else i);
          j = (if j < 0 then max 0 (n + j) else j)
      in take (nat (j - i + 1)) (drop (nat i) t))"

lemma s32_id: "- (2 ^ 31) \<le> x \<Longrightarrow> x < 2 ^ 31 \<Longrightarrow> s32 x = x"
  by (simp add: s32_def)

lemma sdsrange_text:
  assumes "sds_repr s t" and "- (2 ^ 31) \<le> i" and "- (2 ^ 31) \<le> j"
  shows "\<exists>s'. sdsrange s i j = Some s' \<and> sds_repr s' (range_text i j t)"
proof (cases "t = []")
  case True
  then show ?thesis using assms(1) by (simp add: sdsrange_def sds_texts range_text_def Let_def)
next
  case False
  define L where "L = int (length t)"
  have L: "0 < L" "L < 2 ^ 31" using False sds_repr_less [OF assms(1)] by (simp_all add: L_def)
  define a where "a = (if i < 0 then max 0 (L + i) else i)"
  define b where "b = (if j < 0 then max 0 (L + j) else j)"
  have ab: "0 \<le> a" "0 \<le> b" by (simp_all add: a_def b_def)
  have s: "(if i < 0 then max 0 (s32 (L + i)) else i) = a" "(if j < 0 then max 0 (s32 (L + j)) else j) = b"
    using L assms(2,3) s32_id [of "L + i"] s32_id [of "L + j"] by (auto simp: a_def b_def)
  have r: "range_text i j t = take (nat (b - a + 1)) (drop (nat a) t)"
    by (simp add: range_text_def Let_def a_def b_def L_def)
  define n where "n = (if a > b \<or> a \<ge> L then 0 else if b \<ge> L then L - a else b - a + 1)"
  define p where "p = (if a > b then 0 else a)"
  have sel: "(if (if a > b then 0 else b - a + 1) \<noteq> 0
      then if a \<ge> L then (a, 0)
           else if b \<ge> L then (a, if a > L - 1 then 0 else L - 1 - a + 1)
                else (a, if a > b then 0 else b - a + 1)
      else (0, if a > b then 0 else b - a + 1)) = (p, n)"
    by (auto simp: n_def p_def)
  have n: "0 \<le> n" "(if n = 0 then 0 else nat a) + nat n \<le> length t"
    using ab L by (auto simp: n_def L_def)
  have cut: "take (nat n) (drop (if n = 0 then 0 else nat a) t) = range_text i j t"
  proof -
    consider "a > b" | "a \<ge> L" | "a \<le> b" "a < L" "b \<ge> L" | "a \<le> b" "a < L" "b < L" by linarith
    then show ?thesis
    proof cases
      case 3
      then have "length (drop (nat a) t) \<le> nat n" "length (drop (nat a) t) \<le> nat (b - a + 1)" "n \<noteq> 0"
        using ab by (auto simp: n_def L_def)
      then show ?thesis by (simp add: r)
    qed (auto simp: n_def r L_def)
  qed
  have buf: "length t < length (s_buf s)" using assms(1) by (auto elim: sds_reprE)
  obtain x x' where B: "move_bytes (s_buf s) 0 (if n = 0 then 0 else nat a) (nat n) = Some x"
    "poke x (nat n) 0 = Some x'"
    "sds_repr (s\<lparr>s_free := s_free s + (s_len s - int (nat n)), s_len := int (nat n), s_buf := x'\<rparr>) (range_text i j t)"
    using sds_cut [OF assms(1) n(2)] cut by auto
  have "(if p \<noteq> 0 \<and> n \<noteq> 0 then move_bytes (s_buf s) 0 (nat p) (nat n) else Some (s_buf s)) = Some x"
    using B(1) move_nop [of "nat n" "s_buf s"] n buf ab by (auto simp: p_def n_def split: if_splits)
  then have "sdsrange s i j
    = Some (s\<lparr>s_free := s_free s + (s_len s - int (nat n)), s_len := int (nat n), s_buf := x'\<rparr>)"
    using B(2) n(1) L False
    unfolding sdsrange_def sdslen_text [OF assms(1)] L_def [symmetric] Let_def s sel prod.case by simp
  with B(3) show ?thesis by blast
qed

subsection \<open>Characters and comparison\<close>

lemma map_text_text:
  assumes "sds_repr s t"
  shows "\<exists>s'. map_text f s = Some s' \<and> sds_repr s' (map f t)"
proof -
  obtain sp where s: "s = \<lparr>s_len = int (length t), s_free = int (length sp), s_buf = t @ 0 # sp\<rparr>"
    "length t + length sp + 1 < 2 ^ 31" using assms by (rule sds_reprE)
  have "write_bytes (t @ 0 # sp) 0 (map f t) = Some (map f t @ 0 # sp)"
    using write_bytes_mid [of 0 "[]" "map f t" t "0 # sp"] by simp
  then have "map_text f s = Some \<lparr>s_len = int (length t), s_free = int (length sp), s_buf = map f t @ 0 # sp\<rparr>"
    unfolding map_text_def sdslen_text [OF assms] using read_text [OF assms, of "length t"] s(1) by simp
  moreover have "sds_repr \<lparr>s_len = int (length (map f t)), s_free = int (length sp), s_buf = map f t @ 0 # sp\<rparr> (map f t)"
    by (rule sds_reprI) (use s(2) in simp)
  ultimately show ?thesis by simp
qed

lemma sdsmapchars_text:
  assumes "sds_repr s t" and "read_bytes from 0 n = Some f" and "read_bytes to 0 n = Some g"
  shows "\<exists>s'. sdsmapchars s from to n = Some s' \<and> sds_repr s' (map (map_char f g) t)"
  using map_text_text [OF assms(1)] assms(2,3) by (simp add: sdsmapchars_def)

lemma sdscmp_text:
  assumes "sds_repr s t" and "sds_repr s' t'"
  shows "sdscmp s s' = Some (let n = min (length t) (length t'); c = memcmp (take n t) (take n t')
    in if c = 0 then int (length t) - int (length t') else c)"
proof -
  have "length t < 2 ^ 31" "length t' < 2 ^ 31" using assms sds_repr_less by blast+
  then have "s32 (int (length t) - int (length t')) = int (length t) - int (length t')"
    by (intro s32_id) simp_all
  then show ?thesis
    using assms by (cases "length t < length t'") (auto simp: sdscmp_def Let_def sds_texts min_def)
qed

text \<open>The difference is 0 exactly for equal texts, and swapping the arguments negates it.\<close>

definition text_cmp :: "byte list \<Rightarrow> byte list \<Rightarrow> int" where
  "text_cmp t t' = (let n = min (length t) (length t'); c = memcmp (take n t) (take n t')
    in if c = 0 then int (length t) - int (length t') else c)"

lemma text_cmp_0: "text_cmp t t' = 0 \<longleftrightarrow> t = t'"
proof -
  let ?n = "min (length t) (length t')"
  have "length (take ?n t) = length (take ?n t')" by simp
  note m = memcmp_eq_0 [OF this]
  show ?thesis
  proof
    assume z: "text_cmp t t' = 0"
    then have "take ?n t = take ?n t'" "length t = length t'"
      using m by (auto simp: text_cmp_def Let_def split: if_splits)
    then show "t = t'" by simp
  qed (simp add: text_cmp_def)
qed

lemma text_cmp_minus: "text_cmp t' t = - text_cmp t t'"
proof -
  let ?n = "min (length t) (length t')"
  have "memcmp (take ?n t') (take ?n t) = - memcmp (take ?n t) (take ?n t')"
    by (rule memcmp_minus) simp
  then show ?thesis by (simp add: text_cmp_def Let_def min.commute)
qed

subsection \<open>Integers\<close>

lemma digit_loop_decimal: "digit_loop v = rev (decimal v)"
proof (induction v rule: digit_loop.induct)
  case (1 v)
  show ?case
  proof (cases "v < 10")
    case True
    then show ?thesis by (simp add: digit_loop.simps [of v] decimal.simps [of v])
  next
    case False
    then have "v div 10 \<noteq> 0" by simp
    with False 1 show ?thesis by (simp add: digit_loop.simps [of v] decimal.simps [of v])
  qed
qed

lemma reverse_loop_segment:
  "x \<noteq> [] \<Longrightarrow> reverse_loop (a @ x @ b) (length a) (length a + length x - 1) = a @ rev x @ b"
proof (induction "length x" arbitrary: a x b rule: less_induct)
  case less
  show ?case
  proof (cases "length x = 1")
    case True
    then obtain c where "x = [c]" by (cases x) auto
    then show ?thesis by (subst reverse_loop.simps) simp
  next
    case False
    with less.prems obtain c y d where x: "x = c # y @ [d]"
      by (cases x) (auto, metis rev_exhaust)
    let ?s = "a @ c # (y @ d # b)"
    have j: "?s ! length a = c" "?s ! (length a + length y + 1) = d" by (simp_all add: nth_append)
    have "?s[length a := d, length a + length y + 1 := c] = (a @ [d]) @ y @ (c # b)"
      by (simp add: list_update_append)
    then have step: "reverse_loop (a @ x @ b) (length a) (length a + length x - 1)
      = reverse_loop ((a @ [d]) @ y @ (c # b)) (length a + 1) (length a + length y)"
      using j by (subst reverse_loop.simps) (simp add: x)
    show ?thesis
    proof (cases "y = []")
      case True
      then show ?thesis using step by (simp add: x) (subst reverse_loop.simps, simp)
    next
      case False
      have "reverse_loop ((a @ [d]) @ y @ (c # b)) (length (a @ [d])) (length (a @ [d]) + length y - 1)
        = (a @ [d]) @ rev y @ (c # b)"
        by (rule less.hyps) (use False x in simp_all)
      then show ?thesis using step False by (simp add: x)
    qed
  qed
qed

lemma reverse_loop_rev: "x \<noteq> [] \<Longrightarrow> reverse_loop x 0 (length x - 1) = rev x"
  using reverse_loop_segment [of x "[]" "[]"] by simp

lemma sdsll2str_text:
  assumes "is_int64 v"
  shows "sdsll2str v = Some (int_text v)"
proof -
  let ?v = "if v < 0 then - v else v"
  have u: "u64 ?v = nat ?v" using assms by (intro u64_id) (auto simp: is_int64_def range_defs)
  have s: "digit_loop (u64 ?v) @ (if v < 0 then [45] else []) = rev (int_text v)"
    unfolding u by (simp add: digit_loop_decimal int_text_def)
  have "length (int_text v) < SDS_LLSTR_SIZE" "int_text v \<noteq> []"
    using length_int_text [OF assms] by (simp_all add: SDS_LLSTR_SIZE_def int_text_def)
  then show ?thesis
    unfolding sdsll2str_def Let_def s using reverse_loop_rev [of "rev (int_text v)"]
    by (simp add: check_def)
qed

lemma sdsull2str_text:
  assumes "v < 2 ^ 64"
  shows "sdsull2str v = Some (decimal v)"
proof -
  have "v < 10 ^ 20" using assms by simp
  then have "length (decimal v) \<le> 20" by (intro length_decimal) simp_all
  then show ?thesis using reverse_loop_rev [of "rev (decimal v)"]
    by (simp add: sdsull2str_def digit_loop_decimal check_def SDS_LLSTR_SIZE_def)
qed

lemma sdsfromlonglong_text:
  assumes "is_int64 v"
  shows "\<exists>s. sdsfromlonglong v fresh = Some s \<and> sds_repr s (int_text v)"
  using sdsnewlen_text [of "int_text v" "length (int_text v)" "int_text v" fresh]
    length_int_text [OF assms] by (auto simp: sdsfromlonglong_def sdsll2str_text [OF assms])

subsection \<open>Sequences of operations\<close>

text \<open>Any operation that changes a string in place or moves it; C strings end in a 0 byte.\<close>

datatype sds_op =
    Cat "byte list" | Cpy "byte list" | Trim "byte list" | Range int int | Grow nat
  | Clear | Room nat | Fit | Lower | Upper | Chars "byte list" "byte list"

definition sds_step :: "(nat \<Rightarrow> byte) \<Rightarrow> sds_op \<Rightarrow> sdshdr \<Rightarrow> sdshdr option" where
  "sds_step fresh p s =
     (case p of
        Cat x \<Rightarrow> sdscatlen fresh s x (length x)
      | Cpy x \<Rightarrow> sdscpylen fresh s x (length x)
      | Trim cset \<Rightarrow> sdstrim s (cset @ [0])
      | Range i j \<Rightarrow> sdsrange s i j
      | Grow n \<Rightarrow> sdsgrowzero fresh s n
      | Clear \<Rightarrow> sdsclear s
      | Room n \<Rightarrow> Some (sdsMakeRoomFor fresh s n)
      | Fit \<Rightarrow> Some (sdsRemoveFreeSpace fresh s)
      | Lower \<Rightarrow> sdstolower s
      | Upper \<Rightarrow> sdstoupper s
      | Chars f g \<Rightarrow> sdsmapchars s f g (length f))"

definition text_step :: "sds_op \<Rightarrow> byte list \<Rightarrow> byte list" where
  "text_step p t =
     (case p of
        Cat x \<Rightarrow> t @ x
      | Cpy x \<Rightarrow> x
      | Trim cset \<Rightarrow> trim_text cset t
      | Range i j \<Rightarrow> range_text i j t
      | Grow n \<Rightarrow> t @ replicate (n - length t) 0
      | Clear \<Rightarrow> []
      | Room n \<Rightarrow> t
      | Fit \<Rightarrow> t
      | Lower \<Rightarrow> map tolower t
      | Upper \<Rightarrow> map toupper t
      | Chars f g \<Rightarrow> map (map_char f g) t)"

text \<open>What the caller must ensure: the sizes stay below a gigabyte, the arguments have their types.\<close>

definition op_fits :: "sds_op \<Rightarrow> byte list \<Rightarrow> bool" where
  "op_fits p t =
     (case p of
        Cat x \<Rightarrow> length t + length x < 2 ^ 30
      | Cpy x \<Rightarrow> length t + length x < 2 ^ 30
      | Trim cset \<Rightarrow> 0 \<notin> set cset
      | Range i j \<Rightarrow> - (2 ^ 31) \<le> i \<and> - (2 ^ 31) \<le> j
      | Grow n \<Rightarrow> n < 2 ^ 30 \<and> length t < 2 ^ 30
      | Room n \<Rightarrow> length t + n < 2 ^ 30
      | Chars f g \<Rightarrow> length f = length g
      | _ \<Rightarrow> True)"

fun sds_run :: "(nat \<Rightarrow> byte) \<Rightarrow> sds_op list \<Rightarrow> sdshdr \<Rightarrow> sdshdr option" where
  "sds_run fresh [] s = Some s"
| "sds_run fresh (p # ps) s = do { s \<leftarrow> sds_step fresh p s; sds_run fresh ps s }"

fun ops_fit :: "sds_op list \<Rightarrow> byte list \<Rightarrow> bool" where
  "ops_fit [] t = True"
| "ops_fit (p # ps) t = (op_fits p t \<and> ops_fit ps (text_step p t))"

lemma sdsclear_text:
  assumes "sds_repr s t"
  shows "\<exists>s'. sdsclear s = Some s' \<and> sds_repr s' []"
proof -
  obtain sp where s: "s = \<lparr>s_len = int (length t), s_free = int (length sp), s_buf = t @ 0 # sp\<rparr>"
    "length t + length sp + 1 < 2 ^ 31" using assms by (rule sds_reprE)
  obtain c z where cz: "t @ 0 # sp = c # z" by (cases t) auto
  have "length (t @ 0 # sp) = length (c # z)" using cz by simp
  then have len: "length z = length t + length sp" by simp
  have "poke (c # z) 0 0 = Some (0 # z)" using write_bytes_mid [of 0 "[]" "[0]" "[c]" z] by simp
  moreover have "sds_repr \<lparr>s_len = 0, s_free = int (length z), s_buf = 0 # z\<rparr> []"
    using sds_reprI [of "[]" z] s(2) len by simp
  ultimately show ?thesis using s(1) cz len by (simp add: sdsclear_def add.commute)
qed

lemma sds_step_text:
  assumes "sds_repr s t" and "op_fits p t"
  shows "\<exists>s'. sds_step fresh p s = Some s' \<and> sds_repr s' (text_step p t)"
proof (cases p)
  case (Chars f g)
  then have "read_bytes f 0 (length f) = Some f" "read_bytes g 0 (length f) = Some g"
    using assms(2) read_bytes_all [of f] read_bytes_all [of g] by (simp_all add: op_fits_def)
  then show ?thesis using sdsmapchars_text [OF assms(1)] Chars
    by (simp add: sds_step_def text_step_def)
qed (use assms in \<open>auto simp: sds_step_def text_step_def op_fits_def sdstolower_def sdstoupper_def
  intro!: sdscatlen_text sdscpylen_text sdstrim_text sdsrange_text sdsgrowzero_text sdsclear_text
    map_text_text sdsMakeRoomFor_text(1) sdsRemoveFreeSpace_text [THEN conjunct1]\<close>)

lemma sds_run_text:
  "sds_repr s t \<Longrightarrow> ops_fit ps t \<Longrightarrow>
    \<exists>s'. sds_run fresh ps s = Some s' \<and> sds_repr s' (fold text_step ps t)"
proof (induction ps arbitrary: s t)
  case (Cons p ps)
  obtain s' where "sds_step fresh p s = Some s'" "sds_repr s' (text_step p t)"
    using sds_step_text [OF Cons.prems(1)] Cons.prems(2) by fastforce
  then show ?case using Cons.IH [of s' "text_step p t"] Cons.prems(2) by simp
qed simp

subsection \<open>Properties\<close>

text \<open>
  C10. Whatever sequence of operations runs on a new string, with the sizes below a gigabyte, no
  access leaves the buffer, no assertion fails, and the string stays well formed (the lengths add up
  to the allocation, a 0 byte ends the text) with the text that the operations give on byte strings.
\<close>

theorem sds_ops_keep_text:
  assumes "read_bytes b 0 n = Some t" and "n + 1 < 2 ^ 31" and "ops_fit ps t"
  shows "\<exists>s s'. sdsnewlen (Some b) n fresh = Some s \<and> sds_run fresh ps s = Some s'
    \<and> sds_repr s' (fold text_step ps t)"
  using sdsnewlen_text [OF assms(1,2)] sds_run_text [OF _ assms(3)] by blast

theorem sds_ops_keep_text_witness:
  "\<exists>s s'. sdsnewlen (Some [72, 105, 32, 0]) 3 (\<lambda>_. 7) = Some s
    \<and> sds_run (\<lambda>_. 7) [Cat [33, 32], Trim [32], Range (- 2) (- 1), Grow 4] s = Some s'
    \<and> sds_repr s' [32, 33, 0, 0]"
proof -
  let ?ps = "[Cat [33, 32], Trim [32], Range (- 2) (- 1), Grow 4]" and ?t = "[72, 105, 32] :: byte list"
  have trim: "trim_text [32] [72, 105, 32, 33, 32] = [72, 105, 32, 33]" by (simp add: trim_text_def)
  have range: "range_text (- 2) (- 1) [72, 105, 32, 33] = [32, 33]" by (simp add: range_text_def)
  have t: "fold text_step ?ps ?t = [32, 33, 0, 0]"
    by (simp add: text_step_def trim range numeral_2_eq_2)
  have fits: "ops_fit ?ps ?t" by (simp add: op_fits_def text_step_def trim range)
  have "read_bytes [72, 105, 32, 0] 0 3 = Some ?t" by (simp add: read_bytes_def)
  from sds_ops_keep_text [OF this _ fits, of "\<lambda>_. 7"] show ?thesis unfolding t by simp
qed

end
