(* ===== verification/Rio.thy ===== *)
theory Rio
  imports Sds_Text Redis_Crc
begin

text \<open>
  The stream objects that the dump file and the append only file are written to and read from
  (\<open>src/rio.h\<close>, \<open>src/rio.c\<close>): a string in memory or a C stream, with a running checksum and a bound
  on the size of one transfer. A C stream is its bytes, the position of the next read, and the
  number of bytes its medium still takes; \<open>None\<close> is a fault in the string operations. The checksum
  callback is absent or \<open>rioGenericUpdateChecksum\<close>.
\<close>

record stream =
  f_data :: "byte list"
  f_pos :: nat
  f_room :: nat

datatype rio_io =
    Buffer sdshdr int
  | File stream nat nat

record rio =
  io :: rio_io
  update_cksum :: bool
  cksum :: "64 word"
  processed_bytes :: nat
  max_processing_chunk :: nat

subsection \<open>The two backends\<close>

definition rioBufferWrite :: "(nat \<Rightarrow> byte) \<Rightarrow> sdshdr \<Rightarrow> int \<Rightarrow> byte list \<Rightarrow> (rio_io \<times> bool) option" where
  "rioBufferWrite fresh ptr pos buf =
     do { ptr \<leftarrow> sdscatlen fresh ptr buf (length buf);
          Some (Buffer ptr (pos + int (length buf)), True) }"

definition rioBufferRead :: "sdshdr \<Rightarrow> int \<Rightarrow> nat \<Rightarrow> (rio_io \<times> byte list option) option" where
  "rioBufferRead ptr pos len =
     (if u64 (int (sdslen ptr) - pos) < len then Some (Buffer ptr pos, None)
      else do { x \<leftarrow> read_bytes (s_buf ptr) (nat pos) len;
                Some (Buffer ptr (pos + int len), Some x) })"

text \<open>\<open>fwrite (buf, len, 1, fp)\<close> and \<open>fread (buf, len, 1, fp)\<close>: all of it, or as much as there is.\<close>

definition fwrite :: "stream \<Rightarrow> byte list \<Rightarrow> stream \<times> bool" where
  "fwrite fp buf =
     (let n = min (length buf) (f_room fp)
      in (fp\<lparr>f_data := f_data fp @ take n buf, f_room := f_room fp - n\<rparr>, length buf \<le> f_room fp))"

definition fread :: "stream \<Rightarrow> nat \<Rightarrow> stream \<times> byte list option" where
  "fread fp len =
     (let rest = drop (f_pos fp) (f_data fp)
      in if len \<le> length rest then (fp\<lparr>f_pos := f_pos fp + len\<rparr>, Some (take len rest))
         else (fp\<lparr>f_pos := f_pos fp + length rest\<rparr>, None))"

text \<open>The bytes written since the last sync are counted; the sync itself does not change them.\<close>

definition rioFileWrite :: "stream \<Rightarrow> nat \<Rightarrow> nat \<Rightarrow> byte list \<Rightarrow> rio_io \<times> bool" where
  "rioFileWrite fp buffered autosync buf =
     (let (fp, ok) = fwrite fp buf; buffered = buffered + length buf;
          buffered = (if autosync \<noteq> 0 \<and> buffered \<ge> autosync then 0 else buffered)
      in (File fp buffered autosync, ok))"

definition rioFileRead :: "stream \<Rightarrow> nat \<Rightarrow> nat \<Rightarrow> nat \<Rightarrow> rio_io \<times> byte list option" where
  "rioFileRead fp buffered autosync len =
     (let (fp, x) = fread fp len in (File fp buffered autosync, x))"

definition rioInitWithBuffer :: "sdshdr \<Rightarrow> rio" where
  "rioInitWithBuffer s = \<lparr>io = Buffer s 0, update_cksum = False, cksum = 0, processed_bytes = 0,
     max_processing_chunk = 0\<rparr>"

definition rioInitWithFile :: "stream \<Rightarrow> rio" where
  "rioInitWithFile fp = \<lparr>io = File fp 0 0, update_cksum = False, cksum = 0, processed_bytes = 0,
     max_processing_chunk = 0\<rparr>"

definition rioGenericUpdateChecksum :: "rio \<Rightarrow> byte list \<Rightarrow> rio" where
  "rioGenericUpdateChecksum r buf = r\<lparr>cksum := crc64 (cksum r) buf\<rparr>"

text \<open>\<open>None\<close> is the assertion that the object is a file.\<close>

definition rioSetAutoSync :: "rio \<Rightarrow> nat \<Rightarrow> rio option" where
  "rioSetAutoSync r bytes =
     (case io r of Buffer _ _ \<Rightarrow> None | File fp b _ \<Rightarrow> Some (r\<lparr>io := File fp b bytes\<rparr>))"

subsection \<open>Transfers in chunks\<close>

definition io_write :: "(nat \<Rightarrow> byte) \<Rightarrow> rio_io \<Rightarrow> byte list \<Rightarrow> (rio_io \<times> bool) option" where
  "io_write fresh x buf =
     (case x of Buffer ptr pos \<Rightarrow> rioBufferWrite fresh ptr pos buf
      | File fp b a \<Rightarrow> Some (rioFileWrite fp b a buf))"

definition io_read :: "rio_io \<Rightarrow> nat \<Rightarrow> (rio_io \<times> byte list option) option" where
  "io_read x len =
     (case x of Buffer ptr pos \<Rightarrow> rioBufferRead ptr pos len
      | File fp b a \<Rightarrow> Some (rioFileRead fp b a len))"

definition chunk_of :: "rio \<Rightarrow> nat \<Rightarrow> nat" where
  "chunk_of r len =
     (if max_processing_chunk r \<noteq> 0 \<and> max_processing_chunk r < len then max_processing_chunk r else len)"

definition sum_chunk :: "rio \<Rightarrow> byte list \<Rightarrow> rio" where
  "sum_chunk r buf = (if update_cksum r then rioGenericUpdateChecksum r buf else r)"

lemma chunk_of_pos: "0 < len \<Longrightarrow> 0 < chunk_of r len \<and> chunk_of r len \<le> len"
  by (simp add: chunk_of_def)

function rioWrite :: "(nat \<Rightarrow> byte) \<Rightarrow> rio \<Rightarrow> byte list \<Rightarrow> (rio \<times> bool) option" where
  "rioWrite fresh r buf =
     (if buf = [] then Some (r, True)
      else let n = chunk_of r (length buf); r = sum_chunk r (take n buf)
           in case io_write fresh (io r) (take n buf) of
                None \<Rightarrow> None
              | Some (x, False) \<Rightarrow> Some (r\<lparr>io := x\<rparr>, False)
              | Some (x, True) \<Rightarrow>
                  rioWrite fresh (r\<lparr>io := x, processed_bytes := processed_bytes r + n\<rparr>) (drop n buf))"
  by pat_completeness auto
termination
  by (relation "measure (\<lambda>(fresh, r, buf). length buf)") (use chunk_of_pos in fastforce)+

function rioRead :: "rio \<Rightarrow> nat \<Rightarrow> (rio \<times> byte list option) option" where
  "rioRead r len =
     (if len = 0 then Some (r, Some [])
      else let n = chunk_of r len
           in case io_read (io r) n of
                None \<Rightarrow> None
              | Some (x, None) \<Rightarrow> Some (r\<lparr>io := x\<rparr>, None)
              | Some (x, Some buf) \<Rightarrow>
                  let r = sum_chunk (r\<lparr>io := x\<rparr>) buf
                  in case rioRead (r\<lparr>processed_bytes := processed_bytes r + n\<rparr>) (len - n) of
                       None \<Rightarrow> None
                     | Some (r, rest) \<Rightarrow> Some (r, map_option ((@) buf) rest))"
  by pat_completeness auto
termination
  by (relation "measure (\<lambda>(r, len). len)") (use chunk_of_pos in fastforce)+

declare rioWrite.simps [simp del] rioRead.simps [simp del]

subsection \<open>The protocol format of the append only file\<close>

text \<open>Each writer returns the number of bytes, 0 on failure.\<close>

definition rioWriteBulkCount ::
  "(nat \<Rightarrow> byte) \<Rightarrow> rio \<Rightarrow> byte \<Rightarrow> int \<Rightarrow> (rio \<times> nat) option"
where
  "rioWriteBulkCount fresh r prefix count =
     (let (n, t) = ll2string 127 count; buf = [prefix] @ take n t @ [13, 10]
      in do { (r, ok) \<leftarrow> rioWrite fresh r buf; Some (r, if ok then length buf else 0) })"

definition rioWriteBulkString ::
  "(nat \<Rightarrow> byte) \<Rightarrow> rio \<Rightarrow> byte list \<Rightarrow> (rio \<times> nat) option"
where
  "rioWriteBulkString fresh r buf =
     do { (r, nwritten) \<leftarrow> rioWriteBulkCount fresh r 36 (s32 (int (length buf)));
          if nwritten = 0 then Some (r, 0)
          else do { (r, ok) \<leftarrow> (if length buf > 0 then rioWrite fresh r buf else Some (r, True));
                    if \<not> ok then Some (r, 0)
                    else do { (r, ok) \<leftarrow> rioWrite fresh r [13, 10];
                              Some (r, if ok then nwritten + length buf + 2 else 0) } } }"

definition rioWriteBulkLongLong :: "(nat \<Rightarrow> byte) \<Rightarrow> rio \<Rightarrow> int \<Rightarrow> (rio \<times> nat) option" where
  "rioWriteBulkLongLong fresh r l =
     (let (n, t) = ll2string 32 l in rioWriteBulkString fresh r (take n t))"

subsection \<open>What a transfer does\<close>

text \<open>
  \<open>rio_sink r t k\<close>: the object holds the bytes \<open>t\<close> and takes \<open>k\<close> more. \<open>rio_source r u\<close>: the bytes
  \<open>u\<close> are still to be read. \<open>rio_moved r r' x\<close>: the bytes \<open>x\<close> went through from \<open>r\<close> to \<open>r'\<close>.
\<close>

definition rio_sink :: "rio \<Rightarrow> byte list \<Rightarrow> nat \<Rightarrow> bool" where
  "rio_sink r t k \<longleftrightarrow>
     (case io r of Buffer s pos \<Rightarrow> sds_repr s t \<and> length t + k < 2 ^ 30
      | File fp b a \<Rightarrow> f_data fp = t \<and> k = f_room fp)"

definition is_file :: "rio \<Rightarrow> bool" where
  "is_file r \<longleftrightarrow> (case io r of Buffer _ _ \<Rightarrow> False | File _ _ _ \<Rightarrow> True)"

definition rio_source :: "rio \<Rightarrow> byte list \<Rightarrow> bool" where
  "rio_source r u \<longleftrightarrow>
     (case io r of
        Buffer s pos \<Rightarrow> (\<exists>t. sds_repr s t \<and> 0 \<le> pos \<and> nat pos \<le> length t \<and> u = drop (nat pos) t)
      | File fp b a \<Rightarrow> u = drop (f_pos fp) (f_data fp))"

definition rio_moved :: "rio \<Rightarrow> rio \<Rightarrow> byte list \<Rightarrow> bool" where
  "rio_moved r r' x \<longleftrightarrow>
     is_file r' = is_file r \<and> update_cksum r' = update_cksum r \<and> max_processing_chunk r' = max_processing_chunk r
     \<and> processed_bytes r' = processed_bytes r + length x
     \<and> cksum r' = (if update_cksum r then crc64 (cksum r) x else cksum r)"

lemma crc64_append: "crc64 c (a @ b) = crc64 (crc64 c a) b"
  by (simp add: crc64_def)

lemma rio_moved_nil [simp]: "rio_moved r r []"
  by (simp add: rio_moved_def crc64_def)

lemma rio_moved_append: "rio_moved r r' x \<Longrightarrow> rio_moved r' r'' y \<Longrightarrow> rio_moved r r'' (x @ y)"
  by (simp add: rio_moved_def crc64_append)

lemma sum_chunk_fields [simp]:
  "io (sum_chunk r x) = io r" "update_cksum (sum_chunk r x) = update_cksum r"
  "max_processing_chunk (sum_chunk r x) = max_processing_chunk r"
  "processed_bytes (sum_chunk r x) = processed_bytes r"
  "cksum (sum_chunk r x) = (if update_cksum r then crc64 (cksum r) x else cksum r)"
  by (simp_all add: sum_chunk_def rioGenericUpdateChecksum_def)

lemma rio_sink_cong: "io r' = io r \<Longrightarrow> rio_sink r' t k = rio_sink r t k"
  by (simp add: rio_sink_def)

lemma rio_source_cong: "io r' = io r \<Longrightarrow> rio_source r' u = rio_source r u"
  by (simp add: rio_source_def)

lemma io_write_sink:
  assumes "rio_sink r t k" and "length buf \<le> k"
  shows "\<exists>x. io_write fresh (io r) buf = Some (x, True)
    \<and> (\<forall>r'. io r' = x \<longrightarrow> rio_sink r' (t @ buf) (k - length buf) \<and> is_file r' = is_file r)"
proof (cases "io r")
  case (Buffer s pos)
  then have "sds_repr s t" "length t + length buf < 2 ^ 30" "length t + k < 2 ^ 30"
    using assms by (auto simp: rio_sink_def)
  then show ?thesis
    using sdscatlen_text [of s t buf "length buf" buf fresh] Buffer assms(2)
    by (auto simp: io_write_def rioBufferWrite_def rio_sink_def is_file_def)
next
  case (File fp b a)
  then show ?thesis using assms
    by (auto simp: io_write_def rioFileWrite_def fwrite_def rio_sink_def is_file_def Let_def)
qed

lemma rioWrite_sink:
  "rio_sink r t k \<Longrightarrow> length buf \<le> k \<Longrightarrow>
    \<exists>r'. rioWrite fresh r buf = Some (r', True) \<and> rio_sink r' (t @ buf) (k - length buf) \<and> rio_moved r r' buf"
proof (induction "length buf" arbitrary: r t k buf rule: less_induct)
  case less
  show ?case
  proof (cases "buf = []")
    case True
    then show ?thesis using less.prems by (subst rioWrite.simps) simp
  next
    case False
    define n where "n = chunk_of r (length buf)"
    have n: "0 < n" "n \<le> length buf" using chunk_of_pos [of "length buf" r] False by (auto simp: n_def)
    then have t: "length (take n buf) = n" "length (take n buf) \<le> k" using less.prems(2) by simp_all
    obtain x where x: "io_write fresh (io r) (take n buf) = Some (x, True)"
      "\<And>r'. io r' = x \<Longrightarrow> rio_sink r' (t @ take n buf) (k - n) \<and> is_file r' = is_file r"
      using io_write_sink [OF less.prems(1) t(2)] t(1) by auto
    define q where "q = sum_chunk r (take n buf)"
    define r1 where "r1 = q\<lparr>io := x, processed_bytes := processed_bytes q + n\<rparr>"
    have r1: "rio_sink r1 (t @ take n buf) (k - n)" "rio_moved r r1 (take n buf)"
      using x(2) t(1) by (simp_all add: r1_def q_def rio_moved_def)
    have "length (drop n buf) < length buf" "length (drop n buf) \<le> k - n" using n less.prems(2) by auto
    from less.hyps [OF this(1) r1(1) this(2)] obtain r' where
      r': "rioWrite fresh r1 (drop n buf) = Some (r', True)"
      "rio_sink r' ((t @ take n buf) @ drop n buf) (k - n - length (drop n buf))" "rio_moved r1 r' (drop n buf)"
      by blast
    have "rioWrite fresh r buf = rioWrite fresh r1 (drop n buf)"
      using False x(1) by (subst rioWrite.simps) (simp add: Let_def r1_def q_def flip: n_def)
    moreover have "rio_moved r r' buf" using rio_moved_append [OF r1(2) r'(3)] by simp
    ultimately show ?thesis using r' n by simp
  qed
qed

text \<open>A write that the medium does not take fails, whatever the chunks.\<close>

lemma rioWrite_full:
  "io r = File fp b a \<Longrightarrow> f_room fp < length buf \<Longrightarrow> \<exists>r'. rioWrite fresh r buf = Some (r', False)"
proof (induction "length buf" arbitrary: r fp b a buf rule: less_induct)
  case less
  then have ne: "buf \<noteq> []" by auto
  define n where "n = chunk_of r (length buf)"
  have n: "0 < n" "n \<le> length buf" using chunk_of_pos [of "length buf" r] ne by (auto simp: n_def)
  show ?case
  proof (cases "f_room fp < n")
    case True
    then show ?thesis using ne less.prems(1) n
      by (subst rioWrite.simps) (auto simp: Let_def io_write_def rioFileWrite_def fwrite_def n_def [symmetric])
  next
    case False
    define q where "q = sum_chunk r (take n buf)"
    obtain fp' b' where x: "io_write fresh (io r) (take n buf) = Some (File fp' b' a, True)"
      "f_room fp' = f_room fp - n"
      using False less.prems(1) n by (auto simp: io_write_def rioFileWrite_def fwrite_def Let_def)
    define r1 where "r1 = q\<lparr>io := File fp' b' a, processed_bytes := processed_bytes q + n\<rparr>"
    have "length (drop n buf) < length buf" "io r1 = File fp' b' a" "f_room fp' < length (drop n buf)"
      using n x(2) less.prems(2) False by (auto simp: r1_def)
    from less.hyps [OF this] obtain r' where "rioWrite fresh r1 (drop n buf) = Some (r', False)" by blast
    moreover have "rioWrite fresh r buf = rioWrite fresh r1 (drop n buf)"
      using ne x(1) by (subst rioWrite.simps) (simp add: Let_def r1_def q_def flip: n_def)
    ultimately show ?thesis by simp
  qed
qed

lemma buffer_read:
  assumes "sds_repr s t" and "0 \<le> pos" and "nat pos \<le> length t"
  shows "rioBufferRead s pos n =
    Some (if n \<le> length t - nat pos then (Buffer s (pos + int n), Some (take n (drop (nat pos) t)))
      else (Buffer s pos, None))"
proof -
  have len: "sdslen s = length t" using assms(1) by (rule sdslen_text)
  have d: "int (length t) - pos = int (length t - nat pos)" using assms(2,3) by linarith
  have av: "u64 (int (sdslen s) - pos) = length t - nat pos"
    unfolding len d by (rule u64_nat) (use sds_repr_less [OF assms(1)] in linarith)
  show ?thesis
  proof (cases "n \<le> length t - nat pos")
    case True
    then have "read_bytes (s_buf s) (nat pos) n = Some (take n (drop (nat pos) t))"
      using assms(1,3) by (elim sds_reprE) (simp add: read_bytes_def)
    then show ?thesis unfolding rioBufferRead_def av using True by simp
  next
    case False
    then show ?thesis unfolding rioBufferRead_def av by simp
  qed
qed

lemma io_read_source:
  assumes "rio_source r u"
  shows "if n \<le> length u
    then \<exists>x. io_read (io r) n = Some (x, Some (take n u)) \<and> (\<forall>r'. io r' = x \<longrightarrow> rio_source r' (drop n u) \<and> is_file r' = is_file r)
    else \<exists>x. io_read (io r) n = Some (x, None)"
proof (cases "io r")
  case (Buffer s pos)
  then obtain t where t: "sds_repr s t" "0 \<le> pos" "nat pos \<le> length t" "u = drop (nat pos) t"
    using assms by (auto simp: rio_source_def)
  have read: "io_read (io r) n = Some (if n \<le> length u then (Buffer s (pos + int n), Some (take n u))
      else (Buffer s pos, None))"
    using buffer_read [OF t(1-3), of n] Buffer t(4) by (simp add: io_read_def)
  have "rio_source r' (drop n u) \<and> is_file r' = is_file r" if "io r' = Buffer s (pos + int n)" "n \<le> length u" for r'
  proof -
    have p: "nat (pos + int n) = nat pos + n" using t(2) by (simp add: nat_add_distrib)
    have "drop n u = drop (nat pos + n) t" "nat pos + n \<le> length t"
      using t(3,4) that(2) by (simp_all add: drop_drop add.commute)
    then show ?thesis using that(1) t(1,2) p Buffer unfolding rio_source_def is_file_def by auto
  qed
  with read show ?thesis by (cases "n \<le> length u") simp_all
next
  case (File fp b a)
  then have u: "u = drop (f_pos fp) (f_data fp)" using assms by (simp add: rio_source_def)
  show ?thesis
  proof (cases "n \<le> length u")
    case True
    then have "io_read (io r) n = Some (File (fp\<lparr>f_pos := f_pos fp + n\<rparr>) b a, Some (take n u))"
      using File u by (simp add: io_read_def rioFileRead_def fread_def Let_def)
    moreover have "rio_source r' (drop n u) \<and> is_file r' = is_file r" if "io r' = File (fp\<lparr>f_pos := f_pos fp + n\<rparr>) b a" for r'
      using that u File by (simp add: rio_source_def is_file_def drop_drop add.commute)
    ultimately show ?thesis using True by simp
  next
    case False
    then show ?thesis using File u by (simp add: io_read_def rioFileRead_def fread_def Let_def)
  qed
qed

lemma rioRead_source:
  "rio_source r u \<Longrightarrow>
    if n \<le> length u
    then \<exists>r'. rioRead r n = Some (r', Some (take n u)) \<and> rio_source r' (drop n u) \<and> rio_moved r r' (take n u)
    else \<exists>r'. rioRead r n = Some (r', None)"
proof (induction n arbitrary: r u rule: less_induct)
  case (less n)
  show ?case
  proof (cases "n = 0")
    case True
    then show ?thesis using less.prems by (subst rioRead.simps) simp
  next
    case False
    define k where "k = chunk_of r n"
    have k: "0 < k" "k \<le> n" using chunk_of_pos [of n r] False by (auto simp: k_def)
    show ?thesis
    proof (cases "k \<le> length u")
      case True
      obtain x where x: "io_read (io r) k = Some (x, Some (take k u))"
        "\<And>r'. io r' = x \<Longrightarrow> rio_source r' (drop k u) \<and> is_file r' = is_file r"
        using io_read_source [OF less.prems, of k] True by auto
      define q where "q = sum_chunk (r\<lparr>io := x\<rparr>) (take k u)"
      define r1 where "r1 = q\<lparr>processed_bytes := processed_bytes q + k\<rparr>"
      have r1: "rio_source r1 (drop k u)" "rio_moved r r1 (take k u)"
        using x(2) True by (simp_all add: r1_def q_def rio_moved_def)
      have step: "rioRead r n = (case rioRead r1 (n - k) of None \<Rightarrow> None
          | Some (r, rest) \<Rightarrow> Some (r, map_option ((@) (take k u)) rest))"
        using False x(1) by (subst rioRead.simps) (simp add: Let_def r1_def q_def flip: k_def)
      have "n - k < n" using k by simp
      note IH = less.IH [OF this r1(1)]
      show ?thesis
      proof (cases "n \<le> length u")
        case fits: True
        then have "n - k \<le> length (drop k u)" using k by simp
        then obtain r' where r': "rioRead r1 (n - k) = Some (r', Some (take (n - k) (drop k u)))"
          "rio_source r' (drop (n - k) (drop k u))" "rio_moved r1 r' (take (n - k) (drop k u))"
          using IH by auto
        have "take k u @ take (n - k) (drop k u) = take n u" using k by (simp flip: take_add)
        then show ?thesis
          using r' step k fits rio_moved_append [OF r1(2) r'(3)] by (auto simp: drop_drop)
      next
        case short: False
        then have "\<not> n - k \<le> length (drop k u)" using True by simp
        then obtain r' where "rioRead r1 (n - k) = Some (r', None)" using IH by auto
        then show ?thesis using step short by simp
      qed
    next
      case False
      then have "\<not> n \<le> length u" "\<exists>x. io_read (io r) k = Some (x, None)"
        using io_read_source [OF less.prems, of k] k by auto
      then show ?thesis using \<open>n \<noteq> 0\<close> by (subst rioRead.simps) (auto simp: Let_def simp flip: k_def)
    qed
  qed
qed

lemma rioInitWithBuffer_source: "sds_repr s t \<Longrightarrow> rio_source (rioInitWithBuffer s) t"
  by (auto simp: rio_source_def rioInitWithBuffer_def)

lemma rioInitWithBuffer_sink: "sds_repr s t \<Longrightarrow> length t + k < 2 ^ 30 \<Longrightarrow> rio_sink (rioInitWithBuffer s) t k"
  by (simp add: rio_sink_def rioInitWithBuffer_def)

subsection \<open>The protocol format\<close>

definition bulk_header :: "byte \<Rightarrow> int \<Rightarrow> byte list" where
  "bulk_header prefix n = prefix # int_text n @ [13, 10]"

lemma rioWriteBulkCount_text:
  assumes "rio_sink r t k" and "length (bulk_header prefix n) \<le> k" and "is_int64 n"
  shows "\<exists>r'. rioWriteBulkCount fresh r prefix n = Some (r', length (bulk_header prefix n))
    \<and> rio_sink r' (t @ bulk_header prefix n) (k - length (bulk_header prefix n))"
proof -
  have "[prefix] @ take (length (int_text n)) (int_text n @ [0]) @ [13, 10] = bulk_header prefix n"
    by (simp add: bulk_header_def)
  then show ?thesis
    using rioWrite_sink [OF assms(1,2), of fresh] ll2string_text [OF assms(3), of 127]
    by (auto simp: rioWriteBulkCount_def Let_def)
qed

lemma rioWriteBulkString_text:
  assumes "rio_sink r t k" and "length x < 2 ^ 31"
    and "length (bulk_header 36 (int (length x)) @ x @ [13, 10]) \<le> k"
  shows "\<exists>r'. rioWriteBulkString fresh r x = Some (r', length (bulk_header 36 (int (length x)) @ x @ [13, 10]))
    \<and> rio_sink r' (t @ bulk_header 36 (int (length x)) @ x @ [13, 10])
        (k - length (bulk_header 36 (int (length x)) @ x @ [13, 10]))"
proof -
  define h where "h = bulk_header 36 (int (length x))"
  have h: "0 < length h" "length h \<le> k" "length x \<le> k - length h" "length [13, 10 :: byte] \<le> k - length h - length x"
    using assms(3) by (simp_all add: h_def bulk_header_def)
  have "is_int64 (int (length x))" using assms(2) by (simp add: is_int64_def range_defs)
  then obtain r1 where r1: "rioWriteBulkCount fresh r 36 (int (length x)) = Some (r1, length h)"
    "rio_sink r1 (t @ h) (k - length h)"
    using rioWriteBulkCount_text [OF assms(1)] h(2) unfolding h_def by blast
  obtain r2 where r2: "(if length x > 0 then rioWrite fresh r1 x else Some (r1, True)) = Some (r2, True)"
    "rio_sink r2 ((t @ h) @ x) (k - length h - length x)"
    using rioWrite_sink [OF r1(2) h(3), of fresh] r1(2) by (cases "x = []") auto
  obtain r3 where r3: "rioWrite fresh r2 [13, 10] = Some (r3, True)"
    "rio_sink r3 (((t @ h) @ x) @ [13, 10]) (k - length h - length x - 2)"
    using rioWrite_sink [OF r2(2) h(4), of fresh] by auto
  have "rioWriteBulkString fresh r x = Some (r3, length (h @ x @ [13, 10]))"
    using r1(1) r2(1) r3(1) h(1) assms(2) by (simp add: rioWriteBulkString_def)
  then show ?thesis using r3(2) by (simp flip: h_def)
qed

subsection \<open>Properties\<close>

text \<open>
  C13. Transfers in chunks are transparent. Whatever the largest chunk of the writer and of the
  reader, and whether each is a string or a stream: a write that the medium has room for puts
  exactly its bytes at the end, a read of as many bytes returns them and leaves the rest, and the
  two running checksums, when they are on and started equal, are equal again: the CRC of the bytes.
\<close>

theorem rio_transfer:
  assumes "rio_sink w t k" and "length x \<le> k" and "rio_source r (x @ rest)"
  shows "\<exists>w' r'. rioWrite fresh w x = Some (w', True) \<and> rio_sink w' (t @ x) (k - length x)
    \<and> rioRead r (length x) = Some (r', Some x) \<and> rio_source r' rest
    \<and> (update_cksum w \<and> update_cksum r \<and> cksum w = cksum r
        \<longrightarrow> cksum w' = crc64 (cksum w) x \<and> cksum r' = cksum w')"
proof -
  obtain w' where w: "rioWrite fresh w x = Some (w', True)" "rio_sink w' (t @ x) (k - length x)" "rio_moved w w' x"
    using rioWrite_sink [OF assms(1,2)] by blast
  obtain r' where r: "rioRead r (length x) = Some (r', Some x)" "rio_source r' rest" "rio_moved r r' x"
    using rioRead_source [OF assms(3), of "length x"] by auto
  show ?thesis using w r by (auto simp: rio_moved_def)
qed

theorem rio_transfer_witness:
  "\<exists>w' r'. rioWrite (\<lambda>_. 0) (rioInitWithFile \<lparr>f_data = [], f_pos = 0, f_room = 10\<rparr>
        \<lparr>max_processing_chunk := 2, update_cksum := True\<rparr>) [1, 2, 3] = Some (w', True)
    \<and> rioRead (rioInitWithFile \<lparr>f_data = [9, 1, 2, 3, 4], f_pos = 1, f_room = 0\<rparr>\<lparr>update_cksum := True\<rparr>)
        (length [1, 2, 3 :: byte]) = Some (r', Some [1, 2, 3])
    \<and> rio_source r' [4] \<and> cksum r' = cksum w'"
proof -
  let ?w = "rioInitWithFile \<lparr>f_data = [], f_pos = 0, f_room = 10\<rparr>\<lparr>max_processing_chunk := 2, update_cksum := True\<rparr>"
  let ?r = "rioInitWithFile \<lparr>f_data = [9, 1, 2, 3, 4], f_pos = 1, f_room = 0\<rparr>\<lparr>update_cksum := True\<rparr>"
  have "rio_sink ?w [] 10" by (simp add: rio_sink_def rioInitWithFile_def)
  moreover have "length [1, 2, 3 :: byte] \<le> 10" by simp
  moreover have "rio_source ?r ([1, 2, 3] @ [4])" by (simp add: rio_source_def rioInitWithFile_def)
  moreover have "update_cksum ?w \<and> update_cksum ?r \<and> cksum ?w = cksum ?r" by (simp add: rioInitWithFile_def)
  ultimately show ?thesis using rio_transfer [of ?w "[]" 10 "[1, 2, 3]" ?r "[4]" "\<lambda>_. 0"] by metis
qed

end
