(* ===== verification/String_Object.thy ===== *)
theory String_Object
  imports Sds_Text
begin

text \<open>
  String objects (\<open>src/object.c\<close>): a text in one of three encodings, a dynamic string of its own
  (raw), one allocated with the object (embstr), or the integer whose decimal text it is. An
  object is a value here; the identity of two objects, where the code compares pointers, is an
  argument. The table of shared integers is its reference counts. \<open>None\<close> is a failed assertion or
  panic, or a fault in the string operations.
\<close>

datatype encoding = REDIS_ENCODING_RAW | REDIS_ENCODING_EMBSTR | REDIS_ENCODING_INT

datatype obj_ptr = Sds sdshdr | Long int

record robj =
  encoding :: encoding
  ptr :: obj_ptr
  refcount :: int

record obj_server =
  maxmemory :: nat
  shared_integers :: "nat \<Rightarrow> int"

definition REDIS_SHARED_INTEGERS :: int where "REDIS_SHARED_INTEGERS = 10000"
definition REDIS_ENCODING_EMBSTR_SIZE_LIMIT :: nat where "REDIS_ENCODING_EMBSTR_SIZE_LIMIT = 39"

definition sdsEncodedObject :: "robj \<Rightarrow> bool" where
  "sdsEncodedObject o' \<longleftrightarrow> encoding o' = REDIS_ENCODING_RAW \<or> encoding o' = REDIS_ENCODING_EMBSTR"

text \<open>The dynamic string and the integer behind \<open>ptr\<close>; the other kind of pointer is a fault.\<close>

definition sds_of :: "robj \<Rightarrow> sdshdr option" where
  "sds_of o' = (case ptr o' of Sds s \<Rightarrow> Some s | Long _ \<Rightarrow> None)"

definition long_of :: "robj \<Rightarrow> int option" where
  "long_of o' = (case ptr o' of Sds _ \<Rightarrow> None | Long v \<Rightarrow> Some v)"

subsection \<open>Creation\<close>

definition createObject :: "obj_ptr \<Rightarrow> robj" where
  "createObject p = \<lparr>encoding = REDIS_ENCODING_RAW, ptr = p, refcount = 1\<rparr>"

definition createRawStringObject :: "(nat \<Rightarrow> byte) \<Rightarrow> byte list \<Rightarrow> nat \<Rightarrow> robj option" where
  "createRawStringObject fresh p len =
     do { s \<leftarrow> sdsnewlen (Some p) len fresh; Some (createObject (Sds s)) }"

definition createEmbeddedStringObject :: "byte list \<Rightarrow> nat \<Rightarrow> robj option" where
  "createEmbeddedStringObject p len =
     do { x \<leftarrow> read_bytes p 0 len;
          Some \<lparr>encoding = REDIS_ENCODING_EMBSTR,
            ptr = Sds \<lparr>s_len = s32 (int len), s_free = 0, s_buf = x @ [0]\<rparr>, refcount = 1\<rparr> }"

definition createStringObject :: "(nat \<Rightarrow> byte) \<Rightarrow> byte list \<Rightarrow> nat \<Rightarrow> robj option" where
  "createStringObject fresh p len =
     (if len \<le> REDIS_ENCODING_EMBSTR_SIZE_LIMIT then createEmbeddedStringObject p len
      else createRawStringObject fresh p len)"

definition shared_object :: "obj_server \<Rightarrow> int \<Rightarrow> obj_server \<times> robj" where
  "shared_object srv value =
     (let n = shared_integers srv (nat value) + 1
      in (srv\<lparr>shared_integers := (shared_integers srv)(nat value := n)\<rparr>,
          \<lparr>encoding = REDIS_ENCODING_INT, ptr = Long value, refcount = n\<rparr>))"

text \<open>\<open>long\<close> has 64 bits, so the last branch of the code, for values beyond it, is never taken.\<close>

definition createStringObjectFromLongLong :: "obj_server \<Rightarrow> int \<Rightarrow> obj_server \<times> robj" where
  "createStringObjectFromLongLong srv value =
     (if 0 \<le> value \<and> value < REDIS_SHARED_INTEGERS then shared_object srv value
      else (srv, (createObject (Long value))\<lparr>encoding := REDIS_ENCODING_INT\<rparr>))"

definition dupStringObject :: "(nat \<Rightarrow> byte) \<Rightarrow> robj \<Rightarrow> robj option" where
  "dupStringObject fresh o' =
     (case encoding o' of
        REDIS_ENCODING_RAW \<Rightarrow> do { s \<leftarrow> sds_of o'; createRawStringObject fresh (s_buf s) (sdslen s) }
      | REDIS_ENCODING_EMBSTR \<Rightarrow> do { s \<leftarrow> sds_of o'; createEmbeddedStringObject (s_buf s) (sdslen s) }
      | REDIS_ENCODING_INT \<Rightarrow>
          Some ((createObject (Long 0))\<lparr>encoding := REDIS_ENCODING_INT, ptr := ptr o'\<rparr>))"

subsection \<open>Encodings\<close>

definition isObjectRepresentableAsLongLong :: "robj \<Rightarrow> int option option" where
  "isObjectRepresentableAsLongLong o' =
     (if encoding o' = REDIS_ENCODING_INT then do { v \<leftarrow> long_of o'; Some (Some v) }
      else do { s \<leftarrow> sds_of o'; t \<leftarrow> read_bytes (s_buf s) 0 (sdslen s); Some (string2ll t) })"

definition tryObjectEncoding ::
  "(nat \<Rightarrow> byte) \<Rightarrow> obj_server \<Rightarrow> robj \<Rightarrow> (obj_server \<times> robj) option"
where
  "tryObjectEncoding fresh srv o' =
     (if \<not> sdsEncodedObject o' then Some (srv, o')
      else if refcount o' > 1 then Some (srv, o')
      else do { s \<leftarrow> sds_of o';
                let len = sdslen s;
                t \<leftarrow> read_bytes (s_buf s) 0 len;
                case (if len \<le> 21 then string2l t else None) of
                  Some value \<Rightarrow>
                    if maxmemory srv = 0 \<and> value \<ge> 0 \<and> value < REDIS_SHARED_INTEGERS
                    then Some (shared_object srv value)
                    else Some (srv, o'\<lparr>encoding := REDIS_ENCODING_INT, ptr := Long value\<rparr>)
                | None \<Rightarrow>
                    if len \<le> REDIS_ENCODING_EMBSTR_SIZE_LIMIT then
                      if encoding o' = REDIS_ENCODING_EMBSTR then Some (srv, o')
                      else do { emb \<leftarrow> createEmbeddedStringObject (s_buf s) len; Some (srv, emb) }
                    else if encoding o' = REDIS_ENCODING_RAW \<and> sdsavail s > len div 10
                    then Some (srv, o'\<lparr>ptr := Sds (sdsRemoveFreeSpace fresh s)\<rparr>)
                    else Some (srv, o') })"

definition getDecodedObject :: "(nat \<Rightarrow> byte) \<Rightarrow> robj \<Rightarrow> robj option" where
  "getDecodedObject fresh o' =
     (if sdsEncodedObject o' then Some (o'\<lparr>refcount := refcount o' + 1\<rparr>)
      else do { v \<leftarrow> long_of o';
                let (n, buf) = ll2string 32 v;
                len \<leftarrow> strlen buf;
                createStringObject fresh buf len })"

definition stringObjectLen :: "robj \<Rightarrow> nat option" where
  "stringObjectLen o' =
     (if sdsEncodedObject o' then map_option sdslen (sds_of o')
      else do { v \<leftarrow> long_of o'; Some (fst (ll2string 32 v)) })"

subsection \<open>Comparison\<close>

text \<open>The bytes to compare: the string itself, or the text of the integer in a local buffer.\<close>

definition compare_text :: "robj \<Rightarrow> (byte list \<times> nat) option" where
  "compare_text o' =
     (if sdsEncodedObject o' then do { s \<leftarrow> sds_of o'; Some (s_buf s, sdslen s) }
      else do { v \<leftarrow> long_of o'; let (n, buf) = ll2string 128 v; Some (buf, n) })"

definition compareStringObjects :: "bool \<Rightarrow> robj \<Rightarrow> robj \<Rightarrow> int option" where
  "compareStringObjects same a b =
     (if same then Some 0
      else do { (astr, alen) \<leftarrow> compare_text a; (bstr, blen) \<leftarrow> compare_text b;
                let minlen = (if alen < blen then alen else blen);
                x \<leftarrow> read_bytes astr 0 minlen; y \<leftarrow> read_bytes bstr 0 minlen;
                let c = memcmp x y;
                Some (if c = 0 then s32 (int alen - int blen) else c) })"

definition equalStringObjects :: "bool \<Rightarrow> robj \<Rightarrow> robj \<Rightarrow> bool option" where
  "equalStringObjects same a b =
     (if encoding a = REDIS_ENCODING_INT \<and> encoding b = REDIS_ENCODING_INT
      then do { v \<leftarrow> long_of a; w \<leftarrow> long_of b; Some (v = w) }
      else do { c \<leftarrow> compareStringObjects same a b; Some (c = 0) })"

subsection \<open>Numbers\<close>

text \<open>The result is \<open>None\<close> for \<open>REDIS_ERR\<close>; no object counts as 0.\<close>

definition getLongLongFromObject :: "robj option \<Rightarrow> int option option" where
  "getLongLongFromObject ob =
     (case ob of
        None \<Rightarrow> Some (Some 0)
      | Some o' \<Rightarrow>
          if sdsEncodedObject o' then
            do { s \<leftarrow> sds_of o';
                 (value, end, erange) \<leftarrow> strtoll (s_buf s);
                 first \<leftarrow> read_bytes (s_buf s) 0 1;
                 last \<leftarrow> read_bytes (s_buf s) end 1;
                 Some (if isspace (hd first) \<or> hd last \<noteq> 0 \<or> erange then None else Some value) }
          else map_option Some (long_of o'))"

subsection \<open>The text of an object\<close>

definition obj_holds :: "robj \<Rightarrow> byte list \<Rightarrow> bool" where
  "obj_holds o' t \<longleftrightarrow>
     (case ptr o' of
        Sds s \<Rightarrow> encoding o' \<noteq> REDIS_ENCODING_INT \<and> sds_repr s t
      | Long v \<Rightarrow> encoding o' = REDIS_ENCODING_INT \<and> is_int64 v \<and> t = int_text v)"

lemma obj_holds_sds:
  "obj_holds o' t \<Longrightarrow> sdsEncodedObject o' \<Longrightarrow> \<exists>s. ptr o' = Sds s \<and> sds_repr s t"
  by (auto simp: obj_holds_def sdsEncodedObject_def split: obj_ptr.splits)

lemma obj_holds_int:
  "obj_holds o' t \<Longrightarrow> encoding o' = REDIS_ENCODING_INT \<Longrightarrow> \<exists>v. ptr o' = Long v \<and> is_int64 v \<and> t = int_text v"
  by (auto simp: obj_holds_def split: obj_ptr.splits)

lemma sdsEncoded_iff: "sdsEncodedObject o' \<longleftrightarrow> encoding o' \<noteq> REDIS_ENCODING_INT"
  by (cases "encoding o'") (simp_all add: sdsEncodedObject_def)

lemma obj_holds_length: "obj_holds o' t \<Longrightarrow> length t < 2 ^ 31"
  using length_int_text by (fastforce simp: obj_holds_def dest: sds_repr_less split: obj_ptr.splits)

lemma createEmbeddedStringObject_holds:
  assumes "read_bytes p 0 n = Some t" and "n + 1 < 2 ^ 31"
  shows "\<exists>o'. createEmbeddedStringObject p n = Some o' \<and> obj_holds o' t
    \<and> encoding o' = REDIS_ENCODING_EMBSTR"
proof -
  have n: "length t = n" using assms(1) by (auto simp: read_bytes_def split: if_splits)
  then have "sds_repr \<lparr>s_len = int n, s_free = 0, s_buf = t @ [0]\<rparr> t"
    using sds_reprI [of t "[]"] assms(2) by simp
  then show ?thesis using assms by (simp add: createEmbeddedStringObject_def obj_holds_def)
qed

lemma createRawStringObject_holds:
  assumes "read_bytes p 0 n = Some t" and "n + 1 < 2 ^ 31"
  shows "\<exists>o'. createRawStringObject fresh p n = Some o' \<and> obj_holds o' t
    \<and> encoding o' = REDIS_ENCODING_RAW"
  using sdsnewlen_text [OF assms, of fresh]
  by (auto simp: createRawStringObject_def createObject_def obj_holds_def)

lemma createStringObject_holds:
  assumes "read_bytes p 0 n = Some t" and "n + 1 < 2 ^ 31"
  shows "\<exists>o'. createStringObject fresh p n = Some o' \<and> obj_holds o' t \<and> encoding o' \<noteq> REDIS_ENCODING_INT"
  using createEmbeddedStringObject_holds [OF assms] createRawStringObject_holds [OF assms, of fresh]
  by (auto simp: createStringObject_def)

lemma createStringObjectFromLongLong_holds:
  "is_int64 v \<Longrightarrow> obj_holds (snd (createStringObjectFromLongLong srv v)) (int_text v)"
  by (simp add: createStringObjectFromLongLong_def shared_object_def createObject_def obj_holds_def Let_def)

lemma string2l_iff: "string2l t = Some v \<longleftrightarrow> is_int64 v \<and> t = int_text v"
  using string2ll_int_text [of v] string2ll_int_text_inv [of t]
  by (auto simp: string2l_def is_int64_def split: option.splits)

text \<open>Encoding an object keeps its text, and decides the encoding by the text alone.\<close>

lemma tryObjectEncoding_holds:
  assumes "obj_holds o' t" and "refcount o' \<le> 1" and "length t + 1 < 2 ^ 31"
  shows "\<exists>srv' e. tryObjectEncoding fresh srv o' = Some (srv', e) \<and> obj_holds e t
    \<and> (encoding e = REDIS_ENCODING_INT \<longleftrightarrow> (\<exists>v. is_int64 v \<and> t = int_text v))
    \<and> (encoding e = REDIS_ENCODING_RAW \<longrightarrow> 39 < length t)"
proof (cases "encoding o' = REDIS_ENCODING_INT")
  case True
  then show ?thesis using obj_holds_int [OF assms(1) True] assms(1)
    by (auto simp: tryObjectEncoding_def sdsEncoded_iff)
next
  case False
  then obtain s where s: "ptr o' = Sds s" "sds_repr s t"
    using obj_holds_sds [OF assms(1)] by (auto simp: sdsEncoded_iff)
  have rd: "sdslen s = length t" "read_bytes (s_buf s) 0 (length t) = Some t"
    using read_text [OF s(2), of "length t"] by (simp_all add: sdslen_text [OF s(2)])
  show ?thesis
  proof (cases "\<exists>v. is_int64 v \<and> t = int_text v")
    case True
    then obtain v where v: "is_int64 v" "t = int_text v" by blast
    then have "string2l t = Some v" "length t \<le> 21"
      using string2l_iff [of t v] length_int_text [OF v(1)] by simp_all
    then show ?thesis using False s rd v assms(2)
      by (auto simp: tryObjectEncoding_def sdsEncoded_iff sds_of_def shared_object_def obj_holds_def Let_def)
  next
    case no: False
    have "(if length t \<le> 21 then string2l t else None) = None"
      using no string2l_iff [of t] by (cases "string2l t") auto
    then have body: "tryObjectEncoding fresh srv o' =
        (if length t \<le> 39 then
           if encoding o' = REDIS_ENCODING_EMBSTR then Some (srv, o')
           else do { emb \<leftarrow> createEmbeddedStringObject (s_buf s) (length t); Some (srv, emb) }
         else if encoding o' = REDIS_ENCODING_RAW \<and> sdsavail s > length t div 10
         then Some (srv, o'\<lparr>ptr := Sds (sdsRemoveFreeSpace fresh s)\<rparr>)
         else Some (srv, o'))"
      using False s(1) rd assms(2)
      by (simp add: tryObjectEncoding_def sdsEncoded_iff sds_of_def REDIS_ENCODING_EMBSTR_SIZE_LIMIT_def)
    have fit: "obj_holds (o'\<lparr>ptr := Sds (sdsRemoveFreeSpace fresh s)\<rparr>) t"
      using sdsRemoveFreeSpace_text [OF s(2), of fresh] False by (simp add: obj_holds_def)
    obtain emb where emb: "createEmbeddedStringObject (s_buf s) (length t) = Some emb" "obj_holds emb t"
      "encoding emb = REDIS_ENCODING_EMBSTR"
      using createEmbeddedStringObject_holds [OF rd(2) assms(3)] by blast
    show ?thesis unfolding body using no False fit emb assms(1) by (cases "encoding o'") auto
  qed
qed

lemma compare_text_holds:
  assumes "obj_holds o' t"
  shows "\<exists>b. compare_text o' = Some (b, length t) \<and> (\<forall>n \<le> length t. read_bytes b 0 n = Some (take n t))"
proof (cases "encoding o' = REDIS_ENCODING_INT")
  case True
  then obtain v where v: "ptr o' = Long v" "is_int64 v" "t = int_text v"
    using obj_holds_int [OF assms] by blast
  then show ?thesis using True
    by (auto simp: compare_text_def sdsEncoded_iff long_of_def ll2string_text [OF v(2)] read_bytes_text)
next
  case False
  then obtain s where "ptr o' = Sds s" "sds_repr s t"
    using obj_holds_sds [OF assms] by (auto simp: sdsEncoded_iff)
  then show ?thesis using False
    by (auto simp: compare_text_def sdsEncoded_iff sds_of_def sds_texts)
qed

lemma compareStringObjects_text:
  assumes "obj_holds a t" and "obj_holds b u" and "same \<longrightarrow> t = u"
  shows "compareStringObjects same a b = Some (text_cmp t u)"
proof (cases same)
  case True
  then show ?thesis using assms(3) text_cmp_0 [of t t] by (simp add: compareStringObjects_def)
next
  case False
  obtain x where x: "compare_text a = Some (x, length t)" "\<And>n. n \<le> length t \<Longrightarrow> read_bytes x 0 n = Some (take n t)"
    using compare_text_holds [OF assms(1)] by blast
  obtain y where y: "compare_text b = Some (y, length u)" "\<And>n. n \<le> length u \<Longrightarrow> read_bytes y 0 n = Some (take n u)"
    using compare_text_holds [OF assms(2)] by blast
  have "s32 (int (length t) - int (length u)) = int (length t) - int (length u)"
    using obj_holds_length assms(1,2) by (intro s32_id) fastforce+
  moreover have "(if length t < length u then length t else length u) = min (length t) (length u)" by simp
  ultimately show ?thesis using False x y
    by (simp add: compareStringObjects_def text_cmp_def Let_def)
qed

lemma int_text_inject: "is_int64 v \<Longrightarrow> is_int64 w \<Longrightarrow> int_text v = int_text w \<Longrightarrow> v = w"
  using string2l_iff [of "int_text v" v] string2l_iff [of "int_text v" w] by simp

lemma equalStringObjects_text:
  assumes "obj_holds a t" and "obj_holds b u" and "same \<longrightarrow> t = u"
  shows "equalStringObjects same a b = Some (t = u)"
proof (cases "encoding a = REDIS_ENCODING_INT \<and> encoding b = REDIS_ENCODING_INT")
  case True
  then obtain v w where "ptr a = Long v" "is_int64 v" "t = int_text v" "ptr b = Long w" "is_int64 w" "u = int_text w"
    using obj_holds_int assms(1,2) by blast
  then show ?thesis using True int_text_inject [of v w] by (auto simp: equalStringObjects_def long_of_def)
next
  case False
  then show ?thesis using compareStringObjects_text [OF assms] text_cmp_0 [of t u]
    by (auto simp: equalStringObjects_def)
qed

lemma getDecodedObject_holds:
  assumes "obj_holds o' t" and "length t + 1 < 2 ^ 31"
  shows "\<exists>d. getDecodedObject fresh o' = Some d \<and> obj_holds d t \<and> sdsEncodedObject d"
proof (cases "encoding o' = REDIS_ENCODING_INT")
  case True
  then obtain v where v: "ptr o' = Long v" "is_int64 v" "t = int_text v"
    using obj_holds_int [OF assms(1)] by blast
  have "strlen (int_text v @ [0]) = Some (length (int_text v))"
    by (rule strlen_nul) (rule nul_not_int_text)
  then show ?thesis
    using True v createStringObject_holds [of "int_text v @ [0]" "length (int_text v)" "int_text v" fresh]
      assms(2) by (auto simp: getDecodedObject_def sdsEncoded_iff long_of_def ll2string_text read_bytes_text)
next
  case False
  then show ?thesis using assms(1)
    by (auto simp: getDecodedObject_def sdsEncoded_iff obj_holds_def split: obj_ptr.splits)
qed

lemma stringObjectLen_holds:
  assumes "obj_holds o' t"
  shows "stringObjectLen o' = Some (length t)"
proof (cases "encoding o' = REDIS_ENCODING_INT")
  case True
  then show ?thesis using obj_holds_int [OF assms True]
    by (auto simp: stringObjectLen_def sdsEncoded_iff long_of_def ll2string_text)
next
  case False
  then show ?thesis using obj_holds_sds [OF assms]
    by (auto simp: stringObjectLen_def sdsEncoded_iff sds_of_def sds_texts)
qed

text \<open>The numbers that \<open>strtoll\<close> reads to the end.\<close>

definition number_of :: "byte list \<Rightarrow> int option" where
  "number_of t =
     (let body = (if t \<noteq> [] \<and> (hd t = 45 \<or> hd t = 43) then tl t else t);
          n = int (foldl dec_step 0 body);
          v = (if t \<noteq> [] \<and> hd t = 45 then - n else n)
      in if t = [] then Some 0
         else if body \<noteq> [] \<and> list_all isdigit body \<and> is_int64 v then Some v else None)"

lemma takeWhile_all_iff: "length (takeWhile P xs) = length xs \<longleftrightarrow> list_all P xs"
  by (induction xs) auto

lemma strtoll_at_end: "strtoll_at t k = (v, e, r) \<Longrightarrow> e \<le> k + length t"
proof -
  assume at: "strtoll_at t k = (v, e, r)"
  define sg where "sg \<longleftrightarrow> t \<noteq> [] \<and> (hd t = 45 \<or> hd t = 43)"
  define ds where "ds = takeWhile isdigit (if sg then tl t else t)"
  have "length ds \<le> length (if sg then tl t else t)" by (simp add: ds_def length_takeWhile_le)
  then have "(if sg then 1 else 0) + length ds \<le> length t" by (cases t) (auto simp: sg_def split: if_splits)
  moreover have "e = 0 \<or> e = k + (if sg then 1 else 0) + length ds"
    using arg_cong [OF at, of "\<lambda>p. fst (snd p)"] unfolding strtoll_at_def Let_def sg_def [symmetric] ds_def [symmetric]
    by (cases "ds = []") (simp_all only: if_True if_False fst_conv snd_conv simp_thms)
  ultimately show "e \<le> k + length t" by linarith
qed

lemma strtoll_at_number:
  assumes "strtoll_at t 0 = (v, e, r)" and "t \<noteq> []"
  shows "e \<le> length t" and "(if e \<noteq> length t \<or> r then None else Some v) = number_of t"
proof -
  define sg where "sg \<longleftrightarrow> hd t = 45 \<or> hd t = 43"
  define body where "body = (if sg then tl t else t)"
  have lb: "length t = (if sg then 1 else 0) + length body" using assms(2) by (simp add: body_def)
  define w where "w ds = (if hd t = 45 then - int (foldl dec_step 0 ds) else int (foldl dec_step 0 ds))" for ds
  define ds where "ds = takeWhile isdigit body"
  have ld: "length ds \<le> length body" by (simp add: ds_def length_takeWhile_le)
  have "strtoll_at t 0 = (if ds = [] then (0, 0, False) else (if w ds < LLONG_MIN then LLONG_MIN else if w ds > LLONG_MAX then LLONG_MAX else w ds,
      (if sg then 1 else 0) + length ds, \<not> is_int64 (w ds)))"
    using assms(2) by (simp only: strtoll_at_def Let_def sg_def body_def ds_def w_def simp_thms add_0_left if_cancel)
  then have at: "(v, e, r) = (if ds = [] then (0, 0, False) else (if w ds < LLONG_MIN then LLONG_MIN else if w ds > LLONG_MAX then LLONG_MAX else w ds,
      (if sg then 1 else 0) + length ds, \<not> is_int64 (w ds)))" unfolding assms(1) .
  show "e \<le> length t" using at ld lb by (simp split: if_splits)
  have num: "number_of t = (if body \<noteq> [] \<and> list_all isdigit body \<and> is_int64 (w body) then Some (w body) else None)"
    using assms(2) by (simp add: number_of_def Let_def sg_def body_def w_def)
  show "(if e \<noteq> length t \<or> r then None else Some v) = number_of t"
  proof (cases "ds = []")
    case True
    then have "e \<noteq> length t" using at assms(2) by simp
    moreover have "\<not> (body \<noteq> [] \<and> list_all isdigit body)" using True by (cases body) (auto simp: ds_def)
    ultimately show ?thesis using num by auto
  next
    case False
    have e: "e = length t \<longleftrightarrow> list_all isdigit body" using at False lb takeWhile_all_iff [of isdigit body] by (simp add: ds_def)
    have all: "list_all isdigit body \<Longrightarrow> ds = body" by (simp add: ds_def takeWhile_eq_all_conv list_all_iff)
    have "body \<noteq> []" using False by (auto simp: ds_def)
    then show ?thesis using at False e all num by (auto simp: is_int64_def)
  qed
qed

text \<open>The test of \<open>getLongLongFromObject\<close> on a buffer with the text \<open>t\<close>.\<close>

lemma c_string_number:
  assumes "buf = t @ 0 # sp"
  shows "do { (value, end, erange) \<leftarrow> strtoll buf; first \<leftarrow> read_bytes buf 0 1; last \<leftarrow> read_bytes buf end 1;
      Some (if isspace (hd first) \<or> hd last \<noteq> 0 \<or> erange then None else Some value) } = Some (number_of (takeWhile (\<lambda>c. c \<noteq> 0) t))"
proof -
  define s where "s = takeWhile (\<lambda>c. c \<noteq> 0) t"
  have "\<exists>u. buf = s @ 0 # u"
  proof (cases "0 \<in> set t")
    case True
    then obtain y ys where "dropWhile (\<lambda>c. c \<noteq> 0) t = y # ys" "y = 0"
      by (metis (mono_tags, lifting) dropWhile_eq_Nil_conv hd_dropWhile list.exhaust_sel)
    then have "t = s @ 0 # ys" by (metis s_def takeWhile_dropWhile_id)
    then show ?thesis by (simp add: assms)
  next
    case False
    then have "s = t" by (auto simp: s_def takeWhile_eq_all_conv)
    then show ?thesis by (simp add: assms)
  qed
  then obtain u where u: "buf = s @ 0 # u" ..
  have nz: "0 \<notin> set s" by (auto simp: s_def dest: set_takeWhileD)
  have tw: "takeWhile (\<lambda>c. c \<noteq> 0) buf = s" unfolding u using nz by (simp add: takeWhile_append takeWhile_eq_all_conv)
  have st: "strtoll buf = Some (strtoll_at (drop (length (takeWhile isspace s)) s) (length (takeWhile isspace s)))"
    unfolding strtoll_def tw by (simp add: u Let_def)
  show ?thesis
  proof (cases "s = []")
    case True
    then show ?thesis using st u by (simp add: strtoll_at_def number_of_def isspace_def read_bytes_def s_def [symmetric])
  next
    case ne: False
    have first: "read_bytes buf 0 1 = Some [hd s]" using ne by (cases s) (simp_all add: u read_bytes_def)
    obtain v e r where at: "strtoll_at (drop (length (takeWhile isspace s)) s) (length (takeWhile isspace s)) = (v, e, r)" by (metis prod_cases3)
    show ?thesis
    proof (cases "isspace (hd s)")
      case True
      have "e \<le> length s" using strtoll_at_end [OF at] length_takeWhile_le [of isspace s] by simp
      then have "\<exists>x. read_bytes buf e 1 = Some x" by (simp add: u read_bytes_def)
      moreover have "number_of s = None" using digit_not_space [of "hd s"] True ne
        by (cases s) (auto simp: number_of_def Let_def isspace_def)
      ultimately show ?thesis using st at first True by (auto simp: s_def [symmetric])
    next
      case False
      then have "takeWhile isspace s = []" using ne by (cases s) auto
      then have at0: "strtoll_at s 0 = (v, e, r)" using at by simp
      note num = strtoll_at_number [OF at0 ne]
      have "e < length buf" "buf ! e = (s @ [0]) ! e" using num(1) by (auto simp: u nth_append)
      then have "drop e buf = (s @ [0]) ! e # drop (Suc e) buf" by (metis Cons_nth_drop_Suc)
      then have "read_bytes buf e 1 = Some [(s @ [0]) ! e]" using \<open>e < length buf\<close> by (simp add: read_bytes_def)
      moreover have "(s @ [0]) ! e = 0 \<longleftrightarrow> e = length s" using num(1) nz by (auto simp: nth_append) (metis nth_mem le_neq_implies_less)
      ultimately show ?thesis using st at first False num(2) by (auto simp: s_def [symmetric])
    qed
  qed
qed

lemma number_of_int_text: "is_int64 v \<Longrightarrow> number_of (int_text v) = Some v"
proof -
  assume v: "is_int64 v"
  have "takeWhile (\<lambda>c. c \<noteq> 0) (int_text v @ 0 # []) = int_text v"
    using nul_not_int_text [of v] by (simp add: takeWhile_append takeWhile_eq_all_conv)
  moreover have "takeWhile isspace (int_text v) = []"
    using decimal_digits [of "nat v"] decimal_nonempty [of "nat v"] digit_not_space
    by (cases "decimal (nat v)") (auto simp: int_text_def isspace_def)
  ultimately have "strtoll_at (int_text v) 0 = (v, length (int_text v), False)"
    using strtoll_int_text [OF v, of "[]"] by (simp add: strtoll_def Let_def)
  moreover have "int_text v \<noteq> []" by (simp add: int_text_def)
  ultimately show ?thesis using strtoll_at_number(2) by metis
qed

text \<open>The order of the texts.\<close>

lemma text_cmp_simps:
  "text_cmp [] [] = 0" "text_cmp [] (b # u) = - int (Suc (length u))" "text_cmp (a # t) [] = int (Suc (length t))"
  "text_cmp (a # t) (b # u) = (if a = b then text_cmp t u else int (unat a) - int (unat b))"
proof -
  have "uint a = uint b \<longleftrightarrow> a = b" by (rule word_uint_eq_iff [symmetric])
  then show "text_cmp (a # t) (b # u) = (if a = b then text_cmp t u else int (unat a) - int (unat b))"
    by (auto simp: text_cmp_def Let_def min_def)
qed (simp_all add: text_cmp_def)

lemma text_cmp_lexord: "text_cmp t u < 0 \<longleftrightarrow> (t, u) \<in> lexord {(a, b). unat a < unat b}"
proof (induction t arbitrary: u)
  case Nil
  then show ?case by (cases u) (simp_all add: text_cmp_simps)
next
  case (Cons a t)
  show ?case
  proof (cases u)
    case (Cons b v)
    have "uint a < uint b \<longleftrightarrow> unat a < unat b" using of_nat_less_iff [of "unat a" "unat b", where 'a = int] by simp
    then have "text_cmp (a # t) (b # v) < 0 \<longleftrightarrow> unat a < unat b \<or> a = b \<and> text_cmp t v < 0"
      by (cases "a = b") (simp_all add: text_cmp_simps)
    then show ?thesis unfolding Cons Cons.IH by simp
  qed (simp add: text_cmp_simps)
qed

type_synonym 's elem = "'s \<times> byte list"

subsection \<open>Properties\<close>

text \<open>
  C17. Encoding a string object never changes its text. An object with one reference becomes an integer
  exactly when its text is the canonical decimal text of a 64-bit integer, and a text of at most 39
  bytes does not stay in the raw encoding. An object with more references stays as it is.
\<close>

theorem tryObjectEncoding_keeps_text:
  assumes "obj_holds o' t" and "length t + 1 < 2 ^ 31"
  shows "\<exists>srv' e. tryObjectEncoding fresh srv o' = Some (srv', e) \<and> obj_holds e t
    \<and> (refcount o' \<le> 1 \<longrightarrow> (encoding e = REDIS_ENCODING_INT \<longleftrightarrow> (\<exists>v. is_int64 v \<and> t = int_text v))
        \<and> (encoding e = REDIS_ENCODING_RAW \<longrightarrow> 39 < length t))
    \<and> (1 < refcount o' \<longrightarrow> srv' = srv \<and> e = o')"
proof (cases "refcount o' \<le> 1")
  case True
  with tryObjectEncoding_holds [OF assms(1) _ assms(2)] show ?thesis by (simp add: not_less [symmetric])
next
  case False
  then have "tryObjectEncoding fresh srv o' = Some (srv, o')" by (simp add: tryObjectEncoding_def)
  with assms(1) False show ?thesis by simp
qed

lemma raw_object_holds:
  "length t + 1 < 2 ^ 31 \<Longrightarrow> obj_holds (createObject (Sds \<lparr>s_len = int (length t), s_free = 0, s_buf = t @ [0]\<rparr>)) t"
  using sds_reprI [of t "[]"] by (simp add: obj_holds_def createObject_def)

theorem tryObjectEncoding_keeps_text_witness:
  "\<exists>srv' e. tryObjectEncoding (\<lambda>_. 0) \<lparr>maxmemory = 0, shared_integers = \<lambda>_. 1\<rparr>
      (createObject (Sds \<lparr>s_len = 2, s_free = 0, s_buf = [52, 50, 0]\<rparr>)) = Some (srv', e)
    \<and> obj_holds e [52, 50]"
  using tryObjectEncoding_keeps_text [OF raw_object_holds [of "[52, 50]"], of "\<lambda>_. 0"
    "\<lparr>maxmemory = 0, shared_integers = \<lambda>_. 1\<rparr>"] by simp blast

text \<open>
  C33. Comparison does not see the encoding. Two string objects are equal exactly when their texts
  are, and the sign of the comparison is the lexicographic order of the texts, as unsigned bytes, a text
  before its extensions.
\<close>

theorem compareStringObjects_encodings:
  assumes "obj_holds a t" and "obj_holds b u" and "same \<longrightarrow> t = u"
  shows "equalStringObjects same a b = Some (t = u)
    \<and> (\<exists>c. compareStringObjects same a b = Some c \<and> (c < 0 \<longleftrightarrow> (t, u) \<in> lexord {(x, y). unat x < unat y})
      \<and> (c = 0 \<longleftrightarrow> t = u) \<and> (0 < c \<longleftrightarrow> (u, t) \<in> lexord {(x, y). unat x < unat y}))"
  using equalStringObjects_text [OF assms] compareStringObjects_text [OF assms]
    text_cmp_0 [of t u] text_cmp_minus [of u t] text_cmp_lexord [of t u] text_cmp_lexord [of u t] by simp

theorem compareStringObjects_encodings_witness:
  "equalStringObjects False (createObject (Sds \<lparr>s_len = 1, s_free = 0, s_buf = [55, 0]\<rparr>))
      \<lparr>encoding = REDIS_ENCODING_INT, ptr = Long 7, refcount = 1\<rparr> = Some True"
proof -
  have "int_text 7 = [55]" by (simp add: int_text_def decimal.simps digit_char_def)
  then have "obj_holds \<lparr>encoding = REDIS_ENCODING_INT, ptr = Long 7, refcount = 1\<rparr> [55]"
    by (simp add: obj_holds_def is_int64_def range_defs)
  from compareStringObjects_encodings [OF raw_object_holds [of "[55]"] this, of False]
  show ?thesis by simp
qed

text \<open>
  C34. The number of a string object, exactly. The code looks at the text only up to its first 0 byte
  (\<open>number_of\<close>): an optional sign and digits, all of them, whose value fits in 64 bits, are accepted with
  that value, and so is nothing at all, as 0. Everything else is an error: a space, a character behind
  the digits, a value out of range. So a text such as "5", 0 byte, "a" counts as 5.
\<close>

theorem getLongLongFromObject_reads:
  assumes "obj_holds o' t"
  shows "getLongLongFromObject (Some o') = Some (number_of (takeWhile (\<lambda>c. c \<noteq> 0) t))"
proof (cases "encoding o' = REDIS_ENCODING_INT")
  case True
  then obtain v where v: "ptr o' = Long v" "is_int64 v" "t = int_text v" using obj_holds_int [OF assms] by blast
  have "takeWhile (\<lambda>c. c \<noteq> 0) t = int_text v" using nul_not_int_text [of v] v(3) by (auto simp: takeWhile_eq_all_conv)
  moreover have "number_of (int_text v) = Some v" using v(2) by (rule number_of_int_text)
  ultimately show ?thesis using True v(1) by (simp add: getLongLongFromObject_def sdsEncoded_iff long_of_def)
next
  case False
  then obtain s where s: "ptr o' = Sds s" "sds_repr s t" using obj_holds_sds [OF assms] by (auto simp: sdsEncoded_iff)
  obtain sp where b: "s_buf s = t @ 0 # sp" using s(2) by (auto elim: sds_reprE)
  show ?thesis using c_string_number [OF b] False s(1)
    by (simp add: getLongLongFromObject_def sdsEncoded_iff sds_of_def)
qed

theorem getLongLongFromObject_reads_witness:
  "getLongLongFromObject (Some (createObject (Sds \<lparr>s_len = 3, s_free = 0, s_buf = [53, 0, 97, 0]\<rparr>))) = Some (Some 5)
    \<and> getLongLongFromObject (Some (createObject (Sds \<lparr>s_len = 2, s_free = 0, s_buf = [53, 97, 0]\<rparr>))) = Some None"
  using getLongLongFromObject_reads [OF raw_object_holds [of "[53, 0, 97]"]] getLongLongFromObject_reads [OF raw_object_holds [of "[53, 97]"]]
  by (simp add: number_of_def isdigit_def dec_step_def is_int64_def range_defs)

end
