(* ===== verification/Lzf.thy ===== *)
theory Lzf
  imports Redis_Prelude
begin

unbundle bit_operations_syntax

text \<open>
  The LZF compressor and decompressor that the dump file uses for strings (\<open>src/lzf_c.c\<close>,
  \<open>src/lzf_d.c\<close>), in the configuration of \<open>lzfP.h\<close>: \<open>VERY_FAST\<close>, \<open>CHECK_INPUT\<close>, a hash table
  of 2 to the 16 slots that is not initialised. Pointers are offsets into the input and the output;
  a slot of the hash table holds an offset relative to the input, any integer at the start.
  \<open>None\<close> is an access outside a buffer.
\<close>

definition MAX_LIT :: nat where "MAX_LIT = 32"
definition MAX_OFF :: nat where "MAX_OFF = 8192"
definition MAX_REF :: nat where "MAX_REF = 264"

datatype lzf_errno = E2BIG | EINVAL

definition byte_at :: "byte list \<Rightarrow> nat \<Rightarrow> nat option" where
  "byte_at b i = (if i < length b then Some (unat (b ! i)) else None)"

definition put_byte :: "byte list \<Rightarrow> nat \<Rightarrow> int \<Rightarrow> byte list option" where
  "put_byte b i v = (if i < length b then Some (b[i := word_of_int v]) else None)"

subsection \<open>The decompressor\<close>

text \<open>The output is the list of the bytes written so far. \<open>do *op++ = *ref++ while (--len)\<close>:\<close>

fun back_copy :: "nat \<Rightarrow> nat \<Rightarrow> byte list \<Rightarrow> byte list option" where
  "back_copy 0 ref out = Some out"
| "back_copy (Suc n) ref out =
     (if ref < length out then back_copy n (ref + 1) (out @ [out ! ref]) else None)"

text \<open>The rest of a back reference, from the low byte of the offset on.\<close>

definition backref_finish ::
  "byte list \<Rightarrow> nat \<Rightarrow> int \<Rightarrow> byte list \<Rightarrow> nat \<Rightarrow> nat \<Rightarrow> (lzf_errno + nat \<times> byte list) option"
where
  "backref_finish inp out_len ref out len ip =
     (case byte_at inp ip of
        None \<Rightarrow> None
      | Some b \<Rightarrow>
          if length out + len + 2 > out_len then Some (Inl E2BIG)
          else if ref - int b < 0 then Some (Inl EINVAL)
          else map_option (\<lambda>out. Inr (ip + 1, out)) (back_copy (len + 2) (nat (ref - int b)) out))"

text \<open>One back reference: the bytes after the control byte, the new position and output.\<close>

definition lzf_backref ::
  "byte list \<Rightarrow> nat \<Rightarrow> nat \<Rightarrow> nat \<Rightarrow> byte list \<Rightarrow> (lzf_errno + nat \<times> byte list) option"
where
  "lzf_backref inp out_len ctrl ip out =
     (let len = ctrl div 32; ref = int (length out) - int ((ctrl mod 32) * 256) - 1
      in if ip \<ge> length inp then Some (Inl EINVAL)
         else if len = 7 then
           case byte_at inp ip of
             None \<Rightarrow> None
           | Some b \<Rightarrow>
               if ip + 1 \<ge> length inp then Some (Inl EINVAL)
               else backref_finish inp out_len ref out (len + b) (ip + 1)
         else backref_finish inp out_len ref out len ip)"

lemma backref_finish_advance:
  "backref_finish inp out_len ref out len ip = Some (Inr (ip', out')) \<Longrightarrow> ip' = ip + 1 \<and> ip < length inp"
  by (auto simp: backref_finish_def byte_at_def split: if_splits)

lemma lzf_backref_advance:
  "lzf_backref inp out_len ctrl ip out = Some (Inr (ip', out')) \<Longrightarrow> ip < ip' \<and> ip' \<le> length inp"
  by (auto simp: lzf_backref_def Let_def dest!: backref_finish_advance split: if_splits option.splits)

function lzf_dloop :: "byte list \<Rightarrow> nat \<Rightarrow> nat \<Rightarrow> byte list \<Rightarrow> (lzf_errno + byte list) option" where
  "lzf_dloop inp out_len ip out =
     (case byte_at inp ip of
        None \<Rightarrow> None
      | Some ctrl \<Rightarrow>
          if ctrl < 32 then
            let n = ctrl + 1
            in if length out + n > out_len then Some (Inl E2BIG)
               else if ip + 1 + n > length inp then Some (Inl EINVAL)
               else let out = out @ take n (drop (ip + 1) inp); ip = ip + 1 + n
                    in if ip < length inp then lzf_dloop inp out_len ip out else Some (Inr out)
          else case lzf_backref inp out_len ctrl (ip + 1) out of
                 None \<Rightarrow> None
               | Some (Inl e) \<Rightarrow> Some (Inl e)
               | Some (Inr (ip, out)) \<Rightarrow>
                   if ip < length inp then lzf_dloop inp out_len ip out else Some (Inr out))"
  by pat_completeness auto
termination
  by (relation "measure (\<lambda>(inp, out_len, ip, out). length inp - ip)")
    (auto simp: byte_at_def dest!: lzf_backref_advance split: if_splits)

declare lzf_dloop.simps [simp del]

definition lzf_decompress :: "byte list \<Rightarrow> nat \<Rightarrow> (lzf_errno + byte list) option" where
  "lzf_decompress inp out_len = lzf_dloop inp out_len 0 []"

subsection \<open>The compressor\<close>

record lzf_state =
  l_ip :: nat
  l_op :: nat
  l_lit :: nat
  l_hval :: nat
  l_htab :: "nat \<Rightarrow> int"
  l_out :: "byte list"

definition FRST :: "byte list \<Rightarrow> nat \<Rightarrow> nat option" where
  "FRST inp p =
     (case (byte_at inp p, byte_at inp (p + 1)) of
        (Some a, Some b) \<Rightarrow> Some (a * 256 + b)
      | _ \<Rightarrow> None)"

definition NEXT :: "nat \<Rightarrow> byte list \<Rightarrow> nat \<Rightarrow> nat option" where
  "NEXT v inp p = map_option (\<lambda>c. (v * 256) mod 2 ^ 32 + c) (byte_at inp (p + 2))"

definition IDX :: "nat \<Rightarrow> nat" where
  "IDX h = nat ((int (h div 256) - int (h * 5)) mod 2 ^ 16)"

text \<open>The 16 unrolled comparisons: \<open>Inl len\<close> when one of them left the loop.\<close>

fun unrolled :: "nat \<Rightarrow> byte list \<Rightarrow> nat \<Rightarrow> nat \<Rightarrow> nat \<Rightarrow> (nat + nat) option" where
  "unrolled 0 inp ref ip len = Some (Inr len)"
| "unrolled (Suc k) inp ref ip len =
     (case (byte_at inp (ref + (len + 1)), byte_at inp (ip + (len + 1))) of
        (Some a, Some b) \<Rightarrow> if a \<noteq> b then Some (Inl (len + 1)) else unrolled k inp ref ip (len + 1)
      | _ \<Rightarrow> None)"

text \<open>\<open>do len++; while (len < maxlen && ref[len] == ip[len])\<close>\<close>

function match_tail :: "byte list \<Rightarrow> nat \<Rightarrow> nat \<Rightarrow> nat \<Rightarrow> nat \<Rightarrow> nat option" where
  "match_tail inp ref ip maxlen len =
     (if len + 1 < maxlen then
        case (byte_at inp (ref + (len + 1)), byte_at inp (ip + (len + 1))) of
          (Some a, Some b) \<Rightarrow> if a = b then match_tail inp ref ip maxlen (len + 1) else Some (len + 1)
        | _ \<Rightarrow> None
      else Some (len + 1))"
  by pat_completeness auto
termination
  by (relation "measure (\<lambda>(inp, ref, ip, maxlen, len). maxlen - len)") auto

declare match_tail.simps [simp del]

definition match_length :: "byte list \<Rightarrow> nat \<Rightarrow> nat \<Rightarrow> nat \<Rightarrow> nat option" where
  "match_length inp ref ip maxlen =
     (if maxlen > 16 then
        case unrolled 16 inp ref ip 2 of
          None \<Rightarrow> None
        | Some (Inl len) \<Rightarrow> Some len
        | Some (Inr len) \<Rightarrow> match_tail inp ref ip maxlen len
      else match_tail inp ref ip maxlen 2)"

text \<open>The condition of the match, with the offset it computes (an \<open>unsigned long\<close>).\<close>

definition find_match :: "byte list \<Rightarrow> int \<Rightarrow> nat \<Rightarrow> nat option option" where
  "find_match inp ref ip =
     (let off = u64 (int ip - ref - 1); r = nat ref
      in if off < MAX_OFF \<and> ip + 4 < length inp \<and> ref > 0 then
           case (byte_at inp r, byte_at inp ip, byte_at inp (r + 1), byte_at inp (ip + 1),
                 byte_at inp (r + 2), byte_at inp (ip + 2)) of
             (Some a, Some b, Some c, Some d, Some e, Some f) \<Rightarrow>
               Some (if a = b \<and> c = d \<and> e = f then Some off else None)
           | _ \<Rightarrow> None
         else Some None)"

datatype lzf_next = Fail "byte list" | Break lzf_state | Continue lzf_state

text \<open>Closing a run of literals: \<open>op[- lit - 1] = lit - 1\<close>.\<close>

definition close_run :: "byte list \<Rightarrow> nat \<Rightarrow> nat \<Rightarrow> byte list option" where
  "close_run out op lit = (if op < lit + 1 then None else put_byte out (op - lit - 1) (int lit - 1))"

text \<open>The bytes of a back reference and the position behind them.\<close>

definition put_ref :: "byte list \<Rightarrow> nat \<Rightarrow> nat \<Rightarrow> nat \<Rightarrow> (byte list \<times> nat) option" where
  "put_ref out op off len =
     (if len < 7 then
        case put_byte out op (int (off div 256 + len * 32)) of
          None \<Rightarrow> None
        | Some out \<Rightarrow>
            map_option (\<lambda>out. (out, op + 2)) (put_byte out (op + 1) (int off))
      else
        case put_byte out op (int (off div 256 + 7 * 32)) of
          None \<Rightarrow> None
        | Some out \<Rightarrow>
            (case put_byte out (op + 1) (int (len - 7)) of
               None \<Rightarrow> None
             | Some out \<Rightarrow>
                 map_option (\<lambda>out. (out, op + 3)) (put_byte out (op + 2) (int off))))"

text \<open>The two positions before the new one are entered into the table.\<close>

definition rehash_two :: "byte list \<Rightarrow> nat \<Rightarrow> (nat \<Rightarrow> int) \<Rightarrow> (nat \<times> (nat \<Rightarrow> int)) option" where
  "rehash_two inp ip htab =
     (case FRST inp (ip - 2) of
        None \<Rightarrow> None
      | Some h \<Rightarrow>
          (case NEXT h inp (ip - 2) of
             None \<Rightarrow> None
           | Some h \<Rightarrow>
               let htab = htab(IDX h := int (ip - 2))
               in case NEXT h inp (ip - 1) of
                    None \<Rightarrow> None
                  | Some h \<Rightarrow> Some (h, htab(IDX h := int (ip - 1)))))"

definition take_match ::
  "byte list \<Rightarrow> nat \<Rightarrow> nat \<Rightarrow> nat \<Rightarrow> lzf_state \<Rightarrow> lzf_next option"
where
  "take_match inp out_len off ref s =
     (let ip = l_ip s; lit = l_lit s;
          maxlen = length inp - ip - 2;
          maxlen = (if maxlen > MAX_REF then MAX_REF else maxlen)
      in case close_run (l_out s) (l_op s) lit of
           None \<Rightarrow> None
         | Some out \<Rightarrow>
             let op = (if lit = 0 then l_op s - 1 else l_op s)
             in if op + 3 + 1 \<ge> out_len then Some (Fail out)
                else case match_length inp ref ip maxlen of
                       None \<Rightarrow> None
                     | Some len \<Rightarrow>
                         let len = len - 2; ip = ip + 1
                         in case put_ref out op off len of
                              None \<Rightarrow> None
                            | Some (out, op) \<Rightarrow>
                                let s = s\<lparr>l_lit := 0, l_op := op + 1, l_out := out, l_ip := ip + len + 1\<rparr>
                                in if int (l_ip s) \<ge> int (length inp) - 2 then Some (Break s)
                                   else case rehash_two inp (l_ip s) (l_htab s) of
                                          None \<Rightarrow> None
                                        | Some (h, htab) \<Rightarrow> Some (Continue (s\<lparr>l_hval := h, l_htab := htab\<rparr>)))"

text \<open>One literal: \<open>lit++; *op++ = *ip++\<close>, closing the run when it is full.\<close>

definition take_literal :: "byte list \<Rightarrow> lzf_state \<Rightarrow> lzf_state option" where
  "take_literal inp s =
     (case byte_at inp (l_ip s) of
        None \<Rightarrow> None
      | Some b \<Rightarrow>
          (case put_byte (l_out s) (l_op s) (int b) of
             None \<Rightarrow> None
           | Some out \<Rightarrow>
               let s = s\<lparr>l_lit := l_lit s + 1, l_op := l_op s + 1, l_ip := l_ip s + 1, l_out := out\<rparr>
               in if l_lit s = MAX_LIT then
                    map_option (\<lambda>out. s\<lparr>l_lit := 0, l_op := l_op s + 1, l_out := out\<rparr>)
                      (close_run (l_out s) (l_op s) (l_lit s))
                  else Some s))"

definition lzf_step :: "byte list \<Rightarrow> nat \<Rightarrow> lzf_state \<Rightarrow> lzf_next option" where
  "lzf_step inp out_len s =
     (case NEXT (l_hval s) inp (l_ip s) of
        None \<Rightarrow> None
      | Some h \<Rightarrow>
          let ref = l_htab s (IDX h);
              s = s\<lparr>l_hval := h, l_htab := (l_htab s)(IDX h := int (l_ip s))\<rparr>
          in case find_match inp ref (l_ip s) of
               None \<Rightarrow> None
             | Some (Some off) \<Rightarrow> take_match inp out_len off (nat ref) s
             | Some None \<Rightarrow>
                 if l_op s \<ge> out_len then Some (Fail (l_out s))
                 else map_option Continue (take_literal inp s))"

text \<open>\<open>Inl\<close> is \<open>return 0\<close>, with the output buffer as it is then.\<close>

partial_function (option) lzf_loop ::
  "byte list \<Rightarrow> nat \<Rightarrow> lzf_state \<Rightarrow> (byte list + lzf_state) option"
where
  "lzf_loop inp out_len s =
     (if int (l_ip s) < int (length inp) - 2 then
        case lzf_step inp out_len s of
          None \<Rightarrow> None
        | Some (Fail out) \<Rightarrow> Some (Inl out)
        | Some (Break s) \<Rightarrow> Some (Inr s)
        | Some (Continue s) \<Rightarrow> lzf_loop inp out_len s
      else Some (Inr s))"

text \<open>\<open>while (ip < in_end)\<close>: at most two literals are left.\<close>

partial_function (option) lzf_rest :: "byte list \<Rightarrow> lzf_state \<Rightarrow> lzf_state option" where
  "lzf_rest inp s =
     (if l_ip s < length inp then
        case take_literal inp s of None \<Rightarrow> None | Some s \<Rightarrow> lzf_rest inp s
      else Some s)"

text \<open>The result: the length returned, and the output buffer.\<close>

definition lzf_compress ::
  "(nat \<Rightarrow> int) \<Rightarrow> byte list \<Rightarrow> byte list \<Rightarrow> nat \<Rightarrow> (nat \<times> byte list) option"
where
  "lzf_compress htab inp out out_len =
     (if length inp = 0 \<or> out_len = 0 then Some (0, out)
      else case FRST inp 0 of
             None \<Rightarrow> None
           | Some h \<Rightarrow>
               (case lzf_loop inp out_len
                    \<lparr>l_ip = 0, l_op = 1, l_lit = 0, l_hval = h, l_htab = htab, l_out = out\<rparr> of
                  None \<Rightarrow> None
                | Some (Inl out) \<Rightarrow> Some (0, out)
                | Some (Inr s) \<Rightarrow>
                    if l_op s + 3 > out_len then Some (0, l_out s)
                    else case lzf_rest inp s of
                           None \<Rightarrow> None
                         | Some s \<Rightarrow>
                             map_option (\<lambda>out. (if l_lit s = 0 then l_op s - 1 else l_op s, out))
                               (close_run (l_out s) (l_op s) (l_lit s))))"

subsection \<open>Decoding a concatenation\<close>

lemma byte_at_Some: "i < length b \<Longrightarrow> byte_at b i = Some (unat (b ! i))"
  by (simp add: byte_at_def)

lemma byte_at_append: "byte_at d i = Some x \<Longrightarrow> byte_at (d @ c) i = Some x"
  by (auto simp: byte_at_def nth_append split: if_splits)

lemma backref_finish_append:
  assumes "backref_finish d cap ref out len ip = Some (Inr r)"
  shows "backref_finish (d @ c) cap ref out len ip = Some (Inr r)"
proof -
  have "ip < length d" using assms by (cases r) (blast dest: backref_finish_advance)
  then obtain b where b: "byte_at d ip = Some b" using byte_at_Some by blast
  from byte_at_append [OF b, of c] b assms show ?thesis by (simp add: backref_finish_def)
qed

lemma lzf_backref_append:
  assumes "lzf_backref d cap ctrl ip out = Some (Inr r)"
  shows "lzf_backref (d @ c) cap ctrl ip out = Some (Inr r)"
proof -
  define ref where "ref = int (length out) - int ((ctrl mod 32) * 256) - 1"
  define len where "len = ctrl div 32"
  have U: "lzf_backref i cap ctrl ip out =
     (if ip \<ge> length i then Some (Inl EINVAL)
      else if len = 7 then
        case byte_at i ip of
          None \<Rightarrow> None
        | Some b \<Rightarrow> if ip + 1 \<ge> length i then Some (Inl EINVAL)
            else backref_finish i cap ref out (len + b) (ip + 1)
      else backref_finish i cap ref out len ip)" for i
    unfolding lzf_backref_def Let_def ref_def len_def ..
  have ip: "ip < length d" using assms U [of d] by (cases "ip < length d") simp_all
  show ?thesis
  proof (cases "len = 7")
    case True
    obtain b where b: "byte_at d ip = Some b" using ip byte_at_Some by blast
    have "ip + 1 < length d" using assms U [of d] True ip b by (cases "ip + 1 < length d") simp_all
    moreover from this have "backref_finish d cap ref out (len + b) (ip + 1) = Some (Inr r)"
      using assms U [of d] True ip b by simp
    then have "backref_finish (d @ c) cap ref out (len + b) (ip + 1) = Some (Inr r)"
      by (rule backref_finish_append)
    ultimately show ?thesis using U [of "d @ c"] True byte_at_append [OF b, of c] ip by simp
  next
    case False
    then have "backref_finish d cap ref out len ip = Some (Inr r)" using assms U [of d] ip by simp
    then have "backref_finish (d @ c) cap ref out len ip = Some (Inr r)" by (rule backref_finish_append)
    then show ?thesis using U [of "d @ c"] False ip by simp
  qed
qed

lemma lzf_dloop_append:
  assumes "lzf_dloop d cap ip out = Some (Inr out')" and "c \<noteq> []"
  shows "lzf_dloop (d @ c) cap ip out = lzf_dloop (d @ c) cap (length d) out'"
  using assms
proof (induction d cap ip out rule: lzf_dloop.induct)
  case (1 d cap ip out)
  note here = lzf_dloop.simps [of d cap ip out] and there = lzf_dloop.simps [of "d @ c" cap ip out]
  obtain ctrl where ctrl: "byte_at d ip = Some ctrl" "byte_at (d @ c) ip = Some ctrl" "ip < length d"
  proof (cases "byte_at d ip")
    case None
    then show thesis using "1.prems"(1) here by simp
  next
    case (Some ctrl)
    then have "ip < length d" by (simp add: byte_at_def split: if_splits)
    with Some that byte_at_append [OF Some] show thesis by blast
  qed
  show ?case
  proof (cases "ctrl < 32")
    case True
    let ?n = "ctrl + 1"
    let ?o = "out @ take ?n (drop (ip + 1) d)"
    have b: "length out + ?n \<le> cap" "ip + 1 + ?n \<le> length d"
      using "1.prems"(1) here ctrl(1) True by (auto simp: Let_def split: if_splits)
    then have "take ?n (drop (ip + 1) (d @ c)) = take ?n (drop (ip + 1) d)" by simp
    moreover have "ip + 1 + ?n < length (d @ c)" using "1.prems"(2) b by (cases c) simp_all
    ultimately have T: "lzf_dloop (d @ c) cap ip out = lzf_dloop (d @ c) cap (ip + 1 + ?n) ?o"
      using there ctrl(2) True b by (simp add: Let_def)
    show ?thesis
    proof (cases "ip + 1 + ?n < length d")
      case more: True
      then have "lzf_dloop d cap (ip + 1 + ?n) ?o = Some (Inr out')"
        using "1.prems"(1) here ctrl(1) True b by (simp add: Let_def)
      with "1.IH"(1) [OF ctrl(1) True refl] b more "1.prems"(2) T show ?thesis by simp
    next
      case last: False
      then have "out' = ?o" "ip + 1 + ?n = length d"
        using "1.prems"(1) here ctrl(1) True b by (simp_all add: Let_def)
      with T "1.prems"(2) show ?thesis by simp
    qed
  next
    case False
    obtain ip' o' where R: "lzf_backref d cap ctrl (ip + 1) out = Some (Inr (ip', o'))"
      using "1.prems"(1) here ctrl(1) False by (auto split: option.splits sum.splits)
    note A = lzf_backref_append [OF R, of c] and adv = lzf_backref_advance [OF R]
    have "ip' < length (d @ c)" using adv "1.prems"(2) by (cases c) simp_all
    with A have T: "lzf_dloop (d @ c) cap ip out = lzf_dloop (d @ c) cap ip' o'"
      using there ctrl(2) False by simp
    show ?thesis
    proof (cases "ip' < length d")
      case more: True
      then have "lzf_dloop d cap ip' o' = Some (Inr out')"
        using "1.prems"(1) here ctrl(1) False R by simp
      with "1.IH"(2) [OF ctrl(1) False R] more "1.prems"(2) T show ?thesis by simp
    next
      case last: False
      then have "out' = o'" "ip' = length d"
        using "1.prems"(1) here ctrl(1) False R adv by simp_all
      with T show ?thesis by simp
    qed
  qed
qed

lemma unat_byte_nat: "m < 256 \<Longrightarrow> unat (word_of_nat m :: byte) = m"
  by (simp add: unsigned_of_nat take_bit_nat_eq_self)

lemma unat_byte: "0 \<le> v \<Longrightarrow> v < 256 \<Longrightarrow> unat (word_of_int v :: byte) = nat v"
  by (simp add: unsigned_of_int take_bit_eq_mod unat_eq_nat_uint)

text \<open>The bytes \<open>d\<close> decode to \<open>out\<close> within the capacity.\<close>

definition decodes :: "nat \<Rightarrow> byte list \<Rightarrow> byte list \<Rightarrow> bool" where
  "decodes cap d out \<longleftrightarrow> (if d = [] then out = [] else lzf_dloop d cap 0 [] = Some (Inr out))"

lemma decodes_append:
  assumes "decodes cap d out" and "c \<noteq> []" and "lzf_dloop (d @ c) cap (length d) out = Some (Inr out')"
  shows "decodes cap (d @ c) out'"
  using assms lzf_dloop_append [of d cap 0 "[]" out c] by (auto simp: decodes_def split: if_splits)

lemma decodes_literal:
  assumes "decodes cap d out" and "l \<noteq> []" and "length l \<le> 32" and "length out + length l \<le> cap"
  shows "decodes cap (d @ word_of_int (int (length l) - 1) # l) (out @ l)"
proof (rule decodes_append [OF assms(1)])
  let ?x = "word_of_int (int (length l) - 1) :: byte"
  obtain m where m: "length l = Suc m" using assms(2) by (cases l) auto
  have "int (length l) - 1 = int m" using m by simp
  then have "?x = word_of_nat m" by (simp only: of_int_of_nat_eq)
  moreover have "m < 256" using assms(3) m by simp
  ultimately have x: "unat ?x = m" using unat_byte_nat by (simp only:)
  define w where "w = ?x"
  have "unat w = m" unfolding w_def by (rule x)
  then have "byte_at (d @ w # l) (length d) = Some m" by (simp add: byte_at_Some)
  then show "lzf_dloop (d @ ?x # l) cap (length d) out = Some (Inr (out @ l))"
    using assms(3,4) m lzf_dloop.simps [of "d @ w # l" cap "length d" out]
    unfolding w_def [symmetric] by (simp add: Let_def)
qed simp

text \<open>A back reference repeats bytes that are already there, possibly overlapping itself.\<close>

lemma back_copy_take:
  assumes "r < j" and "j + n \<le> length x" and "\<forall>i < n. x ! (r + i) = x ! (j + i)"
  shows "back_copy n r (take j x) = Some (take (j + n) x)"
  using assms
proof (induction n arbitrary: r j)
  case (Suc n)
  have "take j x @ [x ! r] = take (j + 1) x"
    using Suc.prems(2) Suc.prems(3) [rule_format, of 0] by (simp add: take_Suc_conv_app_nth)
  moreover have "back_copy n (r + 1) (take (j + 1) x) = Some (take (j + 1 + n) x)"
    using Suc.prems by (intro Suc.IH) auto
  ultimately show ?case using Suc.prems(1,2) by simp
qed simp

definition ref_bytes :: "nat \<Rightarrow> nat \<Rightarrow> byte list" where
  "ref_bytes off len =
     (if len < 7 then [word_of_nat (off div 256 + len * 32), word_of_nat off]
      else [word_of_nat (off div 256 + 7 * 32), word_of_nat (len - 7), word_of_nat off])"

lemma unat_low_byte: "unat (word_of_nat off :: byte) = off mod 256"
  by (simp add: unsigned_of_nat take_bit_eq_mod)

lemma decodes_ref:
  assumes "decodes cap d (take j x)" and "0 < len" and "len \<le> 262" and "off < 8192" and "off < j"
    and "j + (len + 2) \<le> length x" and "length x \<le> cap"
    and "\<forall>i < len + 2. x ! (j - off - 1 + i) = x ! (j + i)"
  shows "decodes cap (d @ ref_bytes off len) (take (j + (len + 2)) x)"
proof (rule decodes_append [OF assms(1)])
  let ?out = "take j x"
  have j: "length ?out = j" using assms(6) by simp
  have off: "int j - int (off div 256 * 256) - 1 - int (off mod 256) = int (j - off - 1)"
    using assms(5) div_mult_mod_eq [of off 256] by linarith
  have bc: "back_copy (len + 2) (j - off - 1) ?out = Some (take (j + (len + 2)) x)"
    using assms(5,6,8) by (intro back_copy_take) auto
  have hi: "off div 256 < 32" using assms(4) by (simp add: less_mult_imp_div_less)
  have fin: "backref_finish (d @ ref_bytes off len) cap (int j - int (off div 256 * 256) - 1) ?out len
      (length d + length (ref_bytes off len) - 1)
    = Some (Inr (length d + length (ref_bytes off len), take (j + (len + 2)) x))"
  proof -
    have "byte_at (d @ ref_bytes off len) (length d + length (ref_bytes off len) - 1) = Some (off mod 256)"
      by (simp add: byte_at_Some ref_bytes_def nth_append unat_low_byte)
    moreover have "0 < length (ref_bytes off len)" by (simp add: ref_bytes_def)
    ultimately show ?thesis using off bc assms(6,7) j by (simp add: backref_finish_def)
  qed
  define c where "c = (if len < 7 then len else 7)"
  have c: "1 \<le> c" "c \<le> 7" "off div 256 + c * 32 < 256" using hi assms(2) by (auto simp: c_def)
  have ctrl: "byte_at (d @ ref_bytes off len) (length d) = Some (off div 256 + c * 32)"
    using c(3) unat_byte_nat [of "off div 256 + c * 32"]
    by (simp add: byte_at_Some ref_bytes_def c_def split: if_splits)
  have parts: "(off div 256 + c * 32) div 32 = c" "(off div 256 + c * 32) mod 32 = off div 256"
    using hi by simp_all
  have br: "lzf_backref (d @ ref_bytes off len) cap (off div 256 + c * 32) (length d + 1) ?out
    = Some (Inr (length d + length (ref_bytes off len), take (j + (len + 2)) x))"
  proof (cases "len < 7")
    case True
    then have "length (ref_bytes off len) = 2" "c \<noteq> 7" by (simp_all add: ref_bytes_def c_def)
    then show ?thesis
      using fin True unfolding lzf_backref_def Let_def parts j by (simp add: c_def)
  next
    case False
    then have l: "length (ref_bytes off len) = 3" "c = 7" by (simp_all add: ref_bytes_def c_def)
    have "byte_at (d @ ref_bytes off len) (length d + 1) = Some (len - 7)"
      using False assms(3) unat_byte_nat [of "len - 7"]
      by (simp add: byte_at_Some ref_bytes_def nth_append)
    then show ?thesis
      using fin False l unfolding lzf_backref_def Let_def parts j by simp
  qed
  have "\<not> off div 256 + c * 32 < 32" using c(1) by simp
  then show "lzf_dloop (d @ ref_bytes off len) cap (length d) ?out
      = Some (Inr (take (j + (len + 2)) x))"
    using ctrl br lzf_dloop.simps [of "d @ ref_bytes off len" cap "length d" ?out] by simp
qed (simp add: ref_bytes_def)

end
