(* ===== verification/Lzf_Correct.thy ===== *)
theory Lzf_Correct
  imports Lzf
begin

text \<open>
  The compressor and the decompressor of \<open>src/lzf_c.c\<close> and \<open>src/lzf_d.c\<close> together: what is
  compressed is decompressed to the same bytes, and neither leaves its buffers.
\<close>

subsection \<open>Writing a prefix\<close>

lemma put_byte_end:
  assumes "take (length p) b = p" and "length p < length b"
  shows "\<exists>b'. put_byte b (length p) v = Some b' \<and> length b' = length b
    \<and> take (length p + 1) b' = p @ [word_of_int v]"
  using assms by (simp add: put_byte_def take_Suc_conv_app_nth)

lemma put_byte_inside:
  assumes "take k b = p @ x # q" and "k \<le> length b"
  shows "\<exists>b'. put_byte b (length p) v = Some b' \<and> length b' = length b
    \<and> take k b' = p @ word_of_int v # q"
proof -
  have "length (take k b) = k" using assms(2) by simp
  then have "length p < k" unfolding assms(1) by simp
  moreover have "take k (b[length p := word_of_int v]) = (take k b)[length p := word_of_int v]"
    by (simp add: take_update_swap)
  ultimately show ?thesis using assms by (simp add: put_byte_def)
qed

subsection \<open>The length of a match\<close>

definition agrees :: "byte list \<Rightarrow> nat \<Rightarrow> nat \<Rightarrow> nat \<Rightarrow> bool" where
  "agrees inp r ip n \<longleftrightarrow> (\<forall>i < n. inp ! (r + i) = inp ! (ip + i))"

lemma agrees_Suc: "agrees inp r ip (Suc n) \<longleftrightarrow> agrees inp r ip n \<and> inp ! (r + n) = inp ! (ip + n)"
  by (auto simp: agrees_def less_Suc_eq)

lemma agrees_mono: "agrees inp r ip n \<Longrightarrow> m \<le> n \<Longrightarrow> agrees inp r ip m"
  by (auto simp: agrees_def)

lemma unrolled_spec:
  assumes "agrees inp r ip (len + 1)" and "r < ip" and "ip + len + k < length inp"
  shows "\<exists>res. unrolled k inp r ip len = Some res
    \<and> (case res of Inl n \<Rightarrow> len < n \<and> n \<le> len + k \<and> agrees inp r ip n
        | Inr n \<Rightarrow> n = len + k \<and> agrees inp r ip (n + 1))"
  using assms
proof (induction k arbitrary: len)
  case (Suc k)
  have b: "byte_at inp (r + (len + 1)) = Some (unat (inp ! (r + (len + 1))))"
    "byte_at inp (ip + (len + 1)) = Some (unat (inp ! (ip + (len + 1))))"
    using Suc.prems by (simp_all add: byte_at_Some)
  show ?case
  proof (cases "inp ! (r + (len + 1)) = inp ! (ip + (len + 1))")
    case True
    then have "agrees inp r ip (len + 1 + 1)" using Suc.prems(1) by (simp add: agrees_Suc)
    from Suc.IH [OF this Suc.prems(2)] Suc.prems(3) b True show ?thesis
      by (fastforce split: sum.splits)
  next
    case False
    then show ?thesis using b Suc.prems(1) by (auto simp: word_unat_eq_iff)
  qed
qed simp

lemma match_tail_spec:
  assumes "agrees inp r ip (len + 1)" and "r < ip" and "ip + maxlen \<le> length inp"
  shows "\<exists>n. match_tail inp r ip maxlen len = Some n \<and> len < n \<and> n \<le> max (len + 1) maxlen
    \<and> agrees inp r ip n"
  using assms
proof (induction inp r ip maxlen len rule: match_tail.induct)
  case (1 inp r ip maxlen len)
  note rec = match_tail.simps [of inp r ip maxlen len]
  show ?case
  proof (cases "len + 1 < maxlen")
    case False
    then show ?thesis using rec "1.prems"(1) by auto
  next
    case more: True
    have b: "byte_at inp (r + (len + 1)) = Some (unat (inp ! (r + (len + 1))))"
      "byte_at inp (ip + (len + 1)) = Some (unat (inp ! (ip + (len + 1))))"
      using "1.prems" more by (simp_all add: byte_at_Some)
    show ?thesis
    proof (cases "inp ! (r + (len + 1)) = inp ! (ip + (len + 1))")
      case True
      then have "agrees inp r ip (len + 1 + 1)" using "1.prems"(1) by (simp add: agrees_Suc)
      from "1.IH" [OF more refl b] True this "1.prems"(2,3) obtain n where
        "match_tail inp r ip maxlen (len + 1) = Some n" "len + 1 < n" "n \<le> max (len + 1 + 1) maxlen"
        "agrees inp r ip n" by auto
      moreover from this more have "n \<le> maxlen" by simp
      ultimately show ?thesis using rec more b True by auto
    next
      case False
      then show ?thesis using rec more b "1.prems"(1) by (auto simp: word_unat_eq_iff)
    qed
  qed
qed

lemma match_length_spec:
  assumes "agrees inp r ip 3" and "r < ip" and "ip + 4 < length inp"
    and "maxlen = (if length inp - ip - 2 > MAX_REF then MAX_REF else length inp - ip - 2)"
  shows "\<exists>n. match_length inp r ip maxlen = Some n \<and> 3 \<le> n \<and> n \<le> 264 \<and> ip + n \<le> length inp
    \<and> agrees inp r ip n"
proof -
  have m: "maxlen \<le> 264" "3 \<le> maxlen" "ip + maxlen + 2 \<le> length inp"
    using assms(3,4) by (auto simp: MAX_REF_def)
  have a: "agrees inp r ip (2 + 1)" using assms(1) by simp
  show ?thesis
  proof (cases "maxlen > 16")
    case False
    obtain n where "match_tail inp r ip maxlen 2 = Some n" "2 < n" "n \<le> max (2 + 1) maxlen"
      "agrees inp r ip n" using match_tail_spec [OF a assms(2), of maxlen] m(3) by auto
    then show ?thesis using False m by (simp add: match_length_def)
  next
    case True
    obtain res where U: "unrolled 16 inp r ip 2 = Some res"
      "case res of Inl n \<Rightarrow> 2 < n \<and> n \<le> 2 + 16 \<and> agrees inp r ip n
        | Inr n \<Rightarrow> n = 2 + 16 \<and> agrees inp r ip (n + 1)"
      using unrolled_spec [OF a assms(2), of 16] True m(3) by auto
    show ?thesis
    proof (cases res)
      case (Inl n)
      then show ?thesis using U True m by (simp add: match_length_def)
    next
      case (Inr n)
      then have nn: "n = 2 + 16 \<and> agrees inp r ip (n + 1)" 
        using U(2) unfolding Inr sum.case by blast
      then have "n = 18" by simp
      with conjunct2 [OF nn] have "agrees inp r ip (18 + 1)" by (simp only:)
      then obtain n' where "match_tail inp r ip maxlen 18 = Some n'" "18 < n'"
        "n' \<le> max (18 + 1) maxlen" "agrees inp r ip n'"
        using match_tail_spec [of inp r ip 18 maxlen] assms(2) m(3) by auto
      moreover from this True have "n' \<le> maxlen + 2" "n' \<le> 264"
        using m(1) by (auto simp: max_def split: if_splits)
      ultimately show ?thesis using U Inr True m by (auto simp: match_length_def)
    qed
  qed
qed

subsection \<open>Finding a match\<close>

definition htab_ok :: "(nat \<Rightarrow> int) \<Rightarrow> bool" where
  "htab_ok htab \<longleftrightarrow> (\<forall>i. \<bar>htab i\<bar> < 2 ^ 62)"

lemma htab_ok_upd: "htab_ok htab \<Longrightarrow> p < 2 ^ 62 \<Longrightarrow> htab_ok (htab(i := int p))"
  by (simp add: htab_ok_def)

lemma wrapped_offset:
  fixes x y :: int
  assumes "x mod 2 ^ 64 = y" and "y < 8192" and "x < 2 ^ 63" and "- (2 ^ 63) < x"
  shows "x = y"
proof (cases "0 \<le> x")
  case True
  then show ?thesis using assms(1,3) by simp
next
  case False
  have "x mod 2 ^ 64 = (x + 2 ^ 64) mod 2 ^ 64" by simp
  also have "\<dots> = x + 2 ^ 64" using False assms(4) by (intro mod_pos_pos_trivial) simp_all
  finally show ?thesis using assms by simp
qed

lemma find_match_spec:
  assumes "\<bar>ref\<bar> < 2 ^ 62" and "length inp < 2 ^ 32" and "ip < length inp - 2" and "2 \<le> length inp"
  shows "\<exists>res. find_match inp ref ip = Some res
    \<and> (\<forall>off. res = Some off \<longrightarrow> off < 8192 \<and> off < ip \<and> nat ref = ip - off - 1 \<and> ip + 4 < length inp
         \<and> agrees inp (nat ref) ip 3)"
proof -
  let ?off = "u64 (int ip - ref - 1)"
  show ?thesis
  proof (cases "?off < MAX_OFF \<and> ip + 4 < length inp \<and> ref > 0")
    case False
    then show ?thesis by (auto simp: find_match_def Let_def)
  next
    case True
    define x where "x = int ip - ref - 1"
    have lt: "u64 x < 8192" "ref > 0" "ip + 4 < length inp" using True by (simp_all add: x_def MAX_OFF_def)
    have "x mod 2 ^ 64 = int (u64 x)" by (simp add: u64_def)
    moreover have "int (u64 x) < 8192" using lt(1) by simp
    moreover have "x < 2 ^ 63" "- (2 ^ 63) < x" 
    proof -
      have "\<bar>ref\<bar> < 4611686018427387904" "int ip < 4294967296" using assms(1-3) by simp_all
      then show "x < 2 ^ 63" "- (2 ^ 63) < x" unfolding x_def by simp_all
    qed
    ultimately have "x = int (u64 x)" by (rule wrapped_offset)
    then have off: "ref = int ip - int ?off - 1" unfolding x_def by linarith
    then have r: "nat ref = ip - ?off - 1" "?off < ip" "nat ref + 2 < length inp" using lt by linarith+
    have at: "byte_at inp (nat ref) = Some (unat (inp ! nat ref))" "byte_at inp ip = Some (unat (inp ! ip))"
      "byte_at inp (nat ref + 1) = Some (unat (inp ! (nat ref + 1)))"
      "byte_at inp (ip + 1) = Some (unat (inp ! (ip + 1)))"
      "byte_at inp (nat ref + 2) = Some (unat (inp ! (nat ref + 2)))"
      "byte_at inp (ip + 2) = Some (unat (inp ! (ip + 2)))"
      using r True by (simp_all add: byte_at_Some)
    have ag: "agrees inp (nat ref) ip 3 \<longleftrightarrow> inp ! nat ref = inp ! ip
        \<and> inp ! (nat ref + 1) = inp ! (ip + 1) \<and> inp ! (nat ref + 2) = inp ! (ip + 2)"
      by (auto simp: agrees_def numeral_3_eq_3 less_Suc_eq numeral_2_eq_2)
    have "find_match inp ref ip = Some (if agrees inp (nat ref) ip 3 then Some ?off else None)"
      unfolding find_match_def Let_def if_P [OF True] at ag by (simp add: word_unat_eq_iff)
    then show ?thesis using r(1,2) True unfolding MAX_OFF_def by simp
  qed
qed

subsection \<open>The invariant of the compressor\<close>

text \<open>
  The output is a stream \<open>d\<close> that decodes to the input before the pending literals, a byte that is
  still to be written, and the pending literals.
\<close>

definition lz_inv :: "byte list \<Rightarrow> nat \<Rightarrow> lzf_state \<Rightarrow> bool" where
  "lz_inv inp N s \<longleftrightarrow>
     (\<exists>d x. take (l_op s) (l_out s) = d @ x # drop (l_ip s - l_lit s) (take (l_ip s) inp)
       \<and> l_op s = length d + 1 + l_lit s \<and> decodes (length inp) d (take (l_ip s - l_lit s) inp))
     \<and> l_lit s \<le> l_ip s \<and> l_lit s < 32 \<and> l_ip s \<le> length inp \<and> length (l_out s) = N
     \<and> l_op s \<le> N \<and> htab_ok (l_htab s)"

lemma decodes_run:
  assumes "decodes (length inp) d (take (ip - lit) inp)" and "0 < lit" and "lit \<le> ip" and "lit \<le> 32"
    and "ip \<le> length inp"
  shows "decodes (length inp) (d @ word_of_int (int lit - 1) # drop (ip - lit) (take ip inp)) (take ip inp)"
proof -
  let ?l = "drop (ip - lit) (take ip inp)"
  have l: "length ?l = lit" using assms(3,5) by simp
  then have "decodes (length inp) (d @ word_of_int (int (length ?l) - 1) # ?l) (take (ip - lit) inp @ ?l)"
    using assms by (intro decodes_literal) auto
  moreover have "take (ip - lit) inp @ ?l = take ip inp"
    using append_take_drop_id [of "ip - lit" "take ip inp"] assms(3) by (simp add: min_def)
  ultimately show ?thesis unfolding l by simp
qed

lemma close_run_spec:
  assumes "lz_inv inp N s"
  shows "\<exists>out d. close_run (l_out s) (l_op s) (l_lit s) = Some out \<and> length out = N
    \<and> take (if l_lit s = 0 then l_op s - 1 else l_op s) out = d
    \<and> length d = (if l_lit s = 0 then l_op s - 1 else l_op s)
    \<and> decodes (length inp) d (take (l_ip s) inp)"
proof -
  let ?l = "drop (l_ip s - l_lit s) (take (l_ip s) inp)"
  obtain d x where I: "take (l_op s) (l_out s) = d @ x # ?l" "l_op s = length d + 1 + l_lit s"
    "decodes (length inp) d (take (l_ip s - l_lit s) inp)" "l_lit s \<le> l_ip s" "l_lit s < 32"
    "l_ip s \<le> length inp" "length (l_out s) = N" "l_op s \<le> N"
    using assms by (auto simp: lz_inv_def)
  have ll: "length ?l = l_lit s" using I(4,6) by simp
  obtain out where P: "put_byte (l_out s) (length d) (int (l_lit s) - 1) = Some out" "length out = N"
    "take (l_op s) out = d @ word_of_int (int (l_lit s) - 1) # ?l"
    using put_byte_inside [OF I(1), of "int (l_lit s) - 1"] I(7,8) by auto
  have cr: "close_run (l_out s) (l_op s) (l_lit s) = Some out"
    using P(1) I(2) by (simp add: close_run_def)
  show ?thesis
  proof (cases "l_lit s = 0")
    case True
    then have "take (length d) (take (l_op s) out) = d" using P(3) by simp
    then have "take (l_op s - 1) out = d" using I(2) True by simp
    with cr P(2) I True show ?thesis by auto
  next
    case False
    then have "decodes (length inp) (take (l_op s) out) (take (l_ip s) inp)"
      unfolding P(3) using I by (intro decodes_run) simp_all
    moreover have "length (take (l_op s) out) = l_op s" using P(2) I(8) by simp
    ultimately show ?thesis using cr P(2) False by auto
  qed
qed

text \<open>Where the output would end if the run were closed now.\<close>

definition run_end :: "lzf_state \<Rightarrow> nat" where
  "run_end s = (if l_lit s = 0 then l_op s - 1 else l_op s)"

lemma take_literal_spec:
  assumes "lz_inv inp N s" and "l_ip s < length inp" and "l_op s + 1 < N"
  shows "\<exists>s'. take_literal inp s = Some s' \<and> lz_inv inp N s' \<and> l_ip s' = l_ip s + 1
    \<and> l_op s' \<le> l_op s + 2 \<and> run_end s' \<le> run_end s + (if l_lit s = 0 then 2 else 1)
    \<and> (l_lit s = 0 \<longrightarrow> l_lit s' \<noteq> 0)"
proof -
  let ?l = "drop (l_ip s - l_lit s) (take (l_ip s) inp)"
  obtain d x where I: "take (l_op s) (l_out s) = d @ x # ?l" "l_op s = length d + 1 + l_lit s"
    "decodes (length inp) d (take (l_ip s - l_lit s) inp)" "l_lit s \<le> l_ip s" "l_lit s < 32"
    "length (l_out s) = N" "htab_ok (l_htab s)"
    using assms by (auto simp: lz_inv_def)
  let ?b = "inp ! l_ip s"
  have ll: "length ?l = l_lit s" using I(4) assms(2) by simp
  have lp: "length (d @ x # ?l) = l_op s" using ll I(2) by simp
  obtain out where P: "put_byte (l_out s) (l_op s) (int (unat ?b)) = Some out" "length out = N"
    "take (l_op s + 1) out = (d @ x # ?l) @ [word_of_int (int (unat ?b))]"
    using put_byte_end [of "d @ x # ?l" "l_out s" "int (unat ?b)"] I(1,6) assms(3) unfolding lp by auto
  have l1: "drop (l_ip s - l_lit s) (take (l_ip s + 1) inp) = ?l @ [?b]"
    using assms(2) I(4) by (simp add: take_Suc_conv_app_nth)
  define s1 where "s1 = s\<lparr>l_lit := l_lit s + 1, l_op := l_op s + 1, l_ip := l_ip s + 1, l_out := out\<rparr>"
  have t1: "take (l_op s1) (l_out s1) = d @ x # drop (l_ip s1 - l_lit s1) (take (l_ip s1) inp)"
    using P(3) l1 by (simp add: s1_def)
  have D: "take_literal inp s = (if l_lit s1 = MAX_LIT
      then map_option (\<lambda>out. s1\<lparr>l_lit := 0, l_op := l_op s1 + 1, l_out := out\<rparr>)
        (close_run (l_out s1) (l_op s1) (l_lit s1)) else Some s1)"
    using P(1) byte_at_Some [OF assms(2)] by (simp add: take_literal_def s1_def Let_def)
  show ?thesis
  proof (cases "l_lit s1 = MAX_LIT")
    case False
    have "lz_inv inp N s1" unfolding lz_inv_def
      using t1 I P(2) assms(2,3) False
      by (intro conjI exI [of _ d] exI [of _ x]) (auto simp: s1_def MAX_LIT_def)
    then show ?thesis using D False I(2) by (auto simp: s1_def run_end_def)
  next
    case True
    then have 32: "l_lit s1 = 32" "l_lit s = 31" by (simp_all add: MAX_LIT_def s1_def)
    have op1: "l_op s1 = length d + 33" "l_op s1 \<le> length (l_out s1)" using I(2) 32 P(2) assms(3)
      by (simp_all add: s1_def)
    obtain out' where Q: "put_byte (l_out s1) (length d) 31 = Some out'" "length out' = N"
      "take (l_op s1) out' = d @ word_of_int 31 # drop (l_ip s1 - 32) (take (l_ip s1) inp)"
      using put_byte_inside [OF t1 op1(2), of 31] P(2) 32 by (auto simp: s1_def)
    have cr: "close_run (l_out s1) (l_op s1) (l_lit s1) = Some out'"
      using Q(1) 32 op1 by (simp add: close_run_def)
    define s2 where "s2 = s1\<lparr>l_lit := 0, l_op := l_op s1 + 1, l_out := out'\<rparr>"
    let ?d = "take (l_op s1) out'"
    have "decodes (length inp) (d @ word_of_int (int 32 - 1) # drop (l_ip s1 - 32) (take (l_ip s1) inp))
        (take (l_ip s1) inp)"
      using I 32 assms(2) by (intro decodes_run) (auto simp: s1_def)
    then have dd: "decodes (length inp) ?d (take (l_ip s1) inp)" unfolding Q(3) by simp
    have op2: "l_op s1 < N" using assms(3) by (simp add: s1_def)
    then have t2: "take (l_op s1 + 1) out' = ?d @ [out' ! l_op s1]"
      using Q(2) by (simp add: take_Suc_conv_app_nth)
    have "lz_inv inp N s2" unfolding lz_inv_def
      using t2 dd op2 Q(2) I(7) assms(2)
      by (intro conjI exI [of _ ?d] exI [of _ "out' ! l_op s1"]) (auto simp: s2_def s1_def)
    then show ?thesis using D True cr 32 by (auto simp: s2_def s1_def run_end_def)
  qed
qed

lemma put_ref_spec:
  assumes "take (length d) out = d" and "length d + 3 \<le> length out"
  shows "\<exists>out'. put_ref out (length d) off len = Some (out', length (d @ ref_bytes off len))
    \<and> length out' = length out \<and> take (length (d @ ref_bytes off len)) out' = d @ ref_bytes off len"
proof -
  define a where "a = (if len < 7 then off div 256 + len * 32 else off div 256 + 7 * 32)"
  obtain o1 where 1: "put_byte out (length d) (int a) = Some o1" "length o1 = length out"
    "take (length d + 1) o1 = d @ [word_of_int (int a)]"
    using put_byte_end [OF assms(1), of "int a"] assms(2) by auto
  let ?d1 = "d @ [word_of_int (int a)]"
  show ?thesis
  proof (cases "len < 7")
    case True
    obtain o2 where "put_byte o1 (length ?d1) (int off) = Some o2" "length o2 = length out"
      "take (length ?d1 + 1) o2 = ?d1 @ [word_of_int (int off)]"
      using put_byte_end [of ?d1 o1 "int off"] 1 assms(2) by auto
    then show ?thesis using 1 True by (simp add: put_ref_def ref_bytes_def a_def)
  next
    case False
    obtain o2 where 2: "put_byte o1 (length ?d1) (int (len - 7)) = Some o2" "length o2 = length out"
      "take (length ?d1 + 1) o2 = ?d1 @ [word_of_int (int (len - 7))]"
      using put_byte_end [of ?d1 o1 "int (len - 7)"] 1 assms(2) by auto
    let ?d2 = "?d1 @ [word_of_int (int (len - 7))]"
    obtain o3 where "put_byte o2 (length ?d2) (int off) = Some o3" "length o3 = length out"
      "take (length ?d2 + 1) o3 = ?d2 @ [word_of_int (int off)]"
      using put_byte_end [of ?d2 o2 "int off"] 2 assms(2) by auto
    then show ?thesis using 1 2 False by (simp add: put_ref_def ref_bytes_def a_def numeral_2_eq_2)
  qed
qed

lemma rehash_two_spec:
  assumes "2 \<le> ip" and "ip + 1 < length inp" and "htab_ok htab" and "length inp < 2 ^ 32"
  shows "\<exists>h htab'. rehash_two inp ip htab = Some (h, htab') \<and> htab_ok htab'"
proof -
  have "ip - 2 + 1 < length inp" "ip - 2 + 2 < length inp" "ip - 1 + 2 < length inp" "ip - 2 < length inp"
    using assms(1,2) by auto
  then show ?thesis
    using assms(3,4) by (simp add: rehash_two_def FRST_def NEXT_def byte_at_Some Let_def htab_ok_def)
qed

text \<open>What a step may do to a state that keeps the invariant.\<close>

definition next_ok :: "byte list \<Rightarrow> nat \<Rightarrow> lzf_state \<Rightarrow> lzf_next \<Rightarrow> bool" where
  "next_ok inp N s r \<longleftrightarrow>
     (case r of
        Fail out \<Rightarrow> length out = N
      | Break s' \<Rightarrow> lz_inv inp N s' \<and> length inp \<le> l_ip s' + 2
      | Continue s' \<Rightarrow> lz_inv inp N s' \<and> l_ip s < l_ip s')"

lemma take_match_spec:
  assumes "lz_inv inp N s" and "out_len < N" and "length inp < 2 ^ 32"
    and "off < 8192" and "off < l_ip s" and "r = l_ip s - off - 1" and "l_ip s + 4 < length inp"
    and "agrees inp r (l_ip s) 3"
  shows "\<exists>res. take_match inp out_len off r s = Some res \<and> next_ok inp N s res"
proof -
  let ?ip = "l_ip s" and ?op = "if l_lit s = 0 then l_op s - 1 else l_op s"
  define maxlen where "maxlen = (if length inp - ?ip - 2 > MAX_REF then MAX_REF else length inp - ?ip - 2)"
  obtain out d where C: "close_run (l_out s) (l_op s) (l_lit s) = Some out" "length out = N"
    "take ?op out = d" "length d = ?op" "decodes (length inp) d (take ?ip inp)"
    using close_run_spec [OF assms(1)] by blast
  have ht: "htab_ok (l_htab s)" using assms(1) by (simp add: lz_inv_def)
  show ?thesis
  proof (cases "?op + 3 + 1 \<ge> out_len")
    case True
    then have "take_match inp out_len off r s = Some (Fail out)"
      using C(1) by (simp add: take_match_def Let_def)
    then show ?thesis using C(2) by (simp add: next_ok_def)
  next
    case False
    obtain n where M: "match_length inp r ?ip maxlen = Some n" "3 \<le> n" "n \<le> 264"
      "?ip + n \<le> length inp" "agrees inp r ?ip n"
      using match_length_spec [OF assms(8) _ assms(7) maxlen_def] assms(5,6) by auto
    define len where "len = n - 2"
    have len: "0 < len" "len \<le> 262" "n = len + 2" using M(2,3) by (auto simp: len_def)
    let ?d = "d @ ref_bytes off len"
    have td: "take (length d) out = d" using C(3,4) by simp
    obtain out' where P: "put_ref out (length d) off len = Some (out', length ?d)" "length out' = N"
      "take (length ?d) out' = ?d"
      using put_ref_spec [OF td, of off len] C(2,4) False assms(2) by auto
    have dec: "decodes (length inp) ?d (take (?ip + n) inp)"
      unfolding len(3)
      by (rule decodes_ref) (use C(5) len M(4,5) assms(4-6) in \<open>auto simp: agrees_def\<close>)
    have rl: "length (ref_bytes off len) \<le> 3" by (simp add: ref_bytes_def)
    have room: "length ?d < N" using C(4) rl False assms(2) by simp
    define s1 where "s1 = s\<lparr>l_lit := 0, l_op := length ?d + 1, l_out := out', l_ip := ?ip + n\<rparr>"
    have I1: "lz_inv inp N (s1\<lparr>l_hval := h, l_htab := t\<rparr>)" if "htab_ok t" for h t
      unfolding lz_inv_def
      using P(2,3) dec room M(4) that
      by (intro conjI exI [of _ ?d] exI [of _ "out' ! length ?d"])
        (auto simp: s1_def take_Suc_conv_app_nth)
    have I0: "lz_inv inp N s1" using I1 [OF ht, of "l_hval s"] by (simp add: s1_def)
    have ipn: "?ip + 1 + len + 1 = ?ip + n" using len(3) by simp
    have step: "take_match inp out_len off r s =
      (if int (?ip + n) \<ge> int (length inp) - 2 then Some (Break s1)
       else case rehash_two inp (?ip + n) (l_htab s) of
              None \<Rightarrow> None
            | Some (h, htab) \<Rightarrow> Some (Continue (s1\<lparr>l_hval := h, l_htab := htab\<rparr>)))"
      unfolding take_match_def Let_def maxlen_def [symmetric] C(1) option.case if_not_P [OF False] M(1)
        len_def [symmetric] C(4) [symmetric] P(1) prod.case ipn s1_def
      using False C(4) by (simp split del: if_split cong: if_cong option.case_cong)
    show ?thesis
    proof (cases "int (?ip + n) \<ge> int (length inp) - 2")
      case True
      then show ?thesis using step I0 by (simp add: next_ok_def s1_def)
    next
      case more: False
      obtain h t where "rehash_two inp (?ip + n) (l_htab s) = Some (h, t)" "htab_ok t"
        using rehash_two_spec [of "?ip + n" inp "l_htab s"] M(2) more ht assms(3) by auto
      then show ?thesis using step more I1 M(2) by (simp add: next_ok_def s1_def)
    qed
  qed
qed

lemma lzf_step_spec:
  assumes "lz_inv inp N s" and "out_len < N" and "length inp < 2 ^ 32"
    and "int (l_ip s) < int (length inp) - 2"
  shows "\<exists>res. lzf_step inp out_len s = Some res \<and> next_ok inp N s res"
proof -
  have nx: "NEXT (l_hval s) inp (l_ip s) = Some (l_hval s * 256 mod 2 ^ 32 + unat (inp ! (l_ip s + 2)))"
    using assms(4) by (simp add: NEXT_def byte_at_Some)
  define h where "h = l_hval s * 256 mod 2 ^ 32 + unat (inp ! (l_ip s + 2))"
  define ref where "ref = l_htab s (IDX h)"
  define s1 where "s1 = s\<lparr>l_hval := h, l_htab := (l_htab s)(IDX h := int (l_ip s))\<rparr>"
  have ht: "htab_ok (l_htab s)" using assms(1) by (simp add: lz_inv_def)
  have "htab_ok (l_htab s1)" using htab_ok_upd [OF ht] assms(3,4) by (simp add: s1_def)
  then have I: "lz_inv inp N s1" using assms(1) by (simp add: lz_inv_def s1_def)
  have same: "l_ip s1 = l_ip s" "l_op s1 = l_op s" "l_out s1 = l_out s" by (simp_all add: s1_def)
  have "\<bar>ref\<bar> < 2 ^ 62" using ht by (simp add: htab_ok_def ref_def)
  then obtain res where F: "find_match inp ref (l_ip s) = Some res"
    "\<forall>off. res = Some off \<longrightarrow> off < 8192 \<and> off < l_ip s \<and> nat ref = l_ip s - off - 1
      \<and> l_ip s + 4 < length inp \<and> agrees inp (nat ref) (l_ip s) 3"
  proof -
    have "l_ip s < length inp - 2" "2 \<le> length inp" using assms(4) by linarith+
    then show thesis using that find_match_spec [OF \<open>\<bar>ref\<bar> < 2 ^ 62\<close> assms(3)] by blast
  qed
  have D: "lzf_step inp out_len s = (case res of
      Some off \<Rightarrow> take_match inp out_len off (nat ref) s1
    | None \<Rightarrow> if l_op s \<ge> out_len then Some (Fail (l_out s)) else map_option Continue (take_literal inp s1))"
    unfolding lzf_step_def nx [folded h_def] option.case Let_def ref_def [symmetric] s1_def [symmetric]
      same F(1) by (cases res) simp_all
  have mono: "next_ok inp N s1 r = next_ok inp N s r" for r
    using same by (cases r) (simp_all add: next_ok_def)
  show ?thesis
  proof (cases res)
    case (Some off)
    with F(2) take_match_spec [OF I assms(2,3), of off "nat ref"] D same mono show ?thesis by auto
  next
    case None
    show ?thesis
    proof (cases "l_op s \<ge> out_len")
      case True
      then show ?thesis using D None assms(1) by (simp add: next_ok_def lz_inv_def)
    next
      case False
      then have "l_op s1 + 1 < N" "l_ip s1 < length inp" using assms(2,4) same by auto
      from take_literal_spec [OF I this(2,1)] False D None same show ?thesis
        by (auto simp: next_ok_def)
    qed
  qed
qed

lemma lzf_loop_spec:
  assumes "lz_inv inp N s" and "out_len < N" and "length inp < 2 ^ 32"
  shows "\<exists>r. lzf_loop inp out_len s = Some r
    \<and> (case r of Inl out \<Rightarrow> length out = N | Inr s' \<Rightarrow> lz_inv inp N s' \<and> length inp \<le> l_ip s' + 2)"
  using assms(1)
proof (induction "length inp - l_ip s" arbitrary: s rule: less_induct)
  case less
  note rec = lzf_loop.simps [of inp out_len s]
  show ?case
  proof (cases "int (l_ip s) < int (length inp) - 2")
    case False
    then show ?thesis using rec less.prems by simp
  next
    case True
    obtain res where S: "lzf_step inp out_len s = Some res" "next_ok inp N s res"
      using lzf_step_spec [OF less.prems assms(2,3) True] by blast
    show ?thesis
    proof (cases res)
      case (Continue s')
      then have I: "lz_inv inp N s'" "l_ip s < l_ip s'" using S(2) by (simp_all add: next_ok_def)
      then have "length inp - l_ip s' < length inp - l_ip s" using True by simp
      from less.hyps [OF this I(1)] show ?thesis using rec True S(1) Continue by simp
    qed (use rec True S in \<open>simp_all add: next_ok_def\<close>)
  qed
qed

lemma lzf_rest_spec:
  assumes "lz_inv inp N s" and "length inp \<le> l_ip s + k" and "l_op s + 2 * k \<le> N" and "k \<le> 2"
  shows "\<exists>s'. lzf_rest inp s = Some s' \<and> lz_inv inp N s' \<and> l_ip s' = length inp
    \<and> run_end s' \<le> run_end s + k + (if l_lit s = 0 \<or> k = 2 then 1 else 0)"
  using assms
proof (induction k arbitrary: s)
  case 0
  then have "l_ip s = length inp" by (simp add: lz_inv_def)
  then show ?case using lzf_rest.simps [of inp s] 0 by simp
next
  case (Suc k)
  note rec = lzf_rest.simps [of inp s]
  show ?case
  proof (cases "l_ip s < length inp")
    case False
    then have "l_ip s = length inp" using Suc.prems(1) by (simp add: lz_inv_def)
    then show ?thesis using rec Suc.prems by simp
  next
    case True
    obtain s1 where T: "take_literal inp s = Some s1" "lz_inv inp N s1" "l_ip s1 = l_ip s + 1"
      "l_op s1 \<le> l_op s + 2" "run_end s1 \<le> run_end s + (if l_lit s = 0 then 2 else 1)"
      "l_lit s = 0 \<longrightarrow> l_lit s1 \<noteq> 0"
      using take_literal_spec [OF Suc.prems(1) True] Suc.prems(3) by auto
    have "length inp \<le> l_ip s1 + k" "l_op s1 + 2 * k \<le> N" "k \<le> 2"
      using T(3,4) Suc.prems(2-4) by simp_all
    from Suc.IH [OF T(2) this] obtain s' where R: "lzf_rest inp s1 = Some s'" "lz_inv inp N s'"
      "l_ip s' = length inp" "run_end s' \<le> run_end s1 + k + (if l_lit s1 = 0 \<or> k = 2 then 1 else 0)"
      by blast
    have "k = 0 \<Longrightarrow> s' = s1" using R(1) T(3) True Suc.prems(2) lzf_rest.simps [of inp s1] by simp
    then have "run_end s' \<le> run_end s + Suc k + (if l_lit s = 0 \<or> Suc k = 2 then 1 else 0)"
      using R(4) T(5,6) Suc.prems(4) by (cases "k = 0") (auto split: if_splits)
    then show ?thesis using rec True T(1) R by simp
  qed
qed

subsection \<open>Properties\<close>

lemma lz_inv_start:
  assumes "htab_ok htab" and "0 < length out"
  shows "lz_inv inp (length out)
    \<lparr>l_ip = 0, l_op = 1, l_lit = 0, l_hval = h, l_htab = htab, l_out = out\<rparr>"
proof -
  have "take 1 out = [out ! 0]" using assms(2) by (cases out) auto
  then show ?thesis using assms by (simp add: lz_inv_def decodes_def Suc_leI)
qed

lemma FRST_start:
  assumes "2 \<le> length inp"
  shows "FRST inp 0 = Some (unat (inp ! 0) * 256 + unat (inp ! 1))"
proof -
  have "0 < length inp" "1 < length inp" using assms by linarith+
  then have "byte_at inp 0 = Some (unat (inp ! 0))" "byte_at inp (0 + 1) = Some (unat (inp ! 1))"
    using byte_at_Some [of 0 inp] byte_at_Some [of 1 inp] by (simp_all del: length_greater_0_conv)
  then show ?thesis by (simp add: FRST_def)
qed

text \<open>After the main loop: the last bytes go out as literals and the open run is closed.\<close>

lemma lzf_finish:
  assumes "lz_inv inp (length out) s" and "length inp \<le> l_ip s + 2" and "l_op s + 3 \<le> out_len"
    and "out_len < length out" and "inp \<noteq> []"
  shows "\<exists>s' out'. lzf_rest inp s = Some s' \<and> close_run (l_out s') (l_op s') (l_lit s') = Some out'
    \<and> length out' = length out \<and> run_end s' \<le> out_len
    \<and> lzf_decompress (take (run_end s') out') (length inp) = Some (Inr inp)"
proof -
  have "l_op s + 2 * 2 \<le> length out" using assms(3,4) by simp
  then obtain s' where R: "lzf_rest inp s = Some s'" "lz_inv inp (length out) s'" "l_ip s' = length inp"
    "run_end s' \<le> run_end s + 3"
    using lzf_rest_spec [OF assms(1,2)] by auto
  have "run_end s \<le> l_op s" by (simp add: run_end_def)
  then have bound: "run_end s' \<le> out_len" using R(4) assms(3) by simp
  obtain out' d where C: "close_run (l_out s') (l_op s') (l_lit s') = Some out'"
    "length out' = length out" "take (run_end s') out' = d" "decodes (length inp) d inp"
    using close_run_spec [OF R(2)] unfolding R(3) run_end_def by auto
  have "d \<noteq> []" using C(4) assms(5) by (auto simp: decodes_def)
  then have "lzf_decompress d (length inp) = Some (Inr inp)"
    using C(4) by (simp add: decodes_def lzf_decompress_def)
  then show ?thesis using C(1-3) R(1) bound by blast
qed

text \<open>
  C6. Round trip of the compressor, whatever the hash table, which the code never initialises, holds
  at the start (pointers within 2 to the 62 bytes of the input). The output buffer must be one byte
  longer than the length the code is given. Then no access leaves a buffer, the
  result is at most the given length, and when it is not 0 (the failure to compress), the
  decompressor returns the input from the bytes written.
\<close>

theorem lzf_roundtrip:
  assumes "htab_ok htab" and "2 \<le> length inp" and "length inp < 2 ^ 32" and "out_len < length out"
  shows "\<exists>n out'. lzf_compress htab inp out out_len = Some (n, out') \<and> length out' = length out
    \<and> n \<le> out_len \<and> (0 < n \<longrightarrow> lzf_decompress (take n out') (length inp) = Some (Inr inp))"
proof (cases "out_len = 0")
  case True
  then show ?thesis using assms(2) by (simp add: lzf_compress_def)
next
  case False
  define h where "h = unat (inp ! 0) * 256 + unat (inp ! 1)"
  let ?s = "\<lparr>l_ip = 0, l_op = 1, l_lit = 0, l_hval = h, l_htab = htab, l_out = out\<rparr>"
  have f: "FRST inp 0 = Some h" unfolding h_def by (rule FRST_start [OF assms(2)])
  have "0 < length out" using assms(4) by linarith
  then have "lz_inv inp (length out) ?s" by (rule lz_inv_start [OF assms(1)])
  then obtain r where L: "lzf_loop inp out_len ?s = Some r"
    "case r of Inl out' \<Rightarrow> length out' = length out
      | Inr s \<Rightarrow> lz_inv inp (length out) s \<and> length inp \<le> l_ip s + 2"
    using lzf_loop_spec [OF _ assms(4,3)] by blast
  have start: "length inp \<noteq> 0 \<and> out_len \<noteq> 0" using assms(2) False by auto
  show ?thesis
  proof (cases r)
    case (Inl out')
    then show ?thesis using L f start by (simp add: lzf_compress_def)
  next
    case (Inr s)
    then have I: "lz_inv inp (length out) s" "length inp \<le> l_ip s + 2" using L(2) by simp_all
    show ?thesis
    proof (cases "l_op s + 3 > out_len")
      case True
      then show ?thesis using L(1) Inr f start I(1) by (auto simp: lzf_compress_def lz_inv_def)
    next
      case F: False
      have "l_op s + 3 \<le> out_len" "inp \<noteq> []" using F start by simp_all
      from lzf_finish [OF I this(1) assms(4) this(2)] obtain s' out' where
        R: "lzf_rest inp s = Some s'" "close_run (l_out s') (l_op s') (l_lit s') = Some out'"
        "length out' = length out" "run_end s' \<le> out_len"
        "lzf_decompress (take (run_end s') out') (length inp) = Some (Inr inp)" by blast
      have "lzf_compress htab inp out out_len = Some (run_end s', out')"
        using L(1) Inr f start F R(1,2) by (simp add: lzf_compress_def run_end_def)
      then show ?thesis using R(3-5) by auto
    qed
  qed
qed

theorem lzf_roundtrip_witness:
  "\<exists>n out'. lzf_compress (\<lambda>_. 3) (replicate 40 7) (replicate 37 0) 36 = Some (n, out') \<and> n \<le> 36
     \<and> (0 < n \<longrightarrow> lzf_decompress (take n out') 40 = Some (Inr (replicate 40 7)))"
  using lzf_roundtrip [of "\<lambda>_. 3" "replicate 40 7" 36 "replicate 37 0"] by (auto simp: htab_ok_def)

subsection \<open>The decompressor on untrusted input\<close>

lemma back_copy_total:
  "ref < length out \<Longrightarrow> \<exists>out'. back_copy n ref out = Some out' \<and> length out' = length out + n"
proof (induction n arbitrary: ref out)
  case 0
  then show ?case by simp
next
  case (Suc n)
  then have "ref + 1 < length (out @ [out ! ref])" by simp
  from Suc.IH [OF this] Suc.prems show ?case by simp
qed

lemma backref_finish_total:
  assumes "ip < length inp" and "ref < int (length out)"
  shows "\<exists>r. backref_finish inp out_len ref out len ip = Some r
    \<and> (case r of Inl _ \<Rightarrow> True | Inr (ip', out') \<Rightarrow> length out' \<le> out_len)"
proof (cases "length out + len + 2 > out_len \<or> ref - int (unat (inp ! ip)) < 0")
  case True
  then show ?thesis using assms(1) by (auto simp: backref_finish_def byte_at_def)
next
  case False
  then have "nat (ref - int (unat (inp ! ip))) < length out" using assms(2) by linarith
  from back_copy_total [OF this, of "len + 2"] obtain out' where
    "back_copy (len + 2) (nat (ref - int (unat (inp ! ip)))) out = Some out'"
    "length out' = length out + (len + 2)" by blast
  then show ?thesis using False assms(1)
    by (simp add: backref_finish_def byte_at_def del: back_copy.simps of_nat_unat)
qed

lemma lzf_backref_total:
  "\<exists>r. lzf_backref inp out_len ctrl ip out = Some r
    \<and> (case r of Inl _ \<Rightarrow> True | Inr (ip', out') \<Rightarrow> length out' \<le> out_len)"
proof -
  have "int (length out) - int ((ctrl mod 32) * 256) - 1 < int (length out)" by simp
  note fin = backref_finish_total [OF _ this]
  show ?thesis
    using fin [of ip inp out_len "ctrl div 32"]
      fin [of "ip + 1" inp out_len "ctrl div 32 + unat (inp ! ip)"]
    by (cases "ip \<ge> length inp"; cases "ip + 1 \<ge> length inp"; cases "ctrl div 32 = 7")
      (auto simp: lzf_backref_def Let_def byte_at_def)
qed

lemma lzf_dloop_total:
  "ip < length inp \<Longrightarrow> length out \<le> out_len \<Longrightarrow>
    \<exists>r. lzf_dloop inp out_len ip out = Some r
      \<and> (case r of Inl _ \<Rightarrow> True | Inr out' \<Rightarrow> length out' \<le> out_len)"
proof (induction "length inp - ip" arbitrary: ip out rule: less_induct)
  case less
  define c where "c = unat (inp ! ip)"
  have byte: "byte_at inp ip = Some c" using less.prems(1) by (simp add: byte_at_def c_def)
  obtain r where B: "lzf_backref inp out_len c (ip + 1) out = Some r"
    "case r of Inl _ \<Rightarrow> True | Inr (ip', out') \<Rightarrow> length out' \<le> out_len"
    using lzf_backref_total by blast
  show ?case
  proof (cases "c < 32")
    case True
    show ?thesis
    proof (cases "length out + (c + 1) > out_len \<or> ip + 1 + (c + 1) > length inp")
      case F: False
      define ip' out' where "ip' = ip + 1 + (c + 1)" and "out' = out @ take (c + 1) (drop (ip + 1) inp)"
      have fits: "length out' \<le> out_len" using F by (auto simp: out'_def)
      have "lzf_dloop inp out_len ip out
        = (if ip' < length inp then lzf_dloop inp out_len ip' out' else Some (Inr out'))"
        using F True byte by (subst lzf_dloop.simps) (simp add: Let_def ip'_def out'_def)
      moreover have "length inp - ip' < length inp - ip" using less.prems(1) by (simp add: ip'_def)
      ultimately show ?thesis using fits less.hyps [of ip' out'] by auto
    qed (use True byte in \<open>subst lzf_dloop.simps, auto simp: Let_def\<close>)
  next
    case False
    show ?thesis
    proof (cases r)
      case (Inl e)
      then show ?thesis using B False byte by (subst lzf_dloop.simps) simp
    next
      case (Inr q)
      obtain ip' out' where q: "q = (ip', out')" by (cases q)
      have "ip + 1 < ip'" using lzf_backref_advance B(1) Inr q by blast
      then show ?thesis
        using less.hyps [of ip' out'] less.prems B False byte Inr q
        by (subst lzf_dloop.simps) auto
    qed
  qed
qed

text \<open>
  C23. The decompressor is safe on any non-empty input, whether a compressor wrote it or not: it
  ends, no access leaves the input, no back reference reads before the output, and what it writes
  fits the length it is given. On an empty input its first read is already out of bounds.
\<close>

theorem lzf_decompress_safe:
  "(inp \<noteq> [] \<longrightarrow> (\<exists>r. lzf_decompress inp out_len = Some r
      \<and> (case r of Inl _ \<Rightarrow> True | Inr out \<Rightarrow> length out \<le> out_len)))
    \<and> lzf_decompress [] out_len = None"
  using lzf_dloop_total [of 0 inp "[]" out_len]
  by (auto simp: lzf_decompress_def lzf_dloop.simps byte_at_def)

theorem lzf_decompress_safe_witness:
  "\<exists>r. lzf_decompress [224, 255, 255] 10 = Some r
    \<and> (case r of Inl _ \<Rightarrow> True | Inr out \<Rightarrow> length out \<le> 10)"
  using lzf_decompress_safe [of "[224, 255, 255]" 10] by simp

end
