(* ===== verification/Rdb.thy ===== *)
theory Rdb
  imports Rio String_Object Lzf_Correct
begin

text \<open>
  The encodings of the dump file (\<open>src/rdb.c\<close>, \<open>src/rdb.h\<close>) for lengths, types, times and string
  objects, on a \<open>rio\<close>. The savers take NULL for the \<open>rio\<close> when only the size is wanted (\<open>None\<close> here)
  and return the number of bytes, or -1 when a write fails. A result \<open>None\<close> is a panic of the server
  or an access outside a buffer.
\<close>

definition REDIS_RDB_6BITLEN :: nat where "REDIS_RDB_6BITLEN = 0"
definition REDIS_RDB_14BITLEN :: nat where "REDIS_RDB_14BITLEN = 1"
definition REDIS_RDB_32BITLEN :: nat where "REDIS_RDB_32BITLEN = 2"
definition REDIS_RDB_ENCVAL :: nat where "REDIS_RDB_ENCVAL = 3"
definition REDIS_RDB_LENERR :: nat where "REDIS_RDB_LENERR = 2 ^ 32 - 1"
definition REDIS_RDB_ENC_INT8 :: nat where "REDIS_RDB_ENC_INT8 = 0"
definition REDIS_RDB_ENC_INT16 :: nat where "REDIS_RDB_ENC_INT16 = 1"
definition REDIS_RDB_ENC_INT32 :: nat where "REDIS_RDB_ENC_INT32 = 2"
definition REDIS_RDB_ENC_LZF :: nat where "REDIS_RDB_ENC_LZF = 3"

lemmas rdb_constants =
  REDIS_RDB_6BITLEN_def REDIS_RDB_14BITLEN_def REDIS_RDB_32BITLEN_def REDIS_RDB_ENCVAL_def
  REDIS_RDB_LENERR_def REDIS_RDB_ENC_INT8_def REDIS_RDB_ENC_INT16_def REDIS_RDB_ENC_INT32_def
  REDIS_RDB_ENC_LZF_def

text \<open>What the allocator and the stack leave in memory, and the configuration.\<close>

record rdb_env =
  e_fresh :: "nat \<Rightarrow> byte"
  e_htab :: "nat \<Rightarrow> int"
  rdb_compression :: bool

type_synonym saved = "(rio option \<times> int) option"

definition rdbWriteRaw :: "rdb_env \<Rightarrow> byte list \<Rightarrow> rio option \<Rightarrow> saved" where
  "rdbWriteRaw env p rdb =
     (case rdb of
        None \<Rightarrow> Some (None, s32 (int (length p)))
      | Some r \<Rightarrow>
          do { (r, ok) \<leftarrow> rioWrite (e_fresh env) r p;
               Some (Some r, if ok then s32 (int (length p)) else - 1) })"

text \<open>\<open>if ((n = save (rdb)) == -1) return -1; nwritten += n;\<close> and the same for the rest.\<close>

definition andthen :: "saved \<Rightarrow> (rio option \<Rightarrow> saved) \<Rightarrow> saved" where
  "andthen x rest =
     do { (rdb, n) \<leftarrow> x;
          if n = - 1 then Some (rdb, - 1)
          else do { (rdb, m) \<leftarrow> rest rdb; Some (rdb, if m = - 1 then - 1 else n + m) } }"

subsection \<open>Types and times\<close>

definition rdbSaveType :: "rdb_env \<Rightarrow> byte \<Rightarrow> rio option \<Rightarrow> saved" where
  "rdbSaveType env t rdb = rdbWriteRaw env [t] rdb"

definition rdbLoadType :: "rio \<Rightarrow> (rio \<times> int) option" where
  "rdbLoadType r =
     do { (r, x) \<leftarrow> rioRead r 1;
          Some (r, case x of None \<Rightarrow> - 1 | Some t \<Rightarrow> int (unat (hd t))) }"

definition rdbLoadTime :: "rio \<Rightarrow> (rio \<times> int) option" where
  "rdbLoadTime r =
     do { (r, x) \<leftarrow> rioRead r 4; Some (r, case x of None \<Rightarrow> - 1 | Some t \<Rightarrow> le_sint t) }"

definition rdbSaveMillisecondTime :: "rdb_env \<Rightarrow> int \<Rightarrow> rio option \<Rightarrow> saved" where
  "rdbSaveMillisecondTime env t rdb = rdbWriteRaw env (le_bytes 8 t) rdb"

definition rdbLoadMillisecondTime :: "rio \<Rightarrow> (rio \<times> int) option" where
  "rdbLoadMillisecondTime r =
     do { (r, x) \<leftarrow> rioRead r 8; Some (r, case x of None \<Rightarrow> - 1 | Some t \<Rightarrow> le_sint t) }"

subsection \<open>Lengths\<close>

text \<open>\<open>len\<close> is a \<open>uint32_t\<close>.\<close>

definition rdbSaveLen :: "rdb_env \<Rightarrow> nat \<Rightarrow> rio option \<Rightarrow> saved" where
  "rdbSaveLen env len rdb =
     (if len < 2 ^ 6 then
        rdbWriteRaw env [of_nat (len mod 256) OR of_nat (REDIS_RDB_6BITLEN * 2 ^ 6)] rdb
      else if len < 2 ^ 14 then
        rdbWriteRaw env [of_nat (len div 2 ^ 8 mod 256) OR of_nat (REDIS_RDB_14BITLEN * 2 ^ 6),
          of_nat (len mod 256)] rdb
      else
        andthen (rdbWriteRaw env [of_nat (REDIS_RDB_32BITLEN * 2 ^ 6)] rdb)
          (rdbWriteRaw env (be_bytes 4 (int len))))"

text \<open>The length and whether it is the number of an encoding.\<close>

definition rdbLoadLen :: "rio \<Rightarrow> (rio \<times> nat \<times> bool) option" where
  "rdbLoadLen r =
     do { (r, x) \<leftarrow> rioRead r 1;
          case x of None \<Rightarrow> Some (r, REDIS_RDB_LENERR, False)
          | Some b \<Rightarrow>
              let b0 = hd b; type = unat (drop_bit 6 (b0 AND 0xC0)); low = unat (b0 AND 0x3F)
              in if type = REDIS_RDB_ENCVAL then Some (r, low, True)
                 else if type = REDIS_RDB_6BITLEN then Some (r, low, False)
                 else if type = REDIS_RDB_14BITLEN then
                   do { (r, x) \<leftarrow> rioRead r 1;
                        case x of None \<Rightarrow> Some (r, REDIS_RDB_LENERR, False)
                        | Some b1 \<Rightarrow> Some (r, low * 2 ^ 8 + unat (hd b1), False) }
                 else
                   do { (r, x) \<leftarrow> rioRead r 4;
                        case x of None \<Rightarrow> Some (r, REDIS_RDB_LENERR, False)
                        | Some n \<Rightarrow> Some (r, nat (be_uint n), False) } }"

subsection \<open>Integers as strings\<close>

text \<open>The bytes written to \<open>enc\<close>, none if the value has no such encoding.\<close>

definition enc_head :: "nat \<Rightarrow> byte" where
  "enc_head enctype = of_nat (REDIS_RDB_ENCVAL * 2 ^ 6) OR of_nat enctype"

definition rdbEncodeInteger :: "int \<Rightarrow> byte list" where
  "rdbEncodeInteger value =
     (if - (2 ^ 7) \<le> value \<and> value \<le> 2 ^ 7 - 1 then
        [enc_head REDIS_RDB_ENC_INT8, word_of_int (value mod 256)]
      else if - (2 ^ 15) \<le> value \<and> value \<le> 2 ^ 15 - 1 then
        [enc_head REDIS_RDB_ENC_INT16, word_of_int (value mod 256), word_of_int (value div 2 ^ 8 mod 256)]
      else if - (2 ^ 31) \<le> value \<and> value \<le> 2 ^ 31 - 1 then
        [enc_head REDIS_RDB_ENC_INT32, word_of_int (value mod 256), word_of_int (value div 2 ^ 8 mod 256),
          word_of_int (value div 2 ^ 16 mod 256), word_of_int (value div 2 ^ 24 mod 256)]
      else [])"

text \<open>The bytes of \<open>enc\<close> are put together little end first, and the result is read as signed.\<close>

definition rdbLoadIntegerObject ::
  "rdb_env \<Rightarrow> obj_server \<Rightarrow> rio \<Rightarrow> nat \<Rightarrow> bool \<Rightarrow> (obj_server \<times> rio \<times> robj option) option"
where
  "rdbLoadIntegerObject env srv r enctype encode =
     do { n \<leftarrow> (if enctype = REDIS_RDB_ENC_INT8 then Some 1
                else if enctype = REDIS_RDB_ENC_INT16 then Some 2
                else if enctype = REDIS_RDB_ENC_INT32 then Some 4 else None);
          (r, x) \<leftarrow> rioRead r n;
          case x of None \<Rightarrow> Some (srv, r, None)
          | Some enc \<Rightarrow>
              if encode then
                let (srv, ob) = createStringObjectFromLongLong srv (le_sint enc) in Some (srv, r, Some ob)
              else do { s \<leftarrow> sdsfromlonglong (le_sint enc) (e_fresh env);
                        Some (srv, r, Some (createObject (Sds s))) } }"

definition rdbTryIntegerEncoding :: "byte list \<Rightarrow> nat \<Rightarrow> byte list option" where
  "rdbTryIntegerEncoding s len =
     do { (value, end, erange) \<leftarrow> strtoll s;
          c \<leftarrow> read_bytes s end 1;
          if hd c \<noteq> 0 then Some []
          else do { let buf = snd (ll2string 32 value);
                    n \<leftarrow> strlen buf;
                    if n \<noteq> len then Some []
                    else do { x \<leftarrow> read_bytes buf 0 len; y \<leftarrow> read_bytes s 0 len;
                              Some (if memcmp x y \<noteq> 0 then [] else rdbEncodeInteger value) } } }"

subsection \<open>Compressed strings\<close>

text \<open>\<open>Some None\<close> in the first component: the compressor gave up, nothing is written.\<close>

definition rdbSaveLzfStringObject :: "rdb_env \<Rightarrow> byte list \<Rightarrow> nat \<Rightarrow> rio option \<Rightarrow> saved" where
  "rdbSaveLzfStringObject env s len rdb =
     (if len \<le> 4 then Some (rdb, 0)
      else do { x \<leftarrow> read_bytes s 0 len;
                let outlen = len - 4;
                (comprlen, out) \<leftarrow> lzf_compress (e_htab env) x (map (e_fresh env) [0..<outlen + 1]) outlen;
                if comprlen = 0 then Some (rdb, 0)
                else andthen (rdbWriteRaw env [enc_head REDIS_RDB_ENC_LZF] rdb)
                  (\<lambda>rdb. andthen (rdbSaveLen env comprlen rdb)
                  (\<lambda>rdb. andthen (rdbSaveLen env len rdb)
                  (rdbWriteRaw env (take comprlen out)))) })"

definition rdbLoadLzfStringObject :: "rdb_env \<Rightarrow> rio \<Rightarrow> (rio \<times> robj option) option" where
  "rdbLoadLzfStringObject env r =
     do { (r, clen, _) \<leftarrow> rdbLoadLen r;
          if clen = REDIS_RDB_LENERR then Some (r, None)
          else do { (r, len, _) \<leftarrow> rdbLoadLen r;
                    if len = REDIS_RDB_LENERR then Some (r, None)
                    else do { val \<leftarrow> sdsnewlen None len (e_fresh env);
                              (r, x) \<leftarrow> rioRead r clen;
                              case x of None \<Rightarrow> Some (r, None)
                              | Some c \<Rightarrow>
                                  do { d \<leftarrow> lzf_decompress c len;
                                       case d of Inl _ \<Rightarrow> Some (r, None)
                                       | Inr out \<Rightarrow>
                                           if out = [] then Some (r, None)
                                           else do { buf \<leftarrow> write_bytes (s_buf val) 0 out;
                                                     Some (r, Some (createObject (Sds (val\<lparr>s_buf := buf\<rparr>)))) } } } } }"

subsection \<open>String objects\<close>

definition rdbSaveRawString :: "rdb_env \<Rightarrow> byte list \<Rightarrow> nat \<Rightarrow> rio option \<Rightarrow> saved" where
  "rdbSaveRawString env s len rdb =
     do { enc \<leftarrow> (if len \<le> 11 then rdbTryIntegerEncoding s len else Some []);
          if enc \<noteq> [] then
            do { (rdb, n) \<leftarrow> rdbWriteRaw env enc rdb; Some (rdb, if n = - 1 then - 1 else int (length enc)) }
          else do { (rdb, n) \<leftarrow> (if rdb_compression env \<and> len > 20
                                 then rdbSaveLzfStringObject env s len rdb else Some (rdb, 0));
                    if n = - 1 then Some (rdb, - 1)
                    else if n > 0 then Some (rdb, n)
                    else andthen (rdbSaveLen env len rdb)
                      (\<lambda>rdb. if len > 0
                             then do { x \<leftarrow> read_bytes s 0 len; rdbWriteRaw env x rdb }
                             else Some (rdb, 0)) } }"

definition rdbSaveLongLongAsStringObject :: "rdb_env \<Rightarrow> int \<Rightarrow> rio option \<Rightarrow> saved" where
  "rdbSaveLongLongAsStringObject env value rdb =
     (let enc = rdbEncodeInteger value
      in if enc \<noteq> [] then rdbWriteRaw env enc rdb
         else let (enclen, buf) = ll2string 32 value
              in do { check (enclen < 32);
                      andthen (rdbSaveLen env enclen rdb)
                        (\<lambda>rdb. do { x \<leftarrow> read_bytes buf 0 enclen; rdbWriteRaw env x rdb }) })"

definition rdbSaveStringObject :: "rdb_env \<Rightarrow> robj \<Rightarrow> rio option \<Rightarrow> saved" where
  "rdbSaveStringObject env ob rdb =
     (if encoding ob = REDIS_ENCODING_INT
      then do { v \<leftarrow> long_of ob; rdbSaveLongLongAsStringObject env v rdb }
      else do { s \<leftarrow> sds_of ob; rdbSaveRawString env (s_buf s) (sdslen s) rdb })"

definition rdbGenericLoadStringObject ::
  "rdb_env \<Rightarrow> obj_server \<Rightarrow> rio \<Rightarrow> bool \<Rightarrow> (obj_server \<times> rio \<times> robj option) option"
where
  "rdbGenericLoadStringObject env srv r encode =
     do { (r, len, isencoded) \<leftarrow> rdbLoadLen r;
          if isencoded then
            if len = REDIS_RDB_ENC_INT8 \<or> len = REDIS_RDB_ENC_INT16 \<or> len = REDIS_RDB_ENC_INT32
            then rdbLoadIntegerObject env srv r len encode
            else if len = REDIS_RDB_ENC_LZF
            then do { (r, ob) \<leftarrow> rdbLoadLzfStringObject env r; Some (srv, r, ob) }
            else None
          else if len = REDIS_RDB_LENERR then Some (srv, r, None)
          else do { val \<leftarrow> sdsnewlen None len (e_fresh env);
                    (r, x) \<leftarrow> (if len \<noteq> 0 then rioRead r len else Some (r, Some []));
                    case x of None \<Rightarrow> Some (srv, r, None)
                    | Some t \<Rightarrow>
                        do { buf \<leftarrow> write_bytes (s_buf val) 0 t;
                             Some (srv, r, Some (createObject (Sds (val\<lparr>s_buf := buf\<rparr>)))) } } }"

definition rdbLoadStringObject ::
  "rdb_env \<Rightarrow> obj_server \<Rightarrow> rio \<Rightarrow> (obj_server \<times> rio \<times> robj option) option"
where
  "rdbLoadStringObject env srv r = rdbGenericLoadStringObject env srv r False"

definition rdbLoadEncodedStringObject ::
  "rdb_env \<Rightarrow> obj_server \<Rightarrow> rio \<Rightarrow> (obj_server \<times> rio \<times> robj option) option"
where
  "rdbLoadEncodedStringObject env srv r = rdbGenericLoadStringObject env srv r True"

end
