(* ===== verification/Rdb_Correct.thy ===== *)
theory Rdb_Correct
  imports Rdb
begin

text \<open>
  Saving and loading strings and lengths of the dump file are inverse to each other. The first part
  says what a saver does in terms of the bytes it writes: how many it reports, where they go, and that
  it fails when the medium is full; the second what a loader reads off the front of a stream.
\<close>

subsection \<open>What a saver writes\<close>

definition rdb_writes :: "(rio option \<Rightarrow> saved) \<Rightarrow> byte list \<Rightarrow> bool" where
  "rdb_writes f x \<longleftrightarrow>
     f None = Some (None, int (length x))
     \<and> (\<forall>w t k. rio_sink w t k \<and> length x \<le> k \<longrightarrow>
          (\<exists>w'. f (Some w) = Some (Some w', int (length x)) \<and> rio_sink w' (t @ x) (k - length x)
            \<and> is_file w' = is_file w))
     \<and> (\<forall>w t k. rio_sink w t k \<and> is_file w \<and> k < length x \<longrightarrow> (\<exists>w'. f (Some w) = Some (Some w', - 1)))"

lemma rdb_writes_null: "rdb_writes f x \<Longrightarrow> f None = Some (None, int (length x))"
  by (simp add: rdb_writes_def)

lemma rdb_writes_fits:
  "rdb_writes f x \<Longrightarrow> rio_sink w t k \<Longrightarrow> length x \<le> k \<Longrightarrow>
    \<exists>w'. f (Some w) = Some (Some w', int (length x)) \<and> rio_sink w' (t @ x) (k - length x)
      \<and> is_file w' = is_file w"
  unfolding rdb_writes_def by blast

lemma rdb_writes_full:
  "rdb_writes f x \<Longrightarrow> rio_sink w t k \<Longrightarrow> is_file w \<Longrightarrow> k < length x \<Longrightarrow> \<exists>w'. f (Some w) = Some (Some w', - 1)"
  unfolding rdb_writes_def by blast

lemma rioWrite_short:
  assumes "rio_sink w t k" and "is_file w" and "k < length x"
  shows "\<exists>w'. rioWrite fresh w x = Some (w', False)"
proof -
  obtain fp b a where "io w = File fp b a" using assms(2) by (auto simp: is_file_def split: rio_io.splits)
  moreover from this have "f_room fp < length x" using assms(1,3) by (simp add: rio_sink_def)
  ultimately show ?thesis by (rule rioWrite_full)
qed

lemma rdbWriteRaw_writes:
  assumes "length x < 2 ^ 31"
  shows "rdb_writes (rdbWriteRaw env x) x"
proof -
  have n: "s32 (int (length x)) = int (length x)" using assms by simp
  have "\<exists>w'. rdbWriteRaw env x (Some w) = Some (Some w', int (length x)) \<and> rio_sink w' (t @ x) (k - length x)
      \<and> is_file w' = is_file w" if "rio_sink w t k" "length x \<le> k" for w t k
    using rioWrite_sink [OF that, of "e_fresh env"] n by (auto simp: rdbWriteRaw_def rio_moved_def)
  moreover have "\<exists>w'. rdbWriteRaw env x (Some w) = Some (Some w', - 1)"
    if "rio_sink w t k" "is_file w" "k < length x" for w t k
    using rioWrite_short [OF that, of "e_fresh env"] by (auto simp: rdbWriteRaw_def)
  moreover have "rdbWriteRaw env x None = Some (None, int (length x))" using n by (simp add: rdbWriteRaw_def)
  ultimately show ?thesis unfolding rdb_writes_def by blast
qed

lemma andthen_writes:
  assumes f: "rdb_writes f x" and g: "rdb_writes g y"
  shows "rdb_writes (\<lambda>rdb. andthen (f rdb) g) (x @ y)"
proof -
  have "andthen (f None) g = Some (None, int (length (x @ y)))"
    using rdb_writes_null [OF f] rdb_writes_null [OF g] by (simp add: andthen_def)
  moreover have "\<exists>w'. andthen (f (Some w)) g = Some (Some w', int (length (x @ y)))
      \<and> rio_sink w' (t @ x @ y) (k - length (x @ y)) \<and> is_file w' = is_file w"
    if s: "rio_sink w t k" "length (x @ y) \<le> k" for w t k
  proof -
    have "length x \<le> k" using s(2) by simp
    then obtain w1 where w1: "f (Some w) = Some (Some w1, int (length x))" "rio_sink w1 (t @ x) (k - length x)"
      "is_file w1 = is_file w" using rdb_writes_fits [OF f s(1)] by blast
    have "length y \<le> k - length x" using s(2) by simp
    then obtain w2 where "g (Some w1) = Some (Some w2, int (length y))"
      "rio_sink w2 ((t @ x) @ y) (k - length x - length y)" "is_file w2 = is_file w1"
      using rdb_writes_fits [OF g w1(2)] by blast
    then show ?thesis using w1 by (simp add: andthen_def)
  qed
  moreover have "\<exists>w'. andthen (f (Some w)) g = Some (Some w', - 1)"
    if s: "rio_sink w t k" "is_file w" "k < length (x @ y)" for w t k
  proof (cases "k < length x")
    case True
    then show ?thesis using rdb_writes_full [OF f s(1,2)] by (auto simp: andthen_def)
  next
    case False
    then obtain w1 where w1: "f (Some w) = Some (Some w1, int (length x))" "rio_sink w1 (t @ x) (k - length x)"
      "is_file w1 = is_file w" using rdb_writes_fits [OF f s(1), of] by fastforce
    have "is_file w1" "k - length x < length y" using w1(3) s(2,3) False by auto
    then show ?thesis using rdb_writes_full [OF g w1(2)] w1(1) by (auto simp: andthen_def)
  qed
  ultimately show ?thesis unfolding rdb_writes_def by blast
qed

subsection \<open>Lengths\<close>

definition len_bytes :: "nat \<Rightarrow> byte list" where
  "len_bytes n =
     (if n < 2 ^ 6 then [of_nat n]
      else if n < 2 ^ 14 then [of_nat (n div 256) OR 64, of_nat (n mod 256)]
      else 128 # be_bytes 4 (int n))"

lemma length_len_bytes: "0 < length (len_bytes n) \<and> length (len_bytes n) \<le> 5"
  by (simp add: len_bytes_def)

lemma rdbSaveLen_writes: "rdb_writes (rdbSaveLen env n) (len_bytes n)"
proof -
  consider "n < 2 ^ 6" | "2 ^ 6 \<le> n" "n < 2 ^ 14" | "2 ^ 14 \<le> n" by linarith
  then show ?thesis
  proof cases
    case 1
    then have "rdbSaveLen env n = rdbWriteRaw env (len_bytes n)"
      by (intro ext) (simp add: rdbSaveLen_def len_bytes_def rdb_constants)
    then show ?thesis using rdbWriteRaw_writes [of "len_bytes n"] length_len_bytes [of n] by simp
  next
    case 2
    then have "n div 256 mod 256 = n div 256" by simp
    with 2 have "rdbSaveLen env n = rdbWriteRaw env (len_bytes n)"
      by (intro ext) (simp add: rdbSaveLen_def len_bytes_def rdb_constants)
    then show ?thesis using rdbWriteRaw_writes [of "len_bytes n"] length_len_bytes [of n] by simp
  next
    case 3
    have "rdbSaveLen env n = (\<lambda>rdb. andthen (rdbWriteRaw env [128] rdb) (rdbWriteRaw env (be_bytes 4 (int n))))"
      using 3 by (intro ext) (simp add: rdbSaveLen_def rdb_constants)
    moreover have "rdb_writes (\<lambda>rdb. andthen (rdbWriteRaw env [128] rdb) (rdbWriteRaw env (be_bytes 4 (int n))))
      ([128] @ be_bytes 4 (int n))"
      by (intro andthen_writes rdbWriteRaw_writes) simp_all
    moreover have "len_bytes n = [128] @ be_bytes 4 (int n)" using 3 by (simp add: len_bytes_def)
    ultimately show ?thesis by simp
  qed
qed

text \<open>The two high bits of the first byte, and its six low ones.\<close>

lemma len_tags_all:
  "\<forall>d < 64. unat (drop_bit 6 ((of_nat d :: byte) AND 0xC0)) = 0"
  "\<forall>d < 64. unat ((of_nat d :: byte) AND 0x3F) = d"
  "\<forall>d < 64. unat (drop_bit 6 ((of_nat d OR 64 :: byte) AND 0xC0)) = 1"
  "\<forall>d < 64. unat ((of_nat d OR 64 :: byte) AND 0x3F) = d"
  "\<forall>d < 64. unat (drop_bit 6 ((of_nat d OR 192 :: byte) AND 0xC0)) = 3"
  "\<forall>d < 64. unat ((of_nat d OR 192 :: byte) AND 0x3F) = d"
  unfolding all_less_64 upt_64 by (simp_all add: drop_bit_eq_div)

lemmas len_tags = len_tags_all [rule_format]

text \<open>Reading a known prefix.\<close>

lemma rioRead_prefix:
  assumes "rio_source r (x @ rest)" and "n = length x"
  shows "\<exists>r'. rioRead r n = Some (r', Some x) \<and> rio_source r' rest \<and> rio_moved r r' x"
  using rioRead_source [OF assms(1), of n] assms(2) by auto

lemma rdbLoadLen_reads:
  assumes "rio_source r (len_bytes n @ rest)" and "n < 2 ^ 32"
  shows "\<exists>r'. rdbLoadLen r = Some (r', n, False) \<and> rio_source r' rest \<and> rio_moved r r' (len_bytes n)"
proof -
  consider "n < 2 ^ 6" | "2 ^ 6 \<le> n" "n < 2 ^ 14" | "2 ^ 14 \<le> n" by linarith
  then show ?thesis
  proof cases
    case 1
    then have "rio_source r ([of_nat n] @ rest)" using assms(1) by (simp add: len_bytes_def)
    from rioRead_prefix [OF this, of 1] obtain r' where
      "rioRead r 1 = Some (r', Some [of_nat n])" "rio_source r' rest" "rio_moved r r' [of_nat n]" by auto
    then show ?thesis using len_tags [of n] 1
      by (auto simp: rdbLoadLen_def Let_def rdb_constants len_bytes_def)
  next
    case 2
    define h l where "h = n div 256" and "l = n mod 256"
    have h: "h < 64" "h * 256 + l = n" "l < 256" using 2 by (simp_all add: h_def l_def)
    have "rio_source r ([of_nat h OR 64] @ of_nat l # rest)"
      using assms(1) 2 by (simp add: len_bytes_def h_def l_def)
    from rioRead_prefix [OF this, of 1] obtain r1 where
      r1: "rioRead r 1 = Some (r1, Some [of_nat h OR 64])" "rio_source r1 ([of_nat l] @ rest)"
      "rio_moved r r1 [of_nat h OR 64]" by auto
    obtain r' where r': "rioRead r1 1 = Some (r', Some [of_nat l])" "rio_source r' rest"
      "rio_moved r1 r' [of_nat l]"
      using rioRead_prefix [OF r1(2), of 1] by auto
    have "unat (of_nat l :: byte) = l" using h(3) by (simp add: unat_of_nat)
    moreover have "rio_moved r r' (len_bytes n)"
      using rio_moved_append [OF r1(3) r'(3)] 2 by (simp add: len_bytes_def h_def l_def)
    ultimately show ?thesis using r1(1) r' len_tags [OF h(1)] h(2)
      by (auto simp: rdbLoadLen_def Let_def rdb_constants)
  next
    case 3
    then have "rio_source r ([128] @ be_bytes 4 (int n) @ rest)" using assms(1) by (simp add: len_bytes_def)
    from rioRead_prefix [OF this, of 1] obtain r1 where
      r1: "rioRead r 1 = Some (r1, Some [128])" "rio_source r1 (be_bytes 4 (int n) @ rest)"
      "rio_moved r r1 [128]" by auto
    obtain r' where r': "rioRead r1 4 = Some (r', Some (be_bytes 4 (int n)))" "rio_source r' rest"
      "rio_moved r1 r' (be_bytes 4 (int n))"
      using rioRead_prefix [OF r1(2), of 4] by auto
    have t: "unat (drop_bit 6 ((128 :: byte) AND 0xC0)) = 2" by code_simp
    have "be_uint (be_bytes 4 (int n)) = int n" using assms(2) by (simp add: codec_simps)
    moreover have "rio_moved r r' (len_bytes n)"
      using rio_moved_append [OF r1(3) r'(3)] 3 by (simp add: len_bytes_def)
    ultimately show ?thesis using r1(1) r' t by (auto simp: rdbLoadLen_def Let_def rdb_constants)
  qed
qed

text \<open>The head of an encoded value.\<close>

lemma rdbLoadLen_encoded:
  assumes "rio_source r (enc_head e # rest)" and "e < 64"
  shows "\<exists>r'. rdbLoadLen r = Some (r', e, True) \<and> rio_source r' rest"
proof -
  have e: "enc_head e = of_nat e OR 192" by (simp add: enc_head_def rdb_constants or.commute)
  obtain r' where "rioRead r 1 = Some (r', Some [enc_head e])" "rio_source r' rest"
    using rioRead_prefix [of r "[enc_head e]" rest 1] assms(1) by auto
  then show ?thesis using len_tags(5,6) [OF assms(2)] by (auto simp: rdbLoadLen_def Let_def rdb_constants e)
qed

subsection \<open>What the loader reads\<close>

definition rdb_loads :: "rdb_env \<Rightarrow> byte list \<Rightarrow> byte list \<Rightarrow> bool" where
  "rdb_loads env x t \<longleftrightarrow>
     (\<forall>r rest srv encode. rio_source r (x @ rest) \<longrightarrow>
        (\<exists>srv' r' ob. rdbGenericLoadStringObject env srv r encode = Some (srv', r', Some ob)
          \<and> rio_source r' rest \<and> obj_holds ob t))"

lemma rdb_loadsI:
  assumes "\<And>r rest srv encode. rio_source r (x @ rest) \<Longrightarrow>
    \<exists>srv' r' ob. rdbGenericLoadStringObject env srv r encode = Some (srv', r', Some ob)
      \<and> rio_source r' rest \<and> obj_holds ob t"
  shows "rdb_loads env x t"
  using assms unfolding rdb_loads_def by blast

lemma le_bytes_digits:
  "le_bytes 1 v = [word_of_int (v mod 256)]"
  "le_bytes 2 v = [word_of_int (v mod 256), word_of_int (v div 2 ^ 8 mod 256)]"
  "le_bytes 4 v = [word_of_int (v mod 256), word_of_int (v div 2 ^ 8 mod 256),
     word_of_int (v div 2 ^ 16 mod 256), word_of_int (v div 2 ^ 24 mod 256)]"
  by (simp_all add: eval_nat_numeral flip: zdiv_zmult2_eq)

lemma rdbEncodeInteger_le:
  assumes "rdbEncodeInteger v \<noteq> []"
  shows "\<exists>e n. (e = 0 \<and> n = 1 \<or> e = 1 \<and> n = 2 \<or> e = 2 \<and> n = 4)
    \<and> rdbEncodeInteger v = enc_head e # le_bytes n v \<and> - (256 ^ n div 2) \<le> v \<and> v < 256 ^ n div 2"
proof -
  consider "- (2 ^ 7) \<le> v" "v \<le> 2 ^ 7 - 1" | "\<not> (- (2 ^ 7) \<le> v \<and> v \<le> 2 ^ 7 - 1)" "- (2 ^ 15) \<le> v" "v \<le> 2 ^ 15 - 1"
    | "\<not> (- (2 ^ 7) \<le> v \<and> v \<le> 2 ^ 7 - 1)" "\<not> (- (2 ^ 15) \<le> v \<and> v \<le> 2 ^ 15 - 1)" "- (2 ^ 31) \<le> v" "v \<le> 2 ^ 31 - 1"
    using assms by (auto simp: rdbEncodeInteger_def split: if_splits)
  then show ?thesis
  proof cases
    case 1
    then show ?thesis
      by (intro exI [of _ 0] exI [of _ 1]) (simp add: rdbEncodeInteger_def rdb_constants le_bytes_digits)
  next
    case 2
    then show ?thesis
      by (intro exI [of _ 1] exI [of _ 2]) (simp add: rdbEncodeInteger_def rdb_constants le_bytes_digits(2))
  next
    case 3
    then show ?thesis
      by (intro exI [of _ 2] exI [of _ 4]) (simp add: rdbEncodeInteger_def rdb_constants le_bytes_digits(3))
  qed
qed

lemma rdbLoadIntegerObject_reads:
  assumes "rio_source r (le_bytes n v @ rest)" and "e = 0 \<and> n = 1 \<or> e = 1 \<and> n = 2 \<or> e = 2 \<and> n = 4"
    and "- (256 ^ n div 2) \<le> v" and "v < 256 ^ n div 2"
  shows "\<exists>srv' r' ob. rdbLoadIntegerObject env srv r e encode = Some (srv', r', Some ob)
    \<and> rio_source r' rest \<and> obj_holds ob (int_text v)"
proof -
  obtain r' where r': "rioRead r n = Some (r', Some (le_bytes n v))" "rio_source r' rest"
    using rioRead_prefix [OF assms(1), of n] by auto
  have v: "is_int64 v" using assms(2-4) by (auto simp: is_int64_def range_defs)
  have le: "le_sint (le_bytes n v) = v" using assms(2-4) by (intro le_sint_le_bytes) auto
  have width: "(if e = REDIS_RDB_ENC_INT8 then Some 1 else if e = REDIS_RDB_ENC_INT16 then Some 2
      else if e = REDIS_RDB_ENC_INT32 then Some 4 else None) = Some n"
    using assms(2) by (auto simp: rdb_constants)
  obtain s where s: "sdsfromlonglong v (e_fresh env) = Some s" "sds_repr s (int_text v)"
    using sdsfromlonglong_text [OF v] by blast
  obtain srv' ob where c: "createStringObjectFromLongLong srv v = (srv', ob)" "obj_holds ob (int_text v)"
    using createStringObjectFromLongLong_holds [OF v, of srv] by (metis prod.collapse)
  have "obj_holds (createObject (Sds s)) (int_text v)" using s(2) by (simp add: obj_holds_def createObject_def)
  then show ?thesis unfolding rdbLoadIntegerObject_def width using r' le s(1) c by (cases encode) auto
qed

lemma rdbEncodeInteger_loads:
  assumes "rdbEncodeInteger v \<noteq> []"
  shows "rdb_loads env (rdbEncodeInteger v) (int_text v)"
proof (rule rdb_loadsI)
  fix r rest srv encode
  assume r: "rio_source r (rdbEncodeInteger v @ rest)"
  obtain e n where E: "e = 0 \<and> n = 1 \<or> e = 1 \<and> n = 2 \<or> e = 2 \<and> n = 4"
    "rdbEncodeInteger v = enc_head e # le_bytes n v" "- (256 ^ n div 2) \<le> v" "v < 256 ^ n div 2"
    using rdbEncodeInteger_le [OF assms] by blast
  have "e < 64" using E(1) by auto
  then obtain r1 where r1: "rdbLoadLen r = Some (r1, e, True)" "rio_source r1 (le_bytes n v @ rest)"
    using rdbLoadLen_encoded [of r e "le_bytes n v @ rest"] r E(2) by auto
  obtain srv' r' ob where "rdbLoadIntegerObject env srv r1 e encode = Some (srv', r', Some ob)"
    "rio_source r' rest" "obj_holds ob (int_text v)"
    using rdbLoadIntegerObject_reads [OF r1(2) E(1,3,4)] by blast
  moreover have "e = REDIS_RDB_ENC_INT8 \<or> e = REDIS_RDB_ENC_INT16 \<or> e = REDIS_RDB_ENC_INT32"
    using E(1) by (auto simp: rdb_constants)
  ultimately show "\<exists>srv' r' ob. rdbGenericLoadStringObject env srv r encode = Some (srv', r', Some ob)
      \<and> rio_source r' rest \<and> obj_holds ob (int_text v)"
    using r1(1) by (auto simp: rdbGenericLoadStringObject_def)
qed

lemma sds_overwrite:
  assumes "sds_repr s u" and "length t = length u"
  shows "\<exists>b. write_bytes (s_buf s) 0 t = Some b \<and> obj_holds (createObject (Sds (s\<lparr>s_buf := b\<rparr>))) t"
proof -
  obtain sp where s: "s = \<lparr>s_len = int (length u), s_free = int (length sp), s_buf = u @ 0 # sp\<rparr>"
    "length u + length sp + 1 < 2 ^ 31" using assms(1) by (rule sds_reprE)
  have "write_bytes (u @ 0 # sp) 0 t = Some (t @ 0 # sp)"
    using write_bytes_mid [of 0 "[]" t u "0 # sp"] assms(2) by simp
  moreover have "sds_repr \<lparr>s_len = int (length t), s_free = int (length sp), s_buf = t @ 0 # sp\<rparr> t"
    by (rule sds_reprI) (use s(2) assms(2) in simp)
  ultimately show ?thesis using s(1) assms(2) by (simp add: obj_holds_def createObject_def)
qed

lemma raw_string_loads:
  assumes "length t < 2 ^ 30"
  shows "rdb_loads env (len_bytes (length t) @ t) t"
proof (rule rdb_loadsI)
  fix r rest srv encode
  assume "rio_source r ((len_bytes (length t) @ t) @ rest)"
  then have "rio_source r (len_bytes (length t) @ t @ rest)" by simp
  moreover have "length t < 2 ^ 32" using assms by simp
  ultimately obtain r1 where r1: "rdbLoadLen r = Some (r1, length t, False)" "rio_source r1 (t @ rest)"
    using rdbLoadLen_reads by blast
  obtain r' where r': "(if length t \<noteq> 0 then rioRead r1 (length t) else Some (r1, Some [])) = Some (r', Some t)"
    "rio_source r' rest"
    using rioRead_prefix [OF r1(2), of "length t"] r1(2) by (cases "t = []") auto
  obtain val where val: "sdsnewlen None (length t) (e_fresh env) = Some val" "sds_repr val (replicate (length t) 0)"
    using sdsnewlen_zero [of "length t"] assms by auto
  have "length t = length (replicate (length t) (0 :: byte))" by simp
  from sds_overwrite [OF val(2) this] obtain b where
    "write_bytes (s_buf val) 0 t = Some b" "obj_holds (createObject (Sds (val\<lparr>s_buf := b\<rparr>))) t" by blast
  moreover have "length t \<noteq> REDIS_RDB_LENERR" using assms by (simp add: rdb_constants)
  ultimately show "\<exists>srv' r' ob. rdbGenericLoadStringObject env srv r encode = Some (srv', r', Some ob)
      \<and> rio_source r' rest \<and> obj_holds ob t"
    using r1(1) r' val(1) by (simp add: rdbGenericLoadStringObject_def)
qed

lemma lzf_string_loads:
  assumes "length t < 2 ^ 30" and "length c < 2 ^ 30" and "t \<noteq> []" and "lzf_decompress c (length t) = Some (Inr t)"
  shows "rdb_loads env (enc_head REDIS_RDB_ENC_LZF # len_bytes (length c) @ len_bytes (length t) @ c) t"
proof (rule rdb_loadsI)
  fix r rest srv encode
  assume "rio_source r ((enc_head REDIS_RDB_ENC_LZF # len_bytes (length c) @ len_bytes (length t) @ c) @ rest)"
  then obtain r0 where r0: "rdbLoadLen r = Some (r0, REDIS_RDB_ENC_LZF, True)"
    "rio_source r0 (len_bytes (length c) @ len_bytes (length t) @ c @ rest)"
    using rdbLoadLen_encoded [of r REDIS_RDB_ENC_LZF] by (auto simp: rdb_constants)
  have "length c < 2 ^ 32" "length t < 2 ^ 32" using assms(1,2) by simp_all
  from rdbLoadLen_reads [OF r0(2) this(1)] obtain r1 where
    r1: "rdbLoadLen r0 = Some (r1, length c, False)" "rio_source r1 (len_bytes (length t) @ c @ rest)" by blast
  from rdbLoadLen_reads [OF r1(2) \<open>length t < 2 ^ 32\<close>] obtain r2 where
    r2: "rdbLoadLen r1 = Some (r2, length t, False)" "rio_source r2 (c @ rest)" by blast
  obtain r3 where r3: "rioRead r2 (length c) = Some (r3, Some c)" "rio_source r3 rest"
    using rioRead_prefix [OF r2(2)] by blast
  obtain val where val: "sdsnewlen None (length t) (e_fresh env) = Some val" "sds_repr val (replicate (length t) 0)"
    using sdsnewlen_zero [of "length t"] assms by auto
  have "length t = length (replicate (length t) (0 :: byte))" by simp
  from sds_overwrite [OF val(2) this] obtain b where b:
    "write_bytes (s_buf val) 0 t = Some b" "obj_holds (createObject (Sds (val\<lparr>s_buf := b\<rparr>))) t" by blast
  have "length t \<noteq> REDIS_RDB_LENERR" "length c \<noteq> REDIS_RDB_LENERR" using assms by (simp_all add: rdb_constants)
  then have "rdbLoadLzfStringObject env r0 = Some (r3, Some (createObject (Sds (val\<lparr>s_buf := b\<rparr>))))"
    using r1(1) r2(1) r3(1) val(1) b(1) assms(3,4) by (simp add: rdbLoadLzfStringObject_def)
  then show "\<exists>srv' r' ob. rdbGenericLoadStringObject env srv r encode = Some (srv', r', Some ob)
      \<and> rio_source r' rest \<and> obj_holds ob t"
    using r0(1) r3(2) b(2) by (simp add: rdbGenericLoadStringObject_def) (simp add: rdb_constants)
qed

subsection \<open>The savers of strings\<close>

text \<open>\<open>rdb_saves env f t\<close>: what \<open>f\<close> writes loads as the text \<open>t\<close>, and is hardly longer.\<close>

definition rdb_saves :: "rdb_env \<Rightarrow> (rio option \<Rightarrow> saved) \<Rightarrow> byte list \<Rightarrow> bool" where
  "rdb_saves env f t \<longleftrightarrow> (\<exists>x. rdb_writes f x \<and> rdb_loads env x t \<and> 0 < length x \<and> length x \<le> length t + 10)"

lemma strtoll_SomeE:
  assumes "0 \<in> set s"
  obtains v n e where "strtoll s = Some (v, n, e)" "is_int64 v" "n < length s"
proof -
  define t where "t = takeWhile (\<lambda>c. c \<noteq> 0) s"
  define k where "k = length (takeWhile isspace t)"
  obtain v n e where r: "strtoll_at (drop k t) k = (v, n, e)" by (cases "strtoll_at (drop k t) k")
  have "dropWhile (\<lambda>c. c \<noteq> 0) s \<noteq> []" using assms by (auto simp: dropWhile_eq_Nil_conv)
  moreover have "length s = length t + length (dropWhile (\<lambda>c. c \<noteq> 0) s)"
    unfolding t_def by (metis length_append takeWhile_dropWhile_id)
  ultimately have t: "length t < length s" by simp
  have k: "k \<le> length t" by (simp add: k_def length_takeWhile_le)
  have "is_int64 v" using r
    by (auto simp: strtoll_at_def Let_def is_int64_def range_defs split: if_splits)
  moreover have "n \<le> length t"
  proof -
    have "length (takeWhile isdigit (drop k t)) \<le> length (drop k t)"
      "length (takeWhile isdigit (tl (drop k t))) \<le> length (tl (drop k t))" by (rule length_takeWhile_le)+
    moreover have "drop k t \<noteq> [] \<Longrightarrow> Suc (length (tl (drop k t))) = length (drop k t)"
      by (cases "drop k t") auto
    ultimately show ?thesis using r k
      by (auto simp: strtoll_at_def Let_def simp del: length_tl split: if_splits)
  qed
  moreover have "strtoll s = Some (v, n, e)" using assms r by (simp add: strtoll_def Let_def t_def k_def)
  ultimately show ?thesis using t that by simp
qed

lemma rdbTryIntegerEncoding_text:
  assumes "s = t @ 0 # sp"
  shows "\<exists>enc. rdbTryIntegerEncoding s (length t) = Some enc
    \<and> (enc \<noteq> [] \<longrightarrow> (\<exists>v. t = int_text v \<and> enc = rdbEncodeInteger v))"
proof -
  obtain v n e where r: "strtoll s = Some (v, n, e)" "is_int64 v" "n < length s"
    using strtoll_SomeE [of s] assms by auto
  have c: "read_bytes s n 1 = Some [s ! n]"
    using r(3) by (simp add: read_bytes_def take_Suc hd_drop_conv_nth)
  have b: "snd (ll2string 32 v) = int_text v @ [0]" using ll2string_text [OF r(2)] by simp
  have len: "strlen (int_text v @ [0]) = Some (length (int_text v))"
    by (rule strlen_nul) (rule nul_not_int_text)
  have x: "read_bytes (int_text v @ [0]) 0 (length (int_text v)) = Some (int_text v)"
    by (simp add: read_bytes_text)
  have y: "read_bytes s 0 (length t) = Some t" using assms by (simp add: read_bytes_text)
  show ?thesis
  proof (cases "s ! n \<noteq> 0 \<or> length (int_text v) \<noteq> length t")
    case True
    then show ?thesis using r(1) c b len by (auto simp: rdbTryIntegerEncoding_def Let_def)
  next
    case False
    then have "rdbTryIntegerEncoding s (length t) =
        Some (if memcmp (int_text v) t \<noteq> 0 then [] else rdbEncodeInteger v)"
      using r(1) c b len x y by (simp add: rdbTryIntegerEncoding_def Let_def)
    then show ?thesis using memcmp_eq_0 [of "int_text v" t] False by auto
  qed
qed

lemma rdb_writes_cong: "rdb_writes f x \<Longrightarrow> (\<And>rdb. g rdb = f rdb) \<Longrightarrow> rdb_writes g x"
  by (simp add: rdb_writes_def)

text \<open>A saver whose positive count is passed on.\<close>

lemma rdb_writes_pass:
  assumes "rdb_writes f x" and "0 < length x" and "\<And>rdb n. g (rdb, n) = (if n = - 1 then Some (rdb, - 1) else if n > 0 then Some (rdb, n) else h rdb)"
  shows "rdb_writes (\<lambda>rdb. f rdb \<bind> g) x"
proof -
  have pass: "Some (rdb, n) \<bind> g = Some (rdb, n)" if "n = - 1 \<or> n = int (length x)" for rdb n
    using that assms(2,3) by auto
  show ?thesis using assms(1) unfolding rdb_writes_def by (fastforce simp: pass simp del: bind.simps)
qed

lemma raw_save_writes:
  assumes "read_bytes s 0 (length t) = Some t" and "length t < 2 ^ 31"
  shows "rdb_writes (\<lambda>rdb. andthen (rdbSaveLen env (length t) rdb)
    (\<lambda>rdb. if length t > 0 then do { x \<leftarrow> read_bytes s 0 (length t); rdbWriteRaw env x rdb } else Some (rdb, 0)))
    (len_bytes (length t) @ t)"
proof (rule andthen_writes [OF rdbSaveLen_writes])
  have "rdb_writes (\<lambda>rdb. Some (rdb, 0)) []" by (simp add: rdb_writes_def)
  then show "rdb_writes (\<lambda>rdb. if length t > 0 then do { x \<leftarrow> read_bytes s 0 (length t); rdbWriteRaw env x rdb }
      else Some (rdb, 0)) t"
    using rdbWriteRaw_writes [OF assms(2), of env] assms(1) by (cases "t = []") simp_all
qed

lemma rdbSaveLzfStringObject_cases:
  assumes "htab_ok (e_htab env)" and "read_bytes s 0 (length t) = Some t" and "length t < 2 ^ 30"
  shows "(\<forall>rdb. rdbSaveLzfStringObject env s (length t) rdb = Some (rdb, 0))
    \<or> rdb_saves env (rdbSaveLzfStringObject env s (length t)) t"
proof (cases "length t \<le> 4")
  case True
  then show ?thesis by (simp add: rdbSaveLzfStringObject_def)
next
  case False
  define out where "out = map (e_fresh env) [0..<length t - 4 + 1]"
  have "2 \<le> length t" "length t < 2 ^ 32" "length t - 4 < length out" using False assms(3) by (simp_all add: out_def)
  from lzf_roundtrip [OF assms(1) this] obtain n out' where
    Z: "lzf_compress (e_htab env) t out (length t - 4) = Some (n, out')" "length out' = length out"
    "n \<le> length t - 4" "0 < n \<longrightarrow> lzf_decompress (take n out') (length t) = Some (Inr t)" by blast
  define c where "c = take n out'"
  define x where "x = enc_head REDIS_RDB_ENC_LZF # len_bytes n @ len_bytes (length t) @ c"
  have save: "rdbSaveLzfStringObject env s (length t) rdb =
      (if n = 0 then Some (rdb, 0)
       else andthen (rdbWriteRaw env [enc_head REDIS_RDB_ENC_LZF] rdb)
         (\<lambda>rdb. andthen (rdbSaveLen env n rdb) (\<lambda>rdb. andthen (rdbSaveLen env (length t) rdb) (rdbWriteRaw env c))))" for rdb
    using False assms(2) Z(1) by (simp add: rdbSaveLzfStringObject_def c_def out_def del: upt_Suc)
  show ?thesis
  proof (cases "n = 0")
    case True
    then show ?thesis using save by simp
  next
    case n: False
    have c: "length c = n" using Z(2,3) \<open>length t - 4 < length out\<close> by (simp add: c_def)
    have "length c < 2 ^ 31" using c Z(3) assms(3) by simp
    then have "rdb_writes (rdbSaveLzfStringObject env s (length t))
        ([enc_head REDIS_RDB_ENC_LZF] @ len_bytes n @ len_bytes (length t) @ c)"
      by (intro rdb_writes_cong [OF andthen_writes [OF rdbWriteRaw_writes andthen_writes [OF rdbSaveLen_writes
        andthen_writes [OF rdbSaveLen_writes rdbWriteRaw_writes]]]]) (simp_all add: save n)
    moreover have "rdb_loads env x t" unfolding x_def c [symmetric]
      by (rule lzf_string_loads) (use assms(3) c Z(3,4) n False in \<open>auto simp: c_def\<close>)
    moreover have "length x \<le> length t + 10"
      using length_len_bytes [of n] length_len_bytes [of "length t"] c Z(3) False by (auto simp: x_def)
    ultimately show ?thesis unfolding rdb_saves_def by (auto simp: x_def)
  qed
qed

lemma rdbSaveRawString_saves:
  assumes "htab_ok (e_htab env)" and "s = t @ 0 # sp" and "length t < 2 ^ 30"
  shows "rdb_saves env (rdbSaveRawString env s (length t)) t"
proof -
  have rd: "read_bytes s 0 (length t) = Some t" using assms(2) by (simp add: read_bytes_text)
  obtain enc where enc: "(if length t \<le> 11 then rdbTryIntegerEncoding s (length t) else Some []) = Some enc"
    "enc \<noteq> [] \<longrightarrow> (\<exists>v. t = int_text v \<and> enc = rdbEncodeInteger v)"
    using rdbTryIntegerEncoding_text [OF assms(2)] by (cases "length t \<le> 11") auto
  define raw where "raw = (\<lambda>rdb. andthen (rdbSaveLen env (length t) rdb)
    (\<lambda>rdb. if length t > 0 then do { x \<leftarrow> read_bytes s 0 (length t); rdbWriteRaw env x rdb } else Some (rdb, 0)))"
  define g where "g = (\<lambda>(rdb, n). if n = - 1 then Some (rdb, - 1) else if n > 0 then Some (rdb, n) else raw rdb)"
  have raw: "rdb_writes raw (len_bytes (length t) @ t)"
    unfolding raw_def using raw_save_writes [OF rd] assms(3) by simp
  have save: "rdbSaveRawString env s (length t) rdb =
      (if enc \<noteq> [] then rdbWriteRaw env enc rdb \<bind> (\<lambda>(rdb, n). Some (rdb, if n = - 1 then - 1 else int (length enc)))
       else (if rdb_compression env \<and> length t > 20 then rdbSaveLzfStringObject env s (length t) rdb else Some (rdb, 0)) \<bind> g)" for rdb
    unfolding rdbSaveRawString_def enc(1) bind.bind_lunit g_def raw_def by (rule refl)
  show ?thesis
  proof (cases "enc = []")
    case False
    then obtain v where v: "t = int_text v" "enc = rdbEncodeInteger v" using enc(2) by blast
    have len: "0 < length enc" "length enc \<le> 5" using False by (auto simp: v(2) rdbEncodeInteger_def split: if_splits)
    then have w: "rdb_writes (rdbWriteRaw env enc) enc" by (intro rdbWriteRaw_writes) simp
    have "rdb_writes (rdbSaveRawString env s (length t)) enc"
      using w False unfolding rdb_writes_def save by fastforce
    moreover have "rdb_loads env enc t" unfolding v by (rule rdbEncodeInteger_loads) (use False v in simp)
    ultimately show ?thesis unfolding rdb_saves_def using len by fastforce
  next
    case True
    have plain: "rdb_saves env (rdbSaveRawString env s (length t)) t"
      if "\<And>rdb. rdbSaveRawString env s (length t) rdb = raw rdb"
    proof -
      have "rdb_writes (rdbSaveRawString env s (length t)) (len_bytes (length t) @ t)"
        using raw that by (rule rdb_writes_cong)
      then show ?thesis unfolding rdb_saves_def
        using raw_string_loads [OF assms(3)] length_len_bytes [of "length t"] by fastforce
    qed
    show ?thesis
    proof (cases "rdb_compression env \<and> length t > 20")
      case lzf: True
      consider "\<forall>rdb. rdbSaveLzfStringObject env s (length t) rdb = Some (rdb, 0)"
        | "rdb_saves env (rdbSaveLzfStringObject env s (length t)) t"
        using rdbSaveLzfStringObject_cases [OF assms(1) rd assms(3)] by blast
      then show ?thesis
      proof cases
        case 1
        then show ?thesis using lzf True by (intro plain) (simp add: save g_def)
      next
        case 2
        then obtain x where x: "rdb_writes (rdbSaveLzfStringObject env s (length t)) x" "rdb_loads env x t"
          "0 < length x" "length x \<le> length t + 10" unfolding rdb_saves_def by blast
        have "rdb_writes (\<lambda>rdb. rdbSaveLzfStringObject env s (length t) rdb \<bind> g) x"
          by (rule rdb_writes_pass [OF x(1,3), of _ raw]) (simp add: g_def)
        then have "rdb_writes (rdbSaveRawString env s (length t)) x"
          by (rule rdb_writes_cong) (use lzf True in \<open>simp add: save\<close>)
        then show ?thesis using x unfolding rdb_saves_def by blast
      qed
    next
      case False
      then show ?thesis using True by (intro plain) (auto simp: save g_def)
    qed
  qed
qed

lemma rdbSaveLongLong_saves:
  assumes "is_int64 v"
  shows "rdb_saves env (rdbSaveLongLongAsStringObject env v) (int_text v)"
proof (cases "rdbEncodeInteger v = []")
  case False
  have len: "0 < length (rdbEncodeInteger v)" "length (rdbEncodeInteger v) \<le> 5"
    using False by (auto simp: rdbEncodeInteger_def split: if_splits)
  have "rdb_writes (rdbWriteRaw env (rdbEncodeInteger v)) (rdbEncodeInteger v)"
    using len by (intro rdbWriteRaw_writes) simp
  then have "rdb_writes (rdbSaveLongLongAsStringObject env v) (rdbEncodeInteger v)"
    by (rule rdb_writes_cong) (use False in \<open>simp add: rdbSaveLongLongAsStringObject_def\<close>)
  then show ?thesis unfolding rdb_saves_def
    using rdbEncodeInteger_loads [OF False] len by fastforce
next
  case True
  let ?t = "int_text v"
  have len: "length ?t \<le> 20" by (rule length_int_text [OF assms])
  have rd: "read_bytes (?t @ [0]) 0 (length ?t) = Some ?t" by (simp add: read_bytes_text)
  have "rdb_writes (\<lambda>rdb. andthen (rdbSaveLen env (length ?t) rdb) (rdbWriteRaw env ?t)) (len_bytes (length ?t) @ ?t)"
    by (intro andthen_writes rdbSaveLen_writes rdbWriteRaw_writes) (use len in simp)
  then have "rdb_writes (rdbSaveLongLongAsStringObject env v) (len_bytes (length ?t) @ ?t)"
    by (rule rdb_writes_cong)
      (use True rd len in \<open>simp add: rdbSaveLongLongAsStringObject_def ll2string_text [OF assms] check_def\<close>)
  moreover have "rdb_loads env (len_bytes (length ?t) @ ?t) ?t" using len by (intro raw_string_loads) simp
  ultimately show ?thesis unfolding rdb_saves_def
    using length_len_bytes [of "length ?t"] by fastforce
qed

lemma rdbSaveStringObject_saves:
  assumes "obj_holds ob t" and "htab_ok (e_htab env)" and "length t < 2 ^ 30"
  shows "rdb_saves env (rdbSaveStringObject env ob) t"
proof (cases "encoding ob = REDIS_ENCODING_INT")
  case True
  then obtain v where v: "ptr ob = Long v" "is_int64 v" "t = int_text v" using obj_holds_int [OF assms(1)] by blast
  have "rdbSaveStringObject env ob = rdbSaveLongLongAsStringObject env v"
    using True v(1) by (intro ext) (simp add: rdbSaveStringObject_def long_of_def)
  then show ?thesis using rdbSaveLongLong_saves [OF v(2)] v(3) by simp
next
  case False
  then obtain s where s: "ptr ob = Sds s" "sds_repr s t"
    using obj_holds_sds [OF assms(1)] by (auto simp: sdsEncoded_iff)
  obtain sp where "s_buf s = t @ 0 # sp" using s(2) by (auto elim: sds_reprE)
  from rdbSaveRawString_saves [OF assms(2) this assms(3)]
  have "rdb_saves env (rdbSaveRawString env (s_buf s) (length t)) t" .
  moreover have "rdbSaveStringObject env ob = rdbSaveRawString env (s_buf s) (length t)"
    using False s by (intro ext) (simp add: rdbSaveStringObject_def sds_of_def sds_texts)
  ultimately show ?thesis by simp
qed

subsection \<open>The length codec\<close>

text \<open>The bytes of a length, and a length read off a buffer with the number of bytes it took.\<close>

definition rdb_len_enc :: "nat \<Rightarrow> byte list" where
  "rdb_len_enc n =
     (case rdbSaveLen \<lparr>e_fresh = \<lambda>_. 0, e_htab = \<lambda>_. 0, rdb_compression = False\<rparr> n
        (Some (rioInitWithFile \<lparr>f_data = [], f_pos = 0, f_room = 5\<rparr>)) of
        Some (Some w, _) \<Rightarrow> (case io w of File fp _ _ \<Rightarrow> f_data fp | Buffer _ _ \<Rightarrow> [])
      | _ \<Rightarrow> [])"

definition rdb_len_dec :: "byte list \<Rightarrow> (nat \<times> nat) option" where
  "rdb_len_dec bs =
     (case rdbLoadLen (rioInitWithFile \<lparr>f_data = bs, f_pos = 0, f_room = 0\<rparr>) of
        Some (r, n, isencoded) \<Rightarrow>
          if isencoded \<or> n = REDIS_RDB_LENERR then None
          else Some (n, processed_bytes r)
      | None \<Rightarrow> None)"

lemma rdb_len_enc_bytes: "rdb_len_enc n = len_bytes n"
proof -
  let ?env = "\<lparr>e_fresh = \<lambda>_. 0, e_htab = \<lambda>_. 0, rdb_compression = False\<rparr>"
  let ?w = "rioInitWithFile \<lparr>f_data = [], f_pos = 0, f_room = 5\<rparr>"
  have "rio_sink ?w [] 5" "is_file ?w" by (simp_all add: rio_sink_def is_file_def rioInitWithFile_def)
  then obtain w' where "rdbSaveLen ?env n (Some ?w) = Some (Some w', int (length (len_bytes n)))"
    "rio_sink w' (len_bytes n) (5 - length (len_bytes n))" "is_file w'"
    using rdb_writes_fits [OF rdbSaveLen_writes, of ?w "[]" 5 n ?env] length_len_bytes [of n] by auto
  then show ?thesis
    by (auto simp: rdb_len_enc_def rio_sink_def is_file_def split: rio_io.splits)
qed

lemma rdb_len_dec_bytes:
  assumes "n < 2 ^ 32 - 1"
  shows "rdb_len_dec (len_bytes n @ rest) = Some (n, length (len_bytes n))"
proof -
  let ?r = "rioInitWithFile \<lparr>f_data = len_bytes n @ rest, f_pos = 0, f_room = 0\<rparr>"
  have r: "rio_source ?r (len_bytes n @ rest)" by (simp add: rio_source_def rioInitWithFile_def)
  have "n < 2 ^ 32" using assms by simp
  from rdbLoadLen_reads [OF r this] obtain r' where
    "rdbLoadLen ?r = Some (r', n, False)" "rio_moved ?r r' (len_bytes n)" by blast
  then show ?thesis using assms
    by (simp add: rdb_len_dec_def rio_moved_def rioInitWithFile_def rdb_constants)
qed

lemma rdb_len_dec_max: "rdb_len_dec (rdb_len_enc (2 ^ 32 - 1)) = None"
proof -
  let ?n = "2 ^ 32 - 1 :: nat"
  let ?r = "rioInitWithFile \<lparr>f_data = len_bytes ?n, f_pos = 0, f_room = 0\<rparr>"
  have "rio_source ?r (len_bytes ?n @ [])" by (simp add: rio_source_def rioInitWithFile_def)
  moreover have "?n < 2 ^ 32" by simp
  ultimately obtain r' where "rdbLoadLen ?r = Some (r', ?n, False)" using rdbLoadLen_reads by blast
  then show ?thesis unfolding rdb_len_enc_bytes rdb_len_dec_def by (simp add: rdb_constants)
qed

interpretation rdb_len: prefix_codec rdb_len_enc rdb_len_dec "\<lambda>n. n < 2 ^ 32 - 1"
  by unfold_locales (simp add: rdb_len_enc_bytes rdb_len_dec_bytes)

subsection \<open>Properties\<close>

text \<open>
  C27. Lengths are self-delimiting. Any sequence of lengths below 2 to the 32 minus 1, saved one after
  the other, is read back, whatever follows; and no two of them have encodings one of which begins
  the other. The largest 32-bit length is written like the others but reads as the error value.
\<close>

theorem rdbSaveLen_delimits:
  assumes "\<forall>n \<in> set ns. n < 2 ^ 32 - 1"
  shows "rdb_len.dec_many (length ns) (concat (map rdb_len_enc ns) @ rest) = Some (ns, rest)
    \<and> (\<forall>n \<in> set ns. \<forall>m \<in> set ns. \<forall>u v. rdb_len_enc n @ u = rdb_len_enc m @ v \<longrightarrow> n = m \<and> u = v)
    \<and> rdb_len_dec (rdb_len_enc (2 ^ 32 - 1)) = None"
proof (intro conjI ballI allI impI)
  show "rdb_len.dec_many (length ns) (concat (map rdb_len_enc ns) @ rest) = Some (ns, rest)"
    by (rule rdb_len.dec_many_enc) (use assms in \<open>simp add: list_all_iff\<close>)
  show "rdb_len_dec (rdb_len_enc (2 ^ 32 - 1)) = None" by (rule rdb_len_dec_max)
next
  fix n m u v
  assume "n \<in> set ns" "m \<in> set ns" and e: "rdb_len_enc n @ u = rdb_len_enc m @ v"
  then have "n < 2 ^ 32 - 1" "m < 2 ^ 32 - 1" using assms by blast+
  from rdb_len.enc_append_inject [OF this e] show "n = m" "u = v" by simp_all
qed

theorem rdbSaveLen_delimits_witness:
  "rdb_len.dec_many (length [5, 300, 70000 :: nat]) (concat (map rdb_len_enc [5, 300, 70000]) @ [1, 2])
     = Some ([5, 300, 70000], [1, 2])"
proof -
  have "\<forall>n \<in> set [5, 300, 70000 :: nat]. n < 2 ^ 32 - 1" by simp
  from rdbSaveLen_delimits [OF this] show ?thesis by blast
qed

text \<open>
  C7. Saving and loading a string object are inverse, for every encoding of the object, every text
  below a gigabyte, with and without compression, whatever the compressor's hash table holds. On a
  string or a stream with room for the text and ten bytes, the save succeeds and reports the number
  of bytes it wrote, which is also the number that it computes without writing; loading them gives
  an object with the same text and leaves what follows.
\<close>

theorem rdbSaveStringObject_roundtrip:
  assumes "obj_holds ob t" and "htab_ok (e_htab env)" and "length t < 2 ^ 30"
    and "rio_sink w u k" and "length t + 10 \<le> k"
  shows "\<exists>w' x. rdbSaveStringObject env ob (Some w) = Some (Some w', int (length x))
    \<and> rdbSaveStringObject env ob None = Some (None, int (length x))
    \<and> rio_sink w' (u @ x) (k - length x)
    \<and> (\<forall>r rest srv encode. rio_source r (x @ rest) \<longrightarrow>
         (\<exists>srv' r' ob'. rdbGenericLoadStringObject env srv r encode = Some (srv', r', Some ob')
           \<and> rio_source r' rest \<and> obj_holds ob' t))"
proof -
  obtain x where x: "rdb_writes (rdbSaveStringObject env ob) x" "rdb_loads env x t" "length x \<le> length t + 10"
    using rdbSaveStringObject_saves [OF assms(1-3)] unfolding rdb_saves_def by blast
  have "length x \<le> k" using x(3) assms(5) by simp
  from rdb_writes_fits [OF x(1) assms(4) this] obtain w' where
    "rdbSaveStringObject env ob (Some w) = Some (Some w', int (length x))" "rio_sink w' (u @ x) (k - length x)"
    by blast
  then show ?thesis using rdb_writes_null [OF x(1)] x(2) unfolding rdb_loads_def by blast
qed

theorem rdbSaveStringObject_roundtrip_witness:
  "\<exists>w' x. rdbSaveStringObject \<lparr>e_fresh = \<lambda>_. 0, e_htab = \<lambda>_. 3, rdb_compression = True\<rparr>
       (createObject (Sds \<lparr>s_len = 30, s_free = 0, s_buf = replicate 30 7 @ [0]\<rparr>))
       (Some (rioInitWithFile \<lparr>f_data = [], f_pos = 0, f_room = 50\<rparr>)) = Some (Some w', int (length x))
    \<and> (\<exists>srv' r' ob'. rdbGenericLoadStringObject \<lparr>e_fresh = \<lambda>_. 0, e_htab = \<lambda>_. 3, rdb_compression = True\<rparr>
        \<lparr>maxmemory = 0, shared_integers = \<lambda>_. 1\<rparr> (rioInitWithFile \<lparr>f_data = x, f_pos = 0, f_room = 0\<rparr>) True
        = Some (srv', r', Some ob') \<and> obj_holds ob' (replicate 30 7))"
proof -
  let ?env = "\<lparr>e_fresh = \<lambda>_. 0, e_htab = \<lambda>_. 3, rdb_compression = True\<rparr>"
  let ?w = "rioInitWithFile \<lparr>f_data = [], f_pos = 0, f_room = 50\<rparr>"
  have "obj_holds (createObject (Sds \<lparr>s_len = 30, s_free = 0, s_buf = replicate 30 7 @ [0]\<rparr>)) (replicate 30 7)"
    using raw_object_holds [of "replicate 30 7"] by simp
  moreover have "htab_ok (e_htab ?env)" by (simp add: htab_ok_def)
  moreover have "length (replicate 30 (7 :: byte)) < 2 ^ 30" "length (replicate 30 (7 :: byte)) + 10 \<le> 50" by simp_all
  moreover have "rio_sink ?w [] 50" by (simp add: rio_sink_def rioInitWithFile_def)
  ultimately obtain w' x where "rdbSaveStringObject ?env (createObject (Sds \<lparr>s_len = 30, s_free = 0, s_buf = replicate 30 7 @ [0]\<rparr>))
      (Some ?w) = Some (Some w', int (length x))"
    "\<forall>r rest srv encode. rio_source r (x @ rest) \<longrightarrow>
       (\<exists>srv' r' ob'. rdbGenericLoadStringObject ?env srv r encode = Some (srv', r', Some ob')
         \<and> rio_source r' rest \<and> obj_holds ob' (replicate 30 7))"
    using rdbSaveStringObject_roundtrip by metis
  moreover have "rio_source (rioInitWithFile \<lparr>f_data = x, f_pos = 0, f_room = 0\<rparr>) (x @ [])"
    by (simp add: rio_source_def rioInitWithFile_def)
  ultimately show ?thesis by blast
qed

text \<open>
  A save to a full disk is reported. When the stream has less room than the number of bytes
  that the save computes without writing, the save returns -1, and never a short count.
\<close>

theorem rdbSaveStringObject_reports_full:
  assumes "obj_holds ob t" and "htab_ok (e_htab env)" and "length t < 2 ^ 30"
    and "rdbSaveStringObject env ob None = Some (None, n)"
    and "int room < n"
  shows "\<exists>w'. rdbSaveStringObject env ob
      (Some (rioInitWithFile \<lparr>f_data = data, f_pos = 0, f_room = room\<rparr>)) = Some (Some w', - 1)"
proof -
  obtain x where x: "rdb_writes (rdbSaveStringObject env ob) x"
    using rdbSaveStringObject_saves [OF assms(1-3)] unfolding rdb_saves_def by blast
  have "n = int (length x)" using rdb_writes_null [OF x] assms(4) by simp
  then have "room < length x" using assms(5) by simp
  then show ?thesis
    by (intro rdb_writes_full [OF x, of _ data room])
      (simp_all add: rio_sink_def is_file_def rioInitWithFile_def)
qed

theorem rdbSaveStringObject_reports_full_witness:
  "\<exists>w'. rdbSaveStringObject \<lparr>e_fresh = \<lambda>_. 0, e_htab = \<lambda>_. 3, rdb_compression = False\<rparr>
       \<lparr>encoding = REDIS_ENCODING_INT, ptr = Long 5, refcount = 1\<rparr>
       (Some (rioInitWithFile \<lparr>f_data = [9], f_pos = 0, f_room = 1\<rparr>)) = Some (Some w', - 1)"
proof -
  let ?env = "\<lparr>e_fresh = \<lambda>_. 0, e_htab = \<lambda>_. 3, rdb_compression = False\<rparr>"
  let ?ob = "\<lparr>encoding = REDIS_ENCODING_INT, ptr = Long 5, refcount = 1\<rparr>"
  have "obj_holds ?ob (int_text 5)" by (simp add: obj_holds_def is_int64_def range_defs)
  moreover have "htab_ok (e_htab ?env)" by (simp add: htab_ok_def)
  moreover have "length (int_text 5) < 2 ^ 30"
    using length_int_text [of 5] by (simp add: is_int64_def range_defs)
  moreover have "rdbSaveStringObject ?env ?ob None = Some (None, 2)"
    by (simp add: rdbSaveStringObject_def long_of_def rdbSaveLongLongAsStringObject_def rdbEncodeInteger_def
      rdbWriteRaw_def s32_def)
  ultimately show ?thesis by (rule rdbSaveStringObject_reports_full) simp
qed

end
