(* ===== verification/Sds_Args.thy ===== *)
theory Sds_Args
  imports Sds_Text
begin

text \<open>
  Splitting, joining and quoting of dynamic strings (\<open>src/sds.c\<close>): \<open>sdssplitlen\<close>, \<open>sdsjoin\<close>,
  \<open>sdscatrepr\<close> and \<open>sdssplitargs\<close>, the parser of configuration lines and inline commands. A
  \<open>char *\<close> that walks over a line is the rest of the line's buffer. A result \<open>None\<close> is an access
  outside a buffer, \<open>Some None\<close> the NULL that the code returns.
\<close>

definition peek :: "byte list \<Rightarrow> nat \<Rightarrow> byte option" where
  "peek p k = (if k < length p then Some (p ! k) else None)"

lemma peek_simps [simp]:
  "peek [] k = None" "peek (c # p) 0 = Some c" "peek (c # p) (Suc k) = peek p k"
  by (simp_all add: peek_def)

lemma peek_numeral [simp]: "peek (c # p) (numeral k) = peek p (pred_numeral k)"
  by (simp add: numeral_eq_Suc)

text \<open>The short-circuit \<open>a && b\<close> of two tests that read memory.\<close>

definition andalso :: "bool option \<Rightarrow> bool option \<Rightarrow> bool option" where
  "andalso a b = (case a of None \<Rightarrow> None | Some False \<Rightarrow> Some False | Some True \<Rightarrow> b)"

lemma andalso_simps [simp]: "andalso (Some True) b = b" "andalso (Some False) b = Some False"
  by (simp_all add: andalso_def)

definition at_is :: "byte list \<Rightarrow> nat \<Rightarrow> (byte \<Rightarrow> bool) \<Rightarrow> bool option" where
  "at_is p k P = map_option P (peek p k)"

subsection \<open>Splitting at a separator\<close>

function split_loop ::
  "(nat \<Rightarrow> byte) \<Rightarrow> byte list \<Rightarrow> int \<Rightarrow> byte list \<Rightarrow> nat \<Rightarrow> nat \<Rightarrow> nat \<Rightarrow> sdshdr list
    \<Rightarrow> (nat \<times> sdshdr list) option"
where
  "split_loop fresh s len sep seplen j start tokens =
     (if seplen = 0 then None
      else if int j < len - (int seplen - 1) then
        do { x \<leftarrow> read_bytes s j seplen; y \<leftarrow> read_bytes sep 0 seplen;
             if (seplen = 1 \<and> hd x = hd y) \<or> memcmp x y = 0
             then do { t \<leftarrow> sdsnewlen (Some (drop start s)) (j - start) fresh;
                       split_loop fresh s len sep seplen (j + seplen - 1 + 1) (j + seplen) (tokens @ [t]) }
             else split_loop fresh s len sep seplen (j + 1) start tokens }
      else Some (start, tokens))"
  by pat_completeness auto
termination
  by (relation "measure (\<lambda>(fresh, s, len, sep, seplen, j, start, tokens). nat (len - int j))") auto

declare split_loop.simps [simp del]

text \<open>The array of tokens doubles when it is full; its capacity is not part of the result.\<close>

definition sdssplitlen ::
  "(nat \<Rightarrow> byte) \<Rightarrow> byte list \<Rightarrow> int \<Rightarrow> byte list \<Rightarrow> int \<Rightarrow> sdshdr list option option"
where
  "sdssplitlen fresh s len sep seplen =
     (if seplen < 1 \<or> len < 0 then Some None
      else if len = 0 then Some (Some [])
      else do { (start, tokens) \<leftarrow> split_loop fresh s len sep (nat seplen) 0 0 [];
                t \<leftarrow> sdsnewlen (Some (drop start s)) (nat (len - int start)) fresh;
                Some (Some (tokens @ [t])) })"

fun join_loop :: "(nat \<Rightarrow> byte) \<Rightarrow> byte list list \<Rightarrow> byte list \<Rightarrow> sdshdr \<Rightarrow> sdshdr option" where
  "join_loop fresh [] sep s = Some s"
| "join_loop fresh (a # argv) sep s =
     do { s \<leftarrow> sdscat fresh s a;
          s \<leftarrow> (if argv \<noteq> [] then sdscat fresh s sep else Some s);
          join_loop fresh argv sep s }"

definition sdsjoin :: "(nat \<Rightarrow> byte) \<Rightarrow> byte list list \<Rightarrow> byte list \<Rightarrow> sdshdr option" where
  "sdsjoin fresh argv sep = do { s \<leftarrow> sdsempty fresh; join_loop fresh argv sep s }"

subsection \<open>Quoting\<close>

definition hex_char :: "nat \<Rightarrow> byte" where
  "hex_char d = (if d < 10 then of_nat (48 + d) else of_nat (87 + d))"

text \<open>The text that \<open>sdscatprintf\<close> formats is added as a C string.\<close>

definition repr_step :: "(nat \<Rightarrow> byte) \<Rightarrow> sdshdr \<Rightarrow> byte \<Rightarrow> sdshdr option" where
  "repr_step fresh s c =
     (if c = 92 \<or> c = 34 then sdscat fresh s ([92, c] @ [0])
      else if c = 10 then sdscatlen fresh s [92, 110] 2
      else if c = 13 then sdscatlen fresh s [92, 114] 2
      else if c = 9 then sdscatlen fresh s [92, 116] 2
      else if c = 7 then sdscatlen fresh s [92, 97] 2
      else if c = 8 then sdscatlen fresh s [92, 98] 2
      else if isprint c then sdscat fresh s ([c] @ [0])
      else sdscat fresh s ([92, 120, hex_char (unat c div 16), hex_char (unat c mod 16)] @ [0]))"

fun repr_loop :: "(nat \<Rightarrow> byte) \<Rightarrow> sdshdr \<Rightarrow> byte list \<Rightarrow> sdshdr option" where
  "repr_loop fresh s [] = Some s"
| "repr_loop fresh s (c # p) = do { s \<leftarrow> repr_step fresh s c; repr_loop fresh s p }"

definition sdscatrepr :: "(nat \<Rightarrow> byte) \<Rightarrow> sdshdr \<Rightarrow> byte list \<Rightarrow> nat \<Rightarrow> sdshdr option" where
  "sdscatrepr fresh s p len =
     do { s \<leftarrow> sdscatlen fresh s [34] 1;
          t \<leftarrow> read_bytes p 0 len;
          s \<leftarrow> repr_loop fresh s t;
          sdscatlen fresh s [34] 1 }"

subsection \<open>Parsing arguments\<close>

definition is_hex_digit :: "byte \<Rightarrow> bool" where
  "is_hex_digit c \<longleftrightarrow> (48 \<le> c \<and> c \<le> 57) \<or> (97 \<le> c \<and> c \<le> 102) \<or> (65 \<le> c \<and> c \<le> 70)"

definition hex_digit_to_int :: "byte \<Rightarrow> nat" where
  "hex_digit_to_int c =
     (if 48 \<le> c \<and> c \<le> 57 then unat c - 48
      else if 97 \<le> c \<and> c \<le> 102 then unat c - 87
      else if 65 \<le> c \<and> c \<le> 70 then unat c - 55
      else 0)"

definition unescape :: "byte \<Rightarrow> byte" where
  "unescape c = (if c = 110 then 10 else if c = 114 then 13 else if c = 116 then 9
     else if c = 98 then 8 else if c = 97 then 7 else c)"

text \<open>Where the loop over one argument is: outside quotes, or inside double or single ones.\<close>

datatype quoting = Plain | InQ | InSQ

datatype token_step = Err | Done "byte list" sdshdr | More "byte list" quoting sdshdr

text \<open>\<open>if ( *p) p++\<close>\<close>

definition bump :: "byte list \<Rightarrow> byte list option" where
  "bump p = do { c \<leftarrow> peek p 0; Some (if c \<noteq> 0 then tl p else p) }"

text \<open>The character behind a closing quote must be a space or the end.\<close>

definition quote_ends :: "byte list \<Rightarrow> bool option" where
  "quote_ends p = map_option (\<lambda>d. d = 0 \<or> isspace d) (peek p 1)"

definition double_quoted :: "(nat \<Rightarrow> byte) \<Rightarrow> byte list \<Rightarrow> sdshdr \<Rightarrow> token_step option" where
  "double_quoted fresh p current =
     do { c \<leftarrow> peek p 0;
          hex \<leftarrow> andalso (Some (c = 92)) (andalso (at_is p 1 (\<lambda>d. d = 120))
                   (andalso (at_is p 2 is_hex_digit) (at_is p 3 is_hex_digit)));
          esc \<leftarrow> andalso (Some (c = 92)) (at_is p 1 (\<lambda>d. d \<noteq> 0));
          if hex then
            do { h \<leftarrow> peek p 2; l \<leftarrow> peek p 3;
                 s \<leftarrow> sdscatlen fresh current [of_nat (hex_digit_to_int h * 16 + hex_digit_to_int l)] 1;
                 q \<leftarrow> bump (drop 3 p); Some (More q InQ s) }
          else if esc then
            do { d \<leftarrow> peek p 1;
                 s \<leftarrow> sdscatlen fresh current [unescape d] 1;
                 q \<leftarrow> bump (drop 1 p); Some (More q InQ s) }
          else if c = 34 then
            do { ok \<leftarrow> quote_ends p;
                 if ok then do { q \<leftarrow> bump p; Some (Done q current) } else Some Err }
          else if c = 0 then Some Err
          else do { s \<leftarrow> sdscatlen fresh current [c] 1; q \<leftarrow> bump p; Some (More q InQ s) } }"

definition single_quoted :: "(nat \<Rightarrow> byte) \<Rightarrow> byte list \<Rightarrow> sdshdr \<Rightarrow> token_step option" where
  "single_quoted fresh p current =
     do { c \<leftarrow> peek p 0;
          esc \<leftarrow> andalso (Some (c = 92)) (at_is p 1 (\<lambda>d. d = 39));
          if esc then
            do { s \<leftarrow> sdscatlen fresh current [39] 1; q \<leftarrow> bump (drop 1 p); Some (More q InSQ s) }
          else if c = 39 then
            do { ok \<leftarrow> quote_ends p;
                 if ok then do { q \<leftarrow> bump p; Some (Done q current) } else Some Err }
          else if c = 0 then Some Err
          else do { s \<leftarrow> sdscatlen fresh current [c] 1; q \<leftarrow> bump p; Some (More q InSQ s) } }"

definition unquoted :: "(nat \<Rightarrow> byte) \<Rightarrow> byte list \<Rightarrow> sdshdr \<Rightarrow> token_step option" where
  "unquoted fresh p current =
     do { c \<leftarrow> peek p 0; q \<leftarrow> bump p;
          if c = 32 \<or> c = 10 \<or> c = 13 \<or> c = 9 \<or> c = 0 then Some (Done q current)
          else if c = 34 then Some (More q InQ current)
          else if c = 39 then Some (More q InSQ current)
          else do { s \<leftarrow> sdscatlen fresh current [c] 1; Some (More q Plain s) } }"

definition token_step ::
  "(nat \<Rightarrow> byte) \<Rightarrow> byte list \<Rightarrow> quoting \<Rightarrow> sdshdr \<Rightarrow> token_step option"
where
  "token_step fresh p q current =
     (case q of InQ \<Rightarrow> double_quoted fresh p current
      | InSQ \<Rightarrow> single_quoted fresh p current
      | Plain \<Rightarrow> unquoted fresh p current)"

lemma bump_le: "bump p = Some q \<Longrightarrow> length q \<le> length p \<and> (hd p \<noteq> 0 \<longrightarrow> length q < length p)"
  by (cases p) (auto simp: bump_def)

lemma bump_drop: "bump (drop k p) = Some q \<Longrightarrow> 0 < k \<Longrightarrow> length q < length p"
  using bump_le [of "drop k p" q] by (cases "length p \<le> k") (auto simp: bump_def)

lemma bump_drop_Suc: "bump (drop (Suc k) p) = Some q \<Longrightarrow> length q < length p"
  by (erule bump_drop) simp

lemma bump_less: "peek p 0 = Some c \<Longrightarrow> c \<noteq> 0 \<Longrightarrow> bump p = Some q \<Longrightarrow> length q < length p"
  using bump_le [of p q] by (cases p) auto

lemma token_step_less: "token_step fresh p q current = Some (More p' q' s) \<Longrightarrow> length p' < length p"
  by (cases q) (auto simp: token_step_def double_quoted_def single_quoted_def unquoted_def
    bind_eq_Some_conv dest: bump_less bump_drop [OF _ zero_less_numeral] bump_drop_Suc
    split: if_splits)

function token_loop ::
  "(nat \<Rightarrow> byte) \<Rightarrow> byte list \<Rightarrow> quoting \<Rightarrow> sdshdr \<Rightarrow> (byte list \<times> sdshdr) option option"
where
  "token_loop fresh p q current =
     (case token_step fresh p q current of
        None \<Rightarrow> None
      | Some Err \<Rightarrow> Some None
      | Some (Done p s) \<Rightarrow> Some (Some (p, s))
      | Some (More p q s) \<Rightarrow> token_loop fresh p q s)"
  by pat_completeness auto
termination
  by (relation "measure (\<lambda>(fresh, p, q, current). length p)") (auto dest: token_step_less)

declare token_loop.simps [simp del]

fun skip_spaces :: "byte list \<Rightarrow> byte list option" where
  "skip_spaces [] = None"
| "skip_spaces (c # p) = (if c \<noteq> 0 \<and> isspace c then skip_spaces p else Some (c # p))"

lemma skip_spaces_le: "skip_spaces p = Some q \<Longrightarrow> length q \<le> length p \<and> q \<noteq> [] \<and> \<not> isspace (hd q)"
  by (induction p rule: skip_spaces.induct) (auto simp: isspace_def split: if_splits)

lemma token_step_Done: "token_step fresh p q current = Some (Done p' s) \<Longrightarrow> length p' \<le> length p"
  by (cases q) (auto simp: token_step_def double_quoted_def single_quoted_def unquoted_def
    bind_eq_Some_conv dest: bump_le split: if_splits)

lemma token_loop_le: "token_loop fresh p q current = Some (Some (p', s)) \<Longrightarrow> length p' \<le> length p"
proof (induction fresh p q current rule: token_loop.induct)
  case (1 fresh p q current)
  show ?case
  proof (cases "token_step fresh p q current")
    case (Some r)
    then show ?thesis using 1
      by (cases r) (auto simp: token_loop.simps [of fresh p] dest: token_step_Done token_step_less)
  qed (use 1 in \<open>simp add: token_loop.simps [of fresh p]\<close>)
qed

lemma token_loop_less:
  assumes "token_loop fresh (c # p) Plain current = Some (Some (p', s))" and "c \<noteq> 0"
  shows "length p' < length (c # p)"
proof -
  obtain r where r: "token_step fresh (c # p) Plain current = Some r" "r \<noteq> Err"
    using assms(1) by (auto simp: token_loop.simps [of fresh "c # p"] split: option.splits token_step.splits)
  show ?thesis
  proof (cases r)
    case (Done q t)
    then show ?thesis using r assms
      by (auto simp: token_loop.simps [of fresh "c # p"] token_step_def unquoted_def bump_def
        bind_eq_Some_conv split: if_splits)
  next
    case (More q m t)
    then have "length q < length (c # p)" "token_loop fresh q m t = Some (Some (p', s))"
      using token_step_less [of fresh "c # p"] r assms(1) by (auto simp: token_loop.simps [of fresh "c # p"])
    then show ?thesis using token_loop_le [of fresh q m t p' s] by simp
  qed (use r in simp)
qed

function args_loop :: "(nat \<Rightarrow> byte) \<Rightarrow> byte list \<Rightarrow> sdshdr list \<Rightarrow> sdshdr list option option" where
  "args_loop fresh p vector =
     (case skip_spaces p of
        None \<Rightarrow> None
      | Some [] \<Rightarrow> None
      | Some (c # p) \<Rightarrow>
          if c = 0 then Some (Some vector)
          else case sdsempty fresh of
            None \<Rightarrow> None
          | Some current \<Rightarrow>
              (case token_loop fresh (c # p) Plain current of
                 None \<Rightarrow> None
               | Some None \<Rightarrow> Some None
               | Some (Some (p, s)) \<Rightarrow> args_loop fresh p (vector @ [s])))"
  by pat_completeness auto
termination
  by (relation "measure (\<lambda>(fresh, p, vector). length p)")
    (auto dest!: token_loop_less skip_spaces_le)

declare args_loop.simps [simp del]

definition sdssplitargs :: "(nat \<Rightarrow> byte) \<Rightarrow> byte list \<Rightarrow> sdshdr list option option" where
  "sdssplitargs fresh line = args_loop fresh line []"

subsection \<open>The text of a quoted string\<close>

definition repr_char :: "byte \<Rightarrow> byte list" where
  "repr_char c =
     (if c = 92 \<or> c = 34 then [92, c]
      else if c = 10 then [92, 110] else if c = 13 then [92, 114] else if c = 9 then [92, 116]
      else if c = 7 then [92, 97] else if c = 8 then [92, 98]
      else if isprint c then [c]
      else [92, 120, hex_char (unat c div 16), hex_char (unat c mod 16)])"

definition repr_text :: "byte list \<Rightarrow> byte list" where
  "repr_text t = [34] @ concat (map repr_char t) @ [34]"

lemma hex_char_hex:
  assumes "d < 16"
  shows "is_hex_digit (hex_char d)" and "hex_digit_to_int (hex_char d) = d" and "hex_char d \<noteq> 0"
proof -
  have "list_all (\<lambda>d. is_hex_digit (hex_char d) \<and> hex_digit_to_int (hex_char d) = d \<and> hex_char d \<noteq> 0) [0..<16]"
    by code_simp
  then have "\<forall>d \<in> set [0..<16]. is_hex_digit (hex_char d) \<and> hex_digit_to_int (hex_char d) = d \<and> hex_char d \<noteq> 0"
    by (simp only: list_all_iff)
  moreover have "d \<in> set [0..<16]" using assms by simp
  ultimately show "is_hex_digit (hex_char d)" "hex_digit_to_int (hex_char d) = d" "hex_char d \<noteq> 0"
    by blast+
qed

lemma byte_nibbles: "unat (c :: byte) div 16 < 16" "unat c mod 16 < 16"
proof -
  have "unat c < 256" by (rule order_less_le_trans [OF unsigned_less]) simp
  then show "unat c div 16 < 16" "unat c mod 16 < 16" by simp_all
qed

lemma repr_char_nul: "0 \<notin> set (repr_char c)"
  using hex_char_hex(3) [OF byte_nibbles(1) [of c]] hex_char_hex(3) [OF byte_nibbles(2) [of c]]
  by (auto simp: repr_char_def isprint_def)

lemma length_repr_char: "length (repr_char c) \<le> 4"
  by (simp add: repr_char_def)

lemma repr_step_text:
  assumes "sds_repr s t" and "length t + 4 < 2 ^ 30"
  shows "\<exists>s'. repr_step fresh s c = Some s' \<and> sds_repr s' (t @ repr_char c)"
proof -
  have cat: "\<exists>s'. sdscat fresh s (x @ [0]) = Some s' \<and> sds_repr s' (t @ x)"
    if "0 \<notin> set x" "length x \<le> 4" for x
    using sdscat_text [OF assms(1) that(1), of fresh "[]"] that(2) assms(2) by simp
  have catlen: "\<exists>s'. sdscatlen fresh s [92, d] 2 = Some s' \<and> sds_repr s' (t @ [92, d])" for d
    using sdscatlen_text [OF assms(1), of "[92, d]" 2 "[92, d]" fresh] assms(2)
    by (simp add: read_bytes_def)
  consider "c = 92 \<or> c = 34" | "c = 10 \<or> c = 13 \<or> c = 9 \<or> c = 7 \<or> c = 8"
    | "c \<notin> {92, 34, 10, 13, 9, 7, 8}" by blast
  then show ?thesis
  proof cases
    case 1
    then show ?thesis using cat [of "[92, 92]"] cat [of "[92, 34]"]
      by (elim disjE) (simp_all add: repr_step_def repr_char_def)
  next
    case 2
    then show ?thesis using catlen by (elim disjE) (simp_all add: repr_step_def repr_char_def)
  next
    case 3
    have "c = 0 \<Longrightarrow> \<not> isprint c" by (simp add: isprint_def)
    then show ?thesis
      using 3 repr_char_nul [of c] cat [of "[c]"]
        cat [of "[92, 120, hex_char (unat c div 16), hex_char (unat c mod 16)]"]
      by (cases "isprint c") (auto simp: repr_step_def repr_char_def)
  qed
qed

lemma repr_loop_text:
  "sds_repr s t \<Longrightarrow> length t + 4 * length p < 2 ^ 30 \<Longrightarrow>
    \<exists>s'. repr_loop fresh s p = Some s' \<and> sds_repr s' (t @ concat (map repr_char p))"
proof (induction p arbitrary: s t)
  case (Cons c p)
  have "length t + 4 < 2 ^ 30" using Cons.prems(2) by simp
  from repr_step_text [OF Cons.prems(1) this] obtain s' where
    s': "repr_step fresh s c = Some s'" "sds_repr s' (t @ repr_char c)" by blast
  have "length (t @ repr_char c) + 4 * length p < 2 ^ 30"
    using Cons.prems(2) length_repr_char [of c] by simp
  from Cons.IH [OF s'(2) this] show ?case using s'(1) by auto
qed simp

lemma sdscatrepr_text:
  assumes "sds_repr s t" and "length t + 4 * length p + 2 < 2 ^ 30"
  shows "\<exists>s'. sdscatrepr fresh s p (length p) = Some s' \<and> sds_repr s' (t @ repr_text p)"
proof -
  have one: "read_bytes [34] 0 1 = Some [34]" by (simp add: read_bytes_def)
  obtain s1 where s1: "sdscatlen fresh s [34] 1 = Some s1" "sds_repr s1 (t @ [34])"
    using sdscatlen_text [OF assms(1) one] assms(2) by auto
  have "length (t @ [34]) + 4 * length p < 2 ^ 30" using assms(2) by simp
  from repr_loop_text [OF s1(2) this] obtain s2 where
    s2: "repr_loop fresh s1 p = Some s2" "sds_repr s2 ((t @ [34]) @ concat (map repr_char p))" by blast
  have "length (concat (map repr_char p)) \<le> 4 * length p"
    by (induction p) (use length_repr_char in \<open>auto intro: add_mono\<close>)
  then have "length ((t @ [34]) @ concat (map repr_char p)) + 1 < 2 ^ 30" using assms(2) by simp
  from sdscatlen_text [OF s2(2) one this] obtain s3 where
    "sdscatlen fresh s2 [34] 1 = Some s3" "sds_repr s3 (((t @ [34]) @ concat (map repr_char p)) @ [34])"
    by blast
  then show ?thesis using s1(1) s2(1) by (simp add: sdscatrepr_def repr_text_def)
qed

subsection \<open>Parsing quoted arguments\<close>

lemma double_quoted_repr:
  "double_quoted fresh (repr_char c @ r) s = do { s \<leftarrow> sdscatlen fresh s [c] 1; Some (More r InQ s) }"
proof -
  consider "c = 92 \<or> c = 34" | "c = 10 \<or> c = 13 \<or> c = 9 \<or> c = 7 \<or> c = 8"
    | "c \<notin> {92, 34, 10, 13, 9, 7, 8}" "isprint c" | "c \<notin> {92, 34, 10, 13, 9, 7, 8}" "\<not> isprint c"
    by blast
  then show ?thesis
  proof cases
    case 1
    then show ?thesis
      by (elim disjE) (simp_all add: double_quoted_def repr_char_def at_is_def bump_def unescape_def)
  next
    case 2
    then show ?thesis
      by (elim disjE) (simp_all add: double_quoted_def repr_char_def at_is_def bump_def unescape_def)
  next
    case 3
    then have "c \<noteq> 0" by (auto simp: isprint_def)
    with 3 show ?thesis by (simp add: double_quoted_def repr_char_def at_is_def bump_def)
  next
    case 4
    note h = hex_char_hex [OF byte_nibbles(1) [of c]] and l = hex_char_hex [OF byte_nibbles(2) [of c]]
    have byte: "(of_nat (unat c div 16 * 16 + unat c mod 16) :: byte) = c"
      unfolding div_mult_mod_eq by simp
    show ?thesis
      using 4 h l byte
      by (simp add: double_quoted_def repr_char_def at_is_def bump_def del: of_nat_add of_nat_mult)
  qed
qed

lemma cat_char:
  "sds_repr s t \<Longrightarrow> length t + 1 < 2 ^ 30 \<Longrightarrow> \<exists>s'. sdscatlen fresh s [c] 1 = Some s' \<and> sds_repr s' (t @ [c])"
  by (rule sdscatlen_text) (simp_all add: read_bytes_def)

lemma token_loop_quoted:
  assumes "d = 0 \<or> isspace d"
  shows "sds_repr s t \<Longrightarrow> length t + length a < 2 ^ 30 \<Longrightarrow>
    \<exists>s'. token_loop fresh (concat (map repr_char a) @ 34 # d # r) InQ s = Some (Some (d # r, s'))
      \<and> sds_repr s' (t @ a)"
proof (induction a arbitrary: s t)
  case Nil
  have "token_step fresh (34 # d # r) InQ s = Some (Done (d # r) s)"
    using assms by (simp add: token_step_def double_quoted_def quote_ends_def bump_def)
  then show ?case using Nil by (simp add: token_loop.simps [of fresh "34 # d # r"])
next
  case (Cons c a)
  have "length t + 1 < 2 ^ 30" using Cons.prems(2) by simp
  from cat_char [OF Cons.prems(1) this] obtain s' where
    s': "sdscatlen fresh s [c] 1 = Some s'" "sds_repr s' (t @ [c])" by blast
  let ?r = "concat (map repr_char a) @ 34 # d # r"
  have "token_step fresh (repr_char c @ ?r) InQ s = Some (More ?r InQ s')"
    using s'(1) by (simp add: token_step_def double_quoted_repr)
  then have "token_loop fresh (repr_char c @ ?r) InQ s = token_loop fresh ?r InQ s'"
    by (subst token_loop.simps) simp
  moreover have "length (t @ [c]) + length a < 2 ^ 30" using Cons.prems(2) by simp
  ultimately show ?case using Cons.IH [OF s'(2)] by simp
qed

lemma args_loop_quoted:
  assumes "\<forall>a \<in> set args. length a < 2 ^ 30"
  shows "\<exists>v. args_loop fresh (concat (map (\<lambda>a. repr_text a @ [32]) args) @ 0 # r) vec = Some (Some (vec @ v))
    \<and> list_all2 sds_repr v args"
  using assms
proof (induction args arbitrary: vec)
  case Nil
  show ?case by (simp add: args_loop.simps [of fresh "0 # r"])
next
  case (Cons a args)
  define rest where "rest = concat (map (\<lambda>a. repr_text a @ [32]) args) @ 0 # r"
  obtain s where s: "sdsempty fresh = Some s" "sds_repr s []" using sdsempty_text by blast
  have "token_step fresh (repr_text a @ 32 # rest) Plain s
    = Some (More (concat (map repr_char a) @ 34 # 32 # rest) InQ s)"
    by (simp add: token_step_def unquoted_def repr_text_def bump_def)
  moreover obtain s' where s': "token_loop fresh (concat (map repr_char a) @ 34 # 32 # rest) InQ s
    = Some (Some (32 # rest, s'))" "sds_repr s' a"
    using token_loop_quoted [of 32 s "[]" a fresh rest] s(2) Cons.prems by (auto simp: isspace_def)
  ultimately have t: "token_loop fresh (repr_text a @ 32 # rest) Plain s = Some (Some (32 # rest, s'))"
    by (subst token_loop.simps) simp
  have skip: "skip_spaces (repr_text a @ 32 # rest) = Some (repr_text a @ 32 # rest)"
    by (simp add: repr_text_def isspace_def)
  have "args_loop fresh (repr_text a @ 32 # rest) vec = args_loop fresh (32 # rest) (vec @ [s'])"
    using t skip s(1) by (subst args_loop.simps) (simp add: repr_text_def)
  also have "\<dots> = args_loop fresh rest (vec @ [s'])"
    by (subst (1 2) args_loop.simps) (simp add: isspace_def)
  finally have step: "args_loop fresh (repr_text a @ 32 # rest) vec = args_loop fresh rest (vec @ [s'])" .
  have "\<forall>a \<in> set args. length a < 2 ^ 30" using Cons.prems by simp
  from Cons.IH [OF this, of "vec @ [s']"] obtain v where
    "args_loop fresh rest (vec @ [s']) = Some (Some ((vec @ [s']) @ v))" "list_all2 sds_repr v args"
    unfolding rest_def by blast
  then show ?case using step s'(2) by (intro exI [of _ "s' # v"]) (simp add: rest_def)
qed

text \<open>Several arguments quoted on one line, each followed by a space, as the command monitor does.\<close>

fun quote_args :: "(nat \<Rightarrow> byte) \<Rightarrow> byte list list \<Rightarrow> sdshdr \<Rightarrow> sdshdr option" where
  "quote_args fresh [] s = Some s"
| "quote_args fresh (a # args) s =
     do { s \<leftarrow> sdscatrepr fresh s a (length a); s \<leftarrow> sdscatlen fresh s [32] 1; quote_args fresh args s }"

lemma length_repr_text: "length (repr_text a) \<le> 4 * length a + 2"
  unfolding repr_text_def by (induction a) (use length_repr_char in \<open>auto intro: add_mono\<close>)

lemma quote_args_text:
  "sds_repr s t \<Longrightarrow> length t + sum_list (map (\<lambda>a. 4 * length a + 4) args) < 2 ^ 30 \<Longrightarrow>
    \<exists>s'. quote_args fresh args s = Some s' \<and> sds_repr s' (t @ concat (map (\<lambda>a. repr_text a @ [32]) args))"
proof (induction args arbitrary: s t)
  case (Cons a args)
  have "length t + 4 * length a + 2 < 2 ^ 30" using Cons.prems(2) by simp
  from sdscatrepr_text [OF Cons.prems(1) this] obtain s1 where
    s1: "sdscatrepr fresh s a (length a) = Some s1" "sds_repr s1 (t @ repr_text a)" by blast
  have "length (t @ repr_text a) + 1 < 2 ^ 30" using Cons.prems(2) length_repr_text [of a] by simp
  from cat_char [OF s1(2) this] obtain s2 where
    s2: "sdscatlen fresh s1 [32] 1 = Some s2" "sds_repr s2 ((t @ repr_text a) @ [32])" by blast
  have "length ((t @ repr_text a) @ [32]) + sum_list (map (\<lambda>a. 4 * length a + 4) args) < 2 ^ 30"
    using Cons.prems(2) length_repr_text [of a] by simp
  from Cons.IH [OF s2(2) this] show ?case using s1(1) s2(1) by simp
qed simp

text \<open>
  C15. Round trip of quoting and parsing: any byte strings, quoted on one line by \<open>sdscatrepr\<close>, are
  what \<open>sdssplitargs\<close> returns for the line, whatever bytes they hold and whatever is behind the
  line's terminator in memory.
\<close>

theorem sdssplitargs_repr:
  assumes "sum_list (map (\<lambda>a. 4 * length a + 4) args) < 2 ^ 30"
  shows "\<exists>s line vec. sdsempty fresh = Some s \<and> quote_args fresh args s = Some line
    \<and> sdssplitargs fresh (s_buf line) = Some (Some vec) \<and> map sds_text vec = args"
proof -
  obtain s where s: "sdsempty fresh = Some s" "sds_repr s []" using sdsempty_text by blast
  obtain line where line: "quote_args fresh args s = Some line"
    "sds_repr line (concat (map (\<lambda>a. repr_text a @ [32]) args))"
    using quote_args_text [OF s(2), of args fresh] assms by auto
  obtain spare where "s_buf line = concat (map (\<lambda>a. repr_text a @ [32]) args) @ 0 # spare"
    using line(2) by (auto elim: sds_reprE)
  moreover have "\<forall>a \<in> set args. length a < 2 ^ 30"
  proof
    fix a assume "a \<in> set args"
    then have "4 * length a + 4 \<le> sum_list (map (\<lambda>a. 4 * length a + 4) args)"
      by (intro member_le_sum_list) auto
    then show "length a < 2 ^ 30" using assms by linarith
  qed
  ultimately obtain vec where "sdssplitargs fresh (s_buf line) = Some (Some vec)" "list_all2 sds_repr vec args"
    using args_loop_quoted [of args fresh spare "[]"] by (auto simp: sdssplitargs_def)
  moreover from this(2) have "map sds_text vec = args"
    by (induction rule: list_all2_induct) (simp_all add: sds_repr_text)
  ultimately show ?thesis using s(1) line(1) by blast
qed

theorem sdssplitargs_repr_witness:
  "\<exists>s line vec. sdsempty (\<lambda>_. 1) = Some s \<and> quote_args (\<lambda>_. 1) [[83, 69, 84], [0, 34, 255], []] s = Some line
    \<and> sdssplitargs (\<lambda>_. 1) (s_buf line) = Some (Some vec) \<and> map sds_text vec = [[83, 69, 84], [0, 34, 255], []]"
  using sdssplitargs_repr [of "[[83, 69, 84], [0, 34, 255], []]" "\<lambda>_. 1"] by simp

end
