(* ===== verification/Ziplist.thy ===== *)
theory Ziplist
  imports Sds_Text
begin

text \<open>
  The packed list of strings and integers (\<open>src/ziplist.c\<close>). A ziplist is one buffer: its size, the
  offset of its last entry and the number of entries in ten bytes, the entries, and the byte 255.
  Each entry starts with the length of the entry before it, in one byte or in five, then its
  encoding and length, then its bytes. Pointers into the buffer are offsets. \<open>None\<close> is an access
  outside the buffer or a failed \<open>assert\<close>; \<open>fresh\<close> is what \<open>zmalloc\<close> and \<open>zrealloc\<close> leave in new
  memory. Lengths are below 2 to the 32, as in the \<open>unsigned int\<close>s of the code.
\<close>

definition ZIP_END :: nat where "ZIP_END = 255"
definition ZIP_BIGLEN :: nat where "ZIP_BIGLEN = 254"
definition ZIP_STR_MASK :: nat where "ZIP_STR_MASK = 0xc0"
definition ZIP_STR_06B :: nat where "ZIP_STR_06B = 0"
definition ZIP_STR_14B :: nat where "ZIP_STR_14B = 64"
definition ZIP_STR_32B :: nat where "ZIP_STR_32B = 128"
definition ZIP_INT_16B :: nat where "ZIP_INT_16B = 0xc0"
definition ZIP_INT_32B :: nat where "ZIP_INT_32B = 0xd0"
definition ZIP_INT_64B :: nat where "ZIP_INT_64B = 0xe0"
definition ZIP_INT_24B :: nat where "ZIP_INT_24B = 0xf0"
definition ZIP_INT_8B :: nat where "ZIP_INT_8B = 0xfe"
definition ZIP_INT_IMM_MIN :: nat where "ZIP_INT_IMM_MIN = 0xf1"
definition ZIP_INT_IMM_MAX :: nat where "ZIP_INT_IMM_MAX = 0xfd"
definition INT24_MAX :: int where "INT24_MAX = 0x7fffff"
definition INT24_MIN :: int where "INT24_MIN = - INT24_MAX - 1"
definition ZIPLIST_HEADER_SIZE :: nat where "ZIPLIST_HEADER_SIZE = 10"

lemmas zip_constants =
  ZIP_END_def ZIP_BIGLEN_def ZIP_STR_MASK_def ZIP_STR_06B_def ZIP_STR_14B_def ZIP_STR_32B_def
  ZIP_INT_16B_def ZIP_INT_32B_def ZIP_INT_64B_def ZIP_INT_24B_def ZIP_INT_8B_def
  ZIP_INT_IMM_MIN_def ZIP_INT_IMM_MAX_def ZIPLIST_HEADER_SIZE_def

type_synonym ziplist = "byte list"

text \<open>Little endian fields; \<open>byte_of zl p\<close> is \<open>p[0]\<close>.\<close>

definition byte_of :: "ziplist \<Rightarrow> nat \<Rightarrow> nat option" where
  "byte_of zl p = map_option (\<lambda>x. unat (hd x)) (read_bytes zl p 1)"

definition get_le :: "nat \<Rightarrow> ziplist \<Rightarrow> nat \<Rightarrow> nat option" where
  "get_le n zl p = map_option (\<lambda>x. nat (le_uint x)) (read_bytes zl p n)"

definition put_le :: "nat \<Rightarrow> ziplist \<Rightarrow> nat \<Rightarrow> int \<Rightarrow> ziplist option" where
  "put_le n zl p v = write_bytes zl p (le_bytes n v)"

definition ZIPLIST_BYTES :: "ziplist \<Rightarrow> nat option" where "ZIPLIST_BYTES zl = get_le 4 zl 0"
definition ZIPLIST_TAIL_OFFSET :: "ziplist \<Rightarrow> nat option" where "ZIPLIST_TAIL_OFFSET zl = get_le 4 zl 4"
definition ZIPLIST_LENGTH :: "ziplist \<Rightarrow> nat option" where "ZIPLIST_LENGTH zl = get_le 2 zl 8"

definition set_tail :: "ziplist \<Rightarrow> int \<Rightarrow> ziplist option" where "set_tail zl v = put_le 4 zl 4 v"

definition ZIPLIST_INCR_LENGTH :: "ziplist \<Rightarrow> int \<Rightarrow> ziplist option" where
  "ZIPLIST_INCR_LENGTH zl incr =
     do { n \<leftarrow> ZIPLIST_LENGTH zl;
          if n < 2 ^ 16 - 1 then put_le 2 zl 8 (int n + incr) else Some zl }"

subsection \<open>Entry headers\<close>

definition ZIP_IS_STR :: "nat \<Rightarrow> bool" where
  "ZIP_IS_STR enc \<longleftrightarrow> enc div 64 * 64 < ZIP_STR_MASK"

definition zipIntSize :: "nat \<Rightarrow> nat" where
  "zipIntSize enc =
     (if enc = ZIP_INT_8B then 1 else if enc = ZIP_INT_16B then 2 else if enc = ZIP_INT_24B then 3
      else if enc = ZIP_INT_32B then 4 else if enc = ZIP_INT_64B then 8 else 0)"

text \<open>The bytes written to \<open>p\<close>; their number is the result, also when \<open>p\<close> is NULL.\<close>

definition zipEncodeLength :: "nat \<Rightarrow> nat \<Rightarrow> byte list" where
  "zipEncodeLength enc rawlen =
     (if ZIP_IS_STR enc then
        if rawlen \<le> 0x3f then [of_nat (ZIP_STR_06B + rawlen)]
        else if rawlen \<le> 0x3fff then [of_nat (ZIP_STR_14B + rawlen div 2 ^ 8 mod 64), of_nat (rawlen mod 256)]
        else of_nat ZIP_STR_32B # be_bytes 4 (int rawlen)
      else [of_nat enc])"

definition zipPrevEncodeLength :: "nat \<Rightarrow> byte list" where
  "zipPrevEncodeLength len =
     (if len < ZIP_BIGLEN then [of_nat len] else of_nat ZIP_BIGLEN # le_bytes 4 (int len))"

definition zipPrevEncodeLengthForceLarge :: "nat \<Rightarrow> byte list" where
  "zipPrevEncodeLengthForceLarge len = of_nat ZIP_BIGLEN # le_bytes 4 (int len)"

definition ZIP_DECODE_PREVLENSIZE :: "ziplist \<Rightarrow> nat \<Rightarrow> nat option" where
  "ZIP_DECODE_PREVLENSIZE zl p =
     do { b \<leftarrow> byte_of zl p; Some (if b < ZIP_BIGLEN then 1 else 5) }"

definition ZIP_DECODE_PREVLEN :: "ziplist \<Rightarrow> nat \<Rightarrow> (nat \<times> nat) option" where
  "ZIP_DECODE_PREVLEN zl p =
     do { prevlensize \<leftarrow> ZIP_DECODE_PREVLENSIZE zl p;
          prevlen \<leftarrow> (if prevlensize = 1 then byte_of zl p else get_le 4 zl (p + 1));
          Some (prevlensize, prevlen) }"

definition ZIP_DECODE_LENGTH :: "ziplist \<Rightarrow> nat \<Rightarrow> (nat \<times> nat \<times> nat) option" where
  "ZIP_DECODE_LENGTH zl p =
     do { b \<leftarrow> byte_of zl p;
          let enc = (if b < ZIP_STR_MASK then b div 64 * 64 else b);
          if enc < ZIP_STR_MASK then
            if enc = ZIP_STR_06B then Some (enc, 1, b mod 64)
            else if enc = ZIP_STR_14B then do { b1 \<leftarrow> byte_of zl (p + 1); Some (enc, 2, b mod 64 * 2 ^ 8 + b1) }
            else do { x \<leftarrow> read_bytes zl (p + 1) 4; Some (enc, 5, nat (be_uint x)) }
          else Some (enc, 1, zipIntSize enc) }"

definition zipPrevLenByteDiff :: "ziplist \<Rightarrow> nat \<Rightarrow> nat \<Rightarrow> int option" where
  "zipPrevLenByteDiff zl p len =
     do { prevlensize \<leftarrow> ZIP_DECODE_PREVLENSIZE zl p;
          Some (int (length (zipPrevEncodeLength len)) - int prevlensize) }"

definition zipRawEntryLength :: "ziplist \<Rightarrow> nat \<Rightarrow> nat option" where
  "zipRawEntryLength zl p =
     do { prevlensize \<leftarrow> ZIP_DECODE_PREVLENSIZE zl p;
          (enc, lensize, len) \<leftarrow> ZIP_DECODE_LENGTH zl (p + prevlensize);
          Some (prevlensize + lensize + len) }"

record zlentry =
  prevrawlensize :: nat
  prevrawlen :: nat
  lensize :: nat
  e_len :: nat
  headersize :: nat
  e_encoding :: nat
  e_p :: nat

definition zipEntry :: "ziplist \<Rightarrow> nat \<Rightarrow> zlentry option" where
  "zipEntry zl p =
     do { (ps, pl) \<leftarrow> ZIP_DECODE_PREVLEN zl p;
          (enc, ls, l) \<leftarrow> ZIP_DECODE_LENGTH zl (p + ps);
          Some \<lparr>prevrawlensize = ps, prevrawlen = pl, lensize = ls, e_len = l, headersize = ps + ls,
            e_encoding = enc, e_p = p\<rparr> }"

subsection \<open>Integers\<close>

definition int_encoding :: "int \<Rightarrow> nat" where
  "int_encoding value =
     (if 0 \<le> value \<and> value \<le> 12 then nat (int ZIP_INT_IMM_MIN + value)
      else if - (2 ^ 7) \<le> value \<and> value \<le> 2 ^ 7 - 1 then ZIP_INT_8B
      else if INT16_MIN \<le> value \<and> value \<le> INT16_MAX then ZIP_INT_16B
      else if INT24_MIN \<le> value \<and> value \<le> INT24_MAX then ZIP_INT_24B
      else if INT32_MIN \<le> value \<and> value \<le> INT32_MAX then ZIP_INT_32B
      else ZIP_INT_64B)"

text \<open>The value and its encoding, if the text is an integer.\<close>

definition zipTryEncoding :: "byte list \<Rightarrow> (int \<times> nat) option" where
  "zipTryEncoding entry =
     (if length entry \<ge> 32 \<or> length entry = 0 then None
      else map_option (\<lambda>value. (value, int_encoding value)) (string2ll entry))"

text \<open>The bytes that are written; 24 bit integers are the high three bytes of a shifted \<open>int32_t\<close>.\<close>

definition zipSaveInteger :: "int \<Rightarrow> nat \<Rightarrow> byte list option" where
  "zipSaveInteger value enc =
     (if enc = ZIP_INT_8B then Some (le_bytes 1 value)
      else if enc = ZIP_INT_16B then Some (le_bytes 2 value)
      else if enc = ZIP_INT_24B then Some (drop 1 (le_bytes 4 (value * 2 ^ 8)))
      else if enc = ZIP_INT_32B then Some (le_bytes 4 value)
      else if enc = ZIP_INT_64B then Some (le_bytes 8 value)
      else if ZIP_INT_IMM_MIN \<le> enc \<and> enc \<le> ZIP_INT_IMM_MAX then Some []
      else None)"

definition zipLoadInteger :: "ziplist \<Rightarrow> nat \<Rightarrow> nat \<Rightarrow> int option" where
  "zipLoadInteger zl p enc =
     (if enc = ZIP_INT_8B then map_option le_sint (read_bytes zl p 1)
      else if enc = ZIP_INT_16B then map_option le_sint (read_bytes zl p 2)
      else if enc = ZIP_INT_32B then map_option le_sint (read_bytes zl p 4)
      else if enc = ZIP_INT_24B then map_option (\<lambda>x. le_sint (0 # x) div 2 ^ 8) (read_bytes zl p 3)
      else if enc = ZIP_INT_64B then map_option le_sint (read_bytes zl p 8)
      else if ZIP_INT_IMM_MIN \<le> enc \<and> enc \<le> ZIP_INT_IMM_MAX then Some (int (enc mod 16) - 1)
      else None)"

subsection \<open>The list as a whole\<close>

definition ziplistNew :: "(nat \<Rightarrow> byte) \<Rightarrow> ziplist option" where
  "ziplistNew fresh =
     do { let bytes = ZIPLIST_HEADER_SIZE + 1;
          let zl = map fresh [0..<bytes];
          zl \<leftarrow> put_le 4 zl 0 (int bytes);
          zl \<leftarrow> put_le 4 zl 4 (int ZIPLIST_HEADER_SIZE);
          zl \<leftarrow> put_le 2 zl 8 0;
          write_bytes zl (bytes - 1) [of_nat ZIP_END] }"

definition ziplistResize :: "(nat \<Rightarrow> byte) \<Rightarrow> ziplist \<Rightarrow> nat \<Rightarrow> ziplist option" where
  "ziplistResize fresh zl len =
     do { let len = u32 (int len);
          let zl = resize_bytes fresh zl len;
          zl \<leftarrow> put_le 4 zl 0 (int len);
          write_bytes zl (len - 1) [of_nat ZIP_END] }"

partial_function (option) cascade_loop ::
  "(nat \<Rightarrow> byte) \<Rightarrow> ziplist \<Rightarrow> nat \<Rightarrow> nat \<Rightarrow> ziplist option"
where
  "cascade_loop fresh zl p curlen =
     do { b \<leftarrow> byte_of zl p;
          if b = ZIP_END then Some zl
          else do { cur \<leftarrow> zipEntry zl p;
            let rawlen = headersize cur + e_len cur;
            let rawlensize = length (zipPrevEncodeLength rawlen);
            b \<leftarrow> byte_of zl (p + rawlen);
            if b = ZIP_END then Some zl
            else do { nx \<leftarrow> zipEntry zl (p + rawlen);
              if prevrawlen nx = rawlen then Some zl
              else if prevrawlensize nx < rawlensize then
                do { let extra = rawlensize - prevrawlensize nx;
                     zl \<leftarrow> ziplistResize fresh zl (curlen + extra);
                     let np = p + rawlen;
                     tail \<leftarrow> ZIPLIST_TAIL_OFFSET zl;
                     zl \<leftarrow> (if tail \<noteq> np then set_tail zl (int (tail + extra)) else Some zl);
                     zl \<leftarrow> move_bytes zl (np + rawlensize) (np + prevrawlensize nx)
                       (curlen - np - prevrawlensize nx - 1);
                     zl \<leftarrow> write_bytes zl np (zipPrevEncodeLength rawlen);
                     cascade_loop fresh zl (p + rawlen) (curlen + extra) }
              else if prevrawlensize nx > rawlensize then
                write_bytes zl (p + rawlen) (zipPrevEncodeLengthForceLarge rawlen)
              else write_bytes zl (p + rawlen) (zipPrevEncodeLength rawlen) } } }"

definition ziplistCascadeUpdate :: "(nat \<Rightarrow> byte) \<Rightarrow> ziplist \<Rightarrow> nat \<Rightarrow> ziplist option" where
  "ziplistCascadeUpdate fresh zl p = do { curlen \<leftarrow> ZIPLIST_BYTES zl; cascade_loop fresh zl p curlen }"

text \<open>Past the entries to delete: the position behind them and their number.\<close>

fun skip_entries :: "ziplist \<Rightarrow> nat \<Rightarrow> nat \<Rightarrow> nat \<Rightarrow> (nat \<times> nat) option" where
  "skip_entries zl p 0 deleted = Some (p, deleted)"
| "skip_entries zl p (Suc n) deleted =
     do { b \<leftarrow> byte_of zl p;
          if b = ZIP_END then Some (p, deleted)
          else do { k \<leftarrow> zipRawEntryLength zl p; skip_entries zl (p + k) n (deleted + 1) } }"

definition ziplistDeleteAt :: "(nat \<Rightarrow> byte) \<Rightarrow> ziplist \<Rightarrow> nat \<Rightarrow> nat \<Rightarrow> ziplist option" where
  "ziplistDeleteAt fresh zl p num =
     do { first \<leftarrow> zipEntry zl p;
          (p, deleted) \<leftarrow> skip_entries zl p num 0;
          let totlen = p - e_p first;
          if totlen = 0 then Some zl
          else do {
            b \<leftarrow> byte_of zl p;
            (zl, nextdiff) \<leftarrow>
              (if b \<noteq> ZIP_END then
                 do { nextdiff \<leftarrow> zipPrevLenByteDiff zl p (prevrawlen first);
                      let p = nat (int p - nextdiff);
                      zl \<leftarrow> write_bytes zl p (zipPrevEncodeLength (prevrawlen first));
                      tail \<leftarrow> ZIPLIST_TAIL_OFFSET zl;
                      zl \<leftarrow> set_tail zl (int tail - int totlen);
                      te \<leftarrow> zipEntry zl p;
                      b \<leftarrow> byte_of zl (p + headersize te + e_len te);
                      zl \<leftarrow> (if b \<noteq> ZIP_END
                             then do { tail \<leftarrow> ZIPLIST_TAIL_OFFSET zl; set_tail zl (int tail + nextdiff) }
                             else Some zl);
                      bytes \<leftarrow> ZIPLIST_BYTES zl;
                      zl \<leftarrow> move_bytes zl (e_p first) p (bytes - p - 1);
                      Some (zl, nextdiff) }
               else do { zl \<leftarrow> set_tail zl (int (e_p first) - int (prevrawlen first)); Some (zl, 0) });
            bytes \<leftarrow> ZIPLIST_BYTES zl;
            zl \<leftarrow> ziplistResize fresh zl (nat (int bytes - int totlen + nextdiff));
            zl \<leftarrow> ZIPLIST_INCR_LENGTH zl (- int deleted);
            if nextdiff \<noteq> 0 then ziplistCascadeUpdate fresh zl (e_p first) else Some zl } }"

definition ziplistInsertAt :: "(nat \<Rightarrow> byte) \<Rightarrow> ziplist \<Rightarrow> nat \<Rightarrow> byte list \<Rightarrow> ziplist option" where
  "ziplistInsertAt fresh zl p s =
     do { curlen \<leftarrow> ZIPLIST_BYTES zl;
          b \<leftarrow> byte_of zl p;
          prevlen \<leftarrow>
            (if b \<noteq> ZIP_END then map_option prevrawlen (zipEntry zl p)
             else do { ptail \<leftarrow> ZIPLIST_TAIL_OFFSET zl;
                       t \<leftarrow> byte_of zl ptail;
                       if t \<noteq> ZIP_END then zipRawEntryLength zl ptail else Some 0 });
          let (enc, payload) = (case zipTryEncoding s of
             Some (value, enc) \<Rightarrow> (enc, zipSaveInteger value enc)
           | None \<Rightarrow> (0, Some s));
          let reqlen = (if zipTryEncoding s \<noteq> None then zipIntSize enc else length s)
            + length (zipPrevEncodeLength prevlen) + length (zipEncodeLength enc (length s));
          nextdiff \<leftarrow> (if b \<noteq> ZIP_END then zipPrevLenByteDiff zl p reqlen else Some 0);
          zl \<leftarrow> ziplistResize fresh zl (nat (int curlen + int reqlen + nextdiff));
          b \<leftarrow> byte_of zl p;
          zl \<leftarrow>
            (if b \<noteq> ZIP_END then
               do { zl \<leftarrow> move_bytes zl (p + reqlen) (nat (int p - nextdiff)) (nat (int curlen - int p - 1 + nextdiff));
                    zl \<leftarrow> write_bytes zl (p + reqlen) (zipPrevEncodeLength reqlen);
                    tail \<leftarrow> ZIPLIST_TAIL_OFFSET zl;
                    zl \<leftarrow> set_tail zl (int (tail + reqlen));
                    te \<leftarrow> zipEntry zl (p + reqlen);
                    b \<leftarrow> byte_of zl (p + reqlen + headersize te + e_len te);
                    if b \<noteq> ZIP_END
                    then do { tail \<leftarrow> ZIPLIST_TAIL_OFFSET zl; set_tail zl (int tail + nextdiff) }
                    else Some zl }
             else set_tail zl (int p));
          zl \<leftarrow> (if nextdiff \<noteq> 0 then ziplistCascadeUpdate fresh zl (p + reqlen) else Some zl);
          zl \<leftarrow> write_bytes zl p (zipPrevEncodeLength prevlen);
          let p = p + length (zipPrevEncodeLength prevlen);
          zl \<leftarrow> write_bytes zl p (zipEncodeLength enc (length s));
          let p = p + length (zipEncodeLength enc (length s));
          bytes \<leftarrow> payload;
          zl \<leftarrow> write_bytes zl p bytes;
          ZIPLIST_INCR_LENGTH zl 1 }"

subsection \<open>Access\<close>

definition ziplistInsert :: "(nat \<Rightarrow> byte) \<Rightarrow> ziplist \<Rightarrow> nat \<Rightarrow> byte list \<Rightarrow> ziplist option" where
  "ziplistInsert fresh zl p s = ziplistInsertAt fresh zl p s"

definition ziplistPush :: "(nat \<Rightarrow> byte) \<Rightarrow> ziplist \<Rightarrow> byte list \<Rightarrow> bool \<Rightarrow> ziplist option" where
  "ziplistPush fresh zl s head =
     do { p \<leftarrow> (if head then Some ZIPLIST_HEADER_SIZE else do { n \<leftarrow> ZIPLIST_BYTES zl; Some (n - 1) });
          ziplistInsertAt fresh zl p s }"

text \<open>\<open>while (p[0] != ZIP_END && index--) p += zipRawEntryLength (p)\<close> with the index it leaves.\<close>

fun index_forward :: "ziplist \<Rightarrow> nat \<Rightarrow> nat \<Rightarrow> (nat \<times> int) option" where
  "index_forward zl p 0 =
     do { b \<leftarrow> byte_of zl p; Some (p, if b = ZIP_END then 0 else - 1) }"
| "index_forward zl p (Suc n) =
     do { b \<leftarrow> byte_of zl p;
          if b = ZIP_END then Some (p, int (Suc n))
          else do { k \<leftarrow> zipRawEntryLength zl p; index_forward zl (p + k) n } }"

fun index_backward :: "ziplist \<Rightarrow> nat \<Rightarrow> nat \<Rightarrow> (nat \<times> int) option" where
  "index_backward zl p 0 =
     do { e \<leftarrow> zipEntry zl p; Some (p, if prevrawlen e > 0 then - 1 else 0) }"
| "index_backward zl p (Suc n) =
     do { e \<leftarrow> zipEntry zl p;
          if prevrawlen e > 0 then
            do { check (prevrawlen e \<le> p); index_backward zl (p - prevrawlen e) n }
          else Some (p, int (Suc n)) }"

definition ziplistIndex :: "ziplist \<Rightarrow> int \<Rightarrow> nat option option" where
  "ziplistIndex zl index =
     do { (p, index) \<leftarrow>
            (if index < 0 then
               do { let index = - index - 1;
                    p \<leftarrow> ZIPLIST_TAIL_OFFSET zl;
                    b \<leftarrow> byte_of zl p;
                    if b \<noteq> ZIP_END then index_backward zl p (nat index) else Some (p, index) }
             else index_forward zl ZIPLIST_HEADER_SIZE (nat index));
          b \<leftarrow> byte_of zl p;
          Some (if b = ZIP_END \<or> index > 0 then None else Some p) }"

definition ziplistNext :: "ziplist \<Rightarrow> nat \<Rightarrow> nat option option" where
  "ziplistNext zl p =
     do { b \<leftarrow> byte_of zl p;
          if b = ZIP_END then Some None
          else do { k \<leftarrow> zipRawEntryLength zl p;
                    b \<leftarrow> byte_of zl (p + k);
                    Some (if b = ZIP_END then None else Some (p + k)) } }"

definition ziplistPrev :: "ziplist \<Rightarrow> nat \<Rightarrow> nat option option" where
  "ziplistPrev zl p =
     do { b \<leftarrow> byte_of zl p;
          if b = ZIP_END then
            do { t \<leftarrow> ZIPLIST_TAIL_OFFSET zl; b \<leftarrow> byte_of zl t; Some (if b = ZIP_END then None else Some t) }
          else if p = ZIPLIST_HEADER_SIZE then Some None
          else do { e \<leftarrow> zipEntry zl p; check (prevrawlen e > 0); check (prevrawlen e \<le> p);
                    Some (Some (p - prevrawlen e)) } }"

text \<open>The entry at \<open>p\<close>: its bytes, or its integer; \<open>Some None\<close> at the end.\<close>

definition ziplistGet :: "ziplist \<Rightarrow> nat option \<Rightarrow> (byte list + int) option option" where
  "ziplistGet zl q =
     (case q of None \<Rightarrow> Some None
      | Some p \<Rightarrow>
          do { b \<leftarrow> byte_of zl p;
               if b = ZIP_END then Some None
               else do { e \<leftarrow> zipEntry zl p;
                         if ZIP_IS_STR (e_encoding e)
                         then do { x \<leftarrow> read_bytes zl (p + headersize e) (e_len e); Some (Some (Inl x)) }
                         else do { v \<leftarrow> zipLoadInteger zl (p + headersize e) (e_encoding e); Some (Some (Inr v)) } } })"

definition ziplistDelete :: "(nat \<Rightarrow> byte) \<Rightarrow> ziplist \<Rightarrow> nat \<Rightarrow> (ziplist \<times> nat) option" where
  "ziplistDelete fresh zl p = do { zl \<leftarrow> ziplistDeleteAt fresh zl p 1; Some (zl, p) }"

definition ziplistDeleteRange :: "(nat \<Rightarrow> byte) \<Rightarrow> ziplist \<Rightarrow> nat \<Rightarrow> nat \<Rightarrow> ziplist option" where
  "ziplistDeleteRange fresh zl index num =
     do { q \<leftarrow> ziplistIndex zl (s32 (int index));
          case q of None \<Rightarrow> Some zl | Some p \<Rightarrow> ziplistDeleteAt fresh zl p num }"

text \<open>The comparison of an entry with a text, which \<open>ziplistCompare\<close> and \<open>ziplistFind\<close> share.\<close>

definition entry_equals :: "ziplist \<Rightarrow> nat \<Rightarrow> nat \<Rightarrow> nat \<Rightarrow> byte list \<Rightarrow> bool option" where
  "entry_equals zl q enc len s =
     (if ZIP_IS_STR enc then
        if len = length s then do { x \<leftarrow> read_bytes zl q len; Some (memcmp x s = 0) } else Some False
      else case zipTryEncoding s of
             None \<Rightarrow> Some False
           | Some (sval, _) \<Rightarrow> do { zval \<leftarrow> zipLoadInteger zl q enc; Some (zval = sval) })"

definition ziplistCompare :: "ziplist \<Rightarrow> nat \<Rightarrow> byte list \<Rightarrow> bool option" where
  "ziplistCompare zl p s =
     do { b \<leftarrow> byte_of zl p;
          if b = ZIP_END then Some False
          else do { e \<leftarrow> zipEntry zl p; entry_equals zl (p + headersize e) (e_encoding e) (e_len e) s } }"

partial_function (option) find_loop ::
  "ziplist \<Rightarrow> nat \<Rightarrow> byte list \<Rightarrow> nat \<Rightarrow> nat \<Rightarrow> nat option option"
where
  "find_loop zl p s skip skipcnt =
     do { b \<leftarrow> byte_of zl p;
          if b = ZIP_END then Some None
          else do { ps \<leftarrow> ZIP_DECODE_PREVLENSIZE zl p;
                    (enc, ls, l) \<leftarrow> ZIP_DECODE_LENGTH zl (p + ps);
                    let q = p + ps + ls;
                    eq \<leftarrow> (if skipcnt = 0 then entry_equals zl q enc l s else Some False);
                    if eq then Some (Some p)
                    else find_loop zl (q + l) s skip (if skipcnt = 0 then skip else skipcnt - 1) } }"

definition ziplistFind :: "ziplist \<Rightarrow> nat \<Rightarrow> byte list \<Rightarrow> nat \<Rightarrow> nat option option" where
  "ziplistFind zl p s skip = find_loop zl p s skip 0"

text \<open>The loop that counts, started at the first entry.\<close>

partial_function (option) count_loop :: "ziplist \<Rightarrow> nat \<Rightarrow> nat \<Rightarrow> nat option" where
  "count_loop zl p n =
     do { b \<leftarrow> byte_of zl p;
          if b = ZIP_END then Some n
          else do { k \<leftarrow> zipRawEntryLength zl p; count_loop zl (p + k) (n + 1) } }"

definition ziplistLen :: "ziplist \<Rightarrow> (ziplist \<times> nat) option" where
  "ziplistLen zl =
     do { n \<leftarrow> ZIPLIST_LENGTH zl;
          if n < 2 ^ 16 - 1 then Some (zl, n)
          else do { n \<leftarrow> count_loop zl ZIPLIST_HEADER_SIZE 0;
                    zl \<leftarrow> (if n < 2 ^ 16 - 1 then put_le 2 zl 8 (int n) else Some zl);
                    Some (zl, n) } }"

definition ziplistBlobLen :: "ziplist \<Rightarrow> nat option" where
  "ziplistBlobLen zl = ZIPLIST_BYTES zl"

end
