(* ===== verification/Ziplist_List.thy ===== *)
theory Ziplist_List
  imports Ziplist
begin

text \<open>
  A ziplist as a list of entries. An entry is a flag, whether the length before it takes five bytes,
  and a body: the encoding, the length and the bytes of its value. \<open>chain n es\<close> is the buffer of the
  entries \<open>es\<close> behind an entry of length \<open>n\<close>. The lemmas take the accessors of the code to this view;
  every buffer is split into what lies before, at, and behind the place of an access.
\<close>

named_theorems zip_reads \<open>what the accessors read at an entry\<close>

subsection \<open>Reads and writes inside a buffer\<close>

lemma read_bytes_inside:
  assumes "read_bytes x k n = Some y" and "q = length a + k"
  shows "read_bytes (a @ x @ r) q n = Some y"
proof -
  have "k + n \<le> length x" using assms(1) by (simp add: read_bytes_def split: if_splits)
  then show ?thesis using assms by (auto simp: read_bytes_def split: if_splits)
qed

lemma byte_of_inside: "byte_of x k = Some b \<Longrightarrow> q = length a + k \<Longrightarrow> byte_of (a @ x @ r) q = Some b"
  using read_bytes_inside by (fastforce simp: byte_of_def)

lemma byte_of_Cons [zip_reads]: "q = length a \<Longrightarrow> byte_of (a @ c # r) q = Some (unat c)"
  using read_bytes_mid [of q a 1 "[c]" r] by (simp add: byte_of_def)

lemma get_le_mid: "q = length a \<Longrightarrow> n = length x \<Longrightarrow> get_le n (a @ x @ r) q = Some (nat (le_uint x))"
  by (simp add: get_le_def read_bytes_mid)

lemma move_block:
  assumes "b = a @ z @ c" and "src = length a" and "n = length z" and "dst + n \<le> length b"
  shows "move_bytes b dst src n = Some (take dst b @ z @ drop (dst + n) b)"
  using assms by (simp add: move_bytes_def read_bytes_mid write_bytes_def)

subsection \<open>The header of the list\<close>

definition hdr :: "int \<Rightarrow> int \<Rightarrow> int \<Rightarrow> byte list" where
  "hdr bytes tail n = le_bytes 4 bytes @ le_bytes 4 tail @ le_bytes 2 n"

lemma length_hdr [simp]: "length (hdr l t n) = 10"
  by (simp add: hdr_def)

lemma hdr_reads [zip_reads]:
  "0 \<le> l \<Longrightarrow> l < 2 ^ 32 \<Longrightarrow> ZIPLIST_BYTES (hdr l t n @ z) = Some (nat l)"
  "0 \<le> t \<Longrightarrow> t < 2 ^ 32 \<Longrightarrow> ZIPLIST_TAIL_OFFSET (hdr l t n @ z) = Some (nat t)"
  "0 \<le> n \<Longrightarrow> n < 2 ^ 16 \<Longrightarrow> ZIPLIST_LENGTH (hdr l t n @ z) = Some (nat n)"
proof -
  show "ZIPLIST_BYTES (hdr l t n @ z) = Some (nat l)" if "0 \<le> l" "l < 2 ^ 32"
    using get_le_mid [of 0 "[]" 4 "le_bytes 4 l" "le_bytes 4 t @ le_bytes 2 n @ z"] that
    by (simp add: ZIPLIST_BYTES_def hdr_def codec_simps)
  show "ZIPLIST_TAIL_OFFSET (hdr l t n @ z) = Some (nat t)" if "0 \<le> t" "t < 2 ^ 32"
    using get_le_mid [of 4 "le_bytes 4 l" 4 "le_bytes 4 t" "le_bytes 2 n @ z"] that
    by (simp add: ZIPLIST_TAIL_OFFSET_def hdr_def codec_simps)
  show "ZIPLIST_LENGTH (hdr l t n @ z) = Some (nat n)" if "0 \<le> n" "n < 2 ^ 16"
    using get_le_mid [of 8 "le_bytes 4 l @ le_bytes 4 t" 2 "le_bytes 2 n" z] that
    by (simp add: ZIPLIST_LENGTH_def hdr_def codec_simps)
qed

lemma hdr_writes:
  "put_le 4 (hdr l t n @ z) 0 v = Some (hdr v t n @ z)"
  "set_tail (hdr l t n @ z) v = Some (hdr l v n @ z)"
  "put_le 2 (hdr l t n @ z) 8 v = Some (hdr l t v @ z)"
  using write_bytes_mid [of 0 "[]" "le_bytes 4 v" "le_bytes 4 l" "le_bytes 4 t @ le_bytes 2 n @ z"]
    write_bytes_mid [of 4 "le_bytes 4 l" "le_bytes 4 v" "le_bytes 4 t" "le_bytes 2 n @ z"]
    write_bytes_mid [of 8 "le_bytes 4 l @ le_bytes 4 t" "le_bytes 2 v" "le_bytes 2 n" z]
  by (simp_all add: put_le_def set_tail_def hdr_def)

lemma resize_len: "m < 2 ^ 32 \<Longrightarrow> u32 (int m) = m"
  by (simp add: u32_def)

lemma resize_zl_grow:
  assumes "m = 11 + length z + k" and m: "m < 2 ^ 32"
  shows "\<exists>y. ziplistResize fresh (hdr l t n @ z @ [d]) m = Some (hdr (int m) t n @ z @ y @ [255])
    \<and> length y = k \<and> (0 < k \<longrightarrow> hd y = d)"
proof -
  define f where "f = map fresh [11 + length z..<m]"
  have f: "length f = k" using assms by (simp add: f_def)
  have r: "resize_bytes fresh (hdr l t n @ z @ [d]) m = hdr l t n @ z @ d # f"
    using assms by (simp add: resize_grow f_def)
  show ?thesis
  proof (cases "f = []")
    case True
    have "write_bytes ((hdr (int m) t n @ z) @ [d] @ []) (m - 1) [255] = Some ((hdr (int m) t n @ z) @ [255] @ [])"
      by (rule write_bytes_mid) (use assms True f in simp_all)
    then show ?thesis unfolding ziplistResize_def Let_def resize_len [OF m] r using True f
      by (intro exI [of _ "[]"]) (simp add: hdr_writes ZIP_END_def)
  next
    case False
    then obtain g e where g: "f = g @ [e]" by (metis rev_exhaust)
    have "write_bytes ((hdr (int m) t n @ z @ d # g) @ [e] @ []) (m - 1) [255]
        = Some ((hdr (int m) t n @ z @ d # g) @ [255] @ [])"
      by (rule write_bytes_mid) (use assms g f in simp_all)
    then show ?thesis unfolding ziplistResize_def Let_def resize_len [OF m] r using g f
      by (intro exI [of _ "d # g"]) (simp add: hdr_writes ZIP_END_def)
  qed
qed

lemma resize_zl_shrink:
  assumes "z = u @ v" and "v \<noteq> []" and "m = 11 + length u" and m: "m < 2 ^ 32"
  shows "ziplistResize fresh (hdr l t n @ z) m = Some (hdr (int m) t n @ u @ [255])"
proof -
  obtain c w where v: "v = c # w" using assms(2) by (cases v) auto
  have r: "resize_bytes fresh (hdr l t n @ z) m = hdr l t n @ u @ [c]"
    using assms v by (simp add: resize_shrink)
  have "write_bytes ((hdr (int m) t n @ u) @ [c] @ []) (m - 1) [255] = Some ((hdr (int m) t n @ u) @ [255] @ [])"
    by (rule write_bytes_mid) (use assms in simp_all)
  then show ?thesis unfolding ziplistResize_def Let_def resize_len [OF m] r by (simp add: hdr_writes ZIP_END_def)
qed

lemma incr_length_hdr:
  assumes "0 \<le> n" and "n < 2 ^ 16"
  shows "ZIPLIST_INCR_LENGTH (hdr l t n @ z) k = Some (hdr l t (if n < 2 ^ 16 - 1 then n + k else n) @ z)"
  using assms by (simp add: ZIPLIST_INCR_LENGTH_def zip_reads hdr_writes nat_less_iff)

subsection \<open>Entries\<close>

type_synonym zent = "bool \<times> byte list"

definition psize :: "bool \<Rightarrow> nat" where "psize big = (if big then 5 else 1)"

definition prev_bytes :: "bool \<Rightarrow> nat \<Rightarrow> byte list" where
  "prev_bytes big n = (if big then 254 # le_bytes 4 (int n) else [of_nat n])"

definition body_ok :: "byte list \<Rightarrow> bool" where
  "body_ok x \<longleftrightarrow>
     (case ZIP_DECODE_LENGTH x 0 of None \<Rightarrow> False
      | Some (enc, ls, l) \<Rightarrow>
          length x = ls + l \<and> (ZIP_IS_STR enc \<or> (\<exists>v. zipLoadInteger x ls enc = Some v \<and> is_int64 v)))"

definition body_head :: "byte list \<Rightarrow> nat \<times> nat \<times> nat" where
  "body_head x = the (ZIP_DECODE_LENGTH x 0)"

definition ent_len :: "zent \<Rightarrow> nat" where "ent_len e = psize (fst e) + length (snd e)"

fun chain :: "nat \<Rightarrow> zent list \<Rightarrow> byte list" where
  "chain n [] = []"
| "chain n (e # es) = prev_bytes (fst e) n @ snd e @ chain (ent_len e) es"

fun chain_ok :: "nat \<Rightarrow> zent list \<Rightarrow> bool" where
  "chain_ok n [] = True"
| "chain_ok n (e # es) = ((fst e \<or> n < 254) \<and> body_ok (snd e) \<and> chain_ok (ent_len e) es)"

definition last_len :: "nat \<Rightarrow> zent list \<Rightarrow> nat" where
  "last_len n es = (if es = [] then n else ent_len (last es))"

definition tail_pos :: "zent list \<Rightarrow> nat" where
  "tail_pos es = sum_list (map ent_len (butlast es))"

lemma length_prev_bytes [simp]: "length (prev_bytes b n) = psize b"
  by (simp add: prev_bytes_def psize_def)

lemma psize_simps [simp]: "psize True = 5" "psize False = 1"
  by (simp_all add: psize_def)

lemma ent_len_pair [simp]: "ent_len (b, x) = psize b + length x"
  by (simp add: ent_len_def)

lemma psize_pos [simp]: "0 < psize b"
  by (simp add: psize_def)

lemma length_chain: "length (chain n es) = sum_list (map ent_len es)"
  by (induction es arbitrary: n) (simp_all add: ent_len_def)

lemma chain_append: "chain n (es @ fs) = chain n es @ chain (last_len n es) fs"
  by (induction es arbitrary: n) (auto simp: last_len_def)

lemma chain_ok_append: "chain_ok n (es @ fs) \<longleftrightarrow> chain_ok n es \<and> chain_ok (last_len n es) fs"
  by (induction es arbitrary: n) (auto simp: last_len_def)

lemma tail_pos_append: "fs \<noteq> [] \<Longrightarrow> tail_pos (es @ fs) = sum_list (map ent_len es) + tail_pos fs"
  by (simp add: tail_pos_def butlast_append)

lemma tail_pos_Cons: "tail_pos (e # es) = (if es = [] then 0 else ent_len e + tail_pos es)"
  by (simp add: tail_pos_def)

lemma tail_pos_le: "tail_pos es \<le> sum_list (map ent_len es)"
  by (induction es) (auto simp: tail_pos_def)

lemma zipPrevEncodeLength_bytes: "zipPrevEncodeLength n = prev_bytes (254 \<le> n) n"
  by (simp add: zipPrevEncodeLength_def prev_bytes_def ZIP_BIGLEN_def)

lemma ForceLarge_bytes: "zipPrevEncodeLengthForceLarge n = prev_bytes True n"
  by (simp add: zipPrevEncodeLengthForceLarge_def prev_bytes_def ZIP_BIGLEN_def)

subsection \<open>What the accessors read\<close>

lemma prev_bytes_hd:
  assumes "b \<or> n < 254"
  shows "\<exists>r. prev_bytes b n = of_nat (if b then 254 else n) # r"
  using assms by (auto simp: prev_bytes_def)

lemma unat_of_nat_byte: "n < 256 \<Longrightarrow> unat (of_nat n :: byte) = n"
  by (simp add: unat_of_nat)

lemma byte_of_entry [zip_reads]:
  assumes "q = length a" and "b \<or> n < 254"
  shows "byte_of (a @ prev_bytes b n @ r) q = Some (if b then 254 else n)"
proof -
  obtain y where "prev_bytes b n = of_nat (if b then 254 else n) # y" using prev_bytes_hd [OF assms(2)] by blast
  then show ?thesis using assms byte_of_Cons [OF assms(1)] by (auto simp: unat_of_nat_byte)
qed

lemma prevlensize_entry [zip_reads]:
  "q = length a \<Longrightarrow> b \<or> n < 254 \<Longrightarrow> ZIP_DECODE_PREVLENSIZE (a @ prev_bytes b n @ r) q = Some (psize b)"
  by (auto simp: ZIP_DECODE_PREVLENSIZE_def byte_of_entry ZIP_BIGLEN_def psize_def)

lemma prevlen_entry [zip_reads]:
  assumes "q = length a" and "b \<or> n < 254" and "n < 2 ^ 32"
  shows "ZIP_DECODE_PREVLEN (a @ prev_bytes b n @ r) q = Some (psize b, n)"
proof (cases b)
  case True
  have "get_le 4 ((a @ [254]) @ le_bytes 4 (int n) @ r) (length a + 1) = Some n"
    using assms(3) by (subst get_le_mid) (simp_all add: codec_simps)
  then show ?thesis using True assms prevlensize_entry [OF assms(1,2), of r]
    by (simp add: ZIP_DECODE_PREVLEN_def prev_bytes_def psize_def)
next
  case False
  then show ?thesis using assms prevlensize_entry [OF assms(1,2), of r] byte_of_entry [OF assms(1,2), of r]
    by (simp add: ZIP_DECODE_PREVLEN_def psize_def)
qed

lemma decode_length_inside:
  assumes "ZIP_DECODE_LENGTH x 0 = Some t" and "q = length a"
  shows "ZIP_DECODE_LENGTH (a @ x @ r) q = Some t"
proof -
  obtain b where b: "byte_of x 0 = Some b" using assms(1) by (cases "byte_of x 0") (auto simp: ZIP_DECODE_LENGTH_def)
  have "byte_of (a @ x @ r) q = Some b" using b assms(2) by (intro byte_of_inside) simp_all
  moreover have "byte_of x 1 = Some c \<Longrightarrow> byte_of (a @ x @ r) (q + 1) = Some c" for c
    by (rule byte_of_inside [of x 1]) (simp_all add: assms(2))
  moreover have "read_bytes x 1 4 = Some y \<Longrightarrow> read_bytes (a @ x @ r) (q + 1) 4 = Some y" for y
    by (rule read_bytes_inside) (simp_all add: assms(2))
  ultimately show ?thesis using assms(1) b
    by (auto simp: ZIP_DECODE_LENGTH_def Let_def bind_eq_Some_conv split: if_splits)
qed

lemma load_integer_inside:
  assumes "zipLoadInteger x k enc = Some v" and "q = length a + k"
  shows "zipLoadInteger (a @ x @ r) q enc = Some v"
proof -
  have "read_bytes x k n = Some y \<Longrightarrow> read_bytes (a @ x @ r) q n = Some y" for n y
    using assms(2) by (rule read_bytes_inside [rotated])
  then show ?thesis using assms(1) by (auto simp: zipLoadInteger_def split: if_splits)
qed

lemma body_okE:
  assumes "body_ok x"
  obtains enc ls l where "ZIP_DECODE_LENGTH x 0 = Some (enc, ls, l)" "body_head x = (enc, ls, l)" "length x = ls + l"
    "ZIP_IS_STR enc \<or> (\<exists>v. zipLoadInteger x ls enc = Some v \<and> is_int64 v)"
  using assms by (auto simp: body_ok_def body_head_def split: option.splits)

lemma zipEntry_entry [zip_reads]:
  assumes "q = length a" and "b \<or> n < 254" and "n < 2 ^ 32" and "body_ok x" and "body_head x = (enc, ls, l)"
  shows "zipEntry (a @ prev_bytes b n @ x @ r) q = Some \<lparr>prevrawlensize = psize b, prevrawlen = n,
    lensize = ls, e_len = l, headersize = psize b + ls, e_encoding = enc, e_p = q\<rparr>"
proof -
  have "ZIP_DECODE_LENGTH x 0 = Some (enc, ls, l)" using assms(4,5) by (auto elim: body_okE)
  then have "ZIP_DECODE_LENGTH ((a @ prev_bytes b n) @ x @ r) (q + psize b) = Some (enc, ls, l)"
    by (rule decode_length_inside) (simp add: assms(1))
  then show ?thesis using prevlen_entry [OF assms(1-3), of "x @ r"] by (simp add: zipEntry_def)
qed

lemma raw_length_entry [zip_reads]:
  assumes "q = length a" and "b \<or> n < 254" and "body_ok x"
  shows "zipRawEntryLength (a @ prev_bytes b n @ x @ r) q = Some (psize b + length x)"
proof -
  obtain enc ls l where d: "ZIP_DECODE_LENGTH x 0 = Some (enc, ls, l)" "length x = ls + l"
    using assms(3) by (auto elim: body_okE)
  then have "ZIP_DECODE_LENGTH ((a @ prev_bytes b n) @ x @ r) (q + psize b) = Some (enc, ls, l)"
    by (intro decode_length_inside) (simp_all add: assms(1))
  then show ?thesis using prevlensize_entry [OF assms(1,2), of "x @ r"] d(2) by (simp add: zipRawEntryLength_def)
qed

lemma byte_of_chain:
  assumes "q = length a" and "chain_ok m es"
  shows "\<exists>c. byte_of (a @ chain m es @ [255]) q = Some c \<and> (c = ZIP_END \<longleftrightarrow> es = [])"
proof (cases es)
  case Nil
  then show ?thesis using byte_of_Cons [OF assms(1), of 255 "[]"] by (simp add: ZIP_END_def)
next
  case (Cons e fs)
  then have "fst e \<or> m < 254" using assms(2) by simp
  then show ?thesis using byte_of_entry [OF assms(1), of "fst e" m "snd e @ chain (ent_len e) fs @ [255]"] Cons
    by (auto simp: ZIP_END_def)
qed

subsection \<open>The cascade\<close>

text \<open>
  What the cascade does to the entries behind one of length \<open>raw\<close>: as long as the length needs five
  bytes and the next entry has one, that entry grows, and its new length is passed on.
\<close>

fun cas :: "nat \<Rightarrow> zent list \<Rightarrow> zent list" where
  "cas raw [] = []"
| "cas raw (e # es) =
     (if 254 \<le> raw \<and> \<not> fst e then (True, snd e) # cas (5 + length (snd e)) es else e # es)"

lemma cas_bodies [simp]: "map snd (cas raw es) = map snd es"
  by (induction raw es rule: cas.induct) auto

lemma cas_ok: "chain_ok m es \<Longrightarrow> chain_ok raw (cas raw es)"
proof (induction raw es arbitrary: m rule: cas.induct)
  case (2 raw e es)
  then show ?case by (auto simp: ent_len_def psize_def)
qed simp

lemma cas_length: "sum_list (map ent_len (cas raw es)) \<le> sum_list (map ent_len es) + 4 * length es"
  by (induction raw es rule: cas.induct) (auto simp: ent_len_def psize_def)

lemma cas_empty [simp]: "cas raw es = [] \<longleftrightarrow> es = []"
  by (cases es) auto

text \<open>Moving the rest of the buffer up and writing a longer field in front of it.\<close>

lemma shift_write:
  assumes "b = a @ q @ z @ y @ [d]" and "np = length a" and "length w = length q + length y"
  shows "\<exists>b'. move_bytes b (np + length w) (np + length q) (length z) = Some b'
    \<and> write_bytes b' np w = Some (a @ w @ z @ [d])"
proof -
  have "move_bytes b (np + length w) (np + length q) (length z)
      = Some (take (np + length w) b @ z @ drop (np + length w + length z) b)"
    by (rule move_block [of b "a @ q" z "y @ [d]"]) (use assms in simp_all)
  moreover have "drop (np + length w + length z) b = [d]" using assms by simp
  moreover obtain u where "take (np + length w) b = a @ u" "length u = length w"
    using assms by (intro that [of "take (length w) (q @ z @ y @ [d])"]) simp_all
  ultimately show ?thesis using assms(2) by (simp add: write_bytes_mid)
qed

text \<open>One round of the loop, over an opaque buffer.\<close>

lemma cascade_loop_step:
  assumes "byte_of zl p = Some b0" and "b0 \<noteq> ZIP_END" and "zipEntry zl p = Some cur"
    and "headersize cur + e_len cur = raw" and "byte_of zl (p + raw) = Some b1"
  shows cascade_stop: "b1 = ZIP_END \<Longrightarrow> cascade_loop fresh zl p curlen = Some zl"
    and cascade_same: "b1 \<noteq> ZIP_END \<Longrightarrow> zipEntry zl (p + raw) = Some nx \<Longrightarrow> prevrawlen nx = raw
      \<Longrightarrow> cascade_loop fresh zl p curlen = Some zl"
    and cascade_write: "b1 \<noteq> ZIP_END \<Longrightarrow> zipEntry zl (p + raw) = Some nx \<Longrightarrow> prevrawlen nx \<noteq> raw
      \<Longrightarrow> prevrawlensize nx = psize big \<Longrightarrow> big \<or> raw < 254
      \<Longrightarrow> cascade_loop fresh zl p curlen = write_bytes zl (p + raw) (prev_bytes big raw)"
    and cascade_grow: "b1 \<noteq> ZIP_END \<Longrightarrow> zipEntry zl (p + raw) = Some nx \<Longrightarrow> prevrawlen nx \<noteq> raw
      \<Longrightarrow> prevrawlensize nx = 1 \<Longrightarrow> 254 \<le> raw
      \<Longrightarrow> ziplistResize fresh zl (curlen + 4) = Some zl1
      \<Longrightarrow> ZIPLIST_TAIL_OFFSET zl1 = Some t
      \<Longrightarrow> (if t \<noteq> p + raw then set_tail zl1 (int (t + 4)) else Some zl1) = Some zl2
      \<Longrightarrow> move_bytes zl2 (p + raw + 5) (p + raw + 1) (curlen - (p + raw) - 1 - 1) = Some zl3
      \<Longrightarrow> write_bytes zl3 (p + raw) (prev_bytes True raw) = Some zl4
      \<Longrightarrow> cascade_loop fresh zl p curlen = cascade_loop fresh zl4 (p + raw) (curlen + 4)"
  using assms
  by (subst cascade_loop.simps;
      auto simp: Let_def zipPrevEncodeLength_bytes ForceLarge_bytes psize_def prev_bytes_def; fail)+

lemma grow_entry:
  assumes "np = 10 + length a" and "curlen = 12 + length a + length z" and "t + 4 < 2 ^ 32" and small: "curlen + 4 < 2 ^ 32"
  shows "\<exists>zl1 zl2 zl3. ziplistResize fresh (hdr (int curlen) (int t) c @ a @ prev_bytes False m @ z @ [255]) (curlen + 4) = Some zl1
    \<and> ZIPLIST_TAIL_OFFSET zl1 = Some t
    \<and> (if t \<noteq> np then set_tail zl1 (int (t + 4)) else Some zl1) = Some zl2
    \<and> move_bytes zl2 (np + 5) (np + 1) (curlen - np - 1 - 1) = Some zl3
    \<and> write_bytes zl3 np (prev_bytes True raw)
      = Some (hdr (int (curlen + 4)) (int (if t \<noteq> np then t + 4 else t)) c @ a @ prev_bytes True raw @ z @ [255])"
proof -
  let ?z = "a @ prev_bytes False m @ z"
  obtain y where y: "ziplistResize fresh (hdr (int curlen) (int t) c @ ?z @ [255]) (curlen + 4)
      = Some (hdr (int (curlen + 4)) (int t) c @ ?z @ y @ [255])" "length y = 4"
    using resize_zl_grow [of "curlen + 4" ?z 4 fresh "int curlen" "int t" c 255] assms(2) small by (auto simp: psize_def)
  define h where "h = hdr (int (curlen + 4)) (int (if t \<noteq> np then t + 4 else t)) c"
  have "\<exists>b'. move_bytes (h @ ?z @ y @ [255]) (np + length (prev_bytes True raw)) (np + length (prev_bytes False m)) (length z) = Some b'
      \<and> write_bytes b' np (prev_bytes True raw) = Some ((h @ a) @ prev_bytes True raw @ z @ [255])"
    by (rule shift_write) (use assms(1) y(2) in \<open>simp_all add: h_def psize_def\<close>)
  then obtain zl3 where m: "move_bytes (h @ ?z @ y @ [255]) (np + 5) (np + 1) (length z) = Some zl3"
      "write_bytes zl3 np (prev_bytes True raw) = Some (h @ a @ prev_bytes True raw @ z @ [255])"
    by (auto simp: psize_def)
  have n: "curlen - np - 1 - 1 = length z" using assms(1,2) by simp
  show ?thesis unfolding n
    using y(1) m assms(3) hdr_reads(2) [of "int t" "int (curlen + 4)" c "?z @ y @ [255]"]
      hdr_writes(2) [of "int (curlen + 4)" "int t" c "?z @ y @ [255]" "int (t + 4)"]
    by (intro exI [of _ "hdr (int (curlen + 4)) (int t) c @ ?z @ y @ [255]"] exI [of _ "h @ ?z @ y @ [255]"] exI [of _ zl3])
      (auto simp: h_def)
qed

lemma cascade_loop_chain:
  "body_ok x \<Longrightarrow> b \<or> n < 254 \<Longrightarrow> n < 2 ^ 32 \<Longrightarrow> m < 2 ^ 32 \<Longrightarrow> chain_ok m es \<Longrightarrow>
   raw = psize b + length x \<Longrightarrow> curlen = 11 + length pre + raw + sum_list (map ent_len es) \<Longrightarrow>
   curlen + 4 * length es < 2 ^ 32 \<Longrightarrow> t = 10 + length pre + tail_pos ((b, x) # es) \<Longrightarrow>
   cascade_loop fresh (hdr (int curlen) (int t) c @ pre @ prev_bytes b n @ x @ chain m es @ [255])
     (10 + length pre) curlen
   = Some (hdr (int (11 + length pre + raw + sum_list (map ent_len (cas raw es))))
       (int (10 + length pre + tail_pos ((b, x) # cas raw es))) c
       @ pre @ prev_bytes b n @ x @ chain raw (cas raw es) @ [255])"
proof (induction es arbitrary: pre b n x m raw curlen t)
  case Nil
  let ?h = "hdr (int curlen) (int t) c"
  define zl where "zl = ?h @ pre @ prev_bytes b n @ x @ [255]"
  obtain enc ls l where h: "body_head x = (enc, ls, l)" "length x = ls + l"
    using Nil.prems(1) by (auto elim: body_okE)
  have b1: "byte_of zl (10 + length pre) = Some (if b then 254 else n)"
    using byte_of_entry [of "10 + length pre" "?h @ pre" b n "x @ [255]"] Nil.prems(2) by (simp add: zl_def)
  have b2: "byte_of zl (10 + length pre + raw) = Some ZIP_END"
    using byte_of_Cons [of "10 + length pre + raw" "?h @ pre @ prev_bytes b n @ x" 255 "[]"] Nil.prems(6)
    by (simp add: zl_def ZIP_END_def)
  have e1: "zipEntry zl (10 + length pre)
    = Some \<lparr>prevrawlensize = psize b, prevrawlen = n, lensize = ls, e_len = l, headersize = psize b + ls,
        e_encoding = enc, e_p = 10 + length pre\<rparr>"
    using zipEntry_entry [of "10 + length pre" "?h @ pre" b n x enc ls l "[255]"] Nil.prems h by (simp add: zl_def)
  have "cascade_loop fresh zl (10 + length pre) curlen = Some zl"
    by (rule cascade_stop [OF b1 _ e1 _ b2]) (use Nil.prems(2,6) h in \<open>auto simp: ZIP_END_def\<close>)
  then show ?case using Nil.prems(7,9) by (simp add: zl_def)
next
  case (Cons e es)
  let ?h = "hdr (int curlen) (int t) c"
  define r where "r = chain (ent_len e) es"
  define np where "np = 10 + length pre + raw"
  define zl where "zl = ?h @ pre @ prev_bytes b n @ x @ prev_bytes (fst e) m @ snd e @ r @ [255]"
  obtain enc ls l where h: "body_head x = (enc, ls, l)" "length x = ls + l"
    using Cons.prems(1) by (auto elim: body_okE)
  have e: "body_ok (snd e)" "fst e \<or> m < 254" "chain_ok (ent_len e) es" using Cons.prems(5) by simp_all
  obtain enc2 ls2 l2 where h2: "body_head (snd e) = (enc2, ls2, l2)" using e(1) by (auto elim: body_okE)
  have zl: "?h @ pre @ prev_bytes b n @ x @ chain m (e # es) @ [255] = zl" by (simp add: zl_def r_def)
  have b1: "byte_of zl (10 + length pre) = Some (if b then 254 else n)"
    using byte_of_entry [of "10 + length pre" "?h @ pre" b n "x @ prev_bytes (fst e) m @ snd e @ r @ [255]"]
      Cons.prems(2) by (simp add: zl_def)
  have e1: "zipEntry zl (10 + length pre)
    = Some \<lparr>prevrawlensize = psize b, prevrawlen = n, lensize = ls, e_len = l, headersize = psize b + ls,
        e_encoding = enc, e_p = 10 + length pre\<rparr>"
    using zipEntry_entry [of "10 + length pre" "?h @ pre" b n x enc ls l "prev_bytes (fst e) m @ snd e @ r @ [255]"]
      Cons.prems h by (simp add: zl_def)
  have b2: "byte_of zl (10 + length pre + raw) = Some (if fst e then 254 else m)"
    using byte_of_entry [of np "?h @ pre @ prev_bytes b n @ x" "fst e" m "snd e @ r @ [255]"] e(2) Cons.prems(6)
    by (simp add: np_def zl_def)
  have e2: "zipEntry zl (10 + length pre + raw)
    = Some \<lparr>prevrawlensize = psize (fst e), prevrawlen = m, lensize = ls2, e_len = l2,
        headersize = psize (fst e) + ls2, e_encoding = enc2, e_p = np\<rparr>"
    using zipEntry_entry [of np "?h @ pre @ prev_bytes b n @ x" "fst e" m "snd e" enc2 ls2 l2 "r @ [255]"]
      e h2 Cons.prems(4,6) by (simp add: np_def zl_def)
  have n1: "(if b then 254 else n) \<noteq> ZIP_END" and n2: "(if fst e then 254 else m) \<noteq> ZIP_END"
    using Cons.prems(2) e(2) by (auto simp: ZIP_END_def)
  have raw: "psize b + ls + l = raw" using Cons.prems(6) h(2) by simp
  note stepf = b1 n1 e1 _ b2
  have sum: "curlen = 11 + length pre + raw + ent_len e + sum_list (map ent_len es)"
    using Cons.prems(7) by simp
  consider "m = raw" | "m \<noteq> raw" "fst e \<or> raw < 254" | "m \<noteq> raw" "\<not> fst e" "254 \<le> raw" by linarith
  then show ?case
  proof cases
    case 1
    have "cascade_loop fresh zl (10 + length pre) curlen = Some zl"
      by (rule cascade_same [OF stepf n2 e2]) (use raw 1 in simp_all)
    moreover have "cas raw (e # es) = e # es" using 1 e(2) by auto
    ultimately show ?thesis unfolding zl using Cons.prems(7,9) 1 by (simp add: zl_def r_def)
  next
    case 2
    have "cascade_loop fresh zl (10 + length pre) curlen
        = write_bytes zl (10 + length pre + raw) (prev_bytes (fst e) raw)"
      by (rule cascade_write [OF stepf n2 e2]) (use raw 2 in simp_all)
    also have "\<dots> = Some (?h @ pre @ prev_bytes b n @ x @ prev_bytes (fst e) raw @ snd e @ r @ [255])"
      using write_bytes_mid [of np "?h @ pre @ prev_bytes b n @ x" "prev_bytes (fst e) raw" "prev_bytes (fst e) m"
          "snd e @ r @ [255]"] Cons.prems(6) by (simp add: zl_def np_def)
    also have "cas raw (e # es) = e # es" using 2 by auto
    ultimately show ?thesis unfolding zl using Cons.prems(7,9) by (simp add: r_def)
  next
    case 3
    define a where "a = pre @ prev_bytes b n @ x"
    define z where "z = snd e @ r"
    define t' where "t' = (if t \<noteq> np then t + 4 else t)"
    have es: "t \<noteq> np \<longleftrightarrow> es \<noteq> []"
      using Cons.prems(6,9) by (auto simp: np_def tail_pos_Cons ent_len_def)
    have lz: "length z + 1 = ent_len e + sum_list (map ent_len es)"
      using 3(2) by (simp add: z_def r_def length_chain ent_len_def psize_def)
    have zl': "zl = hdr (int curlen) (int t) c @ a @ prev_bytes False m @ z @ [255]"
      using 3(2) by (simp add: zl_def a_def z_def)
    have np: "np = 10 + length a" using Cons.prems(6) by (simp add: np_def a_def)
    have t: "t \<le> curlen" using Cons.prems(6,9) sum tail_pos_le [of "(b, x) # e # es"] ent_len_def [of "(b, x)"] by simp
    have cl: "curlen = 12 + length a + length z" using sum lz np by (simp add: np_def)
    have t4: "t + 4 < 2 ^ 32" using t Cons.prems(8) by simp
    have c4: "curlen + 4 < 2 ^ 32" using Cons.prems(8) by simp
    from grow_entry [OF np cl t4 c4, of fresh c m raw, folded zl' t'_def]
    obtain zl1 zl2 zl3 where g: "ziplistResize fresh zl (curlen + 4) = Some zl1" "ZIPLIST_TAIL_OFFSET zl1 = Some t"
      "(if t \<noteq> np then set_tail zl1 (int (t + 4)) else Some zl1) = Some zl2"
      "move_bytes zl2 (np + 5) (np + 1) (curlen - np - 1 - 1) = Some zl3"
      "write_bytes zl3 np (prev_bytes True raw)
        = Some (hdr (int (curlen + 4)) (int t') c @ a @ prev_bytes True raw @ z @ [255])"
      by blast
    have "cascade_loop fresh zl (10 + length pre) curlen
        = cascade_loop fresh (hdr (int (curlen + 4)) (int t') c @ a @ prev_bytes True raw @ z @ [255])
            np (curlen + 4)"
      unfolding np_def
      by (rule cascade_grow [OF stepf n2 e2 _ _ _ g(1) g(2) g(3-5) [unfolded np_def]])
        (use raw 3 in \<open>simp_all add: psize_def\<close>)
    also have "\<dots> = Some (hdr (int (11 + length a + ent_len (True, snd e)
            + sum_list (map ent_len (cas (ent_len (True, snd e)) es))))
          (int (10 + length a + tail_pos ((True, snd e) # cas (ent_len (True, snd e)) es))) c
          @ a @ prev_bytes True raw @ snd e @ chain (ent_len (True, snd e)) (cas (ent_len (True, snd e)) es) @ [255])"
    proof -
      let ?raw' = "ent_len (True, snd e)"
      have c1: "curlen + 4 = 11 + length a + ?raw' + sum_list (map ent_len es)"
        using cl lz by (simp add: z_def r_def length_chain ent_len_def psize_def 3)
      have c2: "t' = 10 + length a + tail_pos ((True, snd e) # es)"
        using Cons.prems(6,9) es np np_def 3(2) by (simp add: t'_def tail_pos_Cons ent_len_def psize_def)
      have c3: "raw < 2 ^ 32" "ent_len e < 2 ^ 32" "curlen + 4 + 4 * length es < 2 ^ 32"
        using Cons.prems(8) sum by simp_all
      show ?thesis using Cons.IH [OF e(1) _ c3(1) c3(2) e(3) _ c1 c3(3) c2] np
        by (simp add: z_def r_def ent_len_def [of "(True, snd e)"])
    qed
    finally show ?thesis unfolding zl using 3 Cons.prems(6) by (simp add: a_def tail_pos_Cons ac_simps)
  qed
qed

end
