(* ===== verification/Ziplist_Ops.thy ===== *)
theory Ziplist_Ops
  imports Ziplist_List
begin

text \<open>
  The operations of ziplists on the entries. The first part is about single values: the body that
  an inserted text gets holds that text again, in the encoding that the code picks. Then every
  operation is taken to one on the list of entries: insertion and deletion relink the entry behind
  the change, with the cascade behind it, and leave the texts of all other entries alone; the
  accessors find positions of entries.
\<close>

subsection \<open>Bodies\<close>

definition entry_body :: "byte list \<Rightarrow> byte list" where
  "entry_body s = (case zipTryEncoding s of
       Some (v, enc) \<Rightarrow> of_nat enc # the (zipSaveInteger v enc)
     | None \<Rightarrow> zipEncodeLength 0 (length s) @ s)"

definition body_value :: "byte list \<Rightarrow> byte list + int" where
  "body_value x = (case body_head x of (enc, ls, l) \<Rightarrow>
     if ZIP_IS_STR enc then Inl (drop ls x) else Inr (the (zipLoadInteger x ls enc)))"

text \<open>What a client sees of a value: the text, or the digits of the integer.\<close>

definition value_text :: "byte list + int \<Rightarrow> byte list" where
  "value_text v = (case v of Inl x \<Rightarrow> x | Inr i \<Rightarrow> int_text i)"

definition int_codes :: "nat list" where
  "int_codes = [ZIP_INT_8B, ZIP_INT_16B, ZIP_INT_24B, ZIP_INT_32B, ZIP_INT_64B]"

lemma int_encoding_cases:
  assumes "is_int64 v"
  obtains (imm) "int_encoding v = nat (241 + v)" "0 \<le> v" "v \<le> 12"
    | (wide) n where "(int_encoding v, n) \<in> {(ZIP_INT_8B, 1), (ZIP_INT_16B, 2), (ZIP_INT_24B, 3),
        (ZIP_INT_32B, 4), (ZIP_INT_64B, 8)}" "- (256 ^ n div 2) \<le> v" "v < 256 ^ n div 2"
proof (cases "0 \<le> v \<and> v \<le> 12")
  case True
  then show ?thesis by (intro imm) (simp_all add: int_encoding_def ZIP_INT_IMM_MIN_def)
next
  case False
  have "\<exists>n. (int_encoding v, n) \<in> {(ZIP_INT_8B, 1), (ZIP_INT_16B, 2), (ZIP_INT_24B, 3),
        (ZIP_INT_32B, 4), (ZIP_INT_64B, 8)} \<and> - (256 ^ n div 2) \<le> v \<and> v < 256 ^ n div 2"
    using False assms
    by (auto simp: int_encoding_def INT24_MIN_def INT24_MAX_def is_int64_def range_defs zip_constants)
  then show ?thesis using wide by blast
qed

lemma zipEncodeLength_int: "192 \<le> enc \<Longrightarrow> enc < 256 \<Longrightarrow> zipEncodeLength enc n = [of_nat enc]"
proof -
  assume "192 \<le> enc" "enc < 256"
  then have "enc div 64 = 3" by simp
  then show ?thesis by (simp add: zipEncodeLength_def ZIP_IS_STR_def ZIP_STR_MASK_def)
qed

lemma not_str: "192 \<le> enc \<Longrightarrow> \<not> ZIP_IS_STR enc"
  by (simp add: ZIP_IS_STR_def ZIP_STR_MASK_def)

lemma decode_int_head:
  assumes "192 \<le> enc" and "enc < 256"
  shows "ZIP_DECODE_LENGTH (of_nat enc # x) 0 = Some (enc, 1, zipIntSize enc)"
  using byte_of_Cons [of 0 "[]" "of_nat enc" x] assms
  by (simp add: ZIP_DECODE_LENGTH_def Let_def unat_of_nat_byte ZIP_STR_MASK_def)

lemma int_body:
  assumes "is_int64 v"
  defines "enc \<equiv> int_encoding v"
  obtains x where "192 \<le> enc" "enc < 256" "zipSaveInteger v enc = Some x" "length x = zipIntSize enc"
    "zipLoadInteger (of_nat enc # x) 1 enc = Some v"
  using assms(1)
proof (cases rule: int_encoding_cases)
  case imm
  then have "v \<in> {0, 1, 2, 3, 4, 5, 6, 7, 8, 9, 10, 11, 12}" by simp presburger
  then show ?thesis by (intro that [of "[]"])
    (auto simp: enc_def imm(1) zipSaveInteger_def zipLoadInteger_def zipIntSize_def zip_constants)
next
  case (wide n)
  define x where "x = le_bytes n v"
  have rd: "read_bytes (of_nat enc # x) 1 n = Some x" if "length x = n" for x :: "byte list"
    using read_bytes_mid [of 1 "[of_nat enc]" n x "[]"] that by simp
  have n: "0 < n" using wide(1) by auto
  have sv: "le_sint x = v" using le_sint_le_bytes [OF n] wide by (simp add: x_def)
  have "(word_of_int (v * 256) :: byte) = 0" 
    using le_uint_le_bytes [of 1 "v * 256"] by (simp add: numeral_eq_Suc uint_0_iff del: of_int_mult)
  then have "le_bytes 4 (v * 256) = 0 # le_bytes 3 v" by (simp add: numeral_eq_Suc uint_0_iff del: of_int_mult)
  moreover have "n = 3 \<Longrightarrow> le_sint (le_bytes 4 (v * 256)) = v * 256"
    by (rule le_sint_le_bytes) (use wide in simp_all)
  ultimately have "n = 3 \<Longrightarrow> le_sint (0 # x) = v * 256" "n = 3 \<Longrightarrow> drop 1 (le_bytes 4 (v * 256)) = x"
    by (simp_all add: x_def)
  then show ?thesis using wide(1) rd [of x] sv
    by (intro that [of x]) (auto simp: enc_def x_def zipSaveInteger_def zipLoadInteger_def zipIntSize_def zip_constants)
qed

lemma decode_str_head:
  assumes "n < 2 ^ 32"
  shows "\<exists>enc. ZIP_DECODE_LENGTH (zipEncodeLength 0 n @ s) 0 = Some (enc, length (zipEncodeLength 0 n), n) \<and> ZIP_IS_STR enc"
proof -
  have s0: "ZIP_IS_STR 0" by (simp add: ZIP_IS_STR_def ZIP_STR_MASK_def)
  note b0 = byte_of_Cons [of 0 "[]", simplified]
  consider "n \<le> 63" | "63 < n" "n \<le> 16383" | "16383 < n" by linarith
  then show ?thesis
  proof cases
    case 1
    have e: "zipEncodeLength 0 n = [of_nat n]" using 1 s0 by (simp add: zipEncodeLength_def ZIP_STR_06B_def)
    have d: "n div 64 = 0" "n < 192" "n mod 64 = n" using 1 by simp_all
    show ?thesis unfolding e ZIP_DECODE_LENGTH_def Let_def using 1 d
      by (simp add: b0 unat_of_nat_byte zip_constants ZIP_IS_STR_def)
  next
    case 2
    let ?b = "64 + n div 256"
    have e: "zipEncodeLength 0 n = [of_nat ?b, of_nat (n mod 256)]" using 2 s0
      by (simp add: zipEncodeLength_def ZIP_STR_14B_def)
    have q: "?b < 128" using 2 by simp
    then have d: "?b div 64 = 1" "?b < 192" "?b mod 64 = n div 256" by simp_all
    have b1: "byte_of (of_nat ?b # of_nat (n mod 256) # s) 1 = Some (n mod 256)"
      using byte_of_Cons [of 1 "[of_nat ?b]" "of_nat (n mod 256)" s] by (simp add: unat_of_nat_byte)
    have "byte_of (of_nat ?b # of_nat (n mod 256) # s) 0 = Some ?b" using b0 [of "of_nat ?b"] q
      by (simp only: unat_of_nat_byte) 
    moreover have "n div 256 * 256 + n mod 256 = n" by simp
    ultimately show ?thesis unfolding e ZIP_DECODE_LENGTH_def Let_def using d b1
      by (simp add: zip_constants ZIP_IS_STR_def)
  next
    case 3
    have e: "zipEncodeLength 0 n = 128 # be_bytes 4 (int n)" using 3 s0
      by (simp add: zipEncodeLength_def zip_constants)
    have "read_bytes ([128] @ be_bytes 4 (int n) @ s) 1 4 = Some (be_bytes 4 (int n))"
      by (rule read_bytes_mid) simp_all
    moreover have "be_uint (be_bytes 4 (int n)) = int n" using assms by (simp add: codec_simps)
    ultimately show ?thesis unfolding e ZIP_DECODE_LENGTH_def Let_def
      by (simp add: b0 zip_constants ZIP_IS_STR_def)
  qed
qed

lemma entry_body_int:
  assumes "zipTryEncoding s = Some (v, enc)"
  obtains x where "entry_body s = of_nat enc # x" "zipSaveInteger v enc = Some x" "length x = zipIntSize enc"
    "zipEncodeLength enc (length s) = [of_nat enc]" "body_head (entry_body s) = (enc, 1, length x)"
    "body_ok (entry_body s)" "body_value (entry_body s) = Inr v" "int_text v = s"
proof -
  have v: "string2ll s = Some v" "enc = int_encoding v"
    using assms by (auto simp: zipTryEncoding_def split: if_splits)
  then have i: "is_int64 v" "int_text v = s" using string2ll_int_text_inv by blast+
  obtain x where x: "192 \<le> enc" "enc < 256" "zipSaveInteger v enc = Some x" "length x = zipIntSize enc"
    "zipLoadInteger (of_nat enc # x) 1 enc = Some v"
    using int_body [OF i(1)] v(2) by metis
  have e: "entry_body s = of_nat enc # x" using assms x(3) by (simp add: entry_body_def)
  have d: "ZIP_DECODE_LENGTH (of_nat enc # x) 0 = Some (enc, 1, length x)"
    using decode_int_head [OF x(1,2)] x(4) by simp
  show ?thesis using x d e i not_str [OF x(1)]
    by (intro that [of x]) (simp_all add: zipEncodeLength_int body_ok_def body_head_def body_value_def)
qed

lemma entry_body_str:
  assumes "zipTryEncoding s = None" and "length s < 2 ^ 32"
  shows "entry_body s = zipEncodeLength 0 (length s) @ s" and "body_ok (entry_body s)"
    and "body_value (entry_body s) = Inl s"
proof -
  obtain enc where "ZIP_DECODE_LENGTH (zipEncodeLength 0 (length s) @ s) 0
      = Some (enc, length (zipEncodeLength 0 (length s)), length s)" "ZIP_IS_STR enc"
    using decode_str_head [OF assms(2)] by blast
  moreover show e: "entry_body s = zipEncodeLength 0 (length s) @ s" using assms(1) by (simp add: entry_body_def)
  ultimately show "body_ok (entry_body s)" "body_value (entry_body s) = Inl s"
    by (simp_all add: body_ok_def body_head_def body_value_def)
qed

lemma entry_body_holds:
  assumes "length s < 2 ^ 32"
  shows "body_ok (entry_body s) \<and> value_text (body_value (entry_body s)) = s"
proof (cases "zipTryEncoding s")
  case None
  then show ?thesis using entry_body_str [OF None assms] by (simp add: value_text_def)
next
  case (Some q)
  then obtain v enc where "zipTryEncoding s = Some (v, enc)" by (cases q) auto
  then show ?thesis by (rule entry_body_int) (simp add: value_text_def)
qed

subsection \<open>Lists of entries\<close>

definition zl_size :: "zent list \<Rightarrow> nat" where "zl_size es = 11 + sum_list (map ent_len es)"

definition zl_of :: "nat \<Rightarrow> zent list \<Rightarrow> ziplist" where
  "zl_of c es = hdr (int (zl_size es)) (int (10 + tail_pos es)) (int c) @ chain 0 es @ [255]"

text \<open>The counter in the header is exact until it reaches its largest value.\<close>

definition zl_repr :: "ziplist \<Rightarrow> zent list \<Rightarrow> bool" where
  "zl_repr zl es \<longleftrightarrow> chain_ok 0 es \<and> zl_size es < 2 ^ 32
     \<and> (\<exists>c. c < 2 ^ 16 \<and> (c < 2 ^ 16 - 1 \<longrightarrow> c = length es) \<and> zl = zl_of c es)"

definition zl_texts :: "zent list \<Rightarrow> byte list list" where
  "zl_texts es = map (\<lambda>e. value_text (body_value (snd e))) es"

definition zl_pos :: "zent list \<Rightarrow> nat \<Rightarrow> nat" where
  "zl_pos es k = 10 + sum_list (map ent_len (take k es))"

text \<open>The entry behind a change gets the new length \<open>n\<close> before it, in as many bytes as that needs.\<close>

definition relink :: "nat \<Rightarrow> zent list \<Rightarrow> zent list" where
  "relink n es = (case es of [] \<Rightarrow> []
     | e # fs \<Rightarrow> (254 \<le> n, snd e) # cas (psize (254 \<le> n) + length (snd e)) fs)"

lemma relink_simps [simp]:
  "relink n [] = []"
  "relink n ((b, x) # es) = (254 \<le> n, x) # cas (psize (254 \<le> n) + length x) es"
  by (simp_all add: relink_def)

lemma relink_empty [simp]: "relink n es = [] \<longleftrightarrow> es = []"
  by (cases es) (simp_all add: relink_def)

lemma relink_bodies [simp]: "map snd (relink n es) = map snd es"
  by (cases es) (simp_all add: relink_def)

lemma texts_of_bodies: "map snd es = map snd fs \<Longrightarrow> zl_texts es = zl_texts fs"
proof -
  assume "map snd es = map snd fs"
  then have "map (\<lambda>x. value_text (body_value x)) (map snd es) = map (\<lambda>x. value_text (body_value x)) (map snd fs)"
    by (rule arg_cong)
  then show ?thesis by (simp add: zl_texts_def comp_def)
qed

lemma zl_texts_simps [simp]:
  "zl_texts [] = []" "zl_texts ((b, x) # es) = value_text (body_value x) # zl_texts es"
  "zl_texts (es @ fs) = zl_texts es @ zl_texts fs" "length (zl_texts es) = length es"
  by (simp_all add: zl_texts_def)

lemma zl_texts_relink [simp]: "zl_texts (relink n es) = zl_texts es"
  by (rule texts_of_bodies) simp

lemma relink_ok: "chain_ok m es \<Longrightarrow> chain_ok n (relink n es)"
  by (cases es) (auto simp: relink_def ent_len_def intro: cas_ok)

lemma relink_size: "sum_list (map ent_len (relink n es)) \<le> sum_list (map ent_len es) + 4 * length es"
proof (cases es)
  case (Cons e fs)
  have "psize (254 \<le> n) \<le> psize (fst e) + 4" by (simp add: psize_def)
  then show ?thesis using Cons cas_length [of "psize (254 \<le> n) + length (snd e)" fs]
    by (simp add: relink_def ent_len_def [of e])
qed simp

lemma cas_id: "chain_ok m es \<Longrightarrow> cas m es = es"
  by (cases es) auto

text \<open>The end of an insertion or a deletion: the entry behind it is relinked, and the cascade runs.\<close>

lemma relink_update:
  assumes "body_ok x" and "n < 2 ^ 32" and "chain_ok m es" and "m = psize b + length x"
    and "curlen = 11 + length a + psize (254 \<le> n) + length x + sum_list (map ent_len es)"
    and "curlen + 4 * length es < 2 ^ 32" and "t = 10 + length a + tail_pos ((254 \<le> n, x) # es)" and "m < 2 ^ 32"
  shows "(if psize (254 \<le> n) \<noteq> psize b
      then ziplistCascadeUpdate fresh (hdr (int curlen) (int t) c @ a @ prev_bytes (254 \<le> n) n @ x @ chain m es @ [255]) (10 + length a)
      else Some (hdr (int curlen) (int t) c @ a @ prev_bytes (254 \<le> n) n @ x @ chain m es @ [255]))
    = Some (hdr (int (11 + length a + sum_list (map ent_len (relink n ((b, x) # es)))))
        (int (10 + length a + tail_pos (relink n ((b, x) # es)))) c
        @ a @ chain n (relink n ((b, x) # es)) @ [255])"
proof (cases "psize (254 \<le> n) \<noteq> psize b")
  case True
  have "ZIPLIST_BYTES (hdr (int curlen) (int t) c @ a @ prev_bytes (254 \<le> n) n @ x @ chain m es @ [255]) = Some curlen"
    using hdr_reads(1) [of "int curlen"] assms(6) by simp
  moreover have "254 \<le> n \<or> n < 254" by linarith
  ultimately show ?thesis using True assms
      cascade_loop_chain [OF assms(1) _ assms(2) assms(8) assms(3) refl _ assms(6) assms(7), of fresh c]
    by (simp add: ziplistCascadeUpdate_def add.assoc)
next
  case False
  then have "b = (254 \<le> n)" by (auto simp: psize_def split: if_splits)
  then show ?thesis using assms cas_id [OF assms(3)] by (simp add: add.assoc)
qed

end
