(* ===== verification/Ziplist_Edit.thy ===== *)
theory Ziplist_Edit
  imports Ziplist_Ops
begin

text \<open>
  Insertion and deletion in a ziplist. Both move the rest of the buffer, rewrite the length field
  in front of the next entry, fix the header, and start the cascade; here each is an operation on
  the list of entries, and on the list of texts it is insertion at, or deletion of, a range.
\<close>

lemma prev_fits [simp]: "254 \<le> n \<or> n < (254 :: nat)"
  by linarith

subsection \<open>Moving the rest of the buffer\<close>

lemma slide:
  assumes "src + q = length h + length p" and "req + q = length y + length p" and "dst = length h + req"
    and "n = q + length z"
  shows "\<exists>g u. move_bytes (h @ p @ z @ y @ [d]) dst src n = Some (h @ g @ u @ z @ [d])
    \<and> length g = req \<and> length u = q"
proof -
  define b where "b = h @ p @ z @ y @ [d]"
  define u where "u = drop src (h @ p)"
  define g where "g = take req (p @ z @ y @ [d])"
  have u: "length u = q" using assms(1) by (simp add: u_def)
  have g: "length g = req" using assms(2,4) by (simp add: g_def)
  have hp: "take src (h @ p) @ u = h @ p" by (simp only: u_def append_take_drop_id)
  have "move_bytes b dst src n = Some (take dst b @ (u @ z) @ drop (dst + n) b)"
  proof (rule move_block)
    show "b = take src (h @ p) @ (u @ z) @ y @ [d]" by (simp only: b_def append_assoc [symmetric] hp)
    show "src = length (take src (h @ p))" using assms(1,2) by simp
    show "n = length (u @ z)" using assms(4) u by simp
    show "dst + n \<le> length b" using assms by (simp add: b_def)
  qed
  moreover have "drop (dst + n) b = [d]"
  proof -
    have "dst + n = length (h @ p @ z @ y)" using assms by simp
    then show ?thesis by (simp add: b_def)
  qed
  moreover have "take dst b = h @ g" using assms(3) by (simp add: b_def g_def)
  ultimately have "move_bytes b dst src n = Some (h @ g @ u @ z @ [d])" by simp
  then show ?thesis using u g by (auto simp: b_def)
qed

subsection \<open>Insertion\<close>

lemma insert_value:
  assumes "length s < 2 ^ 32"
  obtains enc y where
    "(case zipTryEncoding s of Some (value, enc) \<Rightarrow> (enc, zipSaveInteger value enc) | None \<Rightarrow> (0, Some s)) = (enc, Some y)"
    "entry_body s = zipEncodeLength enc (length s) @ y"
    "(if zipTryEncoding s \<noteq> None then zipIntSize enc else length s) = length y"
proof (cases "zipTryEncoding s")
  case None
  then show ?thesis using entry_body_str(1) [OF None assms] by (intro that [of 0 s]) simp_all
next
  case (Some q)
  then obtain v enc where q: "zipTryEncoding s = Some (v, enc)" by (cases q) auto
  then obtain x where "entry_body s = of_nat enc # x" "zipSaveInteger v enc = Some x" "length x = zipIntSize enc"
    "zipEncodeLength enc (length s) = [of_nat enc]" by (rule entry_body_int)
  then show ?thesis using q by (intro that [of enc x]) simp_all
qed

text \<open>The steps of an insertion, over opaque buffers.\<close>

lemma insert_steps:
  assumes "ZIPLIST_BYTES zl = Some curlen" and "byte_of zl p = Some b"
    and "(if b \<noteq> ZIP_END then map_option prevrawlen (zipEntry zl p)
         else do { ptail \<leftarrow> ZIPLIST_TAIL_OFFSET zl; t \<leftarrow> byte_of zl ptail;
                   if t \<noteq> ZIP_END then zipRawEntryLength zl ptail else Some 0 }) = Some pl"
    and "(case zipTryEncoding s of Some (value, enc) \<Rightarrow> (enc, zipSaveInteger value enc) | None \<Rightarrow> (0, Some s)) = (enc, Some y)"
    and "(if zipTryEncoding s \<noteq> None then zipIntSize enc else length s)
         + length (zipPrevEncodeLength pl) + length (zipEncodeLength enc (length s)) = req"
    and "(if b \<noteq> ZIP_END then zipPrevLenByteDiff zl p req else Some 0) = Some d"
    and "ziplistResize fresh zl (nat (int curlen + int req + d)) = Some zl1" and "byte_of zl1 p = Some b'"
    and "(if b' \<noteq> ZIP_END then
            do { zl \<leftarrow> move_bytes zl1 (p + req) (nat (int p - d)) (nat (int curlen - int p - 1 + d));
                 zl \<leftarrow> write_bytes zl (p + req) (zipPrevEncodeLength req);
                 tail \<leftarrow> ZIPLIST_TAIL_OFFSET zl;
                 zl \<leftarrow> set_tail zl (int (tail + req));
                 te \<leftarrow> zipEntry zl (p + req);
                 b \<leftarrow> byte_of zl (p + req + headersize te + e_len te);
                 if b \<noteq> ZIP_END then do { tail \<leftarrow> ZIPLIST_TAIL_OFFSET zl; set_tail zl (int tail + d) } else Some zl }
          else set_tail zl1 (int p)) = Some zl2"
    and "(if d \<noteq> 0 then ziplistCascadeUpdate fresh zl2 (p + req) else Some zl2) = Some zl3"
  shows "ziplistInsertAt fresh zl p s =
    do { zl \<leftarrow> write_bytes zl3 p (zipPrevEncodeLength pl);
         zl \<leftarrow> write_bytes zl (p + length (zipPrevEncodeLength pl)) (zipEncodeLength enc (length s));
         zl \<leftarrow> write_bytes zl (p + length (zipPrevEncodeLength pl) + length (zipEncodeLength enc (length s))) y;
         ZIPLIST_INCR_LENGTH zl 1 }"
  unfolding ziplistInsertAt_def assms(1) bind.bind_lunit assms(2) assms(3) Let_def assms(4) prod.case
    assms(5) assms(6) assms(7) assms(8) assms(9) assms(10)
  by (rule refl)

lemma write_entry:
  assumes "length g = length u + length v + length w" and "p = length h"
  shows "do { zl \<leftarrow> write_bytes (h @ g @ r) p u; zl \<leftarrow> write_bytes zl (p + length u) v;
              zl \<leftarrow> write_bytes zl (p + length u + length v) w; f zl } = f (h @ u @ v @ w @ r)"
proof -
  obtain g1 g2 g3 where g: "g = g1 @ g2 @ g3" "length g1 = length u" "length g2 = length v" "length g3 = length w"
    using assms(1) by (intro that [of "take (length u) g" "take (length v) (drop (length u) g)"
        "drop (length v) (drop (length u) g)"]) (simp_all only: append_take_drop_id, simp_all)
  have "write_bytes (h @ g1 @ g2 @ g3 @ r) p u = Some (h @ u @ g2 @ g3 @ r)"
    by (rule write_bytes_mid) (simp_all add: assms(2) g)
  moreover have "write_bytes ((h @ u) @ g2 @ g3 @ r) (p + length u) v = Some ((h @ u) @ v @ g3 @ r)"
    by (rule write_bytes_mid) (simp_all add: assms(2) g)
  moreover have "write_bytes ((h @ u @ v) @ g3 @ r) (p + length u + length v) w = Some ((h @ u @ v) @ w @ r)"
    by (rule write_bytes_mid) (simp_all add: assms(2) g)
  ultimately show ?thesis by (simp add: g(1))
qed

text \<open>The state behind the move: a gap for the new entry, the next one relinked, the tail offset right.\<close>

lemma open_steps:
  assumes "move_bytes zl (p + req) src n = Some zl1" and "write_bytes zl1 (p + req) (zipPrevEncodeLength req) = Some zl2"
    and "ZIPLIST_TAIL_OFFSET zl2 = Some t" and "set_tail zl2 (int (t + req)) = Some zl3"
    and "zipEntry zl3 (p + req) = Some te" and "byte_of zl3 (p + req + headersize te + e_len te) = Some b"
    and "ZIPLIST_TAIL_OFFSET zl3 = Some t3" and "set_tail zl3 (int t3 + d) = Some zl4"
  shows "do { zl \<leftarrow> move_bytes zl (p + req) src n;
              zl \<leftarrow> write_bytes zl (p + req) (zipPrevEncodeLength req);
              tail \<leftarrow> ZIPLIST_TAIL_OFFSET zl;
              zl \<leftarrow> set_tail zl (int (tail + req));
              te \<leftarrow> zipEntry zl (p + req);
              b \<leftarrow> byte_of zl (p + req + headersize te + e_len te);
              if b \<noteq> ZIP_END then do { tail \<leftarrow> ZIPLIST_TAIL_OFFSET zl; set_tail zl (int tail + d) } else Some zl }
    = Some (if b \<noteq> ZIP_END then zl4 else zl3)"
  unfolding assms(1) bind.bind_lunit assms(2) assms(3) assms(4) assms(5) assms(6) assms(7) assms(8)
  by simp

lemma insert_open:
  fixes a y :: "byte list" and req :: nat
  defines "b' \<equiv> 254 \<le> req"
  defines "p \<equiv> 10 + length a"
  assumes x: "body_ok x" and es: "chain_ok k es" and d: "d = int (psize b') - int (psize b)"
    and y: "req + psize b' = length y + psize b" and t: "t = p + tail_pos ((b, x) # es)" and req: "t + req + 4 < 2 ^ 32"
    and curlen: "curlen = p + 1 + psize b + length x + length (chain k es)"
    and src: "src = nat (int p - d)" and n: "n = nat (int curlen - int p - 1 + d)"
  shows "\<exists>g. do { zl \<leftarrow> move_bytes (hdr l (int t) c @ a @ prev_bytes b m @ x @ chain k es @ y @ [255]) (p + req) src n;
              zl \<leftarrow> write_bytes zl (p + req) (zipPrevEncodeLength req);
              tail \<leftarrow> ZIPLIST_TAIL_OFFSET zl;
              zl \<leftarrow> set_tail zl (int (tail + req));
              te \<leftarrow> zipEntry zl (p + req);
              b \<leftarrow> byte_of zl (p + req + headersize te + e_len te);
              if b \<noteq> ZIP_END then do { tail \<leftarrow> ZIPLIST_TAIL_OFFSET zl; set_tail zl (int tail + d) } else Some zl }
    = Some (hdr l (int (p + req + tail_pos ((b', x) # es))) c @ a @ g @ prev_bytes b' req @ x @ chain k es @ [255])
      \<and> length g = req"
proof -
  let ?h = "hdr l (int t) c @ a" and ?r = "x @ chain k es @ [255]"
  have ps: "psize b' = psize b + 4 \<and> psize b = 1 \<or> psize b' = psize b \<or> psize b' + 4 = psize b"
    by (auto simp: psize_def)
  have "src + psize b' = length ?h + length (prev_bytes b m)" using src d ps by (auto simp: p_def)
  moreover have "n = psize b' + length (x @ chain k es)" using n curlen d by simp
  ultimately obtain g u where m: "move_bytes (?h @ prev_bytes b m @ (x @ chain k es) @ y @ [255]) (p + req) src n
      = Some (?h @ g @ u @ (x @ chain k es) @ [255])" "length g = req" "length u = psize b'"
    using slide [of src "psize b'" ?h "prev_bytes b m" req y "p + req" n "x @ chain k es" 255] y
    by (auto simp: p_def)
  define B where "B t = hdr l t c @ a @ g @ prev_bytes b' req @ ?r" for t
  have w: "write_bytes (?h @ g @ u @ ?r) (p + req) (zipPrevEncodeLength req) = Some (B (int t))"
    using write_bytes_mid [of "p + req" "?h @ g" "prev_bytes b' req" u ?r] m
    by (simp add: zipPrevEncodeLength_bytes p_def B_def b'_def)
  have tl: "s < 2 ^ 32 \<Longrightarrow> ZIPLIST_TAIL_OFFSET (B (int s)) = Some s" for s
    using hdr_reads(2) [of "int s"] by (simp add: B_def)
  have st: "set_tail (B v) w = Some (B w)" for v w by (simp add: B_def hdr_writes)
  obtain enc ls q where h: "body_head x = (enc, ls, q)" "length x = ls + q" using x by (auto elim: body_okE)
  have e: "zipEntry (B (int (t + req))) (p + req) = Some \<lparr>prevrawlensize = psize b', prevrawlen = req,
    lensize = ls, e_len = q, headersize = psize b' + ls, e_encoding = enc, e_p = p + req\<rparr>" (is "_ = Some ?e")
    using zipEntry_entry [of "p + req" "hdr l (int (t + req)) c @ a @ g" b' req x enc ls q "chain k es @ [255]"]
      x h m(2) req by (auto simp: B_def p_def b'_def)
  have he: "headersize ?e + e_len ?e = psize b' + length x" using h(2) by simp
  obtain z where z: "byte_of (B (int (t + req))) (p + req + headersize ?e + e_len ?e) = Some z" "z = ZIP_END \<longleftrightarrow> es = []"
    using byte_of_chain [OF _ es, of "p + req + headersize ?e + e_len ?e"
        "hdr l (int (t + req)) c @ a @ g @ prev_bytes b' req @ x"] he m(2) by (auto simp: B_def p_def)
  have "es \<noteq> [] \<Longrightarrow> int (t + req) + d = int (p + req + tail_pos ((b', x) # es))"
    and "es = [] \<Longrightarrow> int (t + req) = int (p + req + tail_pos ((b', x) # es))"
    using t d by (simp_all add: tail_pos_Cons)
  then have fin: "(if z \<noteq> ZIP_END then B (int (t + req) + d) else B (int (t + req)))
      = B (int (p + req + tail_pos ((b', x) # es)))" using z(2) by (cases "es = []") (simp_all only: if_True if_False simp_thms)
  have m': "move_bytes (hdr l (int t) c @ a @ prev_bytes b m @ x @ chain k es @ y @ [255]) (p + req) src n
      = Some (?h @ g @ u @ ?r)" using m(1) by simp
  have t1: "t < 2 ^ 32" "t + req < 2 ^ 32" using req by simp_all
  note run = open_steps [OF m' w tl [OF t1(1)] st e z(1) tl [OF t1(2)] st, of d, unfolded fin]
  show ?thesis using run m(2) unfolding B_def by blast
qed

text \<open>The counter of the header after one more entry.\<close>

definition count_up :: "nat \<Rightarrow> nat" where "count_up c = (if c < 2 ^ 16 - 1 then c + 1 else c)"

lemma incr_count: "c < 2 ^ 16 \<Longrightarrow> ZIPLIST_INCR_LENGTH (hdr l t (int c) @ z) 1 = Some (hdr l t (int (count_up c)) @ z)"
  by (simp add: incr_length_hdr count_up_def add.commute)

lemma tail_of_zl: "zl_size es < 2 ^ 32 \<Longrightarrow> ZIPLIST_TAIL_OFFSET (zl_of c es) = Some (10 + tail_pos es)"
  using tail_pos_le [of es] hdr_reads(2) [of "int (10 + tail_pos es)"] by (simp add: zl_of_def zl_size_def)

lemma bytes_of_zl: "zl_size es < 2 ^ 32 \<Longrightarrow> ZIPLIST_BYTES (zl_of c es) = Some (zl_size es)"
  using hdr_reads(1) [of "int (zl_size es)"] by (simp add: zl_of_def)

lemma end_of_zl: "byte_of (zl_of c es) (10 + sum_list (map ent_len es)) = Some ZIP_END"
  using byte_of_Cons [of "10 + sum_list (map ent_len es)" "hdr (int (zl_size es)) (int (10 + tail_pos es)) (int c) @ chain 0 es" 255 "[]"]
  by (simp add: zl_of_def length_chain ZIP_END_def)

text \<open>The length of the last entry, which an insertion at the end asks for.\<close>

lemma prevlen_at_end:
  assumes "chain_ok 0 es" and "zl_size es < 2 ^ 32"
  shows "do { ptail \<leftarrow> ZIPLIST_TAIL_OFFSET (zl_of c es); t \<leftarrow> byte_of (zl_of c es) ptail;
              if t \<noteq> ZIP_END then zipRawEntryLength (zl_of c es) ptail else Some 0 } = Some (last_len 0 es)"
proof (cases es rule: rev_cases)
  case Nil
  then show ?thesis using end_of_zl [of c "[]"] tail_of_zl [OF assms(2), of c] by (simp add: tail_pos_def last_len_def)
next
  case (snoc fs e)
  let ?h = "hdr (int (zl_size es)) (int (10 + tail_pos es)) (int c) @ chain 0 fs"
  define m where "m = last_len 0 fs"
  have zl: "zl_of c es = ?h @ prev_bytes (fst e) m @ snd e @ [255]"
    using snoc by (simp add: zl_of_def chain_append m_def)
  have t: "10 + tail_pos es = length ?h" using snoc by (simp add: tail_pos_def length_chain)
  have e: "fst e \<or> m < 254" "body_ok (snd e)" using assms(1) snoc by (simp_all add: chain_ok_append m_def)
  then have "byte_of (zl_of c es) (10 + tail_pos es) = Some (if fst e then 254 else m)"
    unfolding zl by (intro byte_of_entry t)
  moreover have "zipRawEntryLength (zl_of c es) (10 + tail_pos es) = Some (ent_len e)"
    unfolding zl using raw_length_entry [OF t e] by (simp add: ent_len_def)
  ultimately show ?thesis using e(1) tail_of_zl [OF assms(2), of c] snoc
    by (auto simp: ZIP_END_def last_len_def)
qed

lemma insert_at_end:
  fixes pre :: "zent list" and s :: "byte list"
  defines "pl \<equiv> last_len 0 pre"
  defines "req \<equiv> psize (254 \<le> pl) + length (entry_body s)"
  assumes ok: "chain_ok 0 pre" and c: "c < 2 ^ 16" and fits: "zl_size pre + req < 2 ^ 32" and s: "length s < 2 ^ 32"
  shows "ziplistInsertAt fresh (zl_of c pre) (10 + sum_list (map ent_len pre)) s
    = Some (zl_of (count_up c) (pre @ [(254 \<le> pl, entry_body s)]))"
proof -
  let ?zl = "zl_of c pre" and ?p = "10 + sum_list (map ent_len pre)"
  let ?a = "chain 0 pre" and ?t = "10 + tail_pos pre" and ?cur = "zl_size pre"
  obtain enc y where v:
    "(case zipTryEncoding s of Some (value, enc) \<Rightarrow> (enc, zipSaveInteger value enc) | None \<Rightarrow> (0, Some s)) = (enc, Some y)"
    "entry_body s = zipEncodeLength enc (length s) @ y"
    "(if zipTryEncoding s \<noteq> None then zipIntSize enc else length s) = length y"
    using insert_value [OF s] by blast
  have rq: "(if zipTryEncoding s \<noteq> None then zipIntSize enc else length s)
      + length (zipPrevEncodeLength pl) + length (zipEncodeLength enc (length s)) = req"
    using v(2,3) by (simp add: req_def zipPrevEncodeLength_bytes)
  have bound: "zl_size pre < 2 ^ 32" using fits by simp
  have p: "?p = length (hdr l t n @ ?a)" for l t n by (simp add: length_chain)
  obtain w where w: "ziplistResize fresh (hdr (int ?cur) (int ?t) (int c) @ ?a @ [255]) (?cur + req)
      = Some (hdr (int (?cur + req)) (int ?t) (int c) @ ?a @ w @ [255])" "length w = req" "0 < req \<longrightarrow> hd w = 255"
    using resize_zl_grow [of "?cur + req" ?a req fresh "int ?cur" "int ?t" "int c" 255, OF _ fits]
    by (auto simp: zl_size_def length_chain)
  have "0 < req" by (simp add: req_def)
  then obtain w' where w': "w = 255 # w'" using w(2,3) by (cases w) auto
  have b: "byte_of (hdr (int (?cur + req)) (int ?t) (int c) @ ?a @ w @ [255]) ?p = Some ZIP_END"
    using byte_of_Cons [OF p, where c = 255 and r = "w' @ [255]"] w' by (simp add: ZIP_END_def)
  have r: "ziplistResize fresh ?zl (nat (int ?cur + int req + 0))
      = Some (hdr (int (?cur + req)) (int ?t) (int c) @ ?a @ w @ [255])"
    using w(1) by (simp add: zl_of_def nat_add_distrib)
  have "ziplistInsertAt fresh ?zl ?p s
    = do { zl \<leftarrow> write_bytes (hdr (int (?cur + req)) (int ?p) (int c) @ ?a @ w @ [255]) ?p (zipPrevEncodeLength pl);
         zl \<leftarrow> write_bytes zl (?p + length (zipPrevEncodeLength pl)) (zipEncodeLength enc (length s));
         zl \<leftarrow> write_bytes zl (?p + length (zipPrevEncodeLength pl) + length (zipEncodeLength enc (length s))) y;
         ZIPLIST_INCR_LENGTH zl 1 }"
    by (rule insert_steps [OF bytes_of_zl [OF bound] end_of_zl _ v(1) rq _ r b])
      (use prevlen_at_end [OF ok bound, of c] in \<open>simp_all add: pl_def hdr_writes del: of_nat_add\<close>)
  also have "\<dots> = ZIPLIST_INCR_LENGTH (hdr (int (?cur + req)) (int ?p) (int c) @ ?a
      @ prev_bytes (254 \<le> pl) pl @ entry_body s @ [255]) 1"
    using write_entry [of w "zipPrevEncodeLength pl" "zipEncodeLength enc (length s)" y ?p
        "hdr (int (?cur + req)) (int ?p) (int c) @ ?a" "[255]" "\<lambda>zl. ZIPLIST_INCR_LENGTH zl 1"] w(2) v(2)
    by (simp add: p [symmetric] req_def zipPrevEncodeLength_bytes length_chain)
  also have "\<dots> = Some (zl_of (count_up c) (pre @ [(254 \<le> pl, entry_body s)]))"
    unfolding incr_count [OF c]
    by (simp add: zl_of_def zl_size_def req_def tail_pos_append tail_pos_def chain_append pl_def ac_simps)
  finally show ?thesis .
qed

text \<open>The lookups at an entry between \<open>pre\<close> and \<open>es\<close>.\<close>

lemma zl_at_entry:
  assumes "chain_ok 0 (pre @ (b, x) # es)" and "p = 10 + sum_list (map ent_len pre)"
    and "zl = h @ chain 0 pre @ prev_bytes b (last_len 0 pre) @ r" and "length h = 10"
  shows "byte_of zl p = Some (if b then 254 else last_len 0 pre)" and "(if b then 254 else last_len 0 pre) \<noteq> ZIP_END"
    and "zipPrevLenByteDiff zl p n = Some (int (psize (254 \<le> n)) - int (psize b))"
    and "\<lbrakk>last_len 0 pre < 2 ^ 32; r = x @ q\<rbrakk> \<Longrightarrow> map_option prevrawlen (zipEntry zl p) = Some (last_len 0 pre)"
proof -
  let ?m = "last_len 0 pre"
  have ok: "b \<or> ?m < 254" "body_ok x" using assms(1) by (simp_all add: chain_ok_append)
  have p: "p = length (h @ chain 0 pre)" using assms(2,4) by (simp add: length_chain)
  show "byte_of zl p = Some (if b then 254 else ?m)" using byte_of_entry [OF p ok(1)] assms(3) by simp
  show "(if b then 254 else ?m) \<noteq> ZIP_END" using ok(1) by (auto simp: ZIP_END_def)
  show "zipPrevLenByteDiff zl p n = Some (int (psize (254 \<le> n)) - int (psize b))"
    using prevlensize_entry [OF p ok(1), of r] assms(3)
    by (simp add: zipPrevLenByteDiff_def zipPrevEncodeLength_bytes)
  show "map_option prevrawlen (zipEntry zl p) = Some ?m" if "?m < 2 ^ 32" "r = x @ q"
  proof -
    obtain enc ls l where "body_head x = (enc, ls, l)" using ok(2) by (auto elim: body_okE)
    then show ?thesis using zipEntry_entry [OF p ok(1) that(1) ok(2)] assms(3) that(2) by simp
  qed
qed

lemma last_len_le: "last_len 0 es \<le> sum_list (map ent_len es)"
  by (cases es rule: rev_cases) (simp_all add: last_len_def)

lemma insert_before:
  fixes pre :: "zent list" and s :: "byte list"
  defines "pl \<equiv> last_len 0 pre"
  defines "req \<equiv> psize (254 \<le> pl) + length (entry_body s)"
  assumes ok: "chain_ok 0 (pre @ (b, x) # es)" and c: "c < 2 ^ 16" and s: "length s < 2 ^ 32"
    and fits: "zl_size (pre @ (b, x) # es) + req + 4 + 4 * length es < 2 ^ 32" and room: "b \<Longrightarrow> 4 \<le> req"
  shows "ziplistInsertAt fresh (zl_of c (pre @ (b, x) # es)) (10 + sum_list (map ent_len pre)) s
    = Some (zl_of (count_up c) (pre @ (254 \<le> pl, entry_body s) # relink req ((b, x) # es)))"
proof -
  let ?es = "pre @ (b, x) # es"
  let ?zl = "zl_of c ?es" and ?p = "10 + sum_list (map ent_len pre)"
  let ?a = "chain 0 pre" and ?t = "10 + tail_pos ?es" and ?cur = "zl_size ?es"
  let ?d = "int (psize (254 \<le> req)) - int (psize b)" and ?k = "psize b + length x"
  let ?z = "?a @ prev_bytes b pl @ x @ chain ?k es"
  obtain enc y where v:
    "(case zipTryEncoding s of Some (value, enc) \<Rightarrow> (enc, zipSaveInteger value enc) | None \<Rightarrow> (0, Some s)) = (enc, Some y)"
    "entry_body s = zipEncodeLength enc (length s) @ y"
    "(if zipTryEncoding s \<noteq> None then zipIntSize enc else length s) = length y"
    using insert_value [OF s] by blast
  have rq: "(if zipTryEncoding s \<noteq> None then zipIntSize enc else length s)
      + length (zipPrevEncodeLength pl) + length (zipEncodeLength enc (length s)) = req"
    using v(2,3) by (simp add: req_def zipPrevEncodeLength_bytes)
  have bound: "zl_size ?es < 2 ^ 32" using fits by simp
  have zl: "?zl = hdr (int ?cur) (int ?t) (int c) @ ?z @ [255]" by (simp add: zl_of_def chain_append pl_def)
  have cur: "?cur = 11 + length ?z"
    by (simp add: zl_size_def length_chain)
  have pos: "0 < req" "psize b \<le> req + psize (254 \<le> req)" using room
    by (auto simp: req_def psize_def)
  define k where "k = req + psize (254 \<le> req) - psize b"
  have small: "?cur + k < 2 ^ 32" using fits by (auto simp: k_def psize_def)
  have kd: "nat (int ?cur + int req + ?d) = ?cur + k" using pos(2) by (simp add: k_def)
  obtain w where w: "ziplistResize fresh ?zl (?cur + k)
      = Some (hdr (int (?cur + k)) (int ?t) (int c) @ ?z @ w @ [255])" "length w = k"
    using resize_zl_grow [of "?cur + k" ?z k fresh "int ?cur" "int ?t" "int c" 255, OF _ small] cur zl by auto
  define zl1 where "zl1 = hdr (int (?cur + k)) (int ?t) (int c) @ ?z @ w @ [255]"
  have zl': "?zl = hdr (int ?cur) (int ?t) (int c) @ ?a @ prev_bytes b pl @ x @ chain ?k es @ [255]"
    and zl1': "zl1 = hdr (int (?cur + k)) (int ?t) (int c) @ ?a @ prev_bytes b pl @ x @ chain ?k es @ w @ [255]"
    using zl by (simp_all add: zl1_def)
  note at = zl_at_entry [OF ok refl, folded pl_def]
  have pl: "pl < 2 ^ 32" using last_len_le [of pre] bound by (simp add: pl_def zl_size_def)
  note b = at(1) [OF zl' length_hdr] at(2) [OF zl' length_hdr] at(3) [OF zl' length_hdr, of req]
    at(4) [OF zl' length_hdr pl refl]
  note at1 = at(1) [OF zl1' length_hdr]
  have t: "?t = 10 + length ?a + tail_pos ((b, x) # es)" by (simp add: tail_pos_append length_chain)
  have p: "10 + length ?a = ?p" by (simp add: length_chain)
  have ok': "body_ok x" "chain_ok ?k es" using ok by (simp_all add: chain_ok_append)
  have tb: "?t + req + 4 < 2 ^ 32" using tail_pos_le [of ?es] fits by (simp add: zl_size_def)
  have yl: "req + psize (254 \<le> req) = length w + psize b" using w(2) pos(2) by (simp add: k_def)
  obtain g where g: "do { zl \<leftarrow> move_bytes zl1 (?p + req) (nat (int ?p - ?d)) (nat (int ?cur - int ?p - 1 + ?d));
              zl \<leftarrow> write_bytes zl (?p + req) (zipPrevEncodeLength req);
              tail \<leftarrow> ZIPLIST_TAIL_OFFSET zl;
              zl \<leftarrow> set_tail zl (int (tail + req));
              te \<leftarrow> zipEntry zl (?p + req);
              b \<leftarrow> byte_of zl (?p + req + headersize te + e_len te);
              if b \<noteq> ZIP_END then do { tail \<leftarrow> ZIPLIST_TAIL_OFFSET zl; set_tail zl (int tail + ?d) } else Some zl }
      = Some (hdr (int (?cur + k)) (int (?p + req + tail_pos ((254 \<le> req, x) # es))) (int c)
          @ ?a @ g @ prev_bytes (254 \<le> req) req @ x @ chain ?k es @ [255])" "length g = req"
    using insert_open [OF ok' refl yl t tb _ refl refl, of ?cur "int (?cur + k)" "int c" pl, unfolded p] cur
    by (auto simp: zl1_def p [symmetric])
  let ?es' = "relink req ((b, x) # es)"
  define l' where "l' = int (11 + length (?a @ g) + sum_list (map ent_len ?es'))"
  define t' where "t' = int (10 + length (?a @ g) + tail_pos ?es')"
  have "(if ?d \<noteq> 0 then ziplistCascadeUpdate fresh (hdr (int (?cur + k)) (int (?p + req + tail_pos ((254 \<le> req, x) # es))) (int c)
          @ ?a @ g @ prev_bytes (254 \<le> req) req @ x @ chain ?k es @ [255]) (?p + req)
      else Some (hdr (int (?cur + k)) (int (?p + req + tail_pos ((254 \<le> req, x) # es))) (int c)
          @ ?a @ g @ prev_bytes (254 \<le> req) req @ x @ chain ?k es @ [255]))
    = Some (hdr l' t' (int c) @ (?a @ g) @ chain req ?es' @ [255])"
  proof -
    have ne: "?d \<noteq> 0 \<longleftrightarrow> psize (254 \<le> req) \<noteq> psize b" by simp
    have pg: "?p + req = 10 + length (?a @ g)" using g(2) p by simp
    have "psize (254 \<le> req) \<le> psize b + 4" by (simp add: psize_def)
    then have kk: "k \<le> req + 4" by (simp add: k_def)
    have sz: "?cur + k = 11 + length (?a @ g) + psize (254 \<le> req) + length x + sum_list (map ent_len es)"
      using pos(2) g(2) by (simp add: k_def zl_size_def length_chain)
    have sz': "?cur + k + 4 * length es < 2 ^ 32" using kk fits by simp
    have r32: "req < 2 ^ 32" "?k < 2 ^ 32" using fits by (simp_all add: zl_size_def)
    show ?thesis unfolding ne pg l'_def t'_def
      using relink_update [OF ok'(1) r32(1) ok'(2) refl sz sz' refl r32(2), of fresh "int c"]
      by (simp only: append_assoc)
  qed
  note zl3 = this
  have "ziplistInsertAt fresh ?zl ?p s
    = do { zl \<leftarrow> write_bytes (hdr l' t' (int c) @ (?a @ g) @ chain req ?es' @ [255]) ?p (zipPrevEncodeLength pl);
         zl \<leftarrow> write_bytes zl (?p + length (zipPrevEncodeLength pl)) (zipEncodeLength enc (length s));
         zl \<leftarrow> write_bytes zl (?p + length (zipPrevEncodeLength pl) + length (zipEncodeLength enc (length s))) y;
         ZIPLIST_INCR_LENGTH zl 1 }"
    by (rule insert_steps [OF bytes_of_zl [OF bound] b(1) _ v(1) rq _ _ at1 _ zl3])
      (use b(2-4) g w(1) in \<open>simp_all only: if_True if_False simp_thms kd zl1_def\<close>)
  also have "\<dots> = ZIPLIST_INCR_LENGTH (hdr l' t' (int c) @ ?a @ prev_bytes (254 \<le> pl) pl @ entry_body s @ chain req ?es' @ [255]) 1"
    using write_entry [of g "zipPrevEncodeLength pl" "zipEncodeLength enc (length s)" y ?p
        "hdr l' t' (int c) @ ?a" "chain req ?es' @ [255]" "\<lambda>zl. ZIPLIST_INCR_LENGTH zl 1"] g(2) v(2)
    by (simp add: p [symmetric] req_def zipPrevEncodeLength_bytes)
  also have "\<dots> = Some (zl_of (count_up c) (pre @ (254 \<le> pl, entry_body s) # ?es'))"
    unfolding incr_count [OF c] using g(2)
    by (simp add: zl_of_def zl_size_def l'_def t'_def req_def tail_pos_append tail_pos_Cons length_chain chain_append pl_def ac_simps)
  finally show ?thesis .
qed

subsection \<open>Deletion\<close>

lemma skip_entries_chain:
  assumes "chain_ok m (ds @ es)" and "p = length h" and "n = length ds \<or> length ds \<le> n \<and> es = []"
  shows "skip_entries (h @ chain m (ds @ es) @ [255]) p n k = Some (p + sum_list (map ent_len ds), k + length ds)"
  using assms
proof (induction ds arbitrary: h p m n k)
  case Nil
  then show ?case using byte_of_Cons [of p h 255 "[]"] by (cases n) (auto simp: ZIP_END_def)
next
  case (Cons e ds)
  let ?r = "chain (ent_len e) (ds @ es) @ [255]"
  obtain n' where n: "n = Suc n'" "n' = length ds \<or> length ds \<le> n' \<and> es = []" using Cons.prems(3) by (cases n) auto
  have e: "fst e \<or> m < 254" "body_ok (snd e)" "chain_ok (ent_len e) (ds @ es)" using Cons.prems(1) by simp_all
  have "skip_entries ((h @ prev_bytes (fst e) m @ snd e) @ ?r) (p + ent_len e) n' (k + 1)
      = Some (p + ent_len e + sum_list (map ent_len ds), k + 1 + length ds)"
    by (rule Cons.IH [OF e(3) _ n(2)]) (simp add: Cons.prems(2) ent_len_def)
  moreover have "byte_of (h @ prev_bytes (fst e) m @ snd e @ ?r) p = Some (if fst e then 254 else m)"
    by (rule byte_of_entry [OF Cons.prems(2) e(1)])
  moreover have "zipRawEntryLength (h @ prev_bytes (fst e) m @ snd e @ ?r) p = Some (ent_len e)"
    using raw_length_entry [OF Cons.prems(2) e(1,2)] by (simp add: ent_len_def)
  ultimately show ?case using e(1) n(1) by (auto simp: ZIP_END_def)
qed

text \<open>The steps of a deletion, over opaque buffers.\<close>

lemma delete_steps:
  assumes "zipEntry zl p = Some first" and "skip_entries zl p num 0 = Some (q, n)" and "q - e_p first = totlen"
    and "totlen \<noteq> 0" and "byte_of zl q = Some b"
  shows delete_steps_end: "\<lbrakk>b = ZIP_END; set_tail zl (int (e_p first) - int (prevrawlen first)) = Some zl1;
      ZIPLIST_BYTES zl1 = Some bytes; ziplistResize fresh zl1 (nat (int bytes - int totlen + 0)) = Some zl2\<rbrakk>
    \<Longrightarrow> ziplistDeleteAt fresh zl p num = ZIPLIST_INCR_LENGTH zl2 (- int n)"
    and delete_steps_mid: "\<lbrakk>b \<noteq> ZIP_END; zipPrevLenByteDiff zl q (prevrawlen first) = Some d; nat (int q - d) = p3;
      write_bytes zl p3 (zipPrevEncodeLength (prevrawlen first)) = Some zl1;
      ZIPLIST_TAIL_OFFSET zl1 = Some t; set_tail zl1 (int t - int totlen) = Some zl2;
      zipEntry zl2 p3 = Some te; byte_of zl2 (p3 + headersize te + e_len te) = Some b2;
      (if b2 \<noteq> ZIP_END then do { tail \<leftarrow> ZIPLIST_TAIL_OFFSET zl2; set_tail zl2 (int tail + d) } else Some zl2) = Some zl3;
      ZIPLIST_BYTES zl3 = Some bytes; move_bytes zl3 (e_p first) p3 (bytes - p3 - 1) = Some zl4;
      ZIPLIST_BYTES zl4 = Some bytes; ziplistResize fresh zl4 (nat (int bytes - int totlen + d)) = Some zl5\<rbrakk>
    \<Longrightarrow> ziplistDeleteAt fresh zl p num = do { zl \<leftarrow> ZIPLIST_INCR_LENGTH zl5 (- int n);
          if d \<noteq> 0 then ziplistCascadeUpdate fresh zl (e_p first) else Some zl }"
  using assms
  by (unfold ziplistDeleteAt_def, simp_all only: bind.bind_lunit bind_runit prod.case Let_def if_False if_True simp_thms)

definition count_down :: "nat \<Rightarrow> nat \<Rightarrow> nat" where "count_down c n = (if c < 2 ^ 16 - 1 then c - n else c)"

lemma decr_count:
  "c < 2 ^ 16 \<Longrightarrow> c < 2 ^ 16 - 1 \<longrightarrow> n \<le> c \<Longrightarrow>
    ZIPLIST_INCR_LENGTH (hdr l t (int c) @ z) (- int n) = Some (hdr l t (int (count_down c n)) @ z)"
  by (simp add: incr_length_hdr count_down_def of_nat_diff)

lemma zipEntry_pos: "zipEntry zl p = Some e \<Longrightarrow> e_p e = p"
  by (auto simp: zipEntry_def bind_eq_Some_conv)

text \<open>What a deletion finds: the first entry, and the end of the deleted ones.\<close>

lemma delete_lookup:
  assumes ok: "chain_ok 0 (pre @ ds @ es)" and ds: "ds \<noteq> []" and n: "num = length ds \<or> length ds \<le> num \<and> es = []"
    and bound: "zl_size (pre @ ds @ es) < 2 ^ 32" and p: "p = 10 + sum_list (map ent_len pre)"
  obtains first where "zipEntry (zl_of c (pre @ ds @ es)) p = Some first" "e_p first = p" "prevrawlen first = last_len 0 pre"
    "skip_entries (zl_of c (pre @ ds @ es)) p num 0 = Some (p + sum_list (map ent_len ds), length ds)"
proof -
  let ?h = "hdr (int (zl_size (pre @ ds @ es))) (int (10 + tail_pos (pre @ ds @ es))) (int c)"
  obtain b x ds' where d: "ds = (b, x) # ds'" using ds by (cases ds) auto
  have "zl_of c (pre @ ds @ es) = ?h @ chain 0 pre @ prev_bytes b (last_len 0 pre) @ x @ chain (ent_len (b, x)) (ds' @ es) @ [255]"
    by (simp add: zl_of_def chain_append d)
  moreover have "last_len 0 pre < 2 ^ 32" using last_len_le [of pre] bound by (simp add: zl_size_def)
  ultimately have "map_option prevrawlen (zipEntry (zl_of c (pre @ ds @ es)) p) = Some (last_len 0 pre)"
    using zl_at_entry(4) [of pre b x "ds' @ es"] ok p d by simp
  moreover have "skip_entries ((?h @ chain 0 pre) @ chain (last_len 0 pre) (ds @ es) @ [255]) p num 0
      = Some (p + sum_list (map ent_len ds), 0 + length ds)"
    by (rule skip_entries_chain) (use ok n p in \<open>simp_all add: chain_ok_append length_chain\<close>)
  ultimately show ?thesis using that zipEntry_pos by (auto simp: zl_of_def chain_append)
qed

lemma delete_tail:
  assumes ok: "chain_ok 0 (pre @ ds)" and ds: "ds \<noteq> []" and n: "length ds \<le> num" and c: "c < 2 ^ 16"
    and cn: "c < 2 ^ 16 - 1 \<longrightarrow> length ds \<le> c" and bound: "zl_size (pre @ ds) < 2 ^ 32"
  shows "ziplistDeleteAt fresh (zl_of c (pre @ ds)) (10 + sum_list (map ent_len pre)) num
    = Some (zl_of (count_down c (length ds)) pre)"
proof -
  let ?es = "pre @ ds" and ?p = "10 + sum_list (map ent_len pre)" and ?w = "sum_list (map ent_len ds)"
  let ?cur = "zl_size ?es" and ?r = "chain 0 pre @ chain (last_len 0 pre) ds @ [255]"
  have zl: "zl_of k ?es = hdr (int ?cur) (int (10 + tail_pos ?es)) (int k) @ ?r" for k
    by (simp add: zl_of_def chain_append)
  obtain first where f: "zipEntry (zl_of c ?es) ?p = Some first" "e_p first = ?p" "prevrawlen first = last_len 0 pre"
    "skip_entries (zl_of c ?es) ?p num 0 = Some (?p + ?w, length ds)"
    using delete_lookup [of pre ds "[]" num ?p c] assms by auto
  have w: "?w \<noteq> 0" using ds by (cases ds) (auto simp: ent_len_def)
  have be: "byte_of (zl_of c ?es) (?p + ?w) = Some ZIP_END" using end_of_zl [of c ?es] by (simp add: add.assoc)
  have t: "int ?p - int (last_len 0 pre) = int (10 + tail_pos pre)"
    by (cases pre rule: rev_cases) (simp_all add: last_len_def tail_pos_def)
  have t1: "set_tail (zl_of c ?es) (int (e_p first) - int (prevrawlen first))
      = Some (hdr (int ?cur) (int (10 + tail_pos pre)) (int c) @ ?r)"
    unfolding f(2,3) t zl by (rule hdr_writes)
  have zb: "ZIPLIST_BYTES (hdr (int ?cur) (int (10 + tail_pos pre)) (int c) @ ?r) = Some ?cur"
    using hdr_reads(1) [of "int ?cur"] bound by simp
  have len: "nat (int ?cur - int ?w + 0) = zl_size pre" by (simp add: zl_size_def)
  have rs: "ziplistResize fresh (hdr (int ?cur) (int (10 + tail_pos pre)) (int c) @ ?r) (zl_size pre)
      = Some (hdr (int (zl_size pre)) (int (10 + tail_pos pre)) (int c) @ chain 0 pre @ [255])"
    by (rule resize_zl_shrink [OF refl, where v = "chain (last_len 0 pre) ds @ [255]"])
      (use bound in \<open>simp_all add: zl_size_def length_chain\<close>)
  have "ziplistDeleteAt fresh (zl_of c ?es) ?p num
      = ZIPLIST_INCR_LENGTH (hdr (int (zl_size pre)) (int (10 + tail_pos pre)) (int c) @ chain 0 pre @ [255]) (- int (length ds))"
    by (rule delete_steps_end [OF f(1,4) _ w be refl t1 zb]) (simp_all only: f(2) len rs add_diff_cancel_left')
  then show ?thesis by (simp add: decr_count [OF c cn] zl_of_def)
qed

text \<open>The part of a deletion that rewrites the field before the next entry and closes the gap.\<close>

lemma delete_close:
  fixes a D :: "byte list" and pl :: nat
  defines "b' \<equiv> 254 \<le> pl"
  defines "p \<equiv> 10 + length a"
  assumes x: "body_ok x" and es: "chain_ok k es" and d: "d = int (psize b') - int (psize b)"
    and w: "w = length D" and wide: "psize b' \<le> w + psize b" and pl: "pl < 2 ^ 32"
    and t: "t = p + w + tail_pos ((b, x) # es)" and bound: "t + 4 < 2 ^ 32" "cur < 2 ^ 32"
    and cur: "cur = p + 1 + w + psize b + length x + length (chain k es)"
    and p3: "p3 = nat (int (p + w) - d)"
  obtains zl1 zl2 te b2 zl3 zl4 where
    "write_bytes (hdr (int cur) (int t) c @ a @ D @ prev_bytes b m @ x @ chain k es @ [255]) p3 (zipPrevEncodeLength pl) = Some zl1"
    "ZIPLIST_TAIL_OFFSET zl1 = Some t" "set_tail zl1 (int t - int w) = Some zl2"
    "zipEntry zl2 p3 = Some te" "byte_of zl2 (p3 + headersize te + e_len te) = Some b2"
    "(if b2 \<noteq> ZIP_END then do { tail \<leftarrow> ZIPLIST_TAIL_OFFSET zl2; set_tail zl2 (int tail + d) } else Some zl2) = Some zl3"
    "ZIPLIST_BYTES zl3 = Some cur" "move_bytes zl3 p p3 (cur - p3 - 1) = Some zl4"
    "ZIPLIST_BYTES zl4 = Some cur"
    "ziplistResize fresh zl4 (nat (int cur - int w + d))
      = Some (hdr (int (p + 1 + psize b' + length x + length (chain k es))) (int (p + tail_pos ((b', x) # es))) c
        @ a @ prev_bytes b' pl @ x @ chain k es @ [255])"
proof -
  define g where "g = take (w + psize b - psize b') (D @ prev_bytes b m)"
  define u where "u = drop (w + psize b - psize b') (D @ prev_bytes b m)"
  have gu: "D @ prev_bytes b m = g @ u" by (simp only: g_def u_def append_take_drop_id)
  have lg: "length g = w + psize b - psize b'" "length u = psize b'" using w wide by (simp_all add: g_def u_def)
  let ?r = "x @ chain k es @ [255]"
  define B where "B t = hdr (int cur) t c @ a @ g @ prev_bytes b' pl @ ?r" for t
  have p3': "p3 = p + length g" using p3 lg(1) d wide by simp
  have eq: "D @ prev_bytes b m @ ?r = g @ u @ ?r" using gu by (simp flip: append_assoc)
  have "write_bytes ((hdr (int cur) (int t) c @ a @ g) @ u @ ?r) p3 (prev_bytes b' pl)
      = Some ((hdr (int cur) (int t) c @ a @ g) @ prev_bytes b' pl @ ?r)"
    by (rule write_bytes_mid) (simp_all add: p3' lg p_def)
  then have w1: "write_bytes (hdr (int cur) (int t) c @ a @ D @ prev_bytes b m @ ?r) p3 (zipPrevEncodeLength pl) = Some (B (int t))"
    unfolding eq by (simp add: zipPrevEncodeLength_bytes b'_def B_def)
  have tl: "0 \<le> v \<Longrightarrow> v < 2 ^ 32 \<Longrightarrow> ZIPLIST_TAIL_OFFSET (B v) = Some (nat v)" for v
    by (simp add: B_def hdr_reads)
  have st: "set_tail (B v) v' = Some (B v')" for v v' by (simp add: B_def hdr_writes)
  have zb: "ZIPLIST_BYTES (hdr (int cur) v c @ y) = Some cur" for v y using hdr_reads(1) [of "int cur"] bound(2) by simp
  obtain enc ls q where h: "body_head x = (enc, ls, q)" "length x = ls + q" using x by (auto elim: body_okE)
  let ?t2 = "int t - int w"
  have e: "zipEntry (B ?t2) p3 = Some \<lparr>prevrawlensize = psize b', prevrawlen = pl,
    lensize = ls, e_len = q, headersize = psize b' + ls, e_encoding = enc, e_p = p3\<rparr>" (is "_ = Some ?e")
    using zipEntry_entry [of p3 "hdr (int cur) ?t2 c @ a @ g" b' pl x enc ls q "chain k es @ [255]"] x h pl
    by (simp add: B_def p3' p_def b'_def)
  obtain z where z: "byte_of (B ?t2) (p3 + headersize ?e + e_len ?e) = Some z" "z = ZIP_END \<longleftrightarrow> es = []"
    using byte_of_chain [OF _ es, of "p3 + headersize ?e + e_len ?e" "hdr (int cur) ?t2 c @ a @ g @ prev_bytes b' pl @ x"] h(2)
    by (auto simp: B_def p3' p_def)
  let ?t3 = "int (p + tail_pos ((b', x) # es))"
  have "0 \<le> ?t2" "?t2 < 2 ^ 32" using t bound by simp_all
  note t2 = tl [OF this]
  have "es \<noteq> [] \<Longrightarrow> int (nat ?t2) + d = ?t3" and "es = [] \<Longrightarrow> ?t2 = ?t3"
    using t d by (simp_all add: tail_pos_Cons)
  then have z3: "(if z \<noteq> ZIP_END then do { tail \<leftarrow> ZIPLIST_TAIL_OFFSET (B ?t2); set_tail (B ?t2) (int tail + d) } else Some (B ?t2))
      = Some (B ?t3)"
    unfolding t2 bind.bind_lunit st using z(2) by (cases "es = []") (simp_all only: if_True if_False simp_thms)
  define N where "N = cur - p3 - 1"
  have n: "N = length (prev_bytes b' pl @ x @ chain k es)" using cur p3' lg wide by (simp add: N_def)
  have "move_bytes (B ?t3) p p3 (N) = Some (take p (B ?t3) @ (prev_bytes b' pl @ x @ chain k es) @ drop (p + (N)) (B ?t3))"
    by (rule move_block [where a = "hdr (int cur) ?t3 c @ a @ g" and c = "[255]"])
      (simp_all add: n B_def p3' p_def)
  moreover have "take p (B ?t3) = hdr (int cur) ?t3 c @ a" by (simp add: B_def p_def)
  moreover define v where "v = drop (p + (N)) (B ?t3)"
  ultimately have m: "move_bytes (B ?t3) p p3 (N) = Some (hdr (int cur) ?t3 c @ a @ prev_bytes b' pl @ x @ chain k es @ v)"
    by simp
  have v: "v \<noteq> []" by (simp add: v_def n B_def p_def)
  have "nat (int cur - int w + d) = 11 + length (a @ prev_bytes b' pl @ x @ chain k es)"
    using cur d by (simp add: p_def)
  moreover have "nat (int cur - int w + d) < 2 ^ 32" using bound(2) d wide by simp
  ultimately have "ziplistResize fresh (hdr (int cur) ?t3 c @ a @ prev_bytes b' pl @ x @ chain k es @ v) (nat (int cur - int w + d))
      = Some (hdr (int (nat (int cur - int w + d))) ?t3 c @ (a @ prev_bytes b' pl @ x @ chain k es) @ [255])"
    using resize_zl_shrink [OF _ v, of "a @ prev_bytes b' pl @ x @ chain k es @ v" "a @ prev_bytes b' pl @ x @ chain k es"
      "nat (int cur - int w + d)" fresh "int cur" ?t3 c] by simp
  moreover have "nat (int cur - int w + d) = p + 1 + psize b' + length x + length (chain k es)"
    using cur d by simp
  ultimately have rs: "ziplistResize fresh (hdr (int cur) ?t3 c @ a @ prev_bytes b' pl @ x @ chain k es @ v) (nat (int cur - int w + d))
      = Some (hdr (int (p + 1 + psize b' + length x + length (chain k es))) ?t3 c @ a @ prev_bytes b' pl @ x @ chain k es @ [255])"
    by simp
  have t0: "ZIPLIST_TAIL_OFFSET (B (int t)) = Some t" using tl [of "int t"] bound(1) by simp
  show ?thesis by (rule that [OF w1 t0 st e z(1) z3 _ m [unfolded N_def] _ rs]) (simp_all only: zb B_def)
qed

lemma delete_before:
  fixes pre :: "zent list"
  defines "pl \<equiv> last_len 0 pre"
  assumes ok: "chain_ok 0 (pre @ ds @ (b, x) # es)" and ds: "ds \<noteq> []" and c: "c < 2 ^ 16"
    and cn: "c < 2 ^ 16 - 1 \<longrightarrow> length ds \<le> c" and fits: "zl_size (pre @ ds @ (b, x) # es) + 4 * length es + 4 < 2 ^ 32"
  shows "ziplistDeleteAt fresh (zl_of c (pre @ ds @ (b, x) # es)) (10 + sum_list (map ent_len pre)) (length ds)
    = Some (zl_of (count_down c (length ds)) (pre @ relink pl ((b, x) # es)))"
proof -
  let ?es = "pre @ ds @ (b, x) # es" and ?p = "10 + sum_list (map ent_len pre)" and ?k = "psize b + length x"
  let ?a = "chain 0 pre" and ?D = "chain pl ds" and ?cur = "zl_size ?es" and ?t = "10 + tail_pos ?es" and ?b' = "254 \<le> pl"
  let ?d = "int (psize ?b') - int (psize b)" and ?c' = "int (count_down c (length ds))"
  define w where "w = length ?D"
  define m where "m = last_len 0 (pre @ ds)"
  have ml: "last_len pl ds = m" by (simp add: pl_def m_def last_len_def)
  have zl: "zl_of c ?es = hdr (int ?cur) (int ?t) (int c) @ ?a @ ?D @ prev_bytes b m @ x @ chain ?k es @ [255]"
    by (simp add: zl_of_def chain_append pl_def [symmetric] ml)
  have p: "10 + length ?a = ?p" by (simp add: length_chain)
  have w: "w = sum_list (map ent_len ds)" by (simp add: w_def length_chain)
  have bound: "?cur < 2 ^ 32" using fits by simp
  have pl: "pl < 2 ^ 32" using last_len_le [of pre] bound by (simp add: pl_def zl_size_def)
  have ok': "body_ok x" "chain_ok ?k es" "b \<or> m < 254" using ok by (simp_all add: chain_ok_append pl_def [symmetric] ml)
  obtain e0 ds' where e0: "ds = e0 # ds'" "fst e0 \<or> pl < 254"
    using ds ok by (cases ds) (auto simp: chain_ok_append pl_def)
  then have wide: "psize ?b' \<le> w + psize b" and w0: "w \<noteq> 0" by (auto simp: w ent_len_def psize_def)
  have wd: "psize ?b' \<le> w" using e0 by (auto simp: w ent_len_def psize_def)
  obtain first where f: "zipEntry (zl_of c ?es) ?p = Some first" "e_p first = ?p" "prevrawlen first = pl"
    "skip_entries (zl_of c ?es) ?p (length ds) 0 = Some (?p + w, length ds)"
    using delete_lookup [OF ok ds _ bound refl, of "length ds" c] by (auto simp: pl_def w)
  have at: "zl_of c ?es = hdr (int ?cur) (int ?t) (int c) @ chain 0 (pre @ ds) @ prev_bytes b (last_len 0 (pre @ ds)) @ x @ chain ?k es @ [255]"
    using zl by (simp add: chain_append m_def pl_def)
  have ok2: "chain_ok 0 ((pre @ ds) @ (b, x) # es)" and p2: "?p + w = 10 + sum_list (map ent_len (pre @ ds))" using ok w by simp_all
  note q = zl_at_entry [OF ok2 p2 at length_hdr]
  have t: "?t = 10 + length ?a + w + tail_pos ((b, x) # es)" by (simp add: tail_pos_append length_chain w)
  have t4: "?t + 4 < 2 ^ 32" using tail_pos_le [of ?es] fits by (simp add: zl_size_def)
  have cur: "?cur = 10 + length ?a + 1 + w + psize b + length x + length (chain ?k es)"
    by (simp add: zl_size_def length_chain w)
  obtain zl1 zl2 te b2 zl3 zl4 where s:
    "write_bytes (zl_of c ?es) (nat (int (?p + w) - ?d)) (zipPrevEncodeLength pl) = Some zl1"
    "ZIPLIST_TAIL_OFFSET zl1 = Some ?t" "set_tail zl1 (int ?t - int w) = Some zl2"
    "zipEntry zl2 (nat (int (?p + w) - ?d)) = Some te" "byte_of zl2 (nat (int (?p + w) - ?d) + headersize te + e_len te) = Some b2"
    "(if b2 \<noteq> ZIP_END then do { tail \<leftarrow> ZIPLIST_TAIL_OFFSET zl2; set_tail zl2 (int tail + ?d) } else Some zl2) = Some zl3"
    "ZIPLIST_BYTES zl3 = Some ?cur" "move_bytes zl3 ?p (nat (int (?p + w) - ?d)) (?cur - nat (int (?p + w) - ?d) - 1) = Some zl4"
    "ZIPLIST_BYTES zl4 = Some ?cur"
    "ziplistResize fresh zl4 (nat (int ?cur - int w + ?d))
      = Some (hdr (int (?p + 1 + psize ?b' + length x + length (chain ?k es))) (int (?p + tail_pos ((?b', x) # es))) (int c)
        @ ?a @ prev_bytes ?b' pl @ x @ chain ?k es @ [255])"
    by (rule delete_close [OF ok'(1,2) refl w_def wide pl t t4 bound cur refl, of "int c" m fresh, unfolded p, folded zl])
  have "ziplistDeleteAt fresh (zl_of c ?es) ?p (length ds)
    = do { zl \<leftarrow> ZIPLIST_INCR_LENGTH (hdr (int (?p + 1 + psize ?b' + length x + length (chain ?k es)))
              (int (?p + tail_pos ((?b', x) # es))) (int c) @ ?a @ prev_bytes ?b' pl @ x @ chain ?k es @ [255]) (- int (length ds));
          if ?d \<noteq> 0 then ziplistCascadeUpdate fresh zl ?p else Some zl }"
    by (rule delete_steps_mid [OF f(1,4) _ w0 q(1,2), unfolded f(2,3), OF _ q(3) refl s])
      (simp_all only: add_diff_cancel_left')
  also have "\<dots> = (if psize ?b' \<noteq> psize b then ziplistCascadeUpdate fresh
          (hdr (int (?p + 1 + psize ?b' + length x + length (chain ?k es))) (int (?p + tail_pos ((?b', x) # es))) ?c'
            @ ?a @ prev_bytes ?b' pl @ x @ chain ?k es @ [255]) ?p
        else Some (hdr (int (?p + 1 + psize ?b' + length x + length (chain ?k es))) (int (?p + tail_pos ((?b', x) # es))) ?c'
            @ ?a @ prev_bytes ?b' pl @ x @ chain ?k es @ [255]))"
    unfolding decr_count [OF c cn] by simp
  also have "\<dots> = Some (hdr (int (11 + length ?a + sum_list (map ent_len (relink pl ((b, x) # es)))))
        (int (10 + length ?a + tail_pos (relink pl ((b, x) # es)))) ?c'
        @ ?a @ chain pl (relink pl ((b, x) # es)) @ [255])"
  proof -
    have sz: "?p + 1 + psize ?b' + length x + length (chain ?k es)
        = 11 + length ?a + psize ?b' + length x + sum_list (map ent_len es)" by (simp add: length_chain)
    have sz': "?p + 1 + psize ?b' + length x + length (chain ?k es) + 4 * length es < 2 ^ 32"
      using cur fits wd by (simp add: length_chain)
    have k: "?k < 2 ^ 32" using bound by (simp add: zl_size_def)
    have tp: "?p + tail_pos ((?b', x) # es) = 10 + length ?a + tail_pos ((?b', x) # es)" by (simp add: length_chain)
    show ?thesis using relink_update [OF ok'(1) pl ok'(2) refl sz sz' tp k, of fresh ?c'] unfolding p .
  qed
  also have "\<dots> = Some (zl_of (count_down c (length ds)) (pre @ relink pl ((b, x) # es)))"
    by (simp add: zl_of_def zl_size_def tail_pos_append length_chain chain_append pl_def ac_simps)
  finally show ?thesis .
qed

end
