(* ===== verification/Ziplist_Correct.thy ===== *)
theory Ziplist_Correct
  imports Ziplist_Edit
begin

text \<open>
  The properties of ziplists. \<open>zl_repr zl es\<close> says that the buffer \<open>zl\<close> is the ziplist of the
  entries \<open>es\<close>, and \<open>zl_texts es\<close> are the texts they hold. Insertion and deletion act on the texts
  as on a list, from both ends the indexes reach the entries, and the last part is about the insertion
  that the code gets wrong.
\<close>

subsection \<open>From entries to texts\<close>

lemma length_zipEncodeLength: "length (zipEncodeLength enc n) \<le> 5"
  by (simp add: zipEncodeLength_def)

lemma length_entry_body:
  assumes "length s < 2 ^ 32"
  shows "length (entry_body s) \<le> length s + 9"
proof (cases "zipTryEncoding s")
  case None
  then show ?thesis using entry_body_str(1) [OF None assms] length_zipEncodeLength [of 0 "length s"] by simp
next
  case (Some q)
  then obtain v enc where "zipTryEncoding s = Some (v, enc)" by (cases q) auto
  then show ?thesis by (rule entry_body_int) (simp add: zipIntSize_def)
qed

lemma zl_size_append: "zl_size (es @ fs) = zl_size es + sum_list (map ent_len fs)"
  by (simp add: zl_size_def)

lemma count_up_ok: "c < 2 ^ 16 \<Longrightarrow> (c < 2 ^ 16 - 1 \<longrightarrow> c = n) \<Longrightarrow>
    count_up c < 2 ^ 16 \<and> (count_up c < 2 ^ 16 - 1 \<longrightarrow> count_up c = Suc n)"
  by (auto simp: count_up_def)

lemma count_down_ok: "c < 2 ^ 16 \<Longrightarrow> (c < 2 ^ 16 - 1 \<longrightarrow> c = n + k) \<Longrightarrow>
    count_down c k < 2 ^ 16 \<and> (count_down c k < 2 ^ 16 - 1 \<longrightarrow> count_down c k = n)"
  by (auto simp: count_down_def)

lemma relink_length [simp]: "length (relink n es) = length es"
  by (metis length_map relink_bodies)

lemma zl_reprE:
  assumes "zl_repr zl es"
  obtains c where "zl = zl_of c es" "chain_ok 0 es" "zl_size es < 2 ^ 32" "c < 2 ^ 16" "c < 2 ^ 16 - 1 \<longrightarrow> c = length es"
  using assms by (auto simp: zl_repr_def)

text \<open>The length of the new entry before the entry \<open>k\<close>.\<close>

definition new_len :: "zent list \<Rightarrow> nat \<Rightarrow> byte list \<Rightarrow> nat" where
  "new_len es k s = psize (254 \<le> last_len 0 (take k es)) + length (entry_body s)"

definition zl_insert :: "nat \<Rightarrow> byte list \<Rightarrow> zent list \<Rightarrow> zent list" where
  "zl_insert k s es = take k es
     @ (254 \<le> last_len 0 (take k es), entry_body s) # relink (new_len es k s) (drop k es)"

definition zl_delete :: "nat \<Rightarrow> nat \<Rightarrow> zent list \<Rightarrow> zent list" where
  "zl_delete k n es = take k es @ relink (last_len 0 (take k es)) (drop (k + n) es)"

lemma zl_texts_take: "zl_texts (take k es) = take k (zl_texts es)" "zl_texts (drop k es) = drop k (zl_texts es)"
  by (simp_all add: zl_texts_def take_map drop_map)

lemma zl_insert_texts:
  "length s < 2 ^ 32 \<Longrightarrow> zl_texts (zl_insert k s es) = take k (zl_texts es) @ s # drop k (zl_texts es)"
  using entry_body_holds [of s] by (simp add: zl_insert_def zl_texts_take)

lemma zl_delete_texts: "zl_texts (zl_delete k n es) = take k (zl_texts es) @ drop (k + n) (zl_texts es)"
  by (simp add: zl_delete_def zl_texts_take)

lemma zl_insert_step:
  assumes r: "zl_repr zl es" and k: "k \<le> length es" and s: "length s < 2 ^ 31"
    and fits: "zl_size es + length s + 18 + 4 * length es < 2 ^ 32"
    and room: "k < length es \<longrightarrow> fst (es ! k) \<longrightarrow> 4 \<le> new_len es k s"
  shows "\<exists>zl'. ziplistInsertAt fresh zl (zl_pos es k) s = Some zl' \<and> zl_repr zl' (zl_insert k s es)"
proof -
  obtain c where c: "zl = zl_of c es" "chain_ok 0 es" "zl_size es < 2 ^ 32" "c < 2 ^ 16" "c < 2 ^ 16 - 1 \<longrightarrow> c = length es"
    using r by (rule zl_reprE)
  define pre where "pre = take k es"
  have s32: "length s < 2 ^ 32" using s by simp
  have nl: "new_len es k s \<le> length s + 14"
    using length_entry_body [OF s32] by (simp add: new_len_def psize_def)
  have es: "es = pre @ drop k es" by (simp add: pre_def)
  have "ziplistInsertAt fresh zl (zl_pos es k) s = Some (zl_of (count_up c) (zl_insert k s es))"
  proof (cases "drop k es")
    case Nil
    then have "es = pre" using es by simp
    then show ?thesis using insert_at_end [of es c s fresh] c fits s32 nl Nil
      by (simp add: zl_pos_def zl_insert_def new_len_def pre_def)
  next
    case (Cons e fs)
    then have "k < length es" by (metis drop_eq_Nil leI list.distinct(1))
    then have ek: "es ! k = e" using Cons by (metis Cons_nth_drop_Suc list.inject)
    obtain b x where e: "e = (b, x)" by (cases e)
    have split: "es = pre @ (b, x) # fs" using es Cons e by simp
    have len: "length fs < length es" using split by simp
    show ?thesis
      using insert_before [of pre b x fs c s fresh, folded split] c s32 nl fits len room \<open>k < length es\<close> ek e Cons
      by (simp add: zl_pos_def zl_insert_def new_len_def pre_def)
  qed
  moreover have "chain_ok 0 (zl_insert k s es)"
  proof -
    have "chain_ok 0 (pre @ drop k es)" using c(2) es by simp
    then show ?thesis using entry_body_holds [OF s32] relink_ok [of "last_len 0 pre" "drop k es"]
      by (simp add: zl_insert_def chain_ok_append pre_def [symmetric]) (simp add: new_len_def pre_def)
  qed
  moreover have "zl_size (zl_insert k s es) < 2 ^ 32"
  proof -
    have "zl_size es = zl_size pre + sum_list (map ent_len (drop k es))" using zl_size_append [of pre "drop k es"] es by simp
    then show ?thesis using relink_size [of "new_len es k s" "drop k es"] fits nl
      by (simp add: zl_insert_def zl_size_append pre_def [symmetric]) (simp add: new_len_def pre_def)
  qed
  moreover have "length (zl_insert k s es) = Suc (length es)" using k by (simp add: zl_insert_def)
  ultimately show ?thesis using count_up_ok [OF c(4,5)] by (auto simp: zl_repr_def)
qed

lemma zl_delete_step:
  assumes r: "zl_repr zl es" and k: "k < length es" and n: "0 < n" and fits: "zl_size es + 4 * length es + 4 < 2 ^ 32"
  shows "\<exists>zl'. ziplistDeleteAt fresh zl (zl_pos es k) n = Some zl' \<and> zl_repr zl' (zl_delete k n es)"
proof -
  obtain c where c: "zl = zl_of c es" "chain_ok 0 es" "zl_size es < 2 ^ 32" "c < 2 ^ 16" "c < 2 ^ 16 - 1 \<longrightarrow> c = length es"
    using r by (rule zl_reprE)
  define pre where "pre = take k es"
  define ds where "ds = take n (drop k es)"
  have es: "es = pre @ ds @ drop (k + n) es"
  proof -
    have d: "drop (k + n) es = drop n (drop k es)" by (simp add: add.commute)
    show ?thesis by (simp only: d pre_def ds_def append_take_drop_id)
  qed
  have ds: "ds \<noteq> []" using k n by (simp add: ds_def)
  have len: "length es = length (zl_delete k n es) + length ds" using k n by (simp add: zl_delete_def ds_def)
  have cn: "c < 2 ^ 16 - 1 \<longrightarrow> length ds \<le> c" using c(5) len by auto
  have "ziplistDeleteAt fresh zl (zl_pos es k) n = Some (zl_of (count_down c (length ds)) (zl_delete k n es))"
  proof (cases "drop (k + n) es")
    case Nil
    then have split: "es = pre @ ds" and d: "zl_delete k n es = pre" using es by (simp_all add: zl_delete_def pre_def)
    have "length ds \<le> n" by (simp add: ds_def)
    then show ?thesis using delete_tail [of pre ds n c fresh, folded split] ds c d cn
      by (simp add: zl_pos_def pre_def [symmetric])
  next
    case (Cons e fs)
    obtain b x where e: "e = (b, x)" by (cases e)
    have split: "es = pre @ ds @ (b, x) # fs" using es Cons e by simp
    have "length ds = n"
    proof -
      have "k + n < length es" using Cons by (metis drop_eq_Nil leI list.distinct(1))
      then show ?thesis by (simp add: ds_def)
    qed
    moreover have "length fs < length es" using split by simp
    ultimately show ?thesis using delete_before [of pre ds b x fs c fresh, folded split] ds c fits cn Cons e
      by (simp add: zl_pos_def zl_delete_def pre_def [symmetric])
  qed
  moreover have "chain_ok 0 (zl_delete k n es)"
  proof -
    have "chain_ok 0 (pre @ ds @ drop (k + n) es)" using c(2) es by simp
    then show ?thesis using relink_ok by (auto simp: zl_delete_def chain_ok_append pre_def)
  qed
  moreover have "zl_size (zl_delete k n es) < 2 ^ 32"
  proof -
    have "zl_size es = zl_size pre + sum_list (map ent_len ds) + sum_list (map ent_len (drop (k + n) es))"
      using arg_cong [OF es, of zl_size] by (simp add: zl_size_append)
    then show ?thesis using relink_size [of "last_len 0 pre" "drop (k + n) es"] fits
      by (simp add: zl_delete_def zl_size_append pre_def [symmetric])
  qed
  ultimately show ?thesis using count_down_ok [OF c(4), of "length (zl_delete k n es)" "length ds"] c(5) len
    by (auto simp: zl_repr_def)
qed

subsection \<open>Access\<close>

text \<open>What the accessors read at the position of the entry \<open>k\<close>.\<close>

lemma zl_at:
  assumes r: "zl_repr zl es" and k: "k < length es"
  obtains b e enc ls l where "byte_of zl (zl_pos es k) = Some b" "b \<noteq> ZIP_END"
    "zipEntry zl (zl_pos es k) = Some e" "prevrawlen e = last_len 0 (take k es)"
    "headersize e = psize (fst (es ! k)) + ls" "e_len e = l" "e_encoding e = enc"
    "ZIP_DECODE_PREVLENSIZE zl (zl_pos es k) = Some (psize (fst (es ! k)))"
    "ZIP_DECODE_LENGTH zl (zl_pos es k + psize (fst (es ! k))) = Some (enc, ls, l)"
    "body_head (snd (es ! k)) = (enc, ls, l)" "length (snd (es ! k)) = ls + l" "body_ok (snd (es ! k))"
    "zipRawEntryLength zl (zl_pos es k) = Some (ent_len (es ! k))"
    "\<And>n x q. read_bytes (snd (es ! k)) n q = Some x \<Longrightarrow> read_bytes zl (zl_pos es k + psize (fst (es ! k)) + n) q = Some x"
    "\<And>n en v. zipLoadInteger (snd (es ! k)) n en = Some v \<Longrightarrow> zipLoadInteger zl (zl_pos es k + psize (fst (es ! k)) + n) en = Some v"
proof -
  obtain c where c: "zl = zl_of c es" "chain_ok 0 es" "zl_size es < 2 ^ 32" using r by (rule zl_reprE)
  obtain b x where e: "es ! k = (b, x)" by (cases "es ! k")
  define pre where "pre = take k es"
  define m where "m = last_len 0 pre"
  have es: "es = pre @ (b, x) # drop (Suc k) es" using id_take_nth_drop [OF k] e by (simp add: pre_def)
  then have ok: "b \<or> m < 254" "body_ok x" using c(2) by (metis chain_ok.simps(2) chain_ok_append fst_conv snd_conv m_def)+
  let ?h = "hdr (int (zl_size es)) (int (10 + tail_pos es)) (int c) @ chain 0 pre"
  let ?r = "chain (ent_len (b, x)) (drop (Suc k) es) @ [255]"
  have "chain 0 es = chain 0 pre @ prev_bytes b m @ x @ chain (ent_len (b, x)) (drop (Suc k) es)"
    by (subst es) (simp add: chain_append m_def)
  then have zl: "zl = ?h @ prev_bytes b m @ x @ ?r" by (simp add: c(1) zl_of_def)
  have p: "zl_pos es k = length ?h" by (simp add: zl_pos_def length_chain pre_def)
  have m: "m < 2 ^ 32" using last_len_le [of pre] c(3) arg_cong [OF es, of zl_size] by (simp add: m_def zl_size_def)
  obtain enc ls l where h: "ZIP_DECODE_LENGTH x 0 = Some (enc, ls, l)" "body_head x = (enc, ls, l)" "length x = ls + l"
    using ok(2) by (auto elim: body_okE)
  have px: "zl_pos es k + psize b = length (?h @ prev_bytes b m)" using p by simp
  have zx: "zl = (?h @ prev_bytes b m) @ x @ ?r" using zl by simp
  show ?thesis
  proof (rule that)
    show "byte_of zl (zl_pos es k) = Some (if b then 254 else m)" unfolding zl by (rule byte_of_entry [OF p ok(1)])
    show "(if b then 254 else m) \<noteq> ZIP_END" using ok(1) by (auto simp: ZIP_END_def)
    show "zipEntry zl (zl_pos es k) = Some \<lparr>prevrawlensize = psize b, prevrawlen = m,
      lensize = ls, e_len = l, headersize = psize b + ls, e_encoding = enc, e_p = zl_pos es k\<rparr>"
      unfolding zl by (rule zipEntry_entry [OF p ok(1) m ok(2) h(2)])
    show "ZIP_DECODE_PREVLENSIZE zl (zl_pos es k) = Some (psize (fst (es ! k)))"
      unfolding zl e fst_conv by (rule prevlensize_entry [OF p ok(1)])
    show "ZIP_DECODE_LENGTH zl (zl_pos es k + psize (fst (es ! k))) = Some (enc, ls, l)"
      unfolding zx e fst_conv by (rule decode_length_inside [OF h(1) px])
    show "zipRawEntryLength zl (zl_pos es k) = Some (ent_len (es ! k))"
      unfolding zl using raw_length_entry [OF p ok] by (simp add: e)
    show "read_bytes zl (zl_pos es k + psize (fst (es ! k)) + n) q = Some y" if "read_bytes (snd (es ! k)) n q = Some y" for n y q
      unfolding zx e fst_conv using that px by (intro read_bytes_inside) (simp_all add: e)
    show "zipLoadInteger zl (zl_pos es k + psize (fst (es ! k)) + n) en = Some v" if "zipLoadInteger (snd (es ! k)) n en = Some v" for n v en
      unfolding zx e fst_conv using that px by (intro load_integer_inside) (simp_all add: e)
  qed (use e h ok m_def pre_def in simp_all)
qed

lemma zl_at_end: "zl_repr zl es \<Longrightarrow> byte_of zl (zl_pos es (length es)) = Some ZIP_END"
  by (elim zl_reprE) (use end_of_zl in \<open>simp add: zl_pos_def\<close>)

lemma zl_pos_Suc: "k < length es \<Longrightarrow> zl_pos es k + ent_len (es ! k) = zl_pos es (Suc k)"
  by (simp add: zl_pos_def take_Suc_conv_app_nth)

lemma last_len_take: "last_len 0 (take (Suc k) es) = ent_len (es ! k)" if "k < length es"
  using that by (simp add: last_len_def take_Suc_conv_app_nth)

lemma ent_len_pos [simp]: "0 < ent_len e"
  by (simp add: ent_len_def)

text \<open>The ziplist of two short texts, for the witnesses.\<close>

definition two_texts :: "zent list" where
  "two_texts = [(False, entry_body [97]), (False, entry_body [98])]"

lemma two_texts_repr: "zl_repr (zl_of 2 two_texts) two_texts" "zl_texts two_texts = [[97], [98]]"
  "zl_size two_texts < 50" "length two_texts = 2"
proof -
  have b: "body_ok (entry_body [97])" "body_ok (entry_body [98])" "value_text (body_value (entry_body [97])) = [97]"
    "value_text (body_value (entry_body [98])) = [98]" "length (entry_body [97]) \<le> 10" "length (entry_body [98]) \<le> 10"
    using entry_body_holds [of "[97]"] entry_body_holds [of "[98]"] length_entry_body [of "[97]"] length_entry_body [of "[98]"]
    by simp_all
  then show "zl_texts two_texts = [[97], [98]]" "zl_size two_texts < 50" "length two_texts = 2"
    by (simp_all add: two_texts_def zl_size_def)
  then show "zl_repr (zl_of 2 two_texts) two_texts"
    unfolding zl_repr_def using b by (intro conjI exI [of _ 2]) (simp_all add: two_texts_def)
qed

subsection \<open>Insertion and deletion on the texts\<close>

text \<open>
  C4. \<open>__ziplistInsert\<close> at the position of the entry \<open>k\<close>, or at the end, makes a well formed ziplist
  whose texts are the old ones with the new one inserted at \<open>k\<close>: the move of the rest, the header, the
  relinked length fields and the cascade together change nothing else. This is false, and so excluded by
  the last hypothesis, when the entry \<open>k\<close> has a length field of five bytes and the new entry takes less
  than four: then the buffer shrinks before the rest is moved (C38).
\<close>

theorem ziplistInsert_inserts:
  assumes "zl_repr zl es" and "k \<le> length es" and "length s < 2 ^ 31"
    and "zl_size es + length s + 18 + 4 * length es < 2 ^ 32"
    and "k < length es \<longrightarrow> fst (es ! k) \<longrightarrow> 4 \<le> new_len es k s"
  shows "\<exists>zl' es'. ziplistInsertAt fresh zl (zl_pos es k) s = Some zl' \<and> zl_repr zl' es'
    \<and> zl_texts es' = take k (zl_texts es) @ s # drop k (zl_texts es)"
proof -
  have "length s < 2 ^ 32" using assms(3) by simp
  then show ?thesis using zl_insert_step [OF assms, of fresh] zl_insert_texts [of s k es] by blast
qed

theorem ziplistInsert_inserts_witness:
  "\<exists>zl' es'. ziplistInsertAt (\<lambda>_. 7) (zl_of 2 two_texts) (zl_pos two_texts 1) [55] = Some zl'
    \<and> zl_repr zl' es' \<and> zl_texts es' = [[97], [55], [98]]"
  using ziplistInsert_inserts [OF two_texts_repr(1), of 1 "[55]" "\<lambda>_. 7"] two_texts_repr
  by (simp add: two_texts_def)

text \<open>
  C11. \<open>__ziplistDelete\<close> of \<open>n\<close> entries from the entry \<open>k\<close> on makes a well formed ziplist of the texts
  before and behind them, also when fewer than \<open>n\<close> entries are left.
\<close>

theorem ziplistDelete_deletes:
  assumes "zl_repr zl es" and "k < length es" and "0 < n" and "zl_size es + 4 * length es + 4 < 2 ^ 32"
  shows "\<exists>zl' es'. ziplistDeleteAt fresh zl (zl_pos es k) n = Some zl' \<and> zl_repr zl' es'
    \<and> zl_texts es' = take k (zl_texts es) @ drop (k + n) (zl_texts es)"
  using zl_delete_step [OF assms] zl_delete_texts by blast

theorem ziplistDelete_deletes_witness:
  "\<exists>zl' es'. ziplistDeleteAt (\<lambda>_. 7) (zl_of 2 two_texts) (zl_pos two_texts 0) 1 = Some zl'
    \<and> zl_repr zl' es' \<and> zl_texts es' = [[98]]"
  using ziplistDelete_deletes [OF two_texts_repr(1), of 0 1 "\<lambda>_. 7"] two_texts_repr
  by (simp add: two_texts_def)

end
