(* ===== verification/Ziplist_Access.thy ===== *)
theory Ziplist_Access
  imports Ziplist_Correct
begin

text \<open>
  Reading a ziplist: walking it in both directions, indexing from either end, reading values,
  comparing, searching and counting. Positions are those of the entries, values those of their bodies.
\<close>

subsection \<open>Indexes\<close>

lemma index_forward_pos:
  assumes "zl_repr zl es"
  shows "k \<le> length es \<Longrightarrow> index_forward zl (zl_pos es k) n
    = Some (if k + n < length es then (zl_pos es (k + n), - 1) else (zl_pos es (length es), int (k + n - length es)))"
proof (induction n arbitrary: k)
  case 0
  show ?case
  proof (cases "k < length es")
    case True
    obtain b where "byte_of zl (zl_pos es k) = Some b" "b \<noteq> ZIP_END" using zl_at [OF assms True] by metis
    then show ?thesis using True by simp
  qed (use 0 zl_at_end [OF assms] in simp)
next
  case (Suc n)
  show ?case
  proof (cases "k < length es")
    case True
    obtain b where b: "byte_of zl (zl_pos es k) = Some b" "b \<noteq> ZIP_END"
      "zipRawEntryLength zl (zl_pos es k) = Some (ent_len (es ! k))" using zl_at [OF assms True] by metis
    then show ?thesis using True Suc.IH [of "Suc k"] zl_pos_Suc [OF True] by simp
  qed (use Suc.prems zl_at_end [OF assms] in simp)
qed

lemma last_len_pos: "k < length es \<Longrightarrow> 0 < last_len 0 (take k es) \<longleftrightarrow> 0 < k"
  by (cases k) (auto simp: last_len_take last_len_def)

lemma zl_pos_back: "0 < k \<Longrightarrow> k < length es \<Longrightarrow> zl_pos es k - last_len 0 (take k es) = zl_pos es (k - 1)
    \<and> last_len 0 (take k es) \<le> zl_pos es k"
  using zl_pos_Suc [of "k - 1" es] last_len_take [of "k - 1" es] by (cases k) simp_all

lemma index_backward_pos:
  assumes "zl_repr zl es"
  shows "k < length es \<Longrightarrow> index_backward zl (zl_pos es k) n
    = Some (if n < k then (zl_pos es (k - n), - 1) else (zl_pos es 0, int (n - k)))"
proof (induction n arbitrary: k)
  case 0
  obtain e where "zipEntry zl (zl_pos es k) = Some e" "prevrawlen e = last_len 0 (take k es)"
    using zl_at [OF assms 0] by metis
  then show ?case using last_len_pos [OF 0] by auto
next
  case (Suc n)
  obtain e where e: "zipEntry zl (zl_pos es k) = Some e" "prevrawlen e = last_len 0 (take k es)"
    using zl_at [OF assms Suc.prems] by metis
  show ?case
  proof (cases "k = 0")
    case True
    then show ?thesis using e last_len_pos [OF Suc.prems] by simp
  next
    case False
    then have "index_backward zl (zl_pos es k) (Suc n) = index_backward zl (zl_pos es (k - 1)) n"
      using e last_len_pos [OF Suc.prems] zl_pos_back [of k es] Suc.prems by (simp add: check_def)
    then show ?thesis using Suc.IH [of "k - 1"] Suc.prems False by auto
  qed
qed

lemma tail_is_last:
  assumes "zl_repr zl es"
  shows "ZIPLIST_TAIL_OFFSET zl = Some (zl_pos es (length es - 1))"
proof -
  obtain c where c: "zl = zl_of c es" "zl_size es < 2 ^ 32" using assms by (rule zl_reprE)
  have "tail_pos es = sum_list (map ent_len (take (length es - 1) es))"
    by (simp add: tail_pos_def butlast_conv_take)
  then show ?thesis using tail_of_zl [OF c(2)] c(1) by (simp add: zl_pos_def)
qed

definition index_of :: "nat \<Rightarrow> int \<Rightarrow> nat option" where
  "index_of n i = (if 0 \<le> i \<and> i < int n then Some (nat i)
     else if i < 0 \<and> - i \<le> int n then Some (nat (int n + i)) else None)"

lemma index_of_simps:
  "index_of n (int k) = (if k < n then Some k else None)"
  "index_of n (- int j - 1) = (if j < n then Some (n - 1 - j) else None)"
proof -
  have "nat (int n + (- int j - 1)) = n - 1 - j" by arith
  then show "index_of n (- int j - 1) = (if j < n then Some (n - 1 - j) else None)" by (auto simp: index_of_def)
qed (simp add: index_of_def)

lemma ziplistIndex_pos:
  assumes r: "zl_repr zl es"
  shows "ziplistIndex zl i = Some (map_option (zl_pos es) (index_of (length es) i))"
proof -
  have end': "byte_of zl (zl_pos es (length es)) = Some ZIP_END" by (rule zl_at_end [OF r])
  have at: "\<exists>b. byte_of zl (zl_pos es k) = Some b \<and> b \<noteq> ZIP_END" if "k < length es" for k
    using zl_at [OF r that] by metis
  show ?thesis
  proof (cases "i < 0")
    case False
    have p0: "ZIPLIST_HEADER_SIZE = zl_pos es 0" by (simp add: ZIPLIST_HEADER_SIZE_def zl_pos_def)
    show ?thesis
      using False index_forward_pos [OF r, of 0 "nat i"] at [of "nat i"] end'
      by (auto simp: ziplistIndex_def index_of_def p0)
  next
    case True
    note neg = this
    show ?thesis
    proof (cases "es = []")
      case True
      then show ?thesis using neg end' tail_is_last [OF r] by (auto simp: ziplistIndex_def index_of_def)
    next
      case False
      then have l: "length es - 1 < length es" by simp
      define j where "j = nat (- i - 1)"
      have j: "i = - int j - 1" using neg by (simp add: j_def)
      have bk: "index_backward zl (zl_pos es (length es - 1)) j
          = Some (if j < length es - 1 then (zl_pos es (length es - 1 - j), - 1) else (zl_pos es 0, int (j - (length es - 1))))"
        by (rule index_backward_pos [OF r l])
      obtain b where b: "byte_of zl (zl_pos es (length es - 1)) = Some b" "b \<noteq> ZIP_END" using at [OF l] by blast
      have x: "ziplistIndex zl i = do { (p, index) \<leftarrow> index_backward zl (zl_pos es (length es - 1)) j;
          b \<leftarrow> byte_of zl p; Some (if b = ZIP_END \<or> index > 0 then None else Some p) }"
        using neg b by (simp add: ziplistIndex_def tail_is_last [OF r] j)
      obtain n where n: "length es = Suc n" using False by (cases es) auto
      consider "j < length es - 1" | "j = length es - 1" | "length es \<le> j" by linarith
      then show ?thesis unfolding x bk unfolding j index_of_simps
        using at [of "length es - 1 - j"] at [of 0] n by cases (auto simp: diff_less_Suc)
    qed
  qed
qed

subsection \<open>Values\<close>

lemma ziplistGet_pos:
  assumes r: "zl_repr zl es" and k: "k < length es"
  shows "ziplistGet zl (Some (zl_pos es k)) = Some (Some (body_value (snd (es ! k))))"
proof (rule zl_at [OF r k])
  fix b e enc ls l
  assume a: "byte_of zl (zl_pos es k) = Some b" "b \<noteq> ZIP_END"
    "zipEntry zl (zl_pos es k) = Some e" "headersize e = psize (fst (es ! k)) + ls" "e_len e = l" "e_encoding e = enc"
    "body_head (snd (es ! k)) = (enc, ls, l)" "length (snd (es ! k)) = ls + l" "body_ok (snd (es ! k))"
    and rd: "\<And>n x q. read_bytes (snd (es ! k)) n q = Some x \<Longrightarrow> read_bytes zl (zl_pos es k + psize (fst (es ! k)) + n) q = Some x"
    and ld: "\<And>n en v. zipLoadInteger (snd (es ! k)) n en = Some v \<Longrightarrow> zipLoadInteger zl (zl_pos es k + psize (fst (es ! k)) + n) en = Some v"
  show ?thesis
  proof (cases "ZIP_IS_STR enc")
    case True
    have "read_bytes (snd (es ! k)) ls l = Some (drop ls (snd (es ! k)))" using a(8) by (simp add: read_bytes_def)
    then show ?thesis using rd a True by (simp add: ziplistGet_def body_value_def add.assoc)
  next
    case False
    then obtain v where "zipLoadInteger (snd (es ! k)) ls enc = Some v" using a(7,9) by (auto elim: body_okE)
    then show ?thesis using ld a False by (simp add: ziplistGet_def body_value_def add.assoc)
  qed
qed

lemma ziplistNext_pos:
  assumes r: "zl_repr zl es" and k: "k \<le> length es"
  shows "ziplistNext zl (zl_pos es k) = Some (if Suc k < length es then Some (zl_pos es (Suc k)) else None)"
proof (cases "k < length es")
  case True
  obtain b where b: "byte_of zl (zl_pos es k) = Some b" "b \<noteq> ZIP_END"
    "zipRawEntryLength zl (zl_pos es k) = Some (ent_len (es ! k))" using zl_at [OF r True] by metis
  show ?thesis
  proof (cases "Suc k < length es")
    case True
    obtain b' where "byte_of zl (zl_pos es (Suc k)) = Some b'" "b' \<noteq> ZIP_END" using zl_at [OF r True] by metis
    then show ?thesis using b True zl_pos_Suc [of k es] by (simp add: ziplistNext_def)
  next
    case False
    then have "Suc k = length es" using \<open>k < length es\<close> by simp
    then show ?thesis using b zl_pos_Suc [OF \<open>k < length es\<close>] zl_at_end [OF r] by (simp add: ziplistNext_def)
  qed
qed (use k zl_at_end [OF r] in \<open>simp add: ziplistNext_def\<close>)

lemma ziplistPrev_pos:
  assumes r: "zl_repr zl es" and k: "k \<le> length es"
  shows "ziplistPrev zl (zl_pos es k) = Some (if 0 < k then Some (zl_pos es (k - 1)) else None)"
proof (cases "k < length es")
  case True
  obtain b e where b: "byte_of zl (zl_pos es k) = Some b" "b \<noteq> ZIP_END"
    "zipEntry zl (zl_pos es k) = Some e" "prevrawlen e = last_len 0 (take k es)" using zl_at [OF r True] by metis
  have "zl_pos es k = ZIPLIST_HEADER_SIZE \<longleftrightarrow> k = 0"
    using True by (cases es; cases k) (simp_all add: zl_pos_def ZIPLIST_HEADER_SIZE_def)
  then show ?thesis using b last_len_pos [OF True] zl_pos_back [of k es] True
    by (auto simp: ziplistPrev_def check_def)
next
  case False
  then have kl: "k = length es" using k by simp
  show ?thesis
  proof (cases "es = []")
    case True
    then show ?thesis using kl zl_at_end [OF r] tail_is_last [OF r] by (simp add: ziplistPrev_def)
  next
    case False
    then have "length es - 1 < length es" by simp
    then obtain b where "byte_of zl (zl_pos es (length es - 1)) = Some b" "b \<noteq> ZIP_END" using zl_at [OF r] by metis
    then show ?thesis using kl False zl_at_end [OF r] tail_is_last [OF r] by (simp add: ziplistPrev_def)
  qed
qed

subsection \<open>Comparing, searching, counting\<close>

lemma text_of_int:
  assumes v: "is_int64 v" and q: "zipTryEncoding s = Some (i, enc)"
  shows "v = i \<longleftrightarrow> int_text v = s"
proof -
  have i: "string2ll s = Some i" using q by (auto simp: zipTryEncoding_def split: if_splits)
  show ?thesis
  proof
    assume "v = i"
    then show "int_text v = s" using string2ll_int_text_inv [OF i] by blast
  next
    assume "int_text v = s"
    then show "v = i" using string2ll_int_text [OF v] i by simp
  qed
qed

lemma int_text_encodes: "is_int64 v \<Longrightarrow> zipTryEncoding (int_text v) \<noteq> None"
proof -
  assume v: "is_int64 v"
  have "int_text v \<noteq> []" by (simp add: int_text_def)
  then show ?thesis using length_int_text [OF v] string2ll_int_text [OF v] by (simp add: zipTryEncoding_def)
qed

lemma entry_equals_pos:
  assumes x: "body_ok x" "body_head x = (enc, ls, l)" "length x = ls + l"
    and rd: "\<And>n y q. read_bytes x n q = Some y \<Longrightarrow> read_bytes zl (p + n) q = Some y"
    and ld: "\<And>n en v. zipLoadInteger x n en = Some v \<Longrightarrow> zipLoadInteger zl (p + n) en = Some v"
  shows "entry_equals zl (p + ls) enc l s = Some (value_text (body_value x) = s)"
proof (cases "ZIP_IS_STR enc")
  case True
  have "read_bytes x ls l = Some (drop ls x)" using x(3) by (simp add: read_bytes_def)
  then have "read_bytes zl (p + ls) l = Some (drop ls x)" by (rule rd)
  moreover have "length (drop ls x) = l" using x(3) by simp
  ultimately show ?thesis using True x(2)
    by (auto simp: entry_equals_def value_text_def body_value_def memcmp_eq_0)
next
  case False
  then obtain v where v: "zipLoadInteger x ls enc = Some v" "is_int64 v" using x(1,2) by (auto elim: body_okE)
  have t: "value_text (body_value x) = int_text v" using False x(2) v(1) by (simp add: value_text_def body_value_def)
  show ?thesis
  proof (cases "zipTryEncoding s")
    case None
    then show ?thesis using False t int_text_encodes [OF v(2)] by (auto simp: entry_equals_def)
  next
    case (Some q)
    then obtain i enc' where q: "zipTryEncoding s = Some (i, enc')" by (cases q) auto
    then show ?thesis using False t ld [OF v(1)] text_of_int [OF v(2) q] by (simp add: entry_equals_def)
  qed
qed

lemma ziplistCompare_pos:
  assumes r: "zl_repr zl es" and k: "k < length es"
  shows "ziplistCompare zl (zl_pos es k) s = Some (zl_texts es ! k = s)"
proof (rule zl_at [OF r k])
  fix b e enc ls l
  assume a: "byte_of zl (zl_pos es k) = Some b" "b \<noteq> ZIP_END"
    "zipEntry zl (zl_pos es k) = Some e" "headersize e = psize (fst (es ! k)) + ls" "e_len e = l" "e_encoding e = enc"
    "body_head (snd (es ! k)) = (enc, ls, l)" "length (snd (es ! k)) = ls + l" "body_ok (snd (es ! k))"
    and rd: "\<And>n x q. read_bytes (snd (es ! k)) n q = Some x \<Longrightarrow> read_bytes zl (zl_pos es k + psize (fst (es ! k)) + n) q = Some x"
    and ld: "\<And>n en v. zipLoadInteger (snd (es ! k)) n en = Some v \<Longrightarrow> zipLoadInteger zl (zl_pos es k + psize (fst (es ! k)) + n) en = Some v"
  show ?thesis using entry_equals_pos [OF a(9,7,8) rd ld, of s] a k
    by (simp add: ziplistCompare_def zl_texts_def add.assoc)
qed

definition found :: "byte list list \<Rightarrow> byte list \<Rightarrow> nat \<Rightarrow> nat \<Rightarrow> nat option \<Rightarrow> bool" where
  "found ts s d k r = (case r of
       None \<Rightarrow> \<forall>i. k \<le> i \<longrightarrow> i < length ts \<longrightarrow> d dvd i \<longrightarrow> ts ! i \<noteq> s
     | Some j \<Rightarrow> k \<le> j \<and> j < length ts \<and> d dvd j \<and> ts ! j = s
         \<and> (\<forall>i. k \<le> i \<longrightarrow> i < j \<longrightarrow> d dvd i \<longrightarrow> ts ! i \<noteq> s))"

lemma found_step:
  assumes "found ts s d (Suc k) r" and "d dvd k \<Longrightarrow> ts ! k \<noteq> s"
  shows "found ts s d k r"
proof -
  have le: "\<And>i. k \<le> i \<longleftrightarrow> i = k \<or> Suc k \<le> i" by auto
  show ?thesis using assms unfolding found_def le by (auto split: option.splits)
qed

lemma find_loop_step:
  assumes r: "zl_repr zl es" and k: "k < length es"
  shows "find_loop zl (zl_pos es k) s skip cnt
    = (if cnt = 0 \<and> zl_texts es ! k = s then Some (Some (zl_pos es k))
       else find_loop zl (zl_pos es (Suc k)) s skip (if cnt = 0 then skip else cnt - 1))"
proof (rule zl_at [OF r k])
  fix b e enc ls l
  assume a: "byte_of zl (zl_pos es k) = Some b" "b \<noteq> ZIP_END"
    "ZIP_DECODE_PREVLENSIZE zl (zl_pos es k) = Some (psize (fst (es ! k)))"
    "ZIP_DECODE_LENGTH zl (zl_pos es k + psize (fst (es ! k))) = Some (enc, ls, l)"
    "body_head (snd (es ! k)) = (enc, ls, l)" "length (snd (es ! k)) = ls + l" "body_ok (snd (es ! k))"
    and rd: "\<And>n x q. read_bytes (snd (es ! k)) n q = Some x \<Longrightarrow> read_bytes zl (zl_pos es k + psize (fst (es ! k)) + n) q = Some x"
    and ld: "\<And>n en v. zipLoadInteger (snd (es ! k)) n en = Some v \<Longrightarrow> zipLoadInteger zl (zl_pos es k + psize (fst (es ! k)) + n) en = Some v"
  have eq: "entry_equals zl (zl_pos es k + psize (fst (es ! k)) + ls) enc l s = Some (zl_texts es ! k = s)"
    using entry_equals_pos [OF a(7,5,6) rd ld, of s] k by (simp add: zl_texts_def)
  have nx: "zl_pos es k + psize (fst (es ! k)) + ls + l = zl_pos es (Suc k)"
    using zl_pos_Suc [OF k] a(6) by (simp add: ent_len_def)
  show ?thesis
    unfolding find_loop.simps [of zl "zl_pos es k"] a(1,3,4) bind.bind_lunit prod.case Let_def eq nx
    using a(2) by simp
qed

lemma find_loop_pos:
  assumes r: "zl_repr zl es" and k: "k \<le> length es" and c: "cnt \<le> skip" "Suc skip dvd k + cnt"
  shows "\<exists>q. find_loop zl (zl_pos es k) s skip cnt = Some (map_option (zl_pos es) q) \<and> found (zl_texts es) s (Suc skip) k q"
  using k c
proof (induction "length es - k" arbitrary: k cnt)
  case 0
  then have "k = length es" by simp
  then show ?case using zl_at_end [OF r] by (subst find_loop.simps) (auto simp: found_def)
next
  case (Suc n)
  then have kl: "k < length es" by simp
  define cnt' where "cnt' = (if cnt = 0 then skip else cnt - 1)"
  have c': "cnt' \<le> skip" "Suc skip dvd Suc k + cnt'"
  proof -
    have "Suc k + cnt' = k + cnt \<or> Suc k + cnt' = k + cnt + Suc skip" by (auto simp: cnt'_def)
    then show "Suc skip dvd Suc k + cnt'" using Suc.prems(3) dvd_add [OF Suc.prems(3) dvd_refl] by (elim disjE) (simp_all only:)
    show "cnt' \<le> skip" using Suc.prems(2) by (auto simp: cnt'_def)
  qed
  obtain q where q: "find_loop zl (zl_pos es (Suc k)) s skip cnt' = Some (map_option (zl_pos es) q)"
      "found (zl_texts es) s (Suc skip) (Suc k) q"
  proof -
    have "n = length es - Suc k" "Suc k \<le> length es" using Suc.hyps(2) kl by simp_all
    from Suc.hyps(1) [OF this c'] show ?thesis using that by blast
  qed
  have dv: "Suc skip dvd k \<longleftrightarrow> cnt = 0"
  proof
    assume "Suc skip dvd k"
    then have "Suc skip dvd cnt" using Suc.prems(3) by (simp add: dvd_add_right_iff)
    then show "cnt = 0" using Suc.prems(2) nat_dvd_not_less [of cnt "Suc skip"] by linarith
  qed (use Suc.prems(3) in simp)
  show ?case
  proof (cases "cnt = 0 \<and> zl_texts es ! k = s")
    case True
    then have "found (zl_texts es) s (Suc skip) k (Some k)" using dv kl by (simp add: found_def)
    then show ?thesis using True find_loop_step [OF r kl, of s skip cnt] by (intro exI [of _ "Some k"]) simp
  next
    case False
    have "find_loop zl (zl_pos es k) s skip cnt = Some (map_option (zl_pos es) q)"
      using find_loop_step [OF r kl, of s skip cnt] False q(1) by (simp only: cnt'_def if_False)
    moreover have "found (zl_texts es) s (Suc skip) k q"
      by (rule found_step [OF q(2)]) (use False dv in blast)
    ultimately show ?thesis by blast
  qed
qed

lemma count_loop_pos:
  assumes r: "zl_repr zl es" and k: "k \<le> length es"
  shows "count_loop zl (zl_pos es k) n = Some (n + (length es - k))"
  using k
proof (induction "length es - k" arbitrary: k n)
  case 0
  then have "k = length es" by simp
  then show ?case using zl_at_end [OF r] by (subst count_loop.simps) simp
next
  case (Suc m)
  then have kl: "k < length es" by simp
  obtain b where b: "byte_of zl (zl_pos es k) = Some b" "b \<noteq> ZIP_END"
    "zipRawEntryLength zl (zl_pos es k) = Some (ent_len (es ! k))" using zl_at [OF r kl] by metis
  have "count_loop zl (zl_pos es (Suc k)) (n + 1) = Some (n + 1 + (length es - Suc k))"
    using Suc.hyps(1) [of "Suc k" "n + 1"] Suc.hyps(2) kl by simp
  then show ?case using b zl_pos_Suc [OF kl] kl by (subst count_loop.simps) simp
qed

lemma ziplistLen_pos:
  assumes r: "zl_repr zl es"
  shows "\<exists>zl'. ziplistLen zl = Some (zl', length es) \<and> zl_repr zl' es"
proof -
  obtain c where c: "zl = zl_of c es" "chain_ok 0 es" "zl_size es < 2 ^ 32" "c < 2 ^ 16" "c < 2 ^ 16 - 1 \<longrightarrow> c = length es"
    using r by (rule zl_reprE)
  have n: "ZIPLIST_LENGTH zl = Some c" using hdr_reads(3) [of "int c"] c(1,4) by (simp add: zl_of_def)
  have cl: "count_loop zl ZIPLIST_HEADER_SIZE 0 = Some (length es)"
    using count_loop_pos [OF r, of 0 0] by (simp add: zl_pos_def ZIPLIST_HEADER_SIZE_def)
  have w: "put_le 2 zl 8 (int (length es)) = Some (zl_of (length es) es)" by (simp add: c(1) zl_of_def hdr_writes)
  have "zl_repr (zl_of (length es) es) es" if "length es < 2 ^ 16 - 1"
    unfolding zl_repr_def using that c(2,3) by (intro conjI exI [of _ "length es"]) simp_all
  then show ?thesis using n cl w r c(5) by (auto simp: ziplistLen_def)
qed

subsection \<open>The accessors on the texts\<close>

text \<open>
  C24. Reading a ziplist. An index counts from the head, or backwards from the tail when it is
  negative, and reaches exactly the entries; at each entry the value is its text (an encoded integer
  stands for its digits), the next and the previous entry are its neighbours, and a comparison is
  equality of texts.
\<close>

theorem ziplist_reads:
  assumes "zl_repr zl es"
  shows "ziplistIndex zl i = Some (map_option (zl_pos es) (index_of (length es) i))
    \<and> (k < length es \<longrightarrow>
        map_option (map_option value_text) (ziplistGet zl (Some (zl_pos es k))) = Some (Some (zl_texts es ! k))
        \<and> ziplistNext zl (zl_pos es k) = Some (if Suc k < length es then Some (zl_pos es (Suc k)) else None)
        \<and> ziplistPrev zl (zl_pos es k) = Some (if 0 < k then Some (zl_pos es (k - 1)) else None)
        \<and> ziplistCompare zl (zl_pos es k) s = Some (zl_texts es ! k = s))"
  using ziplistIndex_pos [OF assms, of i] ziplistGet_pos [OF assms] ziplistNext_pos [OF assms, of k]
    ziplistPrev_pos [OF assms, of k] ziplistCompare_pos [OF assms]
  by (simp add: zl_texts_def)

theorem ziplist_reads_witness:
  "ziplistIndex (zl_of 2 two_texts) (- 1) = Some (Some (zl_pos two_texts 1))
    \<and> ziplistCompare (zl_of 2 two_texts) (zl_pos two_texts 1) [98] = Some True"
  using ziplist_reads [OF two_texts_repr(1), of "- 1" 1 "[98]"] two_texts_repr
  by (simp add: index_of_def)

text \<open>
  C25. \<open>ziplistFind\<close> returns, and finds the first entry with the given text among those that it looks
  at (every entry, or one of \<open>skip + 1\<close>), or nothing when there is none.
\<close>

theorem ziplistFind_first:
  assumes "zl_repr zl es" and "skip < 2 ^ 31"
  shows "\<exists>r. ziplistFind zl (zl_pos es 0) s skip = Some (map_option (zl_pos es) r)
    \<and> (case r of None \<Rightarrow> \<forall>i < length es. Suc skip dvd i \<longrightarrow> zl_texts es ! i \<noteq> s
       | Some j \<Rightarrow> j < length es \<and> Suc skip dvd j \<and> zl_texts es ! j = s
           \<and> (\<forall>i < j. Suc skip dvd i \<longrightarrow> zl_texts es ! i \<noteq> s))"
proof -
  obtain q where "find_loop zl (zl_pos es 0) s skip 0 = Some (map_option (zl_pos es) q)"
    "found (zl_texts es) s (Suc skip) 0 q" using find_loop_pos [OF assms(1), of 0 0 skip s] by auto
  then show ?thesis unfolding ziplistFind_def by (intro exI [of _ q]) (cases q; simp add: found_def)
qed

theorem ziplistFind_first_witness:
  "\<exists>r. ziplistFind (zl_of 2 two_texts) (zl_pos two_texts 0) [98] 0 = Some (map_option (zl_pos two_texts) r) \<and> r \<noteq> None"
proof -
  obtain r where r: "ziplistFind (zl_of 2 two_texts) (zl_pos two_texts 0) [98] 0 = Some (map_option (zl_pos two_texts) r)"
    "case r of None \<Rightarrow> \<forall>i < length two_texts. Suc 0 dvd i \<longrightarrow> zl_texts two_texts ! i \<noteq> [98]
       | Some j \<Rightarrow> j < length two_texts \<and> Suc 0 dvd j \<and> zl_texts two_texts ! j = [98]
           \<and> (\<forall>i < j. Suc 0 dvd i \<longrightarrow> zl_texts two_texts ! i \<noteq> [98])"
    using ziplistFind_first [OF two_texts_repr(1), of 0 "[98]"] by auto
  have "zl_texts two_texts ! 1 = [98]" "1 < length two_texts" using two_texts_repr(2,4) by simp_all
  then have "r \<noteq> None" using r(2) by (cases r) auto
  then show ?thesis using r(1) by blast
qed

end
