(* ===== verification/Ziplist_Reach.thy ===== *)
theory Ziplist_Reach
  imports Ziplist_Access
begin

text \<open>
  Ziplists that arise from the operations. \<open>zl_reach\<close> relates a buffer to the list of texts that a
  client has pushed and deleted; every such buffer is well formed, holds these texts, and takes the
  next operation. The last part follows one insertion in the middle that the code gets wrong, from
  the empty ziplist.
\<close>

subsection \<open>Runs of the operations\<close>

lemma ziplistNew_repr: "\<exists>zl. ziplistNew fresh = Some zl \<and> zl_repr zl []"
proof -
  define f where "f = map fresh [0..<11]"
  obtain a b c d where f: "f = a @ b @ c @ [d]" "length a = 4" "length b = 4" "length c = 2"
    by (rule that [of "take 4 f" "take 4 (drop 4 f)" "take 2 (drop 8 f)" "f ! 10"])
      (simp_all add: f_def upt_conv_Cons)
  have "put_le 4 (a @ b @ c @ [d]) 0 11 = Some (le_bytes 4 11 @ b @ c @ [d])"
    using write_bytes_mid [of 0 "[]" "le_bytes 4 11" a "b @ c @ [d]"] f by (simp add: put_le_def)
  moreover have "put_le 4 (le_bytes 4 11 @ b @ c @ [d]) 4 10 = Some (le_bytes 4 11 @ le_bytes 4 10 @ c @ [d])"
    using write_bytes_mid [of 4 "le_bytes 4 11" "le_bytes 4 10" b "c @ [d]"] f by (simp add: put_le_def)
  moreover have "put_le 2 (le_bytes 4 11 @ le_bytes 4 10 @ c @ [d]) 8 0 = Some (le_bytes 4 11 @ le_bytes 4 10 @ le_bytes 2 0 @ [d])"
    using write_bytes_mid [of 8 "le_bytes 4 11 @ le_bytes 4 10" "le_bytes 2 0" c "[d]"] f by (simp add: put_le_def)
  moreover have "write_bytes (le_bytes 4 11 @ le_bytes 4 10 @ le_bytes 2 0 @ [d]) 10 [255] = Some (zl_of 0 [])"
    using write_bytes_mid [of 10 "le_bytes 4 11 @ le_bytes 4 10 @ le_bytes 2 0" "[255]" "[d]" "[]"]
    by (simp add: zl_of_def hdr_def zl_size_def tail_pos_def)
  ultimately have "ziplistNew fresh = Some (zl_of 0 [])"
    by (simp add: ziplistNew_def Let_def ZIPLIST_HEADER_SIZE_def ZIP_END_def f(1) flip: f_def)
  moreover have "zl_repr (zl_of 0 []) []"
    unfolding zl_repr_def by (intro conjI exI [of _ 0]) (simp_all add: zl_size_def)
  ultimately show ?thesis by blast
qed

text \<open>
  The bound on the texts: with at most eighteen bytes beside each text, the buffer stays below 2 to
  the 32. All entries carry the encoding that an insertion gives them, and the first is preceded by
  nothing, in one byte.
\<close>

definition text_room :: "byte list list \<Rightarrow> bool" where
  "text_room ts \<longleftrightarrow> sum_list (map (\<lambda>t. length t + 18) ts) + 15 < 2 ^ 31"

definition inserted :: "byte list \<Rightarrow> bool" where
  "inserted x \<longleftrightarrow> (\<exists>s. length s < 2 ^ 31 \<and> x = entry_body s)"

definition zl_good :: "zent list \<Rightarrow> bool" where
  "zl_good es \<longleftrightarrow> list_all inserted (map snd es) \<and> (es \<noteq> [] \<longrightarrow> \<not> fst (hd es))"

definition zl_holds :: "ziplist \<Rightarrow> byte list list \<Rightarrow> bool" where
  "zl_holds zl ts \<longleftrightarrow> (\<exists>es. zl_repr zl es \<and> zl_good es \<and> zl_texts es = ts)"

inductive zl_reach :: "(nat \<Rightarrow> byte) \<Rightarrow> ziplist \<Rightarrow> byte list list \<Rightarrow> bool" for fresh where
  reach_new: "ziplistNew fresh = Some zl \<Longrightarrow> zl_reach fresh zl []"
| reach_push: "zl_reach fresh zl ts \<Longrightarrow> text_room (s # ts) \<Longrightarrow> ziplistPush fresh zl s head = Some zl' \<Longrightarrow>
    zl_reach fresh zl' (if head then s # ts else ts @ [s])"
| reach_delete: "zl_reach fresh zl ts \<Longrightarrow> k < 2 ^ 31 \<Longrightarrow> ziplistDeleteRange fresh zl k n = Some zl' \<Longrightarrow>
    zl_reach fresh zl' (take k ts @ drop (k + n) ts)"

lemma good_size:
  assumes "zl_good es"
  shows "zl_size es + 4 * length es \<le> sum_list (map (\<lambda>t. length t + 18) (zl_texts es)) + 11"
  using assms
proof (induction es rule: rev_induct)
  case Nil
  then show ?case by (simp add: zl_size_def)
next
  case (snoc e es)
  obtain s where s: "length s < 2 ^ 31" "snd e = entry_body s" using snoc.prems by (auto simp: zl_good_def inserted_def)
  have "value_text (body_value (snd e)) = s" "length (snd e) \<le> length s + 9"
    using entry_body_holds [of s] length_entry_body [of s] s by simp_all
  moreover have "psize (fst e) \<le> 5" by (simp add: psize_def)
  moreover have "zl_good es" using snoc.prems by (cases es) (auto simp: zl_good_def)
  ultimately show ?case using snoc.IH by (cases e) (simp add: zl_size_append)
qed

lemma list_all_parts: "list_all P xs \<Longrightarrow> list_all P (take k xs) \<and> list_all P (drop k xs)"
  by (metis append_take_drop_id list_all_append)

lemma good_insert:
  assumes "zl_good es" and "length s < 2 ^ 31" and "k \<le> length es"
  shows "zl_good (zl_insert k s es)"
proof -
  have "list_all inserted (map snd es)" using assms(1) by (simp add: zl_good_def)
  moreover have "map snd (zl_insert k s es) = take k (map snd es) @ entry_body s # drop k (map snd es)"
    by (simp add: zl_insert_def take_map drop_map)
  moreover have "inserted (entry_body s)" using assms(2) by (auto simp: inserted_def)
  ultimately have "list_all inserted (map snd (zl_insert k s es))" by (simp add: list_all_parts)
  moreover have "\<not> fst (hd (zl_insert k s es))"
    using assms(1) by (cases k; cases es) (auto simp: zl_insert_def zl_good_def last_len_def)
  ultimately show ?thesis by (simp add: zl_good_def)
qed

lemma good_delete:
  assumes "zl_good es"
  shows "zl_good (zl_delete k n es)"
proof -
  have "list_all inserted (map snd es)" using assms by (simp add: zl_good_def)
  moreover have "map snd (zl_delete k n es) = take k (map snd es) @ drop (k + n) (map snd es)"
    by (simp add: zl_delete_def take_map drop_map)
  ultimately have "list_all inserted (map snd (zl_delete k n es))" by (simp add: list_all_parts)
  moreover have "\<not> fst (hd (zl_delete k n es))" if ne: "zl_delete k n es \<noteq> []"
  proof (cases "k = 0 \<or> es = []")
    case True
    then show ?thesis using ne by (cases "drop (k + n) es") (auto simp: zl_delete_def relink_def last_len_def)
  next
    case False
    then show ?thesis using assms by (cases k; cases es) (auto simp: zl_delete_def zl_good_def)
  qed
  ultimately show ?thesis by (simp add: zl_good_def)
qed

lemma push_entries:
  assumes es: "zl_repr zl es" "zl_good es" and room: "text_room (s # zl_texts es)"
  shows "\<exists>zl'. ziplistPush fresh zl s head = Some zl' \<and> zl_repr zl' (zl_insert (if head then 0 else length es) s es)"
proof -
  define k where "k = (if head then 0 else length es)"
  have s: "length s < 2 ^ 31" "zl_size es + length s + 18 + 4 * length es < 2 ^ 32"
    using room good_size [OF es(2)] by (auto simp: text_room_def)
  have nb: "k < length es \<longrightarrow> fst (es ! k) \<longrightarrow> 4 \<le> new_len es k s"
    using es(2) by (cases es) (auto simp: zl_good_def k_def)
  obtain c where c: "zl = zl_of c es" "zl_size es < 2 ^ 32" using es(1) by (rule zl_reprE)
  have p: "(if head then Some ZIPLIST_HEADER_SIZE else do { n \<leftarrow> ZIPLIST_BYTES zl; Some (n - 1) }) = Some (zl_pos es k)"
    using bytes_of_zl [OF c(2)] by (simp add: c(1) k_def zl_pos_def zl_size_def ZIPLIST_HEADER_SIZE_def)
  have k: "k \<le> length es" by (simp add: k_def)
  show ?thesis using zl_insert_step [OF es(1) k s nb, of fresh] unfolding ziplistPush_def p k_def by simp
qed

lemma push_holds:
  assumes h: "zl_holds zl ts" and room: "text_room (s # ts)"
  shows "\<exists>zl'. ziplistPush fresh zl s head = Some zl' \<and> zl_holds zl' (if head then s # ts else ts @ [s])"
proof -
  obtain es where es: "zl_repr zl es" "zl_good es" "zl_texts es = ts" using h by (auto simp: zl_holds_def)
  have s: "length s < 2 ^ 31" using room by (simp add: text_room_def)
  then have "zl_texts (zl_insert (if head then 0 else length es) s es) = (if head then s # ts else ts @ [s])"
    using zl_insert_texts [of s _ es] es(3) by auto
  moreover have "zl_good (zl_insert (if head then 0 else length es) s es)" by (rule good_insert [OF es(2) s]) simp
  ultimately show ?thesis using push_entries [OF es(1,2), of s fresh head] room es(3) unfolding zl_holds_def by blast
qed

lemma delete_entries:
  assumes es: "zl_repr zl es" "zl_good es" and room: "text_room (zl_texts es)" and k: "k < 2 ^ 31"
  shows "\<exists>zl'. ziplistDeleteRange fresh zl k n = Some zl'
    \<and> zl_repr zl' (if k < length es \<and> n \<noteq> 0 then zl_delete k n es else es)"
proof -
  have sz: "zl_size es + 4 * length es + 4 < 2 ^ 32" using room good_size [OF es(2)] by (auto simp: text_room_def)
  have ix: "ziplistIndex zl (s32 (int k)) = Some (if k < length es then Some (zl_pos es k) else None)"
    using ziplistIndex_pos [OF es(1), of "int k"] k by (simp add: index_of_simps)
  consider "length es \<le> k" | "k < length es" "n = 0" | "k < length es" "0 < n" by linarith
  then show ?thesis
  proof cases
    case 1
    then show ?thesis using ix es(1) by (simp add: ziplistDeleteRange_def)
  next
    case 2
    obtain e where "zipEntry zl (zl_pos es k) = Some e" using zl_at [OF es(1) 2(1)] by metis
    then have "ziplistDeleteAt fresh zl (zl_pos es k) n = Some zl"
      using 2(2) zipEntry_pos by (simp add: ziplistDeleteAt_def)
    then show ?thesis using 2 ix es(1) by (simp add: ziplistDeleteRange_def)
  next
    case 3
    then show ?thesis using zl_delete_step [OF es(1) 3 sz, of fresh] ix by (simp add: ziplistDeleteRange_def)
  qed
qed

lemma delete_holds:
  assumes h: "zl_holds zl ts" and room: "text_room ts" and k: "k < 2 ^ 31"
  shows "\<exists>zl'. ziplistDeleteRange fresh zl k n = Some zl' \<and> zl_holds zl' (take k ts @ drop (k + n) ts)"
proof -
  obtain es where es: "zl_repr zl es" "zl_good es" "zl_texts es = ts" using h by (auto simp: zl_holds_def)
  let ?fs = "if k < length es \<and> n \<noteq> 0 then zl_delete k n es else es"
  have "length ts = length es" using es(3) by auto
  then have "zl_texts ?fs = take k ts @ drop (k + n) ts" using zl_delete_texts [of k n es] es(3) by auto
  moreover have "zl_good ?fs" using es(2) good_delete by auto
  ultimately show ?thesis using delete_entries [OF es(1,2) _ k, of fresh n] room es(3) unfolding zl_holds_def by blast
qed

lemma text_room_part: "text_room (a @ b @ c) \<Longrightarrow> text_room (a @ c)"
  by (simp add: text_room_def)

lemma text_room_mono: "text_room ts \<Longrightarrow> text_room (take k ts @ drop (k + n) ts)"
proof (rule text_room_part [of _ "take n (drop k ts)"])
  have d: "drop (k + n) ts = drop n (drop k ts)" by (simp add: add.commute)
  show "text_room ts \<Longrightarrow> text_room (take k ts @ take n (drop k ts) @ drop (k + n) ts)"
    unfolding d append_take_drop_id .
qed

lemma reach_holds: "zl_reach fresh zl ts \<Longrightarrow> zl_holds zl ts \<and> text_room ts"
proof (induction rule: zl_reach.induct)
  case (reach_new zl)
  then have "zl_repr zl []" using ziplistNew_repr [of fresh] by auto
  moreover have "zl_good []" by (simp add: zl_good_def)
  ultimately have "zl_holds zl []" unfolding zl_holds_def using zl_texts_simps(1) by blast
  then show ?case by (simp add: text_room_def)
next
  case (reach_push zl ts s head zl')
  then have "zl_holds zl' (if head then s # ts else ts @ [s])" using push_holds [of zl ts s fresh head] by auto
  then show ?case using reach_push.hyps(2) by (auto simp: text_room_def)
next
  case (reach_delete zl ts k n zl')
  then have "zl_holds zl' (take k ts @ drop (k + n) ts)" using delete_holds [of zl ts k fresh n] by auto
  then show ?case using reach_delete.IH text_room_mono by blast
qed

text \<open>
  C12. Every buffer that pushes and deletions make from a new ziplist is a well formed ziplist of the
  texts that were pushed and not deleted, in their order. The next push (while the texts have room)
  and the next deletion return a ziplist, and the length that is read is the number of the texts.
\<close>

theorem ziplist_reach_sound:
  assumes "zl_reach fresh zl ts"
  shows "(\<exists>es. zl_repr zl es \<and> zl_texts es = ts)
    \<and> (\<forall>s head. text_room (s # ts) \<longrightarrow> ziplistPush fresh zl s head \<noteq> None)
    \<and> (\<forall>k n. k < 2 ^ 31 \<longrightarrow> ziplistDeleteRange fresh zl k n \<noteq> None)
    \<and> (\<exists>zl'. ziplistLen zl = Some (zl', length ts))"
proof -
  have h: "zl_holds zl ts" "text_room ts" using reach_holds [OF assms] by blast+
  obtain es where es: "zl_repr zl es" "zl_texts es = ts" using h(1) by (auto simp: zl_holds_def)
  have "text_room (s # ts) \<Longrightarrow> ziplistPush fresh zl s head \<noteq> None" for s head
    using push_holds [OF h(1), of s fresh head] by auto
  moreover have "k < 2 ^ 31 \<Longrightarrow> ziplistDeleteRange fresh zl k n \<noteq> None" for k n
    using delete_holds [OF h, of k fresh n] by auto
  moreover have "\<exists>zl'. ziplistLen zl = Some (zl', length ts)" using ziplistLen_pos [OF es(1)] es(2) by auto
  ultimately show ?thesis using es by blast
qed

theorem ziplist_reach_sound_witness:
  "\<exists>zl zl'. zl_reach (\<lambda>_. 0) zl [[97]] \<and> ziplistPush (\<lambda>_. 0) zl [98] True = Some zl'"
proof -
  obtain z where z: "zl_reach (\<lambda>_. 0) z []" using ziplistNew_repr [of "\<lambda>_. 0"] reach_new by blast
  have r: "text_room [[97]]" "text_room [[98], [97]]" by (simp_all add: text_room_def)
  obtain z1 where "ziplistPush (\<lambda>_. 0) z [97] False = Some z1"
    using ziplist_reach_sound [OF z] r(1) by (metis option.exhaust)
  then have "zl_reach (\<lambda>_. 0) z1 [[97]]" using reach_push [OF z r(1), of False z1] by simp
  moreover from this obtain z2 where "ziplistPush (\<lambda>_. 0) z1 [98] True = Some z2"
    using ziplist_reach_sound [OF \<open>zl_reach _ z1 _\<close>] r(2) by (metis option.exhaust)
  ultimately show ?thesis by blast
qed

end
