(* ===== verification/Ziplist_Overrun.thy ===== *)
theory Ziplist_Overrun
  imports Ziplist_Reach
begin

text \<open>
  An insertion that leaves the buffer. \<open>__ziplistInsert\<close> resizes the buffer by the length of the new
  entry plus the change of the length field behind it. When that field shrinks by four bytes and the
  new entry has two, the buffer shrinks before the rest is moved, and the move reads behind its end.
  The code creates such fields itself: the cascade keeps a field of five bytes when a smaller length
  would fit in one.
\<close>

lemma insert_overruns:
  fixes pre :: "zent list" and s :: "byte list"
  defines "pl \<equiv> last_len 0 pre"
  defines "req \<equiv> psize (254 \<le> pl) + length (entry_body s)"
  assumes ok: "chain_ok 0 (pre @ (True, x) # es)" and bound: "zl_size (pre @ (True, x) # es) < 2 ^ 32"
    and req: "req = 2" and s: "length s < 2 ^ 32"
  shows "ziplistInsertAt fresh (zl_of c (pre @ (True, x) # es)) (10 + sum_list (map ent_len pre)) s = None"
proof -
  let ?es = "pre @ (True, x) # es" and ?p = "10 + sum_list (map ent_len pre)"
  let ?cur = "zl_size ?es" and ?zl = "zl_of c ?es" and ?t = "10 + tail_pos ?es"
  let ?z = "chain 0 pre @ prev_bytes True pl @ x @ chain (5 + length x) es @ [255]"
  obtain enc y where v:
    "(case zipTryEncoding s of Some (value, enc) \<Rightarrow> (enc, zipSaveInteger value enc) | None \<Rightarrow> (0, Some s)) = (enc, Some y)"
    "entry_body s = zipEncodeLength enc (length s) @ y"
    "(if zipTryEncoding s \<noteq> None then zipIntSize enc else length s) = length y"
    using insert_value [OF s] by blast
  have rq: "(if zipTryEncoding s \<noteq> None then zipIntSize enc else length s)
      + length (zipPrevEncodeLength pl) + length (zipEncodeLength enc (length s)) = 2"
    using v(2,3) req by (simp add: req_def zipPrevEncodeLength_bytes)
  have zl: "?zl = hdr (int ?cur) (int ?t) (int c) @ ?z" by (simp add: zl_of_def chain_append pl_def)
  note at = zl_at_entry [OF ok refl, folded pl_def]
  have pl: "pl < 2 ^ 32" using last_len_le [of pre] bound by (simp add: pl_def zl_size_def)
  have zl': "?zl = hdr (int ?cur) (int ?t) (int c) @ chain 0 pre @ prev_bytes True pl @ x @ chain (5 + length x) es @ [255]"
    by (rule zl)
  have lz: "length ?z = ?cur - 10" by (simp add: zl_size_def length_chain)
  define u where "u = take (?cur - 13) ?z"
  define w where "w = drop (?cur - 13) ?z"
  have body: "0 < length x" using ok by (auto simp: chain_ok_append elim!: body_okE simp: ZIP_DECODE_LENGTH_def bind_eq_Some_conv Let_def split: if_splits)
  have big: "16 + sum_list (map ent_len pre) + length x + length (chain (5 + length x) es) = ?cur"
    by (simp add: zl_size_def length_chain)
  have uw: "?z = u @ w" by (simp only: u_def w_def append_take_drop_id)
  have lu: "length u = ?cur - 13" using lz by (simp add: u_def)
  have rs: "ziplistResize fresh ?zl (nat (int ?cur + int 2 + (int (psize (254 \<le> (2 :: nat))) - int (psize True))))
      = Some (hdr (int (?cur - 2)) (int ?t) (int c) @ u @ [255])"
  proof -
    have n: "nat (int ?cur + int 2 + (int (psize (254 \<le> (2 :: nat))) - int (psize True))) = ?cur - 2"
      using big by simp
    show ?thesis unfolding n zl
      by (rule resize_zl_shrink [OF uw]) (use lz lu big bound in \<open>simp_all add: w_def\<close>)
  qed
  define zl1 where "zl1 = hdr (int (?cur - 2)) (int ?t) (int c) @ u @ [255]"
  have l1: "length zl1 = ?cur - 2" using lu big by (simp add: zl1_def)
  obtain j where j: "?cur - 13 = length (chain 0 pre) + Suc j" using big by (intro that [of "?cur - 14 - length (chain 0 pre)"]) (simp add: length_chain)
  have "u = chain 0 pre @ 254 # take j (le_bytes 4 (int pl) @ x @ chain (5 + length x) es @ [255])"
    unfolding u_def j by (simp add: prev_bytes_def)
  then have b1: "byte_of zl1 ?p = Some 254"
    using byte_of_Cons [of ?p "hdr (int (?cur - 2)) (int ?t) (int c) @ chain 0 pre" 254] by (simp add: zl1_def length_chain)
  have n: "nat (int ?p - (int (psize (254 \<le> (2 :: nat))) - int (psize True))) = ?p + 4"
    "nat (int ?cur - int ?p - 1 + (int (psize (254 \<le> (2 :: nat))) - int (psize True))) = ?cur - (?p + 5)" by simp_all
  have behind: "\<not> ?p + 4 + (?cur - (?p + 5)) \<le> length zl1" using l1 big by simp
  have mv: "move_bytes zl1 (?p + 2) (nat (int ?p - (int (psize (254 \<le> (2 :: nat))) - int (psize True))))
      (nat (int ?cur - int ?p - 1 + (int (psize (254 \<le> (2 :: nat))) - int (psize True)))) = None"
    unfolding n move_bytes_def read_bytes_def if_not_P [OF behind] by simp
  have ne: "(254 :: nat) \<noteq> ZIP_END" by (simp add: ZIP_END_def)
  show ?thesis
    unfolding ziplistInsertAt_def bytes_of_zl [OF bound] bind.bind_lunit at(1) [OF zl' length_hdr] if_True
      if_P [OF at(2) [OF zl' length_hdr]] at(4) [OF zl' length_hdr pl refl] Let_def v(1) prod.case rq
      at(3) [OF zl' length_hdr] rs [folded zl1_def] b1 if_P [OF ne] mv bind.bind_lzero
    by (rule refl)
qed

text \<open>The entries of the run: a long text, one that needs five bytes before the next, a short one.\<close>

lemma plain_body:
  "64 \<le> n \<Longrightarrow> n < 2 ^ 14 \<Longrightarrow> length (entry_body (replicate n 97)) = n + 2"
proof -
  assume n: "64 \<le> n" "n < 2 ^ 14"
  then have "zipTryEncoding (replicate n 97) = None" by (simp add: zipTryEncoding_def)
  then show ?thesis using entry_body_str(1) [of "replicate n 97"] n
    by (simp add: zipEncodeLength_def ZIP_IS_STR_def ZIP_STR_MASK_def)
qed

definition keep_large :: "zent list" where
  "keep_large = [(False, entry_body (replicate 250 97)), (True, entry_body (replicate 64 97))]"

lemma keep_large_run:
  "zl_delete 0 1 (zl_insert 2 (replicate 64 97) (zl_insert 1 (replicate 250 97) (zl_insert 0 (replicate 300 97) []))) = keep_large"
  by (simp add: zl_insert_def zl_delete_def last_len_def new_len_def plain_body keep_large_def)

lemma string2ll_one: "string2ll [49] = Some 1"
  using string2ll_int_text [of 1] by (simp add: int_text_def decimal.simps digit_char_def is_int64_def range_defs)

text \<open>A run and its entries.\<close>

definition run_to :: "(nat \<Rightarrow> byte) \<Rightarrow> ziplist \<Rightarrow> zent list \<Rightarrow> bool" where
  "run_to fresh zl es \<longleftrightarrow> zl_reach fresh zl (zl_texts es) \<and> zl_repr zl es \<and> zl_good es"

lemma run_push:
  assumes "run_to fresh zl es" and "text_room (s # zl_texts es)"
  shows "\<exists>zl'. run_to fresh zl' (zl_insert (length es) s es)"
proof -
  have r: "zl_reach fresh zl (zl_texts es)" "zl_repr zl es" "zl_good es" using assms(1) by (simp_all add: run_to_def)
  have s: "length s < 2 ^ 31" "length s < 2 ^ 32" using assms(2) by (simp_all add: text_room_def)
  obtain zl' where p: "ziplistPush fresh zl s False = Some zl'" "zl_repr zl' (zl_insert (length es) s es)"
    using push_entries [OF r(2,3) assms(2), of fresh False] by auto
  have "zl_reach fresh zl' (zl_texts es @ [s])" using reach_push [OF r(1) assms(2) p(1)] by simp
  then show ?thesis using p(2) good_insert [OF r(3) s(1) le_refl] zl_insert_texts [OF s(2), of "length es" es]
    by (auto simp: run_to_def)
qed

lemma run_delete_first:
  assumes "run_to fresh zl es" and "es \<noteq> []" and "text_room (zl_texts es)"
  shows "\<exists>zl'. run_to fresh zl' (zl_delete 0 1 es)"
proof -
  have r: "zl_reach fresh zl (zl_texts es)" "zl_repr zl es" "zl_good es" using assms(1) by (simp_all add: run_to_def)
  obtain zl' where p: "ziplistDeleteRange fresh zl 0 1 = Some zl'" "zl_repr zl' (zl_delete 0 1 es)"
    using delete_entries [OF r(2,3) assms(3), of 0 fresh 1] assms(2) by auto
  have "zl_reach fresh zl' (take 0 (zl_texts es) @ drop (0 + 1) (zl_texts es))" by (rule reach_delete [OF r(1) _ p(1)]) simp
  then show ?thesis using p(2) good_delete [OF r(3), of 0 1] by (auto simp: run_to_def zl_delete_texts)
qed

lemma keep_large_reached: "\<exists>zl. run_to fresh zl keep_large"
proof -
  obtain z0 where "ziplistNew fresh = Some z0" "zl_repr z0 []" using ziplistNew_repr by blast
  then have "run_to fresh z0 []" using reach_new [of fresh z0] by (simp add: run_to_def zl_good_def)
  moreover define es1 where "es1 = zl_insert 0 (replicate 300 97) []"
  ultimately obtain z1 where z1: "run_to fresh z1 es1"
    using run_push [of fresh z0 "[]" "replicate 300 97"] by (auto simp: text_room_def)
  have es1: "length es1 = 1" "zl_texts es1 = [replicate 300 97]"
    unfolding es1_def by (simp_all add: zl_insert_texts) (simp add: zl_insert_def)
  define es where "es = zl_insert 1 (replicate 250 97) es1"
  obtain z2 where z2: "run_to fresh z2 es"
    using run_push [OF z1, of "replicate 250 97"] es1 by (auto simp: text_room_def es_def)
  have es: "length es = 2" "zl_texts es = [replicate 300 97, replicate 250 97]"
    unfolding es_def using es1 by (simp_all add: zl_insert_texts) (simp add: zl_insert_def)
  obtain z3 where z3: "run_to fresh z3 (zl_insert 2 (replicate 64 97) es)"
    using run_push [OF z2, of "replicate 64 97"] es by (auto simp: text_room_def)
  have "zl_texts (zl_insert 2 (replicate 64 97) es) = [replicate 300 97, replicate 250 97, replicate 64 97]"
    using es by (simp add: zl_insert_texts)
  then have "\<exists>z4. run_to fresh z4 (zl_delete 0 1 (zl_insert 2 (replicate 64 97) es))"
    by (intro run_delete_first [OF z3]) (auto simp: text_room_def zl_insert_def)
  then show ?thesis using keep_large_run by (simp add: es_def es1_def)
qed

text \<open>
  C38. A run of the public operations after which an insertion of a one digit integer reads behind the
  end of the buffer: three pushes and one deletion lead to a ziplist of two texts, well formed, and the
  insertion of \<open>1\<close> before the second has no result. Any memory that \<open>zrealloc\<close> may return is allowed.
\<close>

theorem ziplistInsert_overruns:
  "\<exists>zl p. zl_reach fresh zl [replicate 250 97, replicate 64 97] \<and> ziplistIndex zl 1 = Some (Some p)
    \<and> ziplistInsertAt fresh zl p [49] = None"
proof -
  obtain zl where r: "zl_reach fresh zl (zl_texts keep_large)" "zl_repr zl keep_large"
    using keep_large_reached [of fresh] by (auto simp: run_to_def)
  obtain c where c: "zl = zl_of c keep_large" "chain_ok 0 keep_large" "zl_size keep_large < 2 ^ 32"
    using r(2) by (rule zl_reprE)
  let ?a = "[(False, entry_body (replicate 250 97))]" and ?b = "entry_body (replicate 64 97)"
  have split: "keep_large = ?a @ (True, ?b) # []" by (simp add: keep_large_def)
  have enc: "length (entry_body [49]) = 1"
    by (simp add: entry_body_def zipTryEncoding_def string2ll_one int_encoding_def zipSaveInteger_def zip_constants)
  have "ziplistInsertAt fresh zl (10 + sum_list (map ent_len ?a)) [49] = None"
    unfolding c(1) split
    by (rule insert_overruns [OF c(2) [unfolded split] c(3) [unfolded split]])
      (use enc in \<open>simp_all add: last_len_def plain_body\<close>)
  moreover have "10 + sum_list (map ent_len ?a) = zl_pos keep_large 1" by (simp add: zl_pos_def keep_large_def)
  moreover have "ziplistIndex zl 1 = Some (Some (zl_pos keep_large 1))"
    using ziplistIndex_pos [OF r(2), of 1] by (simp add: index_of_def keep_large_def)
  moreover have "zl_texts keep_large = [replicate 250 97, replicate 64 97]"
    using entry_body_holds [of "replicate 250 97"] entry_body_holds [of "replicate 64 97"] by (simp add: keep_large_def)
  ultimately show ?thesis using r(1) by auto
qed

end
