(* ===== verification/Client_Output.thy ===== *)
theory Client_Output
  imports String_Object
begin

text \<open>
  The output buffers of a client (\<open>src/networking.c\<close>): a fixed buffer inside the client, and behind
  it a list of string objects. Objects live in a store and are shared: the canned replies of the
  server, the values of the database, one object in the lists of several clients. \<open>None\<close> is an access
  outside a buffer or to an object that does not exist, or a panic. What lies outside the source are
  fields of \<open>net_env\<close>: the event loop's answer, the allocator's block sizes, the clock. The time of the last
  interaction, which sending sets, and the log lines are left out.
\<close>

definition REDIS_REPLY_CHUNK_BYTES :: nat where "REDIS_REPLY_CHUNK_BYTES = 16 * 1024"
definition REDIS_SHARED_BULKHDR_LEN :: int where "REDIS_SHARED_BULKHDR_LEN = 32"
definition REDIS_MAX_WRITE_PER_EVENT :: nat where "REDIS_MAX_WRITE_PER_EVENT = 1024 * 64"

datatype repl_state = REDIS_REPL_NONE | REDIS_REPL_WAIT_BGSAVE_START | REDIS_REPL_WAIT_BGSAVE_END
  | REDIS_REPL_SEND_BULK | REDIS_REPL_ONLINE

datatype limit_class = REDIS_CLIENT_LIMIT_CLASS_NORMAL | REDIS_CLIENT_LIMIT_CLASS_SLAVE | REDIS_CLIENT_LIMIT_CLASS_PUBSUB

record obuf_limit =
  hard_limit_bytes :: int
  soft_limit_bytes :: int
  soft_limit_seconds :: int

record net_env =
  n_fresh :: "nat \<Rightarrow> byte"
  zmalloc_size_sds :: "sdshdr \<Rightarrow> int"
  el_accepts :: bool
  unixtime :: int
  client_obuf_limits :: "limit_class \<Rightarrow> obuf_limit"
  sh_crlf :: nat
  sh_czero :: nat
  sh_cone :: nat
  sh_nullbulk :: nat
  sh_mbulkhdr :: "nat \<Rightarrow> nat"
  sh_bulkhdr :: "nat \<Rightarrow> nat"

text \<open>The store of objects; addresses from \<open>next_obj\<close> on are free.\<close>

record store =
  objs :: "nat \<Rightarrow> robj option"
  next_obj :: nat

record client =
  c_fd :: int
  c_lua :: bool
  c_master :: bool
  c_force_reply :: bool
  c_slave :: bool
  c_close_after_reply :: bool
  c_close_asap :: bool
  c_pubsub :: bool
  c_replstate :: repl_state
  c_handler :: bool
  c_buf :: "byte list"
  c_bufpos :: nat
  c_sentlen :: nat
  c_reply :: "nat list"
  c_reply_bytes :: int
  c_soft_limit_time :: int

type_synonym net = "store \<times> client"

subsection \<open>The store\<close>

definition new_obj :: "store \<Rightarrow> robj \<Rightarrow> store \<times> nat" where
  "new_obj st ob = (st\<lparr>objs := (objs st)(next_obj st \<mapsto> ob), next_obj := next_obj st + 1\<rparr>, next_obj st)"

definition put_obj :: "store \<Rightarrow> nat \<Rightarrow> robj \<Rightarrow> store" where
  "put_obj st a ob = st\<lparr>objs := (objs st)(a \<mapsto> ob)\<rparr>"

definition incrRefCount :: "store \<Rightarrow> nat \<Rightarrow> store option" where
  "incrRefCount st a = do { ob \<leftarrow> objs st a; Some (put_obj st a (ob\<lparr>refcount := refcount ob + 1\<rparr>)) }"

definition decrRefCount :: "store \<Rightarrow> nat \<Rightarrow> store option" where
  "decrRefCount st a =
     do { ob \<leftarrow> objs st a;
          check (refcount ob > 0);
          Some (if refcount ob = 1 then st\<lparr>objs := (objs st)(a := None)\<rparr>
                else put_obj st a (ob\<lparr>refcount := refcount ob - 1\<rparr>)) }"

definition getStringObjectSdsUsedMemory :: "net_env \<Rightarrow> robj \<Rightarrow> int option" where
  "getStringObjectSdsUsedMemory env ob =
     (case encoding ob of
        REDIS_ENCODING_RAW \<Rightarrow> do { s \<leftarrow> sds_of ob; Some (zmalloc_size_sds env s) }
      | REDIS_ENCODING_EMBSTR \<Rightarrow> do { s \<leftarrow> sds_of ob; Some (int (sdslen s)) }
      | REDIS_ENCODING_INT \<Rightarrow> Some 0)"

subsection \<open>Limits\<close>

text \<open>A list node and an object header take 24 and 16 bytes.\<close>

definition getClientOutputBufferMemoryUsage :: "client \<Rightarrow> int" where
  "getClientOutputBufferMemoryUsage c = c_reply_bytes c + (24 + 16) * int (length (c_reply c))"

definition getClientLimitClass :: "client \<Rightarrow> limit_class" where
  "getClientLimitClass c =
     (if c_slave c then REDIS_CLIENT_LIMIT_CLASS_SLAVE
      else if c_pubsub c then REDIS_CLIENT_LIMIT_CLASS_PUBSUB else REDIS_CLIENT_LIMIT_CLASS_NORMAL)"

definition checkClientOutputBufferLimits :: "net_env \<Rightarrow> client \<Rightarrow> client \<times> bool" where
  "checkClientOutputBufferLimits env c =
     (let used_mem = getClientOutputBufferMemoryUsage c;
          lim = client_obuf_limits env (getClientLimitClass c);
          hard = (hard_limit_bytes lim \<noteq> 0 \<and> used_mem \<ge> hard_limit_bytes lim);
          soft = (soft_limit_bytes lim \<noteq> 0 \<and> used_mem \<ge> soft_limit_bytes lim)
      in if soft then
           if c_soft_limit_time c = 0 then (c\<lparr>c_soft_limit_time := unixtime env\<rparr>, hard)
           else (c, hard \<or> unixtime env - c_soft_limit_time c > soft_limit_seconds lim)
         else (c\<lparr>c_soft_limit_time := 0\<rparr>, hard))"

text \<open>The client also joins the list of the clients to close, which the flag stands for.\<close>

definition freeClientAsync :: "client \<Rightarrow> client" where
  "freeClientAsync c = (if c_close_asap c then c else c\<lparr>c_close_asap := True\<rparr>)"

definition asyncCloseClientOnOutputBufferLimitReached :: "net_env \<Rightarrow> client \<Rightarrow> client option" where
  "asyncCloseClientOnOutputBufferLimitReached env c =
     do { check (c_reply_bytes c < 2 ^ 64 - 1 - 1024 * 64);
          Some (if c_reply_bytes c = 0 \<or> c_close_asap c then c
                else let (c, over) = checkClientOutputBufferLimits env c
                     in if over then freeClientAsync c else c) }"

subsection \<open>Adding bytes and objects\<close>

definition prepareClientToWrite :: "net_env \<Rightarrow> client \<Rightarrow> client \<times> bool" where
  "prepareClientToWrite env c =
     (if c_lua c then (c, True)
      else if c_master c \<and> \<not> c_force_reply c then (c, False)
      else if c_fd c \<le> 0 then (c, False)
      else if c_bufpos c = 0 \<and> c_reply c = []
        \<and> (c_replstate c = REDIS_REPL_NONE \<or> c_replstate c = REDIS_REPL_ONLINE)
      then if el_accepts env then (c\<lparr>c_handler := True\<rparr>, True) else (c, False)
      else (c, True))"

definition addReplyToBuffer :: "client \<Rightarrow> byte list \<Rightarrow> nat \<Rightarrow> (client \<times> bool) option" where
  "addReplyToBuffer c s len =
     (let available = length (c_buf c) - c_bufpos c
      in if c_close_after_reply c then Some (c, True)
         else if c_reply c \<noteq> [] then Some (c, False)
         else if len > available then Some (c, False)
         else do { x \<leftarrow> read_bytes s 0 len;
                   buf \<leftarrow> write_bytes (c_buf c) (c_bufpos c) x;
                   Some (c\<lparr>c_buf := buf, c_bufpos := c_bufpos c + len\<rparr>, True) })"

text \<open>The last object, as one that only this list refers to.\<close>

definition dupLastObjectIfNeeded :: "net_env \<Rightarrow> net \<Rightarrow> (net \<times> nat) option" where
  "dupLastObjectIfNeeded env = (\<lambda>(st, c).
     do { check (c_reply c \<noteq> []);
          let cur = last (c_reply c);
          ob \<leftarrow> objs st cur;
          if refcount ob > 1 then
            do { new \<leftarrow> dupStringObject (n_fresh env) ob;
                 let (st, a) = new_obj st new;
                 st \<leftarrow> decrRefCount st cur;
                 Some ((st, c\<lparr>c_reply := butlast (c_reply c) @ [a]\<rparr>), a) }
          else Some ((st, c), cur) })"

text \<open>\<open>tail->ptr != NULL && tail->encoding == RAW && sdslen (tail->ptr) + n <= CHUNK\<close>; NULL is \<open>Long 0\<close>.\<close>

definition tail_takes :: "robj \<Rightarrow> nat \<Rightarrow> bool option" where
  "tail_takes tail n =
     (if ptr tail = Long 0 \<or> encoding tail \<noteq> REDIS_ENCODING_RAW then Some False
      else do { s \<leftarrow> sds_of tail; Some (sdslen s + n \<le> REDIS_REPLY_CHUNK_BYTES) })"

definition append_to_tail :: "net_env \<Rightarrow> net \<Rightarrow> byte list \<Rightarrow> nat \<Rightarrow> net option" where
  "append_to_tail env = (\<lambda>(st, c) s n.
     do { tail \<leftarrow> objs st (last (c_reply c));
          t \<leftarrow> sds_of tail;
          let bytes = c_reply_bytes c - zmalloc_size_sds env t;
          ((st, c), a) \<leftarrow> dupLastObjectIfNeeded env (st, c);
          tail \<leftarrow> objs st a;
          t \<leftarrow> sds_of tail;
          t \<leftarrow> sdscatlen (n_fresh env) t s n;
          Some (put_obj st a (tail\<lparr>ptr := Sds t\<rparr>), c\<lparr>c_reply_bytes := bytes + zmalloc_size_sds env t\<rparr>) })"

definition close_if_over :: "net_env \<Rightarrow> net \<Rightarrow> net option" where
  "close_if_over env = (\<lambda>(st, c). do { c \<leftarrow> asyncCloseClientOnOutputBufferLimitReached env c; Some (st, c) })"

text \<open>The object joins the list: it is counted once more, and its memory is charged to the client.\<close>

definition push_object :: "net_env \<Rightarrow> net \<Rightarrow> nat \<Rightarrow> net option" where
  "push_object env = (\<lambda>(st, c) a.
     do { ob \<leftarrow> objs st a;
          n \<leftarrow> getStringObjectSdsUsedMemory env ob;
          Some (st, c\<lparr>c_reply := c_reply c @ [a], c_reply_bytes := c_reply_bytes c + n\<rparr>) })"

definition addReplyObjectToList :: "net_env \<Rightarrow> net \<Rightarrow> nat \<Rightarrow> net option" where
  "addReplyObjectToList env = (\<lambda>(st, c) a.
     if c_close_after_reply c then Some (st, c)
     else do {
       ob \<leftarrow> objs st a;
       glue \<leftarrow> (if c_reply c = [] then Some False
               else do { tail \<leftarrow> objs st (last (c_reply c)); s \<leftarrow> sds_of ob; tail_takes tail (sdslen s) });
       n \<leftarrow> (if glue then do { s \<leftarrow> sds_of ob; append_to_tail env (st, c) (s_buf s) (sdslen s) }
             else do { st \<leftarrow> incrRefCount st a; push_object env (st, c) a });
       close_if_over env n })"

definition addReplySdsToList :: "net_env \<Rightarrow> net \<Rightarrow> sdshdr \<Rightarrow> net option" where
  "addReplySdsToList env = (\<lambda>(st, c) s.
     if c_close_after_reply c then Some (st, c)
     else do {
       glue \<leftarrow> (if c_reply c = [] then Some False
               else do { tail \<leftarrow> objs st (last (c_reply c)); tail_takes tail (sdslen s) });
       n \<leftarrow> (if glue then append_to_tail env (st, c) (s_buf s) (sdslen s)
             else do { let (st, a) = new_obj st (createObject (Sds s)); push_object env (st, c) a });
       close_if_over env n })"

definition addReplyStringToList :: "net_env \<Rightarrow> net \<Rightarrow> byte list \<Rightarrow> nat \<Rightarrow> net option" where
  "addReplyStringToList env = (\<lambda>(st, c) s len.
     if c_close_after_reply c then Some (st, c)
     else do {
       glue \<leftarrow> (if c_reply c = [] then Some False
               else do { tail \<leftarrow> objs st (last (c_reply c)); tail_takes tail len });
       n \<leftarrow> (if glue then append_to_tail env (st, c) s len
             else do { ob \<leftarrow> createStringObject (n_fresh env) s len;
                       let (st, a) = new_obj st ob; push_object env (st, c) a });
       close_if_over env n })"

text \<open>The common end of \<open>addReply\<close>: the buffer if it has room, or else the list.\<close>

definition add_encoded :: "net_env \<Rightarrow> net \<Rightarrow> nat \<Rightarrow> net option" where
  "add_encoded env = (\<lambda>(st, c) a.
     do { ob \<leftarrow> objs st a;
          s \<leftarrow> sds_of ob;
          (c, ok) \<leftarrow> addReplyToBuffer c (s_buf s) (sdslen s);
          if ok then Some (st, c) else addReplyObjectToList env (st, c) a })"

definition addReply :: "net_env \<Rightarrow> net \<Rightarrow> nat \<Rightarrow> net option" where
  "addReply env = (\<lambda>(st, c) a.
     (let (c, ok) = prepareClientToWrite env c
      in if \<not> ok then Some (st, c)
         else do {
           ob \<leftarrow> objs st a;
           if sdsEncodedObject ob then add_encoded env (st, c) a
           else do {
             v \<leftarrow> long_of ob;
             (c, ok) \<leftarrow> (if c_reply c = [] \<and> length (c_buf c) - c_bufpos c \<ge> 32
                        then let (len, buf) = ll2string 32 v in addReplyToBuffer c buf len
                        else Some (c, False));
             if ok then Some (st, c)
             else do { dec \<leftarrow> getDecodedObject (n_fresh env) ob;
                       let (st, d) = new_obj st dec;
                       (st, c) \<leftarrow> add_encoded env (st, c) d;
                       st \<leftarrow> decrRefCount st d;
                       Some (st, c) } } }))"

definition addReplySds :: "net_env \<Rightarrow> net \<Rightarrow> sdshdr \<Rightarrow> net option" where
  "addReplySds env = (\<lambda>(st, c) s.
     (let (c, ok) = prepareClientToWrite env c
      in if \<not> ok then Some (st, c)
         else do { (c, ok) \<leftarrow> addReplyToBuffer c (s_buf s) (sdslen s);
                   if ok then Some (st, c) else addReplySdsToList env (st, c) s }))"

definition addReplyString :: "net_env \<Rightarrow> net \<Rightarrow> byte list \<Rightarrow> nat \<Rightarrow> net option" where
  "addReplyString env = (\<lambda>(st, c) s len.
     (let (c, ok) = prepareClientToWrite env c
      in if \<not> ok then Some (st, c)
         else do { (c, ok) \<leftarrow> addReplyToBuffer c s len;
                   if ok then Some (st, c) else addReplyStringToList env (st, c) s len }))"

subsection \<open>Replies\<close>

definition crlf :: "byte list" where "crlf = [13, 10]"

definition addReplyErrorLength :: "net_env \<Rightarrow> net \<Rightarrow> byte list \<Rightarrow> nat \<Rightarrow> net option" where
  "addReplyErrorLength env n s len =
     do { n \<leftarrow> addReplyString env n [45, 69, 82, 82, 32] 5; n \<leftarrow> addReplyString env n s len; addReplyString env n crlf 2 }"

definition addReplyError :: "net_env \<Rightarrow> net \<Rightarrow> byte list \<Rightarrow> net option" where
  "addReplyError env n err = do { len \<leftarrow> strlen err; addReplyErrorLength env n err len }"

text \<open>The text is what the format and its arguments give.\<close>

definition addReplyErrorFormat :: "net_env \<Rightarrow> net \<Rightarrow> byte list \<Rightarrow> net option" where
  "addReplyErrorFormat env n t =
     addReplyErrorLength env n (map (\<lambda>x. if x = 13 \<or> x = 10 then 32 else x) t) (length t)"

definition addReplyStatusLength :: "net_env \<Rightarrow> net \<Rightarrow> byte list \<Rightarrow> nat \<Rightarrow> net option" where
  "addReplyStatusLength env n s len =
     do { n \<leftarrow> addReplyString env n [43] 1; n \<leftarrow> addReplyString env n s len; addReplyString env n crlf 2 }"

definition addReplyStatus :: "net_env \<Rightarrow> net \<Rightarrow> byte list \<Rightarrow> net option" where
  "addReplyStatus env n status = do { len \<leftarrow> strlen status; addReplyStatusLength env n status len }"

definition addReplyLongLongWithPrefix :: "net_env \<Rightarrow> net \<Rightarrow> int \<Rightarrow> byte \<Rightarrow> net option" where
  "addReplyLongLongWithPrefix env n ll prefix =
     (if prefix = 42 \<and> ll < REDIS_SHARED_BULKHDR_LEN then do { check (0 \<le> ll); addReply env n (sh_mbulkhdr env (nat ll)) }
      else if prefix = 36 \<and> ll < REDIS_SHARED_BULKHDR_LEN then do { check (0 \<le> ll); addReply env n (sh_bulkhdr env (nat ll)) }
      else do { let (len, buf) = ll2string 127 ll; t \<leftarrow> read_bytes buf 0 len; addReplyString env n (prefix # t @ crlf) (len + 3) })"

definition addReplyLongLong :: "net_env \<Rightarrow> net \<Rightarrow> int \<Rightarrow> net option" where
  "addReplyLongLong env n ll =
     (if ll = 0 then addReply env n (sh_czero env) else if ll = 1 then addReply env n (sh_cone env)
      else addReplyLongLongWithPrefix env n ll 58)"

definition addReplyMultiBulkLen :: "net_env \<Rightarrow> net \<Rightarrow> int \<Rightarrow> net option" where
  "addReplyMultiBulkLen env n len =
     (if len < REDIS_SHARED_BULKHDR_LEN then do { check (0 \<le> len); addReply env n (sh_mbulkhdr env (nat len)) }
      else addReplyLongLongWithPrefix env n len 42)"

text \<open>\<open>while ((n = n/10) != 0) len++\<close>, with the division of C.\<close>

definition cdiv10 :: "int \<Rightarrow> int" where "cdiv10 n = (if n < 0 then - (- n div 10) else n div 10)"

function digits_loop :: "int \<Rightarrow> nat \<Rightarrow> nat" where
  "digits_loop n len = (if cdiv10 n \<noteq> 0 then digits_loop (cdiv10 n) (len + 1) else len)"
  by pat_completeness auto
termination by (relation "measure (\<lambda>(n, len). nat \<bar>n\<bar>)") (auto simp: cdiv10_def)

declare digits_loop.simps [simp del]

definition addReplyBulkLen :: "net_env \<Rightarrow> net \<Rightarrow> nat \<Rightarrow> net option" where
  "addReplyBulkLen env = (\<lambda>(st, c) a.
     do { ob \<leftarrow> objs st a;
          len \<leftarrow> (if sdsEncodedObject ob then do { s \<leftarrow> sds_of ob; Some (sdslen s) }
                 else do { v \<leftarrow> long_of ob;
                           Some (if v < 0 then digits_loop (s64 (- v)) 2 else digits_loop v 1) });
          if int len < REDIS_SHARED_BULKHDR_LEN then addReply env (st, c) (sh_bulkhdr env len)
          else addReplyLongLongWithPrefix env (st, c) (int len) 36 })"

definition addReplyBulk :: "net_env \<Rightarrow> net \<Rightarrow> nat \<Rightarrow> net option" where
  "addReplyBulk env n a =
     do { n \<leftarrow> addReplyBulkLen env n a; n \<leftarrow> addReply env n a; addReply env n (sh_crlf env) }"

definition addReplyBulkCBuffer :: "net_env \<Rightarrow> net \<Rightarrow> byte list \<Rightarrow> nat \<Rightarrow> net option" where
  "addReplyBulkCBuffer env n p len =
     do { n \<leftarrow> addReplyLongLongWithPrefix env n (int len) 36; n \<leftarrow> addReplyString env n p len; addReply env n (sh_crlf env) }"

definition addReplyBulkCString :: "net_env \<Rightarrow> net \<Rightarrow> byte list option \<Rightarrow> net option" where
  "addReplyBulkCString env n s =
     (case s of None \<Rightarrow> addReply env n (sh_nullbulk env)
      | Some s \<Rightarrow> do { len \<leftarrow> strlen s; addReplyBulkCBuffer env n s len })"

definition addReplyBulkLongLong :: "net_env \<Rightarrow> net \<Rightarrow> int \<Rightarrow> net option" where
  "addReplyBulkLongLong env n ll = (let (len, buf) = ll2string 64 ll in addReplyBulkCBuffer env n buf len)"

text \<open>A multi bulk reply whose length comes later: an object with the pointer NULL keeps its place.\<close>

definition addDeferredMultiBulkLength :: "net_env \<Rightarrow> net \<Rightarrow> net \<times> nat option" where
  "addDeferredMultiBulkLength env = (\<lambda>(st, c).
     (let (c, ok) = prepareClientToWrite env c
      in if \<not> ok then ((st, c), None)
         else let (st, a) = new_obj st (createObject (Long 0))
              in ((st, c\<lparr>c_reply := c_reply c @ [a]\<rparr>), Some (length (c_reply c)))))"

text \<open>
  The node is its place in the list, in front of which nothing changes in between. The object behind
  the length is glued to it.
\<close>

definition setDeferredMultiBulkLength :: "net_env \<Rightarrow> net \<Rightarrow> nat option \<Rightarrow> int \<Rightarrow> net option" where
  "setDeferredMultiBulkLength env = (\<lambda>(st, c) node len.
     (case node of
        None \<Rightarrow> Some (st, c)
      | Some i \<Rightarrow>
          do { check (i < length (c_reply c));
               let a = c_reply c ! i;
               ob \<leftarrow> objs st a;
               let (n, buf) = ll2string 32 len;
               t \<leftarrow> read_bytes buf 0 n;
               s \<leftarrow> sdsempty (n_fresh env);
               s \<leftarrow> sdscatlen (n_fresh env) s (42 # t @ crlf) (n + 3);
               let ob = ob\<lparr>ptr := Sds s, encoding := REDIS_ENCODING_RAW\<rparr>;
               let bytes = c_reply_bytes c + zmalloc_size_sds env s;
               (st, c) \<leftarrow>
                 (if i + 1 < length (c_reply c) then
                    do { let b = c_reply c ! (i + 1);
                         next \<leftarrow> objs st b;
                         if ptr next \<noteq> Long 0 then
                           do { used \<leftarrow> getStringObjectSdsUsedMemory env next;
                                ns \<leftarrow> sds_of next;
                                s2 \<leftarrow> sdscatlen (n_fresh env) s (s_buf ns) (sdslen ns);
                                st \<leftarrow> decrRefCount (put_obj st a (ob\<lparr>ptr := Sds s2\<rparr>)) b;
                                Some (st, c\<lparr>c_reply := take (i + 1) (c_reply c) @ drop (i + 2) (c_reply c),
                                  c_reply_bytes := bytes - zmalloc_size_sds env s - used + zmalloc_size_sds env s2\<rparr>) }
                         else Some (put_obj st a ob, c\<lparr>c_reply_bytes := bytes\<rparr>) }
                  else Some (put_obj st a ob, c\<lparr>c_reply_bytes := bytes\<rparr>));
               close_if_over env (st, c) }))"

subsection \<open>Sending\<close>

text \<open>
  One element of \<open>io\<close> is one call of \<open>write\<close>: the bytes that the kernel has room for, or \<open>None\<close> for an
  error, and whether the memory in use is below its limit. Calls beyond the list write nothing. The
  results are the last and the total number of bytes written, and the bytes.
\<close>

type_synonym io = "(nat option \<times> bool) list"

definition write_some :: "byte list \<Rightarrow> nat option \<Rightarrow> int \<times> byte list" where
  "write_some x room = (case room of None \<Rightarrow> (- 1, []) | Some k \<Rightarrow> (int (length (take k x)), take k x))"

text \<open>The first object of the list: its address, its text as far as it is not sent, its memory.\<close>

definition first_reply :: "net_env \<Rightarrow> net \<Rightarrow> (nat \<times> nat \<times> byte list \<times> int) option" where
  "first_reply env = (\<lambda>(st, c).
     do { let a = hd (c_reply c);
          ob \<leftarrow> objs st a;
          s \<leftarrow> sds_of ob;
          objmem \<leftarrow> getStringObjectSdsUsedMemory env ob;
          x \<leftarrow> (if sdslen s = 0 then Some [] else read_bytes (s_buf s) (c_sentlen c) (sdslen s - c_sentlen c));
          Some (a, sdslen s, x, objmem) })"

definition del_first :: "net \<Rightarrow> int \<Rightarrow> net option" where
  "del_first = (\<lambda>(st, c) objmem.
     do { st \<leftarrow> decrRefCount st (hd (c_reply c));
          Some (st, c\<lparr>c_reply := tl (c_reply c), c_reply_bytes := c_reply_bytes c - objmem\<rparr>) })"

function send_loop :: "net_env \<Rightarrow> net \<Rightarrow> io \<Rightarrow> int \<Rightarrow> nat \<Rightarrow> byte list \<Rightarrow> (net \<times> int \<times> nat \<times> byte list) option" where
  "send_loop env (st, c) io nwritten tot out =
     (if c_bufpos c > 0 then
        (case io of
           [] \<Rightarrow> Some ((st, c), 0, tot, out)
         | (room, mem_ok) # io \<Rightarrow>
             do { x \<leftarrow> read_bytes (c_buf c) (c_sentlen c) (c_bufpos c - c_sentlen c);
                  let (nwritten, y) = write_some x room;
                  if nwritten \<le> 0 then Some ((st, c), nwritten, tot, out)
                  else do {
                    let sent = c_sentlen c + nat nwritten; let tot = tot + nat nwritten;
                    let c = (if sent = c_bufpos c then c\<lparr>c_bufpos := 0, c_sentlen := 0\<rparr> else c\<lparr>c_sentlen := sent\<rparr>);
                    if tot > REDIS_MAX_WRITE_PER_EVENT \<and> mem_ok then Some ((st, c), nwritten, tot, out @ y)
                    else send_loop env (st, c) io nwritten tot (out @ y) } })
      else if c_reply c \<noteq> [] then
        (case first_reply env (st, c) of
           None \<Rightarrow> None
         | Some (a, objlen, x, objmem) \<Rightarrow>
             if objlen = 0 then
               (case decrRefCount st (hd (c_reply c)) of None \<Rightarrow> None
                | Some st \<Rightarrow>
                  send_loop env (st, c\<lparr>c_reply := tl (c_reply c), c_reply_bytes := c_reply_bytes c - objmem\<rparr>) io nwritten tot out)
             else
               (case io of
                  [] \<Rightarrow> Some ((st, c), 0, tot, out)
                | (room, mem_ok) # io \<Rightarrow>
                    do { let (nwritten, y) = write_some x room;
                         if nwritten \<le> 0 then Some ((st, c), nwritten, tot, out)
                         else do {
                           let sent = c_sentlen c + nat nwritten; let tot = tot + nat nwritten;
                           (st, c) \<leftarrow> (if sent = objlen then del_first (st, c\<lparr>c_sentlen := 0\<rparr>) objmem
                                      else Some (st, c\<lparr>c_sentlen := sent\<rparr>));
                           if tot > REDIS_MAX_WRITE_PER_EVENT \<and> mem_ok then Some ((st, c), nwritten, tot, out @ y)
                           else send_loop env (st, c) io nwritten tot (out @ y) } }))
      else Some ((st, c), nwritten, tot, out))"
  by pat_completeness auto
termination
  by (relation "measure (\<lambda>(env, n, io, nwritten, tot, out). length io + length (c_reply (snd n)))")
    (auto simp: del_first_def bind_eq_Some_conv split: if_splits)

declare send_loop.simps [simp del]

text \<open>\<open>again\<close>: an error is \<open>EAGAIN\<close>. The last result is whether the client is freed.\<close>

definition sendReplyToClient :: "net_env \<Rightarrow> net \<Rightarrow> io \<Rightarrow> bool \<Rightarrow> (net \<times> byte list \<times> bool) option" where
  "sendReplyToClient env n io again =
     do { ((st, c), nwritten, tot, out) \<leftarrow> send_loop env n io 0 0 [];
          if nwritten = - 1 \<and> \<not> again then Some ((st, c), out, True)
          else if c_bufpos c = 0 \<and> c_reply c = []
          then Some ((st, c\<lparr>c_sentlen := 0, c_handler := False\<rparr>), out, c_close_after_reply c)
          else Some ((st, c), out, False) }"

end
