(* ===== verification/Client_Buffers.thy ===== *)
theory Client_Buffers
  imports Client_Output
begin

text \<open>
  What the output buffers of a client hold. \<open>net_ok\<close> is the invariant: the buffer and the list are
  within bounds, every object of the list is alive, reference counts are exact, the memory of the list
  is accounted for exactly, and the objects that others refer to (\<open>ext\<close> counts these references) hold
  their texts (\<open>cont\<close>). \<open>pending\<close> are the bytes still to send. \<open>grows\<close> says that a step adds some
  bytes to them.
\<close>

subsection \<open>The invariant\<close>

text \<open>One element of a list of texts per object; \<open>None\<close> is an object that keeps a place for a length.\<close>

definition reply_text :: "robj \<Rightarrow> byte list option \<Rightarrow> bool" where
  "reply_text ob t \<longleftrightarrow> (case t of
      Some t \<Rightarrow> encoding ob \<noteq> REDIS_ENCODING_INT \<and> (\<exists>s. ptr ob = Sds s \<and> sds_repr s t)
    | None \<Rightarrow> ptr ob = Long 0 \<and> encoding ob = REDIS_ENCODING_RAW \<and> refcount ob = 1)"

definition text_of :: "byte list option \<Rightarrow> byte list" where "text_of t = (case t of None \<Rightarrow> [] | Some t \<Rightarrow> t)"

text \<open>The texts up to the last place that is kept.\<close>

definition held :: "byte list option list \<Rightarrow> byte list option list" where
  "held ts = rev (dropWhile (\<lambda>t. t \<noteq> None) (rev ts))"

lemma text_of_simps [simp]: "text_of None = []" "text_of (Some t) = t"
  by (simp_all add: text_of_def)

lemma reply_text_simps [simp]:
  "reply_text ob (Some t) \<longleftrightarrow> encoding ob \<noteq> REDIS_ENCODING_INT \<and> (\<exists>s. ptr ob = Sds s \<and> sds_repr s t)"
  "reply_text ob None \<longleftrightarrow> ptr ob = Long 0 \<and> encoding ob = REDIS_ENCODING_RAW \<and> refcount ob = 1"
  by (simp_all add: reply_text_def)

lemma held_simps [simp]: "held [] = []" "held (ts @ [Some t]) = held ts" "held (ts @ [None]) = ts @ [None]"
  by (simp_all add: held_def)

definition obj_mem :: "net_env \<Rightarrow> robj \<Rightarrow> int" where
  "obj_mem env ob = (case ptr ob of Long _ \<Rightarrow> 0
     | Sds s \<Rightarrow> if encoding ob = REDIS_ENCODING_RAW then zmalloc_size_sds env s else int (sdslen s))"

definition mem_at :: "net_env \<Rightarrow> store \<Rightarrow> nat \<Rightarrow> int" where
  "mem_at env st a = (case objs st a of None \<Rightarrow> 0 | Some ob \<Rightarrow> obj_mem env ob)"

definition texts_at :: "store \<Rightarrow> nat list \<Rightarrow> byte list option list \<Rightarrow> bool" where
  "texts_at st as ts \<longleftrightarrow> list_all2 (\<lambda>a t. \<exists>ob. objs st a = Some ob \<and> reply_text ob t) as ts"

definition refs_ok :: "(nat \<Rightarrow> nat) \<Rightarrow> store \<Rightarrow> nat list \<Rightarrow> bool" where
  "refs_ok ext st as \<longleftrightarrow> (\<forall>a \<ge> next_obj st. objs st a = None \<and> ext a = 0)
     \<and> (\<forall>a ob. objs st a = Some ob \<longrightarrow> refcount ob = int (ext a + count_list as a) \<and> 0 < ext a + count_list as a)"

definition ext_ok :: "(nat \<Rightarrow> nat) \<Rightarrow> (nat \<Rightarrow> byte list option) \<Rightarrow> store \<Rightarrow> bool" where
  "ext_ok ext cont st \<longleftrightarrow> (\<forall>a t. cont a = Some t \<longrightarrow> 0 < ext a \<and> (\<exists>ob. objs st a = Some ob \<and> obj_holds ob t))"

definition buffer_ok :: "client \<Rightarrow> byte list option list \<Rightarrow> bool" where
  "buffer_ok c ts \<longleftrightarrow> length (c_buf c) = REDIS_REPLY_CHUNK_BYTES \<and> c_bufpos c \<le> REDIS_REPLY_CHUNK_BYTES
     \<and> (c_sentlen c = 0 \<or> c_sentlen c < (if 0 < c_bufpos c then c_bufpos c else if ts = [] then 0 else length (text_of (hd ts))))"

definition net_ok :: "net_env \<Rightarrow> (nat \<Rightarrow> nat) \<Rightarrow> (nat \<Rightarrow> byte list option) \<Rightarrow> net \<Rightarrow> byte list option list \<Rightarrow> bool" where
  "net_ok env ext cont = (\<lambda>(st, c) ts.
     texts_at st (c_reply c) ts \<and> refs_ok ext st (c_reply c) \<and> ext_ok ext cont st \<and> buffer_ok c ts
     \<and> c_reply_bytes c = sum_list (map (mem_at env st) (c_reply c)))"

text \<open>A store without the lists of clients.\<close>

definition store_ok :: "(nat \<Rightarrow> nat) \<Rightarrow> (nat \<Rightarrow> byte list option) \<Rightarrow> store \<Rightarrow> bool" where
  "store_ok ext cont st \<longleftrightarrow> refs_ok ext st [] \<and> ext_ok ext cont st"

definition pending :: "client \<Rightarrow> byte list option list \<Rightarrow> byte list" where
  "pending c ts = drop (c_sentlen c) ((if 0 < c_bufpos c then take (c_bufpos c) (c_buf c) else []) @ concat (map text_of ts))"

text \<open>The sizes of allocations, and what the assertion on the memory of the list needs.\<close>

definition env_ok :: "net_env \<Rightarrow> bool" where
  "env_ok env \<longleftrightarrow> el_accepts env \<and> (\<forall>s. 0 \<le> zmalloc_size_sds env s \<and> zmalloc_size_sds env s < 2 ^ 40)"

definition MAX_NODES :: nat where "MAX_NODES = 2 ^ 20"

definition can_write :: "client \<Rightarrow> bool" where
  "can_write c \<longleftrightarrow> c_lua c \<or> (c_master c \<longrightarrow> c_force_reply c) \<and> 0 < c_fd c"

text \<open>What no reply changes; once there is a list, only the list grows.\<close>

definition same_client :: "client \<Rightarrow> client \<Rightarrow> bool" where
  "same_client c c' \<longleftrightarrow> c_fd c' = c_fd c \<and> c_lua c' = c_lua c \<and> c_master c' = c_master c
     \<and> c_force_reply c' = c_force_reply c \<and> c_slave c' = c_slave c \<and> c_close_after_reply c' = c_close_after_reply c
     \<and> c_pubsub c' = c_pubsub c \<and> c_replstate c' = c_replstate c \<and> (c_handler c \<longrightarrow> c_handler c')
     \<and> c_sentlen c' = c_sentlen c
     \<and> (c_reply c \<noteq> [] \<longrightarrow> c_reply c' \<noteq> [] \<and> c_buf c' = c_buf c \<and> c_bufpos c' = c_bufpos c)"

definition takes_reply :: "client \<Rightarrow> bool" where
  "takes_reply c \<longleftrightarrow> can_write c \<and> \<not> c_close_after_reply c"

lemma same_client_refl [simp]: "same_client c c"
  by (simp add: same_client_def)

lemma same_client_trans: "same_client a b \<Longrightarrow> same_client b c \<Longrightarrow> same_client a c"
  by (simp add: same_client_def)

lemma same_client_takes: "same_client c c' \<Longrightarrow> takes_reply c' = takes_reply c"
  by (simp add: same_client_def takes_reply_def can_write_def)

lemma prepare_iff:
  assumes "el_accepts env"
  shows "\<exists>c'. prepareClientToWrite env c = (c', can_write c) \<and> same_client c c' \<and> c_buf c' = c_buf c
    \<and> c_bufpos c' = c_bufpos c \<and> c_sentlen c' = c_sentlen c \<and> c_reply c' = c_reply c \<and> c_reply_bytes c' = c_reply_bytes c"
  using assms by (auto simp: prepareClientToWrite_def can_write_def same_client_def)

lemma net_ok_client:
  assumes "net_ok env ext cont (st, c) ts" and "c_buf c' = c_buf c" "c_bufpos c' = c_bufpos c"
    "c_sentlen c' = c_sentlen c" "c_reply c' = c_reply c" "c_reply_bytes c' = c_reply_bytes c"
  shows "net_ok env ext cont (st, c') ts \<and> pending c' ts = pending c ts"
proof -
  have "buffer_ok c' ts = buffer_ok c ts" using assms(2-4) by (simp only: buffer_ok_def)
  then show ?thesis using assms by (simp add: net_ok_def pending_def)
qed

lemma texts_at_length: "texts_at st as ts \<Longrightarrow> length as = length ts"
  by (simp add: texts_at_def list_all2_lengthD)

lemma texts_at_append: "texts_at st (as @ [a]) (ts @ [t]) \<longleftrightarrow> texts_at st as ts \<and> (\<exists>ob. objs st a = Some ob \<and> reply_text ob t)"
  by (cases "length as = length ts") (auto simp: texts_at_def list_all2_append dest: list_all2_lengthD)

lemma mem_bound:
  assumes "env_ok env" and "texts_at st as ts"
  shows "0 \<le> sum_list (map (mem_at env st) as) \<and> sum_list (map (mem_at env st) as) \<le> int (length as) * 2 ^ 40"
  using assms(2)
proof (induction as arbitrary: ts)
  case (Cons a as)
  then obtain t ts' ob where t: "ts = t # ts'" "objs st a = Some ob" "reply_text ob t" "texts_at st as ts'"
    by (auto simp: texts_at_def list_all2_Cons1)
  have "0 \<le> obj_mem env ob \<and> obj_mem env ob \<le> 2 ^ 40"
  proof (cases "ptr ob")
    case (Sds s)
    then obtain u where "sds_repr s u" using t(3) by (cases t) auto
    then have "sdslen s = length u" "length u < 2 ^ 31" using sdslen_text sds_repr_less by blast+
    then show ?thesis using assms(1) Sds by (auto simp: obj_mem_def env_ok_def less_imp_le)
  qed (simp add: obj_mem_def)
  then show ?case using Cons.IH [OF t(4)] t(2) by (simp add: mem_at_def algebra_simps)
qed simp

text \<open>The check of the limits changes flags that the buffers do not depend on.\<close>

lemma close_if_over_ok:
  assumes "env_ok env" and "net_ok env ext cont (st, c) ts" and "length ts \<le> MAX_NODES"
  shows "\<exists>c'. close_if_over env (st, c) = Some (st, c') \<and> net_ok env ext cont (st, c') ts
    \<and> pending c' ts = pending c ts \<and> same_client c c'"
proof -
  have len: "length (c_reply c) = length ts" using assms(2) by (auto simp: net_ok_def dest: texts_at_length)
  have "c_reply_bytes c \<le> int (length ts) * 2 ^ 40"
    using mem_bound [OF assms(1), of st "c_reply c" ts] assms(2) len by (simp add: net_ok_def)
  also have "\<dots> \<le> int MAX_NODES * 2 ^ 40" using assms(3) by simp
  finally have b: "c_reply_bytes c < 2 ^ 64 - 1 - 1024 * 64" by (simp add: MAX_NODES_def)
  obtain c1 over where l: "checkClientOutputBufferLimits env c = (c1, over)" by (cases "checkClientOutputBufferLimits env c")
  then have c1: "c1 = c \<or> c1 = c\<lparr>c_soft_limit_time := unixtime env\<rparr> \<or> c1 = c\<lparr>c_soft_limit_time := 0\<rparr>"
    by (auto simp: checkClientOutputBufferLimits_def Let_def split: if_splits)
  define c' where "c' = (if c_reply_bytes c = 0 \<or> c_close_asap c then c else if over then freeClientAsync c1 else c1)"
  have "close_if_over env (st, c) = Some (st, c')"
    using b l by (simp add: close_if_over_def asyncCloseClientOnOutputBufferLimitReached_def check_def c'_def)
  moreover have "c_buf c' = c_buf c" "c_bufpos c' = c_bufpos c" "c_sentlen c' = c_sentlen c" "c_reply c' = c_reply c"
    "c_reply_bytes c' = c_reply_bytes c" "same_client c c'"
    using c1 by (auto simp: c'_def freeClientAsync_def same_client_def)
  ultimately show ?thesis using net_ok_client [OF assms(2)] by blast
qed

subsection \<open>Steps on the store\<close>

lemma sent_bound:
  assumes "buffer_ok c ts"
  shows "c_sentlen c \<le> length ((if 0 < c_bufpos c then take (c_bufpos c) (c_buf c) else []) @ concat (map text_of ts))"
proof (cases "0 < c_bufpos c")
  case True
  then have "c_sentlen c \<le> length (take (c_bufpos c) (c_buf c))" using assms by (auto simp: buffer_ok_def)
  then show ?thesis using True by (simp only: if_True length_append trans_le_add1)
next
  case False
  then show ?thesis using assms by (cases ts) (auto simp: buffer_ok_def)
qed

lemma pending_snoc: "buffer_ok c ts \<Longrightarrow> pending c (ts @ [t]) = pending c ts @ text_of t"
  using sent_bound [of c ts] by (simp add: pending_def)

lemma buffer_snoc: "buffer_ok c ts \<Longrightarrow> buffer_ok c (ts @ [t])"
  by (cases ts) (auto simp: buffer_ok_def)

lemma pending_tail: "buffer_ok c (ts @ [Some t]) \<Longrightarrow> pending c (ts @ [Some (t @ x)]) = pending c (ts @ [Some t]) @ x"
  using sent_bound [of c "ts @ [Some t]"] by (simp add: pending_def flip: append_assoc)

lemma buffer_tail: "buffer_ok c (ts @ [Some t]) \<Longrightarrow> buffer_ok c (ts @ [Some (t @ x)])"
  by (cases ts) (auto simp: buffer_ok_def)

lemma buffer_client [simp]:
  "buffer_ok (c\<lparr>c_reply := r\<rparr>) ts = buffer_ok c ts" "buffer_ok (c\<lparr>c_reply_bytes := n\<rparr>) ts = buffer_ok c ts"
  "pending (c\<lparr>c_reply := r\<rparr>) ts = pending c ts" "pending (c\<lparr>c_reply_bytes := n\<rparr>) ts = pending c ts"
  "r \<noteq> [] \<Longrightarrow> same_client c (c\<lparr>c_reply := r, c_reply_bytes := n\<rparr>)"
  by (simp_all add: buffer_ok_def pending_def same_client_def)

text \<open>Objects that agree up to the reference count.\<close>

definition same_obj :: "robj \<Rightarrow> robj \<Rightarrow> bool" where
  "same_obj ob ob' \<longleftrightarrow> ptr ob' = ptr ob \<and> encoding ob' = encoding ob \<and> (ptr ob = Long 0 \<longrightarrow> refcount ob' = refcount ob)"

lemma same_obj_simps [simp]:
  "same_obj ob ob' \<Longrightarrow> reply_text ob' t = reply_text ob t" "same_obj ob ob' \<Longrightarrow> obj_holds ob' u = obj_holds ob u"
  "same_obj ob ob' \<Longrightarrow> obj_mem env ob' = obj_mem env ob" "ptr ob \<noteq> Long 0 \<Longrightarrow> same_obj ob (ob\<lparr>refcount := n\<rparr>)" "same_obj ob ob"
  by (auto simp: same_obj_def reply_text_def obj_holds_def obj_mem_def split: obj_ptr.splits option.splits)

definition keeps :: "nat set \<Rightarrow> store \<Rightarrow> store \<Rightarrow> bool" where
  "keeps A st st' \<longleftrightarrow> (\<forall>a \<in> A. \<forall>ob. objs st a = Some ob \<longrightarrow> (\<exists>ob'. objs st' a = Some ob' \<and> same_obj ob ob'))"

lemma keeps_texts: "keeps (set as) st st' \<Longrightarrow> texts_at st as ts \<Longrightarrow> texts_at st' as ts"
  unfolding texts_at_def by (erule list.rel_mono_strong) (fastforce simp: keeps_def)

lemma texts_at_in:
  assumes "texts_at st as ts" and "a \<in> set as"
  shows "\<exists>ob t. objs st a = Some ob \<and> reply_text ob t"
  using assms unfolding texts_at_def by (induction rule: list_all2_induct) auto

lemma keeps_mem:
  assumes "keeps (set as) st st'" and "texts_at st as ts"
  shows "sum_list (map (mem_at env st') as) = sum_list (map (mem_at env st) as)"
proof -
  have "mem_at env st' a = mem_at env st a" if "a \<in> set as" for a
  proof -
    have "a \<in> set as" by (rule that)
    from texts_at_in [OF assms(2) this] obtain ob where "objs st a = Some ob" by blast
    then show ?thesis using assms(1) that by (fastforce simp: keeps_def mem_at_def)
  qed
  then show ?thesis by (simp cong: map_cong)
qed

lemma keeps_ext:
  assumes k: "keeps {a. 0 < ext a} st st'" and e: "ext_ok ext cont st"
  shows "ext_ok ext cont st'"
  unfolding ext_ok_def
proof (intro allI impI)
  fix a t
  assume "cont a = Some t"
  then obtain ob where ob: "0 < ext a" "objs st a = Some ob" "obj_holds ob t" using e by (auto simp: ext_ok_def)
  then obtain ob' where "objs st' a = Some ob'" "same_obj ob ob'" using k by (auto simp: keeps_def)
  then show "0 < ext a \<and> (\<exists>ob. objs st' a = Some ob \<and> obj_holds ob t)" using ob by auto
qed

lemma keeps_all:
  "(\<And>a ob. objs st a = Some ob \<Longrightarrow> \<exists>ob'. objs st' a = Some ob' \<and> same_obj ob ob') \<Longrightarrow> keeps A st st'"
  by (simp add: keeps_def)

text \<open>A reference more, and a new object, at the end of the list.\<close>

lemma push_existing:
  assumes ok: "net_ok env ext cont (st, c) ts" and a: "cont a = Some t" "objs st a = Some ob" "sdsEncodedObject ob"
  shows "\<exists>st' c'. do { st \<leftarrow> incrRefCount st a; push_object env (st, c) a } = Some (st', c')
    \<and> net_ok env ext cont (st', c') (ts @ [Some t]) \<and> pending c' (ts @ [Some t]) = pending c ts @ t \<and> same_client c c'"
proof -
  have n: "texts_at st (c_reply c) ts" "refs_ok ext st (c_reply c)" "ext_ok ext cont st" "buffer_ok c ts"
    "c_reply_bytes c = sum_list (map (mem_at env st) (c_reply c))" using ok by (simp_all add: net_ok_def)
  have h: "obj_holds ob t" using n(3) a(1,2) by (fastforce simp: ext_ok_def)
  then obtain s where s: "ptr ob = Sds s" "sds_repr s t" using obj_holds_sds a(3) by blast
  then have rt: "reply_text ob (Some t)" using a(3) by (simp add: reply_text_def sdsEncoded_iff)
  define ob' where "ob' = ob\<lparr>refcount := refcount ob + 1\<rparr>"
  define st' where "st' = put_obj st a ob'"
  have st': "objs st' = (objs st)(a \<mapsto> ob')" "next_obj st' = next_obj st" by (simp_all add: st'_def put_obj_def)
  have so: "same_obj ob ob'" using s(1) by (simp add: ob'_def)
  have k: "keeps A st st'" for A using so a(2) st' by (auto intro!: keeps_all)
  have mem: "getStringObjectSdsUsedMemory env ob' = Some (obj_mem env ob)"
    using s a(3) by (cases "encoding ob") (auto simp: getStringObjectSdsUsedMemory_def obj_mem_def sds_of_def ob'_def sdsEncodedObject_def)
  define c' where "c' = c\<lparr>c_reply := c_reply c @ [a], c_reply_bytes := c_reply_bytes c + obj_mem env ob\<rparr>"
  have "do { st \<leftarrow> incrRefCount st a; push_object env (st, c) a } = Some (st', c')"
    using a(2) mem by (simp add: incrRefCount_def push_object_def c'_def st'_def ob'_def put_obj_def)
  moreover have "net_ok env ext cont (st', c') (ts @ [Some t])"
  proof -
    have "texts_at st' (c_reply c @ [a]) (ts @ [Some t])"
      using keeps_texts [OF k n(1)] rt so st' by (simp add: texts_at_append del: reply_text_simps)
    moreover have "refs_ok ext st' (c_reply c @ [a])" using n(2) a(2) st'
      by (auto simp: refs_ok_def ob'_def)
    moreover have "sum_list (map (mem_at env st') (c_reply c @ [a])) = c_reply_bytes c + obj_mem env ob"
    proof -
      have "mem_at env st' a = obj_mem env ob" using st' so by (simp add: mem_at_def)
      then show ?thesis using keeps_mem [OF k n(1), of env] n(5) by simp
    qed
    ultimately show ?thesis using keeps_ext [OF k n(3)] buffer_snoc [OF n(4)] by (simp add: net_ok_def c'_def)
  qed
  moreover have "pending c' (ts @ [Some t]) = pending c ts @ t" using pending_snoc [OF n(4)] by (simp add: c'_def)
  moreover have "same_client c c'" by (simp add: c'_def)
  ultimately show ?thesis by blast
qed

lemma append_new:
  assumes ok: "net_ok env ext cont (st, c) ts" and ob: "reply_text ob t" "refcount ob = 1"
    and a: "a = next_obj st" and st': "objs st' = (objs st)(a \<mapsto> ob)" "next_obj st' = Suc a"
    and c': "c' = c\<lparr>c_reply := c_reply c @ [a], c_reply_bytes := c_reply_bytes c + obj_mem env ob\<rparr>"
  shows "net_ok env ext cont (st', c') (ts @ [t]) \<and> pending c' (ts @ [t]) = pending c ts @ text_of t \<and> same_client c c'"
proof -
  have n: "texts_at st (c_reply c) ts" "refs_ok ext st (c_reply c)" "ext_ok ext cont st" "buffer_ok c ts"
    "c_reply_bytes c = sum_list (map (mem_at env st) (c_reply c))" using ok by (simp_all add: net_ok_def)
  have free: "objs st a = None" using n(2) by (simp add: refs_ok_def a)
  then have "a \<notin> set (c_reply c)" using texts_at_in [OF n(1)] by fastforce
  then have na: "count_list (c_reply c) a = 0" by (simp add: count_list_0_iff)
  have k: "keeps A st st'" for A using free by (intro keeps_all) (auto simp: st')
  have "texts_at st' (c_reply c @ [a]) (ts @ [t])"
    using keeps_texts [OF k n(1)] ob(1) by (auto simp: texts_at_append st' simp del: reply_text_simps)
  moreover have "refs_ok ext st' (c_reply c @ [a])" using n(2) ob(2) free na
    unfolding refs_ok_def st' a by (auto simp del: of_nat_add)
  moreover have "sum_list (map (mem_at env st') (c_reply c @ [a])) = c_reply_bytes c + obj_mem env ob"
  proof -
    have "mem_at env st' a = obj_mem env ob" by (simp add: mem_at_def st')
    then show ?thesis using keeps_mem [OF k n(1), of env] n(5) by simp
  qed
  ultimately have "net_ok env ext cont (st', c') (ts @ [t])"
    using keeps_ext [OF k n(3)] buffer_snoc [OF n(4)] by (simp add: net_ok_def c')
  then show ?thesis using pending_snoc [OF n(4)] by (simp add: c')
qed

lemma push_new:
  assumes ok: "net_ok env ext cont (st, c) ts" and ob: "reply_text ob (Some t)" "refcount ob = 1"
  shows "\<exists>st' c'. (let (st, a) = new_obj st ob in push_object env (st, c) a) = Some (st', c')
    \<and> net_ok env ext cont (st', c') (ts @ [Some t]) \<and> pending c' (ts @ [Some t]) = pending c ts @ t \<and> same_client c c'"
proof -
  define a where "a = next_obj st"
  obtain s where s: "ptr ob = Sds s" using ob(1) by auto
  define st' where "st' = st\<lparr>objs := (objs st)(a \<mapsto> ob), next_obj := Suc a\<rparr>"
  have mem: "getStringObjectSdsUsedMemory env ob = Some (obj_mem env ob)"
    using s ob(1) by (cases "encoding ob") (auto simp: getStringObjectSdsUsedMemory_def obj_mem_def sds_of_def)
  define c' where "c' = c\<lparr>c_reply := c_reply c @ [a], c_reply_bytes := c_reply_bytes c + obj_mem env ob\<rparr>"
  have "(let (st, a) = new_obj st ob in push_object env (st, c) a) = Some (st', c')"
    using mem by (simp add: new_obj_def push_object_def c'_def st'_def a_def)
  moreover have "objs st' = (objs st)(a \<mapsto> ob)" "next_obj st' = Suc a" by (simp_all add: st'_def)
  from append_new [OF ok ob a_def this c'_def] have "net_ok env ext cont (st', c') (ts @ [Some t])"
    "pending c' (ts @ [Some t]) = pending c ts @ t" "same_client c c'" by simp_all
  ultimately show ?thesis by blast
qed

text \<open>The last object replaced by one with a longer text.\<close>

lemma replace_tail:
  assumes ok: "net_ok env ext cont (st, c) (us @ [Some u])" and r: "c_reply c = as @ [cur]"
    and k: "keeps (set as) st st'" "keeps {a. 0 < ext a} st st'" and a: "objs st' a = Some ob'" "reply_text ob' (Some (u @ x))"
    and refs: "refs_ok ext st' (as @ [a])"
    and bytes: "n = c_reply_bytes c - mem_at env st cur + obj_mem env ob'"
  shows "net_ok env ext cont (st', c\<lparr>c_reply := as @ [a], c_reply_bytes := n\<rparr>) (us @ [Some (u @ x)])
    \<and> pending (c\<lparr>c_reply := as @ [a], c_reply_bytes := n\<rparr>) (us @ [Some (u @ x)]) = pending c (us @ [Some u]) @ x"
proof -
  have n: "texts_at st (as @ [cur]) (us @ [Some u])" "ext_ok ext cont st" "buffer_ok c (us @ [Some u])"
    "c_reply_bytes c = sum_list (map (mem_at env st) (as @ [cur]))" using ok r by (simp_all add: net_ok_def)
  have t: "texts_at st as us" using n(1) by (simp add: texts_at_append)
  have m: "mem_at env st' a = obj_mem env ob'" by (simp add: mem_at_def a(1))
  have "texts_at st' (as @ [a]) (us @ [Some (u @ x)])" using keeps_texts [OF k(1) t] a by (auto simp: texts_at_append)
  moreover have "n = sum_list (map (mem_at env st') (as @ [a]))"
    using keeps_mem [OF k(1) t, of env] n(4) bytes m by simp
  moreover have "buffer_ok c (us @ [Some (u @ x)])" by (rule buffer_tail [OF n(3)])
  moreover have "ext_ok ext cont st'" by (rule keeps_ext [OF k(2) n(2)])
  ultimately show ?thesis using refs pending_tail [OF n(3)] by (simp add: net_ok_def)
qed

text \<open>The copy of a shared last object: the old one loses a reference, the list gets one of its own.\<close>

lemma refs_dup:
  assumes refs: "refs_ok ext st (as @ [cur])" and ts: "texts_at st (as @ [cur]) us"
    and tail: "objs st cur = Some tail" "1 < refcount tail"
    and ob': "refcount ob' = 1" and old: "old = tail\<lparr>refcount := refcount tail - 1\<rparr>"
    and st': "objs st' = (objs st)(next_obj st \<mapsto> ob', cur \<mapsto> old)" "next_obj st' = Suc (next_obj st)"
  shows "refs_ok ext st' (as @ [next_obj st])"
proof -
  define a where "a = next_obj st"
  have free: "objs st a = None" "ext a = 0" using refs by (simp_all add: refs_ok_def a_def)
  have ne: "cur \<noteq> a" using free tail(1) by auto
  have live: "refcount ob = int (ext b + count_list (as @ [cur]) b) \<and> 0 < refcount ob" if "objs st b = Some ob" for b ob
    using refs that unfolding refs_ok_def by (metis of_nat_0_less_iff)
  have rc: "refcount tail = int (ext cur + count_list as cur) + 1" using live [OF tail(1)] by simp
  have up: "objs st' b = None \<and> ext b = 0" if "Suc a \<le> b" for b
    using refs that tail(1) by (auto simp: refs_ok_def st'(1) a_def [symmetric] split: if_splits)
  have "a \<notin> set as" using texts_at_in [OF ts] free(1) by fastforce
  then have na: "count_list as a = 0" by (simp add: count_list_0_iff)
  show ?thesis
    unfolding refs_ok_def st'(2) a_def [symmetric]
  proof (intro conjI allI impI)
    fix b ob
    assume b: "objs st' b = Some ob"
    consider "b = a" | "b = cur" | "b \<noteq> a" "b \<noteq> cur" by blast
    then have "refcount ob = int (ext b + count_list (as @ [a]) b) \<and> 0 < refcount ob"
    proof cases
      case 1
      then have "ob = ob'" using b ne by (simp add: st'(1) a_def)
      then show ?thesis using 1 ob' na free(2) by simp
    next
      case 2
      then have "ob = old" using b by (simp add: st'(1))
      then show ?thesis using 2 rc tail(2) ne by (simp add: old)
    next
      case 3
      then have "objs st b = Some ob" using b by (simp add: st'(1) a_def)
      from live [OF this] show ?thesis using 3 by simp
    qed
    then show "refcount ob = int (ext b + count_list (as @ [a]) b)" "0 < ext b + count_list (as @ [a]) b" by auto
  qed (use up in blast)+
qed

lemma append_tail_shared:
  assumes ok: "net_ok env ext cont (st, c) (us @ [Some u])" and r: "c_reply c = as @ [cur]"
    and tail: "objs st cur = Some tail" "ptr tail = Sds t" "encoding tail = REDIS_ENCODING_RAW" "1 < refcount tail"
    and x: "read_bytes s 0 n = Some x" and fits: "length u + n < 2 ^ 30"
  shows "\<exists>st' c'. append_to_tail env (st, c) s n = Some (st', c') \<and> net_ok env ext cont (st', c') (us @ [Some (u @ x)])
    \<and> pending c' (us @ [Some (u @ x)]) = pending c (us @ [Some u]) @ x \<and> same_client c c' \<and> next_obj st' \<le> Suc (next_obj st)"
proof -
  define a where "a = next_obj st"
  have refs: "refs_ok ext st (as @ [cur])" and ts: "texts_at st (as @ [cur]) (us @ [Some u])"
    using ok r by (simp_all add: net_ok_def)
  have rt: "sds_repr t u" using ts tail by (auto simp: texts_at_append reply_text_def)
  have mc: "mem_at env st cur = zmalloc_size_sds env t" using tail by (simp add: mem_at_def obj_mem_def)
  have free: "objs st a = None" using refs by (simp add: refs_ok_def a_def)
  then have ne: "cur \<noteq> a" using tail(1) by auto
  have "sdslen t = length u" "read_bytes (s_buf t) 0 (length u) = Some u" using rt by (simp_all add: sds_texts)
  then obtain new where new: "dupStringObject (n_fresh env) tail = Some new" "obj_holds new u" "encoding new = REDIS_ENCODING_RAW"
    using createRawStringObject_holds [of "s_buf t" "length u" u "n_fresh env"] tail(2,3) fits
    by (auto simp: dupStringObject_def sds_of_def)
  have nrc: "refcount new = 1"
    using new(1) tail(3) by (auto simp: dupStringObject_def createRawStringObject_def createObject_def bind_eq_Some_conv)
  obtain t1 where t1: "ptr new = Sds t1" "sds_repr t1 u"
    using obj_holds_sds [OF new(2)] new(3) by (auto simp: sdsEncodedObject_def)
  obtain t' where t': "sdscatlen (n_fresh env) t1 s n = Some t'" "sds_repr t' (u @ x)"
    using sdscatlen_text [OF t1(2) x fits] by blast
  define old where "old = tail\<lparr>refcount := refcount tail - 1\<rparr>"
  define ob' where "ob' = new\<lparr>ptr := Sds t'\<rparr>"
  define st1 where "st1 = \<lparr>objs = (objs st)(a \<mapsto> new, cur \<mapsto> old), next_obj = Suc a\<rparr>"
  define st' where "st' = put_obj st1 a ob'"
  have dup: "dupLastObjectIfNeeded env (st, c) = Some ((st1, c\<lparr>c_reply := as @ [a]\<rparr>), a)"
    using tail(1,4) ne r new(1)
    by (simp add: dupLastObjectIfNeeded_def new_obj_def decrRefCount_def check_def put_obj_def a_def old_def st1_def)
  have f: "append_to_tail env (st, c) s n = Some (st', c\<lparr>c_reply := as @ [a],
      c_reply_bytes := c_reply_bytes c - zmalloc_size_sds env t + zmalloc_size_sds env t'\<rparr>)"
    using tail(1,2) r t1(1) t'(1) ne dup
    by (simp add: append_to_tail_def sds_of_def Let_def st'_def st1_def ob'_def)
  have st': "objs st' = (objs st)(a \<mapsto> ob', cur \<mapsto> old)" "next_obj st' = Suc a"
    using ne by (auto simp: st'_def st1_def put_obj_def fun_eq_iff)
  have so: "same_obj tail old" using tail(2) by (simp add: old_def)
  have k: "keeps A st st'" for A using free tail(1) ne so by (intro keeps_all) (auto simp: st')
  have "refs_ok ext st' (as @ [a])"
    unfolding a_def using refs_dup [OF refs ts tail(1,4) _ old_def st' [unfolded a_def]] nrc by (simp add: ob'_def)
  moreover have "reply_text ob' (Some (u @ x))" using t'(2) new(3) by (simp add: reply_text_def ob'_def)
  moreover have "objs st' a = Some ob'" using ne by (simp add: st')
  moreover have "obj_mem env ob' = zmalloc_size_sds env t'" using new(3) by (simp add: obj_mem_def ob'_def)
  ultimately show ?thesis using replace_tail [OF ok r k k, of a ob' x] f mc st'(2) by (simp add: a_def)
qed

lemma refs_put:
  assumes "refs_ok ext st as" and "objs st a = Some ob" "refcount ob' = refcount ob"
    and "objs st' = (objs st)(a \<mapsto> ob')" "next_obj st' = next_obj st"
  shows "refs_ok ext st' as"
  using assms unfolding refs_ok_def by auto

lemma append_tail_own:
  assumes ok: "net_ok env ext cont (st, c) (us @ [Some u])" and r: "c_reply c = as @ [cur]"
    and tail: "objs st cur = Some tail" "ptr tail = Sds t" "encoding tail = REDIS_ENCODING_RAW" "\<not> 1 < refcount tail"
    and x: "read_bytes s 0 n = Some x" and fits: "length u + n < 2 ^ 30"
  shows "\<exists>st' c'. append_to_tail env (st, c) s n = Some (st', c') \<and> net_ok env ext cont (st', c') (us @ [Some (u @ x)])
    \<and> pending c' (us @ [Some (u @ x)]) = pending c (us @ [Some u]) @ x \<and> same_client c c' \<and> next_obj st' \<le> Suc (next_obj st)"
proof -
  have refs: "refs_ok ext st (as @ [cur])" and ts: "texts_at st (as @ [cur]) (us @ [Some u])"
    using ok r by (simp_all add: net_ok_def)
  have "refcount tail = int (ext cur + count_list (as @ [cur]) cur)" using refs tail(1) unfolding refs_ok_def by blast
  then have one: "ext cur = 0" "count_list as cur = 0" using tail(4) by auto
  then have na: "cur \<notin> set as" by (simp add: count_list_0_iff)
  have rt: "sds_repr t u" using ts tail by (auto simp: texts_at_append reply_text_def)
  have mc: "mem_at env st cur = zmalloc_size_sds env t" using tail by (simp add: mem_at_def obj_mem_def)
  obtain t' where t': "sdscatlen (n_fresh env) t s n = Some t'" "sds_repr t' (u @ x)"
    using sdscatlen_text [OF rt x fits] by blast
  define ob' where "ob' = tail\<lparr>ptr := Sds t'\<rparr>"
  define st' where "st' = put_obj st cur ob'"
  have st': "objs st' = (objs st)(cur \<mapsto> ob')" "next_obj st' = next_obj st" by (simp_all add: st'_def put_obj_def)
  have c: "c\<lparr>c_reply_bytes := b\<rparr> = c\<lparr>c_reply := as @ [cur], c_reply_bytes := b\<rparr>" for b using r by (cases c) simp
  have dup: "dupLastObjectIfNeeded env (st, c) = Some ((st, c), cur)"
    using tail(1,4) r by (simp add: dupLastObjectIfNeeded_def check_def)
  have f: "append_to_tail env (st, c) s n = Some (st', c\<lparr>c_reply := as @ [cur],
      c_reply_bytes := c_reply_bytes c - zmalloc_size_sds env t + zmalloc_size_sds env t'\<rparr>)"
    unfolding c [symmetric] using tail(1,2) r t'(1) dup
    by (simp add: append_to_tail_def sds_of_def Let_def st'_def ob'_def)
  have k: "keeps (set as) st st'" "keeps {a. 0 < ext a} st st'"
    using na one by (auto simp: keeps_def st')
  have "refs_ok ext st' (as @ [cur])" using refs_put [OF refs tail(1) _ st'] by (simp add: ob'_def)
  moreover have "reply_text ob' (Some (u @ x))" using t'(2) tail(3) by (simp add: reply_text_def ob'_def)
  moreover have "objs st' cur = Some ob'" by (simp add: st')
  moreover have "obj_mem env ob' = zmalloc_size_sds env t'" using tail(3) by (simp add: obj_mem_def ob'_def)
  ultimately show ?thesis using replace_tail [OF ok r k, of cur ob' x] f mc st'(2) by simp
qed

lemmas append_tail_ok = append_tail_shared append_tail_own

subsection \<open>Adding to the list and to the buffer\<close>

definition grows :: "net_env \<Rightarrow> (nat \<Rightarrow> nat) \<Rightarrow> (nat \<Rightarrow> byte list option) \<Rightarrow> client \<Rightarrow> byte list option list \<Rightarrow> nat
    \<Rightarrow> byte list \<Rightarrow> net option \<Rightarrow> bool" where
  "grows env ext cont c ts k x r \<longleftrightarrow> (\<exists>st' c' ts'. r = Some (st', c') \<and> net_ok env ext cont (st', c') ts'
     \<and> length ts' \<le> length ts + k \<and> held ts' = held ts \<and> same_client c c' \<and> pending c' ts' = pending c ts @ x)"

lemma growsI:
  "r = Some (st', c') \<Longrightarrow> net_ok env ext cont (st', c') ts' \<Longrightarrow> length ts' \<le> length ts + k \<Longrightarrow> held ts' = held ts \<Longrightarrow> same_client c c'
    \<Longrightarrow> pending c' ts' = pending c ts @ x \<Longrightarrow> grows env ext cont c ts k x r"
  unfolding grows_def by blast

lemma grows_close:
  assumes "grows env ext cont c ts k x r" and "env_ok env" and "length ts + k \<le> MAX_NODES"
  shows "grows env ext cont c ts k x (r \<bind> close_if_over env)"
proof -
  obtain st' c' ts' where r: "r = Some (st', c')" "net_ok env ext cont (st', c') ts'" "length ts' \<le> length ts + k"
    "held ts' = held ts" "same_client c c'" "pending c' ts' = pending c ts @ x" using assms(1) unfolding grows_def by blast
  then have "length ts' \<le> MAX_NODES" using assms(3) by simp
  from close_if_over_ok [OF assms(2) r(2) this] obtain c2 where c2: "close_if_over env (st', c') = Some (st', c2)"
    "net_ok env ext cont (st', c2) ts'" "pending c2 ts' = pending c' ts'" "same_client c' c2" by blast
  show ?thesis
    by (rule growsI [OF _ c2(2) r(3,4)]) (use r c2 in \<open>auto intro: same_client_trans\<close>)
qed

lemma grows_weaken:
  assumes "grows env ext cont c ts k x r" and "k \<le> k'"
  shows "grows env ext cont c ts k' x r"
proof -
  obtain st' c' ts' where r: "r = Some (st', c')" "net_ok env ext cont (st', c') ts'" "length ts' \<le> length ts + k"
    "held ts' = held ts" "same_client c c'" "pending c' ts' = pending c ts @ x" using assms(1) unfolding grows_def by blast
  from r(3) assms(2) have "length ts' \<le> length ts + k'" by simp
  from growsI [OF r(1,2) this r(4-6)] show ?thesis .
qed

text \<open>The last object is there, and takes the bytes if it says so.\<close>

lemma tail_step:
  assumes ok: "net_ok env ext cont (st, c) ts" and ne: "c_reply c \<noteq> []" and x: "read_bytes s 0 n = Some x"
  shows "\<exists>tail. objs st (last (c_reply c)) = Some tail \<and> (tail_takes tail n = Some False
    \<or> tail_takes tail n = Some True \<and> grows env ext cont c ts 0 x (append_to_tail env (st, c) s n))"
proof -
  obtain as cur where r: "c_reply c = as @ [cur]" using ne by (metis append_butlast_last_id)
  have ts: "texts_at st (as @ [cur]) ts" using ok r by (simp add: net_ok_def)
  then have "ts \<noteq> []" using texts_at_length [OF ts] by auto
  then obtain us v where v: "ts = us @ [v]" by (metis append_butlast_last_id)
  obtain tail where tail: "objs st cur = Some tail" "reply_text tail v" using ts v by (auto simp: texts_at_append)
  show ?thesis
  proof (cases "ptr tail = Long 0 \<or> encoding tail \<noteq> REDIS_ENCODING_RAW")
    case True
    then show ?thesis using tail r by (auto simp: tail_takes_def)
  next
    case False
    then obtain t u where t: "ptr tail = Sds t" "sds_repr t u" "encoding tail = REDIS_ENCODING_RAW" and u: "ts = us @ [Some u]"
      using tail(2) v by (cases v) auto
    have l: "sdslen t = length u" using t(2) by (simp add: sds_texts)
    have tk: "tail_takes tail n = Some (length u + n \<le> REDIS_REPLY_CHUNK_BYTES)" using t l by (simp add: tail_takes_def sds_of_def)
    show ?thesis
    proof (cases "length u + n \<le> REDIS_REPLY_CHUNK_BYTES")
      case True
      then have fits: "length u + n < 2 ^ 30" by (simp add: REDIS_REPLY_CHUNK_BYTES_def)
      note app = append_tail_ok [OF ok [unfolded u] r tail(1) t(1,3) _ x fits]
      from app obtain st' c' where a: "append_to_tail env (st, c) s n = Some (st', c')" "net_ok env ext cont (st', c') (us @ [Some (u @ x)])"
        "pending c' (us @ [Some (u @ x)]) = pending c (us @ [Some u]) @ x" "same_client c c'" by blast
      have "grows env ext cont c ts 0 x (append_to_tail env (st, c) s n)"
        by (rule growsI [OF a(1,2) _ _ a(4)]) (use a(3) u in auto)
      then show ?thesis using tk True tail r by simp
    qed (use tk tail r in simp)
  qed
qed

lemma glue_step:
  assumes env: "env_ok env" and ok: "net_ok env ext cont (st, c) ts" and x: "read_bytes s 0 n = Some x"
    and room: "length ts + 1 \<le> MAX_NODES" and p: "grows env ext cont c ts 1 x p"
  shows "grows env ext cont c ts 1 x (do {
       glue \<leftarrow> (if c_reply c = [] then Some False
               else do { tail \<leftarrow> objs st (last (c_reply c)); tail_takes tail n });
       m \<leftarrow> (if glue then append_to_tail env (st, c) s n else p);
       close_if_over env m })"
proof (cases "c_reply c = []")
  case True
  then show ?thesis using grows_close [OF p env room] by simp
next
  case False
  obtain tail where tail: "objs st (last (c_reply c)) = Some tail" "tail_takes tail n = Some False
    \<or> tail_takes tail n = Some True \<and> grows env ext cont c ts 0 x (append_to_tail env (st, c) s n)"
    using tail_step [OF ok False x] by blast
  from tail(2) show ?thesis
  proof
    assume "tail_takes tail n = Some False"
    then show ?thesis using grows_close [OF p env room] tail(1) False by simp
  next
    assume t: "tail_takes tail n = Some True \<and> grows env ext cont c ts 0 x (append_to_tail env (st, c) s n)"
    then have "grows env ext cont c ts 1 x (append_to_tail env (st, c) s n)" using grows_weaken by blast
    then show ?thesis using grows_close [OF _ env room] tail(1) False t by simp
  qed
qed

lemma createStringObject_refcount: "createStringObject fresh s n = Some ob \<Longrightarrow> refcount ob = 1"
  by (auto simp: createStringObject_def createRawStringObject_def createEmbeddedStringObject_def createObject_def
      bind_eq_Some_conv split: if_splits)

lemma string_obj:
  assumes "read_bytes s 0 n = Some x" and "n + 1 < 2 ^ 31"
  shows "\<exists>ob. createStringObject fresh s n = Some ob \<and> reply_text ob (Some x) \<and> refcount ob = 1"
proof -
  obtain ob where ob: "createStringObject fresh s n = Some ob" "obj_holds ob x" "encoding ob \<noteq> REDIS_ENCODING_INT"
    using createStringObject_holds [OF assms] by blast
  have "refcount ob = 1" by (rule createStringObject_refcount [OF ob(1)])
  then show ?thesis using ob by (auto simp: reply_text_def obj_holds_def split: obj_ptr.splits)
qed

lemma push_new_grows:
  assumes "net_ok env ext cont (st, c) ts" and "reply_text ob (Some x)" "refcount ob = 1"
  shows "grows env ext cont c ts 1 x (let (st, a) = new_obj st ob in push_object env (st, c) a)"
proof -
  obtain st' c' where p: "(let (st, a) = new_obj st ob in push_object env (st, c) a) = Some (st', c')"
    "net_ok env ext cont (st', c') (ts @ [Some x])" "pending c' (ts @ [Some x]) = pending c ts @ x" "same_client c c'"
    using push_new [OF assms] by blast
  show ?thesis by (rule growsI [OF p(1,2) _ _ p(4,3)]) simp_all
qed

lemma addReplyStringToList_grows:
  assumes env: "env_ok env" and ok: "net_ok env ext cont (st, c) ts" and live: "\<not> c_close_after_reply c"
    and x: "read_bytes s 0 n = Some x" "n + 1 < 2 ^ 31" and room: "length ts + 1 \<le> MAX_NODES"
  shows "grows env ext cont c ts 1 x (addReplyStringToList env (st, c) s n)"
proof -
  obtain ob where ob: "createStringObject (n_fresh env) s n = Some ob" "reply_text ob (Some x)" "refcount ob = 1"
    using string_obj [OF x] by blast
  have "grows env ext cont c ts 1 x (do { ob \<leftarrow> createStringObject (n_fresh env) s n;
      let (st, a) = new_obj st ob; push_object env (st, c) a })"
    unfolding ob(1) bind.bind_lunit by (rule push_new_grows [OF ok ob(2,3)])
  from glue_step [OF env ok x(1) room this] show ?thesis
    by (simp only: addReplyStringToList_def prod.case live if_False)
qed

lemma addReplySdsToList_grows:
  assumes env: "env_ok env" and ok: "net_ok env ext cont (st, c) ts" and live: "\<not> c_close_after_reply c"
    and x: "sds_repr s x" and room: "length ts + 1 \<le> MAX_NODES"
  shows "grows env ext cont c ts 1 x (addReplySdsToList env (st, c) s)"
proof -
  have ob: "reply_text (createObject (Sds s)) (Some x)" "refcount (createObject (Sds s)) = 1"
    using x by (simp_all add: createObject_def reply_text_def)
  have rd: "read_bytes (s_buf s) 0 (sdslen s) = Some x" using x by (simp add: sds_texts)
  show ?thesis
    using glue_step [OF env ok rd room push_new_grows [OF ok ob]] live by (simp add: addReplySdsToList_def)
qed

lemma addReplyObjectToList_grows:
  assumes env: "env_ok env" and ok: "net_ok env ext cont (st, c) ts" and live: "\<not> c_close_after_reply c"
    and x: "cont a = Some x" "objs st a = Some ob" "sdsEncodedObject ob" and room: "length ts + 1 \<le> MAX_NODES"
  shows "grows env ext cont c ts 1 x (addReplyObjectToList env (st, c) a)"
proof -
  have "obj_holds ob x" using ok x(1,2) by (fastforce simp: net_ok_def ext_ok_def)
  then obtain s where s: "ptr ob = Sds s" "sds_repr s x" using obj_holds_sds x(3) by blast
  have rd: "read_bytes (s_buf s) 0 (sdslen s) = Some x" using s(2) by (simp add: sds_texts)
  obtain st' c' where p: "do { st \<leftarrow> incrRefCount st a; push_object env (st, c) a } = Some (st', c')"
    "net_ok env ext cont (st', c') (ts @ [Some x])" "pending c' (ts @ [Some x]) = pending c ts @ x" "same_client c c'"
    using push_existing [OF ok x] by blast
  have "grows env ext cont c ts 1 x (do { st \<leftarrow> incrRefCount st a; push_object env (st, c) a })"
    by (rule growsI [OF p(1,2) _ _ p(4,3)]) simp_all
  moreover have "sds_of ob = Some s" using s(1) by (simp add: sds_of_def)
  ultimately show ?thesis
    using glue_step [OF env ok rd room] by (simp only: addReplyObjectToList_def prod.case live if_False x(2) bind.bind_lunit)
qed

text \<open>The buffer takes the bytes, or nothing has changed.\<close>

lemma buffer_step:
  assumes ok: "net_ok env ext cont (st, c) ts" and live: "\<not> c_close_after_reply c" and x: "read_bytes s 0 n = Some x"
  shows "addReplyToBuffer c s n = Some (c, False)
    \<or> (\<exists>c'. addReplyToBuffer c s n = Some (c', True) \<and> grows env ext cont c ts 0 x (Some (st, c')))"
proof (cases "c_reply c = [] \<and> n \<le> length (c_buf c) - c_bufpos c")
  case False
  then show ?thesis using live by (auto simp: addReplyToBuffer_def)
next
  case True
  have b: "length (c_buf c) = REDIS_REPLY_CHUNK_BYTES" "c_bufpos c \<le> REDIS_REPLY_CHUNK_BYTES" and ts: "ts = []"
    using ok True by (auto simp: net_ok_def buffer_ok_def texts_at_def)
  have sent: "c_sentlen c \<le> c_bufpos c" using ok ts by (auto simp: net_ok_def buffer_ok_def split: if_splits)
  have lx: "length x = n" using x by (auto simp: read_bytes_def split: if_splits)
  have fit: "c_bufpos c + n \<le> REDIS_REPLY_CHUNK_BYTES" using True b by arith
  define buf where "buf = take (c_bufpos c) (c_buf c) @ x @ drop (c_bufpos c + n) (c_buf c)"
  define c' where "c' = c\<lparr>c_buf := buf, c_bufpos := c_bufpos c + n\<rparr>"
  have a: "addReplyToBuffer c s n = Some (c', True)"
    using True live x lx b fit by (simp add: addReplyToBuffer_def write_bytes_def c'_def buf_def)
  have "net_ok env ext cont (st, c') []"
    using ok ts b True lx sent by (auto simp: net_ok_def buffer_ok_def c'_def buf_def)
  moreover have "take (c_bufpos c + n) buf = take (c_bufpos c) (c_buf c) @ x" using b lx by (simp add: buf_def)
  then have "pending c' [] = pending c ts @ x" using sent ts b lx by (auto simp: pending_def c'_def)
  moreover have "same_client c c'" using True by (simp add: same_client_def c'_def)
  ultimately show ?thesis using a ts growsI [of "Some (st, c')"] by auto
qed

lemma add_encoded_grows:
  assumes env: "env_ok env" and ok: "net_ok env ext cont (st, c) ts" and live: "\<not> c_close_after_reply c"
    and x: "cont a = Some x" "objs st a = Some ob" "sdsEncodedObject ob" and room: "length ts + 1 \<le> MAX_NODES"
  shows "grows env ext cont c ts 1 x (add_encoded env (st, c) a)"
proof -
  have "obj_holds ob x" using ok x(1,2) by (fastforce simp: net_ok_def ext_ok_def)
  then obtain s where s: "sds_of ob = Some s" "sds_repr s x" using obj_holds_sds x(3) by (fastforce simp: sds_of_def)
  have rd: "read_bytes (s_buf s) 0 (sdslen s) = Some x" using s(2) by (simp add: sds_texts)
  from buffer_step [OF ok live rd] show ?thesis
  proof
    assume "addReplyToBuffer c (s_buf s) (sdslen s) = Some (c, False)"
    then show ?thesis using addReplyObjectToList_grows [OF assms] x(2) s(1) by (simp add: add_encoded_def)
  next
    assume "\<exists>c'. addReplyToBuffer c (s_buf s) (sdslen s) = Some (c', True) \<and> grows env ext cont c ts 0 x (Some (st, c'))"
    then show ?thesis using x(2) s(1) by (auto simp: add_encoded_def intro: grows_weaken)
  qed
qed

text \<open>An object of the caller's own: it is in the store for a while, and its reference goes away again.\<close>

lemma own_object:
  assumes ok: "net_ok env ext cont (st, c) ts" and ob: "obj_holds ob x" "refcount ob = 1" and a: "a = next_obj st"
    and st': "objs st' = (objs st)(a \<mapsto> ob)" "next_obj st' = Suc a"
  shows "net_ok env (ext(a := 1)) (cont(a \<mapsto> x)) (st', c) ts \<and> ext a = 0 \<and> cont a = None"
proof -
  have n: "texts_at st (c_reply c) ts" "refs_ok ext st (c_reply c)" "ext_ok ext cont st" "buffer_ok c ts"
    "c_reply_bytes c = sum_list (map (mem_at env st) (c_reply c))" using ok by (simp_all add: net_ok_def)
  have free: "objs st a = None" "ext a = 0" using n(2) by (simp_all add: refs_ok_def a)
  have k: "keeps A st st'" for A using free by (intro keeps_all) (auto simp: st')
  have "a \<notin> set (c_reply c)" using texts_at_in [OF n(1)] free(1) by fastforce
  then have na: "count_list (c_reply c) a = 0" by (simp add: count_list_0_iff)
  have "refs_ok (ext(a := 1)) st' (c_reply c)"
    using n(2) ob(2) na unfolding refs_ok_def st' a by (auto split: if_splits)
  moreover have "ext_ok (ext(a := 1)) (cont(a \<mapsto> x)) st'" using n(3) ob(1) unfolding ext_ok_def st' by (auto split: if_splits)
  moreover have "cont a = None" using n(3) free by (auto simp: ext_ok_def dest: spec [where x = a])
  ultimately show ?thesis
    using keeps_texts [OF k n(1)] keeps_mem [OF k n(1), of env] n(4,5) free by (simp add: net_ok_def)
qed

lemma drop_object:
  assumes ok: "net_ok env (ext(a := 1)) (cont(a \<mapsto> x)) (st, c) ts" and a: "ext a = 0" "cont a = None"
  shows "\<exists>st'. decrRefCount st a = Some st' \<and> net_ok env ext cont (st', c) ts"
proof -
  have n: "texts_at st (c_reply c) ts" "refs_ok (ext(a := 1)) st (c_reply c)" "ext_ok (ext(a := 1)) (cont(a \<mapsto> x)) st" "buffer_ok c ts"
    "c_reply_bytes c = sum_list (map (mem_at env st) (c_reply c))" using ok by (simp_all add: net_ok_def)
  have "(cont(a \<mapsto> x)) a = Some x" by simp
  then obtain ob where ob: "objs st a = Some ob" using n(3) unfolding ext_ok_def by blast
  have rc: "refcount ob = 1 + int (count_list (c_reply c) a)" using n(2) ob unfolding refs_ok_def by fastforce
  define st' where "st' = (if refcount ob = 1 then st\<lparr>objs := (objs st)(a := None)\<rparr>
    else put_obj st a (ob\<lparr>refcount := refcount ob - 1\<rparr>))"
  have d: "decrRefCount st a = Some st'" using ob rc by (simp add: decrRefCount_def check_def st'_def)
  have nx: "next_obj st' = next_obj st" by (simp add: st'_def put_obj_def)
  have other: "objs st' b = objs st b" if "b \<noteq> a" for b using that by (simp add: st'_def put_obj_def)
  have at: "a \<in> set (c_reply c) \<Longrightarrow> objs st' a = Some (ob\<lparr>refcount := refcount ob - 1\<rparr>)"
    "a \<notin> set (c_reply c) \<Longrightarrow> objs st' a = None"
    using rc by (auto simp: st'_def put_obj_def count_list_0_iff)
  have k: "keeps (set (c_reply c)) st st'"
    unfolding keeps_def
  proof (intro ballI allI impI)
    fix b ob1
    assume b: "b \<in> set (c_reply c)" "objs st b = Some ob1"
    show "\<exists>ob'. objs st' b = Some ob' \<and> same_obj ob1 ob'"
    proof (cases "b = a")
      case True
      then obtain t where t: "reply_text ob t" using texts_at_in [OF n(1) b(1)] ob by auto
      have "0 < count_list (c_reply c) a" using b(1) True by (metis count_list_0_iff neq0_conv)
      then have "ptr ob \<noteq> Long 0" using t rc by (cases t) auto
      then show ?thesis using True at(1) b ob by auto
    qed (use b other in auto)
  qed
  have "ext_ok ext cont st'"
    unfolding ext_ok_def
  proof (intro allI impI)
    fix b t
    assume "cont b = Some t"
    moreover from this have "b \<noteq> a" using a(2) by auto
    ultimately show "0 < ext b \<and> (\<exists>ob. objs st' b = Some ob \<and> obj_holds ob t)"
      using n(3) other by (auto simp: ext_ok_def dest: spec [where x = b])
  qed
  moreover have "refs_ok ext st' (c_reply c)"
    unfolding refs_ok_def
  proof (intro conjI allI impI)
    fix b ob'
    assume b: "objs st' b = Some ob'"
    have "refcount ob' = int (ext b + count_list (c_reply c) b) \<and> 0 < ext b + count_list (c_reply c) b"
    proof (cases "b = a")
      case True
      then have m: "a \<in> set (c_reply c)" using b at(2) by auto
      then have "0 < count_list (c_reply c) a" by (metis count_list_0_iff neq0_conv)
      then show ?thesis using True b at(1) [OF m] rc a(1) by auto
    next
      case False
      then have "objs st b = Some ob'" "(ext(a := 1)) b = ext b" using b other by simp_all
      then show ?thesis using n(2) unfolding refs_ok_def by metis
    qed
    then show "refcount ob' = int (ext b + count_list (c_reply c) b)" "0 < ext b + count_list (c_reply c) b" by auto
  next
    fix b assume b: "next_obj st' \<le> b"
    then have "b \<noteq> a" using n(2) nx ob by (auto simp: refs_ok_def)
    then show "objs st' b = None" "ext b = 0" using b n(2) nx other by (auto simp: refs_ok_def)
  qed
  ultimately show ?thesis
    using d keeps_texts [OF k n(1)] keeps_mem [OF k n(1), of env] n(4,5) by (simp add: net_ok_def)
qed

end
