(* ===== verification/Client_Replies.thy ===== *)
theory Client_Replies
  imports Client_Buffers Rio
begin

text \<open>
  Every \<open>addReply...\<close> function adds exactly the bytes of its reply to the pending output of the client,
  or nothing when the client takes no replies. \<open>adds\<close> states this for one operation and is closed under
  sequences, so that the reply of a composed function is the concatenation of its parts. Under \<open>op\<close> it
  speaks of clients only that are not about to be closed.
\<close>

text \<open>A client with pending output has its write handler installed, where one is installed at all.\<close>

definition handler_ok :: "client \<Rightarrow> bool" where
  "handler_ok c \<longleftrightarrow> c_lua c \<or> \<not> (c_replstate c = REDIS_REPL_NONE \<or> c_replstate c = REDIS_REPL_ONLINE)
     \<or> c_bufpos c = 0 \<and> c_reply c = [] \<or> c_handler c"

definition adds :: "net_env \<Rightarrow> (nat \<Rightarrow> nat) \<Rightarrow> (nat \<Rightarrow> byte list option) \<Rightarrow> bool \<Rightarrow> nat \<Rightarrow> (net \<Rightarrow> net option) \<Rightarrow> byte list \<Rightarrow> bool" where
  "adds env ext cont op k f x \<longleftrightarrow>
     (\<forall>st c ts. net_ok env ext cont (st, c) ts \<longrightarrow> handler_ok c \<longrightarrow> length ts + k \<le> MAX_NODES \<longrightarrow> (op \<longrightarrow> \<not> c_close_after_reply c) \<longrightarrow>
        grows env ext cont c ts k (if takes_reply c then x else []) (f (st, c))
        \<and> (\<forall>st' c'. f (st, c) = Some (st', c') \<longrightarrow> handler_ok c'))"

named_theorems reply_adds

lemma addsD:
  assumes "adds env ext cont op k f x" and "net_ok env ext cont (st, c) ts" "handler_ok c" "length ts + k \<le> MAX_NODES"
    "op \<longrightarrow> \<not> c_close_after_reply c"
  shows "\<exists>st' c' ts'. f (st, c) = Some (st', c') \<and> net_ok env ext cont (st', c') ts' \<and> length ts' \<le> length ts + k
    \<and> held ts' = held ts \<and> same_client c c' \<and> pending c' ts' = pending c ts @ (if takes_reply c then x else []) \<and> handler_ok c'"
proof -
  from assms have "grows env ext cont c ts k (if takes_reply c then x else []) (f (st, c))"
    and h: "\<forall>st' c'. f (st, c) = Some (st', c') \<longrightarrow> handler_ok c'" unfolding adds_def by blast+
  then show ?thesis unfolding grows_def by blast
qed

lemma addsI:
  assumes "\<And>st c ts. net_ok env ext cont (st, c) ts \<Longrightarrow> handler_ok c \<Longrightarrow> length ts + k \<le> MAX_NODES \<Longrightarrow>
    (op \<longrightarrow> \<not> c_close_after_reply c) \<Longrightarrow> \<exists>st' c' ts'. f (st, c) = Some (st', c') \<and> net_ok env ext cont (st', c') ts' \<and> length ts' \<le> length ts + k
    \<and> held ts' = held ts \<and> same_client c c' \<and> pending c' ts' = pending c ts @ (if takes_reply c then x else []) \<and> handler_ok c'"
  shows "adds env ext cont op k f x"
  unfolding adds_def
proof (intro allI impI)
  fix st c ts
  assume "net_ok env ext cont (st, c) ts" "handler_ok c" "length ts + k \<le> MAX_NODES" "op \<longrightarrow> \<not> c_close_after_reply c"
  from assms [OF this] obtain st' c' ts' where f: "f (st, c) = Some (st', c')" and r: "net_ok env ext cont (st', c') ts'"
    "length ts' \<le> length ts + k" "held ts' = held ts" "same_client c c'"
    "pending c' ts' = pending c ts @ (if takes_reply c then x else [])" and h: "handler_ok c'" by blast
  show "grows env ext cont c ts k (if takes_reply c then x else []) (f (st, c))
      \<and> (\<forall>st' c'. f (st, c) = Some (st', c') \<longrightarrow> handler_ok c')"
    using growsI [OF f r] f h by simp
qed

lemma adds_seq:
  assumes f: "adds env ext cont op k f x" and g: "adds env ext cont op l g y"
  shows "adds env ext cont op (k + l) (\<lambda>n. f n \<bind> g) (x @ y)"
proof (rule addsI)
  fix st c ts
  assume n: "net_ok env ext cont (st, c) ts" "handler_ok c" "length ts + (k + l) \<le> MAX_NODES" "op \<longrightarrow> \<not> c_close_after_reply c"
  then have "length ts + k \<le> MAX_NODES" by simp
  from addsD [OF f n(1,2) this n(4)] obtain s1 c1 t1 where 1: "f (st, c) = Some (s1, c1)" "net_ok env ext cont (s1, c1) t1"
    "length t1 \<le> length ts + k" "held t1 = held ts" "same_client c c1"
    "pending c1 t1 = pending c ts @ (if takes_reply c then x else [])" "handler_ok c1" by blast
  then have "length t1 + l \<le> MAX_NODES" "op \<longrightarrow> \<not> c_close_after_reply c1" using n(3,4) by (simp_all add: same_client_def)
  from addsD [OF g 1(2,7) this] obtain s2 c2 t2 where 2: "g (s1, c1) = Some (s2, c2)" "net_ok env ext cont (s2, c2) t2"
    "length t2 \<le> length t1 + l" "held t2 = held t1" "same_client c1 c2"
    "pending c2 t2 = pending c1 t1 @ (if takes_reply c1 then y else [])" "handler_ok c2" by blast
  have "(f (st, c) \<bind> g) = Some (s2, c2)" "same_client c c2" "held t2 = held ts" "length t2 \<le> length ts + (k + l)"
    using 1(1,3,4) 2(1,3,4) same_client_trans [OF 1(5) 2(5)] by simp_all
  moreover have "pending c2 t2 = pending c ts @ (if takes_reply c then x @ y else [])"
    using 1(6) 2(6) same_client_takes [OF 1(5)] by simp
  ultimately show "\<exists>st' c' ts'. (f (st, c) \<bind> g) = Some (st', c') \<and> net_ok env ext cont (st', c') ts'
    \<and> length ts' \<le> length ts + (k + l) \<and> held ts' = held ts \<and> same_client c c'
    \<and> pending c' ts' = pending c ts @ (if takes_reply c then x @ y else []) \<and> handler_ok c'"
    using 2(2,7) by blast
qed

text \<open>What comes after \<open>prepareClientToWrite\<close>, on a client that can write.\<close>

lemma prepare_handler:
  assumes "el_accepts env" and "handler_ok c" and "prepareClientToWrite env c = (c1, ok)"
  shows "if ok then c_lua c1 \<or> \<not> (c_replstate c1 = REDIS_REPL_NONE \<or> c_replstate c1 = REDIS_REPL_ONLINE) \<or> c_handler c1
    else c1 = c"
  using assms by (auto simp: prepareClientToWrite_def handler_ok_def split: if_splits)

lemma prepared_adds:
  assumes env: "env_ok env"
    and f: "\<And>st c. f (st, c) = (let (c, ok) = prepareClientToWrite env c in if \<not> ok then Some (st, c) else g (st, c))"
    and g: "\<And>st c ts. net_ok env ext cont (st, c) ts \<Longrightarrow> length ts + 1 \<le> MAX_NODES \<Longrightarrow>
      grows env ext cont c ts 1 (if c_close_after_reply c then [] else x) (g (st, c))"
  shows "adds env ext cont op 1 f x"
proof (rule addsI)
  fix st c ts
  assume n: "net_ok env ext cont (st, c) ts" "handler_ok c" "length ts + 1 \<le> MAX_NODES"
  have el: "el_accepts env" using env by (simp add: env_ok_def)
  obtain c1 where c1: "prepareClientToWrite env c = (c1, can_write c)" "same_client c c1" "c_buf c1 = c_buf c"
    "c_bufpos c1 = c_bufpos c" "c_sentlen c1 = c_sentlen c" "c_reply c1 = c_reply c" "c_reply_bytes c1 = c_reply_bytes c"
    using prepare_iff [OF el] by blast
  note n1 = net_ok_client [OF n(1) c1(3-7)]
  note h = prepare_handler [OF el n(2) c1(1)]
  show "\<exists>st' c' ts'. f (st, c) = Some (st', c') \<and> net_ok env ext cont (st', c') ts' \<and> length ts' \<le> length ts + 1
    \<and> held ts' = held ts \<and> same_client c c' \<and> pending c' ts' = pending c ts @ (if takes_reply c then x else []) \<and> handler_ok c'"
  proof (cases "can_write c")
    case False
    then have "f (st, c) = Some (st, c)" "\<not> takes_reply c" using f c1(1) h by (simp_all add: takes_reply_def)
    then show ?thesis using n by auto
  next
    case True
    have cl: "takes_reply c \<longleftrightarrow> \<not> c_close_after_reply c1" using True c1(2) by (simp add: takes_reply_def same_client_def)
    have gr: "grows env ext cont c1 ts 1 (if c_close_after_reply c1 then [] else x) (g (st, c1))" using g n1 n(3) by blast
    obtain st2 c2 t2 where 2: "g (st, c1) = Some (st2, c2)" "net_ok env ext cont (st2, c2) t2" "length t2 \<le> length ts + 1"
      "held t2 = held ts" "same_client c1 c2" "pending c2 t2 = pending c1 ts @ (if c_close_after_reply c1 then [] else x)"
      using gr unfolding grows_def by blast
    have "f (st, c) = Some (st2, c2)" using True f c1(1) 2(1) by simp
    moreover have "handler_ok c2" using h True 2(5) by (auto simp: handler_ok_def same_client_def)
    moreover have "pending c2 t2 = pending c ts @ (if takes_reply c then x else [])" using 2(6) n1 cl by simp
    ultimately show ?thesis using 2(2-4) same_client_trans [OF c1(2) 2(5)] by blast
  qed
qed

text \<open>A client that is about to be closed takes the bytes and forgets them.\<close>

lemma grows_closed: "net_ok env ext cont (st, c) ts \<Longrightarrow> r = Some (st, c) \<Longrightarrow> grows env ext cont c ts k [] r"
  by (rule growsI) auto

lemma addReplyString_adds [reply_adds]:
  assumes env: "env_ok env" and x: "read_bytes s 0 n = Some x" "n + 1 < 2 ^ 31"
  shows "adds env ext cont op 1 (\<lambda>m. addReplyString env m s n) x"
proof (rule prepared_adds [OF env, where g = "\<lambda>(st, c). do { (c, ok) \<leftarrow> addReplyToBuffer c s n;
    if ok then Some (st, c) else addReplyStringToList env (st, c) s n }"])
  fix st c ts
  assume n: "net_ok env ext cont (st, c) ts" "length ts + 1 \<le> MAX_NODES"
  show "grows env ext cont c ts 1 (if c_close_after_reply c then [] else x) ((\<lambda>(st, c). do { (c, ok) \<leftarrow> addReplyToBuffer c s n;
    if ok then Some (st, c) else addReplyStringToList env (st, c) s n }) (st, c))"
  proof (cases "c_close_after_reply c")
    case True
    then show ?thesis using n(1) by (simp add: addReplyToBuffer_def grows_closed)
  next
    case False
    from buffer_step [OF n(1) False x(1)] addReplyStringToList_grows [OF env n(1) False x n(2)]
    show ?thesis using False by (auto intro: grows_weaken)
  qed
qed (unfold addReplyString_def prod.case, rule refl)

lemma addReplySds_adds [reply_adds]:
  assumes env: "env_ok env" and x: "sds_repr s x"
  shows "adds env ext cont op 1 (\<lambda>m. addReplySds env m s) x"
proof (rule prepared_adds [OF env, where g = "\<lambda>(st, c). do { (c, ok) \<leftarrow> addReplyToBuffer c (s_buf s) (sdslen s);
    if ok then Some (st, c) else addReplySdsToList env (st, c) s }"])
  fix st c ts
  assume n: "net_ok env ext cont (st, c) ts" "length ts + 1 \<le> MAX_NODES"
  have rd: "read_bytes (s_buf s) 0 (sdslen s) = Some x" using x by (simp add: sds_texts)
  show "grows env ext cont c ts 1 (if c_close_after_reply c then [] else x) ((\<lambda>(st, c). do {
    (c, ok) \<leftarrow> addReplyToBuffer c (s_buf s) (sdslen s);
    if ok then Some (st, c) else addReplySdsToList env (st, c) s }) (st, c))"
  proof (cases "c_close_after_reply c")
    case True
    then show ?thesis using n(1) by (simp add: addReplyToBuffer_def grows_closed)
  next
    case False
    from buffer_step [OF n(1) False rd] addReplySdsToList_grows [OF env n(1) False x n(2)]
    show ?thesis using False by (auto intro: grows_weaken)
  qed
qed (unfold addReplySds_def prod.case, rule refl)

text \<open>An object: its text, in any encoding.\<close>

lemma add_encoded_any:
  assumes env: "env_ok env" and ok: "net_ok env ext cont (st, c) ts"
    and x: "cont a = Some x" "objs st a = Some ob" "sdsEncodedObject ob" and room: "length ts + 1 \<le> MAX_NODES"
  shows "grows env ext cont c ts 1 (if c_close_after_reply c then [] else x) (add_encoded env (st, c) a)"
proof (cases "c_close_after_reply c")
  case False
  then show ?thesis using add_encoded_grows [OF env ok False x room] by simp
next
  case True
  have "obj_holds ob x" using ok x(1,2) by (fastforce simp: net_ok_def ext_ok_def)
  then obtain s where "sds_of ob = Some s" using obj_holds_sds x(3) by (fastforce simp: sds_of_def)
  then show ?thesis using True x(2) ok by (simp add: add_encoded_def addReplyToBuffer_def grows_closed)
qed

lemma add_integer:
  assumes env: "env_ok env" and ok: "net_ok env ext cont (st, c) ts" and room: "length ts + 1 \<le> MAX_NODES"
    and ob: "obj_holds ob x" "encoding ob = REDIS_ENCODING_INT"
  shows "grows env ext cont c ts 1 (if c_close_after_reply c then [] else x)
    (do { dec \<leftarrow> getDecodedObject (n_fresh env) ob; let (st, d) = new_obj st dec; (st, c) \<leftarrow> add_encoded env (st, c) d;
          st \<leftarrow> decrRefCount st d; Some (st, c) })"
proof -
  obtain v where v: "is_int64 v" "x = int_text v" using obj_holds_int [OF ob] by blast
  then have "length x + 1 < 2 ^ 31" using length_int_text [OF v(1)] by simp
  from getDecodedObject_holds [OF ob(1) this] obtain d where d: "getDecodedObject (n_fresh env) ob = Some d" "obj_holds d x" "sdsEncodedObject d"
    by blast
  have rc: "refcount d = 1" using d(1) ob(2)
    by (cases "ll2string 32 (the (long_of ob))")
      (auto simp: getDecodedObject_def sdsEncoded_iff bind_eq_Some_conv dest: createStringObject_refcount)
  define a where "a = next_obj st"
  define st1 where "st1 = st\<lparr>objs := (objs st)(a \<mapsto> d), next_obj := Suc a\<rparr>"
  have s1: "objs st1 = (objs st)(a \<mapsto> d)" "next_obj st1 = Suc a" by (simp_all add: st1_def)
  from own_object [OF ok d(2) rc a_def s1] have o1: "net_ok env (ext(a := 1)) (cont(a \<mapsto> x)) (st1, c) ts" "ext a = 0" "cont a = None"
    by blast+
  have "grows env (ext(a := 1)) (cont(a \<mapsto> x)) c ts 1 (if c_close_after_reply c then [] else x) (add_encoded env (st1, c) a)"
    by (rule add_encoded_any [OF env o1(1) _ _ d(3) room]) (simp_all add: s1)
  then obtain st2 c2 t2 where 2: "add_encoded env (st1, c) a = Some (st2, c2)" "net_ok env (ext(a := 1)) (cont(a \<mapsto> x)) (st2, c2) t2"
    and r: "length t2 \<le> length ts + 1" "held t2 = held ts" "same_client c c2" "pending c2 t2 = pending c ts @ (if c_close_after_reply c then [] else x)"
    unfolding grows_def by blast
  obtain st3 where 3: "decrRefCount st2 a = Some st3" "net_ok env ext cont (st3, c2) t2" using drop_object [OF 2(2) o1(2,3)] by blast
  show ?thesis
    by (rule growsI [OF _ 3(2) r]) (use d(1) 2(1) 3(1) in \<open>simp add: new_obj_def st1_def a_def\<close>)
qed

lemma addReply_adds [reply_adds]:
  assumes env: "env_ok env" and x: "cont a = Some x"
  shows "adds env ext cont op 1 (\<lambda>m. addReply env m a) x"
proof -
  define g where "g = (\<lambda>(st, c). do { ob \<leftarrow> objs st a;
    if sdsEncodedObject ob then add_encoded env (st, c) a
    else do { v \<leftarrow> long_of ob;
      (c, ok) \<leftarrow> (if c_reply c = [] \<and> length (c_buf c) - c_bufpos c \<ge> 32
        then let (len, buf) = ll2string 32 v in addReplyToBuffer c buf len else Some (c, False));
      if ok then Some (st, c)
      else do { dec \<leftarrow> getDecodedObject (n_fresh env) ob; let (st, d) = new_obj st dec; (st, c) \<leftarrow> add_encoded env (st, c) d;
                st \<leftarrow> decrRefCount st d; Some (st, c) } } })"
  show ?thesis
  proof (rule prepared_adds [OF env, where g = g])
    show "addReply env (st, c) a = (let (c, ok) = prepareClientToWrite env c in if \<not> ok then Some (st, c) else g (st, c))" for st c
      unfolding addReply_def g_def prod.case by (rule refl)
  next
    fix st c ts
    assume n: "net_ok env ext cont (st, c) ts" "length ts + 1 \<le> MAX_NODES"
    obtain ob where ob: "objs st a = Some ob" "obj_holds ob x" using n(1) x by (fastforce simp: net_ok_def ext_ok_def)
    show "grows env ext cont c ts 1 (if c_close_after_reply c then [] else x) (g (st, c))"
    proof (cases "sdsEncodedObject ob")
      case True
      then show ?thesis using add_encoded_any [OF env n(1) x ob(1) True n(2)] ob(1) by (simp add: g_def)
    next
      case False
      then have e: "encoding ob = REDIS_ENCODING_INT" by (simp add: sdsEncoded_iff)
      obtain v where v: "ptr ob = Long v" "is_int64 v" "x = int_text v" using obj_holds_int [OF ob(2) e] by blast
      have l: "ll2string 32 v = (length x, x @ [0])" using ll2string_text [OF v(2)] v(3) by simp
      have rd: "read_bytes (x @ [0]) 0 (length x) = Some x" by (simp add: read_bytes_text)
      define rest where "rest = (\<lambda>c. do { dec \<leftarrow> getDecodedObject (n_fresh env) ob; let (st, d) = new_obj st dec;
        (st, c) \<leftarrow> add_encoded env (st, c) d; st \<leftarrow> decrRefCount st d; Some (st, c) })"
      have f: "g (st, c) = do { (c, ok) \<leftarrow> (if c_reply c = [] \<and> length (c_buf c) - c_bufpos c \<ge> 32
          then addReplyToBuffer c (x @ [0]) (length x) else Some (c, False)); if ok then Some (st, c) else rest c }"
        unfolding g_def prod.case ob(1) bind.bind_lunit rest_def using False v(1) l by (simp add: long_of_def)
      have r: "grows env ext cont c ts 1 (if c_close_after_reply c then [] else x) (rest c)"
        unfolding rest_def by (rule add_integer [OF env n ob(2) e])
      show ?thesis
      proof (cases "c_close_after_reply c")
        case True
        then show ?thesis using f r n(1) by (simp add: addReplyToBuffer_def grows_closed)
      next
        case False
        show ?thesis using f r False buffer_step [OF n(1) False rd] by (auto intro: grows_weaken)
      qed
    qed
  qed
qed

subsection \<open>Replies\<close>

text \<open>The canned replies hold their texts.\<close>

definition shared_ok :: "net_env \<Rightarrow> (nat \<Rightarrow> byte list option) \<Rightarrow> bool" where
  "shared_ok env cont \<longleftrightarrow> cont (sh_crlf env) = Some crlf \<and> cont (sh_czero env) = Some (bulk_header 58 0)
     \<and> cont (sh_cone env) = Some (bulk_header 58 1) \<and> cont (sh_nullbulk env) = Some (bulk_header 36 (- 1))
     \<and> list_all (\<lambda>n. cont (sh_mbulkhdr env n) = Some (bulk_header 42 (int n)) \<and> cont (sh_bulkhdr env n) = Some (bulk_header 36 (int n))) [0..<32]"

lemma shared_hdr:
  assumes "shared_ok env cont" and "n < 32"
  shows "cont (sh_mbulkhdr env n) = Some (bulk_header 42 (int n))" "cont (sh_bulkhdr env n) = Some (bulk_header 36 (int n))"
  using assms by (auto simp: shared_ok_def list_all_iff)

lemma adds_cong:
  assumes "adds env ext cont op k f x" and "\<And>st c ts. net_ok env ext cont (st, c) ts \<Longrightarrow> f' (st, c) = f (st, c)"
  shows "adds env ext cont op k f' x"
  using assms unfolding adds_def by metis

lemma adds_seq3:
  assumes "adds env ext cont op 1 f x" and "adds env ext cont op 1 g y" and "adds env ext cont op 1 h z"
  shows "adds env ext cont op 3 (\<lambda>m. f m \<bind> (\<lambda>m. g m \<bind> h)) (x @ y @ z)"
  using adds_seq [OF assms(1) adds_seq [OF assms(2,3)]] by (simp add: numeral_eq_Suc)

lemma read_crlf: "read_bytes crlf 0 2 = Some crlf"
  by (simp add: read_bytes_def crlf_def)

lemma addReplyLongLongWithPrefix_adds [reply_adds]:
  assumes env: "env_ok env" and sh: "shared_ok env cont" and v: "is_int64 v" "prefix = 42 \<or> prefix = 36 \<Longrightarrow> 0 \<le> v"
  shows "adds env ext cont op 1 (\<lambda>m. addReplyLongLongWithPrefix env m v prefix) (bulk_header prefix v)"
proof (cases "(prefix = 42 \<or> prefix = 36) \<and> v < REDIS_SHARED_BULKHDR_LEN")
  case True
  then have s: "0 \<le> v" "nat v < 32" "int (nat v) = v" using v(2) by (auto simp: REDIS_SHARED_BULKHDR_LEN_def)
  have h: "adds env ext cont op 1 (\<lambda>m. addReply env m (sh_mbulkhdr env (nat v))) (bulk_header 42 v)"
    "adds env ext cont op 1 (\<lambda>m. addReply env m (sh_bulkhdr env (nat v))) (bulk_header 36 v)"
    using shared_hdr [OF sh s(2)] unfolding s(3) by - (rule addReply_adds [OF env], assumption)+
  show ?thesis using True s h by (auto simp: addReplyLongLongWithPrefix_def check_def)
next
  case False
  define x where "x = bulk_header prefix v"
  have l: "length x = length (int_text v) + 3" "length x + 1 < 2 ^ 31"
    using length_int_text [OF v(1)] by (simp_all add: x_def bulk_header_def)
  have f: "addReplyLongLongWithPrefix env m v prefix = addReplyString env m x (length x)" for m
    unfolding l(1) using False ll2string_text [OF v(1), of 127]
    by (auto simp: addReplyLongLongWithPrefix_def read_bytes_text x_def bulk_header_def crlf_def)
  have "read_bytes x 0 (length x) = Some x" by (simp add: read_bytes_def)
  from addReplyString_adds [OF env this l(2)] show ?thesis unfolding f x_def .
qed

lemma addReplyErrorLength_adds [reply_adds]:
  assumes env: "env_ok env" and x: "read_bytes s 0 n = Some x" "n + 1 < 2 ^ 31"
  shows "adds env ext cont op 3 (\<lambda>m. addReplyErrorLength env m s n) ([45, 69, 82, 82, 32] @ x @ crlf)"
proof -
  have e: "read_bytes [45, 69, 82, 82, 32] 0 5 = Some [45, 69, 82, 82, 32]" by (simp add: read_bytes_def)
  show ?thesis unfolding addReplyErrorLength_def
    by (rule adds_seq3 [OF addReplyString_adds [OF env e] addReplyString_adds [OF env x] addReplyString_adds [OF env read_crlf]]) simp_all
qed

lemma addReplyStatusLength_adds [reply_adds]:
  assumes env: "env_ok env" and x: "read_bytes s 0 n = Some x" "n + 1 < 2 ^ 31"
  shows "adds env ext cont op 3 (\<lambda>m. addReplyStatusLength env m s n) ([43] @ x @ crlf)"
proof -
  have e: "read_bytes [43] 0 1 = Some [43]" by (simp add: read_bytes_def)
  show ?thesis unfolding addReplyStatusLength_def
    by (rule adds_seq3 [OF addReplyString_adds [OF env e] addReplyString_adds [OF env x] addReplyString_adds [OF env read_crlf]]) simp_all
qed

lemma addReplyStatus_adds [reply_adds]:
  assumes env: "env_ok env" and x: "0 \<notin> set x" "length x + 1 < 2 ^ 31"
  shows "adds env ext cont op 3 (\<lambda>m. addReplyStatus env m (x @ [0])) ([43] @ x @ crlf)"
  using addReplyStatusLength_adds [OF env, of "x @ [0]" "length x" x] x
  by (simp add: addReplyStatus_def read_bytes_text)

lemma addReplyError_adds [reply_adds]:
  assumes env: "env_ok env" and x: "0 \<notin> set x" "length x + 1 < 2 ^ 31"
  shows "adds env ext cont op 3 (\<lambda>m. addReplyError env m (x @ [0])) ([45, 69, 82, 82, 32] @ x @ crlf)"
  using addReplyErrorLength_adds [OF env, of "x @ [0]" "length x" x] x
  by (simp add: addReplyError_def read_bytes_text)

definition no_breaks :: "byte list \<Rightarrow> byte list" where
  "no_breaks t = map (\<lambda>x. if x = 13 \<or> x = 10 then 32 else x) t"

lemma addReplyErrorFormat_adds [reply_adds]:
  assumes env: "env_ok env" and x: "length x + 1 < 2 ^ 31"
  shows "adds env ext cont op 3 (\<lambda>m. addReplyErrorFormat env m x) ([45, 69, 82, 82, 32] @ no_breaks x @ crlf)"
proof -
  have "read_bytes (no_breaks x) 0 (length x) = Some (no_breaks x)" by (simp add: read_bytes_def no_breaks_def)
  from addReplyErrorLength_adds [OF env this x] show ?thesis by (simp add: addReplyErrorFormat_def no_breaks_def)
qed

lemma addReplyLongLong_adds [reply_adds]:
  assumes env: "env_ok env" and sh: "shared_ok env cont" and v: "is_int64 v"
  shows "adds env ext cont op 1 (\<lambda>m. addReplyLongLong env m v) (bulk_header 58 v)"
proof -
  have "cont (sh_czero env) = Some (bulk_header 58 0)" "cont (sh_cone env) = Some (bulk_header 58 1)"
    using sh by (simp_all add: shared_ok_def)
  then have "adds env ext cont op 1 (\<lambda>m. addReply env m (sh_czero env)) (bulk_header 58 0)"
    "adds env ext cont op 1 (\<lambda>m. addReply env m (sh_cone env)) (bulk_header 58 1)" by - (rule addReply_adds [OF env], assumption)+
  moreover have "adds env ext cont op 1 (\<lambda>m. addReplyLongLongWithPrefix env m v 58) (bulk_header 58 v)"
    by (rule addReplyLongLongWithPrefix_adds [OF env sh v]) auto
  ultimately show ?thesis by (cases "v = 0"; cases "v = 1") (simp_all add: addReplyLongLong_def)
qed

lemma addReplyMultiBulkLen_adds [reply_adds]:
  assumes env: "env_ok env" and sh: "shared_ok env cont" and v: "is_int64 v" "0 \<le> v"
  shows "adds env ext cont op 1 (\<lambda>m. addReplyMultiBulkLen env m v) (bulk_header 42 v)"
proof -
  have "addReplyMultiBulkLen env m v = addReplyLongLongWithPrefix env m v 42" for m
    by (simp add: addReplyMultiBulkLen_def addReplyLongLongWithPrefix_def)
  then show ?thesis using addReplyLongLongWithPrefix_adds [OF env sh v(1), of 42 ext op] v(2) by simp
qed

text \<open>The length of an integer is counted by divisions.\<close>

lemma digits_loop_decimal: "digits_loop n len + 1 = len + length (decimal (nat \<bar>n\<bar>))"
proof (induction n len rule: digits_loop.induct)
  case (1 n len)
  show ?case
  proof (cases "cdiv10 n = 0")
    case True
    then have "nat \<bar>n\<bar> < 10" by (auto simp: cdiv10_def split: if_splits)
    then show ?thesis using True by (simp add: digits_loop.simps [of n] decimal.simps [of "nat \<bar>n\<bar>"])
  next
    case False
    have a: "nat \<bar>cdiv10 n\<bar> = nat \<bar>n\<bar> div 10" by (auto simp: cdiv10_def nat_div_distrib zdiv_int) 
    have "\<not> nat \<bar>n\<bar> < 10" using False by (auto simp: cdiv10_def split: if_splits)
    then show ?thesis using "1.IH" [OF False] False a
      by (simp add: digits_loop.simps [of n] decimal.simps [of "nat \<bar>n\<bar>"])
  qed
qed

lemma digits_loop_int:
  assumes "is_int64 v"
  shows "(if v < 0 then digits_loop (s64 (- v)) 2 else digits_loop v 1) = length (int_text v)"
proof (cases "v = - (2 ^ 63)")
  case True
  then have "s64 (- v) = v" by (simp add: s64_def)
  moreover have "nat \<bar>v\<bar> = nat (- v)" using True by simp
  ultimately show ?thesis using True digits_loop_decimal [of v 2] by (simp add: int_text_def)
next
  case False
  then have "v < 0 \<Longrightarrow> s64 (- v) = - v" using assms by (auto simp: s64_def is_int64_def range_defs)
  then show ?thesis using digits_loop_decimal [of "- v" 2] digits_loop_decimal [of v 1]
    by (auto simp: int_text_def nat_abs_triangle_ineq)
qed

lemma addReplyBulkLen_adds [reply_adds]:
  assumes env: "env_ok env" and sh: "shared_ok env cont" and x: "cont a = Some x" "length x < 2 ^ 31"
  shows "adds env ext cont op 1 (\<lambda>m. addReplyBulkLen env m a) (bulk_header 36 (int (length x)))"
proof -
  have "is_int64 (int (length x))" using x(2) by (simp add: is_int64_def range_defs)
  then have p: "adds env ext cont op 1 (\<lambda>m. addReplyLongLongWithPrefix env m (int (length x)) 36) (bulk_header 36 (int (length x)))"
    by (rule addReplyLongLongWithPrefix_adds [OF env sh]) simp
  show ?thesis
  proof (rule adds_cong [OF p])
    fix st c ts
    assume "net_ok env ext cont (st, c) ts"
    then obtain ob where ob: "objs st a = Some ob" "obj_holds ob x" using x by (fastforce simp: net_ok_def ext_ok_def)
    have "(if sdsEncodedObject ob then do { s \<leftarrow> sds_of ob; Some (sdslen s) }
      else do { v \<leftarrow> long_of ob; Some (if v < 0 then digits_loop (s64 (- v)) 2 else digits_loop v 1) }) = Some (length x)"
    proof (cases "sdsEncodedObject ob")
      case True
      then show ?thesis using obj_holds_sds [OF ob(2) True] by (auto simp: sds_of_def sds_texts)
    next
      case False
      then have "encoding ob = REDIS_ENCODING_INT" by (simp add: sdsEncoded_iff)
      from obj_holds_int [OF ob(2) this] show ?thesis using False digits_loop_int by (auto simp: long_of_def)
    qed
    then show "addReplyBulkLen env (st, c) a = addReplyLongLongWithPrefix env (st, c) (int (length x)) 36"
      unfolding addReplyBulkLen_def prod.case ob(1) bind.bind_lunit
      by (simp add: addReplyLongLongWithPrefix_def check_def REDIS_SHARED_BULKHDR_LEN_def)
  qed
qed

text \<open>A bulk reply: the length, the text, the end of the line.\<close>

definition bulk :: "byte list \<Rightarrow> byte list" where
  "bulk x = bulk_header 36 (int (length x)) @ x @ crlf"

lemma sh_crlf_adds: "env_ok env \<Longrightarrow> shared_ok env cont \<Longrightarrow> adds env ext cont op 1 (\<lambda>m. addReply env m (sh_crlf env)) crlf"
  by (rule addReply_adds) (simp_all add: shared_ok_def)

lemma addReplyBulk_adds [reply_adds]:
  assumes env: "env_ok env" and sh: "shared_ok env cont" and x: "cont a = Some x" "length x < 2 ^ 31"
  shows "adds env ext cont op 3 (\<lambda>m. addReplyBulk env m a) (bulk x)"
  unfolding addReplyBulk_def bulk_def
  by (rule adds_seq3 [OF addReplyBulkLen_adds [OF env sh x] addReply_adds [of env cont, OF env x(1)] sh_crlf_adds [OF env sh]])

lemma addReplyBulkCBuffer_adds [reply_adds]:
  assumes env: "env_ok env" and sh: "shared_ok env cont" and x: "read_bytes p 0 n = Some x" "n + 1 < 2 ^ 31"
  shows "adds env ext cont op 3 (\<lambda>m. addReplyBulkCBuffer env m p n) (bulk x)"
proof -
  have n: "length x = n" using x(1) by (auto simp: read_bytes_def split: if_splits)
  have "is_int64 (int n)" using x(2) by (simp add: is_int64_def range_defs)
  then have "adds env ext cont op 1 (\<lambda>m. addReplyLongLongWithPrefix env m (int n) 36) (bulk_header 36 (int n))"
    by (rule addReplyLongLongWithPrefix_adds [OF env sh]) simp
  then show ?thesis unfolding addReplyBulkCBuffer_def bulk_def n
    by (rule adds_seq3 [OF _ addReplyString_adds [OF env x] sh_crlf_adds [OF env sh]])
qed

lemma addReplyBulkCString_adds [reply_adds]:
  assumes env: "env_ok env" and sh: "shared_ok env cont" and x: "0 \<notin> set x" "length x + 1 < 2 ^ 31"
  shows "adds env ext cont op 3 (\<lambda>m. addReplyBulkCString env m (Some (x @ [0]))) (bulk x)"
  using addReplyBulkCBuffer_adds [OF env sh, of "x @ [0]" "length x" x] x
  by (simp add: addReplyBulkCString_def read_bytes_text)

lemma addReplyBulkLongLong_adds [reply_adds]:
  assumes env: "env_ok env" and sh: "shared_ok env cont" and v: "is_int64 v"
  shows "adds env ext cont op 3 (\<lambda>m. addReplyBulkLongLong env m v) (bulk (int_text v))"
  using addReplyBulkCBuffer_adds [OF env sh, of "int_text v @ [0]" "length (int_text v)" "int_text v"]
    ll2string_text [OF v, of 64] length_int_text [OF v]
  by (simp add: addReplyBulkLongLong_def read_bytes_text)

subsection \<open>A length that comes later\<close>

lemma held_place:
  assumes "held ts' = ts @ [None]"
  shows "\<exists>vs. ts' = ts @ None # map Some vs"
proof -
  define r where "r = takeWhile (\<lambda>t. t \<noteq> None) (rev ts')"
  have "rev ts' = r @ rev (held ts')" by (simp add: r_def held_def)
  then have "ts' = held ts' @ rev r" by (metis rev_append rev_rev_ident)
  moreover have "None \<notin> set r" using set_takeWhileD by (fastforce simp: r_def)
  then have "map (\<lambda>t. Some (the t)) (rev r) = rev r" by (intro map_idI) (metis option.collapse set_rev)
  then have "rev r = map Some (map the (rev r))" by (simp add: comp_def)
  ultimately show ?thesis using assms by (metis append.assoc append_Cons append_Nil)
qed

lemma held_some: "held (ts @ map Some us) = held ts"
  by (induction us rule: rev_induct) (simp_all flip: append_assoc)

lemma pending_mid:
  assumes "buffer_ok c ts" and "c_sentlen c' = c_sentlen c" "c_bufpos c' = c_bufpos c" "c_buf c' = c_buf c"
  shows "pending c' (ts @ us) = pending c ts @ concat (map text_of us)"
proof -
  define p where "p = (if 0 < c_bufpos c then take (c_bufpos c) (c_buf c) else []) @ concat (map text_of ts)"
  have "c_sentlen c \<le> length p" unfolding p_def by (rule sent_bound [OF assms(1)])
  moreover have "pending c' (ts @ us) = drop (c_sentlen c) (p @ concat (map text_of us))" "pending c ts = drop (c_sentlen c) p"
    by (simp_all add: pending_def p_def assms(2-4))
  ultimately show ?thesis by simp
qed

text \<open>The place becomes an object with the text \<open>h\<close>.\<close>

lemma fill_place:
  assumes ok: "net_ok env ext cont (st, c) (ts @ None # vs)" and r: "c_reply c = as @ a # bs" "length as = length ts"
    and s: "sds_repr s h" and st': "st' = put_obj st a \<lparr>encoding = REDIS_ENCODING_RAW, ptr = Sds s, refcount = 1\<rparr>"
    and c': "c' = c\<lparr>c_reply_bytes := c_reply_bytes c + zmalloc_size_sds env s\<rparr>"
  shows "net_ok env ext cont (st', c') (ts @ Some h # vs)"
proof -
  have n: "texts_at st (as @ a # bs) (ts @ None # vs)" "refs_ok ext st (as @ a # bs)" "ext_ok ext cont st" "buffer_ok c (ts @ None # vs)"
    "c_reply_bytes c = sum_list (map (mem_at env st) (as @ a # bs))" using ok r by (simp_all add: net_ok_def)
  have t: "texts_at st as ts" "texts_at st bs vs" "\<exists>ob. objs st a = Some ob \<and> reply_text ob None"
    using n(1) r(2) by (auto simp: texts_at_def list_all2_append)
  then obtain ob where ob: "objs st a = Some ob" "ptr ob = Long 0" "encoding ob = REDIS_ENCODING_RAW" "refcount ob = 1" by auto
  have "refcount ob = int (ext a + count_list (as @ a # bs) a)" using n(2) ob(1) unfolding refs_ok_def by blast
  then have "ext a = 0 \<and> count_list as a = 0 \<and> count_list bs a = 0" using ob(4) by simp
  then have only: "ext a = 0" "a \<notin> set as" "a \<notin> set bs" by (simp_all add: count_list_0_iff)
  define ob' where "ob' = \<lparr>encoding = REDIS_ENCODING_RAW, ptr = Sds s, refcount = 1\<rparr>"
  have s1: "objs st' = (objs st)(a \<mapsto> ob')" "next_obj st' = next_obj st" by (simp_all add: st' ob'_def put_obj_def)
  have k: "keeps (set as) st st'" "keeps (set bs) st st'" "keeps {a. 0 < ext a} st st'" using only by (auto simp: keeps_def s1)
  have "texts_at st' (as @ a # bs) (ts @ Some h # vs)"
    using keeps_texts [OF k(1) t(1)] keeps_texts [OF k(2) t(2)] s by (simp add: texts_at_def list_all2_appendI s1 ob'_def)
  moreover have "refs_ok ext st' (as @ a # bs)" using refs_put [OF n(2) ob(1) _ s1] ob(4) by (simp add: ob'_def)
  moreover have "buffer_ok c (ts @ Some h # vs)" using n(4) by (cases ts) (auto simp: buffer_ok_def split: if_splits)
  moreover have "c_reply_bytes c' = sum_list (map (mem_at env st') (as @ a # bs))"
  proof -
    have "mem_at env st' a = zmalloc_size_sds env s" "mem_at env st a = 0"
      using ob by (simp_all add: mem_at_def s1 ob'_def obj_mem_def)
    then show ?thesis using keeps_mem [OF k(1) t(1), of env] keeps_mem [OF k(2) t(2), of env] n(5) by (simp add: c')
  qed
  ultimately show ?thesis using keeps_ext [OF k(3) n(3)] r by (simp add: net_ok_def c')
qed

text \<open>An object leaves the list.\<close>

lemma refs_drop:
  assumes refs: "refs_ok ext st (as @ b # bs)" and b: "objs st b = Some ob" "ptr ob \<noteq> Long 0"
  shows "\<exists>st'. decrRefCount st b = Some st' \<and> refs_ok ext st' (as @ bs) \<and> keeps (set as \<union> set bs \<union> {a. 0 < ext a}) st st'"
proof -
  define m where "m = ext b + count_list (as @ bs) b"
  have "refcount ob = int (ext b + count_list (as @ b # bs) b)" using refs b(1) unfolding refs_ok_def by blast
  then have rc: "refcount ob = int m + 1" by (simp add: m_def)
  define st' where "st' = (if refcount ob = 1 then st\<lparr>objs := (objs st)(b := None)\<rparr>
    else put_obj st b (ob\<lparr>refcount := refcount ob - 1\<rparr>))"
  have d: "decrRefCount st b = Some st'" using b(1) rc by (simp add: decrRefCount_def check_def st'_def)
  have s1: "next_obj st' = next_obj st" "\<And>x. x \<noteq> b \<Longrightarrow> objs st' x = objs st x"
    "objs st' b = (if m = 0 then None else Some (ob\<lparr>refcount := int m\<rparr>))" using rc by (simp_all add: st'_def put_obj_def)
  have cnt: "count_list (as @ b # bs) x = count_list (as @ bs) x" if "x \<noteq> b" for x using that by simp
  have "keeps (set as \<union> set bs \<union> {a. 0 < ext a}) st st'"
    unfolding keeps_def
  proof (intro ballI allI impI)
    fix x obx assume x: "x \<in> set as \<union> set bs \<union> {a. 0 < ext a}" "objs st x = Some obx"
    show "\<exists>ob'. objs st' x = Some ob' \<and> same_obj obx ob'"
    proof (cases "x = b")
      case True
      then have "m \<noteq> 0" using x(1) by (auto simp: m_def count_list_0_iff)
      then show ?thesis using True x(2) b s1(3) by auto
    qed (use x s1(2) in auto)
  qed
  moreover have "refs_ok ext st' (as @ bs)"
    unfolding refs_ok_def
  proof (intro conjI allI impI)
    fix x ob' assume x: "objs st' x = Some ob'"
    have "refcount ob' = int (ext x + count_list (as @ bs) x) \<and> 0 < ext x + count_list (as @ bs) x"
    proof (cases "x = b")
      case True
      then show ?thesis using x s1(3) by (auto simp: m_def split: if_splits)
    next
      case False
      then have "objs st x = Some ob'" using x s1(2) by simp
      then show ?thesis using refs cnt [OF False] unfolding refs_ok_def by metis
    qed
    then show "refcount ob' = int (ext x + count_list (as @ bs) x)" "0 < ext x + count_list (as @ bs) x" by auto
  next
    fix x assume x: "next_obj st' \<le> x"
    then have "x \<noteq> b" using refs s1(1) b(1) by (auto simp: refs_ok_def)
    then show "objs st' x = None" "ext x = 0" using x refs s1 by (auto simp: refs_ok_def)
  qed
  ultimately show ?thesis using d by blast
qed

lemma keeps_trans: "keeps A st s1 \<Longrightarrow> keeps B s1 s2 \<Longrightarrow> A \<subseteq> B \<Longrightarrow> keeps A st s2"
  unfolding keeps_def by (fastforce simp: same_obj_def)

lemma keeps_sub: "keeps A st s1 \<Longrightarrow> B \<subseteq> A \<Longrightarrow> keeps B st s1"
  unfolding keeps_def by blast

text \<open>Two neighbours become one object.\<close>

lemma join_next:
  assumes ok: "net_ok env ext cont (st, c) (ts @ Some h # Some v # vs)" and r: "c_reply c = as @ a # b # bs" "length as = length ts"
    and a: "objs st a = Some ob" "refcount ob = 1" "ptr ob = Sds s" "encoding ob = REDIS_ENCODING_RAW"
    and s2: "sds_repr s2 (h @ v)"
    and c': "c' = c\<lparr>c_reply := as @ a # bs, c_reply_bytes := c_reply_bytes c - zmalloc_size_sds env s - mem_at env st b + zmalloc_size_sds env s2\<rparr>"
  shows "\<exists>st'. decrRefCount (put_obj st a (ob\<lparr>ptr := Sds s2\<rparr>)) b = Some st' \<and> net_ok env ext cont (st', c') (ts @ Some (h @ v) # vs)"
proof -
  have n: "texts_at st (as @ a # b # bs) (ts @ Some h # Some v # vs)" "refs_ok ext st (as @ a # b # bs)" "ext_ok ext cont st"
    "buffer_ok c (ts @ Some h # Some v # vs)" "c_reply_bytes c = sum_list (map (mem_at env st) (as @ a # b # bs))"
    using ok r by (simp_all add: net_ok_def)
  have t: "texts_at st as ts" "texts_at st bs vs" "\<exists>nb. objs st b = Some nb \<and> reply_text nb (Some v)"
    using n(1) r(2) by (auto simp: texts_at_def list_all2_append)
  then obtain nb where nb: "objs st b = Some nb" "ptr nb \<noteq> Long 0" by auto
  have "refcount ob = int (ext a + count_list (as @ a # b # bs) a)" using n(2) a(1) unfolding refs_ok_def by blast
  then have "ext a = 0 \<and> count_list as a = 0 \<and> count_list (b # bs) a = 0" using a(2) by simp
  then have only: "ext a = 0" "a \<notin> set as" "a \<notin> set bs" "a \<noteq> b" by (auto simp: count_list_0_iff split: if_splits)
  define ob2 where "ob2 = ob\<lparr>ptr := Sds s2\<rparr>"
  define st1 where "st1 = put_obj st a ob2"
  have s1: "objs st1 = (objs st)(a \<mapsto> ob2)" "next_obj st1 = next_obj st" by (simp_all add: st1_def put_obj_def)
  have k1: "keeps (set as) st st1" "keeps (set bs) st st1" "keeps {a. 0 < ext a} st st1" using only by (auto simp: keeps_def s1)
  have "refs_ok ext st1 ((as @ [a]) @ b # bs)" using refs_put [OF n(2) a(1) _ s1] by (simp add: ob2_def)
  moreover have "objs st1 b = Some nb" using nb only(4) by (simp add: s1)
  ultimately obtain st' where d: "decrRefCount st1 b = Some st'" "refs_ok ext st' ((as @ [a]) @ bs)"
    and k: "keeps (set (as @ [a]) \<union> set bs \<union> {a. 0 < ext a}) st1 st'" using refs_drop nb(2) by blast
  have k2: "keeps (set as) st st'" "keeps (set bs) st st'" "keeps {a. 0 < ext a} st st'" "keeps {a} st1 st'"
    using keeps_trans [OF k1(1) k] keeps_trans [OF k1(2) k] keeps_trans [OF k1(3) k] keeps_sub [OF k] by auto
  then obtain ob3 where ob3: "objs st' a = Some ob3" "same_obj ob2 ob3" by (auto simp: keeps_def s1)
  have "reply_text ob2 (Some (h @ v))" using s2 a(4) by (simp add: ob2_def)
  then have "reply_text ob3 (Some (h @ v))" using ob3(2) by (simp del: reply_text_simps)
  then have "texts_at st' (as @ a # bs) (ts @ Some (h @ v) # vs)"
    using keeps_texts [OF k2(1) t(1)] keeps_texts [OF k2(2) t(2)] ob3(1)
    by (auto simp: texts_at_def intro!: list_all2_appendI)
  moreover have "buffer_ok c (ts @ Some (h @ v) # vs)" using n(4) by (cases ts) (auto simp: buffer_ok_def split: if_splits)
  moreover have "c_reply_bytes c' = sum_list (map (mem_at env st') (as @ a # bs))"
  proof -
    have "mem_at env st' a = zmalloc_size_sds env s2" "mem_at env st a = zmalloc_size_sds env s"
      using ob3 a by (simp_all add: mem_at_def obj_mem_def ob2_def same_obj_def)
    then show ?thesis using keeps_mem [OF k2(1) t(1), of env] keeps_mem [OF k2(2) t(2), of env] n(5) by (simp add: c')
  qed
  ultimately show ?thesis using d keeps_ext [OF k2(3) n(3)] by (simp add: net_ok_def c' st1_def ob2_def)
qed

lemma setDeferred_ok:
  assumes env: "env_ok env" and ok: "net_ok env ext cont (st, c) (ts @ None # map Some vs)" and len: "is_int64 len"
    and small: "length (concat vs) < 2 ^ 29" and top: "length ts + length vs < MAX_NODES" and sent: "buffer_ok c ts"
  shows "\<exists>st' c' us. setDeferredMultiBulkLength env (st, c) (Some (length ts)) len = Some (st', c')
    \<and> net_ok env ext cont (st', c') (ts @ us) \<and> pending c' (ts @ us) = pending c ts @ bulk_header 42 len @ concat vs
    \<and> held (ts @ us) = held ts \<and> length us \<le> length vs + 1 \<and> same_client c c'"
proof -
  define h where "h = bulk_header 42 len"
  have lh: "length h = length (int_text len) + 3" "length h \<le> 23"
    using length_int_text [OF len] by (simp_all add: h_def bulk_header_def)
  have tx: "texts_at st (c_reply c) (ts @ None # map Some vs)" using ok by (simp add: net_ok_def)
  then obtain as a bs where r: "c_reply c = as @ a # bs" "length as = length ts" and t: "list_all2 (\<lambda>a t. \<exists>ob. objs st a = Some ob \<and> reply_text ob t) bs (map Some vs)"
    and "\<exists>ob. objs st a = Some ob \<and> reply_text ob None"
    by (auto simp: texts_at_def list_all2_append2 list_all2_Cons2 dest: list_all2_lengthD)
  then obtain ob where ob: "objs st a = Some ob" "ptr ob = Long 0" "encoding ob = REDIS_ENCODING_RAW" "refcount ob = 1" by auto
  obtain s0 where s0: "sdsempty (n_fresh env) = Some s0" "sds_repr s0 []" using sdsempty_text by blast
  have rd: "read_bytes (42 # int_text len @ crlf) 0 (length (int_text len) + 3) = Some h"
    by (simp add: read_bytes_def h_def bulk_header_def crlf_def)
  obtain s where s: "sdscatlen (n_fresh env) s0 (42 # int_text len @ crlf) (length (int_text len) + 3) = Some s" "sds_repr s h"
    using sdscatlen_text [OF s0(2) rd] lh by auto
  define ob1 where "ob1 = \<lparr>encoding = REDIS_ENCODING_RAW, ptr = Sds s, refcount = 1\<rparr>"
  define c1 where "c1 = c\<lparr>c_reply_bytes := c_reply_bytes c + zmalloc_size_sds env s\<rparr>"
  have ob1: "ob\<lparr>ptr := Sds s, encoding := REDIS_ENCODING_RAW\<rparr> = ob1" using ob(4) by (simp add: ob1_def)
  note fill = fill_place [OF ok r s(2) refl c1_def, folded ob1_def]
  have fin: ?thesis
    if f: "setDeferredMultiBulkLength env (st, c) (Some (length ts)) len = close_if_over env (st4, c4)"
      and n4: "net_ok env ext cont (st4, c4) (ts @ map Some us)" and us: "concat us = h @ concat vs" "length us \<le> length vs + 1"
      and same: "same_client c c4" "c_bufpos c4 = c_bufpos c" "c_buf c4 = c_buf c" for st4 c4 us
  proof -
    have "length (ts @ map Some us) \<le> MAX_NODES" using us(2) top by simp
    from close_if_over_ok [OF env n4 this] obtain c' where c': "close_if_over env (st4, c4) = Some (st4, c')"
      "net_ok env ext cont (st4, c') (ts @ map Some us)" "pending c' (ts @ map Some us) = pending c4 (ts @ map Some us)" "same_client c4 c'"
      by blast
    have "c_sentlen c4 = c_sentlen c" using same(1) by (simp add: same_client_def)
    from pending_mid [OF sent this same(2,3), of "map Some us"] have "pending c4 (ts @ map Some us) = pending c ts @ h @ concat vs"
      using us(1) by (simp add: comp_def)
    moreover have "held (ts @ map Some us) = held ts" by (rule held_some)
    ultimately show ?thesis using f c'(1,2,3) us(2) same_client_trans [OF same(1) c'(4)] unfolding h_def
      by (intro exI [of _ st4] exI [of _ c'] exI [of _ "map Some us"]) simp
  qed
  have nth: "c_reply c ! length ts = a" "length ts < length (c_reply c)" using r by (simp_all add: nth_append flip: r(2))
  have ll: "ll2string 32 len = (length (int_text len), int_text len @ [0])" by (rule ll2string_text [OF len]) simp
  have ne: "c_reply c \<noteq> []" using r(1) by simp
  show ?thesis
  proof (cases vs)
    case Nil
    then have "bs = []" using t by simp
    then have f: "setDeferredMultiBulkLength env (st, c) (Some (length ts)) len = close_if_over env (put_obj st a ob1, c1)"
      using ob(1) s0(1) s(1) nth ll r ob1
      by (simp add: setDeferredMultiBulkLength_def check_def Let_def read_bytes_text c1_def)
    show ?thesis
      by (rule fin [OF f, of "[h]"]) (use fill Nil ne in \<open>auto simp: c1_def same_client_def\<close>)
  next
    case (Cons v vs')
    then obtain b bs' where b: "bs = b # bs'" using t by (cases bs) auto
    then obtain nb ns where nb: "objs st b = Some nb" "reply_text nb (Some v)" "ptr nb = Sds ns" "sds_repr ns v"
      using t Cons by auto
    have ab: "a \<noteq> b" using ob(1,2) nb(1,3) by auto
    have rd2: "read_bytes (s_buf ns) 0 (sdslen ns) = Some v" "sdslen ns = length v" using nb(4) by (simp_all add: sds_texts)
    have "length h + sdslen ns < 2 ^ 30" using lh(2) small Cons rd2(2) by simp
    then obtain s2 where s2: "sdscatlen (n_fresh env) s (s_buf ns) (sdslen ns) = Some s2" "sds_repr s2 (h @ v)"
      using sdscatlen_text [OF s(2) rd2(1)] by blast
    have mem: "getStringObjectSdsUsedMemory env nb = Some (mem_at env st b)"
      using nb by (cases "encoding nb") (auto simp: getStringObjectSdsUsedMemory_def mem_at_def obj_mem_def sds_of_def)
    define c4 where "c4 = c1\<lparr>c_reply := as @ a # bs',
      c_reply_bytes := c_reply_bytes c1 - zmalloc_size_sds env s - mem_at env (put_obj st a ob1) b + zmalloc_size_sds env s2\<rparr>"
    have mb: "mem_at env (put_obj st a ob1) b = mem_at env st b" using ab by (simp add: mem_at_def put_obj_def)
    have pp: "put_obj (put_obj st a ob1) a (ob1\<lparr>ptr := Sds s2\<rparr>) = put_obj st a (ob1\<lparr>ptr := Sds s2\<rparr>)" by (simp add: put_obj_def)
    have j: "net_ok env ext cont (put_obj st a ob1, c1) (ts @ Some h # Some v # map Some vs')"
      "c_reply c1 = as @ a # b # bs'" "objs (put_obj st a ob1) a = Some ob1" "refcount ob1 = 1" "ptr ob1 = Sds s" "encoding ob1 = REDIS_ENCODING_RAW"
      using fill Cons r(1) b by (simp_all add: c1_def ob1_def put_obj_def)
    from join_next [OF j(1,2) r(2) j(3-6) s2(2) c4_def, unfolded pp] obtain st4 where st4:
      "decrRefCount (put_obj st a (ob1\<lparr>ptr := Sds s2\<rparr>)) b = Some st4" "net_ok env ext cont (st4, c4) (ts @ Some (h @ v) # map Some vs')"
      by blast
    have "take (length ts + 1) (c_reply c) @ drop (length ts + 2) (c_reply c) = as @ a # bs'" "c_reply c ! (length ts + 1) = b"
      "length ts + 1 < length (c_reply c)" using r b by (simp_all add: nth_append flip: r(2))
    moreover have "ob\<lparr>encoding := REDIS_ENCODING_RAW, ptr := Sds s2\<rparr> = \<lparr>encoding = REDIS_ENCODING_RAW, ptr = Sds s2, refcount = 1\<rparr>"
      using ob(4) by simp
    ultimately have f: "setDeferredMultiBulkLength env (st, c) (Some (length ts)) len = close_if_over env (st4, c4)"
      using ob(1) s0(1) s(1) nth ll ob1 nb(1,3) mem s2(1) st4(1) mb
      by (simp add: setDeferredMultiBulkLength_def check_def Let_def read_bytes_text c1_def c4_def sds_of_def ob1_def)
    show ?thesis
      by (rule fin [OF f, of "(h @ v) # vs'"]) (use st4(2) Cons ne in \<open>auto simp: c1_def c4_def same_client_def\<close>)
  qed
qed

lemma deferred_adds [reply_adds]:
  assumes env: "env_ok env" and f: "adds env ext cont True k f y" and len: "is_int64 len" and y: "length y < 2 ^ 29"
  shows "adds env ext cont True (k + 1) (\<lambda>m. let (m, node) = addDeferredMultiBulkLength env m
      in do { m \<leftarrow> f m; setDeferredMultiBulkLength env m node len }) (bulk_header 42 len @ y)"
proof (rule addsI)
  fix st c ts
  assume n: "net_ok env ext cont (st, c) ts" "handler_ok c" "length ts + (k + 1) \<le> MAX_NODES" "True \<longrightarrow> \<not> c_close_after_reply c"
  have el: "el_accepts env" using env by (simp add: env_ok_def)
  obtain c1 where c1: "prepareClientToWrite env c = (c1, can_write c)" "same_client c c1" "c_buf c1 = c_buf c"
    "c_bufpos c1 = c_bufpos c" "c_sentlen c1 = c_sentlen c" "c_reply c1 = c_reply c" "c_reply_bytes c1 = c_reply_bytes c"
    using prepare_iff [OF el] by blast
  note n1 = net_ok_client [OF n(1) c1(3-7)]
  note h = prepare_handler [OF el n(2) c1(1)]
  show "\<exists>st' c' ts'. (let (m, node) = addDeferredMultiBulkLength env (st, c)
      in do { m \<leftarrow> f m; setDeferredMultiBulkLength env m node len }) = Some (st', c')
    \<and> net_ok env ext cont (st', c') ts' \<and> length ts' \<le> length ts + (k + 1) \<and> held ts' = held ts \<and> same_client c c'
    \<and> pending c' ts' = pending c ts @ (if takes_reply c then bulk_header 42 len @ y else []) \<and> handler_ok c'"
  proof (cases "can_write c")
    case False
    then have d: "addDeferredMultiBulkLength env (st, c) = ((st, c), None)" and t: "\<not> takes_reply c"
      using c1(1) h by (simp_all add: takes_reply_def addDeferredMultiBulkLength_def)
    have "length ts + k \<le> MAX_NODES" using n(3) by simp
    from addsD [OF f n(1,2) this n(4)] obtain st2 c2 t2 where 2: "f (st, c) = Some (st2, c2)" "net_ok env ext cont (st2, c2) t2"
      "length t2 \<le> length ts + k" "held t2 = held ts" "same_client c c2" "pending c2 t2 = pending c ts" "handler_ok c2"
      using t by auto
    have "(let (m, node) = addDeferredMultiBulkLength env (st, c)
      in do { m \<leftarrow> f m; setDeferredMultiBulkLength env m node len }) = Some (st2, c2)"
      using 2(1) d by (simp add: setDeferredMultiBulkLength_def)
    moreover have "length t2 \<le> length ts + (k + 1)" "pending c2 t2 = pending c ts @ (if takes_reply c then bulk_header 42 len @ y else [])"
      using 2(3,6) t by simp_all
    ultimately show ?thesis using 2(2,4,5,7) by blast
  next
    case True
    define a where "a = next_obj st"
    define place where "place = createObject (Long 0)"
    have place: "reply_text place None" "refcount place = 1" by (simp_all add: place_def createObject_def)
    define st1 where "st1 = st\<lparr>objs := (objs st)(a \<mapsto> place), next_obj := Suc a\<rparr>"
    define c2 where "c2 = c1\<lparr>c_reply := c_reply c1 @ [a], c_reply_bytes := c_reply_bytes c1 + obj_mem env place\<rparr>"
    have c2: "c2 = c1\<lparr>c_reply := c_reply c1 @ [a]\<rparr>" by (simp add: c2_def place_def createObject_def obj_mem_def)
    have s1: "objs st1 = (objs st)(a \<mapsto> place)" "next_obj st1 = Suc a" by (simp_all add: st1_def)
    from append_new [OF conjunct1 [OF n1] place a_def s1 c2_def] have n2: "net_ok env ext cont (st1, c2) (ts @ [None])"
      "pending c2 (ts @ [None]) = pending c ts" "same_client c1 c2" using n1 by simp_all
    have "length (c_reply c) = length ts" using n(1) by (auto simp: net_ok_def dest: texts_at_length)
    then have d: "addDeferredMultiBulkLength env (st, c) = ((st1, c2), Some (length ts))"
      using True c1(1,6) by (simp add: addDeferredMultiBulkLength_def new_obj_def c2 st1_def a_def place_def)
    have live: "takes_reply c" "takes_reply c2" "True \<longrightarrow> \<not> c_close_after_reply c2"
      using True n(4) c1(2) n2(3) by (simp_all add: takes_reply_def can_write_def same_client_def)
    have h2: "handler_ok c2" using h True by (auto simp: handler_ok_def c2)
    have room: "length (ts @ [None]) + k \<le> MAX_NODES" using n(3) by simp
    from addsD [OF f n2(1) h2 room live(3)] obtain st3 c3 t3 where 3: "f (st1, c2) = Some (st3, c3)" "net_ok env ext cont (st3, c3) t3"
      "length t3 \<le> length ts + 1 + k" "held t3 = ts @ [None]" "same_client c2 c3" "pending c3 t3 = pending c ts @ y" "handler_ok c3"
      using live(2) n2(2) by auto
    obtain vs where vs: "t3 = ts @ None # map Some vs" using held_place [OF 3(4)] by blast
    have same: "c_sentlen c3 = c_sentlen c" "c_bufpos c3 = c_bufpos c" "c_buf c3 = c_buf c"
      using 3(5) c1 by (simp_all add: same_client_def c2)
    have b: "buffer_ok c ts" using n(1) by (simp add: net_ok_def)
    then have b3: "buffer_ok c3 ts" using same unfolding buffer_ok_def by metis
    have "pending c3 t3 = pending c ts @ concat vs"
      using pending_mid [OF b same, of "None # map Some vs"] vs by (simp add: comp_def)
    then have y3: "concat vs = y" using 3(6) by simp
    have l: "length vs \<le> k" "length ts + length vs < MAX_NODES" using 3(3) vs n(3) by simp_all
    from setDeferred_ok [OF env 3(2) [unfolded vs] len _ l(2) b3] y y3
    obtain st4 c4 us where 4: "setDeferredMultiBulkLength env (st3, c3) (Some (length ts)) len = Some (st4, c4)"
      "net_ok env ext cont (st4, c4) (ts @ us)" "pending c4 (ts @ us) = pending c3 ts @ bulk_header 42 len @ concat vs"
      "held (ts @ us) = held ts" "length us \<le> length vs + 1" "same_client c3 c4" by auto
    have "pending c3 ts = pending c ts" using pending_mid [OF b same, of "[]"] by simp
    then have p: "pending c4 (ts @ us) = pending c ts @ (if takes_reply c then bulk_header 42 len @ y else [])"
      using 4(3) y3 live(1) by simp
    have all: "same_client c c4" using c1(2) n2(3) 3(5) 4(6) same_client_trans by blast
    have h4: "handler_ok c4" using h True same_client_trans [OF n2(3) same_client_trans [OF 3(5) 4(6)]]
      by (auto simp: handler_ok_def same_client_def)
    have "length (ts @ us) \<le> length ts + (k + 1)" using 4(5) l(1) by simp
    then show ?thesis using d 3(1) 4(1,2,4) p all h4 by (auto simp: Let_def)
  qed
qed

end
