(* ===== verification/Client_Send.thy ===== *)
theory Client_Send
  imports Client_Replies
begin

text \<open>
  Sending the output of a client: whatever the kernel takes, what is sent are the first bytes of the
  pending output, and the rest stays pending. A run of replies and sends delivers the replies in their
  order, and if the kernel takes bytes everything is delivered after finitely many sends.
\<close>

subsection \<open>One call\<close>

text \<open>Sending changes positions and the list, and nothing else of the client.\<close>

definition rest_of :: "client \<Rightarrow> client" where
  "rest_of c = c\<lparr>c_bufpos := 0, c_sentlen := 0, c_reply := [], c_reply_bytes := 0\<rparr>"

definition same_rest :: "client \<Rightarrow> client \<Rightarrow> bool" where "same_rest c c' \<longleftrightarrow> rest_of c' = rest_of c"

lemma same_rest_refl [simp]: "same_rest c c" and same_rest_trans: "same_rest a b \<Longrightarrow> same_rest b c \<Longrightarrow> same_rest a c"
  by (simp_all add: same_rest_def)

lemma same_rest_upd [simp]:
  "same_rest c (c\<lparr>c_bufpos := a, c_sentlen := b\<rparr>)" "same_rest c (c\<lparr>c_sentlen := b\<rparr>)"
  "same_rest c (c\<lparr>c_sentlen := b, c_reply := l, c_reply_bytes := n\<rparr>)" "same_rest c (c\<lparr>c_reply := l, c_reply_bytes := n\<rparr>)"
  by (simp_all add: same_rest_def rest_of_def)

lemma first_reply_ok:
  assumes ok: "net_ok env ext cont (st, c) (Some t # ts)" and b: "c_bufpos c = 0"
  shows "first_reply env (st, c) = Some (hd (c_reply c), length t, drop (c_sentlen c) t, mem_at env st (hd (c_reply c)))"
proof -
  obtain a as ob s where a: "c_reply c = a # as" "objs st a = Some ob" "encoding ob \<noteq> REDIS_ENCODING_INT" "ptr ob = Sds s" "sds_repr s t"
    using ok by (auto simp: net_ok_def texts_at_def list_all2_Cons2)
  have sd: "sdslen s = length t" "read_bytes (s_buf s) 0 (length t) = Some t" using a(5) by (simp_all add: sds_texts)
  have sent: "c_sentlen c \<le> length t" using ok b by (auto simp: net_ok_def buffer_ok_def)
  have "read_bytes (s_buf s) (c_sentlen c) (length t - c_sentlen c) = Some (drop (c_sentlen c) t)"
    using sd(2) sent by (auto simp: read_bytes_def drop_take [symmetric] split: if_splits)
  moreover have "getStringObjectSdsUsedMemory env ob = Some (mem_at env st a)"
    using a by (cases "encoding ob") (auto simp: getStringObjectSdsUsedMemory_def mem_at_def obj_mem_def sds_of_def)
  ultimately show ?thesis using a sd(1) by (simp add: first_reply_def sds_of_def)
qed

lemma drop_first:
  assumes ok: "net_ok env ext cont (st, c) (Some t # ts)" and b: "c_bufpos c = 0"
  shows "\<exists>st'. decrRefCount st (hd (c_reply c)) = Some st'
    \<and> net_ok env ext cont (st', c\<lparr>c_sentlen := 0, c_reply := tl (c_reply c),
        c_reply_bytes := c_reply_bytes c - mem_at env st (hd (c_reply c))\<rparr>) ts"
proof -
  have n: "texts_at st (c_reply c) (Some t # ts)" "refs_ok ext st (c_reply c)" "ext_ok ext cont st" "buffer_ok c (Some t # ts)"
    "c_reply_bytes c = sum_list (map (mem_at env st) (c_reply c))" using ok by (simp_all add: net_ok_def)
  obtain a as ob where a: "c_reply c = a # as" "objs st a = Some ob" "ptr ob \<noteq> Long 0" and ts: "texts_at st as ts"
    using n(1) by (auto simp: texts_at_def list_all2_Cons2)
  obtain st' where st': "decrRefCount st a = Some st'" "refs_ok ext st' as" "keeps (set as \<union> {a. 0 < ext a}) st st'"
    using refs_drop [of ext st "[]" a as ob] n(2) a by auto
  have k: "keeps (set as) st st'" "keeps {a. 0 < ext a} st st'" using keeps_sub [OF st'(3)] by auto
  have "net_ok env ext cont (st', c\<lparr>c_sentlen := 0, c_reply := as, c_reply_bytes := c_reply_bytes c - mem_at env st a\<rparr>) ts"
    using keeps_texts [OF k(1) ts] keeps_mem [OF k(1) ts, of env] keeps_ext [OF k(2) n(3)] st'(2) n(4,5) a(1) b
    by (simp add: net_ok_def buffer_ok_def)
  then show ?thesis using st'(1) a(1) by simp
qed

text \<open>The bytes \<open>y\<close> leave the pending output.\<close>

definition sends :: "net_env \<Rightarrow> (nat \<Rightarrow> nat) \<Rightarrow> (nat \<Rightarrow> byte list option) \<Rightarrow> client \<Rightarrow> byte list option list \<Rightarrow> byte list \<Rightarrow> net \<Rightarrow> bool" where
  "sends env ext cont c ts y n \<longleftrightarrow> (\<exists>st' c' ts'. n = (st', c') \<and> net_ok env ext cont (st', c') ts' \<and> None \<notin> set ts'
     \<and> length ts' \<le> length ts \<and> same_rest c c' \<and> pending c ts = y @ pending c' ts')"

lemma write_buffer:
  assumes ok: "net_ok env ext cont (st, c) ts" and b: "0 < c_bufpos c" and x: "x = take (c_bufpos c - c_sentlen c) (drop (c_sentlen c) (c_buf c))"
    and y: "y = take k x" "y \<noteq> []" and sent: "sent = c_sentlen c + length y"
    and c': "c' = (if sent = c_bufpos c then c\<lparr>c_bufpos := 0, c_sentlen := 0\<rparr> else c\<lparr>c_sentlen := sent\<rparr>)"
  shows "read_bytes (c_buf c) (c_sentlen c) (c_bufpos c - c_sentlen c) = Some x \<and> net_ok env ext cont (st, c') ts
    \<and> pending c ts = y @ pending c' ts"
proof -
  have bo: "length (c_buf c) = REDIS_REPLY_CHUNK_BYTES" "c_bufpos c \<le> REDIS_REPLY_CHUNK_BYTES" "c_sentlen c < c_bufpos c"
    using ok b by (auto simp: net_ok_def buffer_ok_def)
  have rd: "read_bytes (c_buf c) (c_sentlen c) (c_bufpos c - c_sentlen c) = Some x" using bo by (simp add: read_bytes_def x)
  have lx: "length x = c_bufpos c - c_sentlen c" using bo by (simp add: x)
  have xd: "x = drop (c_sentlen c) (take (c_bufpos c) (c_buf c))" by (simp add: x drop_take)
  define q where "q = concat (map text_of ts)"
  have lt: "length (take (c_bufpos c) (c_buf c)) = c_bufpos c" using bo by simp
  have p: "pending c ts = x @ q" using b bo(3) lt unfolding pending_def xd q_def by simp
  have ly: "length y \<le> length x" "0 < length y" using y by auto
  have xy: "x = y @ drop (length y) x" using y(1) by (metis append_take_drop_id length_take min.absorb_iff2 min_def take_all_iff nle_le)
  show ?thesis
  proof (cases "sent = c_bufpos c")
    case True
    then have "length y = length x" using lx sent bo(3) by simp
    then have "x = y" using xy by simp
    moreover have "net_ok env ext cont (st, c') ts" "pending c' ts = q"
      using ok True by (simp_all add: net_ok_def buffer_ok_def c' pending_def q_def)
    ultimately show ?thesis using rd p by simp
  next
    case False
    then have s: "sent < c_bufpos c" using ly(1) lx sent bo(3) by linarith
    have "net_ok env ext cont (st, c') ts" using ok False s b by (simp add: net_ok_def buffer_ok_def c')
    moreover have "pending c' ts = drop (length y) x @ q"
      using False s b lt by (simp add: pending_def c' xd sent q_def add.commute)
    ultimately show ?thesis using rd p xy by (metis append.assoc)
  qed
qed

lemma write_first:
  assumes ok: "net_ok env ext cont (st, c) (Some t # ts)" and b: "c_bufpos c = 0" and y: "y = take k (drop (c_sentlen c) t)" "y \<noteq> []"
  shows "c_sentlen c + length y \<noteq> length t \<Longrightarrow> net_ok env ext cont (st, c\<lparr>c_sentlen := c_sentlen c + length y\<rparr>) (Some t # ts)"
    and "pending c (Some t # ts) = y @ drop (c_sentlen c + length y) t @ concat (map text_of ts)" "c_sentlen c + length y \<le> length t"
proof -
  have ly: "length y \<le> length t - c_sentlen c" "0 < length y" using y by auto
  have sent: "c_sentlen c \<le> length t" using ok b by (auto simp: net_ok_def buffer_ok_def)
  show "c_sentlen c + length y \<le> length t" using ly sent by simp
  then show "net_ok env ext cont (st, c\<lparr>c_sentlen := c_sentlen c + length y\<rparr>) (Some t # ts)" if "c_sentlen c + length y \<noteq> length t"
    using that ok b by (simp add: net_ok_def buffer_ok_def)
  define d where "d = drop (c_sentlen c) t"
  have "y @ drop (length y) d = d" using y(1) unfolding d_def [symmetric] by (cases "k \<le> length d") auto
  moreover have "drop (length y) d = drop (c_sentlen c + length y) t" by (simp add: d_def add.commute)
  ultimately show "pending c (Some t # ts) = y @ drop (c_sentlen c + length y) t @ concat (map text_of ts)"
    using b sent unfolding pending_def by (simp add: d_def)
qed

lemma sendsI:
  "net_ok env ext cont (st', c') ts' \<Longrightarrow> None \<notin> set ts' \<Longrightarrow> length ts' \<le> length ts \<Longrightarrow> same_rest c c' \<Longrightarrow>
    pending c ts = y @ pending c' ts' \<Longrightarrow> sends env ext cont c ts y (st', c')"
  unfolding sends_def by blast

lemma sends_step:
  assumes "sends env ext cont c1 ts1 y n" and "pending c ts = x @ pending c1 ts1" "same_rest c c1" "length ts1 \<le> length ts"
  shows "sends env ext cont c ts (x @ y) n"
proof -
  obtain st' c' ts' where n: "n = (st', c')" "net_ok env ext cont (st', c') ts'" "None \<notin> set ts'"
    "length ts' \<le> length ts1" "same_rest c1 c'" "pending c1 ts1 = y @ pending c' ts'" using assms(1) unfolding sends_def by blast
  have "same_rest c c'" using assms(3) n(5) by (rule same_rest_trans)
  with n assms show ?thesis unfolding n(1) by (intro sendsI [OF n(2,3)]) simp_all
qed

text \<open>What a run of the loop gives; the first call of \<open>write\<close> makes progress if the kernel takes a byte.\<close>

definition writable :: "io \<Rightarrow> bool" where
  "writable ws \<longleftrightarrow> (case ws of (Some k, _) # _ \<Rightarrow> 0 < k | _ \<Rightarrow> False)"

definition loop_result :: "net_env \<Rightarrow> (nat \<Rightarrow> nat) \<Rightarrow> (nat \<Rightarrow> byte list option) \<Rightarrow> client \<Rightarrow> byte list option list \<Rightarrow> io
    \<Rightarrow> byte list \<Rightarrow> (net \<times> int \<times> nat \<times> byte list) option \<Rightarrow> bool" where
  "loop_result env ext cont c ts ws out r \<longleftrightarrow> (\<exists>n nw tot y. r = Some (n, nw, tot, out @ y) \<and> sends env ext cont c ts y n
     \<and> (writable ws \<longrightarrow> pending c ts \<noteq> [] \<longrightarrow> y \<noteq> []) \<and> (nw = - 1 \<longrightarrow> None \<in> fst ` set ws)
     \<and> (pending c ts = [] \<longrightarrow> c_reply (snd n) = []))"

lemma loop_resultI:
  "r = Some (n, nw, tot, out @ y) \<Longrightarrow> sends env ext cont c ts y n \<Longrightarrow> (writable ws \<Longrightarrow> pending c ts \<noteq> [] \<Longrightarrow> y \<noteq> [])
    \<Longrightarrow> (nw = - 1 \<Longrightarrow> None \<in> fst ` set ws) \<Longrightarrow> (pending c ts = [] \<Longrightarrow> c_reply (snd n) = []) \<Longrightarrow> loop_result env ext cont c ts ws out r"
  unfolding loop_result_def by blast

lemma loop_result_step:
  assumes "loop_result env ext cont c1 ts1 ws1 (out @ x) r" and "pending c ts = x @ pending c1 ts1" "same_rest c c1" "length ts1 \<le> length ts"
    and "writable ws \<Longrightarrow> x \<noteq> [] \<or> ws1 = ws" and "set ws1 \<subseteq> set ws"
  shows "loop_result env ext cont c ts ws out r"
proof -
  obtain n nw tot y where r: "r = Some (n, nw, tot, (out @ x) @ y)" "sends env ext cont c1 ts1 y n"
    "writable ws1 \<longrightarrow> pending c1 ts1 \<noteq> [] \<longrightarrow> y \<noteq> []" "nw = - 1 \<longrightarrow> None \<in> fst ` set ws1"
    "pending c1 ts1 = [] \<longrightarrow> c_reply (snd n) = []"
    using assms(1) unfolding loop_result_def by blast
  show ?thesis
    by (rule loop_resultI [OF _ sends_step [OF r(2) assms(2-4)]]) (use r assms(2,5,6) in auto)
qed

lemma loop_result_none:
  assumes "net_ok env ext cont (st, c) ts" and "None \<notin> set ts" "r = Some ((st, c), nw, tot, out)"
    and "\<not> writable ws \<or> pending c ts = []" "pending c ts = [] \<Longrightarrow> c_reply c = []" "nw = - 1 \<Longrightarrow> None \<in> fst ` set ws"
  shows "loop_result env ext cont c ts ws out r"
  by (rule loop_resultI [where y = "[]"]) (use assms in \<open>auto intro: sendsI [OF assms(1,2)] same_rest_refl\<close>)

lemma write_some_pos: "write_some x room = (nw, y) \<Longrightarrow> 0 < nw \<Longrightarrow> \<exists>k. room = Some k \<and> y = take k x \<and> y \<noteq> [] \<and> nat nw = length y"
  by (auto simp: write_some_def split: option.splits)

lemma write_some_zero:
  "write_some x room = (nw, y) \<Longrightarrow> nw \<le> 0 \<Longrightarrow> x \<noteq> [] \<Longrightarrow> \<not> writable ((room, m) # ws) \<and> (nw = - 1 \<longrightarrow> room = None)"
  by (cases x) (auto simp: write_some_def writable_def split: option.splits)

text \<open>One iteration: from the buffer, and from the first object.\<close>

lemma loop_buffer:
  assumes "0 < c_bufpos c" and "read_bytes (c_buf c) (c_sentlen c) (c_bufpos c - c_sentlen c) = Some x"
  shows "send_loop env (st, c) [] nw tot out = Some ((st, c), 0, tot, out)"
    and "write_some x room = (k, y) \<Longrightarrow> k \<le> 0 \<Longrightarrow> send_loop env (st, c) ((room, m) # ws) nw tot out = Some ((st, c), k, tot, out)"
    and "write_some x room = (k, y) \<Longrightarrow> 0 < k \<Longrightarrow>
      c' = (if c_sentlen c + nat k = c_bufpos c then c\<lparr>c_bufpos := 0, c_sentlen := 0\<rparr> else c\<lparr>c_sentlen := c_sentlen c + nat k\<rparr>) \<Longrightarrow>
      send_loop env (st, c) ((room, m) # ws) nw tot out = (if tot + nat k > REDIS_MAX_WRITE_PER_EVENT \<and> m
        then Some ((st, c'), k, tot + nat k, out @ y) else send_loop env (st, c') ws k (tot + nat k) (out @ y))"
  using assms by (auto simp: send_loop.simps [of env st c] Let_def)

lemma loop_first:
  assumes "c_bufpos c = 0" and "c_reply c \<noteq> []" and "first_reply env (st, c) = Some (a, n, x, mem)"
  shows "n = 0 \<Longrightarrow> decrRefCount st (hd (c_reply c)) = Some st1 \<Longrightarrow> send_loop env (st, c) ws nw tot out =
      send_loop env (st1, c\<lparr>c_reply := tl (c_reply c), c_reply_bytes := c_reply_bytes c - mem\<rparr>) ws nw tot out"
    and "n \<noteq> 0 \<Longrightarrow> send_loop env (st, c) [] nw tot out = Some ((st, c), 0, tot, out)"
    and "n \<noteq> 0 \<Longrightarrow> write_some x room = (k, y) \<Longrightarrow> k \<le> 0 \<Longrightarrow>
      send_loop env (st, c) ((room, m) # ws) nw tot out = Some ((st, c), k, tot, out)"
    and "n \<noteq> 0 \<Longrightarrow> write_some x room = (k, y) \<Longrightarrow> 0 < k \<Longrightarrow>
      (if c_sentlen c + nat k = n then del_first (st, c\<lparr>c_sentlen := 0\<rparr>) mem else Some (st, c\<lparr>c_sentlen := c_sentlen c + nat k\<rparr>)) = Some (st2, c2) \<Longrightarrow>
      send_loop env (st, c) ((room, m) # ws) nw tot out = (if tot + nat k > REDIS_MAX_WRITE_PER_EVENT \<and> m
        then Some ((st2, c2), k, tot + nat k, out @ y) else send_loop env (st2, c2) ws k (tot + nat k) (out @ y))"
  using assms by (auto simp: send_loop.simps [of env st c] Let_def)

lemma take_first:
  assumes ok: "net_ok env ext cont (st, c) (Some t # ts)" and b: "c_bufpos c = 0"
    and y: "y = take j (drop (c_sentlen c) t)" "y \<noteq> []" and full: "None \<notin> set ts"
  shows "\<exists>st2 c2 ts2. (if c_sentlen c + length y = length t then del_first (st, c\<lparr>c_sentlen := 0\<rparr>) (mem_at env st (hd (c_reply c)))
      else Some (st, c\<lparr>c_sentlen := c_sentlen c + length y\<rparr>)) = Some (st2, c2)
    \<and> net_ok env ext cont (st2, c2) ts2 \<and> None \<notin> set ts2 \<and> length ts2 \<le> length (Some t # ts) \<and> same_rest c c2
    \<and> pending c (Some t # ts) = y @ pending c2 ts2"
proof -
  note wf = write_first [OF ok b y]
  show ?thesis
  proof (cases "c_sentlen c + length y = length t")
    case True
    obtain st1 where st1: "decrRefCount st (hd (c_reply c)) = Some st1"
      "net_ok env ext cont (st1, c\<lparr>c_sentlen := 0, c_reply := tl (c_reply c),
          c_reply_bytes := c_reply_bytes c - mem_at env st (hd (c_reply c))\<rparr>) ts" using drop_first [OF ok b] by blast
    have "del_first (st, c\<lparr>c_sentlen := 0\<rparr>) (mem_at env st (hd (c_reply c))) = Some (st1, c\<lparr>c_sentlen := 0, c_reply := tl (c_reply c),
          c_reply_bytes := c_reply_bytes c - mem_at env st (hd (c_reply c))\<rparr>)" using st1(1) by (simp add: del_first_def)
    moreover have "pending c (Some t # ts) = y @ pending (c\<lparr>c_sentlen := 0, c_reply := tl (c_reply c),
          c_reply_bytes := c_reply_bytes c - mem_at env st (hd (c_reply c))\<rparr>) ts"
      unfolding wf(2) using True b by (simp add: pending_def)
    ultimately show ?thesis using True st1(2) full by force
  next
    case False
    have "pending c (Some t # ts) = y @ pending (c\<lparr>c_sentlen := c_sentlen c + length y\<rparr>) (Some t # ts)"
      unfolding wf(2) using False b wf(3) by (simp add: pending_def)
    then show ?thesis using False wf(1) full by force
  qed
qed

lemma nothing_left:
  assumes "net_ok env ext cont (st, c) ts" and "pending c ts = []"
  shows "c_bufpos c = 0"
proof (rule ccontr)
  assume b: "c_bufpos c \<noteq> 0"
  then have "c_sentlen c < c_bufpos c" "length (take (c_bufpos c) (c_buf c)) = c_bufpos c"
    using assms(1) by (auto simp: net_ok_def buffer_ok_def)
  then show False using assms(2) b by (simp add: pending_def)
qed

lemma send_loop_ok:
  assumes "net_ok env ext cont (st, c) ts" and "None \<notin> set ts" and "nw \<noteq> - 1"
  shows "loop_result env ext cont c ts ws out (send_loop env (st, c) ws nw tot out)"
  using assms
proof (induction "length ws + length ts" arbitrary: ws st c ts nw tot out rule: less_induct)
  case less
  note ok = less.prems(1) and full = less.prems(2)
  show ?case
  proof (cases "0 < c_bufpos c")
    case True
    have bo: "length (c_buf c) = REDIS_REPLY_CHUNK_BYTES" "c_bufpos c \<le> REDIS_REPLY_CHUNK_BYTES" "c_sentlen c < c_bufpos c"
      using ok True by (auto simp: net_ok_def buffer_ok_def)
    define x where "x = take (c_bufpos c - c_sentlen c) (drop (c_sentlen c) (c_buf c))"
    have rd: "read_bytes (c_buf c) (c_sentlen c) (c_bufpos c - c_sentlen c) = Some x" "x \<noteq> []"
      using bo by (auto simp: read_bytes_def x_def)
    note lp = loop_buffer [OF True rd(1)]
    have pne: "pending c ts \<noteq> []" using nothing_left [OF ok] True by auto
    show ?thesis
    proof (cases ws)
      case Nil
      then show ?thesis using lp(1) pne by (intro loop_result_none [OF ok full, where nw = 0 and tot = tot]) (simp_all add: writable_def)
    next
      case (Cons w ws')
      obtain room m where w: "ws = (room, m) # ws'" using Cons by (cases w) auto
      obtain k y where k: "write_some x room = (k, y)" by (cases "write_some x room")
      show ?thesis
      proof (cases "k \<le> 0")
        case True
        from write_some_zero [OF k True rd(2), of m ws'] pne show ?thesis unfolding w lp(2) [OF k True]
          by (intro loop_result_none [OF ok full, where nw = k and tot = tot]) auto
      next
        case pos: False
        then obtain j where j: "y = take j x" "y \<noteq> []" "nat k = length y" using write_some_pos [OF k] by auto
        define c1 where "c1 = (if c_sentlen c + length y = c_bufpos c then c\<lparr>c_bufpos := 0, c_sentlen := 0\<rparr> else c\<lparr>c_sentlen := c_sentlen c + length y\<rparr>)"
        note wb = write_buffer [OF ok True x_def j(1,2) refl c1_def]
        have same: "same_rest c c1" by (simp add: c1_def)
        have run: "send_loop env (st, c) ws nw tot out = (if tot + length y > REDIS_MAX_WRITE_PER_EVENT \<and> m
          then Some ((st, c1), k, tot + length y, out @ y) else send_loop env (st, c1) ws' k (tot + length y) (out @ y))"
          unfolding w by (rule lp(3) [OF k _ c1_def [folded j(3)], unfolded j(3)]) (use pos in simp)
        have "loop_result env ext cont c1 ts ws' (out @ y) (send_loop env (st, c1) ws' k (tot + length y) (out @ y))"
          by (rule less.hyps) (use wb full pos w in auto)
        then have "loop_result env ext cont c ts ws out (send_loop env (st, c1) ws' k (tot + length y) (out @ y))"
          by (rule loop_result_step) (use wb same j(2) w in auto)
        moreover have "loop_result env ext cont c ts ws out (Some ((st, c1), k, tot + length y, out @ y))"
          by (rule loop_resultI [OF refl sendsI]) (use wb full same j(2) pos in auto)
        ultimately show ?thesis unfolding run by simp
      qed
    qed
  next
    case False
    show ?thesis
    proof (cases ts)
      case Nil
      then have "c_reply c = []" "pending c ts = []" using ok False by (auto simp: net_ok_def texts_at_def pending_def)
      then show ?thesis using False less.prems(3) by (intro loop_result_none [OF ok full, where nw = nw and tot = tot]) (auto simp: send_loop.simps)
    next
      case (Cons u ts')
      then obtain t where t: "ts = Some t # ts'" using full by (cases u) auto
      have b: "c_bufpos c = 0" using False by simp
      have ne: "c_reply c \<noteq> []" using ok t by (auto simp: net_ok_def texts_at_def list_all2_Cons2)
      note first = first_reply_ok [OF ok [unfolded t] b]
      obtain st1 where st1: "decrRefCount st (hd (c_reply c)) = Some st1"
        and ok1: "net_ok env ext cont (st1, c\<lparr>c_sentlen := 0, c_reply := tl (c_reply c),
          c_reply_bytes := c_reply_bytes c - mem_at env st (hd (c_reply c))\<rparr>) ts'" using drop_first [OF ok [unfolded t] b] by blast
      show ?thesis
      proof (cases "t = []")
        case True
        have "c_sentlen c = 0" using ok t True b by (auto simp: net_ok_def buffer_ok_def)
        then have c0: "c\<lparr>c_reply := r, c_reply_bytes := m\<rparr> = c\<lparr>c_sentlen := 0, c_reply := r, c_reply_bytes := m\<rparr>" for r m by (cases c) simp
        have run: "send_loop env (st, c) ws nw tot out = send_loop env (st1, c\<lparr>c_sentlen := 0, c_reply := tl (c_reply c),
            c_reply_bytes := c_reply_bytes c - mem_at env st (hd (c_reply c))\<rparr>) ws nw tot out"
          unfolding c0 [symmetric] by (rule loop_first(1) [OF b ne first _ st1]) (simp add: True)
        have p: "pending c ts = pending (c\<lparr>c_sentlen := 0, c_reply := tl (c_reply c),
            c_reply_bytes := c_reply_bytes c - mem_at env st (hd (c_reply c))\<rparr>) ts'"
          using b t True \<open>c_sentlen c = 0\<close> by (simp add: pending_def)
        define c1 where "c1 = c\<lparr>c_sentlen := 0, c_reply := tl (c_reply c), c_reply_bytes := c_reply_bytes c - mem_at env st (hd (c_reply c))\<rparr>"
        have "loop_result env ext cont c1 ts' ws (out @ []) (send_loop env (st1, c1) ws nw tot (out @ []))"
          by (rule less.hyps) (use full t less.prems(3) ok1 in \<open>auto simp: c1_def\<close>)
        then have "loop_result env ext cont c ts ws out (send_loop env (st1, c1) ws nw tot (out @ []))"
          by (rule loop_result_step) (use t p in \<open>auto simp: c1_def\<close>)
        then show ?thesis unfolding run c1_def [symmetric] by simp
      next
        case False
        then have n0: "length t \<noteq> 0" by simp
        have sent: "c_sentlen c < length t" using ok t b False by (auto simp: net_ok_def buffer_ok_def)
        note lp = loop_first [OF b ne first]
        define x where "x = drop (c_sentlen c) t"
        have xn: "x \<noteq> []" using sent by (simp add: x_def)
        have pne: "pending c ts \<noteq> []" using sent b t by (simp add: pending_def)
        show ?thesis
        proof (cases ws)
          case Nil
          then show ?thesis using lp(2) [OF n0] pne
            by (intro loop_result_none [OF ok full, where nw = 0 and tot = tot]) (simp_all add: writable_def)
        next
          case (Cons w ws')
          obtain room m where w: "ws = (room, m) # ws'" using Cons by (cases w) auto
          obtain k y where k: "write_some x room = (k, y)" by (cases "write_some x room")
          show ?thesis
          proof (cases "k \<le> 0")
            case True
            from write_some_zero [OF k True xn, of m ws'] pne show ?thesis unfolding w lp(3) [OF n0 k [unfolded x_def] True]
              by (intro loop_result_none [OF ok full, where nw = k and tot = tot]) auto
          next
            case pos: False
            then obtain j where j: "y = take j x" "y \<noteq> []" "nat k = length y" using write_some_pos [OF k] by auto
            obtain st2 c2 ts2 where 2: "(if c_sentlen c + nat k = length t then del_first (st, c\<lparr>c_sentlen := 0\<rparr>) (mem_at env st (hd (c_reply c)))
                else Some (st, c\<lparr>c_sentlen := c_sentlen c + nat k\<rparr>)) = Some (st2, c2)"
              and ok2: "net_ok env ext cont (st2, c2) ts2" "None \<notin> set ts2" "length ts2 \<le> length ts" "same_rest c c2"
                "pending c ts = y @ pending c2 ts2"
              using take_first [OF ok [unfolded t] b j(1) [unfolded x_def] j(2)] full unfolding t j(3) by auto
            note run = lp(4) [OF n0 k [unfolded x_def] _ 2, of m ws' nw tot out, unfolded j(3)]
            have "loop_result env ext cont c2 ts2 ws' (out @ y) (send_loop env (st2, c2) ws' k (tot + length y) (out @ y))"
              by (rule less.hyps) (use ok2 pos w in auto)
            then have "loop_result env ext cont c ts ws out (send_loop env (st2, c2) ws' k (tot + length y) (out @ y))"
              by (rule loop_result_step) (use ok2 j(2) w in auto)
            moreover have "loop_result env ext cont c ts ws out (Some ((st2, c2), k, tot + length y, out @ y))"
              by (rule loop_resultI [OF refl sendsI]) (use ok2 j(2) pos in auto)
            ultimately show ?thesis using run pos unfolding w by (cases m) simp_all
          qed
        qed
      qed
    qed
  qed
qed

text \<open>One event of the socket.\<close>

lemma same_rest_flags:
  assumes "same_rest c c'"
  shows "c_close_after_reply c' = c_close_after_reply c" "takes_reply c' = takes_reply c" "c_handler c' = c_handler c"
    "c_lua c' = c_lua c" "c_replstate c' = c_replstate c" "c_buf c' = c_buf c"
  using assms by (cases c; cases c'; simp add: same_rest_def rest_of_def takes_reply_def can_write_def)+

lemma no_pending:
  assumes "net_ok env ext cont (st, c) ts"
  shows "c_bufpos c = 0 \<and> c_reply c = [] \<Longrightarrow> ts = [] \<and> pending c ts = []"
  using assms by (auto simp: net_ok_def texts_at_def pending_def)

lemma sends_handler:
  assumes ok: "net_ok env ext cont (st, c) ts" and h: "handler_ok c" and s: "sends env ext cont c ts y (st1, c1)"
  shows "handler_ok c1"
proof (cases "c_bufpos c = 0 \<and> c_reply c = []")
  case True
  obtain ts1 where 1: "net_ok env ext cont (st1, c1) ts1" "length ts1 \<le> length ts" "pending c ts = y @ pending c1 ts1"
    using s unfolding sends_def by blast
  have "ts = []" "pending c ts = []" using no_pending [OF ok True] by blast+
  then have "ts1 = []" "pending c1 ts1 = []" using 1 by simp_all
  then show ?thesis using nothing_left [OF 1(1)] 1(1) by (simp add: handler_ok_def net_ok_def texts_at_def)
next
  case False
  have "same_rest c c1" using s unfolding sends_def by blast
  from same_rest_flags [OF this] show ?thesis using h False by (auto simp: handler_ok_def)
qed

lemma sendReplyToClient_ok:
  assumes ok: "net_ok env ext cont (st, c) ts" and full: "None \<notin> set ts" and h: "handler_ok c"
  shows "\<exists>st' c' ts' y freed. sendReplyToClient env (st, c) ws again = Some ((st', c'), y, freed)
    \<and> net_ok env ext cont (st', c') ts' \<and> None \<notin> set ts' \<and> length ts' \<le> length ts \<and> handler_ok c'
    \<and> c_close_after_reply c' = c_close_after_reply c \<and> takes_reply c' = takes_reply c
    \<and> pending c ts = y @ pending c' ts' \<and> (writable ws \<longrightarrow> pending c ts \<noteq> [] \<longrightarrow> y \<noteq> [])
    \<and> (freed \<longrightarrow> None \<in> fst ` set ws \<and> \<not> again \<or> c_close_after_reply c \<and> pending c' ts' = [])
    \<and> (again \<longrightarrow> (if c_bufpos c' = 0 \<and> c_reply c' = [] then \<not> c_handler c' \<and> freed = c_close_after_reply c else \<not> freed))
    \<and> (pending c ts = [] \<longrightarrow> c_bufpos c' = 0 \<and> c_reply c' = [])"
proof -
  have "loop_result env ext cont c ts ws [] (send_loop env (st, c) ws 0 0 [])" by (rule send_loop_ok [OF ok full]) simp
  then obtain n nw tot y where l0: "send_loop env (st, c) ws 0 0 [] = Some (n, nw, tot, y)" and s: "sends env ext cont c ts y n"
    and w: "writable ws \<longrightarrow> pending c ts \<noteq> [] \<longrightarrow> y \<noteq> []" "nw = - 1 \<longrightarrow> None \<in> fst ` set ws"
      "pending c ts = [] \<longrightarrow> c_reply (snd n) = []"
    unfolding loop_result_def append_Nil by blast
  obtain st1 c1 ts1 where n: "n = (st1, c1)" and ok1: "net_ok env ext cont (st1, c1) ts1" "None \<notin> set ts1" "length ts1 \<le> length ts" "same_rest c c1" "pending c ts = y @ pending c1 ts1"
    using s unfolding sends_def by blast
  note l = l0 [unfolded n]
  note fl = same_rest_flags [OF ok1(4)]
  have "sends env ext cont c ts y (st1, c1)" by (rule sendsI [OF ok1])
  then have h1: "handler_ok c1" by (rule sends_handler [OF ok h])
  have emp: "pending c ts = [] \<longrightarrow> c_bufpos c1 = 0 \<and> c_reply c1 = []"
    using w(3) n nothing_left [OF ok1(1)] ok1(5) by auto
  consider (fail) "nw = - 1 \<and> \<not> again" | (empty) "\<not> (nw = - 1 \<and> \<not> again)" "c_bufpos c1 = 0 \<and> c_reply c1 = []"
    | (more) "\<not> (nw = - 1 \<and> \<not> again)" "\<not> (c_bufpos c1 = 0 \<and> c_reply c1 = [])" by blast
  then show ?thesis
  proof cases
    case fail
    then have "sendReplyToClient env (st, c) ws again = Some ((st1, c1), y, True)" using l by (simp add: sendReplyToClient_def)
    then show ?thesis using ok1 fl h1 w(1,2) fail emp by blast
  next
    case empty
    define c2 where "c2 = c1\<lparr>c_sentlen := 0, c_handler := False\<rparr>"
    have ts1: "ts1 = []" "pending c1 ts1 = []" using no_pending [OF ok1(1) empty(2)] by blast+
    have "sendReplyToClient env (st, c) ws again = Some ((st1, c2), y, c_close_after_reply c1)"
      using l empty by (auto simp: sendReplyToClient_def c2_def)
    moreover have "net_ok env ext cont (st1, c2) ts1" using ok1(1) by (simp add: net_ok_def buffer_ok_def c2_def)
    moreover have "pending c2 ts1 = []" using ts1 empty(2) by (simp add: pending_def c2_def)
    moreover have "handler_ok c2" "\<not> c_handler c2" using empty(2) by (simp_all add: handler_ok_def c2_def)
    moreover have "c_close_after_reply c2 = c_close_after_reply c" "takes_reply c2 = takes_reply c"
      using fl(1,2) by (simp_all add: c2_def takes_reply_def can_write_def)
    moreover have "c_bufpos c2 = 0" "c_reply c2 = []" using empty(2) by (simp_all add: c2_def)
    ultimately show ?thesis using ok1(2,3,5) ts1(2) w(1) fl(1)
      by (intro exI [of _ st1] exI [of _ c2] exI [of _ ts1] exI [of _ y] exI [of _ "c_close_after_reply c1"]) simp
  next
    case more
    then have "sendReplyToClient env (st, c) ws again = Some ((st1, c1), y, False)" using l by (auto simp: sendReplyToClient_def)
    then show ?thesis using ok1 fl h1 w(1) more emp by (metis (full_types))
  qed
qed

end
