(* ===== verification/Shared_Objects.thy ===== *)
theory Shared_Objects
  imports Client_Replies Sds_Args
begin

text \<open>
  The objects that every client shares (\<open>createSharedObjects\<close> in \<open>src/redis.c\<close>), in the order in which
  the server creates them, and the store after it: every canned reply holds its text, which is what the
  replies of \<open>src/networking.c\<close> rely on.
\<close>

definition str :: "string \<Rightarrow> byte list" where "str s = map of_char s"

text \<open>
  One assignment: \<open>createObject (sdsnew (t))\<close>, \<open>createObject (sdscatprintf (sdsempty (), ...))\<close> with what the
  format gives, \<open>createStringObject (t)\<close>, or an integer object.
\<close>

datatype shared_item = New "byte list" | Printed "byte list" | Literal "byte list" | Integer int

definition create_item :: "(nat \<Rightarrow> byte) \<Rightarrow> shared_item \<Rightarrow> robj option" where
  "create_item fresh item = (case item of
     New t \<Rightarrow> do { s \<leftarrow> sdsnew (Some (t @ [0])) fresh; Some (createObject (Sds s)) }
   | Printed t \<Rightarrow> do { s \<leftarrow> sdsempty fresh; s \<leftarrow> sdscat fresh s (t @ [0]); Some (createObject (Sds s)) }
   | Literal t \<Rightarrow> createStringObject fresh (t @ [0]) (length t)
   | Integer v \<Rightarrow> Some ((createObject (Long v))\<lparr>encoding := REDIS_ENCODING_INT\<rparr>))"

definition reply_items :: "shared_item list" where
  "reply_items = map (\<lambda>t. New (t @ crlf))
    [[], str ''+OK'', str ''-ERR'', str ''$0'' @ crlf, str '':0'', str '':1'', str '':-1'', str ''$-1'', str ''*-1'', str ''*0'',
     str ''+PONG'', str ''+QUEUED'', str ''*2'' @ crlf @ str ''$1'' @ crlf @ str ''0'' @ crlf @ str ''*0'',
     str ''-WRONGTYPE Operation against a key holding the wrong kind of value'',
     str ''-ERR no such key'', str ''-ERR syntax error'',
     str ''-ERR source and destination objects are the same'', str ''-ERR index out of range'',
     str ''-NOSCRIPT No matching script. Please use EVAL.'',
     str ''-LOADING Redis is loading the dataset in memory'',
     str ''-BUSY Redis is busy running a script. You can only call SCRIPT KILL or SHUTDOWN NOSAVE.'',
     str ''-MASTERDOWN Link with MASTER is down and slave-serve-stale-data is set to 'no'.'',
     str ''-MISCONF Redis is configured to save RDB snapshots, but is currently not able to persist on disk. Commands that may modify the data set are disabled. Please check Redis logs for details about the error.'',
     str ''-READONLY You can't write against a read only slave.'',
     str ''-NOAUTH Authentication required.'',
     str ''-OOM command not allowed when used memory > 'maxmemory'.'',
     str ''-EXECABORT Transaction discarded because of previous errors.'',
     str ''-NOREPLICAS Not enough good slaves to write.'',
     str ''-BUSYKEY Target key name already exists.'']"

definition char_items :: "shared_item list" where "char_items = [New (str '' ''), New (str '':''), New (str ''+'')]"

definition select_items :: "shared_item list" where
  "select_items = map (\<lambda>j. let (n, t) = ll2string 64 (int j) in
     Printed (str ''*2'' @ crlf @ str ''$6'' @ crlf @ str ''SELECT'' @ crlf @ bulk_header 36 (int n) @ take n t @ crlf)) [0..<10]"

definition command_items :: "shared_item list" where
  "command_items = map (\<lambda>(n, t). Literal (str n @ crlf @ str t @ crlf))
     [(''$7'', ''message''), (''$8'', ''pmessage''), (''$9'', ''subscribe''), (''$11'', ''unsubscribe''),
      (''$10'', ''psubscribe''), (''$12'', ''punsubscribe'')]
   @ map (\<lambda>t. Literal (str t)) [''DEL'', ''RPOP'', ''LPOP'', ''LPUSH'']"

definition integer_items :: "shared_item list" where "integer_items = map (\<lambda>j. Integer (int j)) [0..<nat REDIS_SHARED_INTEGERS]"

definition header_items :: "shared_item list" where
  "header_items = concat (map (\<lambda>j. [Printed (bulk_header 42 (int j)), Printed (bulk_header 36 (int j))]) [0..<nat REDIS_SHARED_BULKHDR_LEN])"

definition shared_items :: "shared_item list" where
  "shared_items = reply_items @ char_items @ select_items @ command_items @ integer_items @ header_items
     @ [Literal (str ''minstring''), Literal (str ''maxstring'')]"

fun create_items :: "(nat \<Rightarrow> byte) \<Rightarrow> store \<Rightarrow> shared_item list \<Rightarrow> store option" where
  "create_items fresh st [] = Some st"
| "create_items fresh st (i # is) = do { ob \<leftarrow> create_item fresh i; let (st, a) = new_obj st ob; create_items fresh st is }"

text \<open>The fields of \<open>shared\<close> that replies use are the addresses of their objects.\<close>

definition createSharedObjects :: "net_env \<Rightarrow> store \<Rightarrow> (net_env \<times> store) option" where
  "createSharedObjects env st =
     do { st' \<leftarrow> create_items (n_fresh env) st shared_items;
          let a = next_obj st;
          let b = a + length (reply_items @ char_items @ select_items @ command_items @ integer_items);
          Some (env\<lparr>sh_crlf := a, sh_czero := a + 4, sh_cone := a + 5, sh_nullbulk := a + 7,
                     sh_mbulkhdr := (\<lambda>j. b + 2 * j), sh_bulkhdr := (\<lambda>j. b + 2 * j + 1)\<rparr>, st') }"

text \<open>What the items hold.\<close>

definition item_text :: "shared_item \<Rightarrow> byte list" where
  "item_text i = (case i of New t \<Rightarrow> t | Printed t \<Rightarrow> t | Literal t \<Rightarrow> t | Integer v \<Rightarrow> int_text v)"

definition item_ok :: "shared_item \<Rightarrow> bool" where
  "item_ok i = (case i of Integer v \<Rightarrow> is_int64 v | Literal t \<Rightarrow> length t < 2 ^ 20 | New t \<Rightarrow> 0 \<notin> set t \<and> length t < 2 ^ 20
     | Printed t \<Rightarrow> 0 \<notin> set t \<and> length t < 2 ^ 20)"

lemma create_item_holds:
  assumes "item_ok i"
  shows "\<exists>ob. create_item fresh i = Some ob \<and> obj_holds ob (item_text i) \<and> refcount ob = 1"
proof (cases i)
  case (New t)
  then show ?thesis using assms sdsnew_text [of t "[]" fresh]
    by (auto simp: item_ok_def create_item_def item_text_def createObject_def obj_holds_def)
next
  case (Printed t)
  obtain s where s: "sdsempty fresh = Some s" "sds_repr s []" using sdsempty_text by blast
  have t: "0 \<notin> set t" "length t < 2 ^ 20" using assms Printed by (simp_all add: item_ok_def)
  then have "read_bytes (t @ [0]) 0 (length t) = Some t" by (simp add: read_bytes_text)
  from sdscatlen_text [OF s(2) this, of fresh] t obtain s' where "sdscatlen fresh s (t @ [0]) (length t) = Some s'" "sds_repr s' t" by auto
  then show ?thesis using s(1) t Printed
    by (auto simp: create_item_def sdscat_def item_text_def createObject_def obj_holds_def)
next
  case (Literal t)
  then show ?thesis using assms createStringObject_holds [of "t @ [0]" "length t" t fresh] createStringObject_refcount
    by (fastforce simp: item_ok_def create_item_def item_text_def read_bytes_text)
next
  case (Integer v)
  then show ?thesis using assms by (simp add: item_ok_def create_item_def item_text_def createObject_def obj_holds_def)
qed

lemma store_add:
  assumes "store_ok ext cont st" and "obj_holds ob t" "refcount ob = 1" and a: "a = next_obj st"
    and st': "objs st' = (objs st)(a \<mapsto> ob)" "next_obj st' = Suc a"
  shows "store_ok (ext(a := 1)) (cont(a \<mapsto> t)) st'"
proof -
  have "refs_ok (ext(a := 1)) st' []" using assms(1,3) unfolding store_ok_def refs_ok_def st' a by (auto split: if_splits)
  moreover have "ext_ok (ext(a := 1)) (cont(a \<mapsto> t)) st'" using assms(1,2) unfolding store_ok_def ext_ok_def st' by (auto split: if_splits)
  ultimately show ?thesis by (simp add: store_ok_def)
qed

definition range_ext :: "(nat \<Rightarrow> nat) \<Rightarrow> nat \<Rightarrow> nat \<Rightarrow> nat \<Rightarrow> nat" where
  "range_ext ext a n = (\<lambda>b. if a \<le> b \<and> b < a + n then 1 else ext b)"

definition range_cont :: "(nat \<Rightarrow> byte list option) \<Rightarrow> nat \<Rightarrow> shared_item list \<Rightarrow> nat \<Rightarrow> byte list option" where
  "range_cont cont a items = (\<lambda>b. if a \<le> b \<and> b < a + length items then Some (item_text (items ! (b - a))) else cont b)"

lemma create_items_ok:
  "list_all item_ok items \<Longrightarrow> store_ok ext cont st \<Longrightarrow> \<exists>st'. create_items fresh st items = Some st'
    \<and> store_ok (range_ext ext (next_obj st) (length items)) (range_cont cont (next_obj st) items) st'"
proof (induction items arbitrary: st ext cont)
  case Nil
  have "range_ext ext (next_obj st) 0 = ext" "range_cont cont (next_obj st) [] = cont"
    by (auto simp: range_ext_def range_cont_def fun_eq_iff)
  then show ?case using Nil.prems(2) by simp
next
  case (Cons i items)
  obtain ob where ob: "create_item fresh i = Some ob" "obj_holds ob (item_text i)" "refcount ob = 1"
    using create_item_holds Cons.prems(1) by fastforce
  define a where "a = next_obj st"
  define st1 where "st1 = st\<lparr>objs := (objs st)(a \<mapsto> ob), next_obj := Suc a\<rparr>"
  have s1: "objs st1 = (objs st)(a \<mapsto> ob)" "next_obj st1 = Suc a" by (simp_all add: st1_def)
  note ok1 = store_add [OF Cons.prems(2) ob(2,3) a_def s1]
  have "list_all item_ok items" using Cons.prems(1) by simp
  from Cons.IH [OF this ok1] obtain st' where st': "create_items fresh st1 items = Some st'"
    "store_ok (range_ext (ext(a := 1)) (Suc a) (length items)) (range_cont (cont(a \<mapsto> item_text i)) (Suc a) items) st'"
    unfolding s1(2) by blast
  have "range_ext (ext(a := 1)) (Suc a) (length items) = range_ext ext a (length (i # items))"
    by (auto simp: range_ext_def fun_eq_iff)
  moreover have "range_cont (cont(a \<mapsto> item_text i)) (Suc a) items = range_cont cont a (i # items)"
  proof (rule ext)
    fix b
    show "range_cont (cont(a \<mapsto> item_text i)) (Suc a) items b = range_cont cont a (i # items) b"
    proof (cases "Suc a \<le> b")
      case True
      then have "(i # items) ! (b - a) = items ! (b - Suc a)" by (simp add: nth_Cons split: nat.splits) (metis Suc_diff_Suc Suc_le_lessD nat.inject)
      then show ?thesis using True by (simp add: range_cont_def)
    qed (auto simp: range_cont_def)
  qed
  moreover have "create_items fresh st (i # items) = Some st'" using ob(1) st'(1) by (simp add: new_obj_def st1_def a_def)
  ultimately show ?case using st'(2) by (simp add: a_def)
qed

lemma bulk_header_no_nul: "prefix \<noteq> 0 \<Longrightarrow> 0 \<notin> set (bulk_header prefix v)"
  using nul_not_int_text [of v] by (simp add: bulk_header_def)

lemma header_ok: "prefix \<noteq> 0 \<Longrightarrow> j < 1000 \<Longrightarrow> item_ok (Printed (bulk_header prefix (int j)))"
  using bulk_header_no_nul [of prefix "int j"] length_int_text [of "int j"]
  by (simp add: item_ok_def bulk_header_def is_int64_def range_defs)

lemma reply_items_ok: "list_all item_ok reply_items" "list_all item_ok char_items" "list_all item_ok command_items"
  by (simp_all add: reply_items_def char_items_def command_items_def item_ok_def str_def crlf_def)

lemma select_items_ok: "list_all item_ok select_items"
proof -
  have "item_ok (let (n, t) = ll2string 64 (int j) in
     Printed (str ''*2'' @ crlf @ str ''$6'' @ crlf @ str ''SELECT'' @ crlf @ bulk_header 36 (int n) @ take n t @ crlf))" if "j < 10" for j
  proof -
    have j: "is_int64 (int j)" using that by (simp add: is_int64_def range_defs)
    have "length (int_text (int j)) \<le> 20" by (rule length_int_text [OF j])
    moreover have "length (int_text (int (length (int_text (int j))))) \<le> 20"
      using calculation by (intro length_int_text) (simp add: is_int64_def range_defs)
    ultimately show ?thesis using ll2string_text [OF j, of 64] nul_not_int_text bulk_header_no_nul [of 36]
      by (simp add: item_ok_def str_def crlf_def bulk_header_def)
  qed
  then show ?thesis by (simp add: select_items_def list_all_iff)
qed

lemma shared_items_ok: "list_all item_ok shared_items"
proof -
  have "list_all item_ok integer_items"
    by (auto simp: integer_items_def list_all_iff item_ok_def is_int64_def range_defs REDIS_SHARED_INTEGERS_def)
  moreover have "list_all item_ok header_items"
    using header_ok [of 42] header_ok [of 36] by (auto simp: header_items_def list_all_iff REDIS_SHARED_BULKHDR_LEN_def)
  moreover have "list_all item_ok [Literal (str ''minstring''), Literal (str ''maxstring'')]" by (simp add: item_ok_def str_def)
  ultimately show ?thesis using reply_items_ok select_items_ok unfolding shared_items_def list_all_append by blast
qed

text \<open>After the start every canned reply holds its text.\<close>

lemma shared_items_nth:
  shows "item_text (shared_items ! 0) = crlf" "item_text (shared_items ! 4) = bulk_header 58 0"
    "item_text (shared_items ! 5) = bulk_header 58 1" "item_text (shared_items ! 7) = bulk_header 36 (- 1)" "7 < length shared_items"
  by (simp_all add: shared_items_def reply_items_def item_text_def str_def crlf_def bulk_header_def int_text_def
      decimal.simps digit_char_def numeral_eq_Suc)

lemma pairs_nth:
  assumes "j < n"
  shows "concat (map (\<lambda>j. [f j, g j]) [0..<n]) ! (2 * j) = f j \<and> concat (map (\<lambda>j. [f j, g j]) [0..<n]) ! (2 * j + 1) = g j"
  using assms
proof (induction n)
  case (Suc n)
  have "length (concat (map (\<lambda>j. [f j, g j]) [0..<n])) = 2 * n" by (induction n) simp_all
  then show ?case using Suc by (cases "j = n") (simp_all add: nth_append)
qed simp

lemma header_items_nth:
  assumes "j < 32"
  shows "item_text (header_items ! (2 * j)) = bulk_header 42 (int j)" "item_text (header_items ! (2 * j + 1)) = bulk_header 36 (int j)"
  using pairs_nth [OF assms, of "\<lambda>j. Printed (bulk_header 42 (int j))" "\<lambda>j. Printed (bulk_header 36 (int j))"]
  by (simp_all add: header_items_def REDIS_SHARED_BULKHDR_LEN_def item_text_def)

lemma header_items_length: "length header_items = 64"
  by (simp add: header_items_def REDIS_SHARED_BULKHDR_LEN_def length_concat comp_def sum_list_triv)

theorem createSharedObjects_ok:
  assumes "store_ok ext cont st"
  shows "\<exists>env' st' ext' cont'. createSharedObjects env st = Some (env', st') \<and> store_ok ext' cont' st' \<and> shared_ok env' cont'
    \<and> zmalloc_size_sds env' = zmalloc_size_sds env \<and> el_accepts env' = el_accepts env
    \<and> (\<forall>a < next_obj st. cont' a = cont a \<and> ext' a = ext a)"
proof -
  define a where "a = next_obj st"
  define pre where "pre = reply_items @ char_items @ select_items @ command_items @ integer_items"
  define rest where "rest = header_items @ [Literal (str ''minstring''), Literal (str ''maxstring'')]"
  define b where "b = a + length pre"
  have items: "shared_items = pre @ rest" by (simp add: shared_items_def pre_def rest_def)
  define cont' where "cont' = range_cont cont a shared_items"
  define ext' where "ext' = range_ext ext a (length shared_items)"
  obtain st' where st': "create_items (n_fresh env) st shared_items = Some st'" "store_ok ext' cont' st'"
    using create_items_ok [OF shared_items_ok assms, of "n_fresh env"] unfolding cont'_def ext'_def a_def by blast
  define env' where "env' = env\<lparr>sh_crlf := a, sh_czero := a + 4, sh_cone := a + 5, sh_nullbulk := a + 7,
    sh_mbulkhdr := (\<lambda>j. b + 2 * j), sh_bulkhdr := (\<lambda>j. b + 2 * j + 1)\<rparr>"
  have c: "createSharedObjects env st = Some (env', st')"
    using st'(1) unfolding createSharedObjects_def pre_def [symmetric] a_def [symmetric] by (simp add: env'_def b_def Let_def)
  have at: "cont' (a + k) = Some (item_text (shared_items ! k))" if "k < length shared_items" for k
    using that by (simp add: cont'_def range_cont_def)
  have low: "cont' (a + k) = Some (item_text (shared_items ! k))" if "k \<le> 7" for k
    by (rule at) (use shared_items_nth(5) that in simp)
  have hdr: "cont' (b + i) = Some (item_text (header_items ! i))" if "i < 64" for i
    using at [of "length pre + i"] that header_items_length
    by (simp add: items rest_def nth_append b_def add.assoc)
  have "shared_ok env' cont'"
    unfolding shared_ok_def list_all_iff
  proof (intro conjI ballI)
    fix j assume "j \<in> set [0..<32 :: nat]"
    then have j: "j < 32" by simp
    show "cont' (sh_mbulkhdr env' j) = Some (bulk_header 42 (int j))"
      using hdr [of "2 * j"] header_items_nth(1) [OF j] j by (simp add: env'_def)
    show "cont' (sh_bulkhdr env' j) = Some (bulk_header 36 (int j))"
      using hdr [of "2 * j + 1"] header_items_nth(2) [OF j] j by (simp add: env'_def)
  qed (use low [of 0] low [of 4] low [of 5] low [of 7] shared_items_nth in \<open>simp_all add: env'_def\<close>)
  moreover have "\<forall>x < next_obj st. cont' x = cont x \<and> ext' x = ext x"
    by (simp add: cont'_def ext'_def range_cont_def range_ext_def a_def)
  moreover have "zmalloc_size_sds env' = zmalloc_size_sds env" "el_accepts env' = el_accepts env" by (simp_all add: env'_def)
  ultimately show ?thesis using c st'(2) by blast
qed

end
