(* ===== verification/Client_Run.thy ===== *)
theory Client_Run
  imports Client_Send Shared_Objects
begin

text \<open>
  A client between the commands that reply to it and the socket. A call is one \<open>addReply...\<close> with its
  arguments, or a multi bulk reply whose length is set after its elements. In any interleaving of calls
  and sends the bytes on the socket and the pending output are the replies, in order.
\<close>

subsection \<open>Calls\<close>

datatype reply_call =
    R_obj nat
  | R_str "byte list" nat
  | R_sds sdshdr
  | R_err "byte list"
  | R_errf "byte list"
  | R_status "byte list"
  | R_int int
  | R_multi int
  | R_bulk nat
  | R_buf "byte list" nat
  | R_cstr "byte list"
  | R_null
  | R_bulk_int int
  | R_deferred int "reply_call list"

text \<open>The texts of \<open>R_err\<close>, \<open>R_status\<close> and \<open>R_cstr\<close> are C strings, which end with a NUL.\<close>

fun run_call :: "net_env \<Rightarrow> reply_call \<Rightarrow> net \<Rightarrow> net option" and run_calls where
  "run_call env (R_obj a) n = addReply env n a"
| "run_call env (R_str s len) n = addReplyString env n s len"
| "run_call env (R_sds s) n = addReplySds env n s"
| "run_call env (R_err t) n = addReplyError env n (t @ [0])"
| "run_call env (R_errf t) n = addReplyErrorFormat env n t"
| "run_call env (R_status t) n = addReplyStatus env n (t @ [0])"
| "run_call env (R_int v) n = addReplyLongLong env n v"
| "run_call env (R_multi v) n = addReplyMultiBulkLen env n v"
| "run_call env (R_bulk a) n = addReplyBulk env n a"
| "run_call env (R_buf s len) n = addReplyBulkCBuffer env n s len"
| "run_call env (R_cstr t) n = addReplyBulkCString env n (Some (t @ [0]))"
| "run_call env R_null n = addReplyBulkCString env n None"
| "run_call env (R_bulk_int v) n = addReplyBulkLongLong env n v"
| "run_call env (R_deferred v cs) n = (let (n, node) = addDeferredMultiBulkLength env n
     in do { n \<leftarrow> run_calls env cs n; setDeferredMultiBulkLength env n node v })"
| "run_calls env [] n = Some n"
| "run_calls env (c # cs) n = do { n \<leftarrow> run_call env c n; run_calls env cs n }"

text \<open>What a call promises to put on the wire.\<close>

fun call_bytes :: "(nat \<Rightarrow> byte list option) \<Rightarrow> reply_call \<Rightarrow> byte list" where
  "call_bytes cont (R_obj a) = the (cont a)"
| "call_bytes cont (R_str s len) = take len s"
| "call_bytes cont (R_sds s) = take (sdslen s) (s_buf s)"
| "call_bytes cont (R_err t) = [45, 69, 82, 82, 32] @ t @ crlf"
| "call_bytes cont (R_errf t) = [45, 69, 82, 82, 32] @ no_breaks t @ crlf"
| "call_bytes cont (R_status t) = [43] @ t @ crlf"
| "call_bytes cont (R_int v) = bulk_header 58 v"
| "call_bytes cont (R_multi v) = bulk_header 42 v"
| "call_bytes cont (R_bulk a) = bulk (the (cont a))"
| "call_bytes cont (R_buf s len) = bulk (take len s)"
| "call_bytes cont (R_cstr t) = bulk t"
| "call_bytes cont R_null = bulk_header 36 (- 1)"
| "call_bytes cont (R_bulk_int v) = bulk (int_text v)"
| "call_bytes cont (R_deferred v cs) = bulk_header 42 v @ concat (map (call_bytes cont) cs)"

text \<open>The arguments that the callers pass: live objects, lengths inside the buffers, texts of C strings.\<close>

fun call_ok :: "(nat \<Rightarrow> byte list option) \<Rightarrow> reply_call \<Rightarrow> bool" where
  "call_ok cont (R_obj a) \<longleftrightarrow> cont a \<noteq> None"
| "call_ok cont (R_str s len) \<longleftrightarrow> len \<le> length s \<and> len + 1 < 2 ^ 31"
| "call_ok cont (R_sds s) \<longleftrightarrow> sds_repr s (take (sdslen s) (s_buf s))"
| "call_ok cont (R_err t) \<longleftrightarrow> 0 \<notin> set t \<and> length t + 1 < 2 ^ 31"
| "call_ok cont (R_errf t) \<longleftrightarrow> length t + 1 < 2 ^ 31"
| "call_ok cont (R_status t) \<longleftrightarrow> 0 \<notin> set t \<and> length t + 1 < 2 ^ 31"
| "call_ok cont (R_int v) \<longleftrightarrow> is_int64 v"
| "call_ok cont (R_multi v) \<longleftrightarrow> is_int64 v \<and> 0 \<le> v"
| "call_ok cont (R_bulk a) \<longleftrightarrow> (case cont a of None \<Rightarrow> False | Some x \<Rightarrow> length x < 2 ^ 31)"
| "call_ok cont (R_buf s len) \<longleftrightarrow> len \<le> length s \<and> len + 1 < 2 ^ 31"
| "call_ok cont (R_cstr t) \<longleftrightarrow> 0 \<notin> set t \<and> length t + 1 < 2 ^ 31"
| "call_ok cont R_null \<longleftrightarrow> True"
| "call_ok cont (R_bulk_int v) \<longleftrightarrow> is_int64 v"
| "call_ok cont (R_deferred v cs) \<longleftrightarrow> is_int64 v \<and> list_all (call_ok cont) cs
     \<and> length (concat (map (call_bytes cont) cs)) < 2 ^ 29"

text \<open>The objects a call adds to the list at most.\<close>

fun call_nodes :: "reply_call \<Rightarrow> nat" where
  "call_nodes (R_deferred v cs) = sum_list (map call_nodes cs) + 1"
| "call_nodes (R_obj a) = 1" | "call_nodes (R_str s len) = 1" | "call_nodes (R_sds s) = 1"
| "call_nodes (R_int v) = 1" | "call_nodes (R_multi v) = 1" | "call_nodes R_null = 1"
| "call_nodes _ = 3"

lemma adds_none: "adds env ext cont op 0 Some []"
  by (rule addsI) (auto intro!: exI simp: same_client_def)

text \<open>The calls as functions of the client.\<close>

lemma run_call_fun:
  "run_call env (R_obj a) = (\<lambda>m. addReply env m a)"
  "run_call env (R_str s len) = (\<lambda>m. addReplyString env m s len)"
  "run_call env (R_sds sd) = (\<lambda>m. addReplySds env m sd)"
  "run_call env (R_err t) = (\<lambda>m. addReplyError env m (t @ [0]))"
  "run_call env (R_errf t) = (\<lambda>m. addReplyErrorFormat env m t)"
  "run_call env (R_status t) = (\<lambda>m. addReplyStatus env m (t @ [0]))"
  "run_call env (R_int v) = (\<lambda>m. addReplyLongLong env m v)"
  "run_call env (R_multi v) = (\<lambda>m. addReplyMultiBulkLen env m v)"
  "run_call env (R_bulk a) = (\<lambda>m. addReplyBulk env m a)"
  "run_call env (R_buf s len) = (\<lambda>m. addReplyBulkCBuffer env m s len)"
  "run_call env (R_cstr t) = (\<lambda>m. addReplyBulkCString env m (Some (t @ [0])))"
  "run_call env R_null = (\<lambda>m. addReply env m (sh_nullbulk env))"
  "run_call env (R_bulk_int v) = (\<lambda>m. addReplyBulkLongLong env m v)"
  by (rule ext, simp add: addReplyBulkCString_def)+

lemma calls_adds:
  assumes "\<And>c. c \<in> set cs \<Longrightarrow> adds env ext cont True (call_nodes c) (run_call env c) (call_bytes cont c)"
  shows "adds env ext cont True (sum_list (map call_nodes cs)) (run_calls env cs) (concat (map (call_bytes cont) cs))"
  using assms
proof (induction cs)
  case Nil
  have "run_calls env [] = Some" by (rule ext) simp
  then show ?case using adds_none by simp
next
  case (Cons c cs)
  then have "adds env ext cont True (call_nodes c) (run_call env c) (call_bytes cont c)"
    "adds env ext cont True (sum_list (map call_nodes cs)) (run_calls env cs) (concat (map (call_bytes cont) cs))" by simp_all
  moreover have "run_calls env (c # cs) = (\<lambda>n. run_call env c n \<bind> run_calls env cs)" by (rule ext) simp
  ultimately show ?case using adds_seq by fastforce
qed

lemma call_adds:
  assumes env: "env_ok env" and sh: "shared_ok env cont"
  shows "call_ok cont c \<Longrightarrow> adds env ext cont True (call_nodes c) (run_call env c) (call_bytes cont c)"
proof (induction c)
  case (R_deferred v cs)
  then have "adds env ext cont True (sum_list (map call_nodes cs)) (run_calls env cs) (concat (map (call_bytes cont) cs))"
    by (intro calls_adds) (simp add: list_all_iff)
  moreover have "run_call env (R_deferred v cs) = (\<lambda>n. let (n, node) = addDeferredMultiBulkLength env n
     in do { n \<leftarrow> run_calls env cs n; setDeferredMultiBulkLength env n node v })" by (rule ext) simp
  ultimately show ?case using deferred_adds [OF env] R_deferred.prems by simp
next
  case (R_obj a)
  then show ?case unfolding run_call_fun call_bytes.simps call_nodes.simps
    by (intro addReply_adds [OF env]) (auto simp: read_bytes_def shared_ok_def)
next
  case (R_str s len)
  then show ?case unfolding run_call_fun call_bytes.simps call_nodes.simps
    by (intro addReplyString_adds [OF env]) (auto simp: read_bytes_def shared_ok_def)
next
  case (R_sds s)
  then show ?case unfolding run_call_fun call_bytes.simps call_nodes.simps
    by (intro addReplySds_adds [OF env]) (auto simp: read_bytes_def shared_ok_def)
next
  case (R_err t)
  then show ?case unfolding run_call_fun call_bytes.simps call_nodes.simps
    by (intro addReplyError_adds [OF env]) (auto simp: read_bytes_def shared_ok_def)
next
  case (R_errf t)
  then show ?case unfolding run_call_fun call_bytes.simps call_nodes.simps
    by (intro addReplyErrorFormat_adds [OF env]) (auto simp: read_bytes_def shared_ok_def)
next
  case (R_status t)
  then show ?case unfolding run_call_fun call_bytes.simps call_nodes.simps
    by (intro addReplyStatus_adds [OF env]) (auto simp: read_bytes_def shared_ok_def)
next
  case (R_int v)
  then show ?case unfolding run_call_fun call_bytes.simps call_nodes.simps
    by (intro addReplyLongLong_adds [OF env sh]) (auto simp: read_bytes_def shared_ok_def)
next
  case (R_multi v)
  then show ?case unfolding run_call_fun call_bytes.simps call_nodes.simps
    by (intro addReplyMultiBulkLen_adds [OF env sh]) (auto simp: read_bytes_def shared_ok_def)
next
  case (R_bulk a)
  then show ?case unfolding run_call_fun call_bytes.simps call_nodes.simps
    by (intro addReplyBulk_adds [OF env sh]) (auto simp: read_bytes_def shared_ok_def split: option.splits)
next
  case (R_buf s len)
  then show ?case unfolding run_call_fun call_bytes.simps call_nodes.simps
    by (intro addReplyBulkCBuffer_adds [OF env sh]) (auto simp: read_bytes_def shared_ok_def)
next
  case (R_cstr t)
  then show ?case unfolding run_call_fun call_bytes.simps call_nodes.simps
    by (intro addReplyBulkCString_adds [OF env sh]) (auto simp: read_bytes_def shared_ok_def)
next
  case R_null
  have "cont (sh_nullbulk env) = Some (bulk_header 36 (- 1))" using sh by (simp add: shared_ok_def)
  then show ?case unfolding run_call_fun call_bytes.simps call_nodes.simps
    by (intro addReply_adds [OF env]) (auto simp: read_bytes_def shared_ok_def)
next
  case (R_bulk_int v)
  then show ?case unfolding run_call_fun call_bytes.simps call_nodes.simps
    by (intro addReplyBulkLongLong_adds [OF env sh]) (auto simp: read_bytes_def shared_ok_def)
qed

subsection \<open>Events\<close>

datatype event = Reply reply_call | Send io bool

text \<open>The results are the client, the bytes on the socket, and whether the client was freed, which ends the run.\<close>

fun run_events :: "net_env \<Rightarrow> event list \<Rightarrow> net \<Rightarrow> byte list \<Rightarrow> (net \<times> byte list \<times> bool) option" where
  "run_events env [] n out = Some (n, out, False)"
| "run_events env (Reply r # es) n out = do { n \<leftarrow> run_call env r n; run_events env es n out }"
| "run_events env (Send ws again # es) n out =
     do { (n, y, freed) \<leftarrow> sendReplyToClient env n ws again;
          if freed then Some (n, out @ y, True) else run_events env es n (out @ y) }"

fun event_bytes :: "(nat \<Rightarrow> byte list option) \<Rightarrow> event \<Rightarrow> byte list" where
  "event_bytes cont (Reply r) = call_bytes cont r"
| "event_bytes cont (Send ws again) = []"

fun event_ok :: "(nat \<Rightarrow> byte list option) \<Rightarrow> event \<Rightarrow> bool" where
  "event_ok cont (Reply r) = call_ok cont r"
| "event_ok cont (Send ws again) = True"

fun event_nodes :: "event \<Rightarrow> nat" where
  "event_nodes (Reply r) = call_nodes r"
| "event_nodes (Send ws again) = 0"

definition full :: "byte list option list \<Rightarrow> bool" where "full ts \<longleftrightarrow> held ts = []"

lemma full_iff: "full ts \<longleftrightarrow> None \<notin> set ts"
  by (auto simp: full_def held_def dropWhile_eq_Nil_conv) (metis option.exhaust)

lemma run_events_ok:
  assumes env: "env_ok env" and sh: "shared_ok env cont"
  shows "net_ok env ext cont (st, c) ts \<Longrightarrow> full ts \<Longrightarrow> handler_ok c \<Longrightarrow> takes_reply c \<Longrightarrow> list_all (event_ok cont) es \<Longrightarrow>
    length ts + sum_list (map event_nodes es) \<le> MAX_NODES \<Longrightarrow>
    \<exists>st' c' ts' y freed. run_events env es (st, c) out = Some ((st', c'), out @ y, freed)
      \<and> net_ok env ext cont (st', c') ts' \<and> handler_ok c'
      \<and> (\<exists>rest. pending c ts @ concat (map (event_bytes cont) es) = y @ pending c' ts' @ rest \<and> (freed \<or> rest = []))
      \<and> (freed \<longrightarrow> (\<exists>ws. Send ws False \<in> set es \<and> None \<in> fst ` set ws))"
proof (induction es arbitrary: st c ts out)
  case Nil
  then show ?case by (intro exI [of _ st] exI [of _ c] exI [of _ ts] exI [of _ "[]"] exI [of _ False]) simp
next
  case (Cons e es)
  show ?case
  proof (cases e)
    case (Reply r)
    have ad: "adds env ext cont True (call_nodes r) (run_call env r) (call_bytes cont r)"
      using call_adds [OF env sh] Cons.prems(5) Reply by simp
    have room: "length ts + call_nodes r \<le> MAX_NODES" using Cons.prems(6) Reply by simp
    have live: "True \<longrightarrow> \<not> c_close_after_reply c" using Cons.prems(4) by (simp add: takes_reply_def)
    from addsD [OF ad Cons.prems(1,3) room live] obtain st1 c1 ts1 where 1: "run_call env r (st, c) = Some (st1, c1)"
      "net_ok env ext cont (st1, c1) ts1" "length ts1 \<le> length ts + call_nodes r" "held ts1 = held ts" "same_client c c1"
      "pending c1 ts1 = pending c ts @ call_bytes cont r" "handler_ok c1" using Cons.prems(4) by auto
    have t1: "takes_reply c1" using same_client_takes [OF 1(5)] Cons.prems(4) by simp
    have f1: "full ts1" using 1(4) Cons.prems(2) by (simp add: full_def)
    have l1: "length ts1 + sum_list (map event_nodes es) \<le> MAX_NODES" "list_all (event_ok cont) es"
      using 1(3) Cons.prems(5,6) Reply by simp_all
    from Cons.IH [OF 1(2) f1 1(7) t1 l1(2,1), of out] obtain st' c' ts' y freed rest where
      2: "run_events env es (st1, c1) out = Some ((st', c'), out @ y, freed)" "net_ok env ext cont (st', c') ts'" "handler_ok c'"
      "pending c1 ts1 @ concat (map (event_bytes cont) es) = y @ pending c' ts' @ rest" "freed \<or> rest = []"
      "freed \<longrightarrow> (\<exists>ws. Send ws False \<in> set es \<and> None \<in> fst ` set ws)" by blast
    have "run_events env (e # es) (st, c) out = Some ((st', c'), out @ y, freed)" using 1(1) 2(1) Reply by simp
    moreover have "pending c ts @ concat (map (event_bytes cont) (e # es)) = y @ pending c' ts' @ rest" using 2(4) 1(6) Reply by simp
    ultimately show ?thesis using 2(2,3,5,6) by (metis list.set_intros(2))
  next
    case (Send ws again)
    from sendReplyToClient_ok [OF Cons.prems(1) _ Cons.prems(3), of ws again] Cons.prems(2) obtain st1 c1 ts1 y1 freed where
      1: "sendReplyToClient env (st, c) ws again = Some ((st1, c1), y1, freed)" "net_ok env ext cont (st1, c1) ts1" "None \<notin> set ts1"
      "length ts1 \<le> length ts" "handler_ok c1" "c_close_after_reply c1 = c_close_after_reply c" "takes_reply c1 = takes_reply c"
      "pending c ts = y1 @ pending c1 ts1" "freed \<longrightarrow> None \<in> fst ` set ws \<and> \<not> again \<or> c_close_after_reply c \<and> pending c1 ts1 = []"
      unfolding full_iff by blast
    have nc: "\<not> c_close_after_reply c" using Cons.prems(4) by (simp add: takes_reply_def)
    show ?thesis
    proof (cases freed)
      case True
      then have "run_events env (e # es) (st, c) out = Some ((st1, c1), out @ y1, True)" using 1(1) Send by simp
      then show ?thesis using 1(2,5,8,9) nc True Send
        by (intro exI [of _ st1] exI [of _ c1] exI [of _ ts1] exI [of _ y1] exI [of _ True]) auto
    next
      case False
      have f1: "full ts1" using 1(3) by (simp add: full_iff)
      have l1: "length ts1 + sum_list (map event_nodes es) \<le> MAX_NODES" "list_all (event_ok cont) es" "takes_reply c1"
        using 1(4,7) Cons.prems(4-6) Send by simp_all
      from Cons.IH [OF 1(2) f1 1(5) l1(3,2,1), of "out @ y1"] obtain st' c' ts' y freed rest where
        2: "run_events env es (st1, c1) (out @ y1) = Some ((st', c'), (out @ y1) @ y, freed)" "net_ok env ext cont (st', c') ts'" "handler_ok c'"
        "pending c1 ts1 @ concat (map (event_bytes cont) es) = y @ pending c' ts' @ rest" "freed \<or> rest = []"
        "freed \<longrightarrow> (\<exists>ws. Send ws False \<in> set es \<and> None \<in> fst ` set ws)" by blast
      have "run_events env (e # es) (st, c) out = Some ((st', c'), out @ (y1 @ y), freed)" using 1(1) 2(1) Send False by simp
      moreover have "pending c ts @ concat (map (event_bytes cont) (e # es)) = (y1 @ y) @ pending c' ts' @ rest"
        using 2(4) 1(8) Send by simp
      ultimately show ?thesis using 2(2,3,5,6) by (metis list.set_intros(2))
    qed
  qed
qed

text \<open>Sends that make progress.\<close>

definition sends_of :: "io list \<Rightarrow> event list" where "sends_of wss = map (\<lambda>ws. Send ws True) wss"

lemma run_sends:
  assumes "length (pending c ts) < length wss" and "list_all writable wss"
    and "net_ok env ext cont (st, c) ts" "full ts" "handler_ok c"
  shows "\<exists>st' c'. run_events env (sends_of wss) (st, c) out = Some ((st', c'), out @ pending c ts, c_close_after_reply c)
    \<and> net_ok env ext cont (st', c') [] \<and> c_bufpos c' = 0 \<and> c_reply c' = [] \<and> \<not> c_handler c'"
  using assms
proof (induction wss arbitrary: st c ts out)
  case (Cons ws wss)
  have w: "writable ws" "list_all writable wss" using Cons.prems(2) by simp_all
  have nf: "None \<notin> set ts" using Cons.prems(4) by (simp add: full_iff)
  from sendReplyToClient_ok [OF Cons.prems(3) nf Cons.prems(5), of ws True] w(1) obtain st1 c1 ts1 y freed where
    1: "sendReplyToClient env (st, c) ws True = Some ((st1, c1), y, freed)" "net_ok env ext cont (st1, c1) ts1" "None \<notin> set ts1"
    "handler_ok c1" "c_close_after_reply c1 = c_close_after_reply c" "pending c ts = y @ pending c1 ts1"
    "pending c ts \<noteq> [] \<longrightarrow> y \<noteq> []"
    "if c_bufpos c1 = 0 \<and> c_reply c1 = [] then \<not> c_handler c1 \<and> freed = c_close_after_reply c else \<not> freed"
    "pending c ts = [] \<longrightarrow> c_bufpos c1 = 0 \<and> c_reply c1 = []" by blast
  have run: "run_events env (sends_of (ws # wss)) (st, c) out =
    (if freed then Some ((st1, c1), out @ y, True) else run_events env (sends_of wss) (st1, c1) (out @ y))"
    using 1(1) by (simp add: sends_of_def)
  show ?case
  proof (cases "freed \<or> wss = []")
    case True
    then have e: "c_bufpos c1 = 0 \<and> c_reply c1 = []" using 1(8,9) Cons.prems(1) by (auto split: if_splits)
    from no_pending [OF 1(2) e] have t1: "ts1 = []" "pending c1 ts1 = []" by blast+
    have "run_events env (sends_of (ws # wss)) (st, c) out = Some ((st1, c1), out @ y, freed)"
      unfolding run using True by (auto simp: sends_of_def)
    then show ?thesis using 1(2,6,8) t1 e by simp
  next
    case False
    have "length (pending c1 ts1) < length wss"
    proof (cases "pending c ts = []")
      case True
      then have "pending c1 ts1 = []" using 1(6) by simp
      then show ?thesis using False by simp
    next
      case False
      then have "0 < length y" using 1(7) by simp
      moreover have "length (pending c ts) = length y + length (pending c1 ts1)" using 1(6) by simp
      ultimately show ?thesis using Cons.prems(1) \<open>0 < length y\<close> unfolding list.size(4) by linarith
    qed
    from Cons.IH [OF this w(2) 1(2) _ 1(4), of "out @ y"] show ?thesis using False run 1(3,5,6) by (simp add: full_iff)
  qed
qed simp

text \<open>A fresh client.\<close>

definition fresh_client :: "client \<Rightarrow> bool" where
  "fresh_client c \<longleftrightarrow> length (c_buf c) = REDIS_REPLY_CHUNK_BYTES \<and> c_bufpos c = 0 \<and> c_sentlen c = 0 \<and> c_reply c = [] \<and> c_reply_bytes c = 0"

lemma fresh_net: "fresh_client c \<Longrightarrow> store_ok ext cont st \<Longrightarrow> net_ok env ext cont (st, c) [] \<and> pending c [] = [] \<and> handler_ok c"
  by (simp add: fresh_client_def store_ok_def net_ok_def texts_at_def buffer_ok_def pending_def handler_ok_def)

text \<open>
  C3. Replies in order. A client with empty buffers is given any sequence of replies of every kind, with
  deferred lengths nested in each other, and is written to in between, however little the socket takes
  each time. None of this faults, and the bytes of all the replies, in the order in which they were made, are
  the bytes that were sent, followed by the bytes that the client still holds. Objects shared with other
  clients or with the database are not changed (\<open>net_ok\<close> with the same contents \<open>cont\<close>). Only when a write
  failed the client is freed, and then the rest is lost.
\<close>

theorem replies_in_order:
  assumes env: "env_ok env" "shared_ok env cont" and c: "fresh_client c" "takes_reply c" and st: "store_ok ext cont st"
    and es: "list_all (event_ok cont) es" "sum_list (map event_nodes es) \<le> MAX_NODES"
  shows "\<exists>st' c' ts out freed rest. run_events env es (st, c) [] = Some ((st', c'), out, freed)
    \<and> net_ok env ext cont (st', c') ts \<and> handler_ok c'
    \<and> concat (map (event_bytes cont) es) = out @ pending c' ts @ rest \<and> (freed \<or> rest = [])
    \<and> (freed \<longrightarrow> (\<exists>ws. Send ws False \<in> set es \<and> None \<in> fst ` set ws))"
proof -
  have n: "net_ok env ext cont (st, c) []" "pending c [] = []" "handler_ok c" using fresh_net [OF c(1) st] by blast+
  have "full []" "length [] + sum_list (map event_nodes es) \<le> MAX_NODES" using es(2) by (simp_all add: full_def)
  from run_events_ok [OF env n(1) this(1) n(3) c(2) es(1) this(2), of "[]"] show ?thesis unfolding n(2) append_Nil by blast
qed

text \<open>
  C14. Everything is sent. As long as the socket takes at least a byte per event, as many events as there
  are bytes left are enough to send all of them; the buffers are empty then and the write handler is
  removed, and the client is freed exactly when it was to be closed after the reply.
\<close>

theorem everything_sent:
  assumes n: "net_ok env ext cont (st, c) ts" "full ts" "handler_ok c"
    and wss: "length (pending c ts) < length wss" "list_all writable wss"
  shows "\<exists>st' c'. run_events env (sends_of wss) (st, c) [] = Some ((st', c'), pending c ts, c_close_after_reply c)
    \<and> net_ok env ext cont (st', c') [] \<and> c_bufpos c' = 0 \<and> c_reply c' = [] \<and> \<not> c_handler c'"
  using run_sends [OF wss n, of "[]"] by simp

definition sample_env :: net_env where
  "sample_env = \<lparr>n_fresh = (\<lambda>_. 0), zmalloc_size_sds = (\<lambda>s. 64), el_accepts = True, unixtime = 0,
     client_obuf_limits = (\<lambda>_. \<lparr>hard_limit_bytes = 0, soft_limit_bytes = 0, soft_limit_seconds = 0\<rparr>),
     sh_crlf = 0, sh_czero = 0, sh_cone = 0, sh_nullbulk = 0, sh_mbulkhdr = (\<lambda>_. 0), sh_bulkhdr = (\<lambda>_. 0)\<rparr>"

definition sample_store :: store where "sample_store = \<lparr>objs = (\<lambda>_. None), next_obj = 0\<rparr>"

definition sample_client :: "byte list \<Rightarrow> client" where
  "sample_client x = \<lparr>c_fd = 5, c_lua = False, c_master = False, c_force_reply = False, c_slave = False,
     c_close_after_reply = False, c_close_asap = False, c_pubsub = False, c_replstate = REDIS_REPL_NONE,
     c_handler = (x \<noteq> []), c_buf = x @ replicate (REDIS_REPLY_CHUNK_BYTES - length x) 0, c_bufpos = length x, c_sentlen = 0, c_reply = [],
     c_reply_bytes = 0, c_soft_limit_time = 0\<rparr>"

lemma sample_store_ok: "store_ok (\<lambda>_. 0) (\<lambda>_. None) sample_store"
  by (simp add: store_ok_def refs_ok_def ext_ok_def sample_store_def)

theorem replies_in_order_witness:
  "\<exists>env ext cont st st' c' ts out. run_events env [Reply (R_int 7), Send [(Some 2, False)] True, Reply (R_deferred 1 [R_cstr [65]])]
      (st, sample_client []) [] = Some ((st', c'), out, False)
    \<and> net_ok env ext cont (st', c') ts \<and> bulk_header 58 7 @ bulk_header 42 1 @ bulk [65] = out @ pending c' ts"
proof -
  define es where "es = [Reply (R_int 7), Send [(Some 2, False)] True, Reply (R_deferred 1 [R_cstr [65]])]"
  obtain env st ext cont where e: "store_ok ext cont st" "shared_ok env cont"
    "zmalloc_size_sds env = zmalloc_size_sds sample_env" "el_accepts env = el_accepts sample_env"
    using createSharedObjects_ok [OF sample_store_ok] by metis
  have "env_ok env" using e(3,4) by (simp add: env_ok_def sample_env_def)
  moreover have "fresh_client (sample_client [])" "takes_reply (sample_client [])"
    by (simp_all add: fresh_client_def takes_reply_def can_write_def sample_client_def)
  moreover have "list_all (event_ok cont) es" "sum_list (map event_nodes es) \<le> MAX_NODES"
    by (simp_all add: es_def is_int64_def range_defs bulk_def bulk_header_def crlf_def int_text_def decimal.simps MAX_NODES_def)
  ultimately obtain st' c' ts out freed rest where r: "run_events env es (st, sample_client []) [] = Some ((st', c'), out, freed)"
    "net_ok env ext cont (st', c') ts" "concat (map (event_bytes cont) es) = out @ pending c' ts @ rest" "freed \<or> rest = []"
    "freed \<longrightarrow> (\<exists>ws. Send ws False \<in> set es \<and> None \<in> fst ` set ws)"
    using replies_in_order [of env cont "sample_client []" ext st es] e(1,2) by blast
  have "\<not> freed" using r(5) by (simp add: es_def)
  moreover have "concat (map (event_bytes cont) es) = bulk_header 58 7 @ bulk_header 42 1 @ bulk [65]" by (simp add: es_def)
  ultimately show ?thesis using r(1-4) unfolding es_def by (metis append_Nil2)
qed

theorem everything_sent_witness:
  "\<exists>st' c'. run_events sample_env (sends_of [[(Some 1, False)], [(Some 1, True)], [(Some 1, True)]]) (sample_store, sample_client [65, 66]) []
      = Some ((st', c'), [65, 66], False) \<and> c_reply c' = [] \<and> \<not> c_handler c'"
proof -
  have n: "net_ok sample_env (\<lambda>_. 0) (\<lambda>_. None) (sample_store, sample_client [65, 66]) []"
    using sample_store_ok by (simp add: net_ok_def store_ok_def texts_at_def buffer_ok_def sample_client_def REDIS_REPLY_CHUNK_BYTES_def)
  have p: "pending (sample_client [65, 66]) [] = [65, 66]" by (simp add: pending_def sample_client_def)
  have "full []" "handler_ok (sample_client [65, 66])" "\<not> c_close_after_reply (sample_client [65, 66])"
    by (simp_all add: full_def handler_ok_def sample_client_def)
  moreover have "length (pending (sample_client [65, 66]) []) < length [[(Some (1::nat), False)], [(Some 1, True)], [(Some 1, True)]]"
    "list_all writable [[(Some (1::nat), False)], [(Some 1, True)], [(Some 1, True)]]" by (simp_all add: p writable_def)
  ultimately show ?thesis using everything_sent [OF n] unfolding p by metis
qed

end
