(* ===== verification/Client_Input.thy ===== *)
theory Client_Input
  imports Client_Run
begin

text \<open>
  The input side of a client (\<open>src/networking.c\<close>): the query buffer, the parsers of the inline and the
  multi bulk protocol, and the loop that runs the commands as they become complete. \<open>None\<close> is an access
  outside a buffer or a failed assertion. What runs a command is the argument \<open>exec\<close>: it gets the
  arguments and the client's output, and gives the output, the flags of the client and the pause of all
  clients after it. Log lines are left out.
\<close>

definition REDIS_INLINE_MAX_SIZE :: nat where "REDIS_INLINE_MAX_SIZE = 1024 * 64"
definition REDIS_MBULK_BIG_ARG :: nat where "REDIS_MBULK_BIG_ARG = 1024 * 32"
definition REDIS_IOBUF_LEN :: nat where "REDIS_IOBUF_LEN = 1024 * 16"

datatype req_type = REQ_NONE | REDIS_REQ_INLINE | REDIS_REQ_MULTIBULK

text \<open>\<open>q_argv\<close> is \<open>argv\<close> with its length \<open>argc\<close>; \<open>q_multibulklen\<close> is never negative in the code.\<close>

text \<open>
  The pause of the clients: three variables of the server, and whether all clients that are no slaves have been
  appended to \<open>server.unblocked_clients\<close>.
\<close>

record pause =
  clients_paused :: bool
  clients_pause_end_time :: int
  mstime :: int
  requeued :: bool

record input =
  q_buf :: sdshdr
  q_reqtype :: req_type
  q_multibulklen :: nat
  q_bulklen :: int
  q_argv :: "robj list"
  q_blocked :: bool
  q_multi :: bool
  q_asking :: bool
  q_cmd_asking :: bool
  q_peak :: nat
  q_reploff :: int
  q_repl_ack_time :: int
  q_lastinteraction :: int
  q_pause :: pause

type_synonym conn = "net \<times> input"

text \<open>\<open>strchr (s, c)\<close> as an offset; \<open>Some None\<close> is NULL.\<close>

fun find_char :: "byte list \<Rightarrow> byte \<Rightarrow> nat option option" where
  "find_char [] c = None"
| "find_char (x # s) c = (if x = c then Some (Some 0) else if x = 0 then Some None
     else do { r \<leftarrow> find_char s c; Some (map_option Suc r) })"

text \<open>The parser forgets the command; the arguments are released.\<close>

definition resetClient :: "input \<Rightarrow> input" where
  "resetClient q = q\<lparr>q_argv := [], q_reqtype := REQ_NONE, q_multibulklen := 0, q_bulklen := - 1,
     q_asking := (if \<not> q_multi q \<and> \<not> q_cmd_asking q then False else q_asking q), q_cmd_asking := False\<rparr>"

definition setProtocolError :: "conn \<Rightarrow> nat \<Rightarrow> conn option" where
  "setProtocolError = (\<lambda>((st, c), q) pos.
     do { buf \<leftarrow> sdsrange (q_buf q) (int pos) (- 1);
          Some ((st, c\<lparr>c_close_after_reply := True\<rparr>), q\<lparr>q_buf := buf\<rparr>) })"

definition protocol_error :: "net_env \<Rightarrow> conn \<Rightarrow> string \<Rightarrow> nat \<Rightarrow> conn option" where
  "protocol_error env = (\<lambda>(n, q) msg pos.
     do { n \<leftarrow> addReplyError env n (str msg @ [0]); setProtocolError (n, q) pos })"

subsection \<open>Inline commands\<close>

text \<open>The results are \<open>REDIS_OK\<close> or not, and the client.\<close>

definition inline_args :: "sdshdr list \<Rightarrow> robj list" where
  "inline_args args = map (\<lambda>s. createObject (Sds s)) (filter (\<lambda>s. sdslen s \<noteq> 0) args)"

definition processInlineBuffer :: "net_env \<Rightarrow> conn \<Rightarrow> (conn \<times> bool) option" where
  "processInlineBuffer env = (\<lambda>((st, c), q).
     do { newline \<leftarrow> find_char (s_buf (q_buf q)) 10;
          case newline of
            None \<Rightarrow>
              if sdslen (q_buf q) > REDIS_INLINE_MAX_SIZE
              then do { n \<leftarrow> protocol_error env ((st, c), q) ''Protocol error: too big inline request'' 0; Some (n, False) }
              else Some (((st, c), q), False)
          | Some newline \<Rightarrow> do {
              let querylen = (if newline \<noteq> 0 \<and> s_buf (q_buf q) ! (newline - 1) = 13 then newline - 1 else newline);
              aux \<leftarrow> sdsnewlen (Some (s_buf (q_buf q))) querylen (n_fresh env);
              argv \<leftarrow> sdssplitargs (n_fresh env) (s_buf aux);
              case argv of
                None \<Rightarrow> do { n \<leftarrow> protocol_error env ((st, c), q) ''Protocol error: unbalanced quotes in request'' 0; Some (n, False) }
              | Some argv \<Rightarrow> do {
                  let q = (if querylen = 0 \<and> c_slave c then q\<lparr>q_repl_ack_time := unixtime env\<rparr> else q);
                  buf \<leftarrow> sdsrange (q_buf q) (int (querylen + 2)) (- 1);
                  Some (((st, c), q\<lparr>q_buf := buf, q_argv := inline_args argv\<rparr>), True) } } })"

subsection \<open>Multi bulk commands\<close>

text \<open>One step of the parser: a reply and an error, a wait for more bytes, or a result.\<close>

datatype 'a parsed = Failed conn | Incomplete | Parsed 'a

text \<open>The number between the type character at \<open>pos\<close> and the end of the line at \<open>newline\<close>.\<close>

definition read_number :: "sdshdr \<Rightarrow> nat \<Rightarrow> nat \<Rightarrow> int option option" where
  "read_number s pos newline = do { t \<leftarrow> read_bytes (s_buf s) (pos + 1) (newline - (pos + 1)); Some (string2ll t) }"

text \<open>The line \<open>*n\<close>: the number of arguments and the position behind the line.\<close>

definition read_count :: "net_env \<Rightarrow> conn \<Rightarrow> (int \<times> nat) parsed option" where
  "read_count env = (\<lambda>(n, q).
     do { check (q_argv q = []);
          newline \<leftarrow> find_char (s_buf (q_buf q)) 13;
          case newline of
            None \<Rightarrow>
              if sdslen (q_buf q) > REDIS_INLINE_MAX_SIZE
              then do { n \<leftarrow> protocol_error env (n, q) ''Protocol error: too big mbulk count string'' 0; Some (Failed n) }
              else Some Incomplete
          | Some newline \<Rightarrow>
              if int newline > int (sdslen (q_buf q)) - 2 then Some Incomplete
              else do {
                check (s_buf (q_buf q) ! 0 = 42);
                ll \<leftarrow> read_number (q_buf q) 0 newline;
                case ll of
                  Some v \<Rightarrow> if v > 1024 * 1024
                    then do { n \<leftarrow> protocol_error env (n, q) ''Protocol error: invalid multibulk length'' 0; Some (Failed n) }
                    else Some (Parsed (v, newline + 2))
                | None \<Rightarrow> do { n \<leftarrow> protocol_error env (n, q) ''Protocol error: invalid multibulk length'' 0; Some (Failed n) } } })"

text \<open>The line \<open>$n\<close> at \<open>pos\<close>: the length of the argument and the position behind the line.\<close>

definition bulk_line :: "net_env \<Rightarrow> conn \<Rightarrow> nat \<Rightarrow> (nat \<times> nat) parsed option" where
  "bulk_line env = (\<lambda>(n, q) pos.
     do { newline \<leftarrow> find_char (drop pos (s_buf (q_buf q))) 13;
          case newline of
            None \<Rightarrow>
              if sdslen (q_buf q) > REDIS_INLINE_MAX_SIZE
              then do { n \<leftarrow> protocol_error env (n, q) ''Protocol error: too big bulk count string'' 0; Some (Failed n) }
              else Some Incomplete
          | Some k \<Rightarrow>
              let newline = pos + k
              in if int newline > int (sdslen (q_buf q)) - 2 then Some Incomplete
                 else if s_buf (q_buf q) ! pos \<noteq> 36
                 then do { m \<leftarrow> addReplyErrorFormat env n (str ''Protocol error: expected '$', got '' @ [39, s_buf (q_buf q) ! pos, 39]);
                           n \<leftarrow> setProtocolError (m, q) pos; Some (Failed n) }
                 else do {
                   ll \<leftarrow> read_number (q_buf q) pos newline;
                   case ll of
                     Some v \<Rightarrow> if v < 0 \<or> v > 512 * 1024 * 1024
                       then do { n \<leftarrow> protocol_error env (n, q) ''Protocol error: invalid bulk length'' pos; Some (Failed n) }
                       else Some (Parsed (nat v, newline + 2))
                   | None \<Rightarrow> do { n \<leftarrow> protocol_error env (n, q) ''Protocol error: invalid bulk length'' pos; Some (Failed n) } } })"

text \<open>A long argument moves to the front of the buffer, which gets room for it.\<close>

definition make_big :: "net_env \<Rightarrow> input \<Rightarrow> nat \<Rightarrow> nat \<Rightarrow> (input \<times> nat) option" where
  "make_big env q pos ll =
     (if ll \<ge> REDIS_MBULK_BIG_ARG
      then do { buf \<leftarrow> sdsrange (q_buf q) (int pos) (- 1);
                let buf = (if sdslen buf < ll + 2 then sdsMakeRoomFor (n_fresh env) buf (ll + 2 - sdslen buf) else buf);
                Some (q\<lparr>q_buf := buf\<rparr>, 0) }
      else Some (q, pos))"

definition read_bulklen :: "net_env \<Rightarrow> conn \<Rightarrow> nat \<Rightarrow> (input \<times> nat) parsed option" where
  "read_bulklen env nq pos =
     do { line \<leftarrow> bulk_line env nq pos;
          case line of
            Failed r \<Rightarrow> Some (Failed r)
          | Incomplete \<Rightarrow> Some Incomplete
          | Parsed (ll, pos) \<Rightarrow> do { (q, pos) \<leftarrow> make_big env (snd nq) pos ll; Some (Parsed (q\<lparr>q_bulklen := int ll\<rparr>, pos)) } }"

text \<open>The argument at \<open>pos\<close>; a long one takes the buffer itself.\<close>

definition take_arg :: "net_env \<Rightarrow> input \<Rightarrow> nat \<Rightarrow> (input \<times> nat) option" where
  "take_arg env q pos =
     (let len = nat (q_bulklen q)
      in if pos = 0 \<and> len \<ge> REDIS_MBULK_BIG_ARG \<and> sdslen (q_buf q) = len + 2
         then do { arg \<leftarrow> sdsIncrLen (q_buf q) (- 2);
                   buf \<leftarrow> sdsempty (n_fresh env);
                   let buf = sdsMakeRoomFor (n_fresh env) buf (len + 2);
                   Some (q\<lparr>q_argv := q_argv q @ [createObject (Sds arg)], q_buf := buf,
                     q_bulklen := - 1, q_multibulklen := q_multibulklen q - 1\<rparr>, 0) }
         else do { arg \<leftarrow> createStringObject (n_fresh env) (drop pos (s_buf (q_buf q))) len;
                   Some (q\<lparr>q_argv := q_argv q @ [arg], q_bulklen := - 1, q_multibulklen := q_multibulklen q - 1\<rparr>, pos + len + 2) })"

text \<open>Every iteration reads one argument.\<close>

lemma make_big_count: "make_big env q pos ll = Some (q', pos') \<Longrightarrow> q_multibulklen q' = q_multibulklen q"
  by (auto simp: make_big_def bind_eq_Some_conv Let_def split: if_splits)

lemma read_bulklen_count: "read_bulklen env (n, q) pos = Some (Parsed (q', pos')) \<Longrightarrow> q_multibulklen q' = q_multibulklen q"
  by (cases "bulk_line env (n, q) pos")
    (auto simp: read_bulklen_def bind_eq_Some_conv split: parsed.splits dest!: make_big_count)

lemma take_arg_count: "take_arg env q pos = Some (q', pos') \<Longrightarrow> q_multibulklen q' = q_multibulklen q - 1"
  by (auto simp: take_arg_def bind_eq_Some_conv Let_def split: if_splits)

text \<open>
  The loop over the arguments. It ends with an error (\<open>Inl\<close>), or with the position up to which the
  buffer is used.
\<close>

function bulk_loop :: "net_env \<Rightarrow> conn \<Rightarrow> nat \<Rightarrow> (conn + conn \<times> nat) option" where
  "bulk_loop env (n, q) pos =
     (if q_multibulklen q = 0 then Some (Inr ((n, q), pos))
      else case (if q_bulklen q = - 1 then read_bulklen env (n, q) pos else Some (Parsed (q, pos))) of
          None \<Rightarrow> None
        | Some (Failed r) \<Rightarrow> Some (Inl r)
        | Some Incomplete \<Rightarrow> Some (Inr ((n, q), pos))
        | Some (Parsed (q1, pos1)) \<Rightarrow>
            if int (sdslen (q_buf q1)) - int pos1 < q_bulklen q1 + 2 then Some (Inr ((n, q1), pos1))
            else case take_arg env q1 pos1 of
                None \<Rightarrow> None
              | Some (q2, pos2) \<Rightarrow> bulk_loop env (n, q2) pos2)"
  by pat_completeness auto
termination
  by (relation "measure (\<lambda>(env, (n, q), pos). q_multibulklen q)")
    (auto dest!: read_bulklen_count take_arg_count split: if_splits)

declare bulk_loop.simps [simp del]

text \<open>After the loop the buffer is cut.\<close>

definition after_loop :: "(conn + conn \<times> nat) \<Rightarrow> (conn \<times> bool) option" where
  "after_loop r = (case r of Inl r \<Rightarrow> Some (r, False)
     | Inr ((n, q), pos) \<Rightarrow> do { buf \<leftarrow> (if pos \<noteq> 0 then sdsrange (q_buf q) (int pos) (- 1) else Some (q_buf q));
         Some ((n, q\<lparr>q_buf := buf\<rparr>), q_multibulklen q = 0) })"

definition processMultibulkBuffer :: "net_env \<Rightarrow> conn \<Rightarrow> (conn \<times> bool) option" where
  "processMultibulkBuffer env = (\<lambda>(n, q).
     do { count \<leftarrow> (if q_multibulklen q = 0 then read_count env (n, q) else Some (Parsed (int (q_multibulklen q), 0)));
          case count of
            Failed r \<Rightarrow> Some (r, False)
          | Incomplete \<Rightarrow> Some ((n, q), False)
          | Parsed (ll, pos) \<Rightarrow>
              if ll \<le> 0 then do { buf \<leftarrow> sdsrange (q_buf q) (int pos) (- 1); Some ((n, q\<lparr>q_buf := buf\<rparr>), True) }
              else bulk_loop env (n, q\<lparr>q_multibulklen := nat ll\<rparr>) pos \<bind> after_loop })"

subsection \<open>The loop over the commands\<close>

text \<open>
  What a command leaves: \<open>REDIS_OK\<close> or not, the flags \<open>REDIS_BLOCKED\<close>, \<open>REDIS_MULTI\<close> and \<open>REDIS_ASKING\<close>,
  whether it was the command ASKING, and the pause of the clients (the command may be CLIENT PAUSE).
\<close>

record cmd_result =
  f_ok :: bool
  f_blocked :: bool
  f_multi :: bool
  f_asking :: bool
  f_cmd_asking :: bool
  f_pause :: pause

type_synonym executor = "robj list \<Rightarrow> net \<Rightarrow> (net \<times> cmd_result) option"

definition run_command :: "executor \<Rightarrow> conn \<Rightarrow> conn option" where
  "run_command exec = (\<lambda>(n, q).
     if q_argv q = [] then Some (n, resetClient q)
     else do { (n, f) \<leftarrow> exec (q_argv q) n;
               let q = q\<lparr>q_blocked := f_blocked f, q_multi := f_multi f, q_asking := f_asking f, q_cmd_asking := f_cmd_asking f, q_pause := f_pause f\<rparr>;
               Some (n, if f_ok f then resetClient q else q) })"

text \<open>The parser that the first byte selects.\<close>

definition parse_request :: "net_env \<Rightarrow> conn \<Rightarrow> (conn \<times> bool) option" where
  "parse_request env = (\<lambda>(n, q).
     (let q = (if q_reqtype q = REQ_NONE
               then q\<lparr>q_reqtype := (if s_buf (q_buf q) ! 0 = 42 then REDIS_REQ_MULTIBULK else REDIS_REQ_INLINE)\<rparr> else q)
      in if q_reqtype q = REDIS_REQ_INLINE then processInlineBuffer env (n, q) else processMultibulkBuffer env (n, q)))"

definition clientsArePaused :: "pause \<Rightarrow> pause \<times> bool" where
  "clientsArePaused p =
     (if clients_paused p \<and> clients_pause_end_time p < mstime p
      then (p\<lparr>clients_paused := False, requeued := True\<rparr>, False) else (p, clients_paused p))"

text \<open>The test before every command: it is not made for slaves, and it may end the pause.\<close>

definition check_pause :: "conn \<Rightarrow> input \<times> bool" where
  "check_pause = (\<lambda>(n, q). if c_slave (snd n) then (q, False)
     else (let (p, paused) = clientsArePaused (q_pause q) in (q\<lparr>q_pause := p\<rparr>, paused)))"

text \<open>A loop that does not end is \<open>None\<close> as well.\<close>

partial_function (option) processInputBuffer :: "net_env \<Rightarrow> executor \<Rightarrow> conn \<Rightarrow> conn option" where
  "processInputBuffer env exec nq =
     (if sdslen (q_buf (snd nq)) = 0 then Some nq
      else let (q, paused) = check_pause nq; nq = (fst nq, q)
           in if paused \<or> q_blocked q \<or> c_close_after_reply (snd (fst nq)) then Some nq
              else do { (nq, ok) \<leftarrow> parse_request env nq;
                        if ok then do { nq \<leftarrow> run_command exec nq; processInputBuffer env exec nq } else Some nq })"

text \<open>
  One read event. \<open>Got x\<close>: the socket has the bytes \<open>x\<close>, of which \<open>read\<close> takes as many as it may. The last
  results are the number of bytes that were read and whether the client was freed.
\<close>

datatype socket = Got "byte list" | Again | Closed | Broken

definition read_length :: "input \<Rightarrow> int" where
  "read_length q =
     (if q_reqtype q = REDIS_REQ_MULTIBULK \<and> q_multibulklen q \<noteq> 0 \<and> q_bulklen q \<noteq> - 1 \<and> q_bulklen q \<ge> int REDIS_MBULK_BIG_ARG
      then min (q_bulklen q + 2 - int (sdslen (q_buf q))) (int REDIS_IOBUF_LEN) else int REDIS_IOBUF_LEN)"

definition add_read :: "net_env \<Rightarrow> input \<Rightarrow> nat \<Rightarrow> byte list \<Rightarrow> sdshdr option" where
  "add_read env q room x =
     (let buf = sdsMakeRoomFor (n_fresh env) (q_buf q) room
      in do { b \<leftarrow> write_bytes (s_buf buf) (sdslen (q_buf q)) x; sdsIncrLen (buf\<lparr>s_buf := b\<rparr>) (int (length x)) })"

definition readQueryFromClient ::
  "net_env \<Rightarrow> nat \<Rightarrow> executor \<Rightarrow> conn \<Rightarrow> socket \<Rightarrow> (conn \<times> nat \<times> bool) option" where
  "readQueryFromClient env max_querybuf exec = (\<lambda>((st, c), q) sock.
     (let readlen = read_length q; q = q\<lparr>q_peak := max (q_peak q) (sdslen (q_buf q))\<rparr>
      in do { check (0 \<le> readlen);
              case sock of
                Broken \<Rightarrow> Some (((st, c), q), 0, True)
              | Again \<Rightarrow> Some (((st, c), q\<lparr>q_buf := sdsMakeRoomFor (n_fresh env) (q_buf q) (nat readlen)\<rparr>), 0, False)
              | Closed \<Rightarrow> Some (((st, c), q), 0, True)
              | Got x \<Rightarrow>
                  let x = take (nat readlen) x
                  in if x = [] then Some (((st, c), q), 0, True)
                     else do {
                       buf \<leftarrow> add_read env q (nat readlen) x;
                       let q = q\<lparr>q_buf := buf, q_lastinteraction := unixtime env,
                         q_reploff := (if c_master c then q_reploff q + int (length x) else q_reploff q)\<rparr>;
                       if sdslen buf > max_querybuf then Some (((st, c), q), length x, True)
                       else do { nq \<leftarrow> processInputBuffer env exec ((st, c), q); Some (nq, length x, False) } } }))"

end
