(* ===== verification/Client_Parse.thy ===== *)
theory Client_Parse
  imports Client_Input
begin

text \<open>
  What the parser of the multi bulk protocol makes of a stream of commands: however the stream is cut into
  reads, every command is executed once, in order, with its arguments, and as soon as its last byte
  has been read.
\<close>

subsection \<open>The protocol\<close>

definition arg_bytes :: "byte list list \<Rightarrow> byte list" where "arg_bytes args = concat (map bulk args)"

definition cmd_bytes :: "byte list list \<Rightarrow> byte list" where
  "cmd_bytes args = bulk_header 42 (int (length args)) @ arg_bytes args"

definition cmds_bytes :: "byte list list list \<Rightarrow> byte list" where "cmds_bytes cmds = concat (map cmd_bytes cmds)"

text \<open>The limits of the server. All arguments but the last fit in the buffer of an inline request.\<close>

definition cmd_ok :: "byte list list \<Rightarrow> bool" where
  "cmd_ok args \<longleftrightarrow> args \<noteq> [] \<and> length args \<le> 1024 * 1024 \<and> length (arg_bytes (butlast args)) + 50 \<le> REDIS_INLINE_MAX_SIZE"

lemma arg_bytes_simps [simp]: "arg_bytes [] = []" "arg_bytes (x # xs) = bulk x @ arg_bytes xs" "arg_bytes (xs @ ys) = arg_bytes xs @ arg_bytes ys"
  by (simp_all add: arg_bytes_def)

lemma cmds_bytes_simps [simp]: "cmds_bytes [] = []" "cmds_bytes (c # cs) = cmd_bytes c @ cmds_bytes cs"
  "cmds_bytes (cs @ ds) = cmds_bytes cs @ cmds_bytes ds"
  by (simp_all add: cmds_bytes_def)

subsection \<open>Lines\<close>

lemma find_char_no: "c \<notin> set t \<Longrightarrow> 0 \<notin> set t \<Longrightarrow> c \<noteq> 0 \<Longrightarrow> find_char (t @ 0 # sp) c = Some None"
  by (induction t) auto

lemma find_char_at: "c \<notin> set h \<Longrightarrow> 0 \<notin> set h \<Longrightarrow> find_char (h @ c # sp) c = Some (Some (length h))"
  by (induction h) auto

text \<open>A line of which the buffer holds the beginning, \<open>u\<close>.\<close>

lemma find_line:
  assumes u: "u @ r = h @ 13 # w" and h: "13 \<notin> set h" "0 \<notin> set h"
  shows "find_char (u @ 0 # sp) 13 = Some (if length u \<le> length h then None else Some (length h))"
proof -
  consider (part) us where "u @ us = h" | (all) us where "u = h @ 13 # us"
    using u by (auto simp: append_eq_append_conv2 append_eq_Cons_conv)
  then show ?thesis
  proof cases
    case part
    then have "13 \<notin> set u" "0 \<notin> set u" "length u \<le> length h" using h by auto
    then show ?thesis using find_char_no [of 13 u sp] by simp
  next
    case all
    then show ?thesis using find_char_at [OF h, of "us @ 0 # sp"] by simp
  qed
qed

lemma int_text_no_cr: "13 \<notin> set (int_text v)"
  using decimal_digits [of "nat v"] decimal_digits [of "nat (- v)"] by (auto simp: int_text_def list_all_iff isdigit_def)

text \<open>A header: the character of its type, a number, the end of the line.\<close>

lemma bulk_header_line: "bulk_header p v = (p # int_text v) @ 13 # [10]"
  by (simp add: bulk_header_def)

lemma find_header:
  assumes "u @ r = bulk_header p v @ w" and "p \<noteq> 13" "p \<noteq> 0"
  shows "find_char (u @ 0 # sp) 13 = Some (if length u + 2 \<le> length (bulk_header p v) then None else Some (length (bulk_header p v) - 2))"
  using find_line [of u r "p # int_text v" "10 # w" sp] assms int_text_no_cr nul_not_int_text
  by (auto simp: bulk_header_def)

lemma header_length: "is_int64 v \<Longrightarrow> length (bulk_header p v) \<le> 23"
  using length_int_text by (fastforce simp: bulk_header_def)

lemma range_from: "range_text (int k) (- 1) t = drop k t"
  by (cases "t = []") (auto simp: range_text_def Let_def)

lemma sdsrange_from:
  assumes "sds_repr s t"
  shows "\<exists>s'. sdsrange s (int k) (- 1) = Some s' \<and> sds_repr s' (drop k t)"
  using sdsrange_text [OF assms, of "int k" "- 1"] by (simp add: range_from)

text \<open>The buffer behind a position.\<close>

lemma buf_drop:
  assumes "sds_repr s t" and "pos \<le> length t"
  shows "\<exists>sp. drop pos (s_buf s) = drop pos t @ 0 # sp \<and> s_buf s = t @ 0 # sp"
  using assms(1) by (rule sds_reprE) (use assms(2) in auto)

subsection \<open>The state of the parser\<close>

text \<open>
  Inside a command: \<open>dn\<close> are the arguments read, \<open>todo\<close> the others, the bytes of the buffer from \<open>pos\<close> on
  together with the bytes \<open>r\<close> still to come are what is left of the command, and \<open>rest\<close>.
\<close>

definition mid :: "input \<Rightarrow> nat \<Rightarrow> byte list \<Rightarrow> byte list \<Rightarrow> byte list list \<Rightarrow> byte list list \<Rightarrow> byte list \<Rightarrow> bool" where
  "mid q pos t r dn todo rest \<longleftrightarrow> sds_repr (q_buf q) t \<and> pos \<le> length t \<and> pos \<le> 25 + length (arg_bytes dn) + (if q_bulklen q = - 1 then 0 else length (bulk_header 36 (q_bulklen q)))
     \<and> list_all2 obj_holds (q_argv q) dn \<and> q_multibulklen q = length todo
     \<and> (if q_bulklen q = - 1 then drop pos t @ r = arg_bytes todo @ rest
        else todo \<noteq> [] \<and> q_bulklen q = int (length (hd todo)) \<and> drop pos t @ r = hd todo @ crlf @ arg_bytes (tl todo) @ rest)"

text \<open>What the parser leaves alone.\<close>

definition frame :: "input \<Rightarrow> input" where
  "frame q = q\<lparr>q_buf := \<lparr>s_len = 0, s_free = 0, s_buf = []\<rparr>, q_argv := [], q_bulklen := 0, q_multibulklen := 0\<rparr>"

lemma frame_simps [simp]:
  "frame (q\<lparr>q_buf := b\<rparr>) = frame q" "frame (q\<lparr>q_bulklen := l\<rparr>) = frame q" "frame (q\<lparr>q_multibulklen := m\<rparr>) = frame q"
  "frame (q\<lparr>q_argv := a\<rparr>) = frame q"
  by (simp_all add: frame_def)

lemma split_front:
  assumes "u @ r = a @ b" and "length a \<le> length u"
  shows "u = a @ drop (length a) u" "drop (length a) u @ r = b"
proof -
  have "take (length a) (u @ r) = a" "drop (length a) (u @ r) = b" by (simp_all add: assms(1))
  then have "take (length a) u = a" "drop (length a) u @ r = b" using assms(2) by simp_all
  then show "u = a @ drop (length a) u" "drop (length a) u @ r = b" by (metis append_take_drop_id)+
qed

subsection \<open>One argument\<close>

lemma string2ll_nat: "n < 2 ^ 62 \<Longrightarrow> string2ll (int_text (int n)) = Some (int n)"
  by (rule string2ll_int_text) (simp add: is_int64_def range_defs)

lemma bulk_line_mid:
  assumes m: "mid q pos t r dn (x # xs) rest" "q_bulklen q = - 1" and small: "length x < 2 ^ 29"
    and pos: "pos + 25 \<le> REDIS_INLINE_MAX_SIZE" and h: "h = bulk_header 36 (int (length x))"
  shows "bulk_line env (n, q) pos = Some (if length (drop pos t) < length h then Incomplete else Parsed (length x, pos + length h))"
proof -
  define u where "u = drop pos t"
  have ub: "u @ r = h @ x @ crlf @ arg_bytes xs @ rest" using m by (simp add: mid_def u_def bulk_def h)
  have repr: "sds_repr (q_buf q) t" "pos \<le> length t" using m(1) by (simp_all add: mid_def)
  obtain sp where sp: "drop pos (s_buf (q_buf q)) = u @ 0 # sp" "s_buf (q_buf q) = t @ 0 # sp"
    using buf_drop [OF repr] by (auto simp: u_def)
  have len: "sdslen (q_buf q) = length t" "length t = pos + length u" using repr by (simp_all add: sds_texts u_def)
  have hl: "length h \<le> 23" "length h = length (int_text (int (length x))) + 3"
    using header_length [of "int (length x)" 36] small by (simp_all add: h is_int64_def range_defs bulk_header_def)
  have f: "find_char (drop pos (s_buf (q_buf q))) 13 = Some (if length u + 2 \<le> length h then None else Some (length h - 2))"
    unfolding sp(1) h by (rule find_header [OF ub [unfolded h]]) simp_all
  consider (none) "length u + 2 \<le> length h" | (part) "\<not> length u + 2 \<le> length h" "length u < length h" | (full) "length h \<le> length u"
    by linarith
  then show ?thesis
  proof cases
    case none
    then have "\<not> length t > REDIS_INLINE_MAX_SIZE" using len hl pos by simp
    then show ?thesis using f none len(1) by (simp add: bulk_line_def u_def)
  next
    case part
    then have "int (pos + (length h - 2)) > int (length t) - 2" using len(2) by linarith
    then show ?thesis using f part len(1) by (simp add: bulk_line_def u_def Let_def)
  next
    case full
    then obtain u' where u': "u = h @ u'" using split_front(1) [OF ub] by blast
    have a: "\<not> int (pos + (length h - 2)) > int (length t) - 2" using len(2) full hl(2) by linarith
    define v where "v = int_text (int (length x))"
    have hd: "drop pos (s_buf (q_buf q)) = 36 # v @ 13 # 10 # u' @ 0 # sp"
      by (simp add: sp(1) u' h bulk_header_def v_def)
    then have b: "s_buf (q_buf q) ! pos = 36" by (rule nth_via_drop)
    have "drop (pos + 1) (s_buf (q_buf q)) = v @ 13 # 10 # u' @ 0 # sp"
      using arg_cong [OF hd, of "drop 1"] by (simp add: drop_drop)
    moreover have "pos + (length h - 2) - (pos + 1) = length v" "pos + 1 + length v \<le> length (s_buf (q_buf q))"
      using hl(2) len(2) full sp(2) by (simp_all add: v_def)
    ultimately have "read_bytes (s_buf (q_buf q)) (pos + 1) (pos + (length h - 2) - (pos + 1)) = Some v"
      by (simp add: read_bytes_def)
    then have c: "read_number (q_buf q) pos (pos + (length h - 2)) = Some (Some (int (length x)))"
      using string2ll_nat [of "length x"] small by (simp add: read_number_def v_def)
    have e: "pos + (length h - 2) + 2 = pos + length h" using hl(2) by simp
    show ?thesis using f full len(1) a b c e small by (simp add: bulk_line_def u_def Let_def)
  qed
qed

text \<open>A long argument gets the front of the buffer.\<close>

lemma make_big_mid:
  assumes m: "mid q pos t r dn (x # xs) rest" "q_bulklen q = - 1" and small: "length x < 2 ^ 29" "length t < 2 ^ 29"
    and h: "h = bulk_header 36 (int (length x))" and full: "length h \<le> length (drop pos t)"
  shows "\<exists>q' pos' t'. make_big env q (pos + length h) (length x) = Some (q', pos')
    \<and> mid (q'\<lparr>q_bulklen := int (length x)\<rparr>) pos' t' r dn (x # xs) rest \<and> frame q' = frame q
    \<and> length t' \<le> length t"
proof -
  have repr: "sds_repr (q_buf q) t" "pos \<le> length t" "pos \<le> 25 + length (arg_bytes dn)" and cnt: "q_multibulklen q = Suc (length xs)"
    "list_all2 obj_holds (q_argv q) dn" using m by (simp_all add: mid_def)
  have ub: "drop pos t @ r = h @ x @ crlf @ arg_bytes xs @ rest" using m by (simp add: mid_def bulk_def h)
  define u where "u = drop (length h) (drop pos t)"
  have u: "u @ r = x @ crlf @ arg_bytes xs @ rest" "drop (pos + length h) t = u"
    using split_front(2) [OF ub full] by (simp_all add: u_def add.commute)
  show ?thesis
  proof (cases "length x \<ge> REDIS_MBULK_BIG_ARG")
    case True
    obtain b where b: "sdsrange (q_buf q) (int (pos + length h)) (- 1) = Some b" "sds_repr b u"
      using sdsrange_from [OF repr(1), of "pos + length h"] u(2) by auto
    define b' where "b' = (if sdslen b < length x + 2 then sdsMakeRoomFor (n_fresh env) b (length x + 2 - sdslen b) else b)"
    have lu: "sdslen b = length u" "length u < 2 ^ 29" using b(2) small(2) by (simp_all add: sds_texts u_def)
    have "sds_repr b' u" using b(2) sdsMakeRoomFor_text(1) [OF b(2), of "length x + 2 - length u"] small lu by (auto simp: b'_def)
    then show ?thesis using True b(1) u cnt unfolding make_big_def b'_def
      by (intro exI [of _ "q\<lparr>q_buf := b'\<rparr>"] exI [of _ 0] exI [of _ u]) (simp add: mid_def Let_def b'_def u_def)
  next
    case False
    have "pos + length h \<le> length t" using full repr(2) by simp
    then show ?thesis using False u cnt repr h unfolding make_big_def
      by (intro exI [of _ q] exI [of _ "pos + length h"] exI [of _ t]) (simp add: mid_def add.commute)
  qed
qed

lemma take_arg_mid:
  assumes m: "mid q pos t r dn (x # xs) rest" "q_bulklen q = int (length x)" and small: "length x < 2 ^ 29"
    and full: "length x + 2 \<le> length (drop pos t)"
  shows "\<exists>q' pos' t'. take_arg env q pos = Some (q', pos') \<and> mid q' pos' t' r (dn @ [x]) xs rest \<and> q_bulklen q' = - 1 \<and> frame q' = frame q
    \<and> length t' \<le> length t"
proof -
  have repr: "sds_repr (q_buf q) t" "pos \<le> length t" "pos \<le> 25 + length (arg_bytes dn) + length (bulk_header 36 (int (length x)))"
    and cnt: "q_multibulklen q = Suc (length xs)" "list_all2 obj_holds (q_argv q) dn" using m by (simp_all add: mid_def)
  have "drop pos t @ r = (x @ crlf) @ arg_bytes xs @ rest" "length (x @ crlf) \<le> length (drop pos t)"
    using m full by (simp_all add: mid_def crlf_def)
  from split_front [OF this] obtain u where u: "drop pos t = x @ crlf @ u" "u @ r = arg_bytes xs @ rest" unfolding append.assoc by blast
  have len: "sdslen (q_buf q) = length t" "nat (q_bulklen q) = length x" using repr(1) m(2) by (simp_all add: sds_texts)
  show ?thesis
  proof (cases "pos = 0 \<and> length x \<ge> REDIS_MBULK_BIG_ARG \<and> length t = length x + 2")
    case True
    then have t: "t = x @ crlf" "u = []" using u(1) by (auto simp: crlf_def)
    have "\<exists>a. sdsIncrLen (q_buf q) (- 2) = Some a \<and> sds_repr a x"
      using repr(1)
    proof (rule sds_reprE)
      fix sp
      assume sp: "q_buf q = \<lparr>s_len = int (length t), s_free = int (length sp), s_buf = t @ 0 # sp\<rparr>" "length t + length sp + 1 < 2 ^ 31"
      from sdsIncrLen_text [of "q_buf q" t "[]" sp 0 "- 2"] sp True have
        "\<exists>a. sdsIncrLen (q_buf q) (- 2) = Some a \<and> sds_repr a (take (length t - 2) (t @ [0]))" by (simp add: nat_diff_distrib)
      moreover have "take (length t - 2) (t @ [0]) = x" by (simp add: t(1) crlf_def)
      ultimately show ?thesis by simp
    qed
    then obtain a where a: "sdsIncrLen (q_buf q) (- 2) = Some a" "sds_repr a x" by blast
    obtain b where b: "sdsempty (n_fresh env) = Some b" "sds_repr b []" using sdsempty_text by blast
    define b' where "b' = sdsMakeRoomFor (n_fresh env) b (length x + 2)"
    have b': "sds_repr b' []" using sdsMakeRoomFor_text(1) [OF b(2), of "length x + 2"] small by (simp add: b'_def)
    define q' where "q' = q\<lparr>q_argv := q_argv q @ [createObject (Sds a)], q_buf := b', q_bulklen := - 1, q_multibulklen := q_multibulklen q - 1\<rparr>"
    have "take_arg env q pos = Some (q', 0)"
      using True a(1) b(1) len by (simp add: take_arg_def Let_def q'_def b'_def)
    moreover have "obj_holds (createObject (Sds a)) x" using a(2) by (simp add: createObject_def obj_holds_def)
    ultimately have "mid q' 0 [] r (dn @ [x]) xs rest" using b' u(2) t(2) cnt by (simp add: mid_def q'_def list_all2_appendI)
    moreover have "frame q' = frame q" "q_bulklen q' = - 1" by (simp_all add: q'_def frame_def)
    ultimately show ?thesis using \<open>take_arg env q pos = Some (q', 0)\<close> by (intro exI [of _ q'] exI [of _ 0] exI [of _ "[]"]) simp
  next
    case False
    obtain sp where sp: "drop pos (s_buf (q_buf q)) = drop pos t @ 0 # sp" using buf_drop [OF repr(1,2)] by blast
    have "read_bytes (drop pos (s_buf (q_buf q))) 0 (length x) = Some x" by (simp add: sp u(1) read_bytes_def)
    then obtain a where a: "createStringObject (n_fresh env) (drop pos (s_buf (q_buf q))) (length x) = Some a" "obj_holds a x"
      using createStringObject_holds [of "drop pos (s_buf (q_buf q))" "length x" x "n_fresh env"] small by auto
    define q' where "q' = q\<lparr>q_argv := q_argv q @ [a], q_bulklen := - 1, q_multibulklen := q_multibulklen q - 1\<rparr>"
    have "take_arg env q pos = Some (q', pos + length x + 2)"
      using False a(1) len by (auto simp: take_arg_def Let_def q'_def)
    have "pos + length x + 2 \<le> length t" using full repr(2) by simp
    moreover have "drop (pos + length x + 2) t = u"
      using arg_cong [OF u(1), of "drop (length x + 2)"] by (simp add: crlf_def add.commute add.left_commute)
    ultimately have "mid q' (pos + length x + 2) t r (dn @ [x]) xs rest" using u(2) repr(1,3) cnt a(2)
      by (simp add: mid_def q'_def bulk_def crlf_def list_all2_appendI)
    moreover have "frame q' = frame q" "q_bulklen q' = - 1" by (simp_all add: q'_def frame_def)
    ultimately show ?thesis using \<open>take_arg env q pos = Some (q', pos + length x + 2)\<close> by blast
  qed
qed

subsection \<open>The arguments of a command\<close>

text \<open>
  The loop reads arguments until the command is complete, or until less than what is missing of the
  current argument is in the buffer.
\<close>

definition loop_ends :: "net \<Rightarrow> input \<Rightarrow> byte list \<Rightarrow> byte list list \<Rightarrow> byte list \<Rightarrow> (conn + conn \<times> nat) option \<Rightarrow> bool" where
  "loop_ends n q r args rest res \<longleftrightarrow> (\<exists>q' pos' t' dn' todo'. res = Some (Inr ((n, q'), pos')) \<and> mid q' pos' t' r dn' todo' rest
    \<and> dn' @ todo' = args \<and> frame q' = frame q
    \<and> (todo' = [] \<and> q_bulklen q' = - 1
      \<or> todo' \<noteq> [] \<and> length rest < length r \<and> (q_bulklen q' \<noteq> - 1 \<longrightarrow> int (length t') - int pos' < q_bulklen q' + 2)))"

lemma loop_endsI:
  "res = Some (Inr ((n, q'), pos')) \<Longrightarrow> mid q' pos' t' r dn' todo' rest \<Longrightarrow> dn' @ todo' = args \<Longrightarrow> frame q' = frame q \<Longrightarrow>
    todo' \<noteq> [] \<Longrightarrow> length rest < length r \<Longrightarrow> (q_bulklen q' \<noteq> - 1 \<Longrightarrow> int (length t') - int pos' < q_bulklen q' + 2) \<Longrightarrow>
    loop_ends n q r args rest res"
  unfolding loop_ends_def by blast

lemma loop_ends_frame: "loop_ends n q1 r args rest res \<Longrightarrow> frame q1 = frame q \<Longrightarrow> loop_ends n q r args rest res"
  by (simp add: loop_ends_def)

lemma mid_arg: "mid q pos t r dn (x # xs) rest \<Longrightarrow> q_bulklen q = int (length x) \<Longrightarrow> drop pos t @ r = x @ crlf @ arg_bytes xs @ rest"
  and mid_line: "mid q pos t r dn (x # xs) rest \<Longrightarrow> q_bulklen q = - 1 \<Longrightarrow> drop pos t @ r = bulk x @ arg_bytes xs @ rest"
  and mid_count: "mid q pos t r dn todo rest \<Longrightarrow> q_multibulklen q = length todo \<and> sdslen (q_buf q) = length t \<and> pos \<le> length t"
  by (simp_all add: mid_def sds_texts)

text \<open>The rest of the loop once the length of the argument is known.\<close>

definition loop_from :: "net_env \<Rightarrow> net \<Rightarrow> input \<Rightarrow> nat \<Rightarrow> (conn + conn \<times> nat) option" where
  "loop_from env n q pos = (if int (sdslen (q_buf q)) - int pos < q_bulklen q + 2 then Some (Inr ((n, q), pos))
     else case take_arg env q pos of None \<Rightarrow> None | Some (q2, pos2) \<Rightarrow> bulk_loop env (n, q2) pos2)"

lemma bulk_loop_steps:
  assumes "q_multibulklen q \<noteq> 0"
  shows "q_bulklen q \<noteq> - 1 \<Longrightarrow> bulk_loop env (n, q) pos = loop_from env n q pos"
    and "q_bulklen q = - 1 \<Longrightarrow> bulk_line env (n, q) pos = Some Incomplete \<Longrightarrow> bulk_loop env (n, q) pos = Some (Inr ((n, q), pos))"
    and "q_bulklen q = - 1 \<Longrightarrow> bulk_line env (n, q) pos = Some (Parsed (ll, pos0)) \<Longrightarrow> make_big env q pos0 ll = Some (q1, pos1) \<Longrightarrow>
      bulk_loop env (n, q) pos = loop_from env n (q1\<lparr>q_bulklen := int ll\<rparr>) pos1"
  using assms by (simp_all add: bulk_loop.simps [of env n q pos] read_bulklen_def loop_from_def)

lemma loop_from_ends:
  assumes m: "mid q pos t r dn (x # xs) rest" "q_bulklen q = int (length x)" and small: "length x < 2 ^ 29" "length t < 2 ^ 29"
    and bound: "length (drop pos t @ r) < 2 ^ 30"
    and nxt: "\<And>q2 pos2 t2. mid q2 pos2 t2 r (dn @ [x]) xs rest \<Longrightarrow> q_bulklen q2 = - 1 \<Longrightarrow> length (drop pos2 t2 @ r) < 2 ^ 30 \<Longrightarrow>
      length t2 < 2 ^ 29 \<Longrightarrow> loop_ends n q2 r (dn @ x # xs) rest (bulk_loop env (n, q2) pos2)"
  shows "loop_ends n q r (dn @ x # xs) rest (loop_from env n q pos)"
proof -
  note l = mid_count [OF m(1)] and ux = mid_arg [OF m]
  have lux: "length (drop pos t) + length r = length x + 2 + length (arg_bytes xs) + length rest"
    using arg_cong [OF ux, of length] by (simp add: crlf_def)
  show ?thesis
  proof (cases "length (drop pos t) < length x + 2")
    case True
    then have c: "int (length t) - int pos < q_bulklen q + 2" using l m(2) by simp
    show ?thesis
      by (rule loop_endsI [OF _ m(1)]) (use True lux l c in \<open>auto simp: loop_from_def\<close>)
  next
    case False
    then have full: "length x + 2 \<le> length (drop pos t)" by simp
    obtain q2 pos2 t2 where 2: "take_arg env q pos = Some (q2, pos2)" "mid q2 pos2 t2 r (dn @ [x]) xs rest" "q_bulklen q2 = - 1"
      "frame q2 = frame q" "length t2 \<le> length t" using take_arg_mid [OF m small(1) full] by blast
    have "\<not> int (length t) - int pos < int (length x) + 2" using full l by simp
    then have run: "loop_from env n q pos = bulk_loop env (n, q2) pos2" using l m(2) 2(1) by (simp add: loop_from_def)
    have "drop pos2 t2 @ r = arg_bytes xs @ rest" using 2(2,3) by (simp add: mid_def)
    then have "length (drop pos2 t2 @ r) = length (arg_bytes xs) + length rest" by (simp only: length_append)
    then have "length (drop pos2 t2 @ r) < 2 ^ 30" using lux bound by (simp only: length_append)
    from nxt [OF 2(2,3) this] 2(5) small(2) show ?thesis unfolding run by (intro loop_ends_frame [OF _ 2(4)]) simp
  qed
qed

lemma bulk_loop_ends:
  assumes "mid q pos t r dn todo rest" and "length (drop pos t @ r) < 2 ^ 30" "length t < 2 ^ 29" "list_all (\<lambda>x. length x < 2 ^ 29) todo"
    and "length (arg_bytes (butlast (dn @ todo))) + 50 \<le> REDIS_INLINE_MAX_SIZE" and "todo = [] \<Longrightarrow> q_bulklen q = - 1"
  shows "loop_ends n q r (dn @ todo) rest (bulk_loop env (n, q) pos)"
  using assms
proof (induction todo arbitrary: q pos t dn)
  case Nil
  then have "q_multibulklen q = 0" by (simp add: mid_def)
  then have "bulk_loop env (n, q) pos = Some (Inr ((n, q), pos))" by (simp add: bulk_loop.simps)
  then show ?case using Nil.prems(1,6) unfolding loop_ends_def by force
next
  case (Cons x xs)
  note m = Cons.prems(1)
  have cnt: "q_multibulklen q \<noteq> 0" using mid_count [OF m] by simp
  have small: "length x < 2 ^ 29" "list_all (\<lambda>x. length x < 2 ^ 29) xs" using Cons.prems(4) by simp_all
  have ih: "loop_ends n q2 r (dn @ x # xs) rest (bulk_loop env (n, q2) pos2)"
    if "mid q2 pos2 t2 r (dn @ [x]) xs rest" "q_bulklen q2 = - 1" "length (drop pos2 t2 @ r) < 2 ^ 30" "length t2 < 2 ^ 29" for q2 pos2 t2
    using Cons.IH [OF that(1,3,4) small(2)] that(2) Cons.prems(5) by simp
  show ?case
  proof (cases "q_bulklen q = - 1")
    case False
    then have "q_bulklen q = int (length x)" using m by (simp add: mid_def)
    then show ?thesis unfolding bulk_loop_steps(1) [OF cnt False]
      by (rule loop_from_ends [OF m _ small(1) Cons.prems(3,2)]) (erule (3) ih)
  next
    case True
    define h where "h = bulk_header 36 (int (length x))"
    have "pos \<le> 25 + length (arg_bytes dn)" using m True by (simp add: mid_def)
    moreover have "length (arg_bytes dn) + 50 \<le> REDIS_INLINE_MAX_SIZE" using Cons.prems(5) by (simp add: butlast_append)
    ultimately have "pos + 25 \<le> REDIS_INLINE_MAX_SIZE" by simp
    note line = bulk_line_mid [OF m True small(1) this h_def, of env n]
    show ?thesis
    proof (cases "length (drop pos t) < length h")
      case short: True
      then have run: "bulk_loop env (n, q) pos = Some (Inr ((n, q), pos))" using line bulk_loop_steps(2) [OF cnt True] by simp
      have "length (drop pos t @ r) = length (bulk x @ arg_bytes xs @ rest)" by (simp only: mid_line [OF m True])
      then have "length rest < length r" using short by (simp add: bulk_def h_def)
      then show ?thesis by (intro loop_endsI [OF run m]) (simp_all add: True)
    next
      case False
      then have full: "length h \<le> length (drop pos t)" by simp
      obtain q1 pos1 t1 where 1: "make_big env q (pos + length h) (length x) = Some (q1, pos1)"
        "mid (q1\<lparr>q_bulklen := int (length x)\<rparr>) pos1 t1 r dn (x # xs) rest" "frame q1 = frame q" "length t1 \<le> length t"
        using make_big_mid [OF m True small(1) Cons.prems(3) h_def full] by blast
      define q2 where "q2 = q1\<lparr>q_bulklen := int (length x)\<rparr>"
      have run: "bulk_loop env (n, q) pos = loop_from env n q2 pos1"
        using bulk_loop_steps(3) [OF cnt True _ 1(1)] line False by (simp add: q2_def)
      have b: "q_bulklen q2 = int (length x)" "frame q2 = frame q" using 1(3) by (simp_all add: q2_def)
      have l: "length t1 < 2 ^ 29" using 1(4) Cons.prems(3) by simp
      have "length (drop pos1 t1 @ r) = length (x @ crlf @ arg_bytes xs @ rest)" using mid_arg [OF 1(2) [folded q2_def] b(1)] by (simp only:)
      moreover have "length (drop pos t @ r) = length (bulk x @ arg_bytes xs @ rest)" by (simp only: mid_line [OF m True])
      ultimately have "length (drop pos1 t1 @ r) < 2 ^ 30" using Cons.prems(2) by (simp add: bulk_def)
      then have "loop_ends n q2 r (dn @ x # xs) rest (loop_from env n q2 pos1)"
        by (rule loop_from_ends [OF 1(2) [folded q2_def] b(1) small(1) l]) (erule (3) ih)
      then show ?thesis unfolding run by (rule loop_ends_frame) (rule b(2))
    qed
  qed
qed

subsection \<open>One request\<close>

text \<open>
  Between two calls of the parser: nothing read of the next command but its bytes in the buffer, or
  inside the first command.
\<close>

definition awaits :: "input \<Rightarrow> byte list \<Rightarrow> byte list \<Rightarrow> byte list list list \<Rightarrow> bool" where
  "awaits q t r cmds \<longleftrightarrow> sds_repr (q_buf q) t
     \<and> (q_multibulklen q = 0 \<and> q_bulklen q = - 1 \<and> q_argv q = [] \<and> q_reqtype q \<noteq> REDIS_REQ_INLINE \<and> t @ r = cmds_bytes cmds
       \<or> (\<exists>dn todo cs. cmds = (dn @ todo) # cs \<and> todo \<noteq> [] \<and> q_reqtype q = REDIS_REQ_MULTIBULK \<and> mid q 0 t r dn todo (cmds_bytes cs)))"

text \<open>The command is complete: its arguments, and the buffer behind it.\<close>

definition complete :: "input \<Rightarrow> byte list \<Rightarrow> byte list \<Rightarrow> byte list list \<Rightarrow> byte list list list \<Rightarrow> bool" where
  "complete q t r c cs \<longleftrightarrow> list_all2 obj_holds (q_argv q) c \<and> sds_repr (q_buf q) t \<and> t @ r = cmds_bytes cs"

text \<open>The command waits for bytes that are still to come, and a big argument for a known number of them.\<close>

definition waits :: "input \<Rightarrow> byte list \<Rightarrow> byte list \<Rightarrow> byte list list \<Rightarrow> byte list list list \<Rightarrow> bool" where
  "waits q t r c cs \<longleftrightarrow> awaits q t r (c # cs) \<and> length (cmds_bytes cs) < length r
     \<and> (q_bulklen q \<noteq> - 1 \<longrightarrow> int (length t) < q_bulklen q + 2)"

lemma length_bulk: "length x + 5 \<le> length (bulk x)"
  by (simp add: bulk_def bulk_header_def crlf_def int_text_def Suc_le_eq)

lemma args_small: "length (arg_bytes args) < N \<Longrightarrow> list_all (\<lambda>x. length x < N) args"
proof (induction args)
  case (Cons x args)
  then show ?case using length_bulk [of x] by simp
qed simp

lemma mid_length:
  assumes "mid q pos t r dn todo rest"
  shows "length (drop pos t @ r) \<le> length (arg_bytes todo) + length rest"
    and "todo \<noteq> [] \<Longrightarrow> length rest < length (drop pos t @ r)"
proof -
  have e: "drop pos t @ r = (if q_bulklen q = - 1 then arg_bytes todo @ rest else hd todo @ crlf @ arg_bytes (tl todo) @ rest)"
    and ne: "q_bulklen q \<noteq> - 1 \<Longrightarrow> todo \<noteq> []"
    using assms by (simp_all add: mid_def split: if_splits)
  have b: "length (arg_bytes todo) \<ge> length (hd todo) + 5 + length (arg_bytes (tl todo))" if "todo \<noteq> []"
    using length_bulk [of "hd todo"] that by (cases todo) simp_all
  have l: "length (drop pos t @ r) = (if q_bulklen q = - 1 then length (arg_bytes todo) + length rest
      else length (hd todo) + 2 + length (arg_bytes (tl todo)) + length rest)"
    unfolding e by (simp add: crlf_def)
  show "length (drop pos t @ r) \<le> length (arg_bytes todo) + length rest" unfolding l using b ne by (auto split: if_splits)
  show "length rest < length (drop pos t @ r)" if "todo \<noteq> []" unfolding l using b [OF that] by (auto split: if_splits)
qed

lemma after_loop_ok:
  assumes l: "loop_ends n q r c (cmds_bytes cs) res" and q: "q_reqtype q = REDIS_REQ_MULTIBULK"
  shows "\<exists>q' t'. (res \<bind> after_loop = Some ((n, q'), True) \<and> complete q' t' r c cs
      \<or> res \<bind> after_loop = Some ((n, q'), False) \<and> waits q' t' r c cs) \<and> frame q' = frame q"
proof -
  obtain q1 pos1 t1 dn todo where 1: "res = Some (Inr ((n, q1), pos1))" "mid q1 pos1 t1 r dn todo (cmds_bytes cs)" "dn @ todo = c"
    "frame q1 = frame q" and e: "todo = [] \<and> q_bulklen q1 = - 1 \<or> todo \<noteq> [] \<and> length (cmds_bytes cs) < length r
      \<and> (q_bulklen q1 \<noteq> - 1 \<longrightarrow> int (length t1) - int pos1 < q_bulklen q1 + 2)"
    using l unfolding loop_ends_def by blast
  have m: "sds_repr (q_buf q1) t1" "pos1 \<le> length t1" "list_all2 obj_holds (q_argv q1) dn" "q_multibulklen q1 = length todo"
    using 1(2) by (simp_all add: mid_def)
  obtain b where b: "(if pos1 \<noteq> 0 then sdsrange (q_buf q1) (int pos1) (- 1) else Some (q_buf q1)) = Some b" "sds_repr b (drop pos1 t1)"
    using sdsrange_from [OF m(1), of pos1] m(1) by (cases "pos1 = 0") auto
  define q' where "q' = q1\<lparr>q_buf := b\<rparr>"
  have run: "res \<bind> after_loop = Some ((n, q'), todo = [])" using 1(1) b(1) m(4) by (simp add: after_loop_def q'_def)
  have fr: "frame q' = frame q" using 1(4) by (simp add: q'_def)
  then have rt: "q_reqtype q' = REDIS_REQ_MULTIBULK" using q by (cases q'; cases q) (simp add: frame_def)
  show ?thesis
  proof (cases "todo = []")
    case True
    then have "complete q' (drop pos1 t1) r c cs" using 1(2,3) e b(2) m(3) by (simp add: complete_def mid_def q'_def)
    then show ?thesis using run True fr by auto
  next
    case False
    have "mid q' 0 (drop pos1 t1) r dn todo (cmds_bytes cs)" using 1(2) b(2) by (simp add: mid_def q'_def)
    then have "waits q' (drop pos1 t1) r c cs" using False e 1(3) rt b(2) m(2)
      unfolding waits_def awaits_def by (auto simp: q'_def)
    then show ?thesis using run False fr by auto
  qed
qed

text \<open>The line with the number of arguments.\<close>

lemma read_count_ok:
  assumes q: "sds_repr (q_buf q) t" "q_argv q = []" and t: "t @ r = h @ w" and h: "h = bulk_header 42 (int k)"
    and k: "k \<le> 1024 * 1024" and ne: "t \<noteq> []"
  shows "read_count env (n, q) = Some (if length t < length h then Incomplete else Parsed (int k, length h))"
proof -
  have hl: "length h \<le> 23" "length h = length (int_text (int k)) + 3"
    using header_length [of "int k" 42] k by (simp_all add: h is_int64_def range_defs bulk_header_def)
  obtain sp where sp: "s_buf (q_buf q) = t @ 0 # sp" using buf_drop [OF q(1), of 0] by auto
  have len: "sdslen (q_buf q) = length t" using q(1) by (simp add: sds_texts)
  have f: "find_char (s_buf (q_buf q)) 13 = Some (if length t + 2 \<le> length h then None else Some (length h - 2))"
    unfolding sp h by (rule find_header [OF t [unfolded h]]) simp_all
  consider (none) "length t + 2 \<le> length h" | (part) "\<not> length t + 2 \<le> length h" "length t < length h" | (full) "length h \<le> length t"
    by linarith
  then show ?thesis
  proof cases
    case none
    then have "\<not> length t > REDIS_INLINE_MAX_SIZE" using hl by (simp add: REDIS_INLINE_MAX_SIZE_def)
    then show ?thesis using f none len q(2) by (simp add: read_count_def check_def)
  next
    case part
    then have "int (length h - 2) > int (length t) - 2" by linarith
    then show ?thesis using f part len q(2) by (simp add: read_count_def check_def)
  next
    case full
    then obtain u' where u': "t = h @ u'" using split_front(1) [OF t] by blast
    have a: "\<not> int (length h - 2) > int (length t) - 2" using full hl(2) by linarith
    define v where "v = int_text (int k)"
    have hd: "s_buf (q_buf q) = 42 # v @ 13 # 10 # u' @ 0 # sp" by (simp add: sp u' h bulk_header_def v_def)
    have "read_bytes (s_buf (q_buf q)) (0 + 1) (length h - 2 - (0 + 1)) = Some v"
      unfolding hd using hl(2) by (simp add: read_bytes_def v_def)
    then have c: "read_number (q_buf q) 0 (length h - 2) = Some (Some (int k))"
      using string2ll_nat [of k] k by (simp add: read_number_def v_def)
    have b: "s_buf (q_buf q) ! 0 = 42" by (simp add: hd)
    have e: "length h - 2 + 2 = length h" using hl(2) by simp
    show ?thesis using f full len q(2) a b c e k by (simp add: read_count_def check_def)
  qed
qed

text \<open>The parser with the loop's end.\<close>

lemma processMultibulk_steps:
  "q_multibulklen q \<noteq> 0 \<Longrightarrow> processMultibulkBuffer env (n, q) = bulk_loop env (n, q) 0 \<bind> after_loop"
  "q_multibulklen q = 0 \<Longrightarrow> read_count env (n, q) = Some Incomplete \<Longrightarrow> processMultibulkBuffer env (n, q) = Some ((n, q), False)"
  "q_multibulklen q = 0 \<Longrightarrow> read_count env (n, q) = Some (Parsed (int k, pos)) \<Longrightarrow> 0 < k \<Longrightarrow>
    processMultibulkBuffer env (n, q) = bulk_loop env (n, q\<lparr>q_multibulklen := k\<rparr>) pos \<bind> after_loop"
  by (simp_all add: processMultibulkBuffer_def)

lemma multibulk_start:
  assumes q: "sds_repr (q_buf q) t" "q_multibulklen q = 0" "q_bulklen q = - 1" "q_argv q = []" "q_reqtype q = REDIS_REQ_MULTIBULK"
    and t: "t @ r = cmds_bytes (c # cs)" "t \<noteq> []" and c: "cmd_ok c" "length (cmds_bytes (c # cs)) < 2 ^ 29"
  shows "\<exists>q' t'. (processMultibulkBuffer env (n, q) = Some ((n, q'), True) \<and> complete q' t' r c cs
      \<or> processMultibulkBuffer env (n, q) = Some ((n, q'), False) \<and> waits q' t' r c cs) \<and> frame q' = frame q"
proof -
  define h where "h = bulk_header 42 (int (length c))"
  have th: "t @ r = h @ arg_bytes c @ cmds_bytes cs" using t(1) by (simp add: cmd_bytes_def h_def)
  have k: "length c \<le> 1024 * 1024" "c \<noteq> []" "length (arg_bytes (butlast c)) + 50 \<le> REDIS_INLINE_MAX_SIZE" using c(1) by (simp_all add: cmd_ok_def)
  note rc = read_count_ok [OF q(1,4) th h_def k(1) t(2), of env n]
  have lt: "length t + length r < 2 ^ 29" using c(2) t(1) by (metis length_append)
  show ?thesis
  proof (cases "length t < length h")
    case True
    then have run: "processMultibulkBuffer env (n, q) = Some ((n, q), False)" using rc processMultibulk_steps(2) [OF q(2)] by simp
    have "length t + length r = length h + length (arg_bytes c) + length (cmds_bytes cs)" using arg_cong [OF th, of length] by simp
    then have "waits q t r c cs" using q t(1) True by (simp add: waits_def awaits_def)
    then show ?thesis using run by blast
  next
    case False
    define q1 where "q1 = q\<lparr>q_multibulklen := length c\<rparr>"
    have run: "processMultibulkBuffer env (n, q) = bulk_loop env (n, q1) (length h) \<bind> after_loop"
      using rc False processMultibulk_steps(3) [OF q(2), of env n "length c" "length h"] k(2) by (simp add: q1_def)
    have hl: "length h \<le> 23" using header_length [of "int (length c)" 42] k(1) by (simp add: h_def is_int64_def range_defs)
    have "drop (length h) t @ r = arg_bytes c @ cmds_bytes cs" using split_front(2) [OF th] False by simp
    then have m: "mid q1 (length h) t r [] c (cmds_bytes cs)" using q hl False by (simp add: mid_def q1_def)
    have small: "list_all (\<lambda>x. length x < 2 ^ 29) c" using c(2) by (intro args_small) (simp add: cmd_bytes_def)
    have "loop_ends n q1 r ([] @ c) (cmds_bytes cs) (bulk_loop env (n, q1) (length h))"
      by (rule bulk_loop_ends [OF m _ _ small]) (use lt k in simp_all)
    then have "loop_ends n q1 r c (cmds_bytes cs) (bulk_loop env (n, q1) (length h))" by simp
    from after_loop_ok [OF this] q(5) show ?thesis unfolding run by (simp add: q1_def)
  qed
qed

lemma multibulk_resume:
  assumes q: "q_reqtype q = REDIS_REQ_MULTIBULK" and m: "mid q 0 t r dn todo (cmds_bytes cs)" "todo \<noteq> []"
    and c: "cmd_ok (dn @ todo)" "length (cmds_bytes ((dn @ todo) # cs)) < 2 ^ 29"
  shows "\<exists>q' t'. (processMultibulkBuffer env (n, q) = Some ((n, q'), True) \<and> complete q' t' r (dn @ todo) cs
      \<or> processMultibulkBuffer env (n, q) = Some ((n, q'), False) \<and> waits q' t' r (dn @ todo) cs) \<and> frame q' = frame q"
proof -
  have run: "processMultibulkBuffer env (n, q) = bulk_loop env (n, q) 0 \<bind> after_loop"
    using mid_count [OF m(1)] m(2) by (intro processMultibulk_steps(1)) simp
  have small: "list_all (\<lambda>x. length x < 2 ^ 29) todo" using c(2) by (intro args_small) (simp add: cmd_bytes_def)
  have "length (drop 0 t @ r) < 2 ^ 29" using mid_length(1) [OF m(1)] c(2) by (simp add: cmd_bytes_def)
  then have "loop_ends n q r (dn @ todo) (cmds_bytes cs) (bulk_loop env (n, q) 0)"
    by (intro bulk_loop_ends [OF m(1) _ _ small]) (use c(1) m(2) in \<open>simp_all add: cmd_ok_def\<close>)
  from after_loop_ok [OF this q] show ?thesis unfolding run .
qed

lemma awaits_bound:
  assumes "awaits q t r cmds"
  shows "length t + length r \<le> length (cmds_bytes cmds)"
proof (cases "t @ r = cmds_bytes cmds")
  case True
  then show ?thesis by (metis length_append order_refl)
next
  case False
  then obtain dn todo cs where "cmds = (dn @ todo) # cs" "mid q 0 t r dn todo (cmds_bytes cs)" using assms by (auto simp: awaits_def)
  then show ?thesis using mid_length(1) by (fastforce simp: cmd_bytes_def)
qed

text \<open>Neither the client nor all clients are halted.\<close>

definition ready :: "input \<Rightarrow> bool" where "ready q \<longleftrightarrow> \<not> q_blocked q \<and> \<not> clients_paused (q_pause q)"

definition f_ready :: "cmd_result \<Rightarrow> bool" where "f_ready f \<longleftrightarrow> \<not> f_blocked f \<and> \<not> clients_paused (f_pause f)"

lemma frame_fields: "frame q' = frame q \<Longrightarrow> ready q' = ready q \<and> q_reqtype q' = q_reqtype q"
  by (cases q; cases q') (simp add: frame_def ready_def)

lemma parse_request_ok:
  assumes q: "awaits q t r cmds" "t \<noteq> []" and c: "list_all cmd_ok cmds" "length (cmds_bytes cmds) < 2 ^ 29"
  shows "\<exists>q' t' c cs. cmds = c # cs \<and> (parse_request env (n, q) = Some ((n, q'), True) \<and> complete q' t' r c cs
      \<or> parse_request env (n, q) = Some ((n, q'), False) \<and> waits q' t' r c cs) \<and> ready q' = ready q"
proof (cases "t @ r = cmds_bytes cmds \<and> q_multibulklen q = 0 \<and> q_bulklen q = - 1 \<and> q_argv q = [] \<and> q_reqtype q \<noteq> REDIS_REQ_INLINE")
  case True
  then obtain c cs where cs: "cmds = c # cs" using q(2) by (cases cmds) auto
  define q1 where "q1 = q\<lparr>q_reqtype := REDIS_REQ_MULTIBULK\<rparr>"
  have repr: "sds_repr (q_buf q) t" using q(1) by (simp add: awaits_def)
  obtain x t' where x: "t = x # t'" using q(2) by (cases t) auto
  then have "x = 42" using True by (simp add: cs cmd_bytes_def bulk_header_def)
  moreover obtain sp where "s_buf (q_buf q) = t @ 0 # sp" using buf_drop [OF repr, of 0] by auto
  ultimately have "s_buf (q_buf q) ! 0 = 42" using x by simp
  then have run: "parse_request env (n, q) = processMultibulkBuffer env (n, q1)"
    using True by (cases "q_reqtype q"; cases q) (simp_all add: parse_request_def Let_def q1_def)
  have "cmd_ok c" "length (cmds_bytes (c # cs)) < 2 ^ 29" using c cs by simp_all
  from multibulk_start [of q1 t r c cs env n, OF _ _ _ _ _ _ q(2) this] True repr cs obtain q' t' where
    "processMultibulkBuffer env (n, q1) = Some ((n, q'), True) \<and> complete q' t' r c cs
      \<or> processMultibulkBuffer env (n, q1) = Some ((n, q'), False) \<and> waits q' t' r c cs" and fr: "frame q' = frame q1"
    unfolding q1_def by auto
  moreover have "ready q' = ready q" using frame_fields [OF fr] by (simp add: q1_def ready_def)
  ultimately show ?thesis using cs unfolding run by blast
next
  case False
  then obtain dn todo cs where cs: "cmds = (dn @ todo) # cs" "todo \<noteq> []" "q_reqtype q = REDIS_REQ_MULTIBULK" "mid q 0 t r dn todo (cmds_bytes cs)"
    using q(1) by (auto simp: awaits_def)
  have run: "parse_request env (n, q) = processMultibulkBuffer env (n, q)" using cs(3) by (simp add: parse_request_def)
  have "cmd_ok (dn @ todo)" "length (cmds_bytes ((dn @ todo) # cs)) < 2 ^ 29" using c cs(1) by simp_all
  from multibulk_resume [OF cs(3,4,2) this, of env n] obtain q' t' where
    "processMultibulkBuffer env (n, q) = Some ((n, q'), True) \<and> complete q' t' r (dn @ todo) cs
      \<or> processMultibulkBuffer env (n, q) = Some ((n, q'), False) \<and> waits q' t' r (dn @ todo) cs" and fr: "frame q' = frame q" by blast
  moreover have "ready q' = ready q" using frame_fields [OF fr] by simp
  ultimately show ?thesis using cs(1) unfolding run by blast
qed

subsection \<open>All requests\<close>

text \<open>
  What the commands do, told by the texts of their arguments. A command that blocks the client, has it
  closed or pauses the clients ends \<open>serve\<close> with \<open>None\<close>.
\<close>

type_synonym command_spec = "byte list list \<Rightarrow> net \<Rightarrow> (net \<times> cmd_result) option"

definition reads_texts :: "executor \<Rightarrow> command_spec \<Rightarrow> bool" where
  "reads_texts exec spec \<longleftrightarrow> (\<forall>argv args n. list_all2 obj_holds argv args \<longrightarrow> exec argv n = spec args n)"

fun serve :: "command_spec \<Rightarrow> byte list list list \<Rightarrow> net \<Rightarrow> net option" where
  "serve spec [] n = Some n"
| "serve spec (c # cs) n =
     do { (n, f) \<leftarrow> spec c n; check (f_ok f \<and> f_ready f \<and> \<not> c_close_after_reply (snd n)); serve spec cs n }"

text \<open>Nothing more can be done before more bytes come.\<close>

definition settled :: "input \<Rightarrow> byte list \<Rightarrow> byte list \<Rightarrow> byte list list list \<Rightarrow> bool" where
  "settled q t r cmds \<longleftrightarrow> awaits q t r cmds \<and> ready q \<and> (q_bulklen q \<noteq> - 1 \<longrightarrow> int (length t) < q_bulklen q + 2)
     \<and> (cmds \<noteq> [] \<longrightarrow> length (cmds_bytes (tl cmds)) < length r)"

lemma settled_empty:
  assumes "awaits q [] r cmds" and "ready q"
  shows "settled q [] r cmds"
proof -
  have "cmds \<noteq> [] \<longrightarrow> length (cmds_bytes (tl cmds)) < length r"
    using assms(1) mid_length(2) [of q 0 "[]" r]
    by (cases cmds) (auto simp: awaits_def cmd_bytes_def bulk_header_def)
  moreover have "q_bulklen q \<noteq> - 1 \<longrightarrow> 0 < q_bulklen q + 2" using assms(1) by (auto simp: awaits_def mid_def split: if_splits)
  ultimately show ?thesis using assms by (simp add: settled_def)
qed

lemma run_command_ok:
  assumes "complete q t r c cs" and "cmd_ok c" and "reads_texts exec spec" and "spec c n = Some (n', f)" "f_ok f" "f_ready f"
  shows "\<exists>q'. run_command exec (n, q) = Some (n', q') \<and> awaits q' t r cs \<and> ready q'"
proof -
  have a: "list_all2 obj_holds (q_argv q) c" "sds_repr (q_buf q) t" "t @ r = cmds_bytes cs" using assms(1) by (simp_all add: complete_def)
  have "q_argv q \<noteq> []" using a(1) assms(2) by (auto simp: cmd_ok_def)
  moreover have "exec (q_argv q) n = Some (n', f)" using assms(3,4) a(1) unfolding reads_texts_def by metis
  ultimately show ?thesis using assms(5,6) a(2,3) by (simp add: run_command_def awaits_def resetClient_def ready_def f_ready_def)
qed

text \<open>The commands that are complete have been executed, the others wait.\<close>

definition progress :: "command_spec \<Rightarrow> net \<Rightarrow> byte list list list \<Rightarrow> byte list \<Rightarrow> conn \<Rightarrow> bool" where
  "progress spec n cmds r nq \<longleftrightarrow> (\<exists>t cmds1 cmds2. cmds = cmds1 @ cmds2 \<and> serve spec cmds1 n = Some (fst nq)
     \<and> settled (snd nq) t r cmds2 \<and> \<not> c_close_after_reply (snd (fst nq)))"

lemma progressI:
  "settled q t r cmds \<Longrightarrow> \<not> c_close_after_reply (snd n) \<Longrightarrow> progress spec n cmds r (n, q)"
  unfolding progress_def by (intro exI [of _ t] exI [of _ "[]"] exI [of _ cmds]) simp

lemma progress_Cons:
  assumes "progress spec n' cs r nq" and "spec c n = Some (n', f)" "f_ok f" "f_ready f" "\<not> c_close_after_reply (snd n')"
  shows "progress spec n (c # cs) r nq"
proof -
  obtain t cs1 cs2 where "cs = cs1 @ cs2" "serve spec cs1 n' = Some (fst nq)" "settled (snd nq) t r cs2" "\<not> c_close_after_reply (snd (fst nq))"
    using assms(1) unfolding progress_def by blast
  then show ?thesis unfolding progress_def using assms(2-5)
    by (intro exI [of _ t] exI [of _ "c # cs1"] exI [of _ cs2]) (simp add: check_def)
qed

lemma check_pause_ready: "ready q \<Longrightarrow> check_pause (n, q) = (q, False)"
  by (simp add: check_pause_def clientsArePaused_def ready_def)

lemma processInputBuffer_steps:
  assumes "ready q" "\<not> c_close_after_reply (snd n)"
  shows "sdslen (q_buf q) = 0 \<Longrightarrow> processInputBuffer env exec (n, q) = Some (n, q)"
    and "sdslen (q_buf q) \<noteq> 0 \<Longrightarrow> parse_request env (n, q) = Some (nq, False) \<Longrightarrow> processInputBuffer env exec (n, q) = Some nq"
    and "sdslen (q_buf q) \<noteq> 0 \<Longrightarrow> parse_request env (n, q) = Some (nq, True) \<Longrightarrow> run_command exec nq = Some nq' \<Longrightarrow>
      processInputBuffer env exec (n, q) = processInputBuffer env exec nq'"
  using assms check_pause_ready [OF assms(1), of n] by (subst processInputBuffer.simps, simp add: ready_def)+

lemma process_ok:
  assumes exec: "reads_texts exec spec"
    and "serve spec cmds n \<noteq> None" "awaits q t r cmds" "list_all cmd_ok cmds" "length (cmds_bytes cmds) < 2 ^ 29"
    and "ready q" "\<not> c_close_after_reply (snd n)"
  shows "\<exists>nq. processInputBuffer env exec (n, q) = Some nq \<and> progress spec n cmds r nq"
  using assms(2-)
proof (induction cmds arbitrary: n q t rule: length_induct)
  case (1 cmds)
  note aw = 1(3) and opn = 1(6,7)
  have len: "sdslen (q_buf q) = length t" using aw by (simp add: awaits_def sds_texts)
  show ?case
  proof (cases "t = []")
    case True
    then have "settled q [] r cmds" using settled_empty aw opn(1) by simp
    then show ?thesis using processInputBuffer_steps(1) [OF opn] len True progressI opn(2) by fastforce
  next
    case False
    then have ne: "sdslen (q_buf q) \<noteq> 0" using len by simp
    obtain q' t' c cs where cs: "cmds = c # cs" and bl: "ready q' = ready q"
      and p: "parse_request env (n, q) = Some ((n, q'), True) \<and> complete q' t' r c cs
        \<or> parse_request env (n, q) = Some ((n, q'), False) \<and> waits q' t' r c cs"
      using parse_request_ok [OF aw False 1(4,5)] by blast
    from p show ?thesis
    proof (elim disjE conjE)
      assume w: "parse_request env (n, q) = Some ((n, q'), False)" "waits q' t' r c cs"
      have "settled q' t' r cmds" using w(2) bl opn(1) cs by (simp add: settled_def waits_def)
      then show ?thesis using processInputBuffer_steps(2) [OF opn ne w(1)] progressI opn(2) by blast
    next
      assume w: "parse_request env (n, q) = Some ((n, q'), True)" "complete q' t' r c cs"
      obtain n' f where f: "spec c n = Some (n', f)" "f_ok f" "f_ready f" "\<not> c_close_after_reply (snd n')" "serve spec cs n' \<noteq> None"
        using 1(2) cs by (auto simp: check_def split: bind_splits if_splits)
      have ok: "cmd_ok c" "list_all cmd_ok cs" "length (cmds_bytes cs) < 2 ^ 29" using 1(4,5) cs by simp_all
      obtain q2 where q2: "run_command exec (n, q') = Some (n', q2)" "awaits q2 t' r cs" "ready q2"
        using run_command_ok [OF w(2) ok(1) exec f(1-3)] by blast
      have "length cs < length cmds" by (simp add: cs)
      then obtain nq where nq: "processInputBuffer env exec (n', q2) = Some nq" "progress spec n' cs r nq"
        using 1(1) f(4,5) ok(2,3) q2(2,3) by blast
      have "progress spec n cmds r nq" unfolding cs by (rule progress_Cons) (rule nq f)+
      then show ?thesis using processInputBuffer_steps(3) [OF opn ne w(1) q2(1)] nq(1) by simp
    qed
  qed
qed

subsection \<open>Read events\<close>

lemma add_read_ok:
  assumes t: "sds_repr (q_buf q) t" "length t + room < 2 ^ 30" and x: "x \<noteq> []" "length x \<le> room"
  shows "\<exists>b. add_read env q room x = Some b \<and> sds_repr b (t @ x)"
proof -
  define s where "s = sdsMakeRoomFor (n_fresh env) (q_buf q) room"
  note room = sdsMakeRoomFor_text [OF t, of "n_fresh env", folded s_def]
  obtain sp where sp: "s = \<lparr>s_len = int (length t), s_free = int (length sp), s_buf = t @ 0 # sp\<rparr>" "length t + length sp + 1 < 2 ^ 31"
    using room(1) by (rule sds_reprE)
  have "length x \<le> length sp" using room(3) sp(1) x(2) by simp
  define m where "m = length x - 1"
  have m: "length x = Suc m" "m < length sp" using x(1) \<open>length x \<le> length sp\<close> by (cases x; simp add: m_def)+
  define z w where "z = tl x @ [sp ! m]" and "w = drop (Suc m) sp"
  have hd: "x = hd x # tl x" using x(1) by simp
  have "x @ drop m sp = hd x # z @ w" using x(1) Cons_nth_drop_Suc [OF m(2)] by (simp add: z_def w_def)
  then have wr: "write_bytes (s_buf s) (length t) x = Some (t @ hd x # z @ w)"
    using m by (simp add: write_bytes_def sp(1))
  have lz: "length z = length x" using m(1) by (simp add: z_def)
  have "length sp = length z + length w" using m lz by (simp add: w_def)
  then have "\<exists>b. sdsIncrLen (s\<lparr>s_buf := t @ hd x # z @ w\<rparr>) (int (length x)) = Some b
      \<and> sds_repr b (take (nat (int (length t) + int (length x))) (t @ hd x # z))"
    using sp lz by (intro sdsIncrLen_text [where r = w]) simp_all
  moreover have "take (nat (int (length t) + int (length x))) (t @ hd x # z) = t @ x"
    using m(1) hd by (simp add: z_def nat_add_distrib)
  moreover have "sdslen (q_buf q) = length t" using t(1) by (simp add: sds_texts)
  ultimately show ?thesis using wr by (simp add: add_read_def s_def Let_def)
qed

lemma mid_more:
  "mid q 0 t (x @ r) dn todo rest \<Longrightarrow> sds_repr b (t @ x) \<Longrightarrow> q_buf q' = b \<Longrightarrow> q_multibulklen q' = q_multibulklen q \<Longrightarrow>
    q_bulklen q' = q_bulklen q \<Longrightarrow> q_argv q' = q_argv q \<Longrightarrow> mid q' 0 (t @ x) r dn todo rest"
  by (simp add: mid_def split: if_splits)

lemma awaits_more:
  assumes "awaits q t (x @ r) cmds" and "sds_repr b (t @ x)"
    and q': "q_buf q' = b" "q_reqtype q' = q_reqtype q" "q_multibulklen q' = q_multibulklen q" "q_bulklen q' = q_bulklen q" "q_argv q' = q_argv q"
  shows "awaits q' (t @ x) r cmds"
  using assms(1,2) mid_more [OF _ assms(2) q'(1,3-5)] unfolding awaits_def q' append_assoc by blast

lemma read_length_ok:
  assumes "settled q t r cmds"
  shows "0 < read_length q" "read_length q \<le> int REDIS_IOBUF_LEN"
  using assms by (auto simp: read_length_def settled_def awaits_def sds_texts REDIS_IOBUF_LEN_def)

lemma settled_bound: "settled q t r cmds \<Longrightarrow> length t + length r \<le> length (cmds_bytes cmds)"
  unfolding settled_def using awaits_bound by blast

lemma read_got:
  assumes "0 \<le> read_length q" and "take (nat (read_length q)) y = x" "x \<noteq> []"
    and "add_read env (q\<lparr>q_peak := max (q_peak q) (sdslen (q_buf q))\<rparr>) (nat (read_length q)) x = Some b" "\<not> sdslen b > mq"
    and "processInputBuffer env exec ((st, c), q\<lparr>q_peak := max (q_peak q) (sdslen (q_buf q)), q_buf := b,
      q_lastinteraction := unixtime env, q_reploff := (if c_master c then q_reploff q + int (length x) else q_reploff q)\<rparr>) = Some nq"
  shows "readQueryFromClient env mq exec ((st, c), q) (Got y) = Some (nq, length x, False)"
  using assms by (cases "c_master c") (simp_all add: readQueryFromClient_def Let_def check_def)

lemma read_step:
  assumes exec: "reads_texts exec spec" and s: "settled q t r cmds" "\<not> c_close_after_reply (snd n)" and r: "r \<noteq> []" "0 < k"
    and c: "serve spec cmds n \<noteq> None" "list_all cmd_ok cmds" "length (cmds_bytes cmds) < 2 ^ 29" "length (cmds_bytes cmds) \<le> mq"
  shows "\<exists>nq m. readQueryFromClient env mq exec (n, q) (Got (take k r)) = Some (nq, m, False)
    \<and> 0 < m \<and> m \<le> length r \<and> progress spec n cmds (drop m r) nq"
proof -
  define l where "l = nat (read_length q)"
  note rl = read_length_ok [OF s(1)]
  define x where "x = take l (take k r)"
  define m where "m = length x"
  have l: "0 < l" "l \<le> REDIS_IOBUF_LEN" using rl by (simp_all add: l_def)
  have x: "x \<noteq> []" "m \<le> l" "0 < m" "m \<le> length r" using r l by (simp_all add: x_def m_def)
  have xr: "x @ drop m r = r" by (simp add: x_def m_def take_take min_def)
  have aw: "awaits q t r cmds" "ready q" using s(1) by (simp_all add: settled_def)
  then have repr: "sds_repr (q_buf q) t" by (simp add: awaits_def)
  have lt: "length t + length r \<le> length (cmds_bytes cmds)" using settled_bound s(1) .
  define q1 where "q1 = q\<lparr>q_peak := max (q_peak q) (sdslen (q_buf q))\<rparr>"
  have "\<exists>b. add_read env q1 l x = Some b \<and> sds_repr b (t @ x)"
    by (rule add_read_ok) (use repr lt c(3) l x in \<open>simp_all add: q1_def m_def REDIS_IOBUF_LEN_def\<close>)
  then obtain b where b: "add_read env q1 l x = Some b" "sds_repr b (t @ x)" by blast
  define q2 where "q2 = q1\<lparr>q_buf := b, q_lastinteraction := unixtime env,
    q_reploff := (if c_master (snd n) then q_reploff q + int m else q_reploff q)\<rparr>"
  have "awaits q2 (t @ x) (drop m r) cmds"
    by (rule awaits_more [of q _ _ _ _ b]) (use aw xr b in \<open>simp_all add: q2_def q1_def\<close>)
  moreover have "ready q2" using aw(2) by (simp add: q2_def q1_def ready_def)
  ultimately obtain nq where nq: "processInputBuffer env exec (n, q2) = Some nq" "progress spec n cmds (drop m r) nq"
    using process_ok [OF exec c(1) _ c(2,3) _ s(2)] by blast
  have "length (t @ x) \<le> length (cmds_bytes cmds)" using lt x(4) by (simp add: m_def)
  then have "\<not> sdslen b > mq" using b(2) c(4) by (simp add: sds_texts)
  then have "readQueryFromClient env mq exec ((fst n, snd n), q) (Got (take k r)) = Some (nq, length x, False)"
    using rl(1) b(1) nq(1) [unfolded q2_def q1_def m_def]
    by (intro read_got [OF _ x_def [unfolded l_def, symmetric] x(1)]) (simp_all only: q1_def l_def prod.collapse input.simps order_less_imp_le not_False_eq_True)
  then have "readQueryFromClient env mq exec (n, q) (Got (take k r)) = Some (nq, m, False)" by (simp add: m_def)
  then show ?thesis using x nq(2) by blast
qed

text \<open>
  The bytes arrive: before each read event the next \<open>k\<close> bytes at most are in the socket. The client is not
  freed. The last result are the bytes that are still to come.
\<close>

fun feed :: "net_env \<Rightarrow> nat \<Rightarrow> executor \<Rightarrow> conn \<Rightarrow> byte list \<Rightarrow> nat list \<Rightarrow> (conn \<times> byte list) option" where
  "feed env mq exec nq r [] = Some (nq, r)"
| "feed env mq exec nq r (k # ks) = (if r = [] then Some (nq, r)
     else do { (nq, m, freed) \<leftarrow> readQueryFromClient env mq exec nq (Got (take k r));
               check (\<not> freed); feed env mq exec nq (drop m r) ks })"

text \<open>The commands that end within the first \<open>m\<close> bytes.\<close>

fun whole :: "byte list list list \<Rightarrow> nat \<Rightarrow> byte list list list" where
  "whole [] m = []"
| "whole (c # cs) m = (if length (cmd_bytes c) \<le> m then c # whole cs (m - length (cmd_bytes c)) else [])"

lemma whole_append:
  "length (cmds_bytes cs) \<le> m \<Longrightarrow> (ds \<noteq> [] \<Longrightarrow> m < length (cmds_bytes cs) + length (cmd_bytes (hd ds))) \<Longrightarrow> whole (cs @ ds) m = cs"
proof (induction cs arbitrary: m)
  case Nil
  then show ?case by (cases ds) auto
next
  case (Cons c cs)
  have "whole (cs @ ds) (m - length (cmd_bytes c)) = cs" using Cons.prems by (intro Cons.IH) auto
  then show ?case using Cons.prems(1) by simp
qed

lemma serve_append: "serve spec (cs @ ds) n = serve spec cs n \<bind> serve spec ds"
  by (induction cs arbitrary: n) (auto split: bind_splits prod.splits)

lemma progress_trans:
  assumes "cmds = cmds1 @ cmds2" "serve spec cmds1 n = Some n1" "progress spec n1 cmds2 r nq"
  shows "progress spec n cmds r nq"
proof -
  obtain t cs ds where "cmds2 = cs @ ds" "serve spec cs n1 = Some (fst nq)" "settled (snd nq) t r ds" "\<not> c_close_after_reply (snd (fst nq))"
    using assms(3) unfolding progress_def by blast
  then show ?thesis unfolding progress_def using assms(1,2)
    by (intro exI [of _ t] exI [of _ "cmds1 @ cs"] exI [of _ ds]) (simp add: serve_append)
qed

lemma progress_whole:
  assumes "progress spec n cmds (drop m (cmds_bytes cmds)) nq" and m: "m \<le> length (cmds_bytes cmds)"
  shows "serve spec (whole cmds m) n = Some (fst nq)"
proof -
  obtain t cs ds where c: "cmds = cs @ ds" "serve spec cs n = Some (fst nq)" "settled (snd nq) t (drop m (cmds_bytes cmds)) ds"
    using assms(1) unfolding progress_def by blast
  have "length (drop m (cmds_bytes cmds)) \<le> length (cmds_bytes ds)" using settled_bound [OF c(3)] by simp
  then have "length (cmds_bytes cs) \<le> m" using m by (simp add: c(1))
  moreover have "m < length (cmds_bytes cs) + length (cmd_bytes (hd ds))" if "ds \<noteq> []"
  proof -
    have "length (cmds_bytes (tl ds)) < length (drop m (cmds_bytes cmds))" using c(3) that by (simp add: settled_def)
    moreover have "cmds_bytes ds = cmd_bytes (hd ds) @ cmds_bytes (tl ds)" using that by (cases ds) simp_all
    ultimately show ?thesis using m by (simp add: c(1))
  qed
  ultimately have "whole cmds m = cs" unfolding c(1) by (rule whole_append)
  then show ?thesis using c(2) by simp
qed

lemma feed_ok:
  assumes exec: "reads_texts exec spec" and c: "serve spec cmds n \<noteq> None" "list_all cmd_ok cmds" "length (cmds_bytes cmds) < 2 ^ 29"
    "length (cmds_bytes cmds) \<le> mq"
  shows "progress spec n cmds r nq \<Longrightarrow> list_all (\<lambda>k. 0 < k) ks \<Longrightarrow>
    \<exists>nq' m. feed env mq exec nq r ks = Some (nq', drop m r) \<and> m \<le> length r \<and> min (length ks) (length r) \<le> m \<and> progress spec n cmds (drop m r) nq'"
proof (induction ks arbitrary: r nq)
  case Nil
  then show ?case by (intro exI [of _ nq] exI [of _ 0]) simp
next
  case (Cons k ks)
  show ?case
  proof (cases "r = []")
    case True
    then show ?thesis using Cons.prems(1) by simp
  next
    case False
    obtain t cmds1 cmds2 where p: "cmds = cmds1 @ cmds2" "serve spec cmds1 n = Some (fst nq)" "settled (snd nq) t r cmds2"
      "\<not> c_close_after_reply (snd (fst nq))" using Cons.prems(1) unfolding progress_def by blast
    have c2: "serve spec cmds2 (fst nq) \<noteq> None" "list_all cmd_ok cmds2" "length (cmds_bytes cmds2) < 2 ^ 29" "length (cmds_bytes cmds2) \<le> mq"
      using c p(1,2) by (simp_all add: serve_append)
    have "0 < k" using Cons.prems(2) by simp
    from read_step [OF exec p(3,4) False this c2] obtain nq1 m where
      1: "readQueryFromClient env mq exec (fst nq, snd nq) (Got (take k r)) = Some (nq1, m, False)" "0 < m" "m \<le> length r"
      and "progress spec (fst nq) cmds2 (drop m r) nq1" by blast
    have ks: "list_all (\<lambda>k. 0 < k) ks" using Cons.prems(2) by simp
    from Cons.IH [OF progress_trans [OF p(1,2) \<open>progress spec (fst nq) cmds2 (drop m r) nq1\<close>] ks] obtain nq' m' where 2: "feed env mq exec nq1 (drop m r) ks = Some (nq', drop m' (drop m r))" "m' \<le> length (drop m r)"
      "min (length ks) (length (drop m r)) \<le> m'" "progress spec n cmds (drop m' (drop m r)) nq'" by blast
    have "feed env mq exec nq r (k # ks) = Some (nq', drop (m' + m) r)" using False 1(1) 2(1) by (simp add: check_def)
    then show ?thesis using 1(2,3) 2(2-4) by (intro exI [of _ nq'] exI [of _ "m' + m"]) auto
  qed
qed

definition idle :: "input \<Rightarrow> bool" where
  "idle q \<longleftrightarrow> sds_repr (q_buf q) [] \<and> q_multibulklen q = 0 \<and> q_bulklen q = - 1 \<and> q_argv q = [] \<and> q_reqtype q \<noteq> REDIS_REQ_INLINE \<and> ready q"

text \<open>
  C2. The stream of commands. Whatever the number of bytes that each read finds, no read faults or frees the
  client; after it exactly those commands have been executed that lie within the bytes read, once each, in
  order, with the texts of their arguments. A read takes at least a byte, so in the end all of them are. The
  clients are not paused, and the commands may do anything but block or close the client or pause the
  clients; their results depend on the texts of the arguments and not on their encodings. In a command all
  arguments but the last, with their lengths, have less than 64 KB: the parser refuses longer ones when the
  line with the next length is split between reads.
\<close>

theorem requests_executed:
  assumes "reads_texts exec spec" and "idle q" "\<not> c_close_after_reply (snd n)" and "serve spec cmds n \<noteq> None" "list_all cmd_ok cmds"
    and "length (cmds_bytes cmds) < 2 ^ 29" "length (cmds_bytes cmds) \<le> mq" and "list_all (\<lambda>k. 0 < k) ks"
  shows "\<exists>n' q' m. feed env mq exec (n, q) (cmds_bytes cmds) ks = Some ((n', q'), drop m (cmds_bytes cmds))
    \<and> min (length ks) (length (cmds_bytes cmds)) \<le> m \<and> serve spec (whole cmds m) n = Some n'"
proof -
  have "settled q [] (cmds_bytes cmds) cmds" using assms(2) by (intro settled_empty) (simp_all add: idle_def awaits_def)
  then have "progress spec n cmds (cmds_bytes cmds) (n, q)" using progressI assms(3) by blast
  from feed_ok [OF assms(1,4-7) this assms(8)] obtain nq m where
    "feed env mq exec (n, q) (cmds_bytes cmds) ks = Some (nq, drop m (cmds_bytes cmds))" "m \<le> length (cmds_bytes cmds)"
    "min (length ks) (length (cmds_bytes cmds)) \<le> m" "progress spec n cmds (drop m (cmds_bytes cmds)) nq" by blast
  then show ?thesis using progress_whole by (cases nq) fastforce
qed

definition sample_input :: "byte list \<Rightarrow> input" where
  "sample_input t = \<lparr>q_buf = \<lparr>s_len = int (length t), s_free = 0, s_buf = t @ [0]\<rparr>, q_reqtype = REQ_NONE, q_multibulklen = 0,
     q_bulklen = - 1, q_argv = [], q_blocked = False, q_multi = False, q_asking = False, q_cmd_asking = False, q_peak = 0,
     q_reploff = 0, q_repl_ack_time = 0, q_lastinteraction = 0,
     q_pause = \<lparr>clients_paused = False, clients_pause_end_time = 0, mstime = 0, requeued = False\<rparr>\<rparr>"

lemma sample_input_text: "length t < 1000 \<Longrightarrow> sds_repr (q_buf (sample_input t)) t"
  using sds_reprI [of t "[]"] by (simp add: sample_input_def)

text \<open>Commands that count their arguments.\<close>

definition count_args :: "command_spec" where
  "count_args args = (\<lambda>(st, c). Some ((st, c\<lparr>c_soft_limit_time := c_soft_limit_time c + int (length args)\<rparr>),
     \<lparr>f_ok = True, f_blocked = False, f_multi = False, f_asking = False, f_cmd_asking = False,
       f_pause = \<lparr>clients_paused = False, clients_pause_end_time = 0, mstime = 0, requeued = False\<rparr>\<rparr>))"

definition count_objects :: executor where "count_objects argv = count_args (map (\<lambda>_. []) argv)"

lemma count_objects_reads: "reads_texts count_objects count_args"
  unfolding reads_texts_def count_objects_def count_args_def by (auto dest: list_all2_lengthD)

theorem requests_executed_witness:
  "\<exists>n' q' m. feed sample_env 1000 count_objects ((sample_store, sample_client []), sample_input [])
      (cmds_bytes [[[71, 69, 84], [107]], [[80, 73, 78, 71]]]) (replicate 100 3) = Some ((n', q'), drop m (cmds_bytes [[[71, 69, 84], [107]], [[80, 73, 78, 71]]]))
    \<and> 34 \<le> m \<and> c_soft_limit_time (snd n') = 3"
proof -
  define cmds :: "byte list list list" where "cmds = [[[71, 69, 84], [107]], [[80, 73, 78, 71]]]"
  have l: "length (cmds_bytes cmds) = 34" "map (\<lambda>c. length (cmd_bytes c)) cmds = [20, 14]" unfolding cmds_def by code_simp+
  have w: "whole cmds m = cmds" if "34 \<le> m" for m using l(2) that by (simp add: cmds_def)
  have "map (\<lambda>c. length (arg_bytes (butlast c))) cmds = [9, 0]" unfolding cmds_def by code_simp
  then have ok: "list_all cmd_ok cmds" by (simp add: cmds_def cmd_ok_def REDIS_INLINE_MAX_SIZE_def)
  have n: "serve count_args cmds (sample_store, sample_client []) =
      Some (sample_store, sample_client []\<lparr>c_soft_limit_time := 3\<rparr>)"
    by (simp add: cmds_def count_args_def check_def sample_client_def f_ready_def)
  have i: "idle (sample_input [])" using sample_input_text [of "[]"] by (simp add: idle_def sample_input_def ready_def)
  have "list_all (\<lambda>k. 0 < k) (replicate 100 (3 :: nat))" by (simp add: list_all_iff)
  from requests_executed [OF count_objects_reads i _ _ ok _ _ this, of "(sample_store, sample_client [])" 1000 sample_env] l(1) n
  show ?thesis unfolding cmds_def [symmetric] using w by (fastforce simp: sample_client_def)
qed

end
