(* ===== verification/Client_Inline.thy ===== *)
theory Client_Inline
  imports Client_Parse
begin

text \<open>
  Inline requests, and two requests the input side does not treat as it means to: a line that ends in a line feed
  alone takes a byte of what follows, and a paused client that sends a long argument is disconnected.
\<close>

subsection \<open>A line of quoted arguments\<close>

definition quoted_line :: "byte list list \<Rightarrow> byte list" where
  "quoted_line args = concat (map (\<lambda>a. repr_text a @ [32]) args)"

lemma repr_char_no_lf: "10 \<notin> set (repr_char c)"
proof -
  have "list_all (\<lambda>d. hex_char d \<noteq> 10) [0..<16]" by code_simp
  then have "hex_char d \<noteq> 10" if "d < 16" for d using that by (simp add: list_all_iff)
  from this [OF byte_nibbles(1) [of c]] this [OF byte_nibbles(2) [of c]] show ?thesis
    by (auto simp: repr_char_def isprint_def)
qed

lemma quoted_line_chars: "10 \<notin> set (quoted_line args)" "0 \<notin> set (quoted_line args)"
  by (induction args) (simp_all add: quoted_line_def repr_text_def repr_char_no_lf repr_char_nul)

lemma quoted_line_last: "quoted_line args \<noteq> [] \<Longrightarrow> last (quoted_line args) = 32"
proof (cases args rule: rev_cases)
  case (snoc xs a)
  then have "quoted_line args = (quoted_line xs @ repr_text a) @ [32]" by (simp add: quoted_line_def)
  then show ?thesis by (simp only: last_snoc)
qed (simp add: quoted_line_def)

lemma repr_char_ne: "repr_char c \<noteq> []"
  unfolding repr_char_def by (simp split: if_split)

lemma length_quoted: "a \<in> set args \<Longrightarrow> length a \<le> length (quoted_line args)"
proof -
  assume "a \<in> set args"
  moreover have "length a \<le> length (concat (map repr_char a))" for a
  proof (induction a)
    case (Cons c a)
    then show ?case using repr_char_ne [of c] by (cases "repr_char c") simp_all
  qed simp
  ultimately show ?thesis by (induction args) (auto simp: quoted_line_def repr_text_def intro: le_trans trans_le_add1 le_SucI)
qed

lemma split_quoted_line:
  assumes "length (quoted_line args) + 1 < 2 ^ 30" and "sds_repr s (quoted_line args)"
  shows "\<exists>v. sdssplitargs fresh (s_buf s) = Some (Some v) \<and> list_all2 sds_repr v args"
proof -
  have "\<forall>a \<in> set args. length a < 2 ^ 30" using length_quoted assms(1) by fastforce
  note loop = args_loop_quoted [OF this, of fresh _ "[]", unfolded append_Nil, folded quoted_line_def]
  obtain sp where "s_buf s = quoted_line args @ 0 # sp" using assms(2) by (rule sds_reprE) simp
  then show ?thesis using loop [of sp] unfolding sdssplitargs_def by simp
qed

lemma inline_args_hold:
  "list_all2 sds_repr v args \<Longrightarrow> list_all2 obj_holds (inline_args v) (filter (\<lambda>a. a \<noteq> []) args)"
  by (induction rule: list_all2_induct) (auto simp: inline_args_def createObject_def obj_holds_def sds_texts)

text \<open>The two line ends that the parser admits.\<close>

definition line_end :: "byte list \<Rightarrow> bool" where "line_end e \<longleftrightarrow> e = [13, 10] \<or> e = [10]"

text \<open>
  C36. An inline request. A line of quoted arguments is parsed into these arguments, but for the empty ones,
  whatever bytes they hold. The buffer behind a carriage return and line feed is kept; behind a line feed
  alone one byte of it is lost.
\<close>

theorem processInlineBuffer_line:
  assumes q: "sds_repr (q_buf q) (quoted_line args @ e @ r)" and e: "line_end e" and small: "length (quoted_line args) + 1 < 2 ^ 30"
  shows "\<exists>q'. processInlineBuffer env (n, q) = Some ((n, q'), True)
    \<and> list_all2 obj_holds (q_argv q') (filter (\<lambda>a. a \<noteq> []) args)
    \<and> sds_repr (q_buf q') (if e = [10] then drop 1 r else r)"
proof -
  define line where "line = quoted_line args"
  obtain sp where sp: "s_buf (q_buf q) = line @ e @ r @ 0 # sp" using q by (auto elim: sds_reprE simp: line_def)
  have "e = butlast e @ [10]" "10 \<notin> set (butlast e)" "0 \<notin> set (butlast e)" using e by (auto simp: line_end_def)
  then have split: "s_buf (q_buf q) = (line @ butlast e) @ 10 # r @ 0 # sp" unfolding sp by (metis append.assoc append_Cons append_Nil)
  have nl: "find_char (s_buf (q_buf q)) 10 = Some (Some (length line + length (butlast e)))"
    unfolding split using find_char_at [of 10 "line @ butlast e"] quoted_line_chars [of args] \<open>10 \<notin> set (butlast e)\<close> \<open>0 \<notin> set (butlast e)\<close>
    by (simp add: line_def)
  define newline where "newline = length line + length (butlast e)"
  have ql: "(if newline \<noteq> 0 \<and> s_buf (q_buf q) ! (newline - 1) = 13 then newline - 1 else newline) = length line"
  proof (cases "e = [10]")
    case True
    moreover have "s_buf (q_buf q) ! (length line - 1) \<noteq> 13" if "line \<noteq> []"
      using quoted_line_last [of args] that by (simp add: sp nth_append last_conv_nth line_def)
    ultimately show ?thesis by (cases "line = []") (simp_all add: newline_def)
  next
    case False
    then show ?thesis using e by (simp add: newline_def line_end_def sp nth_append)
  qed
  have "read_bytes (s_buf (q_buf q)) 0 (length line) = Some line" by (simp add: sp read_bytes_def)
  then obtain aux where aux: "sdsnewlen (Some (s_buf (q_buf q))) (length line) (n_fresh env) = Some aux" "sds_repr aux line"
    using sdsnewlen_text [of "s_buf (q_buf q)" "length line" line "n_fresh env"] small by (auto simp: line_def)
  obtain v where v: "sdssplitargs (n_fresh env) (s_buf aux) = Some (Some v)" "list_all2 sds_repr v args"
    using split_quoted_line [OF small, of aux "n_fresh env"] aux(2) by (auto simp: line_def)
  define q1 where "q1 = (if length line = 0 \<and> c_slave (snd n) then q\<lparr>q_repl_ack_time := unixtime env\<rparr> else q)"
  have "q_buf q1 = q_buf q" by (simp add: q1_def)
  then obtain b where b: "sdsrange (q_buf q1) (int (length line + 2)) (- 1) = Some b" "sds_repr b (drop (length line + 2) (line @ e @ r))"
    using sdsrange_from [OF q, of "length line + 2"] by (auto simp: line_def)
  have "drop (length line + 2) (line @ e @ r) = (if e = [10] then drop 1 r else r)" using e by (auto simp: line_end_def)
  moreover have "processInlineBuffer env (n, q) = Some ((n, q1\<lparr>q_buf := b, q_argv := inline_args v\<rparr>), True)"
    using nl ql aux(1) v(1) b(1) unfolding newline_def [symmetric]
    by (cases n) (simp add: processInlineBuffer_def Let_def q1_def)
  ultimately show ?thesis using inline_args_hold [OF v(2)] b(2) by (intro exI [of _ "q1\<lparr>q_buf := b, q_argv := inline_args v\<rparr>"]) simp
qed

subsection \<open>A paused client\<close>

text \<open>The bytes of a long argument that are still to be read.\<close>

definition missing_bytes :: "input \<Rightarrow> int" where
  "missing_bytes q = q_bulklen q + 2 - int (sdslen (q_buf q))"

definition reads_big_arg :: "input \<Rightarrow> bool" where
  "reads_big_arg q \<longleftrightarrow> q_reqtype q = REDIS_REQ_MULTIBULK \<and> q_multibulklen q \<noteq> 0 \<and> q_bulklen q \<ge> int REDIS_MBULK_BIG_ARG"

lemma big_arg_length: "reads_big_arg q \<Longrightarrow> read_length q = min (missing_bytes q) (int REDIS_IOBUF_LEN)"
  by (auto simp: reads_big_arg_def read_length_def missing_bytes_def REDIS_MBULK_BIG_ARG_def)

lemma read_none:
  "read_length q = 0 \<Longrightarrow> readQueryFromClient env mq exec ((st, c), q) (Got z)
    = Some (((st, c), q\<lparr>q_peak := max (q_peak q) (sdslen (q_buf q))\<rparr>), 0, True)"
  by (simp add: readQueryFromClient_def Let_def check_def)

text \<open>
  C39. A paused client is lost. The last bytes of a long argument come while the clients are paused: they are
  read, and nothing is executed. At the next read event the length to read is 0, which \<open>read\<close> answers
  with 0, and the client is freed as if it had closed the connection.
\<close>

theorem paused_client_freed:
  assumes q: "sds_repr (q_buf q) t" "reads_big_arg q" "q_bulklen q \<le> 512 * 1024 * 1024"
    and c: "\<not> c_slave (snd n)" and p: "clients_paused (q_pause q)" "mstime (q_pause q) \<le> clients_pause_end_time (q_pause q)" and x: "x \<noteq> []" "missing_bytes q = int (length x)" "length x \<le> REDIS_IOBUF_LEN" "length t + length x \<le> mq"
  shows "\<exists>q1 q2. readQueryFromClient env mq exec (n, q) (Got (x @ y)) = Some ((n, q1), length x, False)
    \<and> sds_repr (q_buf q1) (t @ x) \<and> readQueryFromClient env mq exec (n, q1) (Got z) = Some ((n, q2), 0, True)"
proof -
  have rl: "read_length q = int (length x)" using big_arg_length [OF q(2)] x(2,3) by simp
  define q0 where "q0 = q\<lparr>q_peak := max (q_peak q) (sdslen (q_buf q))\<rparr>"
  have t: "sdslen (q_buf q) = length t" "length t + length x < 2 ^ 30" using q(1,3) x(2) by (simp_all add: sds_texts missing_bytes_def)
  have "\<exists>b. add_read env q0 (length x) x = Some b \<and> sds_repr b (t @ x)"
    by (rule add_read_ok) (use q(1) t x(1) in \<open>simp_all add: q0_def\<close>)
  then obtain b where b: "add_read env q0 (length x) x = Some b" "sds_repr b (t @ x)" by blast
  define q1 where "q1 = q0\<lparr>q_buf := b, q_lastinteraction := unixtime env,
    q_reploff := (if c_master (snd n) then q_reploff q + int (length x) else q_reploff q)\<rparr>"
  have lb: "sdslen b = length t + length x" using b(2) by (simp add: sds_texts)
  have "processInputBuffer env exec ((fst n, snd n), q1) = Some (n, q1)"
    using c p by (subst processInputBuffer.simps) (simp add: check_pause_def clientsArePaused_def q1_def q0_def Let_def)
  then have "readQueryFromClient env mq exec ((fst n, snd n), q) (Got (x @ y)) = Some ((n, q1), length x, False)"
    using rl b(1) lb x(1,4) by (intro read_got) (simp_all only: q1_def q0_def nat_int take_append take_all length_append, simp_all)
  moreover have "reads_big_arg q1" "missing_bytes q1 = 0"
    using q(2) x(2) lb t(1) by (simp_all add: reads_big_arg_def missing_bytes_def q1_def q0_def)
  then have "read_length q1 = 0" using big_arg_length [of q1] by (simp add: REDIS_IOBUF_LEN_def)
  from read_none [OF this, of env mq exec "fst n" "snd n" z]
  have "\<exists>q2. readQueryFromClient env mq exec (n, q1) (Got z) = Some ((n, q2), 0, True)" by simp
  moreover have "sds_repr (q_buf q1) (t @ x)" using b(2) by (simp add: q1_def)
  ultimately show ?thesis by auto
qed

theorem paused_client_freed_witness:
  "\<exists>q q1 q2. reads_big_arg q \<and> readQueryFromClient sample_env 100000 (\<lambda>_ _. None) ((sample_store, sample_client []), q) (Got [13, 10])
      = Some (((sample_store, sample_client []), q1), 2, False)
    \<and> readQueryFromClient sample_env 100000 (\<lambda>_ _. None) ((sample_store, sample_client []), q1) (Got [42])
      = Some (((sample_store, sample_client []), q2), 0, True)"
proof -
  define t :: "byte list" where "t = replicate REDIS_MBULK_BIG_ARG 65"
  define q where "q = (sample_input [])\<lparr>q_buf := \<lparr>s_len = int (length t), s_free = 0, s_buf = t @ [0]\<rparr>, q_reqtype := REDIS_REQ_MULTIBULK,
    q_multibulklen := 1, q_bulklen := int REDIS_MBULK_BIG_ARG, q_pause := \<lparr>clients_paused = True, clients_pause_end_time = 5, mstime = 0, requeued = False\<rparr>\<rparr>"
  have pa: "clients_paused (q_pause q)" "mstime (q_pause q) \<le> clients_pause_end_time (q_pause q)" by (simp_all add: q_def)
  have lt: "length t = 32768" by (simp add: t_def REDIS_MBULK_BIG_ARG_def)
  have repr: "sds_repr (q_buf q) t" using sds_reprI [of t "[]"] lt by (simp add: q_def)
  have b: "reads_big_arg q" by (simp add: reads_big_arg_def q_def)
  have m: "missing_bytes q = int (length [13 :: byte, 10])" using repr lt by (simp add: missing_bytes_def sds_texts q_def REDIS_MBULK_BIG_ARG_def)
  have s: "\<not> c_slave (snd (sample_store, sample_client []))" by (simp add: sample_client_def)
  have "q_bulklen q \<le> 512 * 1024 * 1024" by (simp add: q_def REDIS_MBULK_BIG_ARG_def)
  from paused_client_freed [OF repr b this s pa _ m, of 100000 sample_env "\<lambda>_ _. None" "[]" "[42]"] lt b show ?thesis
    by (auto simp: REDIS_IOBUF_LEN_def)
qed

theorem processInlineBuffer_line_witness:
  "\<exists>q q'. processInlineBuffer sample_env ((sample_store, sample_client []), q) = Some (((sample_store, sample_client []), q'), True)
    \<and> sds_repr (q_buf q) (quoted_line [[80, 73, 78, 71]] @ [10] @ [81, 85, 73, 84, 10])
    \<and> list_all2 obj_holds (q_argv q') [[80, 73, 78, 71]] \<and> sds_repr (q_buf q') [85, 73, 84, 10]"
proof -
  define q where "q = sample_input (quoted_line [[80, 73, 78, 71]] @ [10] @ [81, 85, 73, 84, 10])"
  have l: "length (quoted_line [[80, 73, 78, 71]]) = 7" by code_simp
  have "sds_repr (q_buf q) (quoted_line [[80, 73, 78, 71]] @ [10] @ [81, 85, 73, 84, 10])"
    unfolding q_def by (rule sample_input_text) (simp add: l)
  from processInlineBuffer_line [OF this, of sample_env "(sample_store, sample_client [])"] this show ?thesis
    by (auto simp: line_end_def l)
qed

end
