(* ===== verification/Skiplist.thy ===== *)
theory Skiplist
  imports String_Object
begin

text \<open>
  The skiplist behind sorted sets (\<open>src/redis-3.0/src/t_zset.c\<close>): nodes with towers of forward pointers, each with
  its span, on a heap of nodes. Scores are the doubles other than NaN (\<open>zslInsert\<close> asserts that), of which the code
  uses nothing but the order: a type \<open>'s\<close> of class \<open>linorder\<close>, in which the two zeros are one. \<open>None\<close> is an access
  outside a node or to a freed one, a failed assertion, or a loop that does not end. Ranks are \<open>unsigned long\<close>s, spans
  \<open>unsigned int\<close>s; \<open>zslInsert\<close> also keeps its ranks as \<open>unsigned int\<close>s, which makes no difference, since it uses
  them for spans only, modulo 2 to the 32. That \<open>zslFreeNode\<close> gives up a reference to the object is left out: objects are values here.
\<close>

definition ZSKIPLIST_MAXLEVEL :: nat where "ZSKIPLIST_MAXLEVEL = 32"

record zskiplistLevel =
  forward :: "nat option"
  span :: nat

record 's zskiplistNode =
  z_obj :: "robj option"
  z_score :: 's
  z_backward :: "nat option"
  z_levels :: "zskiplistLevel list"

record zskiplist =
  zsl_header :: nat
  zsl_tail :: "nat option"
  zsl_length :: nat
  zsl_level :: nat

type_synonym 's zheap = "nat \<Rightarrow> 's zskiplistNode option"
type_synonym 's zstate = "'s zheap \<times> zskiplist"

subsection \<open>Access to the nodes\<close>

definition get_level :: "'s zheap \<Rightarrow> nat \<Rightarrow> nat \<Rightarrow> zskiplistLevel option" where
  "get_level h a i = do { n \<leftarrow> h a; check (i < length (z_levels n)); Some (z_levels n ! i) }"

definition set_level :: "nat \<Rightarrow> nat \<Rightarrow> zskiplistLevel \<Rightarrow> 's zheap \<Rightarrow> 's zheap option" where
  "set_level a i lv h = do { n \<leftarrow> h a; check (i < length (z_levels n)); Some (h(a \<mapsto> n\<lparr>z_levels := (z_levels n)[i := lv]\<rparr>)) }"

definition set_backward :: "nat \<Rightarrow> nat option \<Rightarrow> 's zheap \<Rightarrow> 's zheap option" where
  "set_backward a b h = do { n \<leftarrow> h a; Some (h(a \<mapsto> n\<lparr>z_backward := b\<rparr>)) }"

text \<open>\<open>for (i = lo; i < lo + n; i++)\<close>\<close>

fun for_levels :: "(nat \<Rightarrow> 's zheap \<Rightarrow> 's zheap option) \<Rightarrow> nat \<Rightarrow> nat \<Rightarrow> 's zheap \<Rightarrow> 's zheap option" where
  "for_levels f lo 0 h = Some h"
| "for_levels f lo (Suc n) h = do { h \<leftarrow> for_levels f lo n h; f (lo + n) h }"

subsection \<open>Creation\<close>

text \<open>Memory comes from \<open>zmalloc\<close>: its address, and what is in it (\<open>junk\<close>).\<close>

definition zslCreateNode :: "'s zskiplistNode \<Rightarrow> nat \<Rightarrow> 's \<Rightarrow> robj option \<Rightarrow> 's zskiplistNode" where
  "zslCreateNode junk level score ob =
     junk\<lparr>z_obj := ob, z_score := score, z_levels := map (\<lambda>i. if i < length (z_levels junk) then z_levels junk ! i else \<lparr>forward = None, span = 0\<rparr>) [0..<level]\<rparr>"

definition zslCreate :: "'s::zero zskiplistNode \<Rightarrow> nat \<Rightarrow> 's zheap \<Rightarrow> 's zstate option" where
  "zslCreate junk a h =
     do { let h = h(a \<mapsto> zslCreateNode junk ZSKIPLIST_MAXLEVEL 0 None);
          h \<leftarrow> for_levels (\<lambda>j. set_level a j \<lparr>forward = None, span = 0\<rparr>) 0 ZSKIPLIST_MAXLEVEL h;
          h \<leftarrow> set_backward a None h;
          Some (h, \<lparr>zsl_header = a, zsl_tail = None, zsl_length = 0, zsl_level = 1\<rparr>) }"

definition zslFreeNode :: "'s zheap \<Rightarrow> nat \<Rightarrow> 's zheap option" where
  "zslFreeNode h a = do { n \<leftarrow> h a; Some (h(a := None)) }"

text \<open>Calls of \<open>random\<close> give the numbers \<open>rs 0\<close>, \<open>rs 1\<close> and so on; \<open>ZSKIPLIST_P\<close> is 0.25.\<close>

partial_function (option) level_loop :: "(nat \<Rightarrow> nat) \<Rightarrow> nat \<Rightarrow> nat option" where
  "level_loop rs level = (if 4 * (rs (level - 1) mod 65536) < 65535 then level_loop rs (level + 1) else Some level)"

definition zslRandomLevel :: "(nat \<Rightarrow> nat) \<Rightarrow> nat option" where
  "zslRandomLevel rs = do { level \<leftarrow> level_loop rs 1; Some (if level < ZSKIPLIST_MAXLEVEL then level else ZSKIPLIST_MAXLEVEL) }"

subsection \<open>Search\<close>

text \<open>
  The inner loop of every search: on level \<open>i\<close> go forward from \<open>x\<close> as long as \<open>go\<close> says so of the next
  node and its position. The result is the last node and its position.
\<close>

partial_function (option) walk :: "(nat \<Rightarrow> 's zskiplistNode \<Rightarrow> bool option) \<Rightarrow> 's zheap \<Rightarrow> nat \<Rightarrow> nat \<Rightarrow> nat \<Rightarrow> (nat \<times> nat) option" where
  "walk go h i x rank =
     do { lv \<leftarrow> get_level h x i;
          case forward lv of
            None \<Rightarrow> Some (x, rank)
          | Some y \<Rightarrow> do { n \<leftarrow> h y; b \<leftarrow> go (u64 (int rank + int (span lv))) n;
                           if b then walk go h i y (u64 (int rank + int (span lv))) else Some (x, rank) } }"

text \<open>All levels, from level \<open>n - 1\<close> down to 0: the last node of each level with its position, lowest level first.\<close>

fun search :: "(nat \<Rightarrow> 's zskiplistNode \<Rightarrow> bool option) \<Rightarrow> 's zheap \<Rightarrow> nat \<Rightarrow> nat \<Rightarrow> nat \<Rightarrow> (nat \<times> nat) list option" where
  "search go h 0 x rank = Some []"
| "search go h (Suc i) x rank = do { (x, rank) \<leftarrow> walk go h i x rank; us \<leftarrow> search go h i x rank; Some (us @ [(x, rank)]) }"

definition search_from :: "(nat \<Rightarrow> 's zskiplistNode \<Rightarrow> bool option) \<Rightarrow> 's zstate \<Rightarrow> (nat \<times> nat) list option" where
  "search_from go = (\<lambda>(h, z). do { us \<leftarrow> search go h (zsl_level z) (zsl_header z) 0; check (us \<noteq> []); Some us })"

text \<open>The node sorts before an element; \<open>cmp\<close> is the test on the comparison of the objects.\<close>

definition sorts_before :: "(int \<Rightarrow> bool) \<Rightarrow> 's::linorder \<Rightarrow> robj \<Rightarrow> nat \<Rightarrow> 's zskiplistNode \<Rightarrow> bool option" where
  "sorts_before cmp score ob rank n =
     (if z_score n < score then Some True
      else if z_score n = score
      then do { x \<leftarrow> z_obj n; c \<leftarrow> compareStringObjects False x ob; Some (cmp c) }
      else Some False)"

subsection \<open>Insertion\<close>

text \<open>The header gets a level that was not in use; the list has \<open>len\<close> elements.\<close>

definition raise_level :: "zskiplist \<Rightarrow> nat \<Rightarrow> 's zheap \<Rightarrow> 's zheap option" where
  "raise_level z i h = do { lv \<leftarrow> get_level h (zsl_header z) i; set_level (zsl_header z) i (lv\<lparr>span := u32 (int (zsl_length z))\<rparr>) h }"

definition link_level :: "nat \<Rightarrow> (nat \<times> nat) list \<Rightarrow> nat \<Rightarrow> 's zheap \<Rightarrow> 's zheap option" where
  "link_level x us i h =
     (let (u, rank) = us ! i; rank0 = snd (us ! 0)
      in do { lv \<leftarrow> get_level h u i;
              h \<leftarrow> set_level x i \<lparr>forward = forward lv, span = u32 (int (span lv) - (int rank0 - int rank))\<rparr> h;
              set_level u i \<lparr>forward = Some x, span = u32 (int rank0 - int rank + 1)\<rparr> h })"

definition bump_level :: "(nat \<times> nat) list \<Rightarrow> nat \<Rightarrow> 's zheap \<Rightarrow> 's zheap option" where
  "bump_level us i h = (let u = fst (us ! i) in do { lv \<leftarrow> get_level h u i; set_level u i (lv\<lparr>span := u32 (int (span lv) + 1)\<rparr>) h })"

text \<open>The node at \<open>x\<close>, with its links, joins the list behind the nodes \<open>us\<close>.\<close>

definition link_node :: "nat \<Rightarrow> nat \<Rightarrow> (nat \<times> nat) list \<Rightarrow> 's zstate \<Rightarrow> 's zstate option" where
  "link_node x level us = (\<lambda>(h, z).
     do { h \<leftarrow> for_levels (link_level x us) 0 level h;
          h \<leftarrow> for_levels (bump_level us) level (zsl_level z - level) h;
          h \<leftarrow> set_backward x (if fst (us ! 0) = zsl_header z then None else Some (fst (us ! 0))) h;
          lv \<leftarrow> get_level h x 0;
          (h, tail) \<leftarrow> (case forward lv of
              Some y \<Rightarrow> do { h \<leftarrow> set_backward y (Some x) h; Some (h, zsl_tail z) }
            | None \<Rightarrow> Some (h, Some x));
          Some (h, z\<lparr>zsl_tail := tail, zsl_length := u64 (int (zsl_length z) + 1)\<rparr>) })"

definition zslInsert ::
  "'s::linorder zskiplistNode \<Rightarrow> nat \<Rightarrow> (nat \<Rightarrow> nat) \<Rightarrow> 's \<Rightarrow> robj \<Rightarrow> 's zstate \<Rightarrow> 's zstate option" where
  "zslInsert junk x rs score ob = (\<lambda>(h, z).
     do { us \<leftarrow> search_from (sorts_before (\<lambda>c. c < 0) score ob) (h, z);
          level \<leftarrow> zslRandomLevel rs;
          h \<leftarrow> for_levels (raise_level z) (zsl_level z) (level - zsl_level z) h;
          let us = us @ replicate (level - zsl_level z) (zsl_header z, 0);
          let z = (if level > zsl_level z then z\<lparr>zsl_level := level\<rparr> else z);
          let h = h(x \<mapsto> zslCreateNode junk level score (Some ob));
          link_node x level us (h, z) })"

subsection \<open>Deletion\<close>

definition unlink_level :: "nat \<Rightarrow> nat list \<Rightarrow> nat \<Rightarrow> 's zheap \<Rightarrow> 's zheap option" where
  "unlink_level x us i h =
     (let u = us ! i
      in do { lv \<leftarrow> get_level h u i;
              if forward lv = Some x
              then do { xl \<leftarrow> get_level h x i;
                        set_level u i \<lparr>forward = forward xl, span = u32 (int (span lv) + (int (span xl) - 1))\<rparr> h }
              else set_level u i (lv\<lparr>span := u32 (int (span lv) - 1)\<rparr>) h })"

text \<open>\<open>while (level > 1 && header->level[level-1].forward == NULL) level--\<close>\<close>

fun trim_level :: "'s zheap \<Rightarrow> nat \<Rightarrow> nat \<Rightarrow> nat option" where
  "trim_level h a 0 = Some 0"
| "trim_level h a (Suc l) =
     (if l > 0 then do { lv \<leftarrow> get_level h a l; if forward lv = None then trim_level h a l else Some (Suc l) } else Some (Suc l))"

definition zslDeleteNode :: "nat \<Rightarrow> nat list \<Rightarrow> 's zstate \<Rightarrow> 's zstate option" where
  "zslDeleteNode x us = (\<lambda>(h, z).
     do { h \<leftarrow> for_levels (unlink_level x us) 0 (zsl_level z) h;
          n \<leftarrow> h x;
          lv \<leftarrow> get_level h x 0;
          (h, tail) \<leftarrow> (case forward lv of
              Some y \<Rightarrow> do { h \<leftarrow> set_backward y (z_backward n) h; Some (h, zsl_tail z) }
            | None \<Rightarrow> Some (h, z_backward n));
          level \<leftarrow> trim_level h (zsl_header z) (zsl_level z);
          Some (h, z\<lparr>zsl_tail := tail, zsl_level := level, zsl_length := u64 (int (zsl_length z) - 1)\<rparr>) })"

text \<open>The second result tells whether the element was there.\<close>

definition zslDelete :: "'s::linorder \<Rightarrow> robj \<Rightarrow> 's zstate \<Rightarrow> ('s zstate \<times> bool) option" where
  "zslDelete score ob = (\<lambda>(h, z).
     do { us \<leftarrow> search_from (sorts_before (\<lambda>c. c < 0) score ob) (h, z);
          lv \<leftarrow> get_level h (fst (us ! 0)) 0;
          case forward lv of
            None \<Rightarrow> Some ((h, z), False)
          | Some x \<Rightarrow>
              do { n \<leftarrow> h x;
                   same \<leftarrow> (if score = z_score n then do { y \<leftarrow> z_obj n; equalStringObjects False y ob } else Some False);
                   if same
                   then do { (h, z) \<leftarrow> zslDeleteNode x (map fst us) (h, z);
                             h \<leftarrow> zslFreeNode h x;
                             Some ((h, z), True) }
                   else Some ((h, z), False) } })"

partial_function (option) free_nodes :: "'s zheap \<Rightarrow> nat option \<Rightarrow> 's zheap option" where
  "free_nodes h x = (case x of None \<Rightarrow> Some h
     | Some a \<Rightarrow> do { lv \<leftarrow> get_level h a 0; h \<leftarrow> zslFreeNode h a; free_nodes h (forward lv) })"

definition zslFree :: "'s zstate \<Rightarrow> 's zheap option" where
  "zslFree = (\<lambda>(h, z). do { lv \<leftarrow> get_level h (zsl_header z) 0; free_nodes (h(zsl_header z := None)) (forward lv) })"

subsection \<open>Ranks\<close>

text \<open>A result 0 is no rank.\<close>

fun rank_loop :: "('s::linorder) \<Rightarrow> robj \<Rightarrow> 's zheap \<Rightarrow> nat \<Rightarrow> nat \<Rightarrow> nat \<Rightarrow> nat option" where
  "rank_loop score ob h 0 x rank = Some 0"
| "rank_loop score ob h (Suc i) x rank =
     do { (x, rank) \<leftarrow> walk (sorts_before (\<lambda>c. c \<le> 0) score ob) h i x rank;
          n \<leftarrow> h x;
          same \<leftarrow> (case z_obj n of None \<Rightarrow> Some False | Some y \<Rightarrow> equalStringObjects False y ob);
          if same then Some rank else rank_loop score ob h i x rank }"

definition zslGetRank :: "'s::linorder \<Rightarrow> robj \<Rightarrow> 's zstate \<Rightarrow> nat option" where
  "zslGetRank score ob = (\<lambda>(h, z). rank_loop score ob h (zsl_level z) (zsl_header z) 0)"

fun element_loop :: "nat \<Rightarrow> 's zheap \<Rightarrow> nat \<Rightarrow> nat \<Rightarrow> nat \<Rightarrow> nat option option" where
  "element_loop rank h 0 x traversed = Some None"
| "element_loop rank h (Suc i) x traversed =
     do { (x, traversed) \<leftarrow> walk (\<lambda>t n. Some (t \<le> rank)) h i x traversed;
          if traversed = rank then Some (Some x) else element_loop rank h i x traversed }"

definition zslGetElementByRank :: "nat \<Rightarrow> 's zstate \<Rightarrow> nat option option" where
  "zslGetElementByRank rank = (\<lambda>(h, z). element_loop rank h (zsl_level z) (zsl_header z) 0)"

subsection \<open>Ranges\<close>

record 's zrangespec =
  r_min :: 's
  r_max :: 's
  r_minex :: bool
  r_maxex :: bool

definition zslValueGteMin :: "'s::linorder \<Rightarrow> 's zrangespec \<Rightarrow> bool" where
  "zslValueGteMin value spec = (if r_minex spec then value > r_min spec else value \<ge> r_min spec)"

definition zslValueLteMax :: "'s::linorder \<Rightarrow> 's zrangespec \<Rightarrow> bool" where
  "zslValueLteMax value spec = (if r_maxex spec then value < r_max spec else value \<le> r_max spec)"

text \<open>
  The bounds of a lexicographic range are string objects, of which two are special by their address:
  \<open>shared.minstring\<close> and \<open>shared.maxstring\<close>.
\<close>

datatype lex_kind = Minstring | Maxstring | Plain

record zlexrangespec =
  lex_min :: "lex_kind \<times> robj"
  lex_max :: "lex_kind \<times> robj"
  lex_minex :: bool
  lex_maxex :: bool

definition compareStringObjectsForLexRange :: "lex_kind \<times> robj \<Rightarrow> lex_kind \<times> robj \<Rightarrow> int option" where
  "compareStringObjectsForLexRange = (\<lambda>(ka, a) (kb, b).
     if ka = kb \<and> ka \<noteq> Plain then Some 0
     else if ka = Minstring \<or> kb = Maxstring then Some (- 1)
     else if ka = Maxstring \<or> kb = Minstring then Some 1
     else compareStringObjects False a b)"

definition zslLexValueGteMin :: "robj \<Rightarrow> zlexrangespec \<Rightarrow> bool option" where
  "zslLexValueGteMin value spec =
     do { c \<leftarrow> compareStringObjectsForLexRange (Plain, value) (lex_min spec); Some (if lex_minex spec then c > 0 else c \<ge> 0) }"

definition zslLexValueLteMax :: "robj \<Rightarrow> zlexrangespec \<Rightarrow> bool option" where
  "zslLexValueLteMax value spec =
     do { c \<leftarrow> compareStringObjectsForLexRange (Plain, value) (lex_max spec); Some (if lex_maxex spec then c < 0 else c \<le> 0) }"

text \<open>The tests of a node against the two bounds; the functions below are the same for scores and strings.\<close>

record 's bounds =
  gte_min :: "'s zskiplistNode \<Rightarrow> bool option"
  lte_max :: "'s zskiplistNode \<Rightarrow> bool option"

definition score_bounds :: "'s::linorder zrangespec \<Rightarrow> 's bounds" where
  "score_bounds spec = \<lparr>gte_min = (\<lambda>n. Some (zslValueGteMin (z_score n) spec)), lte_max = (\<lambda>n. Some (zslValueLteMax (z_score n) spec))\<rparr>"

definition lex_bounds :: "zlexrangespec \<Rightarrow> 's bounds" where
  "lex_bounds spec = \<lparr>gte_min = (\<lambda>n. do { v \<leftarrow> z_obj n; zslLexValueGteMin v spec }), lte_max = (\<lambda>n. do { v \<leftarrow> z_obj n; zslLexValueLteMax v spec })\<rparr>"

definition ends_in_range :: "'s bounds \<Rightarrow> 's zstate \<Rightarrow> bool option" where
  "ends_in_range b = (\<lambda>(h, z).
     do { ge \<leftarrow> (case zsl_tail z of None \<Rightarrow> Some False | Some x \<Rightarrow> do { n \<leftarrow> h x; gte_min b n });
          if \<not> ge then Some False
          else do { lv \<leftarrow> get_level h (zsl_header z) 0;
                    case forward lv of None \<Rightarrow> Some False | Some x \<Rightarrow> do { n \<leftarrow> h x; lte_max b n } } })"

definition zslIsInRange :: "'s::linorder zrangespec \<Rightarrow> 's zstate \<Rightarrow> bool option" where
  "zslIsInRange spec zs =
     (if r_min spec > r_max spec \<or> r_min spec = r_max spec \<and> (r_minex spec \<or> r_maxex spec) then Some False
      else ends_in_range (score_bounds spec) zs)"

definition zslIsInLexRange :: "zlexrangespec \<Rightarrow> 's zstate \<Rightarrow> bool option" where
  "zslIsInLexRange spec zs =
     do { c \<leftarrow> compareStringObjectsForLexRange (lex_min spec) (lex_max spec);
          d \<leftarrow> compareStringObjects False (snd (lex_min spec)) (snd (lex_max spec));
          if c > 1 \<or> d = 0 \<and> (lex_minex spec \<or> lex_maxex spec) then Some False
          else ends_in_range (lex_bounds spec) zs }"

definition first_in_range :: "'s bounds \<Rightarrow> bool option \<Rightarrow> 's zstate \<Rightarrow> nat option option" where
  "first_in_range b is_in = (\<lambda>(h, z).
     do { ok \<leftarrow> is_in;
          if \<not> ok then Some None
          else do { us \<leftarrow> search_from (\<lambda>r n. do { ge \<leftarrow> gte_min b n; Some (\<not> ge) }) (h, z);
                    lv \<leftarrow> get_level h (fst (us ! 0)) 0;
                    x \<leftarrow> forward lv;
                    n \<leftarrow> h x; le \<leftarrow> lte_max b n;
                    Some (if le then Some x else None) } })"

definition last_in_range :: "'s bounds \<Rightarrow> bool option \<Rightarrow> 's zstate \<Rightarrow> nat option option" where
  "last_in_range b is_in = (\<lambda>(h, z).
     do { ok \<leftarrow> is_in;
          if \<not> ok then Some None
          else do { us \<leftarrow> search_from (\<lambda>r n. lte_max b n) (h, z);
                    let x = fst (us ! 0);
                    n \<leftarrow> h x; ge \<leftarrow> gte_min b n;
                    Some (if ge then Some x else None) } })"

definition zslFirstInRange :: "'s::linorder zrangespec \<Rightarrow> 's zstate \<Rightarrow> nat option option" where
  "zslFirstInRange spec zs = first_in_range (score_bounds spec) (zslIsInRange spec zs) zs"

definition zslLastInRange :: "'s::linorder zrangespec \<Rightarrow> 's zstate \<Rightarrow> nat option option" where
  "zslLastInRange spec zs = last_in_range (score_bounds spec) (zslIsInRange spec zs) zs"

definition zslFirstInLexRange :: "zlexrangespec \<Rightarrow> 's zstate \<Rightarrow> nat option option" where
  "zslFirstInLexRange spec zs = first_in_range (lex_bounds spec) (zslIsInLexRange spec zs) zs"

definition zslLastInLexRange :: "zlexrangespec \<Rightarrow> 's zstate \<Rightarrow> nat option option" where
  "zslLastInLexRange spec zs = last_in_range (lex_bounds spec) (zslIsInLexRange spec zs) zs"

text \<open>
  Deletion of ranges. The nodes from \<open>x\<close> on are deleted as long as \<open>inside\<close> holds of the node and the position;
  \<open>del\<close> deletes the element from the dictionary \<open>d\<close> of the sorted set. The results are the list, the dictionary
  and the number of nodes.
\<close>

partial_function (option) delete_loop ::
  "(robj \<Rightarrow> 'd \<Rightarrow> 'd option) \<Rightarrow> (nat \<Rightarrow> 's zskiplistNode \<Rightarrow> bool option) \<Rightarrow> nat list \<Rightarrow> nat option \<Rightarrow> nat \<Rightarrow> 's zstate \<Rightarrow> 'd \<Rightarrow> nat
    \<Rightarrow> ('s zstate \<times> 'd \<times> nat) option" where
  "delete_loop del inside us x pos zs d removed =
     (case x of
        None \<Rightarrow> Some (zs, d, removed)
      | Some a \<Rightarrow>
          do { n \<leftarrow> fst zs a;
               ok \<leftarrow> inside pos n;
               if \<not> ok then Some (zs, d, removed)
               else do { lv \<leftarrow> get_level (fst zs) a 0;
                         (h, z) \<leftarrow> zslDeleteNode a us zs;
                         v \<leftarrow> z_obj n;
                         d \<leftarrow> del v d;
                         h \<leftarrow> zslFreeNode h a;
                         delete_loop del inside us (forward lv) (u64 (int pos + 1)) (h, z) d (u64 (int removed + 1)) } })"

definition delete_range ::
  "(robj \<Rightarrow> 'd \<Rightarrow> 'd option) \<Rightarrow> (nat \<Rightarrow> 's zskiplistNode \<Rightarrow> bool option) \<Rightarrow> (nat \<Rightarrow> 's zskiplistNode \<Rightarrow> bool option) \<Rightarrow> 's zstate \<Rightarrow> 'd
    \<Rightarrow> ('s zstate \<times> 'd \<times> nat) option" where
  "delete_range del go inside = (\<lambda>(h, z) d.
     do { us \<leftarrow> search_from go (h, z);
          lv \<leftarrow> get_level h (fst (us ! 0)) 0;
          delete_loop del inside (map fst us) (forward lv) (u64 (int (snd (us ! 0)) + 1)) (h, z) d 0 })"

definition zslDeleteRangeByScore ::
  "(robj \<Rightarrow> 'd \<Rightarrow> 'd option) \<Rightarrow> 's::linorder zrangespec \<Rightarrow> 's zstate \<Rightarrow> 'd \<Rightarrow> ('s zstate \<times> 'd \<times> nat) option" where
  "zslDeleteRangeByScore del spec =
     delete_range del (\<lambda>r n. Some (if r_minex spec then z_score n \<le> r_min spec else z_score n < r_min spec))
       (\<lambda>r n. Some (if r_maxex spec then z_score n < r_max spec else z_score n \<le> r_max spec))"

definition zslDeleteRangeByLex ::
  "(robj \<Rightarrow> 'd \<Rightarrow> 'd option) \<Rightarrow> zlexrangespec \<Rightarrow> 's zstate \<Rightarrow> 'd \<Rightarrow> ('s zstate \<times> 'd \<times> nat) option" where
  "zslDeleteRangeByLex del spec =
     delete_range del (\<lambda>r n. do { v \<leftarrow> z_obj n; ge \<leftarrow> zslLexValueGteMin v spec; Some (\<not> ge) })
       (\<lambda>r n. do { v \<leftarrow> z_obj n; zslLexValueLteMax v spec })"

text \<open>Ranks count from 1, and both ends belong to the range.\<close>

definition zslDeleteRangeByRank ::
  "(robj \<Rightarrow> 'd \<Rightarrow> 'd option) \<Rightarrow> nat \<Rightarrow> nat \<Rightarrow> 's zstate \<Rightarrow> 'd \<Rightarrow> ('s zstate \<times> 'd \<times> nat) option" where
  "zslDeleteRangeByRank del start finish = delete_range del (\<lambda>r n. Some (r < start)) (\<lambda>r n. Some (r \<le> finish))"

end
