(* ===== verification/Skiplist_Levels.thy ===== *)
theory Skiplist_Levels
  imports Skiplist
begin

text \<open>
  The geometry of a skiplist. The nodes have positions, the header 0, and heights \<open>hs\<close>; the pointer of the node
  \<open>p\<close> on level \<open>i\<close> goes to the next position whose height is more than \<open>i\<close> (\<open>is_nxt\<close>), and a search for
  position \<open>k\<close> leaves level \<open>i\<close> at the last such position that is not behind \<open>k\<close> (\<open>is_prv\<close>).
\<close>

subsection \<open>Positions\<close>

definition is_nxt :: "nat list \<Rightarrow> nat \<Rightarrow> nat \<Rightarrow> nat \<Rightarrow> bool" where
  "is_nxt hs p i q \<longleftrightarrow> p < q \<and> q \<le> length hs \<and> (\<forall>j. p < j \<and> j < q \<longrightarrow> hs ! j \<le> i) \<and> (q < length hs \<longrightarrow> i < hs ! q)"

definition is_prv :: "nat list \<Rightarrow> nat \<Rightarrow> nat \<Rightarrow> nat \<Rightarrow> bool" where
  "is_prv hs k i p \<longleftrightarrow> p \<le> k \<and> i < hs ! p \<and> (\<forall>j. p < j \<and> j \<le> k \<longrightarrow> hs ! j \<le> i)"

lemma nxt_unique: "is_nxt hs p i q \<Longrightarrow> is_nxt hs p i q' \<Longrightarrow> q = q'"
  unfolding is_nxt_def by (metis linorder_neqE_nat not_less order_less_le_trans)

lemma prv_unique: "is_prv hs k i p \<Longrightarrow> is_prv hs k i p' \<Longrightarrow> p = p'"
  unfolding is_prv_def by (metis linorder_neqE_nat not_less)

lemma prv_step: "is_nxt hs p i q \<Longrightarrow> k < q \<Longrightarrow> p \<le> k \<Longrightarrow> i < hs ! p \<Longrightarrow> is_prv hs k i p"
  by (simp add: is_nxt_def is_prv_def)

lemma nxt_behind: "is_prv hs k i p \<Longrightarrow> is_nxt hs p i q \<Longrightarrow> k < length hs \<Longrightarrow> k < q"
  unfolding is_prv_def is_nxt_def by (meson leD leI le_less_trans)

lemma prv_0: "k < length hs \<Longrightarrow> (\<forall>p < length hs. 0 < hs ! p) \<Longrightarrow> is_prv hs k 0 p \<longleftrightarrow> p = k"
  unfolding is_prv_def by (metis le_less linorder_not_le nat_less_le)

lemma nxt_0: "p < length hs \<Longrightarrow> (\<forall>p < length hs. 0 < hs ! p) \<Longrightarrow> is_nxt hs p 0 q \<longleftrightarrow> q = Suc p"
proof -
  assume p: "p < length hs" "\<forall>p < length hs. 0 < hs ! p"
  then have "is_nxt hs p 0 (Suc p)" by (simp add: is_nxt_def)
  then show ?thesis using nxt_unique by blast
qed

subsection \<open>One more node, one node less\<close>

definition insert_at :: "nat \<Rightarrow> 'a \<Rightarrow> 'a list \<Rightarrow> 'a list" where
  "insert_at k x xs = take (Suc k) xs @ x # drop (Suc k) xs"

definition remove_at :: "nat \<Rightarrow> 'a list \<Rightarrow> 'a list" where
  "remove_at k xs = take (Suc k) xs @ drop (Suc (Suc k)) xs"

lemma length_insert_at [simp]: "k < length xs \<Longrightarrow> length (insert_at k x xs) = Suc (length xs)"
  and length_remove_at [simp]: "Suc k < length xs \<Longrightarrow> length (remove_at k xs) = length xs - 1"
  by (simp_all add: insert_at_def remove_at_def)

lemma nth_insert_at:
  "k < length xs \<Longrightarrow> insert_at k x xs ! j = (if j \<le> k then xs ! j else if j = Suc k then x else xs ! (j - 1))"
proof -
  assume k: "k < length xs"
  show ?thesis
  proof (cases "j \<le> Suc k")
    case False
    then have "Suc (Suc k) \<le> j" by simp
    then obtain m where "j = Suc (Suc k) + m" using le_Suc_ex by blast
    then show ?thesis using k by (simp add: insert_at_def nth_append)
  qed (use k in \<open>auto simp: insert_at_def nth_append le_Suc_eq\<close>)
qed

lemma nth_remove_at: "Suc k < length xs \<Longrightarrow> remove_at k xs ! j = (if j \<le> k then xs ! j else xs ! Suc j)"
  by (auto simp: remove_at_def nth_append)

lemma nxt_insert:
  assumes k: "k < length hs" and n: "is_nxt hs p i q"
  shows "q \<le> k \<Longrightarrow> is_nxt (insert_at k l hs) p i q"
    and "p \<le> k \<Longrightarrow> k < q \<Longrightarrow> i < l \<Longrightarrow> is_nxt (insert_at k l hs) p i (Suc k)"
    and "p \<le> k \<Longrightarrow> k < q \<Longrightarrow> l \<le> i \<Longrightarrow> is_nxt (insert_at k l hs) p i (Suc q)"
    and "p \<le> k \<Longrightarrow> k < q \<Longrightarrow> is_nxt (insert_at k l hs) (Suc k) i (Suc q)"
    and "k < p \<Longrightarrow> is_nxt (insert_at k l hs) (Suc p) i (Suc q)"
proof -
  have n: "p < q" "q \<le> length hs" "\<And>j. p < j \<Longrightarrow> j < q \<Longrightarrow> hs ! j \<le> i" "q < length hs \<Longrightarrow> i < hs ! q" using n by (auto simp: is_nxt_def)
  note d = is_nxt_def nth_insert_at [OF k] length_insert_at [OF k]
  show "q \<le> k \<Longrightarrow> is_nxt (insert_at k l hs) p i q" using n k by (auto simp: d)
  show "p \<le> k \<Longrightarrow> k < q \<Longrightarrow> i < l \<Longrightarrow> is_nxt (insert_at k l hs) p i (Suc k)" using n(1,2) k by (auto simp: d intro!: n(3))
  show "p \<le> k \<Longrightarrow> k < q \<Longrightarrow> l \<le> i \<Longrightarrow> is_nxt (insert_at k l hs) p i (Suc q)" using n(1,2) k by (auto simp: d intro!: n(3,4))
  show "p \<le> k \<Longrightarrow> k < q \<Longrightarrow> is_nxt (insert_at k l hs) (Suc k) i (Suc q)" using n(1,2) k by (auto simp: d intro!: n(3,4))
  show "k < p \<Longrightarrow> is_nxt (insert_at k l hs) (Suc p) i (Suc q)" using n(1,2) k by (auto simp: d intro!: n(3,4))
qed

lemma nxt_remove:
  assumes k: "Suc k < length hs" and n: "is_nxt hs p i q"
  shows "q \<le> k \<Longrightarrow> is_nxt (remove_at k hs) p i q"
    and "p \<le> k \<Longrightarrow> q = Suc k \<Longrightarrow> is_nxt hs (Suc k) i r \<Longrightarrow> is_nxt (remove_at k hs) p i (r - 1)"
    and "p \<le> k \<Longrightarrow> Suc k < q \<Longrightarrow> is_nxt (remove_at k hs) p i (q - 1)"
    and "Suc k < p \<Longrightarrow> is_nxt (remove_at k hs) (p - 1) i (q - 1)"
proof -
  have n: "p < q" "q \<le> length hs" "\<And>j. p < j \<Longrightarrow> j < q \<Longrightarrow> hs ! j \<le> i" "q < length hs \<Longrightarrow> i < hs ! q" using n by (auto simp: is_nxt_def)
  note d = is_nxt_def nth_remove_at [OF k] length_remove_at [OF k]
  show "q \<le> k \<Longrightarrow> is_nxt (remove_at k hs) p i q" using n k by (auto simp: d)
  show "p \<le> k \<Longrightarrow> q = Suc k \<Longrightarrow> is_nxt hs (Suc k) i r \<Longrightarrow> is_nxt (remove_at k hs) p i (r - 1)"
    using n k by (auto simp: d)
  show "p \<le> k \<Longrightarrow> Suc k < q \<Longrightarrow> is_nxt (remove_at k hs) p i (q - 1)"
    using n(1,2) k by (auto simp: d intro!: n(3,4))
  show "Suc k < p \<Longrightarrow> is_nxt (remove_at k hs) (p - 1) i (q - 1)"
    using n(1,2) k by (auto simp: d intro!: n(3,4))
qed

subsection \<open>Changes of levels\<close>

text \<open>A heap in which the levels are changed by \<open>g\<close>, from address, level and old value.\<close>

definition with_levels :: "(nat \<Rightarrow> nat \<Rightarrow> zskiplistLevel \<Rightarrow> zskiplistLevel) \<Rightarrow> 's zheap \<Rightarrow> 's zheap" where
  "with_levels g h = (\<lambda>a. map_option (\<lambda>n. n\<lparr>z_levels := map (\<lambda>i. g a i (z_levels n ! i)) [0..<length (z_levels n)]\<rparr>) (h a))"

lemma with_levels_id: "with_levels (\<lambda>a i old. old) h = h"
  by (simp add: with_levels_def map_nth option.map_ident fun_eq_iff)

lemma get_with_levels: "get_level (with_levels g h) a i = map_option (g a i) (get_level h a i)"
  by (cases "h a") (simp_all add: get_level_def with_levels_def check_def)

lemma set_with_levels:
  assumes "get_level h a i \<noteq> None"
  shows "set_level a i lv (with_levels g h) = Some (with_levels (\<lambda>b j old. if b = a \<and> j = i then lv else g b j old) h)"
proof -
  obtain n where n: "h a = Some n" "i < length (z_levels n)" using assms by (auto simp: get_level_def check_def split: bind_splits if_splits)
  have "(map (\<lambda>j. g a j (z_levels n ! j)) [0..<length (z_levels n)])[i := lv]
      = map (\<lambda>j. if j = i then lv else g a j (z_levels n ! j)) [0..<length (z_levels n)]"
    by (rule nth_equalityI) (simp_all add: nth_list_update)
  then show ?thesis using n by (auto simp: set_level_def with_levels_def check_def fun_eq_iff)
qed

lemma with_levels_cong:
  "(\<And>a i lv. get_level h a i = Some lv \<Longrightarrow> g a i lv = g' a i lv) \<Longrightarrow> with_levels g h = with_levels g' h"
  by (auto simp: with_levels_def get_level_def check_def fun_eq_iff map_option_case split: option.splits)

lemma for_levels_inv:
  assumes "P 0 h" and "\<And>j h'. j < n \<Longrightarrow> P j h' \<Longrightarrow> \<exists>h''. f (lo + j) h' = Some h'' \<and> P (Suc j) h''"
  shows "\<exists>h'. for_levels f lo n h = Some h' \<and> P n h'"
  using assms(2)
proof (induction n)
  case (Suc n)
  obtain h' where "for_levels f lo n h = Some h'" "P n h'" using Suc.IH Suc.prems less_SucI by blast
  moreover obtain h'' where "f (lo + n) h' = Some h''" "P (Suc n) h''" using Suc.prems [of n] calculation(2) by blast
  ultimately show ?case by auto
qed (simp add: assms(1))

subsection \<open>Towers\<close>

text \<open>
  The nodes \<open>ps\<close> have the heights \<open>hs\<close>, and their pointers and spans on the levels in use, of which there are
  \<open>lvl\<close>, are those of their positions. The pointers of the header above these are NULL.
\<close>

definition level_is :: "nat list \<Rightarrow> nat \<Rightarrow> nat \<Rightarrow> bool \<Rightarrow> zskiplistLevel \<Rightarrow> bool" where
  "level_is ps p q used lv \<longleftrightarrow> forward lv = (if q < length ps then Some (ps ! q) else None) \<and> (used \<longrightarrow> span lv = min q (length ps - 1) - p)"

definition levels_ok :: "'s zheap \<Rightarrow> nat \<Rightarrow> nat list \<Rightarrow> nat list \<Rightarrow> bool" where
  "levels_ok h lvl ps hs \<longleftrightarrow> (\<forall>p < length ps. \<forall>i < hs ! p. \<exists>lv q. get_level h (ps ! p) i = Some lv \<and> is_nxt hs p i q \<and> level_is ps p q (i < lvl) lv)"

definition heights_ok :: "nat \<Rightarrow> nat list \<Rightarrow> nat list \<Rightarrow> bool" where
  "heights_ok lvl ps hs \<longleftrightarrow> length hs = length ps \<and> ps \<noteq> [] \<and> distinct ps \<and> hs ! 0 = ZSKIPLIST_MAXLEVEL \<and> 1 \<le> lvl \<and> lvl \<le> ZSKIPLIST_MAXLEVEL
     \<and> (\<forall>p < length hs. 0 < hs ! p \<and> (0 < p \<longrightarrow> hs ! p \<le> lvl))"

definition cells_ok :: "'s zheap \<Rightarrow> nat list \<Rightarrow> nat list \<Rightarrow> bool" where
  "cells_ok h ps hs \<longleftrightarrow> (\<forall>p < length ps. \<exists>n. h (ps ! p) = Some n \<and> length (z_levels n) = hs ! p)"

definition tower :: "'s zheap \<Rightarrow> nat \<Rightarrow> nat list \<Rightarrow> nat list \<Rightarrow> bool" where
  "tower h lvl ps hs \<longleftrightarrow> heights_ok lvl ps hs \<and> cells_ok h ps hs \<and> levels_ok h lvl ps hs"

lemma towerD:
  assumes "tower h lvl ps hs" and "p < length ps" and "i < hs ! p"
  obtains lv q where "get_level h (ps ! p) i = Some lv" "is_nxt hs p i q" "level_is ps p q (i < lvl) lv"
  using assms unfolding tower_def levels_ok_def by blast

lemma heights_okD:
  assumes "heights_ok lvl ps hs"
  shows "length hs = length ps" "0 < length ps" "distinct ps" "hs ! 0 = ZSKIPLIST_MAXLEVEL" "0 < lvl" "lvl \<le> ZSKIPLIST_MAXLEVEL"
    "\<forall>p < length hs. 0 < hs ! p" "\<And>p. p < length hs \<Longrightarrow> 0 < p \<Longrightarrow> hs ! p \<le> lvl"
  using assms by (auto simp: heights_ok_def)

lemma tower_heights: "tower h lvl ps hs \<Longrightarrow> heights_ok lvl ps hs"
  by (simp add: tower_def)

subsection \<open>Searching\<close>

text \<open>The test \<open>go\<close> holds of the nodes up to position \<open>k\<close>.\<close>

definition goes_to :: "(nat \<Rightarrow> 's zskiplistNode \<Rightarrow> bool option) \<Rightarrow> 's zheap \<Rightarrow> nat list \<Rightarrow> nat \<Rightarrow> bool" where
  "goes_to go h ps k \<longleftrightarrow> length ps < 2 ^ 32 \<and> k < length ps \<and> (\<forall>q < length ps. \<forall>n. 0 < q \<and> h (ps ! q) = Some n \<longrightarrow> go q n = Some (q \<le> k))"

lemma walk_prv:
  assumes t: "tower h lvl ps hs" and g: "goes_to go h ps k" and i: "i < lvl"
  shows "p \<le> k \<Longrightarrow> i < hs ! p \<Longrightarrow> \<exists>p'. walk go h i (ps ! p) p = Some (ps ! p', p') \<and> is_prv hs k i p'"
proof (induction "k - p" arbitrary: p rule: less_induct)
  case less
  have k: "k < length ps" using g by (simp add: goes_to_def)
  note hk = heights_okD [OF tower_heights [OF t]]
  have p: "p < length ps" using less.prems(1) k by simp
  obtain lv q where q: "get_level h (ps ! p) i = Some lv" "is_nxt hs p i q" "level_is ps p q (i < lvl) lv" using towerD [OF t p less.prems(2)] .
  have pq: "p < q" "q \<le> length ps" using q(2) hk(1) by (auto simp: is_nxt_def)
  show ?case
  proof (cases "q < length ps")
    case False
    then have "walk go h i (ps ! p) p = Some (ps ! p, p)" using q(1,3) by (simp add: walk.simps [of go h i "ps ! p"] level_is_def)
    moreover have "is_prv hs k i p" using prv_step [OF q(2) _ less.prems] False k by simp
    ultimately show ?thesis by blast
  next
    case True
    then obtain n where n: "h (ps ! q) = Some n" using t by (auto simp: tower_def cells_ok_def)
    have "forward lv = Some (ps ! q)" "int p + int (span lv) = int q" using True q(3) i pq by (simp_all add: level_is_def)
    moreover have "u64 (int q) = q" using g True by (simp add: u64_def goes_to_def)
    ultimately have lv: "forward lv = Some (ps ! q)" "u64 (int p + int (span lv)) = q" by simp_all
    have "go q n = Some (q \<le> k)" using g True n pq(1) unfolding goes_to_def by (metis gr_zeroI not_less0)
    then have w: "walk go h i (ps ! p) p = (if q \<le> k then walk go h i (ps ! q) q else Some (ps ! p, p))"
      using q(1) lv n by (simp add: walk.simps [of go h i "ps ! p"])
    show ?thesis
    proof (cases "q \<le> k")
      case True
      moreover have "i < hs ! q" using q(2) \<open>q < length ps\<close> hk(1) by (simp add: is_nxt_def)
      ultimately show ?thesis using less.hyps [of q] w pq(1) by auto
    next
      case False
      then have "is_prv hs k i p" using prv_step [OF q(2) _ less.prems] by simp
      then show ?thesis using w False by auto
    qed
  qed
qed

definition prv_list :: "nat list \<Rightarrow> nat list \<Rightarrow> nat \<Rightarrow> nat \<Rightarrow> (nat \<times> nat) list \<Rightarrow> bool" where
  "prv_list ps hs k n us \<longleftrightarrow> length us = n \<and> (\<forall>i < n. \<exists>p. us ! i = (ps ! p, p) \<and> is_prv hs k i p)"

lemma search_prv:
  assumes t: "tower h lvl ps hs" and g: "goes_to go h ps k"
  shows "n \<le> lvl \<Longrightarrow> p \<le> k \<Longrightarrow> (\<forall>i < n. i < hs ! p) \<Longrightarrow> \<exists>us. search go h n (ps ! p) p = Some us \<and> prv_list ps hs k n us"
proof (induction n arbitrary: p)
  case (Suc n)
  obtain p' where p': "walk go h n (ps ! p) p = Some (ps ! p', p')" "is_prv hs k n p'"
    using walk_prv [OF t g, of n p] Suc.prems by auto
  have "\<forall>i < n. i < hs ! p'" "p' \<le> k" using p'(2) by (auto simp: is_prv_def)
  then obtain us where us: "search go h n (ps ! p') p' = Some us" "prv_list ps hs k n us" using Suc.IH [of p'] Suc.prems by auto
  have "prv_list ps hs k (Suc n) (us @ [(ps ! p', p')])"
    using us(2) p'(2) by (auto simp: prv_list_def nth_append less_Suc_eq)
  then show ?case using p'(1) us(1) by simp
qed (simp add: prv_list_def)

lemma search_from_prv:
  assumes t: "tower h (zsl_level z) ps hs" and hd: "zsl_header z = ps ! 0" and g: "goes_to go h ps k"
  shows "\<exists>us. search_from go (h, z) = Some us \<and> prv_list ps hs k (zsl_level z) us \<and> us ! 0 = (ps ! k, k)"
proof -
  note hk = heights_okD [OF tower_heights [OF t]]
  obtain us where us: "search go h (zsl_level z) (ps ! 0) 0 = Some us" "prv_list ps hs k (zsl_level z) us"
    using search_prv [OF t g, of "zsl_level z" 0] hk(4,6) by auto
  have "us \<noteq> []" using us(2) hk(5) by (auto simp: prv_list_def)
  moreover obtain p where "us ! 0 = (ps ! p, p)" "is_prv hs k 0 p" using us(2) hk(5) by (auto simp: prv_list_def)
  moreover from this have "p = k" using prv_0 [of k hs p] g hk(1,7) by (simp add: goes_to_def)
  ultimately show ?thesis using us hd by (simp add: search_from_def check_def)
qed

end
