(* ===== verification/Skiplist_Edit.thy ===== *)
theory Skiplist_Edit
  imports Skiplist_Levels
begin

text \<open>
  What insertion and deletion do to the towers: the loops over the levels as one change of the heap
  (\<open>linked\<close>, \<open>bumped\<close>, \<open>unlinked\<close>), and the positions after it.
\<close>

lemma u32_int: "n < 2 ^ 32 \<Longrightarrow> u32 (int n) = n"
  by (simp add: u32_def)

lemma with_levels_twice: "with_levels g (with_levels g' h) = with_levels (\<lambda>a i old. g a i (g' a i old)) h"
  by (auto simp: with_levels_def fun_eq_iff map_option_case split: option.splits)

lemma cells_with_levels: "cells_ok (with_levels g h) ps hs = cells_ok h ps hs"
  by (auto simp: cells_ok_def with_levels_def)

lemma cells_level: "cells_ok h ps hs \<Longrightarrow> p < length ps \<Longrightarrow> i < hs ! p \<Longrightarrow> get_level h (ps ! p) i \<noteq> None"
  by (auto simp: cells_ok_def get_level_def check_def)

subsection \<open>New levels of the header\<close>

definition raised :: "nat \<Rightarrow> nat \<Rightarrow> nat \<Rightarrow> nat \<Rightarrow> nat \<Rightarrow> nat \<Rightarrow> zskiplistLevel \<Rightarrow> zskiplistLevel" where
  "raised header len lo n a i old = (if a = header \<and> lo \<le> i \<and> i < lo + n then old\<lparr>span := u32 (int len)\<rparr> else old)"

lemma raise_levels:
  assumes "\<forall>i < lo + n. get_level h (zsl_header z) i \<noteq> None"
  shows "for_levels (raise_level z) lo n h = Some (with_levels (raised (zsl_header z) (zsl_length z) lo n) h)"
  using assms
proof (induction n)
  case 0
  have "raised (zsl_header z) (zsl_length z) lo 0 = (\<lambda>a i old. old)" by (auto simp: raised_def fun_eq_iff)
  then show ?case by (simp add: with_levels_id)
next
  case (Suc n)
  obtain lv where lv: "get_level h (zsl_header z) (lo + n) = Some lv" using Suc.prems by auto
  have "(\<lambda>b j old. if b = zsl_header z \<and> j = lo + n then raised (zsl_header z) (zsl_length z) lo n (zsl_header z) (lo + n) lv\<lparr>span := u32 (int (zsl_length z))\<rparr>
      else raised (zsl_header z) (zsl_length z) lo n b j old) b j old = raised (zsl_header z) (zsl_length z) lo (Suc n) b j old"
    if "get_level h b j = Some old" for b j old using that lv by (auto simp: raised_def)
  from with_levels_cong [OF this]
  show ?case using Suc lv by (simp add: raise_level_def get_with_levels set_with_levels)
qed

lemma nxt_above: "p < length hs \<Longrightarrow> (\<forall>j < length hs. p < j \<longrightarrow> hs ! j \<le> i) \<Longrightarrow> is_nxt hs p i q \<Longrightarrow> q = length hs"
  unfolding is_nxt_def by (meson le_neq_implies_less not_less)

lemma raise_tower:
  assumes t: "tower h lvl ps hs" and l: "lvl \<le> lvl'" "lvl' \<le> ZSKIPLIST_MAXLEVEL" and len: "len = length ps - 1" "length ps \<le> 2 ^ 32"
  shows "tower (with_levels (raised (ps ! 0) len lvl (lvl' - lvl)) h) lvl' ps hs"
proof -
  define g where "g = raised (ps ! 0) len lvl (lvl' - lvl)"
  note hk = heights_okD [OF tower_heights [OF t]]
  have "heights_ok lvl' ps hs" using tower_heights [OF t] l by (auto simp: heights_ok_def)
  moreover have "\<exists>lv q. get_level (with_levels g h) (ps ! p) i = Some lv \<and> is_nxt hs p i q \<and> level_is ps p q (i < lvl') lv"
    if p: "p < length ps" "i < hs ! p" for p i
  proof -
    obtain lv q where q: "get_level h (ps ! p) i = Some lv" "is_nxt hs p i q" "level_is ps p q (i < lvl) lv" using towerD [OF t p] .
    have "level_is ps p q (i < lvl') (g (ps ! p) i lv)"
    proof (cases "p = 0 \<and> lvl \<le> i \<and> i < lvl'")
      case True
      then have "q = length hs" using nxt_above [OF _ _ q(2)] hk(1,2) order.trans [OF hk(8)] by fastforce
      then show ?thesis using True q(3) hk(1) len u32_int [of len] by (simp add: g_def raised_def level_is_def)
    next
      case False
      have "p \<noteq> 0 \<Longrightarrow> ps ! p \<noteq> ps ! 0" using hk(2,3) p(1) by (simp add: nth_eq_iff_index_eq)
      moreover have "p \<noteq> 0 \<Longrightarrow> i < lvl" using hk(8) [of p] hk(1) p by simp
      ultimately show ?thesis using False q(3) l(1) by (cases "p = 0") (auto simp: g_def raised_def level_is_def)
    qed
    then show ?thesis using q(1,2) by (auto simp: get_with_levels)
  qed
  ultimately show ?thesis using t by (simp add: tower_def levels_ok_def cells_with_levels g_def)
qed

lemma raise_prv:
  assumes t: "heights_ok lvl ps hs" and u: "prv_list ps hs k lvl us" and k: "k < length ps" and l: "lvl \<le> lvl'" "lvl' \<le> ZSKIPLIST_MAXLEVEL"
  shows "prv_list ps hs k lvl' (us @ replicate (lvl' - lvl) (ps ! 0, 0))"
proof -
  note hk = heights_okD [OF t]
  have "is_prv hs k i 0" if "lvl \<le> i" "i < lvl'" for i
    unfolding is_prv_def using hk(1,4) that k l order.trans [OF hk(8) that(1)] by auto
  then show ?thesis using u l(1) by (auto simp: prv_list_def nth_append)
qed

subsection \<open>Linking\<close>

definition linked :: "nat \<Rightarrow> (nat \<times> nat) list \<Rightarrow> (nat \<Rightarrow> zskiplistLevel) \<Rightarrow> nat \<Rightarrow> nat \<Rightarrow> nat \<Rightarrow> zskiplistLevel \<Rightarrow> zskiplistLevel" where
  "linked x us L l a i old =
     (if i < l \<and> a = x then \<lparr>forward = forward (L i), span = u32 (int (span (L i)) - (int (snd (us ! 0)) - int (snd (us ! i))))\<rparr>
      else if i < l \<and> a = fst (us ! i) then \<lparr>forward = Some x, span = u32 (int (snd (us ! 0)) - int (snd (us ! i)) + 1)\<rparr>
      else old)"

lemma link_levels:
  assumes "\<forall>i < l. get_level h (fst (us ! i)) i = Some (L i) \<and> get_level h x i \<noteq> None \<and> fst (us ! i) \<noteq> x"
  shows "for_levels (link_level x us) 0 l h = Some (with_levels (linked x us L l) h)"
  using assms
proof (induction l)
  case 0
  have "linked x us L 0 = (\<lambda>a i old. old)" by (auto simp: linked_def fun_eq_iff)
  then show ?case by (simp add: with_levels_id)
next
  case (Suc l)
  obtain u r where u: "us ! l = (u, r)" by (cases "us ! l")
  have lv: "get_level h u l = Some (L l)" "get_level h x l \<noteq> None" "u \<noteq> x" using Suc.prems u by auto
  have old: "linked x us L l u l (L l) = L l" by (simp add: linked_def)
  have "link_level x us l (with_levels (linked x us L l) h) = Some (with_levels (\<lambda>b j old. if b = u \<and> j = l
      then \<lparr>forward = Some x, span = u32 (int (snd (us ! 0)) - int r + 1)\<rparr>
      else if b = x \<and> j = l then \<lparr>forward = forward (L l), span = u32 (int (span (L l)) - (int (snd (us ! 0)) - int r))\<rparr>
      else linked x us L l b j old) h)"
    using lv old by (simp add: link_level_def u Let_def get_with_levels set_with_levels)
  also have "\<dots> = Some (with_levels (linked x us L (Suc l)) h)"
    using u lv(3) by (intro arg_cong [of _ _ Some] with_levels_cong) (auto simp: linked_def less_Suc_eq)
  finally show ?case using Suc.IH Suc.prems by simp
qed

definition bumped :: "(nat \<times> nat) list \<Rightarrow> nat \<Rightarrow> nat \<Rightarrow> nat \<Rightarrow> nat \<Rightarrow> zskiplistLevel \<Rightarrow> zskiplistLevel" where
  "bumped us lo n a i old = (if lo \<le> i \<and> i < lo + n \<and> a = fst (us ! i) then old\<lparr>span := u32 (int (span old) + 1)\<rparr> else old)"

lemma bump_levels:
  assumes "\<forall>i. lo \<le> i \<and> i < lo + n \<longrightarrow> get_level h (fst (us ! i)) i \<noteq> None"
  shows "for_levels (bump_level us) lo n h = Some (with_levels (bumped us lo n) h)"
  using assms
proof (induction n)
  case 0
  have "bumped us lo 0 = (\<lambda>a i old. old)" by (auto simp: bumped_def fun_eq_iff)
  then show ?case by (simp add: with_levels_id)
next
  case (Suc n)
  obtain lv where lv: "get_level h (fst (us ! (lo + n))) (lo + n) = Some lv" using spec [OF Suc.prems, of "lo + n"] by auto
  have "bump_level us (lo + n) (with_levels (bumped us lo n) h) = Some (with_levels (\<lambda>b j old. if b = fst (us ! (lo + n)) \<and> j = lo + n
      then lv\<lparr>span := u32 (int (span lv) + 1)\<rparr> else bumped us lo n b j old) h)"
    using lv by (simp add: bump_level_def Let_def get_with_levels set_with_levels bumped_def)
  also have "\<dots> = Some (with_levels (bumped us lo (Suc n)) h)"
    using lv by (intro arg_cong [of _ _ Some] with_levels_cong) (auto simp: bumped_def less_Suc_eq)
  finally show ?case using Suc by simp
qed

text \<open>Both loops together: the levels of the new list.\<close>

definition joined :: "nat \<Rightarrow> (nat \<times> nat) list \<Rightarrow> (nat \<Rightarrow> zskiplistLevel) \<Rightarrow> nat \<Rightarrow> nat \<Rightarrow> nat \<Rightarrow> nat \<Rightarrow> zskiplistLevel \<Rightarrow> zskiplistLevel" where
  "joined x us L l lvl a i old = bumped us l (lvl - l) a i (linked x us L l a i old)"

lemma prv_listD:
  assumes "prv_list ps hs k n us" and "i < n"
  obtains p where "us ! i = (ps ! p, p)" "is_prv hs k i p" "p \<le> k" "i < hs ! p"
  using assms unfolding prv_list_def is_prv_def by blast

lemma level_is_insert:
  assumes k: "k < length ps" and lv: "level_is ps p q used lv"
  shows "q \<le> k \<Longrightarrow> level_is (insert_at k x ps) p q used lv"
    and "k < p \<Longrightarrow> p < q \<Longrightarrow> q \<le> length ps \<Longrightarrow> level_is (insert_at k x ps) (Suc p) (Suc q) used lv"
    and "p \<le> k \<Longrightarrow> k < q \<Longrightarrow> q \<le> length ps \<Longrightarrow> length ps < 2 ^ 32 \<Longrightarrow> level_is (insert_at k x ps) p (Suc q) used (lv\<lparr>span := u32 (int (span lv) + 1)\<rparr>)"
proof -
  show "q \<le> k \<Longrightarrow> level_is (insert_at k x ps) p q used lv"
    and "k < p \<Longrightarrow> p < q \<Longrightarrow> q \<le> length ps \<Longrightarrow> level_is (insert_at k x ps) (Suc p) (Suc q) used lv"
    using k lv by (auto simp: level_is_def nth_insert_at min_def)
  assume a: "p \<le> k" "k < q" "q \<le> length ps" "length ps < 2 ^ 32"
  have "u32 (int (span lv) + 1) = min (Suc q) (length ps) - p" if used
  proof -
    have "span lv + 1 = min (Suc q) (length ps) - p" using lv a that by (auto simp: level_is_def min_def)
    then have "int (span lv) + 1 = int (min (Suc q) (length ps) - p)" by linarith
    then show ?thesis using u32_int [of "min (Suc q) (length ps) - p"] a(4) by simp
  qed
  then show "level_is (insert_at k x ps) p (Suc q) used (lv\<lparr>span := u32 (int (span lv) + 1)\<rparr>)"
    using k lv a by (simp add: level_is_def nth_insert_at)
qed

text \<open>The levels of the new node and of its predecessors.\<close>

lemma level_is_new:
  assumes k: "k < length ps" and lv: "level_is ps p q True lv" and q: "p \<le> k" "k < q" "q \<le> length ps" and small: "length ps < 2 ^ 32"
  shows "level_is (insert_at k x ps) (Suc k) (Suc q) used \<lparr>forward = forward lv, span = u32 (int (span lv) - (int k - int p))\<rparr>"
    and "level_is (insert_at k x ps) p (Suc k) used \<lparr>forward = Some x, span = u32 (int k - int p + 1)\<rparr>"
proof -
  have "int (span lv) - (int k - int p) = int (min q (length ps - 1) - k)" using lv q k by (auto simp: level_is_def)
  then have "u32 (int (span lv) - (int k - int p)) = min q (length ps - 1) - k" using small u32_int [of "min q (length ps - 1) - k"] by simp
  then show "level_is (insert_at k x ps) (Suc k) (Suc q) used \<lparr>forward = forward lv, span = u32 (int (span lv) - (int k - int p))\<rparr>"
    using k lv q by (auto simp: level_is_def nth_insert_at)
  have "int k - int p + 1 = int (Suc k - p)" using q(1) by simp
  then have "u32 (int k - int p + 1) = Suc k - p" using small k u32_int [of "Suc k - p"] by simp
  then show "level_is (insert_at k x ps) p (Suc k) used \<lparr>forward = Some x, span = u32 (int k - int p + 1)\<rparr>"
    using k by (simp add: level_is_def nth_insert_at)
qed

text \<open>The list with the new node.\<close>

lemma heights_insert:
  assumes "heights_ok lvl ps hs" and "k < length ps" and "x \<notin> set ps" and "0 < l" "l \<le> lvl"
  shows "heights_ok lvl (insert_at k x ps) (insert_at k l hs)"
proof -
  note hk = heights_okD [OF assms(1)]
  have "distinct (insert_at k x ps)"
    using hk(3) assms(3) by (simp add: insert_at_def distinct_append [symmetric] del: distinct_append)
       (auto simp: set_take_disj_set_drop_if_distinct dest: in_set_takeD in_set_dropD)
  moreover have "\<forall>p < length (insert_at k l hs). 0 < insert_at k l hs ! p \<and> (0 < p \<longrightarrow> insert_at k l hs ! p \<le> lvl)"
    using hk(1,7,8) assms by (auto simp: nth_insert_at)
  moreover have "insert_at k l hs ! 0 = ZSKIPLIST_MAXLEVEL" using hk(1,4) assms(2) by (simp add: nth_insert_at)
  moreover have "insert_at k x ps \<noteq> []" by (simp add: insert_at_def)
  ultimately show ?thesis using hk assms(2) by (simp add: heights_ok_def)
qed

text \<open>The heap after both loops.\<close>

lemma prv_nodes:
  assumes t: "heights_ok lvl ps hs" and u: "prv_list ps hs k lvl us" and k: "k < length ps" and i: "i < lvl" and a: "a < length ps"
  shows "ps ! a = fst (us ! i) \<longleftrightarrow> is_prv hs k i a"
proof -
  note hk = heights_okD [OF t]
  obtain p where p: "us ! i = (ps ! p, p)" "is_prv hs k i p" "p \<le> k" using prv_listD [OF u i] .
  have "ps ! a = ps ! p \<longleftrightarrow> a = p" using nth_eq_iff_index_eq [OF hk(3) a, of p] p(3) k by simp
  then show ?thesis using p(1,2) prv_unique by auto
qed

lemma level_of_prv:
  assumes t: "tower h lvl ps hs" and u: "prv_list ps hs k lvl us" and k: "k < length ps" and i: "i < lvl"
    and L: "get_level h (fst (us ! i)) i = Some lv"
  shows "\<exists>p q. us ! i = (ps ! p, p) \<and> is_prv hs k i p \<and> p \<le> k \<and> is_nxt hs p i q \<and> k < q \<and> q \<le> length ps \<and> level_is ps p q True lv"
proof -
  note hk = heights_okD [OF tower_heights [OF t]]
  obtain p where p: "us ! i = (ps ! p, p)" "is_prv hs k i p" "p \<le> k" "i < hs ! p" using prv_listD [OF u i] .
  have "p < length ps" using p(3) k by simp
  from towerD [OF t this p(4)] obtain lv' q where q: "get_level h (ps ! p) i = Some lv'" "is_nxt hs p i q" "level_is ps p q (i < lvl) lv'" .
  have "lv' = lv" using q(1) L p(1) by simp
  moreover have "k < q" "q \<le> length ps" using nxt_behind [OF p(2) q(2)] k hk(1) q(2) by (simp_all add: is_nxt_def)
  ultimately show ?thesis using p q(2,3) i by auto
qed

lemma level_new:
  assumes t: "tower h lvl ps hs" and u: "prv_list ps hs k lvl us" "us ! 0 = (ps ! k, k)" and k: "k < length ps"
    and l: "i < l" "l \<le> lvl" and small: "length ps < 2 ^ 32" and L: "get_level h (fst (us ! i)) i = Some (L i)"
  shows "\<exists>q. is_nxt (insert_at k l hs) (Suc k) i q \<and> level_is (insert_at k x ps) (Suc k) q used (joined x us L l lvl x i lx)"
proof -
  have il: "i < lvl" using l by simp
  from level_of_prv [OF t u(1) k il L] obtain p q where q: "us ! i = (ps ! p, p)" "p \<le> k" "is_nxt hs p i q" "k < q" "q \<le> length ps"
    "level_is ps p q True (L i)" by blast
  have kh: "k < length hs" using k heights_okD(1) [OF tower_heights [OF t]] by simp
  have "joined x us L l lvl x i lx = \<lparr>forward = forward (L i), span = u32 (int (span (L i)) - (int k - int p))\<rparr>"
    using l(1) q(1) u(2) by (simp add: joined_def linked_def bumped_def)
  then show ?thesis using nxt_insert(4) [OF kh q(3,2,4)] level_is_new(1) [OF k q(6,2,4,5) small] by metis
qed

lemma joined_old:
  assumes t: "heights_ok lvl ps hs" and u: "prv_list ps hs k lvl us" "us ! 0 = (ps ! k, k)" and k: "k < length ps"
    and x: "x \<notin> set ps" and l: "l \<le> lvl" and p: "p < length ps"
  shows "joined x us L l lvl (ps ! p) i lv = (if i < lvl \<and> is_prv hs k i p
        then (if i < l then \<lparr>forward = Some x, span = u32 (int k - int p + 1)\<rparr> else lv\<lparr>span := u32 (int (span lv) + 1)\<rparr>) else lv)"
proof (cases "i < lvl")
  case True
  have nx: "ps ! p \<noteq> x" using x p by force
  note eq = prv_nodes [OF t u(1) k True p]
  show ?thesis
  proof (cases "is_prv hs k i p")
    case a: True
    obtain p1 where "us ! i = (ps ! p1, p1)" "is_prv hs k i p1" using prv_listD [OF u(1) True] by blast
    then have "us ! i = (ps ! p, p)" using prv_unique [OF a] by simp
    then show ?thesis using nx u(2) True a l by (simp add: joined_def linked_def bumped_def)
  next
    case False
    then have "ps ! p \<noteq> fst (us ! i)" using eq by simp
    then show ?thesis using nx False by (simp add: joined_def linked_def bumped_def)
  qed
next
  case False
  then show ?thesis using l by (simp add: joined_def linked_def bumped_def)
qed

lemma level_old:
  assumes t: "heights_ok lvl ps hs" and u: "prv_list ps hs k lvl us" "us ! 0 = (ps ! k, k)" and k: "k < length ps"
    and x: "x \<notin> set ps" and l: "l \<le> lvl" and small: "length ps < 2 ^ 32" and p: "p < length ps" "i < hs ! p"
    and q: "is_nxt hs p i q" "level_is ps p q (i < lvl) lv"
  shows "\<exists>q'. is_nxt (insert_at k l hs) (if p \<le> k then p else Suc p) i q'
    \<and> level_is (insert_at k x ps) (if p \<le> k then p else Suc p) q' (i < lvl) (joined x us L l lvl (ps ! p) i lv)"
proof -
  note J = joined_old [OF t u k x l p(1), of L i lv]
  have kh: "k < length hs" using k heights_okD(1) [OF t] by simp
  have ql: "p < q" "q \<le> length ps" using q(1) heights_okD(1) [OF t] by (simp_all add: is_nxt_def)
  consider (behind) "k < p" | (front) "p \<le> k" "q \<le> k" | (prv) "p \<le> k" "k < q" by linarith
  then show ?thesis
  proof cases
    case behind
    then have "\<not> is_prv hs k i p" by (simp add: is_prv_def)
    then show ?thesis using J nxt_insert(5) [OF kh q(1) behind] level_is_insert(2) [OF k q(2) behind ql] behind by auto
  next
    case front
    then have "\<not> is_prv hs k i p" using nxt_behind [OF _ q(1) kh] by auto
    then show ?thesis using J nxt_insert(1) [OF kh q(1) front(2)] level_is_insert(1) [OF k q(2) front(2)] front by auto
  next
    case prv
    then have pr: "is_prv hs k i p" using prv_step [OF q(1) prv(2,1) p(2)] by simp
    show ?thesis
    proof (cases "i < l")
      case True
      then have "level_is ps p q True lv" using q(2) l by simp
      from level_is_new(2) [OF k this prv ql(2) small] nxt_insert(2) [OF kh q(1) prv True] show ?thesis using J pr True l prv(1) by auto
    next
      case False
      then have nx: "is_nxt (insert_at k l hs) p i (Suc q)" using nxt_insert(3) [OF kh q(1) prv] by simp
      note lv = level_is_insert(3) [OF k q(2) prv ql(2) small, of x]
      show ?thesis
      proof (cases "i < lvl")
        case True
        then show ?thesis using J pr False nx lv prv(1) by auto
      next
        case above: False
        then have "level_is (insert_at k x ps) p (Suc q) (i < lvl) lv" using lv by (simp add: level_is_def)
        then show ?thesis using J nx prv(1) above by auto
      qed
    qed
  qed
qed

lemma levels_insert:
  assumes t: "tower h lvl ps hs" and k: "k < length ps" and u: "prv_list ps hs k lvl us" "us ! 0 = (ps ! k, k)"
    and x: "x \<notin> set ps" and l: "0 < l" "l \<le> lvl" and small: "length ps < 2 ^ 32"
    and new: "\<forall>i < l. get_level h x i \<noteq> None" and L: "\<forall>i < l. get_level h (fst (us ! i)) i = Some (L i)"
  shows "levels_ok (with_levels (joined x us L l lvl) h) lvl (insert_at k x ps) (insert_at k l hs)"
  unfolding levels_ok_def
proof (intro allI impI)
  fix p' i
  have hl: "length hs = length ps" using heights_okD(1) [OF tower_heights [OF t]] .
  have kh: "k < length hs" using k hl by simp
  assume p': "p' < length (insert_at k x ps)" "i < insert_at k l hs ! p'"
  show "\<exists>lv q. get_level (with_levels (joined x us L l lvl) h) (insert_at k x ps ! p') i = Some lv
    \<and> is_nxt (insert_at k l hs) p' i q \<and> level_is (insert_at k x ps) p' q (i < lvl) lv"
  proof (cases "p' = Suc k")
    case True
    then have i: "i < l" using p'(2) kh by (simp add: nth_insert_at)
    obtain lx where "get_level h x i = Some lx" using new i by auto
    moreover have "insert_at k x ps ! p' = x" using True k by (simp add: nth_insert_at)
    moreover have "get_level h (fst (us ! i)) i = Some (L i)" using L i by simp
    from level_new [where L = L, OF t u k i l(2) small this, of x "i < lvl" lx] obtain q where
      "is_nxt (insert_at k l hs) (Suc k) i q" "level_is (insert_at k x ps) (Suc k) q (i < lvl) (joined x us L l lvl x i lx)" by blast
    ultimately show ?thesis using True by (simp add: get_with_levels) blast
  next
    case False
    define p where "p = (if p' \<le> k then p' else p' - 1)"
    have p: "p < length ps" "i < hs ! p" "insert_at k x ps ! p' = ps ! p" "(if p \<le> k then p else Suc p) = p'"
      using False p' k kh hl by (auto simp: p_def nth_insert_at)
    obtain lv q where q: "get_level h (ps ! p) i = Some lv" "is_nxt hs p i q" "level_is ps p q (i < lvl) lv" using towerD [OF t p(1,2)] .
    from level_old [OF tower_heights [OF t] u k x l(2) small p(1,2) q(2,3), of L] q(1) show ?thesis
      unfolding p(3,4) by (simp add: get_with_levels)
  qed
qed

subsection \<open>Unlinking\<close>

definition unlinked :: "nat \<Rightarrow> nat list \<Rightarrow> (nat \<Rightarrow> zskiplistLevel) \<Rightarrow> nat \<Rightarrow> nat \<Rightarrow> nat \<Rightarrow> zskiplistLevel \<Rightarrow> zskiplistLevel" where
  "unlinked x us X n a i old =
     (if i < n \<and> a = us ! i
      then if forward old = Some x then \<lparr>forward = forward (X i), span = u32 (int (span old) + (int (span (X i)) - 1))\<rparr>
           else old\<lparr>span := u32 (int (span old) - 1)\<rparr>
      else old)"

lemma unlink_levels:
  assumes "\<forall>i < n. \<exists>lv. get_level h (us ! i) i = Some lv \<and> us ! i \<noteq> x \<and> (forward lv = Some x \<longrightarrow> get_level h x i = Some (X i))"
  shows "for_levels (unlink_level x us) 0 n h = Some (with_levels (unlinked x us X n) h)"
  using assms
proof (induction n)
  case 0
  have "unlinked x us X 0 = (\<lambda>a i old. old)" by (auto simp: unlinked_def fun_eq_iff)
  then show ?case by (simp add: with_levels_id)
next
  case (Suc n)
  obtain lv where lv: "get_level h (us ! n) n = Some lv" "us ! n \<noteq> x" "forward lv = Some x \<longrightarrow> get_level h x n = Some (X n)"
    using Suc.prems by blast
  have "unlink_level x us n (with_levels (unlinked x us X n) h) = Some (with_levels (\<lambda>b j old. if b = us ! n \<and> j = n
      then if forward lv = Some x then \<lparr>forward = forward (X n), span = u32 (int (span lv) + (int (span (X n)) - 1))\<rparr>
           else lv\<lparr>span := u32 (int (span lv) - 1)\<rparr> else unlinked x us X n b j old) h)"
    using lv by (simp add: unlink_level_def Let_def get_with_levels set_with_levels unlinked_def)
  also have "\<dots> = Some (with_levels (unlinked x us X (Suc n)) h)"
    using lv by (intro arg_cong [of _ _ Some] with_levels_cong) (auto simp: unlinked_def less_Suc_eq)
  finally show ?case using Suc.IH Suc.prems by simp
qed

lemma heights_remove:
  assumes "heights_ok lvl ps hs" and "Suc k < length ps"
  shows "heights_ok lvl (remove_at k ps) (remove_at k hs)"
proof -
  note hk = heights_okD [OF assms(1)]
  have "distinct (remove_at k ps)"
    using hk(3) by (auto simp: remove_at_def set_take_disj_set_drop_if_distinct)
  moreover have "\<forall>p < length (remove_at k hs). 0 < remove_at k hs ! p \<and> (0 < p \<longrightarrow> remove_at k hs ! p \<le> lvl)"
    using hk(1,7,8) assms by (auto simp: nth_remove_at)
  moreover have "remove_at k ps \<noteq> []" using assms(2) by (auto simp: remove_at_def)
  ultimately show ?thesis using hk assms(2) by (simp add: heights_ok_def nth_remove_at)
qed

text \<open>The level of a node at \<open>p\<close> after the removal.\<close>

lemma level_is_remove:
  assumes k: "Suc k < length ps" and lv: "level_is ps p q used lv"
  shows "q \<le> k \<Longrightarrow> level_is (remove_at k ps) p q used lv"
    and "Suc k < p \<Longrightarrow> p < q \<Longrightarrow> q \<le> length ps \<Longrightarrow> level_is (remove_at k ps) (p - 1) (q - 1) used lv"
    and "p \<le> k \<Longrightarrow> Suc k < q \<Longrightarrow> q \<le> length ps \<Longrightarrow> length ps < 2 ^ 32 \<Longrightarrow>
      level_is (remove_at k ps) p (q - 1) used (lv\<lparr>span := u32 (int (span lv) - 1)\<rparr>)"
    and "p \<le> k \<Longrightarrow> q = Suc k \<Longrightarrow> used \<Longrightarrow> q < r \<Longrightarrow> r \<le> length ps \<Longrightarrow> level_is ps q r True xl \<Longrightarrow> length ps < 2 ^ 32 \<Longrightarrow>
      level_is (remove_at k ps) p (r - 1) used \<lparr>forward = forward xl, span = u32 (int (span lv) + (int (span xl) - 1))\<rparr>"
proof -
  show "q \<le> k \<Longrightarrow> level_is (remove_at k ps) p q used lv"
    and "Suc k < p \<Longrightarrow> p < q \<Longrightarrow> q \<le> length ps \<Longrightarrow> level_is (remove_at k ps) (p - 1) (q - 1) used lv"
    using k lv by (auto simp: level_is_def nth_remove_at min_def)
  assume a: "p \<le> k" "length ps < 2 ^ 32"
  show "level_is (remove_at k ps) p (q - 1) used (lv\<lparr>span := u32 (int (span lv) - 1)\<rparr>)" if q: "Suc k < q" "q \<le> length ps"
  proof -
    have "u32 (int (span lv) - 1) = min (q - 1) (length ps - 2) - p" if used
    proof -
      have "span lv = min q (length ps - 1) - p" using lv that by (simp add: level_is_def)
      then have "int (span lv) - 1 = int (min (q - 1) (length ps - 2) - p)" using a q k by (auto simp: min_def)
      then show ?thesis using u32_int [of "min (q - 1) (length ps - 2) - p"] a(2) by simp
    qed
    then show ?thesis using lv q k a by (auto simp: level_is_def nth_remove_at)
  qed
  show "level_is (remove_at k ps) p (r - 1) used \<lparr>forward = forward xl, span = u32 (int (span lv) + (int (span xl) - 1))\<rparr>"
    if q: "q = Suc k" "used" "q < r" "r \<le> length ps" and x: "level_is ps q r True xl"
  proof -
    have "span lv = Suc k - p" "span xl = min r (length ps - 1) - Suc k" using lv x q k by (simp_all add: level_is_def)
    then have "int (span lv) + (int (span xl) - 1) = int (min (r - 1) (length ps - 2) - p)" using a q k by (auto simp: min_def)
    then have "u32 (int (span lv) + (int (span xl) - 1)) = min (r - 1) (length ps - 2) - p"
      using u32_int [of "min (r - 1) (length ps - 2) - p"] a(2) by simp
    then show ?thesis using x q k a by (auto simp: level_is_def nth_remove_at)
  qed
qed

lemma unlinked_old:
  assumes t: "heights_ok lvl ps hs" and u: "prv_list ps hs k lvl us" and k: "Suc k < length ps" and p: "p < length ps"
    and q: "level_is ps p q used lv" "q \<le> length ps"
  shows "unlinked (ps ! Suc k) (map fst us) X lvl (ps ! p) i lv = (if i < lvl \<and> is_prv hs k i p
    then (if q = Suc k then \<lparr>forward = forward (X i), span = u32 (int (span lv) + (int (span (X i)) - 1))\<rparr>
          else lv\<lparr>span := u32 (int (span lv) - 1)\<rparr>) else lv)"
proof (cases "i < lvl")
  case True
  have k': "k < length ps" using k by simp
  have "forward lv = Some (ps ! Suc k) \<longleftrightarrow> q = Suc k"
    using q k heights_okD(3) [OF t] nth_eq_iff_index_eq [of ps q "Suc k"] by (auto simp: level_is_def)
  moreover have "map fst us ! i = fst (us ! i)" using u True by (simp add: prv_list_def)
  moreover note prv_nodes [OF t u k' True p]
  ultimately show ?thesis using True by (simp add: unlinked_def)
qed (simp add: unlinked_def)

lemma level_kept:
  assumes t: "heights_ok lvl ps hs" and u: "prv_list ps hs k lvl us" and k: "Suc k < length ps" and small: "length ps < 2 ^ 32"
    and p: "p < length ps" "i < hs ! p" "p \<noteq> Suc k" and q: "is_nxt hs p i q" "level_is ps p q (i < lvl) lv"
    and X: "q = Suc k \<longrightarrow> (\<exists>r. is_nxt hs (Suc k) i r \<and> level_is ps (Suc k) r True (X i))"
  shows "\<exists>q'. is_nxt (remove_at k hs) (if p \<le> k then p else p - 1) i q'
    \<and> level_is (remove_at k ps) (if p \<le> k then p else p - 1) q' (i < lvl) (unlinked (ps ! Suc k) (map fst us) X lvl (ps ! p) i lv)"
proof -
  note hk = heights_okD [OF t]
  have kh: "Suc k < length hs" using k hk(1) by simp
  have ql: "p < q" "q \<le> length ps" using q(1) hk(1) by (simp_all add: is_nxt_def)
  note U = unlinked_old [OF t u k p(1) q(2) ql(2), of X i]
  consider (behind) "Suc k < p" | (front) "p \<le> k" "q \<le> k" | (hit) "p \<le> k" "q = Suc k" | (over) "p \<le> k" "Suc k < q" using p(3) by linarith
  then show ?thesis
  proof cases
    case behind
    then have "\<not> is_prv hs k i p" by (simp add: is_prv_def)
    then show ?thesis using U nxt_remove(4) [OF kh q(1) behind] level_is_remove(2) [OF k q(2) behind ql] behind by auto
  next
    case front
    then have "\<not> is_prv hs k i p" using nxt_behind [OF _ q(1), of k] kh front(2) by auto
    then show ?thesis using U nxt_remove(1) [OF kh q(1) front(2)] level_is_remove(1) [OF k q(2) front(2)] front by auto
  next
    case hit
    then have pr: "is_prv hs k i p" using prv_step [OF q(1) _ _ p(2)] by simp
    obtain r where r: "is_nxt hs (Suc k) i r" "level_is ps (Suc k) r True (X i)" using X hit(2) by blast
    have rl: "q < r" "r \<le> length ps" using r(1) hit(2) hk(1) by (simp_all add: is_nxt_def)
    have "i < hs ! Suc k" using q(1) hit(2) kh by (simp add: is_nxt_def)
    then have i: "i < lvl" using hk(8) [of "Suc k"] kh by simp
    have "level_is ps q r True (X i)" using r(2) hit(2) by simp
    from level_is_remove(4) [OF k q(2) hit i rl this small] nxt_remove(2) [OF kh q(1) hit r(1)]
    show ?thesis using U pr i hit by auto
  next
    case over
    then have pr: "is_prv hs k i p" using prv_step [OF q(1) _ _ p(2)] by simp
    note nx = nxt_remove(3) [OF kh q(1) over] and lv = level_is_remove(3) [OF k q(2) over ql(2) small]
    show ?thesis
    proof (cases "i < lvl")
      case True
      then show ?thesis using U pr nx lv over by auto
    next
      case False
      then have "level_is (remove_at k ps) p (q - 1) (i < lvl) lv" using lv by (simp add: level_is_def)
      then show ?thesis using U nx over(1) False by auto
    qed
  qed
qed

lemma levels_remove:
  assumes t: "tower h lvl ps hs" and k: "Suc k < length ps" and u: "prv_list ps hs k lvl us" and small: "length ps < 2 ^ 32"
    and X: "\<forall>i < hs ! Suc k. get_level h (ps ! Suc k) i = Some (X i)"
  shows "levels_ok (with_levels (unlinked (ps ! Suc k) (map fst us) X lvl) h) lvl (remove_at k ps) (remove_at k hs)"
  unfolding levels_ok_def
proof (intro allI impI)
  fix p' i
  have hl: "length hs = length ps" using heights_okD(1) [OF tower_heights [OF t]] .
  have kh: "Suc k < length hs" using k hl by simp
  assume p': "p' < length (remove_at k ps)" "i < remove_at k hs ! p'"
  define p where "p = (if p' \<le> k then p' else Suc p')"
  have p: "p < length ps" "i < hs ! p" "p \<noteq> Suc k" "remove_at k ps ! p' = ps ! p" "(if p \<le> k then p else p - 1) = p'"
    using p' k kh hl by (auto simp: p_def nth_remove_at)
  obtain lv q where q: "get_level h (ps ! p) i = Some lv" "is_nxt hs p i q" "level_is ps p q (i < lvl) lv" using towerD [OF t p(1,2)] .
  have "\<exists>r. is_nxt hs (Suc k) i r \<and> level_is ps (Suc k) r True (X i)" if "q = Suc k"
  proof -
    have i: "i < hs ! Suc k" using q(2) that kh by (simp add: is_nxt_def)
    obtain xl r where "get_level h (ps ! Suc k) i = Some xl" "is_nxt hs (Suc k) i r" "level_is ps (Suc k) r (i < lvl) xl" using towerD [OF t k i] .
    moreover have "i < lvl" using i heights_okD(8) [OF tower_heights [OF t], of "Suc k"] kh by simp
    ultimately show ?thesis using X i by auto
  qed
  then show "\<exists>lv q. get_level (with_levels (unlinked (ps ! Suc k) (map fst us) X lvl) h) (remove_at k ps ! p') i = Some lv
    \<and> is_nxt (remove_at k hs) p' i q \<and> level_is (remove_at k ps) p' q (i < lvl) lv"
    using level_kept [OF tower_heights [OF t] u k small p(1-3) q(2,3), of X] q(1) unfolding p(4,5) by (simp add: get_with_levels)
qed

end
