(* ===== verification/Skiplist_Correct.thy ===== *)
theory Skiplist_Correct
  imports Skiplist_Edit
begin

text \<open>
  The skiplist as a sorted list of elements, each a score and a text: \<open>zsl_ok\<close> relates the two, and every
  operation keeps it.
\<close>

subsection \<open>The order of the elements\<close>

definition elem_less :: "'s::linorder elem \<Rightarrow> 's elem \<Rightarrow> bool" where
  "elem_less e f \<longleftrightarrow> fst e < fst f \<or> fst e = fst f \<and> text_cmp (snd e) (snd f) < 0"

lemma text_less_trans: "text_cmp t u < 0 \<Longrightarrow> text_cmp u v < 0 \<Longrightarrow> text_cmp t v < 0"
proof -
  have "trans {(a :: byte, b). unat a < unat b}" by (rule transI) simp
  then show "text_cmp t u < 0 \<Longrightarrow> text_cmp u v < 0 \<Longrightarrow> text_cmp t v < 0" unfolding text_cmp_lexord by (blast intro: lexord_trans)
qed

lemma elem_less_trans: "elem_less e f \<Longrightarrow> elem_less f g \<Longrightarrow> elem_less e g"
  using text_less_trans [of "snd e" "snd f" "snd g"] order_less_trans [of "fst e" "fst f" "fst g"] by (auto simp: elem_less_def)

lemma elem_less_irrefl: "\<not> elem_less e e"
  using text_cmp_0 [of "snd e" "snd e"] by (simp add: elem_less_def)

lemma elem_less_total: "e \<noteq> f \<Longrightarrow> elem_less e f \<or> elem_less f e"
proof -
  assume "e \<noteq> f"
  then have "fst e \<noteq> fst f \<or> snd e \<noteq> snd f" by (auto simp: prod_eq_iff)
  then show ?thesis using text_cmp_0 [of "snd e" "snd f"] text_cmp_minus [of "snd f" "snd e"]
    by (auto simp: elem_less_def)
qed

lemma elem_less_asym: "elem_less e f \<Longrightarrow> \<not> elem_less f e"
  using elem_less_trans elem_less_irrefl by blast

definition insert_elem :: "'s::linorder elem \<Rightarrow> 's elem list \<Rightarrow> 's elem list" where
  "insert_elem e es = takeWhile (\<lambda>x. elem_less x e) es @ e # dropWhile (\<lambda>x. elem_less x e) es"

text \<open>A test that holds of a beginning of the list.\<close>

lemma takeWhile_prefix:
  assumes "\<And>p q. p < q \<Longrightarrow> q < length xs \<Longrightarrow> P (xs ! q) \<Longrightarrow> P (xs ! p)" and "p < length xs"
  shows "P (xs ! p) \<longleftrightarrow> p < length (takeWhile P xs)"
  using assms
proof (induction xs arbitrary: p)
  case (Cons x xs)
  have "P (xs ! q) \<longleftrightarrow> q < length (takeWhile P xs)" if "q < length xs" for q
    by (rule Cons.IH [OF _ that]) (use Cons.prems(1) [of "Suc _" "Suc _"] in auto)
  moreover have "P (xs ! q) \<Longrightarrow> P x" if "q < length xs" for q using Cons.prems(1) [of 0 "Suc q"] that by simp
  ultimately show ?case using Cons.prems(2) by (cases p) auto
qed simp

lemma less_prefix:
  assumes "sorted_wrt elem_less es" and "p < length es"
  shows "elem_less (es ! p) e \<longleftrightarrow> p < length (takeWhile (\<lambda>x. elem_less x e) es)"
  by (rule takeWhile_prefix [OF _ assms(2)]) (metis assms(1) elem_less_trans sorted_wrt_nth_less)

lemma insert_elem_parts:
  "insert_elem e es = (let k = length (takeWhile (\<lambda>x. elem_less x e) es) in take k es @ e # drop k es)"
  by (simp add: insert_elem_def Let_def takeWhile_eq_take [symmetric] dropWhile_eq_drop [symmetric])

lemma sorted_insert_elem:
  assumes "sorted_wrt elem_less es" and "e \<notin> set es"
  shows "sorted_wrt elem_less (insert_elem e es)" and "set (insert_elem e es) = insert e (set es)"
proof -
  define tw dw where "tw = takeWhile (\<lambda>x. elem_less x e) es" and "dw = dropWhile (\<lambda>x. elem_less x e) es"
  have es: "es = tw @ dw" and ins: "insert_elem e es = tw @ e # dw" by (simp_all add: tw_def dw_def insert_elem_def)
  have s: "sorted_wrt elem_less tw" "sorted_wrt elem_less dw" using assms(1) by (simp_all add: es sorted_wrt_append)
  have front: "elem_less x e" if "x \<in> set tw" for x using that set_takeWhileD unfolding tw_def by metis
  have behind: "elem_less e x" if x: "x \<in> set dw" for x
  proof -
    have ne: "dw \<noteq> []" using x by force
    have "\<not> elem_less (hd dw) e" using hd_dropWhile [of "\<lambda>x. elem_less x e" es] ne by (simp add: dw_def)
    moreover have "hd dw \<noteq> e" using assms(2) ne by (auto simp: es)
    ultimately have "elem_less e (hd dw)" using elem_less_total by metis
    moreover have "x = hd dw \<or> elem_less (hd dw) x" using s(2) ne x by (cases dw) auto
    ultimately show ?thesis using elem_less_trans by metis
  qed
  have "elem_less x y" if "x \<in> set tw" "y \<in> set dw" for x y using elem_less_trans [OF front behind] that .
  then show "sorted_wrt elem_less (insert_elem e es)" unfolding ins using s front behind by (simp add: sorted_wrt_append)
  show "set (insert_elem e es) = insert e (set es)" unfolding ins using arg_cong [OF es, of set] by auto
qed

subsection \<open>Lists\<close>

text \<open>The node at position \<open>p + 1\<close> holds the element \<open>p\<close>.\<close>

definition node_is :: "nat list \<Rightarrow> 's elem list \<Rightarrow> nat \<Rightarrow> 's zskiplistNode \<Rightarrow> bool" where
  "node_is ps es p n \<longleftrightarrow> (\<exists>ob. z_obj n = Some ob \<and> obj_holds ob (snd (es ! p))) \<and> z_score n = fst (es ! p)
     \<and> z_backward n = (if p = 0 then None else Some (ps ! p))"

definition nodes_ok :: "'s zheap \<Rightarrow> nat list \<Rightarrow> 's elem list \<Rightarrow> bool" where
  "nodes_ok h ps es \<longleftrightarrow> length ps = Suc (length es) \<and> (\<exists>n. h (ps ! 0) = Some n \<and> z_obj n = None)
     \<and> (\<forall>p < length es. \<exists>n. h (ps ! Suc p) = Some n \<and> node_is ps es p n)"

definition list_ok :: "zskiplist \<Rightarrow> nat list \<Rightarrow> 's elem list \<Rightarrow> bool" where
  "list_ok z ps es \<longleftrightarrow> zsl_header z = ps ! 0 \<and> zsl_tail z = (if es = [] then None else Some (last ps)) \<and> zsl_length z = length es"

definition level_tight :: "nat \<Rightarrow> nat list \<Rightarrow> bool" where
  "level_tight lvl hs \<longleftrightarrow> lvl = 1 \<or> (\<exists>p < length hs. 0 < p \<and> hs ! p = lvl)"

definition zsl_ok :: "'s::linorder zstate \<Rightarrow> nat list \<Rightarrow> nat list \<Rightarrow> 's elem list \<Rightarrow> bool" where
  "zsl_ok = (\<lambda>(h, z) ps hs es. tower h (zsl_level z) ps hs \<and> nodes_ok h ps es \<and> list_ok z ps es \<and> level_tight (zsl_level z) hs
     \<and> sorted_wrt elem_less es \<and> length es + 1 < 2 ^ 32)"

lemma node_levels: "node_is ps es p (n\<lparr>z_levels := l\<rparr>) = node_is ps es p n"
  by (simp add: node_is_def)

lemma nodes_with_levels: "nodes_ok (with_levels g h) ps es = nodes_ok h ps es"
  by (auto simp: nodes_ok_def with_levels_def node_levels)

text \<open>A search for the place of an element.\<close>

lemma sorts_before_node:
  assumes "node_is ps es p n" and "obj_holds ob t"
  shows "sorts_before (\<lambda>c. c < 0) s ob r n = Some (elem_less (es ! p) (s, t))"
    and "sorts_before (\<lambda>c. c \<le> 0) s ob r n = Some (elem_less (es ! p) (s, t) \<or> es ! p = (s, t))"
proof -
  obtain x where x: "z_obj n = Some x" "obj_holds x (snd (es ! p))" and sc: "z_score n = fst (es ! p)" using assms(1) by (auto simp: node_is_def)
  have c: "compareStringObjects False x ob = Some (text_cmp (snd (es ! p)) t)" using compareStringObjects_text [OF x(2) assms(2)] by simp
  show "sorts_before (\<lambda>c. c < 0) s ob r n = Some (elem_less (es ! p) (s, t))"
    using x(1) sc c by (auto simp: sorts_before_def elem_less_def)
  show "sorts_before (\<lambda>c. c \<le> 0) s ob r n = Some (elem_less (es ! p) (s, t) \<or> es ! p = (s, t))"
    using x(1) sc c text_cmp_0 [of "snd (es ! p)" t] by (auto simp: sorts_before_def elem_less_def prod_eq_iff)
qed

lemma goes_to_test:
  assumes n: "nodes_ok h ps es" and go: "\<And>p n r. p < length es \<Longrightarrow> node_is ps es p n \<Longrightarrow> go (Suc p) n = Some (P (es ! p))"
    and P: "\<And>p. p < length es \<Longrightarrow> P (es ! p) \<longleftrightarrow> p < k" and k: "k \<le> length es" and small: "length es + 1 < 2 ^ 32"
  shows "goes_to go h ps k"
  unfolding goes_to_def
proof (intro conjI allI impI)
  show "k < length ps" "length ps < 2 ^ 32" using n k small by (simp_all add: nodes_ok_def)
  fix q m
  assume q: "q < length ps" "0 < q \<and> h (ps ! q) = Some m"
  then obtain p where p: "q = Suc p" "p < length es" using n by (cases q) (auto simp: nodes_ok_def)
  then obtain m' where "h (ps ! q) = Some m'" "node_is ps es p m'" using n by (auto simp: nodes_ok_def)
  then show "go q m = Some (q \<le> k)" using go [of p m] P p q(2) by (auto simp: Suc_le_eq)
qed

lemma goes_to_elem:
  assumes "nodes_ok h ps es" "sorted_wrt elem_less es" "obj_holds ob t" "length es + 1 < 2 ^ 32"
  shows "goes_to (sorts_before (\<lambda>c. c < 0) s ob) h ps (length (takeWhile (\<lambda>x. elem_less x (s, t)) es))"
  by (rule goes_to_test [OF assms(1) _ less_prefix [OF assms(2), of _ "(s, t)"]])
    (use assms(3,4) in \<open>auto simp: sorts_before_node length_takeWhile_le\<close>)

subsection \<open>Insertion\<close>

text \<open>The elements after an insertion behind position \<open>k\<close>, and the nodes that hold them.\<close>

definition put_elem :: "nat \<Rightarrow> 's elem \<Rightarrow> 's elem list \<Rightarrow> 's elem list" where "put_elem k e es = take k es @ e # drop k es"

lemma nth_put_elem: "k \<le> length es \<Longrightarrow> put_elem k e es ! j = (if j < k then es ! j else if j = k then e else es ! (j - 1))"
proof -
  assume k: "k \<le> length es"
  show ?thesis
  proof (cases "k < j")
    case True
    then obtain m where "j = Suc k + m" using le_Suc_ex Suc_leI by blast
    then show ?thesis using k by (simp add: put_elem_def nth_append)
  qed (use k in \<open>auto simp: put_elem_def nth_append\<close>)
qed

lemma length_put_elem [simp]: "length (put_elem k e es) = Suc (length es)"
  by (simp add: put_elem_def)

lemma set_backward_Some: "set_backward a b h = Some h' \<longleftrightarrow> (\<exists>n. h a = Some n \<and> h' = h(a \<mapsto> n\<lparr>z_backward := b\<rparr>))"
  by (auto simp: set_backward_def split: bind_splits)

lemma set_backward_get:
  assumes "set_backward a b h = Some h'"
  shows "get_level h' = get_level h"
proof -
  obtain n where "h a = Some n" "h' = h(a \<mapsto> n\<lparr>z_backward := b\<rparr>)" using assms unfolding set_backward_Some by blast
  then show ?thesis by (intro ext) (simp add: get_level_def)
qed

lemma cells_alt: "cells_ok h ps hs \<longleftrightarrow> (\<forall>p < length ps. map_option (\<lambda>n. length (z_levels n)) (h (ps ! p)) = Some (hs ! p))"
  by (auto simp: cells_ok_def)

lemma set_backward_tower:
  assumes s: "set_backward a b h = Some h'"
  shows "tower h' lvl ps hs = tower h lvl ps hs"
proof -
  obtain n where n: "h a = Some n" "h' = h(a \<mapsto> n\<lparr>z_backward := b\<rparr>)" using s unfolding set_backward_Some by blast
  have "map_option (\<lambda>n. length (z_levels n)) (h' c) = map_option (\<lambda>n. length (z_levels n)) (h c)" for c
    using n by (cases "c = a") simp_all
  then show ?thesis by (simp add: tower_def levels_ok_def cells_alt set_backward_get [OF s])
qed

text \<open>The links back around the new node.\<close>

lemma nodes_insert:
  assumes n: "nodes_ok h ps es" and k: "k < length ps" and d: "distinct ps" and x: "x \<notin> set ps"
    and nx: "h x = Some m" "z_obj m = Some ob" "obj_holds ob (snd e)" "z_score m = fst e"
    and h1: "h1 = h(x \<mapsto> m\<lparr>z_backward := (if k = 0 then None else Some (ps ! k))\<rparr>)"
  shows "k = length es \<Longrightarrow> nodes_ok h1 (insert_at k x ps) (put_elem k e es)"
    and "k < length es \<Longrightarrow> \<exists>h2. set_backward (ps ! Suc k) (Some x) h1 = Some h2 \<and> nodes_ok h2 (insert_at k x ps) (put_elem k e es)"
proof -
  have len: "length ps = Suc (length es)" using n by (simp add: nodes_ok_def)
  have k': "k \<le> length es" using k len by simp
  have ne: "ps ! p \<noteq> x" if "p < length ps" for p using that x by force
  have old: "\<exists>n. h1 (ps ! Suc p) = Some n \<and> node_is ps es p n" if "p < length es" for p
    using n that ne [of "Suc p"] len by (auto simp: nodes_ok_def h1)
  have hd: "\<exists>n. h1 (insert_at k x ps ! 0) = Some n \<and> z_obj n = None"
    using n ne [of 0] len k by (auto simp: nodes_ok_def h1 nth_insert_at)
  have new: "\<exists>n. h1 x = Some n \<and> node_is (insert_at k x ps) (put_elem k e es) k n"
    using nx k k' by (auto simp: h1 node_is_def nth_put_elem nth_insert_at)
  have front: "node_is (insert_at k x ps) (put_elem k e es) p n" if "p < k" "node_is ps es p n" for p n
    using that k k' by (simp add: node_is_def nth_put_elem nth_insert_at)
  have behind: "node_is (insert_at k x ps) (put_elem k e es) (Suc p) n" if "k < p" "node_is ps es p n" for p n
    using that k k' by (simp add: node_is_def nth_put_elem nth_insert_at)
  have nxt: "node_is (insert_at k x ps) (put_elem k e es) (Suc k) (n\<lparr>z_backward := Some x\<rparr>)" if "node_is ps es k n" for n
    using that k k' by (simp add: node_is_def nth_put_elem nth_insert_at)
  show "nodes_ok h1 (insert_at k x ps) (put_elem k e es)" if ke: "k = length es"
  proof -
    have "\<exists>n. h1 (insert_at k x ps ! Suc p) = Some n \<and> node_is (insert_at k x ps) (put_elem k e es) p n" if "p < Suc (length es)" for p
      using old [of p] new front [of p] that ke k by (cases "p = k") (auto simp: nth_insert_at)
    then show ?thesis using hd len k by (simp add: nodes_ok_def)
  qed
  show "\<exists>h2. set_backward (ps ! Suc k) (Some x) h1 = Some h2 \<and> nodes_ok h2 (insert_at k x ps) (put_elem k e es)" if ke: "k < length es"
  proof -
    obtain nn where nn: "h1 (ps ! Suc k) = Some nn" "node_is ps es k nn" using old [OF ke] by blast
    define h2 where "h2 = h1(ps ! Suc k \<mapsto> nn\<lparr>z_backward := Some x\<rparr>)"
    have keep: "h2 (ps ! p) = h1 (ps ! p)" if "p < length ps" "p \<noteq> Suc k" for p
      using that d ke len by (simp add: h2_def nth_eq_iff_index_eq)
    have "\<exists>n. h2 (insert_at k x ps ! Suc p) = Some n \<and> node_is (insert_at k x ps) (put_elem k e es) p n" if p: "p < Suc (length es)" for p
    proof -
      consider "p < k" | "p = k" | "p = Suc k" | "Suc k < p" by linarith
      then show ?thesis
      proof cases
        case 1
        then show ?thesis using old [of p] front [of p] keep [of "Suc p"] ke len k by (auto simp: nth_insert_at)
      next
        case 2
        then show ?thesis using new ne [of "Suc k"] ke len k by (auto simp: nth_insert_at h2_def)
      next
        case 3
        then show ?thesis using nxt [OF nn(2)] k by (auto simp: nth_insert_at h2_def)
      next
        case 4
        then obtain q where q: "p = Suc q" "k < q" "q < length es" using p by (cases p) auto
        then show ?thesis using old [of q] behind [of q] keep [of "Suc q"] len k by (auto simp: nth_insert_at)
      qed
    qed
    moreover have "\<exists>n. h2 (insert_at k x ps ! 0) = Some n \<and> z_obj n = None" using hd keep [of 0] k len by (auto simp: nth_insert_at)
    ultimately have "nodes_ok h2 (insert_at k x ps) (put_elem k e es)" using len k by (simp add: nodes_ok_def)
    moreover have "set_backward (ps ! Suc k) (Some x) h1 = Some h2" using nn(1) by (simp add: set_backward_def h2_def)
    ultimately show ?thesis by blast
  qed
qed

lemma cells_insert:
  assumes "cells_ok h ps hs" and "length hs = length ps" and "k < length ps" and "h x = Some m" "length (z_levels m) = l"
  shows "cells_ok h (insert_at k x ps) (insert_at k l hs)"
  unfolding cells_ok_def
proof (intro allI impI)
  fix p assume p: "p < length (insert_at k x ps)"
  show "\<exists>n. h (insert_at k x ps ! p) = Some n \<and> length (z_levels n) = insert_at k l hs ! p"
  proof (cases "p = Suc k")
    case False
    define p' where "p' = (if p \<le> k then p else p - 1)"
    have "p' < length ps" "insert_at k x ps ! p = ps ! p'" "insert_at k l hs ! p = hs ! p'"
      using p False assms(2,3) by (auto simp: p'_def nth_insert_at)
    then show ?thesis using assms(1) unfolding cells_ok_def by simp
  qed (use assms in \<open>simp add: nth_insert_at\<close>)
qed

lemma last_insert_at: "k < length ps \<Longrightarrow> last (insert_at k x ps) = (if Suc k = length ps then x else last ps)"
  by (simp add: insert_at_def last_append)

text \<open>The loops over the levels, as one change.\<close>

lemma join_levels:
  assumes t: "tower h lvl ps hs" and k: "k < length ps" and u: "prv_list ps hs k lvl us" "us ! 0 = (ps ! k, k)"
    and x: "x \<notin> set ps" "h x = Some m" "length (z_levels m) = l" and l: "0 < l" "l \<le> lvl" and small: "length ps < 2 ^ 32"
  shows "\<exists>g. for_levels (link_level x us) 0 l h \<bind> for_levels (bump_level us) l (lvl - l) = Some (with_levels g h)
    \<and> tower (with_levels g h) lvl (insert_at k x ps) (insert_at k l hs)"
proof -
  note hk = heights_okD [OF tower_heights [OF t]]
  have lev: "\<exists>lv. get_level h (fst (us ! i)) i = Some lv \<and> fst (us ! i) \<noteq> x" if i: "i < lvl" for i
  proof -
    obtain p where p: "us ! i = (ps ! p, p)" "p \<le> k" "i < hs ! p" using prv_listD [OF u(1) i] by metis
    then have "p < length ps" using k by simp
    then show ?thesis using towerD [OF t _ p(3)] p(1) x(1) nth_mem by (metis fst_conv)
  qed
  define L where "L i = the (get_level h (fst (us ! i)) i)" for i
  have L: "\<forall>i < l. get_level h (fst (us ! i)) i = Some (L i)" using lev l(2) by (auto simp: L_def)
  have new: "\<forall>i < l. get_level h x i \<noteq> None" using x(2,3) by (simp add: get_level_def check_def)
  have 1: "for_levels (link_level x us) 0 l h = Some (with_levels (linked x us L l) h)"
    by (rule link_levels) (use L new lev l(2) in auto)
  have 2: "for_levels (bump_level us) l (lvl - l) (with_levels (linked x us L l) h)
      = Some (with_levels (bumped us l (lvl - l)) (with_levels (linked x us L l) h))"
    by (rule bump_levels) (use lev l(2) in \<open>auto simp: get_with_levels\<close>)
  have "with_levels (bumped us l (lvl - l)) (with_levels (linked x us L l) h) = with_levels (joined x us L l lvl) h"
    unfolding with_levels_twice joined_def [abs_def] ..
  moreover have "tower (with_levels (joined x us L l lvl) h) lvl (insert_at k x ps) (insert_at k l hs)"
    unfolding tower_def cells_with_levels
    using heights_insert [OF tower_heights [OF t] k x(1) l] cells_insert [where h = h and ps = ps and hs = hs, OF _ hk(1) k x(2,3)] t levels_insert [OF t k u x(1) l small new L]
    by (simp add: tower_def)
  ultimately show ?thesis using 1 2 by auto
qed

lemma forward_0:
  assumes "tower h lvl ps hs" and "p < length ps"
  shows "\<exists>lv. get_level h (ps ! p) 0 = Some lv \<and> forward lv = (if Suc p < length ps then Some (ps ! Suc p) else None)"
proof -
  note hk = heights_okD [OF tower_heights [OF assms(1)]]
  have "0 < hs ! p" using hk(1,7) assms(2) by simp
  from towerD [OF assms this] obtain lv q where q: "get_level h (ps ! p) 0 = Some lv" "is_nxt hs p 0 q" "level_is ps p q (0 < lvl) lv" .
  have "q = Suc p" using nxt_0 [of p hs q] q(2) hk(1,7) assms(2) by simp
  then show ?thesis using q(1,3) by (simp add: level_is_def)
qed

lemma link_node_ok:
  assumes t: "tower h (zsl_level z) ps hs" and n: "nodes_ok h ps es" and z: "list_ok z ps es" and small: "length ps < 2 ^ 32"
    and k: "k < length ps" and u: "prv_list ps hs k (zsl_level z) us" "us ! 0 = (ps ! k, k)"
    and x: "x \<notin> set ps" "h x = Some m" "length (z_levels m) = l" and l: "0 < l" "l \<le> zsl_level z"
    and m: "z_obj m = Some ob" "obj_holds ob (snd e)" "z_score m = fst e"
  shows "\<exists>h' z'. link_node x l us (h, z) = Some (h', z') \<and> tower h' (zsl_level z) (insert_at k x ps) (insert_at k l hs)
    \<and> nodes_ok h' (insert_at k x ps) (put_elem k e es) \<and> list_ok z' (insert_at k x ps) (put_elem k e es) \<and> zsl_level z' = zsl_level z"
proof -
  note hk = heights_okD [OF tower_heights [OF t]]
  have len: "length ps = Suc (length es)" using n by (simp add: nodes_ok_def)
  obtain g where g: "for_levels (link_level x us) 0 l h \<bind> for_levels (bump_level us) l (zsl_level z - l) = Some (with_levels g h)"
    "tower (with_levels g h) (zsl_level z) (insert_at k x ps) (insert_at k l hs)" using join_levels [OF t k u x l small] by blast
  define H where "H = with_levels g h"
  obtain m' where m': "H x = Some m'" "z_obj m' = Some ob" "z_score m' = fst e" using x(2) m by (auto simp: H_def with_levels_def)
  have "fst (us ! 0) = zsl_header z \<longleftrightarrow> k = 0" using u(2) z hk(2,3) k by (simp add: list_ok_def nth_eq_iff_index_eq)
  then have b: "(if fst (us ! 0) = zsl_header z then None else Some (fst (us ! 0))) = (if k = 0 then None else Some (ps ! k))" using u(2) by simp
  define h1 where "h1 = H(x \<mapsto> m'\<lparr>z_backward := (if k = 0 then None else Some (ps ! k))\<rparr>)"
  have h1: "set_backward x (if k = 0 then None else Some (ps ! k)) H = Some h1" using m'(1) by (simp add: set_backward_def h1_def)
  have t1: "tower h1 (zsl_level z) (insert_at k x ps) (insert_at k l hs)" using set_backward_tower [OF h1] g(2) by (simp add: H_def)
  have "\<exists>lv. get_level h1 x 0 = Some lv \<and> forward lv = (if Suc k < length ps then Some (ps ! Suc k) else None)"
  proof -
    have at: "insert_at k x ps ! Suc k = x" "insert_at k x ps ! Suc (Suc k) = ps ! Suc k" using k by (simp_all add: nth_insert_at)
    show ?thesis using forward_0 [OF t1, of "Suc k"] k unfolding at length_insert_at [OF k] Suc_less_eq by simp
  qed
  then obtain lv where lv: "get_level h1 x 0 = Some lv" "forward lv = (if Suc k < length ps then Some (ps ! Suc k) else None)" by blast
  have nodes: "nodes_ok H ps es" using n by (simp add: H_def nodes_with_levels)
  note ins = nodes_insert [OF nodes k hk(3) x(1) m'(1,2) m(2) m'(3) h1_def]
  define z1 where "z1 tail = z\<lparr>zsl_tail := tail, zsl_length := u64 (int (zsl_length z) + 1)\<rparr>" for tail
  obtain H0 where H0: "for_levels (link_level x us) 0 l h = Some H0" "for_levels (bump_level us) l (zsl_level z - l) H0 = Some H"
    using g(1) unfolding H_def bind_eq_Some_conv by blast
  have run: "link_node x l us (h, z) = (case (if Suc k < length ps then Some (ps ! Suc k) else None) of
      Some y \<Rightarrow> do { h \<leftarrow> set_backward y (Some x) h1; Some (h, z1 (zsl_tail z)) } | None \<Rightarrow> Some (h1, z1 (Some x)))"
    using lv unfolding link_node_def z1_def by (cases "Suc k < length ps") (simp_all add: H0 b h1)
  have zl: "u64 (int (zsl_length z) + 1) = Suc (length es)" using z len small by (simp add: list_ok_def)
  have ok: "list_ok (z1 tail) (insert_at k x ps) (put_elem k e es)" if "tail = Some (last (insert_at k x ps))" for tail
    using z zl that k by (auto simp: list_ok_def z1_def nth_insert_at put_elem_def)
  show ?thesis
  proof (cases "Suc k < length ps")
    case False
    then have "k = length es" using k len by simp
    then show ?thesis using run False ins(1) t1 ok [of "Some x"] k len by (simp add: last_insert_at z1_def)
  next
    case True
    then have "k < length es" using len by simp
    then obtain h2 where h2: "set_backward (ps ! Suc k) (Some x) h1 = Some h2" "nodes_ok h2 (insert_at k x ps) (put_elem k e es)" using ins(2) by blast
    have "zsl_tail z = Some (last (insert_at k x ps))" using z True len k by (auto simp: list_ok_def last_insert_at)
    from ok [OF this] show ?thesis using run True h2 t1 set_backward_tower [OF h2(1)] by (simp add: z1_def)
  qed
qed

lemma level_loop_ge:
  assumes "level_loop rs l = Some m"
  shows "l \<le> m"
proof (rule level_loop.raw_induct [where P = "\<lambda>rs l m. l \<le> m", OF _ assms])
  fix f :: "(nat \<Rightarrow> nat) \<Rightarrow> nat \<Rightarrow> nat option" and rs :: "nat \<Rightarrow> nat" and level m :: nat
  assume ih: "\<And>rs level m. f rs level = Some m \<Longrightarrow> level \<le> m"
    and eq: "(if 4 * (rs (level - 1) mod 65536) < 65535 then f rs (level + 1) else Some level) = Some m"
  show "level \<le> m"
  proof (cases "4 * (rs (level - 1) mod 65536) < 65535")
    case True
    then have "f rs (level + 1) = Some m" using eq by simp
    from ih [OF this] show ?thesis by simp
  next
    case False
    then show ?thesis using eq by simp
  qed
qed

lemma zslRandomLevel_bounds:
  assumes "zslRandomLevel rs = Some level"
  shows "0 < level" "level \<le> ZSKIPLIST_MAXLEVEL"
proof -
  obtain l where l: "level_loop rs 1 = Some l" "level = (if l < ZSKIPLIST_MAXLEVEL then l else ZSKIPLIST_MAXLEVEL)"
    using assms by (auto simp: zslRandomLevel_def split: bind_splits)
  then show "0 < level" "level \<le> ZSKIPLIST_MAXLEVEL" using level_loop_ge [OF l(1)] by (simp_all add: ZSKIPLIST_MAXLEVEL_def)
qed

lemma tight_insert:
  assumes "level_tight lvl hs" and "k < length hs"
  shows "level_tight (max lvl l) (insert_at k l hs)"
proof -
  have new: "level_tight l (insert_at k l hs)" using assms(2) unfolding level_tight_def
    by (intro disjI2 exI [of _ "Suc k"]) (simp add: nth_insert_at)
  have "level_tight lvl (insert_at k l hs)"
  proof (cases "lvl = 1")
    case False
    then obtain p where p: "p < length hs" "0 < p" "hs ! p = lvl" using assms(1) by (auto simp: level_tight_def)
    then have "insert_at k l hs ! (if p \<le> k then p else Suc p) = lvl" using assms(2) by (simp add: nth_insert_at)
    then show ?thesis using p assms(2) unfolding level_tight_def
      by (intro disjI2 exI [of _ "if p \<le> k then p else Suc p"]) simp
  qed (simp add: level_tight_def)
  then show ?thesis using new by (simp add: max_def)
qed

lemma insert_elem_put: "insert_elem e es = put_elem (length (takeWhile (\<lambda>x. elem_less x e) es)) e es"
  by (simp add: insert_elem_parts put_elem_def Let_def)

lemma set_insert_at: "set (insert_at k x xs) = insert x (set xs)"
proof -
  have "set xs = set (take (Suc k) xs) \<union> set (drop (Suc k) xs)" by (metis append_take_drop_id set_append)
  then show ?thesis by (simp add: insert_at_def)
qed

lemma zslInsert_ok:
  assumes ok: "zsl_ok (h, z) ps hs es" and x: "x \<notin> set ps" and ob: "obj_holds ob t" "(s, t) \<notin> set es"
    and level: "zslRandomLevel rs = Some level" and small: "length es + 2 < 2 ^ 32"
  shows "\<exists>h' z' ps' hs'. zslInsert junk x rs s ob (h, z) = Some (h', z') \<and> zsl_ok (h', z') ps' hs' (insert_elem (s, t) es)
    \<and> set ps' = insert x (set ps)"
proof -
  define k where "k = length (takeWhile (\<lambda>x. elem_less x (s, t)) es)"
  define lvl where "lvl = max (zsl_level z) level"
  have t: "tower h (zsl_level z) ps hs" and n: "nodes_ok h ps es" and l: "list_ok z ps es" and tight: "level_tight (zsl_level z) hs"
    and srt: "sorted_wrt elem_less es" using ok by (simp_all add: zsl_ok_def)
  note hk = heights_okD [OF tower_heights [OF t]]
  have len: "length ps = Suc (length es)" "zsl_header z = ps ! 0" "zsl_length z = length ps - 1" using n l by (simp_all add: nodes_ok_def list_ok_def)
  have lv: "0 < level" "level \<le> lvl" "zsl_level z \<le> lvl" "lvl \<le> ZSKIPLIST_MAXLEVEL"
    using zslRandomLevel_bounds [OF level] hk(6) by (simp_all add: lvl_def)
  have go: "goes_to (sorts_before (\<lambda>c. c < 0) s ob) h ps k" unfolding k_def by (rule goes_to_elem [OF n srt ob(1)]) (use small in simp)
  then have k: "k < length ps" by (simp add: goes_to_def)
  obtain us where us: "search_from (sorts_before (\<lambda>c. c < 0) s ob) (h, z) = Some us" "prv_list ps hs k (zsl_level z) us" "us ! 0 = (ps ! k, k)"
    using search_from_prv [OF t len(2) go] by blast
  define us' where "us' = us @ replicate (level - zsl_level z) (zsl_header z, 0)"
  have ll: "lvl - zsl_level z = level - zsl_level z" by (simp add: lvl_def max_def)
  have u: "prv_list ps hs k lvl us'" using raise_prv [OF tower_heights [OF t] us(2) k lv(3,4)] by (simp add: us'_def len(2) ll)
  have "us \<noteq> []" using us(2) hk(5) by (auto simp: prv_list_def)
  then have u0: "us' ! 0 = (ps ! k, k)" using us(3) by (simp add: us'_def nth_append)
  define H where "H = with_levels (raised (ps ! 0) (length ps - 1) (zsl_level z) (level - zsl_level z)) h"
  have "\<forall>i < zsl_level z + (level - zsl_level z). get_level h (zsl_header z) i \<noteq> None"
  proof (intro allI impI)
    fix i assume "i < zsl_level z + (level - zsl_level z)"
    then have "i < hs ! 0" using lv hk(4,6) by (auto simp: lvl_def)
    then obtain lv where "get_level h (ps ! 0) i = Some lv" using towerD [OF t hk(2)] by blast
    then show "get_level h (zsl_header z) i \<noteq> None" by (simp add: len(2))
  qed
  from raise_levels [OF this] have raise: "for_levels (raise_level z) (zsl_level z) (level - zsl_level z) h = Some H"
    by (simp add: H_def len(2,3))
  have tH: "tower H lvl ps hs" using raise_tower [OF t lv(3,4), of "length ps - 1"] small len by (simp add: H_def ll)
  define m where "m = zslCreateNode junk level s (Some ob)"
  define H1 where "H1 = H(x \<mapsto> m)"
  have keep: "H1 (ps ! p) = H (ps ! p)" if "p < length ps" for p using that x by (auto simp: H1_def)
  have "get_level H1 (ps ! p) = get_level H (ps ! p)" if "p < length ps" for p using keep [OF that] by (simp add: get_level_def fun_eq_iff)
  then have t1: "tower H1 lvl ps hs" using tH keep by (simp add: tower_def levels_ok_def cells_ok_def)
  have "nodes_ok H ps es" using n by (simp add: H_def nodes_with_levels)
  then have n1: "nodes_ok H1 ps es" using keep len by (simp add: nodes_ok_def)
  define z1 where "z1 = (if level > zsl_level z then z\<lparr>zsl_level := level\<rparr> else z)"
  have z1: "zsl_level z1 = lvl" "list_ok z1 ps es" using l by (auto simp: z1_def lvl_def list_ok_def)
  have m: "length (z_levels m) = level" "z_obj m = Some ob" "z_score m = s" by (simp_all add: m_def zslCreateNode_def)
  have "length ps < 2 ^ 32" using small len by simp
  from link_node_ok [of H1 z1 ps hs es k us' x m level ob "(s, t)", OF _ n1 z1(2) this k _ u0 x _ m(1) lv(1)] t1 u z1(1) lv(2) m(2,3) ob(1)
  obtain h' z' where r: "link_node x level us' (H1, z1) = Some (h', z')" "tower h' lvl (insert_at k x ps) (insert_at k level hs)"
    "nodes_ok h' (insert_at k x ps) (put_elem k (s, t) es)" "list_ok z' (insert_at k x ps) (put_elem k (s, t) es)" "zsl_level z' = lvl"
    by (auto simp: H1_def)
  have "zslInsert junk x rs s ob (h, z) = Some (h', z')"
    using us(1) level raise r(1) by (simp add: zslInsert_def us'_def z1_def H1_def m_def Let_def)
  moreover have e: "put_elem k (s, t) es = insert_elem (s, t) es" by (simp add: insert_elem_put k_def)
  moreover have "level_tight lvl (insert_at k level hs)" using tight_insert [OF tight, of k level] k hk(1) by (simp add: lvl_def)
  moreover have "length (insert_elem (s, t) es) + 1 < 2 ^ 32" using small by (simp flip: e)
  ultimately show ?thesis using r(2-5) sorted_insert_elem(1) [OF srt ob(2)] set_insert_at [of k x ps] unfolding zsl_ok_def by auto
qed

subsection \<open>Deletion\<close>

definition drop_elem :: "nat \<Rightarrow> 's elem list \<Rightarrow> 's elem list" where "drop_elem k es = take k es @ drop (Suc k) es"

lemma nth_drop_elem: "k < length es \<Longrightarrow> drop_elem k es ! j = (if j < k then es ! j else es ! Suc j)"
  by (simp add: drop_elem_def nth_append)

lemma length_drop_elem [simp]: "k < length es \<Longrightarrow> length (drop_elem k es) = length es - 1"
  by (simp add: drop_elem_def)

lemma sorted_drop_elem: "sorted_wrt elem_less es \<Longrightarrow> sorted_wrt elem_less (drop_elem k es)"
proof -
  assume s: "sorted_wrt elem_less es"
  have "es = take k es @ drop k es" by simp
  moreover have "set (drop (Suc k) es) \<subseteq> set (drop k es)" by (rule set_drop_subset_set_drop) simp
  moreover have "sorted_wrt elem_less (take k es)" "sorted_wrt elem_less (drop (Suc k) es)" using s by (simp_all add: sorted_wrt_take sorted_wrt_drop)
  moreover have "elem_less x y" if "x \<in> set (take k es)" "y \<in> set (drop k es)" for x y
    using s that calculation(1) sorted_wrt_append by metis
  ultimately show ?thesis unfolding drop_elem_def sorted_wrt_append by blast
qed

lemma nodes_remove:
  assumes n: "nodes_ok h ps es" and k: "k < length es" and d: "distinct ps"
  shows "Suc k = length es \<Longrightarrow> nodes_ok h (remove_at k ps) (drop_elem k es)"
    and "Suc k < length es \<Longrightarrow> \<exists>h2. set_backward (ps ! Suc (Suc k)) (if k = 0 then None else Some (ps ! k)) h = Some h2
      \<and> nodes_ok h2 (remove_at k ps) (drop_elem k es)"
proof -
  have len: "length ps = Suc (length es)" using n by (simp add: nodes_ok_def)
  have kp: "Suc k < length ps" using k len by simp
  note nths = nth_remove_at [OF kp] nth_drop_elem [OF k]
  have old: "\<exists>n. h (ps ! Suc p) = Some n \<and> node_is ps es p n" if "p < length es" for p using n that by (auto simp: nodes_ok_def)
  have hd: "\<exists>n. h (remove_at k ps ! 0) = Some n \<and> z_obj n = None" using n by (simp add: nodes_ok_def nths)
  have front: "node_is (remove_at k ps) (drop_elem k es) p n" if "p < k" "node_is ps es p n" for p n
    using that by (simp add: node_is_def nths)
  have behind: "node_is (remove_at k ps) (drop_elem k es) p n" if "k < p" "node_is ps es (Suc p) n" for p n
    using that by (simp add: node_is_def nths)
  have nxt: "node_is (remove_at k ps) (drop_elem k es) k (n\<lparr>z_backward := (if k = 0 then None else Some (ps ! k))\<rparr>)" if "node_is ps es (Suc k) n" for n
    using that by (simp add: node_is_def nths)
  show "nodes_ok h (remove_at k ps) (drop_elem k es)" if ke: "Suc k = length es"
  proof -
    have "\<exists>n. h (remove_at k ps ! Suc p) = Some n \<and> node_is (remove_at k ps) (drop_elem k es) p n" if "p < k" for p
      using old [of p] front [of p] that ke by (auto simp: nths)
    then show ?thesis using hd len k ke kp by (auto simp: nodes_ok_def)
  qed
  show "\<exists>h2. set_backward (ps ! Suc (Suc k)) (if k = 0 then None else Some (ps ! k)) h = Some h2 \<and> nodes_ok h2 (remove_at k ps) (drop_elem k es)"
    if ke: "Suc k < length es"
  proof -
    obtain nn where nn: "h (ps ! Suc (Suc k)) = Some nn" "node_is ps es (Suc k) nn" using old [OF ke] by blast
    define h2 where "h2 = h(ps ! Suc (Suc k) \<mapsto> nn\<lparr>z_backward := (if k = 0 then None else Some (ps ! k))\<rparr>)"
    have keep: "h2 (ps ! p) = h (ps ! p)" if "p < length ps" "p \<noteq> Suc (Suc k)" for p
      using that d ke len by (simp add: h2_def nth_eq_iff_index_eq)
    have "\<exists>n. h2 (remove_at k ps ! Suc p) = Some n \<and> node_is (remove_at k ps) (drop_elem k es) p n" if p: "p < length es - 1" for p
    proof -
      consider "p < k" | "p = k" | "k < p" by linarith
      then show ?thesis
      proof cases
        case 1
        then show ?thesis using old [of p] front [of p] keep [of "Suc p"] ke len by (auto simp: nths)
      next
        case 2
        then show ?thesis using nxt [OF nn(2)] by (auto simp: nths h2_def)
      next
        case 3
        have "Suc p < length es" using p by simp
        then show ?thesis using old [of "Suc p"] behind [of p] keep [of "Suc (Suc p)"] 3 len by (auto simp: nths)
      qed
    qed
    moreover have "\<exists>n. h2 (remove_at k ps ! 0) = Some n \<and> z_obj n = None" using hd keep [of 0] len by (auto simp: nths)
    ultimately have "nodes_ok h2 (remove_at k ps) (drop_elem k es)" using len k kp by (simp add: nodes_ok_def)
    moreover have "set_backward (ps ! Suc (Suc k)) (if k = 0 then None else Some (ps ! k)) h = Some h2" using nn(1) by (simp add: set_backward_def h2_def)
    ultimately show ?thesis by blast
  qed
qed

lemma trim_level_ok:
  "tower h lvl ps hs \<Longrightarrow> \<exists>l. trim_level h (ps ! 0) lvl = Some l \<and> tower h l ps hs \<and> level_tight l hs"
proof (induction lvl)
  case 0
  then show ?case by (simp add: tower_def heights_ok_def)
next
  case (Suc l)
  note t = Suc.prems
  note hk = heights_okD [OF tower_heights [OF t]]
  show ?case
  proof (cases "l = 0")
    case True
    then show ?thesis using t by (simp add: level_tight_def)
  next
    case False
    have "l < hs ! 0" using hk(4,6) by simp
    from towerD [OF t hk(2) this] obtain lv q where q: "get_level h (ps ! 0) l = Some lv" "is_nxt hs 0 l q" "level_is ps 0 q (l < Suc l) lv" .
    show ?thesis
    proof (cases "q < length ps")
      case True
      then have "l < hs ! q" "0 < q" using q(2) hk(1) by (simp_all add: is_nxt_def)
      then have "hs ! q = Suc l" using hk(8) [of q] True hk(1) by simp
      then have "level_tight (Suc l) hs" using True \<open>0 < q\<close> hk(1) unfolding level_tight_def by (intro disjI2 exI [of _ q]) simp
      then show ?thesis using t q(1,3) True False by (simp add: level_is_def)
    next
      case nul: False
      then have "q = length hs" using q(2) hk(1) by (simp add: is_nxt_def)
      then have low: "\<forall>p < length hs. 0 < p \<longrightarrow> hs ! p \<le> l" using q(2) by (simp add: is_nxt_def)
      have "levels_ok h l ps hs" using t unfolding tower_def levels_ok_def level_is_def by (meson less_SucI)
      then have "tower h l ps hs" using t low False by (auto simp: tower_def heights_ok_def)
      then show ?thesis using Suc.IH q(1,3) nul False by (simp add: level_is_def)
    qed
  qed
qed

lemma for_levels_cong: "(\<And>i. i < n \<Longrightarrow> f (lo + i) = f' (lo + i)) \<Longrightarrow> for_levels f lo n h = for_levels f' lo n h"
proof (induction n)
  case (Suc n)
  then have "for_levels f lo n h = for_levels f' lo n h" "f (lo + n) = f' (lo + n)" by simp_all
  then show ?case by simp
qed simp

text \<open>The places of the levels in use, in a list that may be longer.\<close>

definition places :: "nat list \<Rightarrow> nat list \<Rightarrow> nat \<Rightarrow> nat \<Rightarrow> nat list \<Rightarrow> bool" where
  "places ps hs k n us \<longleftrightarrow> (\<forall>i < n. \<exists>p. us ! i = ps ! p \<and> is_prv hs k i p)"

lemma prv_list_places: "prv_list ps hs k n us \<Longrightarrow> places ps hs k n (map fst us)"
  unfolding prv_list_def places_def by (metis fst_conv nth_map)

lemma places_prv_list:
  assumes "places ps hs k n us"
  obtains us' where "prv_list ps hs k n us'" "\<And>i. i < n \<Longrightarrow> map fst us' ! i = us ! i"
proof -
  define us' where "us' = map (\<lambda>i. (us ! i, SOME p. us ! i = ps ! p \<and> is_prv hs k i p)) [0..<n]"
  have "us ! i = ps ! snd (us' ! i) \<and> is_prv hs k i (snd (us' ! i))" if i: "i < n" for i
    using assms i someI_ex [of "\<lambda>p. us ! i = ps ! p \<and> is_prv hs k i p"] by (simp add: places_def us'_def)
  then have "prv_list ps hs k n us'" by (auto simp: prv_list_def us'_def)
  moreover have "map fst us' ! i = us ! i" if "i < n" for i using that by (simp add: us'_def)
  ultimately show ?thesis using that by blast
qed

lemma places_remove:
  assumes "places ps hs k n us" and "Suc k < length ps" "length hs = length ps" and "m \<le> n"
  shows "places (remove_at k ps) (remove_at k hs) k m us"
  unfolding places_def
proof (intro allI impI)
  fix i assume "i < m"
  then have "i < n" using assms(4) by simp
  then obtain p where "us ! i = ps ! p" "is_prv hs k i p" using assms(1) unfolding places_def by blast
  then show "\<exists>p. us ! i = remove_at k ps ! p \<and> is_prv (remove_at k hs) k i p"
    using assms(2,3) by (intro exI [of _ p]) (auto simp: is_prv_def nth_remove_at)
qed

lemma zsl_ok_cong:
  assumes "\<And>p. p < length ps \<Longrightarrow> h' (ps ! p) = h (ps ! p)"
  shows "zsl_ok (h', z) ps hs es = zsl_ok (h, z) ps hs es"
proof -
  have "get_level h' (ps ! p) = get_level h (ps ! p)" if "p < length ps" for p using assms [OF that] by (simp add: get_level_def fun_eq_iff)
  then have "tower h' (zsl_level z) ps hs = tower h (zsl_level z) ps hs" using assms by (simp add: tower_def levels_ok_def cells_ok_def)
  moreover have "nodes_ok h' ps es = nodes_ok h ps es" using assms by (auto simp: nodes_ok_def)
  ultimately show ?thesis by (simp add: zsl_ok_def)
qed

lemma unlink_tower:
  assumes t: "tower h lvl ps hs" and k: "Suc k < length ps" and u: "places ps hs k lvl us" and small: "length ps < 2 ^ 32"
  shows "\<exists>g. for_levels (unlink_level (ps ! Suc k) us) 0 lvl h = Some (with_levels g h)
    \<and> get_level (with_levels g h) (ps ! Suc k) = get_level h (ps ! Suc k)
    \<and> tower (with_levels g h) lvl (remove_at k ps) (remove_at k hs)"
proof -
  note hk = heights_okD [OF tower_heights [OF t]]
  obtain vs where vs: "prv_list ps hs k lvl vs" "\<And>i. i < lvl \<Longrightarrow> map fst vs ! i = us ! i" using places_prv_list [OF u] by blast
  define X where "X i = the (get_level h (ps ! Suc k) i)" for i
  have X: "\<forall>i < hs ! Suc k. get_level h (ps ! Suc k) i = Some (X i)"
  proof (intro allI impI)
    fix i assume "i < hs ! Suc k"
    then obtain lv where "get_level h (ps ! Suc k) i = Some lv" using towerD [OF t k] by blast
    then show "get_level h (ps ! Suc k) i = Some (X i)" by (simp add: X_def)
  qed
  have lev: "\<exists>lv. get_level h (map fst vs ! i) i = Some lv \<and> map fst vs ! i \<noteq> ps ! Suc k \<and> (forward lv = Some (ps ! Suc k) \<longrightarrow> get_level h (ps ! Suc k) i = Some (X i))"
    if i: "i < lvl" for i
  proof -
    obtain p where p: "vs ! i = (ps ! p, p)" "p \<le> k" "i < hs ! p" using prv_listD [OF vs(1) i] by metis
    have pl: "p < length ps" using p(2) k by simp
    obtain lv q where q: "get_level h (ps ! p) i = Some lv" "is_nxt hs p i q" "level_is ps p q (i < lvl) lv" using towerD [OF t pl p(3)] .
    have "map fst vs ! i = ps ! p" using p(1) vs(1) i by (simp add: prv_list_def)
    moreover have "ps ! p \<noteq> ps ! Suc k" using p(2) pl k hk(3) by (simp add: nth_eq_iff_index_eq)
    moreover have "get_level h (ps ! Suc k) i = Some (X i)" if "forward lv = Some (ps ! Suc k)"
    proof -
      have "q < length ps" "ps ! q = ps ! Suc k" using q(3) that by (auto simp: level_is_def split: if_splits)
      then have "q = Suc k" using k hk(3) by (simp add: nth_eq_iff_index_eq)
      then have "i < hs ! Suc k" using q(2) k hk(1) by (simp add: is_nxt_def)
      then show ?thesis using X by simp
    qed
    ultimately show ?thesis using q(1) by auto
  qed
  define g where "g = unlinked (ps ! Suc k) (map fst vs) X lvl"
  have "for_levels (unlink_level (ps ! Suc k) us) 0 lvl h = for_levels (unlink_level (ps ! Suc k) (map fst vs)) 0 lvl h"
    by (rule for_levels_cong) (simp add: unlink_level_def vs(2) fun_eq_iff)
  also have "\<dots> = Some (with_levels g h)" unfolding g_def by (rule unlink_levels) (use lev in blast)
  finally have run: "for_levels (unlink_level (ps ! Suc k) us) 0 lvl h = Some (with_levels g h)" .
  have "g (ps ! Suc k) i lv = lv" for i lv using lev [of i] by (auto simp: g_def unlinked_def)
  then have "get_level (with_levels g h) (ps ! Suc k) i = get_level h (ps ! Suc k) i" for i
    by (cases "get_level h (ps ! Suc k) i") (simp_all add: get_with_levels)
  then have "get_level (with_levels g h) (ps ! Suc k) = get_level h (ps ! Suc k)" by (rule ext)
  moreover have "cells_ok h (remove_at k ps) (remove_at k hs)"
    using t k hk(1) by (auto simp: tower_def cells_ok_def nth_remove_at)
  then have "tower (with_levels g h) lvl (remove_at k ps) (remove_at k hs)"
    using heights_remove [OF tower_heights [OF t] k] levels_remove [OF t k vs(1) small X] by (simp add: tower_def cells_with_levels g_def)
  ultimately show ?thesis using run by blast
qed

lemma trim_level_le: "trim_level h a l = Some l' \<Longrightarrow> l' \<le> l"
  by (induction l) (auto split: bind_splits if_splits)

lemma zslDeleteNode_ok:
  assumes ok: "zsl_ok (h, z) ps hs es" and k: "k < length es" and u: "places ps hs k (zsl_level z) us"
  shows "\<exists>h' z'. zslDeleteNode (ps ! Suc k) us (h, z) = Some (h', z') \<and> h' (ps ! Suc k) \<noteq> None
    \<and> zsl_ok (h'(ps ! Suc k := None), z') (remove_at k ps) (remove_at k hs) (drop_elem k es) \<and> zsl_level z' \<le> zsl_level z"
proof -
  have t: "tower h (zsl_level z) ps hs" and n: "nodes_ok h ps es" and l: "list_ok z ps es" and srt: "sorted_wrt elem_less es"
    and small: "length es + 1 < 2 ^ 32" using ok by (simp_all add: zsl_ok_def)
  note hk = heights_okD [OF tower_heights [OF t]]
  have len: "length ps = Suc (length es)" "zsl_header z = ps ! 0" "zsl_length z = length es" using n l by (simp_all add: nodes_ok_def list_ok_def)
  have kp: "Suc k < length ps" using k len by simp
  define x where "x = ps ! Suc k"
  obtain g where g: "for_levels (unlink_level x us) 0 (zsl_level z) h = Some (with_levels g h)"
    "get_level (with_levels g h) x = get_level h x" "tower (with_levels g h) (zsl_level z) (remove_at k ps) (remove_at k hs)"
    using unlink_tower [OF t kp u] small len(1) unfolding x_def by auto
  define H where "H = with_levels g h"
  have nH: "nodes_ok H ps es" using n by (simp add: H_def nodes_with_levels)
  obtain m where m: "H x = Some m" "node_is ps es k m" using nH k by (auto simp: nodes_ok_def x_def)
  have bw: "z_backward m = (if k = 0 then None else Some (ps ! k))" using m(2) by (simp add: node_is_def)
  obtain lv where lv: "get_level H x 0 = Some lv" "forward lv = (if Suc (Suc k) < length ps then Some (ps ! Suc (Suc k)) else None)"
    using forward_0 [OF t kp] g(2) by (auto simp: H_def x_def)
  note rem = nodes_remove [OF nH k hk(3)]
  define tail where "tail = (if Suc (Suc k) < length ps then zsl_tail z else if k = 0 then None else Some (ps ! k))"
  have "\<exists>H2. (case forward lv of Some y \<Rightarrow> do { h \<leftarrow> set_backward y (z_backward m) H; Some (h, zsl_tail z) } | None \<Rightarrow> Some (H, z_backward m)) = Some (H2, tail)
      \<and> tower H2 (zsl_level z) (remove_at k ps) (remove_at k hs) \<and> nodes_ok H2 (remove_at k ps) (drop_elem k es) \<and> H2 x \<noteq> None"
  proof (cases "Suc (Suc k) < length ps")
    case True
    then have "Suc k < length es" using len by simp
    then obtain H2 where H2: "set_backward (ps ! Suc (Suc k)) (if k = 0 then None else Some (ps ! k)) H = Some H2" "nodes_ok H2 (remove_at k ps) (drop_elem k es)"
      using rem(2) by blast
    have "H2 x \<noteq> None" using H2(1) m(1) unfolding set_backward_Some by auto
    then show ?thesis using True lv(2) H2 bw set_backward_tower [OF H2(1)] g(3) by (simp add: tail_def H_def)
  next
    case False
    then have "Suc k = length es" using len kp by simp
    then show ?thesis using False lv(2) bw rem(1) g(3) m(1) by (simp add: tail_def H_def)
  qed
  then obtain H2 where H2: "(case forward lv of Some y \<Rightarrow> do { h \<leftarrow> set_backward y (z_backward m) H; Some (h, zsl_tail z) } | None \<Rightarrow> Some (H, z_backward m)) = Some (H2, tail)"
    "tower H2 (zsl_level z) (remove_at k ps) (remove_at k hs)" "nodes_ok H2 (remove_at k ps) (drop_elem k es)" "H2 x \<noteq> None" by blast
  have r0: "remove_at k ps ! 0 = ps ! 0" using kp by (simp add: nth_remove_at)
  obtain lvl where lvl: "trim_level H2 (ps ! 0) (zsl_level z) = Some lvl" "tower H2 lvl (remove_at k ps) (remove_at k hs)" "level_tight lvl (remove_at k hs)"
    using trim_level_ok [OF H2(2)] unfolding r0 by blast
  define z' where "z' = z\<lparr>zsl_tail := tail, zsl_level := lvl, zsl_length := u64 (int (zsl_length z) - 1)\<rparr>"
  have run: "zslDeleteNode x us (h, z) = Some (H2, z')"
    using g(1) m(1) lv(1) H2(1) lvl(1) len(2) by (simp add: zslDeleteNode_def H_def [symmetric] z'_def)
  have "int (zsl_length z) - 1 = int (length es - 1)" using len(3) k by simp
  then have "u64 (int (zsl_length z) - 1) = length es - 1" using small u64_id [of "int (length es - 1)"] by simp
  moreover have "tail = (if drop_elem k es = [] then None else Some (last (remove_at k ps)))"
  proof (cases "Suc (Suc k) < length ps")
    case True
    then show ?thesis using l k len by (auto simp: tail_def list_ok_def drop_elem_def remove_at_def last_append)
  next
    case False
    then have "Suc k = length es" using len kp by simp
    moreover have "take (Suc k) ps = take k ps @ [ps ! k]" using kp by (simp add: take_Suc_conv_app_nth)
    then have "remove_at k ps = take k ps @ [ps ! k]" using False by (simp add: remove_at_def)
    ultimately show ?thesis using False by (auto simp: tail_def drop_elem_def)
  qed
  ultimately have "list_ok z' (remove_at k ps) (drop_elem k es)" using len k r0 by (simp add: list_ok_def z'_def)
  moreover have "length (drop_elem k es) + 1 < 2 ^ 32" using k small by simp
  ultimately have z': "zsl_ok (H2, z') (remove_at k ps) (remove_at k hs) (drop_elem k es)"
    using lvl H2(3) sorted_drop_elem [OF srt, of k] by (simp add: zsl_ok_def z'_def)
  have "remove_at k ps ! p \<noteq> x" if "p < length (remove_at k ps)" for p
    using that kp hk(3) by (auto simp: nth_remove_at x_def nth_eq_iff_index_eq)
  then have "zsl_ok (H2(x := None), z') (remove_at k ps) (remove_at k hs) (drop_elem k es)" using z' zsl_ok_cong [of "remove_at k ps" "H2(x := None)" H2] by simp
  moreover have "lvl \<le> zsl_level z" using lvl(1) by (rule trim_level_le)
  ultimately show ?thesis using run H2(4) by (auto simp: x_def z'_def)
qed

text \<open>Deletion of an element.\<close>

lemma zslFreeNode_Some: "h a \<noteq> None \<Longrightarrow> zslFreeNode h a = Some (h(a := None))"
  by (auto simp: zslFreeNode_def)

definition delete_elem :: "'s elem \<Rightarrow> 's elem list \<Rightarrow> 's elem list" where "delete_elem e es = filter (\<lambda>x. x \<noteq> e) es"

lemma elem_at:
  assumes s: "sorted_wrt elem_less es" and k: "k = length (takeWhile (\<lambda>x. elem_less x e) es)"
  shows "e \<in> set es \<longleftrightarrow> k < length es \<and> es ! k = e"
    and "k < length es \<Longrightarrow> es ! k = e \<Longrightarrow> drop_elem k es = delete_elem e es"
proof -
  show "e \<in> set es \<longleftrightarrow> k < length es \<and> es ! k = e"
  proof
    assume "e \<in> set es"
    then obtain p where p: "p < length es" "es ! p = e" by (auto simp: in_set_conv_nth)
    have "\<not> p < k" using less_prefix [OF s p(1), of e] p(2) elem_less_irrefl k by metis
    moreover have "\<not> k < p"
    proof
      assume kp: "k < p"
      then have "elem_less (es ! k) e" using s p by (auto simp: sorted_wrt_iff_nth_less)
      then show False using less_prefix [OF s, of k e] kp p(1) k by auto
    qed
    ultimately show "k < length es \<and> es ! k = e" using p by (metis linorder_neqE_nat)
  qed (use nth_mem in auto)
  assume e: "k < length es" "es ! k = e"
  have "x \<noteq> e" if x: "x \<in> set (take k es)" for x
  proof -
    obtain p where "p < length (take k es)" "take k es ! p = x" using x unfolding in_set_conv_nth by blast
    then have "p < k" "x = es ! p" by simp_all
    then have "elem_less x e" using s e by (auto simp: sorted_wrt_iff_nth_less)
    then show ?thesis using elem_less_irrefl by metis
  qed
  moreover have "x \<noteq> e" if x: "x \<in> set (drop (Suc k) es)" for x
  proof -
    obtain p where "p < length (drop (Suc k) es)" "drop (Suc k) es ! p = x" using x unfolding in_set_conv_nth by blast
    then have "p < length es - Suc k" "x = es ! (Suc k + p)" using e(1) by simp_all
    then have "elem_less e x" using s e by (auto simp: sorted_wrt_iff_nth_less)
    then show ?thesis using elem_less_irrefl by metis
  qed
  ultimately have f: "filter (\<lambda>x. x \<noteq> e) (take k es @ e # drop (Suc k) es) = take k es @ drop (Suc k) es"
    by (simp add: filter_id_conv)
  have "take k es @ e # drop (Suc k) es = es" using id_take_nth_drop [OF e(1)] e(2) by simp
  then show "drop_elem k es = delete_elem e es" using f unfolding delete_elem_def drop_elem_def by simp
qed

lemma zslDelete_ok:
  assumes ok: "zsl_ok (h, z) ps hs es" and ob: "obj_holds ob t"
  shows "\<exists>h' z' ps' hs'. zslDelete s ob (h, z) = Some ((h', z'), (s, t) \<in> set es) \<and> zsl_ok (h', z') ps' hs' (delete_elem (s, t) es)
    \<and> set ps' \<subseteq> set ps"
proof -
  define k where "k = length (takeWhile (\<lambda>x. elem_less x (s, t)) es)"
  have t: "tower h (zsl_level z) ps hs" and n: "nodes_ok h ps es" and l: "list_ok z ps es" and srt: "sorted_wrt elem_less es"
    using ok by (simp_all add: zsl_ok_def)
  note hk = heights_okD [OF tower_heights [OF t]]
  have len: "length ps = Suc (length es)" "zsl_header z = ps ! 0" using n l by (simp_all add: nodes_ok_def list_ok_def)
  have go: "goes_to (sorts_before (\<lambda>c. c < 0) s ob) h ps k" unfolding k_def by (rule goes_to_elem [OF n srt ob]) (use ok in \<open>simp add: zsl_ok_def\<close>)
  then have k: "k < length ps" by (simp add: goes_to_def)
  obtain us where us: "search_from (sorts_before (\<lambda>c. c < 0) s ob) (h, z) = Some us" "prv_list ps hs k (zsl_level z) us" "us ! 0 = (ps ! k, k)"
    using search_from_prv [OF t len(2) go] by blast
  obtain lv where lv: "get_level h (ps ! k) 0 = Some lv" "forward lv = (if Suc k < length ps then Some (ps ! Suc k) else None)"
    using forward_0 [OF t k] by blast
  note at = elem_at [OF srt k_def]
  have keep: "delete_elem (s, t) es = es" if "(s, t) \<notin> set es" using that by (auto simp: delete_elem_def filter_id_conv)
  show ?thesis
  proof (cases "k < length es")
    case False
    then have "zslDelete s ob (h, z) = Some ((h, z), False)" using us(1,3) lv len by (simp add: zslDelete_def)
    then show ?thesis using at(1) False ok keep by auto
  next
    case True
    obtain m y where m: "h (ps ! Suc k) = Some m" "z_obj m = Some y" "obj_holds y (snd (es ! k))" "z_score m = fst (es ! k)"
      using n True by (auto simp: nodes_ok_def node_is_def)
    have "equalStringObjects False y ob = Some (snd (es ! k) = t)" using equalStringObjects_text [OF m(3) ob] by simp
    then have same: "(if s = z_score m then do { y \<leftarrow> z_obj m; equalStringObjects False y ob } else Some False) = Some (es ! k = (s, t))"
      using m by (auto simp: prod_eq_iff)
    have fw: "forward lv = Some (ps ! Suc k)" using lv(2) True len by simp
    show ?thesis
    proof (cases "es ! k = (s, t)")
      case False
      then have "zslDelete s ob (h, z) = Some ((h, z), False)" using us(1,3) lv(1) fw m(1) same by (simp add: zslDelete_def)
      then show ?thesis using at(1) False ok keep by auto
    next
      case hit: True
      obtain h' z' where d: "zslDeleteNode (ps ! Suc k) (map fst us) (h, z) = Some (h', z')" "h' (ps ! Suc k) \<noteq> None"
        "zsl_ok (h'(ps ! Suc k := None), z') (remove_at k ps) (remove_at k hs) (drop_elem k es)"
        using zslDeleteNode_ok [OF ok True prv_list_places [OF us(2)]] by blast
      have "zslDelete s ob (h, z) = Some ((h'(ps ! Suc k := None), z'), True)"
        using us(1,3) lv(1) fw m(1) same hit d(1) zslFreeNode_Some [of h', OF d(2)] by (simp add: zslDelete_def)
      moreover have "set (remove_at k ps) \<subseteq> set ps" by (auto simp: remove_at_def dest: in_set_takeD in_set_dropD)
      ultimately show ?thesis using at True hit d(3) by auto
    qed
  qed
qed

end
