(* ===== verification/Skiplist_Query.thy ===== *)
theory Skiplist_Query
  imports Skiplist_Correct
begin

text \<open>Ranks, ranges and the deletion of ranges of a skiplist, in terms of its list of elements.\<close>

lemma zsl_okD:
  assumes "zsl_ok (h, z) ps hs es"
  shows "tower h (zsl_level z) ps hs" "nodes_ok h ps es" "list_ok z ps es" "sorted_wrt elem_less es" "length es + 1 < 2 ^ 32"
    "length ps = Suc (length es)" "zsl_header z = ps ! 0"
  using assms by (auto simp: zsl_ok_def nodes_ok_def list_ok_def)

lemma node_elem:
  assumes "nodes_ok h ps es" and "p < length es"
  obtains n ob where "h (ps ! Suc p) = Some n" "node_is ps es p n" "z_obj n = Some ob" "obj_holds ob (snd (es ! p))" "z_score n = fst (es ! p)"
  using assms by (auto simp: nodes_ok_def node_is_def)

subsection \<open>Ranks\<close>

text \<open>A loop over the levels that stops when \<open>stop\<close> holds of the position.\<close>

lemma rank_loop_ok:
  assumes ok: "zsl_ok (h, z) ps hs es" and ob: "obj_holds ob t" and d: "distinct (map snd es)" and k: "k = length (takeWhile (\<lambda>x. elem_less x (s, t) \<or> x = (s, t)) es)"
    and e: "t \<in> snd ` set es \<longrightarrow> 0 < k \<and> es ! (k - 1) = (s, t)"
  shows "n \<le> zsl_level z \<Longrightarrow> p \<le> k \<Longrightarrow> (\<forall>i < n. i < hs ! p) \<Longrightarrow> 0 < n \<or> t \<notin> snd ` set es \<Longrightarrow>
    rank_loop s ob h n (ps ! p) p = Some (if t \<in> snd ` set es then k else 0)"
proof (induction n arbitrary: p)
  case (Suc n)
  note z = zsl_okD [OF ok]
  note hk = heights_okD [OF tower_heights [OF z(1)]]
  have kl: "k \<le> length es" by (simp add: k length_takeWhile_le)
  have pre: "(elem_less (es ! p) (s, t) \<or> es ! p = (s, t)) \<longleftrightarrow> p < k" if "p < length es" for p
    unfolding k by (rule takeWhile_prefix [OF _ that]) (metis z(4) elem_less_trans sorted_wrt_nth_less)
  have go: "goes_to (sorts_before (\<lambda>c. c \<le> 0) s ob) h ps k"
    by (rule goes_to_test [OF z(2) _ pre kl z(5)]) (simp_all add: sorts_before_node [OF _ ob])
  obtain q where q: "walk (sorts_before (\<lambda>c. c \<le> 0) s ob) h n (ps ! p) p = Some (ps ! q, q)" "is_prv hs k n q"
    using walk_prv [OF z(1) go, of n p] Suc.prems by auto
  have qk: "q \<le> k" "\<forall>i < n. i < hs ! q" using q(2) by (auto simp: is_prv_def)
  have "\<exists>m. h (ps ! q) = Some m \<and> (case z_obj m of None \<Rightarrow> Some False | Some y \<Rightarrow> equalStringObjects False y ob) = Some (0 < q \<and> snd (es ! (q - 1)) = t)"
  proof (cases q)
    case 0
    then show ?thesis using z(2) by (auto simp: nodes_ok_def)
  next
    case (Suc r)
    then have r: "r < length es" using qk(1) kl by simp
    obtain m y where m: "h (ps ! Suc r) = Some m" "z_obj m = Some y" "obj_holds y (snd (es ! r))" by (rule node_elem [OF z(2) r])
    then show ?thesis using Suc equalStringObjects_text [OF m(3) ob] by simp
  qed
  then obtain m where m: "h (ps ! q) = Some m"
    "(case z_obj m of None \<Rightarrow> Some False | Some y \<Rightarrow> equalStringObjects False y ob) = Some (0 < q \<and> snd (es ! (q - 1)) = t)" by blast
  have run: "rank_loop s ob h (Suc n) (ps ! p) p = (if 0 < q \<and> snd (es ! (q - 1)) = t then Some q else rank_loop s ob h n (ps ! q) q)"
    using q(1) m by simp
  show ?case
  proof (cases "0 < q \<and> snd (es ! (q - 1)) = t")
    case True
    have "q - 1 < length es" using conjunct1 [OF True] qk(1) kl by arith
    then have t: "t \<in> snd ` set es" using True nth_mem by force
    then have k': "0 < k" "es ! (k - 1) = (s, t)" using e by simp_all
    have "map snd es ! (q - 1) = map snd es ! (k - 1)" using True k' kl \<open>q - 1 < length es\<close> by simp
    then have "q - 1 = k - 1" using d kl k'(1) \<open>q - 1 < length es\<close> by (subst (asm) nth_eq_iff_index_eq) simp_all
    then have "q = k" using conjunct1 [OF True] k'(1) by arith
    then show ?thesis using run True t by simp
  next
    case False
    have "0 < n \<or> t \<notin> snd ` set es"
    proof (rule ccontr)
      assume a: "\<not> (0 < n \<or> t \<notin> snd ` set es)"
      then have "q = k" using q(2) prv_0 [of k hs q] kl hk(1,7) z(6) by simp
      then show False using False e a by simp
    qed
    have "rank_loop s ob h n (ps ! q) q = Some (if t \<in> snd ` set es then k else 0)" using Suc.IH [of q] Suc.prems(1) qk \<open>0 < n \<or> _\<close> by simp
    then show ?thesis unfolding run if_not_P [OF False] .
  qed
qed simp

lemma zslGetRank_places:
  assumes ok: "zsl_ok (h, z) ps hs es" and ob: "obj_holds ob t" and d: "distinct (map snd es)"
  shows "p < length es \<Longrightarrow> es ! p = (s, t) \<Longrightarrow> zslGetRank s ob (h, z) = Some (Suc p)"
    and "t \<notin> snd ` set es \<Longrightarrow> zslGetRank s ob (h, z) = Some 0"
proof -
  note z = zsl_okD [OF ok]
  note hk = heights_okD [OF tower_heights [OF z(1)]]
  define k where "k = length (takeWhile (\<lambda>x. elem_less x (s, t) \<or> x = (s, t)) es)"
  have pre: "(elem_less (es ! p) (s, t) \<or> es ! p = (s, t)) \<longleftrightarrow> p < k" if "p < length es" for p
    unfolding k_def by (rule takeWhile_prefix [OF _ that]) (metis z(4) elem_less_trans sorted_wrt_nth_less)
  have top: "\<forall>i < zsl_level z. i < hs ! 0" using hk(4,6) by simp
  show "zslGetRank s ob (h, z) = Some 0" if "t \<notin> snd ` set es"
    using rank_loop_ok [OF ok ob d k_def _ order_refl _ top] that by (simp add: zslGetRank_def z(7))
  assume p: "p < length es" "es ! p = (s, t)"
  have "k = Suc p"
  proof (rule antisym)
    show "Suc p \<le> k" using pre [OF p(1)] p(2) by simp
    show "k \<le> Suc p"
    proof (rule ccontr)
      assume "\<not> k \<le> Suc p"
      moreover have "k \<le> length es" by (simp add: k_def length_takeWhile_le)
      ultimately have q: "Suc p < length es" "Suc p < k" by simp_all
      then have "elem_less (es ! p) (es ! Suc p)" using z(4) by (auto simp: sorted_wrt_iff_nth_less)
      then show False using pre [OF q(1)] q(2) p(2) elem_less_asym elem_less_irrefl by metis
    qed
  qed
  moreover have "t \<in> snd ` set es" using p nth_mem by force
  ultimately show "zslGetRank s ob (h, z) = Some (Suc p)"
    using rank_loop_ok [OF ok ob d k_def _ order_refl _ top] p(2) hk(5) by (simp add: zslGetRank_def z(7))
qed

text \<open>The header is the element of rank 0.\<close>

lemma element_loop_ok:
  assumes ok: "zsl_ok (h, z) ps hs es" and k: "k = min rank (length es)"
  shows "n \<le> zsl_level z \<Longrightarrow> p \<le> k \<Longrightarrow> (\<forall>i < n. i < hs ! p) \<Longrightarrow> 0 < n \<or> length es < rank \<Longrightarrow>
    element_loop rank h n (ps ! p) p = Some (if rank \<le> length es then Some (ps ! rank) else None)"
proof (induction n arbitrary: p)
  case (Suc n)
  note z = zsl_okD [OF ok]
  note hk = heights_okD [OF tower_heights [OF z(1)]]
  have go: "goes_to (\<lambda>t n. Some (t \<le> rank)) h ps k" using k z(5,6) by (auto simp: goes_to_def)
  obtain q where q: "walk (\<lambda>t n. Some (t \<le> rank)) h n (ps ! p) p = Some (ps ! q, q)" "is_prv hs k n q"
    using walk_prv [OF z(1) go, of n p] Suc.prems by auto
  have qk: "q \<le> k" "\<forall>i < n. i < hs ! q" using q(2) by (auto simp: is_prv_def)
  have run: "element_loop rank h (Suc n) (ps ! p) p = (if q = rank then Some (Some (ps ! q)) else element_loop rank h n (ps ! q) q)"
    using q(1) by simp
  show ?case
  proof (cases "q = rank")
    case True
    then show ?thesis using run qk(1) k by simp
  next
    case False
    have "0 < n \<or> length es < rank"
    proof (rule ccontr)
      assume a: "\<not> (0 < n \<or> length es < rank)"
      then have "q = k" using q(2) prv_0 [of k hs q] k hk(1,7) z(6) by simp
      then show False using False a k by simp
    qed
    then show ?thesis using run False Suc.IH [of q] Suc.prems(1) qk by simp
  qed
qed simp

lemma zslGetElementByRank_ok:
  assumes ok: "zsl_ok (h, z) ps hs es"
  shows "zslGetElementByRank rank (h, z) = Some (if rank \<le> length es then Some (ps ! rank) else None)"
proof -
  note z = zsl_okD [OF ok]
  note hk = heights_okD [OF tower_heights [OF z(1)]]
  have top: "\<forall>i < zsl_level z. i < hs ! 0" using hk(4,6) by simp
  show ?thesis using element_loop_ok [OF ok refl order_refl _ top] hk(5) by (simp add: zslGetElementByRank_def z(7))
qed

subsection \<open>Ranges\<close>

text \<open>Tests of the nodes that depend on the element only.\<close>

definition node_holds :: "'s zskiplistNode \<Rightarrow> 's elem \<Rightarrow> bool" where
  "node_holds n e \<longleftrightarrow> (\<exists>ob. z_obj n = Some ob \<and> obj_holds ob (snd e)) \<and> z_score n = fst e"

lemma node_is_holds: "node_is ps es p n \<Longrightarrow> node_holds n (es ! p)"
  by (simp add: node_is_def node_holds_def)

definition reads :: "('s zskiplistNode \<Rightarrow> bool option) \<Rightarrow> ('s elem \<Rightarrow> bool) \<Rightarrow> bool" where
  "reads f P \<longleftrightarrow> (\<forall>n e. node_holds n e \<longrightarrow> f n = Some (P e))"

lemma readsD: "reads f P \<Longrightarrow> node_is ps es p n \<Longrightarrow> f n = Some (P (es ! p))"
  unfolding reads_def by (blast dest: node_is_holds)

text \<open>A test that, once true, stays true along the list.\<close>

definition up_closed :: "'s elem list \<Rightarrow> ('s elem \<Rightarrow> bool) \<Rightarrow> bool" where
  "up_closed es P \<longleftrightarrow> (\<forall>p q. p < q \<longrightarrow> q < length es \<longrightarrow> P (es ! p) \<longrightarrow> P (es ! q))"

lemma up_closed_nth: "up_closed es P \<Longrightarrow> P (es ! p) \<Longrightarrow> p \<le> q \<Longrightarrow> q < length es \<Longrightarrow> P (es ! q)"
  unfolding up_closed_def by (cases "p = q") (simp, metis le_neq_implies_less)

lemma up_closedI:
  assumes "sorted_wrt elem_less es" and "\<And>e f. e \<in> set es \<Longrightarrow> f \<in> set es \<Longrightarrow> elem_less e f \<Longrightarrow> P e \<Longrightarrow> P f"
  shows "up_closed es P"
  unfolding up_closed_def
proof (intro allI impI)
  fix p q assume "p < q" "q < length es" "P (es ! p)"
  then show "P (es ! q)" using assms(2) [of "es ! p" "es ! q"] sorted_wrt_nth_less [OF assms(1), of p q] by simp
qed

text \<open>Bounds: the elements from the minimum on, and those up to the maximum.\<close>

definition bounds_ok :: "'s elem list \<Rightarrow> 's bounds \<Rightarrow> ('s elem \<Rightarrow> bool) \<Rightarrow> ('s elem \<Rightarrow> bool) \<Rightarrow> bool" where
  "bounds_ok es b G L \<longleftrightarrow> reads (gte_min b) G \<and> reads (lte_max b) L \<and> up_closed es G \<and> up_closed es (\<lambda>e. \<not> L e)"

lemma prefix_len:
  assumes "up_closed es P" and "p < length es"
  shows "\<not> P (es ! p) \<longleftrightarrow> p < length (takeWhile (\<lambda>e. \<not> P e) es)"
  by (rule takeWhile_prefix [OF _ assms(2)]) (use assms(1) in \<open>auto simp: up_closed_def\<close>)

lemma ends_in_range_ok:
  assumes ok: "zsl_ok (h, z) ps hs es" and b: "bounds_ok es b G L"
  shows "ends_in_range b (h, z) = Some (es \<noteq> [] \<and> G (last es) \<and> L (hd es))"
proof (cases "es = []")
  case True
  then show ?thesis using ok by (simp add: ends_in_range_def zsl_ok_def list_ok_def)
next
  case False
  note z = zsl_okD [OF ok]
  obtain m where m: "h (ps ! Suc (length es - 1)) = Some m" "node_is ps es (length es - 1) m" using node_elem [OF z(2), of "length es - 1"] False by auto
  obtain f where f: "h (ps ! Suc 0) = Some f" "node_is ps es 0 f" using node_elem [OF z(2), of 0] False by auto
  obtain lv where lv: "get_level h (ps ! 0) 0 = Some lv" "forward lv = (if Suc 0 < length ps then Some (ps ! Suc 0) else None)"
    using forward_0 [OF z(1), of 0] z(6) by auto
  have "last ps = ps ! length es" using z(6) by (subst last_conv_nth) auto
  then have tl: "zsl_tail z = Some (ps ! Suc (length es - 1))" using z(3) False by (simp add: list_ok_def)
  have "gte_min b m = Some (G (last es))" "lte_max b f = Some (L (hd es))"
    using b readsD [OF _ m(2)] readsD [OF _ f(2)] False by (simp_all add: bounds_ok_def last_conv_nth hd_conv_nth)
  then show ?thesis using m(1) f(1) lv tl z(6,7) False by (simp add: ends_in_range_def)
qed

text \<open>A test that says at every node whether it is one of the first \<open>k\<close>.\<close>

lemma goes_to_reads:
  assumes "nodes_ok h ps es" and "reads f P" and "\<And>p. p < length es \<Longrightarrow> P (es ! p) \<longleftrightarrow> p < k" and "k \<le> length es" and "length es + 1 < 2 ^ 32"
  shows "goes_to (\<lambda>r. f) h ps k"
  by (rule goes_to_test [OF assms(1) _ assms(3,4,5)]) (rule readsD [OF assms(2)])

lemma reads_not: "reads f P \<Longrightarrow> reads (\<lambda>n. do { ge \<leftarrow> f n; Some (\<not> ge) }) (\<lambda>e. \<not> P e)"
  by (simp add: reads_def)

definition within :: "('s elem \<Rightarrow> bool) \<Rightarrow> ('s elem \<Rightarrow> bool) \<Rightarrow> 's elem \<Rightarrow> bool" where "within G L e \<longleftrightarrow> G e \<and> L e"

definition first_place :: "nat list \<Rightarrow> 's elem list \<Rightarrow> ('s elem \<Rightarrow> bool) \<Rightarrow> nat option \<Rightarrow> bool" where
  "first_place ps es R x \<longleftrightarrow> (case x of None \<Rightarrow> \<forall>e \<in> set es. \<not> R e
     | Some a \<Rightarrow> \<exists>p < length es. a = ps ! Suc p \<and> R (es ! p) \<and> (\<forall>q < p. \<not> R (es ! q)))"

definition last_place :: "nat list \<Rightarrow> 's elem list \<Rightarrow> ('s elem \<Rightarrow> bool) \<Rightarrow> nat option \<Rightarrow> bool" where
  "last_place ps es R x \<longleftrightarrow> (case x of None \<Rightarrow> \<forall>e \<in> set es. \<not> R e
     | Some a \<Rightarrow> \<exists>p < length es. a = ps ! Suc p \<and> R (es ! p) \<and> (\<forall>q < length es. p < q \<longrightarrow> \<not> R (es ! q)))"

lemma not_ends:
  assumes b: "up_closed es G" "up_closed es (\<lambda>e. \<not> L e)" and n: "\<not> (es \<noteq> [] \<and> G (last es) \<and> L (hd es))" and e: "e \<in> set es"
  shows "\<not> (G e \<and> L e)"
proof
  assume r: "G e \<and> L e"
  obtain p where p: "p < length es" "es ! p = e" using e by (auto simp: in_set_conv_nth)
  have ends: "last es = es ! (length es - 1)" "hd es = es ! 0" using p(1) by (subst last_conv_nth hd_conv_nth, auto)+
  have "G (last es)" using up_closed_nth [OF b(1), of p "length es - 1"] p r by (simp add: ends)
  moreover have "L (hd es)" using up_closed_nth [OF b(2), of 0 p] p r by (auto simp: ends)
  ultimately show False using n e by auto
qed

definition range_test :: "'s::linorder elem list \<Rightarrow> ('s elem \<Rightarrow> bool) \<Rightarrow> ('s elem \<Rightarrow> bool) \<Rightarrow> bool \<Rightarrow> bool" where
  "range_test es G L v \<longleftrightarrow> (if v then es \<noteq> [] \<and> G (last es) \<and> L (hd es) else \<forall>e \<in> set es. \<not> within G L e)"

lemma first_in_range_ok:
  assumes ok: "zsl_ok (h, z) ps hs es" and b: "bounds_ok es b G L" and v: "is_in = Some v" "range_test es G L v"
  shows "\<exists>x. first_in_range b is_in (h, z) = Some x \<and> first_place ps es (within G L) x"
proof (cases v)
  case False
  then show ?thesis using v by (simp add: first_in_range_def range_test_def first_place_def)
next
  case True
  note z = zsl_okD [OF ok]
  define k where "k = length (takeWhile (\<lambda>e. \<not> G e) es)"
  have G: "\<not> G (es ! p) \<longleftrightarrow> p < k" if "p < length es" for p unfolding k_def by (rule prefix_len [OF _ that]) (use b in \<open>simp add: bounds_ok_def\<close>)
  have kl: "k \<le> length es" by (simp add: k_def length_takeWhile_le)
  have "es \<noteq> []" "G (last es)" using v True by (simp_all add: range_test_def)
  then have "es \<noteq> []" "G (es ! (length es - 1))" by (simp_all add: last_conv_nth)
  then have k: "k < length es" using G [of "length es - 1"] by (cases es) simp_all
  have "goes_to (\<lambda>r n. do { ge \<leftarrow> gte_min b n; Some (\<not> ge) }) h ps k"
    by (rule goes_to_reads [OF z(2) reads_not G kl z(5)]) (use b in \<open>simp_all add: bounds_ok_def\<close>)
  then obtain us where us: "search_from (\<lambda>r n. do { ge \<leftarrow> gte_min b n; Some (\<not> ge) }) (h, z) = Some us" "us ! 0 = (ps ! k, k)"
    using search_from_prv [OF z(1,7)] by blast
  obtain lv where lv: "get_level h (ps ! k) 0 = Some lv" "forward lv = (if Suc k < length ps then Some (ps ! Suc k) else None)"
    using forward_0 [OF z(1), of k] k z(6) by auto
  obtain n where n: "h (ps ! Suc k) = Some n" "node_is ps es k n" using node_elem [OF z(2) k] .
  have "lte_max b n = Some (L (es ! k))" using b readsD [OF _ n(2)] by (simp add: bounds_ok_def)
  then have run: "first_in_range b is_in (h, z) = Some (if L (es ! k) then Some (ps ! Suc k) else None)"
    using us lv n(1) v(1) True k z(6) by (simp add: first_in_range_def)
  have "\<not> L (es ! p)" if "\<not> L (es ! k)" "k \<le> p" "p < length es" for p
    using up_closed_nth [where P = "\<lambda>e. \<not> L e", OF _ that] b by (simp add: bounds_ok_def)
  then have "\<not> L (es ! k) \<Longrightarrow> \<forall>e \<in> set es. \<not> within G L e" using G unfolding within_def by (metis in_set_conv_nth not_less)
  moreover have "L (es ! k) \<Longrightarrow> within G L (es ! k) \<and> (\<forall>q < k. \<not> within G L (es ! q))" using G k by (auto simp: within_def)
  ultimately show ?thesis using run k by (auto simp: first_place_def)
qed

lemma last_in_range_ok:
  assumes ok: "zsl_ok (h, z) ps hs es" and b: "bounds_ok es b G L" and v: "is_in = Some v" "range_test es G L v"
  shows "\<exists>x. last_in_range b is_in (h, z) = Some x \<and> last_place ps es (within G L) x"
proof (cases v)
  case False
  then show ?thesis using v by (simp add: last_in_range_def range_test_def last_place_def)
next
  case True
  note z = zsl_okD [OF ok]
  define k where "k = length (takeWhile (\<lambda>e. \<not> \<not> L e) es)"
  have L: "\<not> \<not> L (es ! p) \<longleftrightarrow> p < k" if "p < length es" for p unfolding k_def
    by (rule prefix_len [where P = "\<lambda>e. \<not> L e", OF _ that]) (use b in \<open>simp add: bounds_ok_def\<close>)
  then have L: "L (es ! p) \<longleftrightarrow> p < k" if "p < length es" for p using that by simp
  have kl: "k \<le> length es" by (simp add: k_def length_takeWhile_le)
  have "es \<noteq> []" "L (hd es)" using v True by (simp_all add: range_test_def)
  then have "es \<noteq> []" "L (es ! 0)" by (simp_all add: hd_conv_nth)
  then obtain j where j: "k = Suc j" "j < length es" using L [of 0] kl by (cases k) simp_all
  have "goes_to (\<lambda>r. lte_max b) h ps k" by (rule goes_to_reads [OF z(2) _ L kl z(5)]) (use b in \<open>simp_all add: bounds_ok_def\<close>)
  then obtain us where us: "search_from (\<lambda>r n. lte_max b n) (h, z) = Some us" "us ! 0 = (ps ! k, k)"
    using search_from_prv [OF z(1,7)] by blast
  obtain n where n: "h (ps ! Suc j) = Some n" "node_is ps es j n" using node_elem [OF z(2) j(2)] .
  have "gte_min b n = Some (G (es ! j))" using b readsD [OF _ n(2)] by (simp add: bounds_ok_def)
  then have run: "last_in_range b is_in (h, z) = Some (if G (es ! j) then Some (ps ! Suc j) else None)"
    using us n(1) v(1) True j by (simp add: last_in_range_def)
  have "\<not> G (es ! p)" if "\<not> G (es ! j)" "p \<le> j" for p
    using up_closed_nth [where P = G, OF _ _ that(2) j(2)] that(1) b by (auto simp: bounds_ok_def)
  then have "\<not> G (es ! j) \<Longrightarrow> \<forall>e \<in> set es. \<not> within G L e" using L j(1) unfolding within_def by (metis in_set_conv_nth less_Suc_eq_le)
  moreover have "G (es ! j) \<Longrightarrow> within G L (es ! j) \<and> (\<forall>q < length es. j < q \<longrightarrow> \<not> within G L (es ! q))" using L j by (auto simp: within_def)
  ultimately show ?thesis using run j(2) by (auto simp: last_place_def)
qed

subsection \<open>Deletion of ranges\<close>

text \<open>The elements from place \<open>k\<close> on, \<open>m\<close> of them, leave the list; \<open>vs\<close> are their objects.\<close>

definition cut :: "nat \<Rightarrow> nat \<Rightarrow> 'a list \<Rightarrow> 'a list" where "cut k m es = take k es @ drop (k + m) es"

lemma cut_Suc: "k < length es \<Longrightarrow> cut k m (drop_elem k es) = cut k (Suc m) es"
  by (simp add: cut_def drop_elem_def min_def add.commute)

definition texts_of :: "robj list \<Rightarrow> 's elem list \<Rightarrow> bool" where
  "texts_of vs es \<longleftrightarrow> list_all2 (\<lambda>v e. obj_holds v (snd e)) vs es"

lemma delete_loop_ok:
  fixes rem :: "robj \<Rightarrow> 'd \<Rightarrow> 'd"
  assumes del: "\<And>v d. del v d = Some (rem v d)" and inside: "\<And>r. reads (inside r) (Q r)"
  shows "zsl_ok (h, z) ps hs es \<Longrightarrow> places ps hs k (zsl_level z) us \<Longrightarrow> k + m \<le> length es \<Longrightarrow> (\<forall>j < m. Q (r + j) (es ! (k + j))) \<Longrightarrow>
    (k + m < length es \<longrightarrow> \<not> Q (r + m) (es ! (k + m))) \<Longrightarrow> r + m < 2 ^ 64 \<Longrightarrow> c + m < 2 ^ 64 \<Longrightarrow>
    \<exists>h' z' ps' hs' vs. delete_loop del inside us (if k < length es then Some (ps ! Suc k) else None) r (h, z) d c = Some ((h', z'), fold rem vs d, c + m)
      \<and> zsl_ok (h', z') ps' hs' (cut k m es) \<and> texts_of vs (take m (drop k es))"
proof (induction m arbitrary: h z ps hs es r d c)
  case 0
  have "delete_loop del inside us (if k < length es then Some (ps ! Suc k) else None) r (h, z) d c = Some ((h, z), d, c)"
  proof (cases "k < length es")
    case True
    obtain n where n: "h (ps ! Suc k) = Some n" "node_is ps es k n" using node_elem [OF zsl_okD(2) [OF 0(1)] True] .
    then show ?thesis using 0(5) True readsD [OF inside n(2)] by (subst delete_loop.simps) simp
  qed (subst delete_loop.simps, simp)
  then have "delete_loop del inside us (if k < length es then Some (ps ! Suc k) else None) r (h, z) d c = Some ((h, z), fold rem [] d, c + 0)" by simp
  moreover have "zsl_ok (h, z) ps hs (cut k 0 es)" "texts_of [] (take 0 (drop k es))" using 0(1) by (simp_all add: cut_def texts_of_def)
  ultimately show ?case by blast
next
  case (Suc m)
  have k: "k < length es" using Suc.prems(3) by simp
  note z = zsl_okD [OF Suc.prems(1)]
  obtain n v where n: "h (ps ! Suc k) = Some n" "node_is ps es k n" "z_obj n = Some v" "obj_holds v (snd (es ! k))"
    using node_elem [OF z(2) k] .
  obtain lv where lv: "get_level h (ps ! Suc k) 0 = Some lv" "forward lv = (if Suc (Suc k) < length ps then Some (ps ! Suc (Suc k)) else None)"
    using forward_0 [OF z(1), of "Suc k"] k z(6) by auto
  obtain h' z' where d: "zslDeleteNode (ps ! Suc k) us (h, z) = Some (h', z')" "h' (ps ! Suc k) \<noteq> None"
    "zsl_ok (h'(ps ! Suc k := None), z') (remove_at k ps) (remove_at k hs) (drop_elem k es)" "zsl_level z' \<le> zsl_level z"
    using zslDeleteNode_ok [OF Suc.prems(1) k Suc.prems(2)] by blast
  have kp: "Suc k < length ps" using k z(6) by simp
  have nxt: "forward lv = (if k < length (drop_elem k es) then Some (remove_at k ps ! Suc k) else None)"
    using lv(2) k z(6) nth_remove_at [OF kp] by auto
  have "Q r (es ! k)" using Suc.prems(4) by auto
  then have "inside r n = Some True" using readsD [OF inside n(2)] by simp
  moreover have counts: "u64 (int r + 1) = r + 1" "u64 (int c + 1) = c + 1" using Suc.prems(6,7) by (simp_all add: u64_def nat_add_distrib)
  ultimately have run: "delete_loop del inside us (if k < length es then Some (ps ! Suc k) else None) r (h, z) d c =
    delete_loop del inside us (forward lv) (r + 1) (h'(ps ! Suc k := None), z') (rem v d) (c + 1)"
    using k n lv(1) d(1) del zslFreeNode_Some [of h', OF d(2)] counts by (subst delete_loop.simps) simp
  have "places (remove_at k ps) (remove_at k hs) k (zsl_level z') us"
    by (rule places_remove [OF Suc.prems(2) kp _ d(4)]) (use heights_okD [OF tower_heights [OF z(1)]] in simp)
  moreover have "k + m \<le> length (drop_elem k es)" using Suc.prems(3) k by simp
  moreover have "\<forall>j < m. Q (Suc r + j) (drop_elem k es ! (k + j))" using Suc.prems(4) nth_drop_elem [OF k] by force
  moreover have "k + m < length (drop_elem k es) \<longrightarrow> \<not> Q (Suc r + m) (drop_elem k es ! (k + m))"
    using Suc.prems(5) k nth_drop_elem [OF k, of "k + m"] by auto
  moreover have "Suc r + m < 2 ^ 64" "c + 1 + m < 2 ^ 64" using Suc.prems(6,7) by simp_all
  ultimately obtain h1 z1 ps1 hs1 vs where r: "delete_loop del inside us (forward lv) (Suc r) (h'(ps ! Suc k := None), z') (rem v d) (c + 1)
      = Some ((h1, z1), fold rem vs (rem v d), c + 1 + m)" "zsl_ok (h1, z1) ps1 hs1 (cut k m (drop_elem k es))" "texts_of vs (take m (drop k (drop_elem k es)))"
    using Suc.IH [OF d(3), where r = "Suc r" and d = "rem v d" and c = "c + 1"] unfolding nxt by blast
  have "drop k es = es ! k # drop k (drop_elem k es)" using k by (simp add: drop_elem_def Cons_nth_drop_Suc)
  then have "texts_of (v # vs) (take (Suc m) (drop k es))" using r(3) n(4) by (simp add: texts_of_def)
  moreover have "delete_loop del inside us (if k < length es then Some (ps ! Suc k) else None) r (h, z) d c = Some ((h1, z1), fold rem (v # vs) d, c + Suc m)"
    using run r(1) by simp
  ultimately show ?case using r(2) cut_Suc [OF k] by metis
qed

lemma delete_range_ok:
  assumes ok: "zsl_ok (h, z) ps hs es" and go: "goes_to go h ps k"
    and del: "\<And>v d. del v d = Some (rem v d)" and inside: "\<And>r. reads (inside r) (Q r)"
    and m: "k + m \<le> length es" "\<forall>j < m. Q (Suc k + j) (es ! (k + j))" "k + m < length es \<longrightarrow> \<not> Q (Suc k + m) (es ! (k + m))"
  shows "\<exists>h' z' ps' hs' vs. delete_range del go inside (h, z) d = Some ((h', z'), fold rem vs d, m)
    \<and> zsl_ok (h', z') ps' hs' (cut k m es) \<and> texts_of vs (take m (drop k es))"
proof -
  note z = zsl_okD [OF ok]
  have k: "k < length ps" using go by (simp add: goes_to_def)
  obtain us where us: "search_from go (h, z) = Some us" "prv_list ps hs k (zsl_level z) us" "us ! 0 = (ps ! k, k)"
    using search_from_prv [OF z(1,7) go] by blast
  obtain lv where lv: "get_level h (ps ! k) 0 = Some lv" "forward lv = (if Suc k < length ps then Some (ps ! Suc k) else None)"
    using forward_0 [OF z(1) k] by blast
  have "forward lv = (if k < length es then Some (ps ! Suc k) else None)" using lv(2) z(6) by simp
  moreover have pos: "u64 (int k + 1) = Suc k" using k z(5,6) by (simp add: u64_def nat_add_distrib)
  ultimately have "delete_range del go inside (h, z) d = delete_loop del inside (map fst us) (if k < length es then Some (ps ! Suc k) else None) (Suc k) (h, z) d 0"
    using us(1,3) lv(1) pos by (simp add: delete_range_def)
  then show ?thesis using m(1) z(5) delete_loop_ok [OF del inside ok prv_list_places [OF us(2)] m, where d = d and c = 0] by simp
qed

text \<open>The elements of a range are a stretch of the list.\<close>

lemma range_stretch:
  assumes b: "up_closed es G" "up_closed es (\<lambda>e. \<not> L e)" and k: "k = length (takeWhile (\<lambda>e. \<not> G e) es)"
  obtains m where "k + m \<le> length es" "\<forall>j < m. L (es ! (k + j))" "k + m < length es \<longrightarrow> \<not> L (es ! (k + m))"
    "cut k m es = filter (\<lambda>e. \<not> within G L e) es" "take m (drop k es) = filter (within G L) es"
proof -
  define A B C m where "A = take k es" and "B = takeWhile L (drop k es)" and "C = dropWhile L (drop k es)" and "m = length B"
  have es: "es = A @ B @ C" by (simp add: A_def B_def C_def)
  have kl: "k \<le> length es" by (simp add: k length_takeWhile_le)
  then have lA: "length A = k" by (simp add: A_def)
  have G: "\<not> G (es ! p) \<longleftrightarrow> p < k" if "p < length es" for p unfolding k by (rule prefix_len [OF b(1) that])
  have a: "\<not> G e" if "e \<in> set A" for e
  proof -
    obtain i where "i < k" "i < length es" "es ! i = e" using \<open>e \<in> set A\<close> unfolding A_def by (metis in_set_conv_nth length_take min_less_iff_conj nth_take)
    then show "\<not> G e" using G by blast
  qed
  have bc: "G e" if x: "e \<in> set (B @ C)" for e
  proof -
    obtain j where "j < length (B @ C)" "(B @ C) ! j = e" using x unfolding in_set_conv_nth by blast
    then show "G e" using G [of "k + j"] lA by (simp add: es nth_append)
  qed
  have bl: "L e" if "e \<in> set B" for e using that unfolding B_def by (rule set_takeWhileD [THEN conjunct2])
  have cl: "\<not> L e" if e: "e \<in> set C" for e
  proof -
    obtain c D where C: "C = c # D" using e by (cases C) auto
    then have c: "\<not> L c" unfolding C_def by (metis dropWhile_eq_Cons_conv)
    obtain j where j: "j < length C" "C ! j = e" using e unfolding in_set_conv_nth by blast
    show "\<not> L e" using up_closed_nth [OF b(2), of "k + length B" "k + length B + j"] c C j lA by (simp add: es nth_append)
  qed
  have f: "filter (within G L) es = B" "filter (\<lambda>e. \<not> within G L e) es = A @ C"
    unfolding es within_def using a bc bl cl by (simp_all add: filter_empty_conv filter_id_conv)
  have "cut k m es = A @ C" "take m (drop k es) = B" using lA by (simp_all add: cut_def es m_def)
  moreover have "L (es ! (k + j))" if "j < m" for j using that bl [of "B ! j"] lA by (simp add: es nth_append m_def)
  moreover have "\<not> L (es ! (k + m))" if "k + m < length es" using that cl [of "C ! 0"] lA by (cases C) (simp_all add: es nth_append m_def)
  moreover have "k + m \<le> length es" using lA by (simp add: es m_def)
  ultimately show thesis using that [of m] f by simp
qed

lemma delete_range_bounds:
  assumes ok: "zsl_ok (h, z) ps hs es" and g: "reads g (\<lambda>e. \<not> G e)" and l: "reads l L" and b: "up_closed es G" "up_closed es (\<lambda>e. \<not> L e)"
    and del: "\<And>v d. del v d = Some (rem v d)"
  shows "\<exists>h' z' ps' hs' vs. delete_range del (\<lambda>r. g) (\<lambda>r. l) (h, z) d = Some ((h', z'), fold rem vs d, length (filter (within G L) es))
    \<and> zsl_ok (h', z') ps' hs' (filter (\<lambda>e. \<not> within G L e) es) \<and> texts_of vs (filter (within G L) es)"
proof -
  note z = zsl_okD [OF ok]
  define k where "k = length (takeWhile (\<lambda>e. \<not> G e) es)"
  obtain m where m: "k + m \<le> length es" "\<forall>j < m. L (es ! (k + j))" "k + m < length es \<longrightarrow> \<not> L (es ! (k + m))"
    "cut k m es = filter (\<lambda>e. \<not> within G L e) es" "take m (drop k es) = filter (within G L) es"
    using range_stretch [OF b k_def] by blast
  have "goes_to (\<lambda>r. g) h ps k"
    by (rule goes_to_reads [OF z(2) g _ _ z(5)]) (use prefix_len [OF b(1)] in \<open>simp_all add: k_def length_takeWhile_le\<close>)
  moreover have "length (filter (within G L) es) = m" using m(1) unfolding m(5) [symmetric] by simp
  ultimately show ?thesis using delete_range_ok [OF ok _ del, where go = "\<lambda>r. g" and k = k and inside = "\<lambda>r. l" and Q = "\<lambda>r. L" and m = m and d = d] l m by simp
qed

end
