(* ===== verification/Skiplist_Ranges.thy ===== *)
theory Skiplist_Ranges
  imports Skiplist_Query
begin

text \<open>
  The empty skiplist, and ranges of scores and of ranks: what the tests of \<open>zslIsInRange\<close> say of the list, and
  which elements the deletions of such ranges take out of it.
\<close>

subsection \<open>Creation\<close>

lemma set_levels:
  assumes "h a = Some n" and "k \<le> length (z_levels n)"
  shows "for_levels (\<lambda>j. set_level a j lv) 0 k h = Some (h(a \<mapsto> n\<lparr>z_levels := replicate k lv @ drop k (z_levels n)\<rparr>))"
  using assms(2)
proof (induction k)
  case (Suc k)
  have "(replicate k lv @ drop k (z_levels n))[k := lv] = replicate (Suc k) lv @ drop (Suc k) (z_levels n)"
    using Suc.prems by (simp add: list_update_append Cons_nth_drop_Suc [symmetric] replicate_append_same)
  moreover have "set_level a k lv (h(a \<mapsto> n\<lparr>z_levels := L\<rparr>)) = Some (h(a \<mapsto> n\<lparr>z_levels := L[k := lv]\<rparr>))" if "k < length L" for L
    using that by (simp add: set_level_def check_def)
  ultimately show ?case using Suc by (simp del: fun_upd_apply)
qed (use assms(1) in \<open>simp add: fun_upd_idem\<close>)

lemma zslCreate_ok: "\<exists>h' z'. zslCreate junk a h = Some (h', z') \<and> zsl_ok (h', z') [a] [ZSKIPLIST_MAXLEVEL] []
    \<and> (\<forall>b. b \<noteq> a \<longrightarrow> h' b = h b)"
proof -
  define n where "n = zslCreateNode junk ZSKIPLIST_MAXLEVEL 0 None"
  define lv where "lv = \<lparr>forward = None, span = 0\<rparr>"
  have n: "length (z_levels n) = ZSKIPLIST_MAXLEVEL" "z_obj n = None" by (simp_all add: n_def zslCreateNode_def)
  define m where "m = n\<lparr>z_levels := replicate ZSKIPLIST_MAXLEVEL lv, z_backward := None\<rparr>"
  define h' where "h' = h(a \<mapsto> m)"
  define z' where "z' = \<lparr>zsl_header = a, zsl_tail = None, zsl_length = 0, zsl_level = 1\<rparr>"
  have l: "for_levels (\<lambda>j. set_level a j lv) 0 ZSKIPLIST_MAXLEVEL (h(a \<mapsto> n)) = Some (h(a \<mapsto> n\<lparr>z_levels := replicate ZSKIPLIST_MAXLEVEL lv\<rparr>))"
    using set_levels [of "h(a \<mapsto> n)" a n ZSKIPLIST_MAXLEVEL lv] n(1) by simp
  then have run: "zslCreate junk a h = Some (h', z')"
    by (simp add: zslCreate_def n_def [symmetric] lv_def [symmetric] set_backward_def h'_def z'_def m_def)
  have "get_level h' a i = Some lv" if "i < ZSKIPLIST_MAXLEVEL" for i using that by (simp add: get_level_def h'_def m_def check_def)
  then have "levels_ok h' 1 [a] [ZSKIPLIST_MAXLEVEL]"
    unfolding levels_ok_def by (auto simp: is_nxt_def level_is_def lv_def intro!: exI [of _ "Suc 0"])
  then have "tower h' 1 [a] [ZSKIPLIST_MAXLEVEL]"
    by (simp add: tower_def heights_ok_def cells_ok_def h'_def m_def ZSKIPLIST_MAXLEVEL_def)
  then have "zsl_ok (h', z') [a] [ZSKIPLIST_MAXLEVEL] []"
    using n(2) by (simp add: zsl_ok_def z'_def nodes_ok_def list_ok_def level_tight_def h'_def m_def)
  moreover have "\<forall>b. b \<noteq> a \<longrightarrow> h' b = h b" by (simp add: h'_def)
  ultimately show ?thesis using run by blast
qed

text \<open>The elements of a range, in a list that is cut at both ends.\<close>

lemma sorted_scores: "elem_less e f \<Longrightarrow> fst e \<le> fst f"
  by (auto simp: elem_less_def)

definition score_ge :: "'s::linorder zrangespec \<Rightarrow> 's elem \<Rightarrow> bool" where "score_ge spec e \<longleftrightarrow> zslValueGteMin (fst e) spec"
definition score_le :: "'s::linorder zrangespec \<Rightarrow> 's elem \<Rightarrow> bool" where "score_le spec e \<longleftrightarrow> zslValueLteMax (fst e) spec"

lemma score_closed:
  assumes "sorted_wrt elem_less es"
  shows "up_closed es (score_ge spec)" "up_closed es (\<lambda>e. \<not> score_le spec e)"
proof -
  show "up_closed es (score_ge spec)"
  proof (rule up_closedI [OF assms])
    fix e f assume "elem_less e f" "score_ge spec e"
    then have "fst e \<le> fst f" "score_ge spec e" by (auto dest: sorted_scores)
    then show "score_ge spec f" unfolding score_ge_def zslValueGteMin_def by (auto split: if_splits)
  qed
  show "up_closed es (\<lambda>e. \<not> score_le spec e)"
  proof (rule up_closedI [OF assms])
    fix e f assume "elem_less e f" "\<not> score_le spec e"
    then have "fst e \<le> fst f" "\<not> score_le spec e" by (auto dest: sorted_scores)
    then show "\<not> score_le spec f" unfolding score_le_def zslValueLteMax_def by (auto split: if_splits)
  qed
qed

text \<open>The elements whose scores lie in the range.\<close>

definition in_scores :: "'s::linorder zrangespec \<Rightarrow> 's elem \<Rightarrow> bool" where
  "in_scores spec e \<longleftrightarrow>
     (if r_minex spec then r_min spec < fst e else r_min spec \<le> fst e) \<and> (if r_maxex spec then fst e < r_max spec else fst e \<le> r_max spec)"

lemma in_scores_range: "within (score_ge spec) (score_le spec) = in_scores spec"
  by (rule ext) (simp add: within_def score_ge_def score_le_def in_scores_def zslValueGteMin_def zslValueLteMax_def)

lemma score_bounds_ok:
  assumes "sorted_wrt elem_less es"
  shows "bounds_ok es (score_bounds spec) (score_ge spec) (score_le spec)"
  using score_closed [OF assms, of spec]
  by (simp add: bounds_ok_def reads_def node_holds_def score_bounds_def score_ge_def score_le_def)

lemma zslIsInRange_test:
  assumes ok: "zsl_ok (h, z) ps hs es"
  shows "\<exists>v. zslIsInRange spec (h, z) = Some v \<and> range_test es (score_ge spec) (score_le spec) v"
proof (cases "r_min spec > r_max spec \<or> r_min spec = r_max spec \<and> (r_minex spec \<or> r_maxex spec)")
  case True
  then have "\<not> in_scores spec e" for e by (auto simp: in_scores_def split: if_splits)
  then show ?thesis using True by (intro exI [of _ False]) (simp add: zslIsInRange_def range_test_def in_scores_range)
next
  case False
  note b = score_bounds_ok [OF zsl_okD(4) [OF ok], of spec]
  define v where "v \<longleftrightarrow> es \<noteq> [] \<and> score_ge spec (last es) \<and> score_le spec (hd es)"
  have "zslIsInRange spec (h, z) = Some v" unfolding zslIsInRange_def if_not_P [OF False] v_def by (rule ends_in_range_ok [OF ok b])
  moreover have "range_test es (score_ge spec) (score_le spec) v"
    using not_ends [of es "score_ge spec" "score_le spec"] b by (auto simp: range_test_def v_def bounds_ok_def within_def)
  ultimately show ?thesis by blast
qed

lemma zslDeleteRangeByScore_ok:
  fixes rem :: "robj \<Rightarrow> 'd \<Rightarrow> 'd"
  assumes ok: "zsl_ok (h, z) ps hs es" and del: "\<And>v d. del v d = Some (rem v d)"
  shows "\<exists>h' z' ps' hs' vs. zslDeleteRangeByScore del spec (h, z) d = Some ((h', z'), fold rem vs d, length (filter (in_scores spec) es))
    \<and> zsl_ok (h', z') ps' hs' (filter (\<lambda>e. \<not> in_scores spec e) es) \<and> texts_of vs (filter (in_scores spec) es)"
proof -
  define g :: "'a zskiplistNode \<Rightarrow> bool option" where "g = (\<lambda>n. Some (if r_minex spec then z_score n \<le> r_min spec else z_score n < r_min spec))"
  define l :: "'a zskiplistNode \<Rightarrow> bool option" where "l = (\<lambda>n. Some (if r_maxex spec then z_score n < r_max spec else z_score n \<le> r_max spec))"
  have "reads g (\<lambda>e. \<not> score_ge spec e)" "reads l (score_le spec)"
    by (auto simp: reads_def node_holds_def g_def l_def score_ge_def score_le_def zslValueGteMin_def zslValueLteMax_def)
  from delete_range_bounds [where del = del and rem = rem and d = d, OF ok this score_closed [OF zsl_okD(4) [OF ok]] del]
  show ?thesis by (simp add: zslDeleteRangeByScore_def g_def l_def in_scores_range)
qed

lemma zslDeleteRangeByRank_ok:
  fixes rem :: "robj \<Rightarrow> 'd \<Rightarrow> 'd"
  assumes ok: "zsl_ok (h, z) ps hs es" and del: "\<And>v d. del v d = Some (rem v d)" and start: "1 \<le> start"
  shows "\<exists>h' z' ps' hs' vs. zslDeleteRangeByRank del start finish (h, z) d = Some ((h', z'), fold rem vs d, length (take (finish + 1 - start) (drop (start - 1) es)))
    \<and> zsl_ok (h', z') ps' hs' (take (start - 1) es @ drop (max finish (start - 1)) es) \<and> texts_of vs (take (finish + 1 - start) (drop (start - 1) es))"
proof -
  note z = zsl_okD [OF ok]
  define k where "k = min (start - 1) (length es)"
  define m where "m = min (finish + 1 - start) (length es - k)"
  have go: "goes_to (\<lambda>r n. Some (r < start)) h ps k" using z(5,6) start by (auto simp: goes_to_def k_def)
  have m: "k + m \<le> length es" "\<forall>j < m. Suc k + j \<le> finish" "k + m < length es \<longrightarrow> \<not> Suc k + m \<le> finish"
    using start by (auto simp: m_def k_def)
  have "length (take (finish + 1 - start) (drop (start - 1) es)) = m" "take m (drop k es) = take (finish + 1 - start) (drop (start - 1) es)"
    "cut k m es = take (start - 1) es @ drop (max finish (start - 1)) es"
    using start by (auto simp: m_def k_def cut_def min_def max_def)
  moreover have rd: "reads (\<lambda>n. Some (r \<le> finish)) (\<lambda>e. r \<le> finish)" for r by (simp add: reads_def)
  ultimately show ?thesis
    using delete_range_ok [where del = del and rem = rem and inside = "\<lambda>r n. Some (r \<le> finish)" and Q = "\<lambda>r e. r \<le> finish" and d = d, OF ok go del rd m(1)] m(2,3)
    by (simp add: zslDeleteRangeByRank_def)
qed

end
