(* ===== verification/Skiplist_Lex.thy ===== *)
theory Skiplist_Lex
  imports Skiplist_Ranges
begin

text \<open>Ranges of texts, in a skiplist whose elements have the same score.\<close>

text \<open>The comparison of a text with a bound, which has the text \<open>m\<close>.\<close>

definition lex_cmp :: "lex_kind \<Rightarrow> byte list \<Rightarrow> byte list \<Rightarrow> int" where
  "lex_cmp k m t = (case k of Minstring \<Rightarrow> 1 | Maxstring \<Rightarrow> - 1 | Plain \<Rightarrow> text_cmp t m)"

definition lex_ge :: "zlexrangespec \<Rightarrow> byte list \<Rightarrow> 's elem \<Rightarrow> bool" where
  "lex_ge spec m e \<longleftrightarrow> (if lex_minex spec then lex_cmp (fst (lex_min spec)) m (snd e) > 0 else lex_cmp (fst (lex_min spec)) m (snd e) \<ge> 0)"

definition lex_le :: "zlexrangespec \<Rightarrow> byte list \<Rightarrow> 's elem \<Rightarrow> bool" where
  "lex_le spec m e \<longleftrightarrow> (if lex_maxex spec then lex_cmp (fst (lex_max spec)) m (snd e) < 0 else lex_cmp (fst (lex_max spec)) m (snd e) \<le> 0)"

definition in_lex :: "zlexrangespec \<Rightarrow> byte list \<Rightarrow> byte list \<Rightarrow> 's elem \<Rightarrow> bool" where
  "in_lex spec m m' e \<longleftrightarrow> lex_ge spec m e \<and> lex_le spec m' e"

lemma in_lex_range: "within (lex_ge spec m) (lex_le spec m') = in_lex spec m m'"
  by (rule ext) (simp add: within_def in_lex_def)

text \<open>The bounds hold the texts \<open>m\<close> and \<open>m'\<close>.\<close>

definition lex_texts :: "zlexrangespec \<Rightarrow> byte list \<Rightarrow> byte list \<Rightarrow> bool" where
  "lex_texts spec m m' \<longleftrightarrow> obj_holds (snd (lex_min spec)) m \<and> obj_holds (snd (lex_max spec)) m'"

definition one_score :: "'s elem list \<Rightarrow> bool" where "one_score es \<longleftrightarrow> (\<forall>e \<in> set es. fst e = fst (hd es))"

lemma compare_bound:
  assumes "obj_holds v t" and "obj_holds ob m"
  shows "compareStringObjectsForLexRange (Plain, v) (k, ob) = Some (lex_cmp k m t)"
  using compareStringObjects_text [OF assms, of False]
  by (cases k) (simp_all add: compareStringObjectsForLexRange_def lex_cmp_def)

lemma reads_obj:
  fixes P :: "'s elem \<Rightarrow> bool"
  assumes "\<And>v e. obj_holds v (snd e) \<Longrightarrow> f v = Some (P e)"
  shows "reads (\<lambda>n. do { v \<leftarrow> z_obj n; f v }) P"
  unfolding reads_def
proof (intro allI impI)
  fix n :: "'s zskiplistNode" and e assume "node_holds n e"
  then obtain ob where "z_obj n = Some ob" "obj_holds ob (snd e)" unfolding node_holds_def by blast
  then show "do { v \<leftarrow> z_obj n; f v } = Some (P e)" using assms by simp
qed

lemma lex_values:
  assumes "lex_texts spec m m'" and "obj_holds v (snd e)"
  shows "zslLexValueGteMin v spec = Some (lex_ge spec m e)" "zslLexValueLteMax v spec = Some (lex_le spec m' e)"
proof -
  obtain k ob k' ob' where k: "lex_min spec = (k, ob)" "lex_max spec = (k', ob')" by (meson surj_pair)
  have "obj_holds ob m" "obj_holds ob' m'" using assms(1) k by (simp_all add: lex_texts_def)
  then show "zslLexValueGteMin v spec = Some (lex_ge spec m e)" "zslLexValueLteMax v spec = Some (lex_le spec m' e)"
    using compare_bound [OF assms(2)] by (simp_all add: zslLexValueGteMin_def zslLexValueLteMax_def lex_ge_def lex_le_def k)
qed

lemma lex_bounds_read:
  assumes "lex_texts spec m m'"
  shows "reads (gte_min (lex_bounds spec)) (lex_ge spec m)" "reads (lte_max (lex_bounds spec)) (lex_le spec m')"
  unfolding lex_bounds_def bounds.select_convs using lex_values [OF assms] by (blast intro: reads_obj)+

lemma lex_cmp_mono: "text_cmp t u < 0 \<Longrightarrow> 0 \<le> lex_cmp k m t \<Longrightarrow> 0 < lex_cmp k m u"
  "text_cmp t u < 0 \<Longrightarrow> lex_cmp k m u \<le> 0 \<Longrightarrow> lex_cmp k m t < 0"
  using text_less_trans [of m t u] text_less_trans [of t u m] text_cmp_minus [of m t] text_cmp_minus [of m u] text_cmp_0 [of t m] text_cmp_0 [of u m]
  by (cases k; cases "t = m"; cases "u = m"; force simp: lex_cmp_def)+

lemma lex_closed:
  assumes s: "sorted_wrt elem_less es" and one: "one_score es"
  shows "up_closed es (lex_ge spec m)" "up_closed es (\<lambda>e. \<not> lex_le spec m e)"
proof -
  have t: "text_cmp (snd e) (snd f) < 0" if "e \<in> set es" "f \<in> set es" "elem_less e f" for e f
  proof -
    have "fst e = fst f" using one that(1,2) unfolding one_score_def by metis
    then show ?thesis using that(3) by (simp add: elem_less_def)
  qed
  show "up_closed es (lex_ge spec m)"
  proof (rule up_closedI [OF s])
    fix e f assume e: "e \<in> set es" "f \<in> set es" "elem_less e f" "lex_ge spec m e"
    then show "lex_ge spec m f" using lex_cmp_mono(1) [OF t [OF e(1-3)], of "fst (lex_min spec)" m] by (auto simp: lex_ge_def split: if_splits)
  qed
  show "up_closed es (\<lambda>e. \<not> lex_le spec m e)"
  proof (rule up_closedI [OF s])
    fix e f assume e: "e \<in> set es" "f \<in> set es" "elem_less e f" "\<not> lex_le spec m e"
    then show "\<not> lex_le spec m f" using lex_cmp_mono(2) [OF t [OF e(1-3)], where k = "fst (lex_max spec)" and m = m] by (auto simp: lex_le_def split: if_splits)
  qed
qed

lemma lex_bounds_ok:
  assumes "zsl_ok (h, z) ps hs es" and "lex_texts spec m m'" "one_score es"
  shows "bounds_ok es (lex_bounds spec) (lex_ge spec m) (lex_le spec m')"
  unfolding bounds_ok_def using lex_bounds_read [OF assms(2)] lex_closed [OF zsl_okD(4) [OF assms(1)] assms(3)] by blast

lemma zslDeleteRangeByLex_ok:
  fixes rem :: "robj \<Rightarrow> 'd \<Rightarrow> 'd"
  assumes ok: "zsl_ok (h, z) ps hs es" and del: "\<And>v d. del v d = Some (rem v d)" and lex: "lex_texts spec m m'" "one_score es"
  shows "\<exists>h' z' ps' hs' vs. zslDeleteRangeByLex del spec (h, z) d = Some ((h', z'), fold rem vs d, length (filter (in_lex spec m m') es))
    \<and> zsl_ok (h', z') ps' hs' (filter (\<lambda>e. \<not> in_lex spec m m' e) es) \<and> texts_of vs (filter (in_lex spec m m') es)"
proof -
  define g :: "'a zskiplistNode \<Rightarrow> bool option" where "g = (\<lambda>n. do { v \<leftarrow> z_obj n; ge \<leftarrow> zslLexValueGteMin v spec; Some (\<not> ge) })"
  define l :: "'a zskiplistNode \<Rightarrow> bool option" where "l = (\<lambda>n. do { v \<leftarrow> z_obj n; zslLexValueLteMax v spec })"
  have g: "reads g (\<lambda>e. \<not> lex_ge spec m e)" unfolding g_def by (rule reads_obj) (simp add: lex_values(1) [OF lex(1)])
  have l: "reads l (lex_le spec m')" unfolding l_def by (rule reads_obj) (rule lex_values(2) [OF lex(1)])
  from delete_range_bounds [where del = del and rem = rem and d = d, OF ok g l lex_closed [OF zsl_okD(4) [OF ok] lex(2)] del]
  show ?thesis by (simp add: zslDeleteRangeByLex_def g_def l_def in_lex_range)
qed

text \<open>The bounds are two ordinary strings, or have different texts, or belong to the range.\<close>

definition lex_plain :: "zlexrangespec \<Rightarrow> byte list \<Rightarrow> byte list \<Rightarrow> bool" where
  "lex_plain spec m m' \<longleftrightarrow> m \<noteq> m' \<or> \<not> lex_minex spec \<and> \<not> lex_maxex spec \<or> fst (lex_min spec) = Plain \<and> fst (lex_max spec) = Plain"

lemma empty_lex:
  assumes "fst (lex_min spec) = Plain" "fst (lex_max spec) = Plain" "text_cmp m m' > 0 \<or> m = m' \<and> (lex_minex spec \<or> lex_maxex spec)"
  shows "\<not> in_lex spec m m' e"
  using assms text_cmp_minus [of m m'] text_cmp_minus [of m "snd e"] text_cmp_minus [of m' "snd e"] text_less_trans [of m "snd e" m'] text_less_trans [of m' m "snd e"]
    text_less_trans [of "snd e" m' m] text_cmp_0 [of "snd e" m] text_cmp_0 [of "snd e" m']
  by (cases "snd e = m"; cases "snd e = m'") (auto simp: in_lex_def lex_ge_def lex_le_def lex_cmp_def split: if_splits)

lemma zslIsInLexRange_test:
  assumes ok: "zsl_ok (h, z) ps hs es" and lex: "lex_texts spec m m'" "one_score es" "lex_plain spec m m'"
  shows "\<exists>v. zslIsInLexRange spec (h, z) = Some v \<and> range_test es (lex_ge spec m) (lex_le spec m') v"
proof -
  obtain k ob k' ob' where k: "lex_min spec = (k, ob)" "lex_max spec = (k', ob')" by (meson surj_pair)
  have o: "obj_holds ob m" "obj_holds ob' m'" using lex(1) k by (simp_all add: lex_texts_def)
  have d: "compareStringObjects False ob ob' = Some (text_cmp m m')" using compareStringObjects_text [OF o] by simp
  obtain c where c: "compareStringObjectsForLexRange (lex_min spec) (lex_max spec) = Some c" "c > 1 \<longrightarrow> k = Plain \<and> k' = Plain \<and> text_cmp m m' > 0"
    using d by (cases k; cases k') (auto simp: k compareStringObjectsForLexRange_def)
  note b = lex_bounds_ok [OF ok lex(1,2)]
  show ?thesis
  proof (cases "c > 1 \<or> text_cmp m m' = 0 \<and> (lex_minex spec \<or> lex_maxex spec)")
    case True
    then have "\<not> in_lex spec m m' e" for e :: "'a elem"
      using c(2) lex(3) text_cmp_0 [of m m'] k by (intro empty_lex) (auto simp: lex_plain_def)
    then show ?thesis using True c(1) d by (intro exI [of _ False]) (simp add: zslIsInLexRange_def k range_test_def in_lex_range)
  next
    case False
    define v where "v \<longleftrightarrow> es \<noteq> [] \<and> lex_ge spec m (last es) \<and> lex_le spec m' (hd es)"
    have "zslIsInLexRange spec (h, z) = ends_in_range (lex_bounds spec) (h, z)" using False c(1) d by (auto simp: zslIsInLexRange_def k)
    also have "\<dots> = Some v" unfolding v_def by (rule ends_in_range_ok [OF ok b])
    finally have "zslIsInLexRange spec (h, z) = Some v" .
    moreover have "range_test es (lex_ge spec m) (lex_le spec m') v"
      using not_ends [of es "lex_ge spec m" "lex_le spec m'"] b by (auto simp: range_test_def v_def bounds_ok_def within_def)
    ultimately show ?thesis by blast
  qed
qed

end
