(* ===== verification/Skiplist_Run.thy ===== *)
theory Skiplist_Run
  imports Skiplist_Lex
begin

text \<open>
  Runs of operations on a skiplist, from \<open>zslCreate\<close> on, against a sorted list of elements; and what the
  queries answer.
\<close>

subsection \<open>Operations\<close>











subsection \<open>A step\<close>





subsection \<open>Release\<close>



subsection \<open>Runs\<close>



subsection \<open>A list of one element\<close>

lemma level_1: "zslRandomLevel (\<lambda>i. 65535) = Some 1"
  by (simp add: zslRandomLevel_def level_loop.simps ZSKIPLIST_MAXLEVEL_def)

lemma one_elem:
  assumes "obj_holds ob t"
  shows "\<exists>h z ps hs. zsl_ok (h, z) ps hs [(s :: 's :: {linorder, zero}, t)]"
proof -
  define junk where "junk = \<lparr>z_obj = None, z_score = (0 :: 's), z_backward = None, z_levels = []\<rparr>"
  obtain h z where ok: "zsl_ok (h, z) [0] [ZSKIPLIST_MAXLEVEL] ([] :: 's elem list)" using zslCreate_ok [of junk 0 "\<lambda>b. None"] by blast
  show ?thesis using zslInsert_ok [where junk = junk and x = 1 and s = s, OF ok _ assms _ level_1] by (auto simp: insert_elem_def)
qed


subsection \<open>Ranks and ranges\<close>

text \<open>
  C29. Ranks in skiplists. \<open>zslGetRank\<close> gives the place of an element of the list, counted from 1, and 0 for a text
  that is not in the list; \<open>zslGetElementByRank\<close> gives the node of the element at a rank, the header for the rank 0,
  and no node for a rank behind the last.
\<close>

theorem zsl_ranks:
  assumes "zsl_ok (h, z) ps hs es" and "distinct (map snd es)" and "obj_holds ob t"
  shows "(p < length es \<and> es ! p = (s, t) \<longrightarrow> zslGetRank s ob (h, z) = Some (Suc p)) \<and> (t \<notin> snd ` set es \<longrightarrow> zslGetRank s ob (h, z) = Some 0)
    \<and> (1 \<le> r \<and> r \<le> length es \<longrightarrow> (\<exists>b n. zslGetElementByRank r (h, z) = Some (Some b) \<and> h b = Some n \<and> node_holds n (es ! (r - 1))))
    \<and> zslGetElementByRank 0 (h, z) = Some (Some (zsl_header z)) \<and> (length es < r \<longrightarrow> zslGetElementByRank r (h, z) = Some None)"
proof -
  note z = zsl_okD [OF assms(1)]
  have "\<exists>n. h (ps ! r) = Some n \<and> node_holds n (es ! (r - 1))" if r: "1 \<le> r \<and> r \<le> length es"
  proof -
    obtain k where k: "r = Suc k" "k < length es" using r by (cases r) auto
    then show ?thesis using node_elem [OF z(2) k(2)] node_is_holds by (metis diff_Suc_1)
  qed
  then show ?thesis using zslGetRank_places [OF assms(1,3,2)] zslGetElementByRank_ok [OF assms(1)] z(7) by auto
qed

theorem zsl_ranks_witness:
  "\<exists>h z. zslGetRank (5 :: int) (createObject (Sds \<lparr>s_len = 1, s_free = 0, s_buf = [97, 0]\<rparr>)) (h, z) = Some 1
     \<and> zslGetElementByRank 2 (h, z) = Some None"
proof -
  have ob: "obj_holds (createObject (Sds \<lparr>s_len = 1, s_free = 0, s_buf = [97, 0]\<rparr>)) [97]" using raw_object_holds [of "[97]"] by simp
  obtain h z ps hs where ok: "zsl_ok (h, z) ps hs [(5 :: int, [97])]" using one_elem [OF ob] by blast
  show ?thesis using zsl_ranks [OF ok _ ob, of 0 5 2] by auto
qed

text \<open>The node of the first and of the last element with a property, if there is one.\<close>

definition first_node :: "'s zheap \<Rightarrow> 's elem list \<Rightarrow> ('s elem \<Rightarrow> bool) \<Rightarrow> nat option \<Rightarrow> bool" where
  "first_node h es R x \<longleftrightarrow> (case x of None \<Rightarrow> \<forall>e \<in> set es. \<not> R e
     | Some b \<Rightarrow> \<exists>p n. p < length es \<and> h b = Some n \<and> node_holds n (es ! p) \<and> R (es ! p) \<and> (\<forall>q < p. \<not> R (es ! q)))"

definition last_node :: "'s zheap \<Rightarrow> 's elem list \<Rightarrow> ('s elem \<Rightarrow> bool) \<Rightarrow> nat option \<Rightarrow> bool" where
  "last_node h es R x \<longleftrightarrow> (case x of None \<Rightarrow> \<forall>e \<in> set es. \<not> R e
     | Some b \<Rightarrow> \<exists>p n. p < length es \<and> h b = Some n \<and> node_holds n (es ! p) \<and> R (es ! p) \<and> (\<forall>q < length es. p < q \<longrightarrow> \<not> R (es ! q)))"

lemma place_node:
  assumes ok: "zsl_ok (h, z) ps hs es"
  shows "first_place ps es R x \<Longrightarrow> first_node h es R x" "last_place ps es R x \<Longrightarrow> last_node h es R x"
proof -
  have "\<exists>n. h (ps ! Suc p) = Some n \<and> node_holds n (es ! p)" if "p < length es" for p
    using node_elem [OF zsl_okD(2) [OF ok] that] node_is_holds by metis
  then show "first_place ps es R x \<Longrightarrow> first_node h es R x" "last_place ps es R x \<Longrightarrow> last_node h es R x"
    by (auto simp: first_place_def last_place_def first_node_def last_node_def split: option.splits)
qed

text \<open>
  C28. Ranges in skiplists. \<open>zslFirstInRange\<close> and \<open>zslLastInRange\<close> give the first and the last node whose score is
  in the range, bounds that do not belong to it included, and no node when there is none; so do
  \<open>zslFirstInLexRange\<close> and \<open>zslLastInLexRange\<close> for ranges of texts, when all scores are equal and the bounds are not
  a special one and a string of the same text.
\<close>

theorem zsl_ranges:
  assumes ok: "zsl_ok (h, z) ps hs es"
  shows "(\<exists>x. zslFirstInRange spec (h, z) = Some x \<and> first_node h es (in_scores spec) x)
    \<and> (\<exists>x. zslLastInRange spec (h, z) = Some x \<and> last_node h es (in_scores spec) x)
    \<and> (lex_texts lspec m m' \<and> one_score es \<and> lex_plain lspec m m' \<longrightarrow>
        (\<exists>x. zslFirstInLexRange lspec (h, z) = Some x \<and> first_node h es (in_lex lspec m m') x)
      \<and> (\<exists>x. zslLastInLexRange lspec (h, z) = Some x \<and> last_node h es (in_lex lspec m m') x))"
proof (intro conjI impI)
  note s = score_bounds_ok [OF zsl_okD(4) [OF ok], of spec]
  obtain v where v: "zslIsInRange spec (h, z) = Some v" "range_test es (score_ge spec) (score_le spec) v" using zslIsInRange_test [OF ok] by blast
  show "\<exists>x. zslFirstInRange spec (h, z) = Some x \<and> first_node h es (in_scores spec) x"
    using first_in_range_ok [OF ok s v] place_node(1) [OF ok] by (auto simp: zslFirstInRange_def in_scores_range)
  show "\<exists>x. zslLastInRange spec (h, z) = Some x \<and> last_node h es (in_scores spec) x"
    using last_in_range_ok [OF ok s v] place_node(2) [OF ok] by (auto simp: zslLastInRange_def in_scores_range)
  assume l: "lex_texts lspec m m' \<and> one_score es \<and> lex_plain lspec m m'"
  then have b: "bounds_ok es (lex_bounds lspec) (lex_ge lspec m) (lex_le lspec m')" using lex_bounds_ok [OF ok] by blast
  obtain w where w: "zslIsInLexRange lspec (h, z) = Some w" "range_test es (lex_ge lspec m) (lex_le lspec m') w"
    using zslIsInLexRange_test [OF ok] l by blast
  show "\<exists>x. zslFirstInLexRange lspec (h, z) = Some x \<and> first_node h es (in_lex lspec m m') x"
    using first_in_range_ok [OF ok b w] place_node(1) [OF ok] by (auto simp: zslFirstInLexRange_def in_lex_range)
  show "\<exists>x. zslLastInLexRange lspec (h, z) = Some x \<and> last_node h es (in_lex lspec m m') x"
    using last_in_range_ok [OF ok b w] place_node(2) [OF ok] by (auto simp: zslLastInLexRange_def in_lex_range)
qed

theorem zsl_ranges_witness:
  "\<exists>h z b n. zslFirstInRange \<lparr>r_min = 5, r_max = 7, r_minex = False, r_maxex = True\<rparr> (h, z) = Some (Some b) \<and> h b = Some n \<and> z_score n = (5 :: int)
     \<and> zslLastInRange \<lparr>r_min = 5, r_max = 7, r_minex = True, r_maxex = True\<rparr> (h, z) = Some None"
proof -
  have ob: "obj_holds (createObject (Sds \<lparr>s_len = 1, s_free = 0, s_buf = [97, 0]\<rparr>)) [97]" using raw_object_holds [of "[97]"] by simp
  obtain h z ps hs where ok: "zsl_ok (h, z) ps hs [(5 :: int, [97])]" using one_elem [OF ob] by blast
  have "\<exists>b n. zslFirstInRange \<lparr>r_min = 5, r_max = 7, r_minex = False, r_maxex = True\<rparr> (h, z) = Some (Some b) \<and> h b = Some n \<and> z_score n = 5"
    using conjunct1 [OF zsl_ranges [OF ok, of "\<lparr>r_min = 5, r_max = 7, r_minex = False, r_maxex = True\<rparr>"]]
    by (auto simp: first_node_def in_scores_def node_holds_def split: option.splits)
  moreover have "zslLastInRange \<lparr>r_min = 5, r_max = 7, r_minex = True, r_maxex = True\<rparr> (h, z) = Some None"
    using conjunct1 [OF conjunct2 [OF zsl_ranges [OF ok, of "\<lparr>r_min = 5, r_max = 7, r_minex = True, r_maxex = True\<rparr>"]]]
    by (auto simp: last_node_def in_scores_def split: option.splits)
  ultimately show ?thesis by blast
qed



end
