(* ===== verification/Spec2Isabelle.thy ===== *)
theory Spec2Isabelle
  imports Redis_Util Redis_Glob Redis_Crc Slowlog Dict_Scan Dict_Run Intset Rdb_Correct Sds_Args Ziplist_Overrun
    Client_Inline Skiplist_Run
begin

text \<open>
  A verification development for Redis 3.0 (the annotated source under \<open>src/redis-3.0/src\<close>).

  The program. Redis keeps a dictionary of keys in memory and serves commands on it from one thread.
  Below the commands lies a layer of data structures of its own: dynamic strings, doubly linked lists,
  hash tables with incremental rehashing, packed sets of integers, skiplists, and the objects that wrap them;
  beside it the code that checks, matches, compresses and writes the data to the dump file. This layer
  is what the development models: sequential C code on explicit memory, where the hard questions are
  pointers, buffer bounds, integer widths and the agreement of writer and reader. Each theory has the
  definitions of one component in the order of the code, and then the lemmas; its properties (C1, C2,
  and so on, numbered as in the manifest) stand at its end.

  How the code is modelled. A struct is a record, an enum a datatype, a C buffer a list of bytes with
  checked access. Signed integers are \<open>int\<close>, unsigned ones and sizes \<open>nat\<close>, with the casts \<open>s32\<close>,
  \<open>s64\<close>, \<open>u32\<close>, \<open>u64\<close> of the prelude where a narrower type or a wrap-around matters; hash values, scan
  cursors, checksums and bytes are machine words. A function that can go wrong returns an option whose
  \<open>None\<close> is an access outside a buffer, a dereference of NULL or freed memory, a failed assertion or a
  panic: a theorem that a function returns \<open>Some\<close> says that none of these happens. Errors that the code
  reports are values. Memory that the code does not initialise (what \<open>zmalloc\<close> and \<open>zrealloc\<close> leave in
  a buffer, the hash table of the compressor) is a parameter, so the theorems hold whatever it holds.
  Running out of memory ends the process in the allocator and has no branch. The machine is little
  endian with 64-bit pointers and \<open>long\<close>, and two's complement, as on every platform the code builds on.

  The theories and the code they model:

    \<^item> \<open>Redis_Prelude\<close>: C integer types, byte order, and the contract \<open>prefix_codec\<close> of self-delimiting
      encodings (an encoder and a decoder that reads a value off the front of a buffer). It is
      interpreted on the lengths of the dump file in \<open>Rdb_Correct\<close>.
    \<^item> \<open>Byte_Buffer\<close>, \<open>C_Strings\<close>: checked reads, writes and moves in a buffer; \<open>strlen\<close>, \<open>strchr\<close>,
      \<open>memcmp\<close>, \<open>strtoll\<close> and the character classes of the C library.
    \<^item> \<open>Redis_Util\<close> (\<open>util.c\<close>): \<open>ll2string\<close> and \<open>string2ll\<close>, related to decimal notation (C31).
    \<^item> \<open>Redis_Glob\<close> (\<open>util.c\<close>): \<open>stringmatchlen\<close>, against a declarative meaning of patterns (C30), and
      the classes on which it leaves its buffers.
    \<^item> \<open>Redis_Crc\<close> (\<open>crc16.c\<close>, \<open>crc64.c\<close>, \<open>keyHashSlot\<close> of \<open>cluster.c\<close>): the tables and loops equal bitwise
      polynomial division (C35 for \<open>crc64\<close>), error detection, hash tags.
    \<^item> \<open>Adlist\<close> (\<open>adlist.c\<close>, \<open>adlist.h\<close>): doubly linked lists on an explicit heap of nodes. The invariant
      \<open>repr\<close> says that the nodes reachable forwards and backwards are one segment with given values;
      every operation keeps it and acts on the sequence of values (C16, C32).
    \<^item> \<open>Log_Interface\<close>, \<open>Slowlog\<close> (\<open>slowlog.c\<close>): the slow log as a client of an interface of lists
      (locale \<open>front_log\<close>), interpreted on the linked lists of \<open>Adlist\<close> (C18).
    \<^item> \<open>Keyed_Store\<close>, \<open>Dict\<close>, \<open>Dict_Map\<close>, \<open>Dict_Run\<close> (\<open>dict.c\<close>, \<open>dict.h\<close>): the hash table with its two
      tables and the incremental rehashing. The index of the rehash, the count of its steps and bucket indexes are
      C ints, whose overflow is a fault. \<open>dict_ok\<close> is the invariant, \<open>dict_map\<close> the finite map a
      dictionary stands for; every sequence of operations refines the map (C1), rehashing ends (C21),
      release frees every entry (C20). The contract \<open>Keyed_Store\<close> is interpreted on the model.
    \<^item> \<open>Dict_Scan\<close> (\<open>dictScan\<close>): the reverse binary cursor. Iterations cover what is present throughout
      (C5) and end (C22) when tables grow or rehash; a table that shrinks can lose elements (C37).
    \<^item> \<open>Intset\<close> (\<open>intset.c\<close>): integer sets on bytes with 16, 32 and 64 bit encodings and their in-place
      upgrade, as sorted lists (C8, C19, C26).
    \<^item> \<open>Lzf\<close>, \<open>Lzf_Correct\<close> (\<open>lzf_c.c\<close>, \<open>lzf_d.c\<close>): compressor and decompressor. \<open>lz_inv\<close> is the invariant of
      the compressor's loop: what is written decodes to what is read. Round trip (C6), safety of the
      decompressor on any input (C23).
    \<^item> \<open>Sds\<close>, \<open>Sds_Text\<close>, \<open>Sds_Args\<close> (\<open>sds.c\<close>, \<open>sds.h\<close>): dynamic strings. \<open>sds_repr s t\<close> says that \<open>s\<close> is
      well formed with the text \<open>t\<close>; every sequence of operations keeps it (C10). Quoting and argument
      parsing are inverse (C15).
    \<^item> \<open>Rio\<close> (\<open>rio.c\<close>, \<open>rio.h\<close>): streams in memory and on files, transfers in chunks with a running
      checksum (C13). A C stream is its bytes, a position and the room its medium has left.
    \<^item> \<open>String_Object\<close> (\<open>object.c\<close>): string objects in three encodings with the same text (C17, C33, C34).
    \<^item> \<open>Rdb\<close>, \<open>Rdb_Correct\<close> (\<open>rdb.c\<close>, \<open>rdb.h\<close>): the dump file's encoding of lengths, integers and strings,
      on top of \<open>Rio\<close>, \<open>String_Object\<close>, \<open>Redis_Util\<close> and \<open>Lzf_Correct\<close>: prefix-free lengths (C27), round trip of
      every string object (C7), a full disk is reported.

    \<^item> \<open>Ziplist\<close> (\<open>ziplist.c\<close>): the packed list on the bytes of its buffer. \<open>Ziplist_List\<close> sees a buffer as
      a list of entries and proves what the accessors read and what the cascade of length fields does
      (\<open>cas\<close>); \<open>Ziplist_Ops\<close> proves that the body of an inserted text holds it (\<open>entry_body\<close>), \<open>Ziplist_Edit\<close>
      takes insertion and deletion, step by step, to operations on the entries, \<open>Ziplist_Correct\<close> to
      operations on the list of texts (C4, C11). \<open>Ziplist_Access\<close>: indexes, neighbours, values, search
      (C24, C25). \<open>Ziplist_Reach\<close>: everything that pushes and deletions reach is well formed and takes the
      next operation (C12). \<open>Ziplist_Overrun\<close>: the insertion in the middle that leaves the buffer (C38).
    \<^item> \<open>Skiplist\<close> (\<open>t_zset.c\<close>): the skiplist of sorted sets on a heap of nodes. \<open>Skiplist_Levels\<close> gives
      the nodes positions and heights and says where pointers and searches lead; \<open>Skiplist_Edit\<close> takes the
      loops over the levels to changes of the whole heap. In \<open>Skiplist_Correct\<close>, \<open>zsl_ok\<close> relates a skiplist to a
      sorted list of scores and texts, and insertion and deletion keep it. \<open>Skiplist_Query\<close>, \<open>Skiplist_Ranges\<close>,
      \<open>Skiplist_Lex\<close>: ranks, the tests of ranges, the first and last node in one, deletions of ranges.
      \<open>Skiplist_Run\<close> composes them: runs from a new list refine the sorted list (C9), ranks (C29) and ranges
      (C28) are places in it, and one range is not seen (C40).
    \<^item> \<open>Client_Output\<close> (\<open>networking.c\<close>): the output side of a client, a fixed buffer and behind it a list of
      shared objects in a store with reference counts. \<open>Client_Buffers\<close> has the invariant \<open>net_ok\<close>, in which
      the list is a list of texts and of places for lengths to come; \<open>Client_Replies\<close> shows for each kind
      of reply what it adds (\<open>adds\<close>), \<open>Client_Send\<close> what one write event sends. \<open>Client_Run\<close> composes
      them: replies arrive in order (C3) and completely (C14). \<open>Shared_Objects\<close> (\<open>redis.c\<close>): the
      canned replies, and that they are what the replies rely on.
    \<^item> \<open>Client_Input\<close> (\<open>networking.c\<close>): the query buffer, the parsers, and the loop over the commands;
      the execution of a command is a parameter, and may pause the clients: \<open>clientsArePaused\<close> is asked, as in the
      code, before every command. \<open>Client_Parse\<close> proves that the multi bulk parser can be
      stopped at any byte and resumed: \<open>mid\<close> is its state inside a command, \<open>awaits\<close> between two calls, and
      however the stream is cut, the commands are executed (C2). \<open>Client_Inline\<close>: inline requests (C36), and
      a paused client that is lost (C39).

  Loops. Loops over a structure are primitive recursion, other loops \<open>function\<close> with a measure. Loops
  whose termination rests on an invariant (the compressor, the walks over list nodes, the expansions of a
  scan, the trimming of the log) are \<open>partial_function (option)\<close>; the theorems about them give a result, so
  they end on every input the theorem admits. There is no fuel except the number of steps that the code itself
  takes as an argument (\<open>dictRehash\<close>). The cascade of ziplists is such a \<open>partial_function\<close>, too.

  Bounds in the theorems. Lengths of dynamic strings stay below 2 to the 30, so that the preallocation
  fits the \<open>int\<close> fields of the header; the server limits strings to 512 MB. The compressor's input is
  shorter than 2 to the 32 and the entries of its uninitialised hash table lie within 2 to the 62 bytes of
  the input, as pointers of a 64-bit process do. Scans are of tables with at most 2 to the 32 buckets.
  Dictionaries have tables of at most 2 to the 30 buckets (\<open>dict_inv\<close>), which 2 to the 29 operations cannot exceed, so
  that the ints of the code do not overflow. Skiplists have less than 2 to the 32 elements, as the spans require.
  Ziplists stay below 2 to the 32 bytes, with room for the four bytes by which the cascade may lengthen
  each entry.

  Not modelled. Sockets, the event loop, threads, processes and files beyond the C stream (\<open>ae.c\<close>,
  \<open>bio.c\<close>, \<open>anet.c\<close>, \<open>aof.c\<close>, the background save of \<open>rdb.c\<close>) are system calls whose behaviour is outside
  the source; of \<open>networking.c\<close> the reads and writes of a client are modelled, with what the kernel takes and
  gives as arguments, but not accepting, listing and freeing clients. Replication, the cluster bus and
  Sentinel are network state machines over real time. Floating point (\<open>INCRBYFLOAT\<close>,
  HyperLogLog estimates, the printf family) has no bit-exact model in the libraries used here; the scores of sorted
  sets, which skiplists only compare, are a linear order.
  The Lua bindings, the command line tools and the vendored dependencies are third-party or input and output
  code. The commands (\<open>t_*.c\<close>, \<open>db.c\<close>), the server core and its configuration are not part of the model; of
  the data structures, zipmaps are not.
\<close>

end
